(* ===== verification/Prelude.thy ===== *)
theory Prelude
  imports Main "HOL-Library.Word"
begin

text \<open>
  Shared vocabulary of the development: the result type of operations that can abort, throw
  or fail to return, the machine integer types, the loop over a vector by index with the
  lemmas that carry the proofs of the per-cell passes, and the interface of a component that
  runs a sequence of operations under an invariant.
\<close>

unbundle bit_operations_syntax

section \<open>Types\<close>

type_synonym u8 = "8 word"
type_synonym u32 = "32 word"

text \<open>
  \<open>GgmlAbort\<close> is a failing \<open>GGML_ASSERT\<close> or \<open>GGML_ABORT\<close>, \<open>Throw\<close> a C++ exception with its
  message, \<open>Diverge\<close> an execution that does not return (or exhausts the fuel of the model) and
  \<open>Undef\<close> undefined behaviour (a null dereference, a signed overflow, a division by zero).
\<close>

datatype failure = GgmlAbort | Throw string | Diverge | Undef

type_synonym 'a res = "failure + 'a"

definition bind_res :: "'a res \<Rightarrow> ('a \<Rightarrow> 'b res) \<Rightarrow> 'b res" where
  "bind_res m f = (case m of Inl e \<Rightarrow> Inl e | Inr x \<Rightarrow> f x)"

definition ggml_assert :: "bool \<Rightarrow> unit res" where
  "ggml_assert b = (if b then Inr () else Inl GgmlAbort)"

lemma bind_res_simps [simp]:
  "bind_res (Inl e) f = Inl e" "bind_res (Inr x) f = f x"
  by (simp_all add: bind_res_def)

lemma bind_res_eq_Inr [simp]:
  "bind_res m f = Inr y \<longleftrightarrow> (\<exists>x. m = Inr x \<and> f x = Inr y)"
  by (cases m) auto

lemma ggml_assert_eq_Inr [simp]: "ggml_assert b = Inr u \<longleftrightarrow> b"
  by (simp add: ggml_assert_def)

lemma ggml_assert_True [simp]: "b \<Longrightarrow> ggml_assert b = Inr ()"
  by (simp add: ggml_assert_def)

text \<open>A loop whose body can fail: the first failure ends it.\<close>

primrec fold_res :: "('a \<Rightarrow> 's \<Rightarrow> 's res) \<Rightarrow> 'a list \<Rightarrow> 's \<Rightarrow> 's res" where
  "fold_res f [] s = Inr s"
| "fold_res f (x # xs) s = bind_res (f x s) (fold_res f xs)"

text \<open>A loop that collects one result per element.\<close>

primrec map_res :: "('a \<Rightarrow> 'b res) \<Rightarrow> 'a list \<Rightarrow> 'b list res" where
  "map_res f [] = Inr []"
| "map_res f (x # xs) = bind_res (f x) (\<lambda>y. bind_res (map_res f xs) (\<lambda>ys. Inr (y # ys)))"

lemma bind_res_eq_Inl:
  "bind_res m f = Inl e \<longleftrightarrow> m = Inl e \<or> (\<exists>x. m = Inr x \<and> f x = Inl e)"
  by (cases m) auto

lemma bind_res_cong [fundef_cong]:
  "m = m' \<Longrightarrow> (\<And>x. m' = Inr x \<Longrightarrow> f x = g x) \<Longrightarrow> bind_res m f = bind_res m' g"
  by (cases m') auto

lemma fold_res_append: "fold_res f (xs @ ys) s = bind_res (fold_res f xs s) (fold_res f ys)"
  by (induction xs arbitrary: s) (auto simp: bind_res_def split: sum.splits)

text \<open>The largest \<open>llama_pos\<close> (\<open>int32_t\<close>).\<close>

definition INT32_MAX :: int where
  "INT32_MAX = 2147483647"

text \<open>Signed 32-bit arithmetic: a result that does not fit is undefined behaviour. C++ division truncates towards zero.\<close>

definition fits_int32 :: "int \<Rightarrow> bool" where
  "fits_int32 x \<longleftrightarrow> - INT32_MAX - 1 \<le> x \<and> x \<le> INT32_MAX"

definition int32 :: "int \<Rightarrow> int res" where
  "int32 x = (if fits_int32 x then Inr x else Inl Undef)"

definition trunc_div :: "int \<Rightarrow> int \<Rightarrow> int" where
  "trunc_div a b = sgn a * sgn b * (\<bar>a\<bar> div \<bar>b\<bar>)"

definition int32_div :: "int \<Rightarrow> int \<Rightarrow> int res" where
  "int32_div a b = (if b = 0 then Inl Undef else int32 (trunc_div a b))"

lemma int32_eq_Inr [simp]: "int32 x = Inr y \<longleftrightarrow> fits_int32 x \<and> y = x"
  by (auto simp: int32_def)

lemma int32_eq_Inl [simp]: "int32 x = Inl e \<longleftrightarrow> \<not> fits_int32 x \<and> e = Undef"
  by (auto simp: int32_def)

lemma int32_div_eq_Inr [simp]: "int32_div a b = Inr y \<longleftrightarrow> b \<noteq> 0 \<and> fits_int32 (trunc_div a b) \<and> y = trunc_div a b"
  by (auto simp: int32_div_def)

lemma int32_div_eq_Inl [simp]: "int32_div a b = Inl e \<longleftrightarrow> (b = 0 \<or> \<not> fits_int32 (trunc_div a b)) \<and> e = Undef"
  by (auto simp: int32_div_def)

section \<open>Loops over a vector\<close>

text \<open>
  \<open>for_each_i f i xs s\<close> is the loop \<open>for (i = ...; i < xs.size(); ++i)\<close> whose body reads and
  writes element \<open>i\<close> of the vector and the local state \<open>s\<close> only.
\<close>

fun for_each_i :: "(nat \<Rightarrow> 'a \<Rightarrow> 's \<Rightarrow> 'a \<times> 's) \<Rightarrow> nat \<Rightarrow> 'a list \<Rightarrow> 's \<Rightarrow> 'a list \<times> 's" where
  "for_each_i f i [] s = ([], s)"
| "for_each_i f i (x # xs) s =
     (case f i x s of (x', s') \<Rightarrow>
        (case for_each_i f (Suc i) xs s' of (xs', s'') \<Rightarrow> (x' # xs', s'')))"

text \<open>The loop whose body can fail: the first failure ends it.\<close>

fun for_each_i_res :: "(nat \<Rightarrow> 'a \<Rightarrow> 's \<Rightarrow> ('a \<times> 's) res) \<Rightarrow> nat \<Rightarrow> 'a list \<Rightarrow> 's \<Rightarrow> ('a list \<times> 's) res" where
  "for_each_i_res f i [] s = Inr ([], s)"
| "for_each_i_res f i (x # xs) s =
     bind_res (f i x s) (\<lambda>(x', s').
     bind_res (for_each_i_res f (Suc i) xs s') (\<lambda>(xs', s''). Inr (x' # xs', s'')))"

text \<open>A run that does not fail is the run of the body that leaves the element alone where it would fail, and whether it
  fails depends on the elements only when that is so of the body.\<close>

definition ok_or_same :: "(nat \<Rightarrow> 'a \<Rightarrow> 's \<Rightarrow> ('a \<times> 's) res) \<Rightarrow> nat \<Rightarrow> 'a \<Rightarrow> 's \<Rightarrow> 'a \<times> 's" where
  "ok_or_same f i x s = (case f i x s of Inl e \<Rightarrow> (x, s) | Inr r \<Rightarrow> r)"

lemma for_each_i_res_ok:
  "for_each_i_res f i xs s = Inr r \<Longrightarrow> for_each_i (ok_or_same f) i xs s = r"
proof (induction xs arbitrary: i s r)
  case (Cons x xs)
  then obtain x' s' xs' s'' where 1: "f i x s = Inr (x', s')" "for_each_i_res f (Suc i) xs s' = Inr (xs', s'')" "r = (x' # xs', s'')"
    by auto
  then show ?case using Cons.IH[OF 1(2)] by (simp add: ok_or_same_def)
qed simp

lemma for_each_i_res_fails:
  assumes "\<And>i x s. case f i x s of Inl e \<Rightarrow> bad x \<and> e = err | Inr r \<Rightarrow> \<not> bad x"
  shows "case for_each_i_res f i xs s of Inl e \<Rightarrow> (\<exists>x \<in> set xs. bad x) \<and> e = err | Inr r \<Rightarrow> \<forall>x \<in> set xs. \<not> bad x"
proof (induction xs arbitrary: i s)
  case (Cons x xs)
  show ?case
  proof (cases "f i x s")
    case (Inr r)
    then show ?thesis using assms[where i = i and x = x and s = s] Cons.IH[of "Suc i" "snd r"]
      by (cases r; cases "for_each_i_res f (Suc i) xs (snd r)") auto
  qed (use assms[where i = i and x = x and s = s] in simp)
qed simp

lemma length_for_each_i [simp]: "length (fst (for_each_i f i xs s)) = length xs"
  by (induction xs arbitrary: i s) (auto split: prod.splits, metis fst_conv)

text \<open>When what the body writes to the element does not depend on the local state, the
  elements after the loop are a map over the elements before it.\<close>

lemma for_each_i_map:
  assumes "\<And>i x s. fst (f i x s) = g x"
  shows "fst (for_each_i f i xs s) = map g xs"
proof (induction xs arbitrary: i s)
  case (Cons x xs)
  show ?case using assms[of i x s] Cons.IH by (auto split: prod.splits, metis fst_conv)
qed simp

lemma for_each_i_map_idx:
  assumes "\<And>i x s. fst (f i x s) = g i x"
  shows "fst (for_each_i f k xs s) = map (\<lambda>(i, x). g i x) (zip [k..<k + length xs] xs)"
proof (induction xs arbitrary: k s)
  case (Cons x xs)
  have "[k..<k + length (x # xs)] = k # [Suc k..<Suc k + length xs]"
    by (subst upt_conv_Cons) auto
  then show ?case using assms[of k x s] Cons.IH[of "Suc k"]
    by (auto split: prod.splits) (metis fst_conv)
qed simp

text \<open>A counter kept by the body: when every step changes it by \<open>w\<close> of the new element minus
  \<open>w\<close> of the old one, it tracks the sum of \<open>w\<close> over the vector.\<close>

lemma for_each_i_counter:
  fixes w :: "'a \<Rightarrow> 'n::comm_ring_1"
  assumes "\<And>i x s. P x \<Longrightarrow> cnt (snd (f i x s)) = cnt s + w (fst (f i x s)) - w x"
    and "\<And>x. x \<in> set xs \<Longrightarrow> P x"
  shows "cnt (snd (for_each_i f i xs s))
       = cnt s + sum_list (map w (fst (for_each_i f i xs s))) - sum_list (map w xs)"
  using assms(2)
proof (induction xs arbitrary: i s)
  case (Cons x xs)
  obtain x' s' where 1: "f i x s = (x', s')" by fastforce
  obtain xs' s'' where 2: "for_each_i f (Suc i) xs s' = (xs', s'')" by fastforce
  have "cnt s' = cnt s + w x' - w x" using assms(1)[of x i s] Cons.prems 1 by simp
  moreover have "cnt s'' = cnt s' + sum_list (map w xs') - sum_list (map w xs)"
    using Cons.IH[of "Suc i" s'] Cons.prems 2 by simp
  ultimately show ?case by (simp add: 1 2)
qed simp

lemma for_each_i_all:
  assumes "\<And>i x s. P x \<Longrightarrow> Q (fst (f i x s))" and "\<And>x. x \<in> set xs \<Longrightarrow> P x"
  shows "y \<in> set (fst (for_each_i f i xs s)) \<Longrightarrow> Q y"
  using assms(2)
proof (induction xs arbitrary: i s)
  case (Cons x xs)
  then show ?case using assms(1)[of x i s]
    by (auto split: prod.splits) (metis fst_conv)+
qed simp

lemma sum_list_of_bool_filter:
  "sum_list (map (\<lambda>x. of_bool (P x)) xs) = (of_nat (length (filter P xs)) :: 'n::comm_ring_1)"
  by (induction xs) auto

text \<open>A loop that updates pairwise different elements, each from its own old value.\<close>

lemma length_fold_upd [simp]:
  "length (fold (\<lambda>k cs. cs[g k := f k (cs ! g k)]) ks xs) = length xs"
  by (induction ks arbitrary: xs) auto

lemma fold_upd_other:
  "j \<notin> g ` set ks \<Longrightarrow> fold (\<lambda>k cs. cs[g k := f k (cs ! g k)]) ks xs ! j = xs ! j"
  by (induction ks arbitrary: xs) auto

lemma fold_upd_nth:
  assumes "distinct (map g ks)" "k \<in> set ks" "g k < length xs"
  shows "fold (\<lambda>k cs. cs[g k := f k (cs ! g k)]) ks xs ! g k = f k (xs ! g k)"
  using assms
proof (induction ks arbitrary: xs)
  case (Cons a ks)
  show ?case
  proof (cases "k = a")
    case True
    with Cons.prems have "g k \<notin> g ` set ks" by auto
    with True Cons.prems show ?thesis by (simp add: fold_upd_other)
  next
    case False
    with Cons.prems have "g a \<noteq> g k" by (auto simp: image_iff)
    with False Cons show ?thesis by simp
  qed
qed simp

lemma fold_fold_concat: "fold (\<lambda>x. fold f (g x)) xs s = fold f (concat (map g xs)) s"
  by (induction xs arbitrary: s) simp_all

lemma concat_rows: "concat (map (\<lambda>s. map (\<lambda>i. s * m + i) [0..<m]) [0..<n]) = [0..<n * m]" for n m :: nat
proof (induction n)
  case (Suc n)
  have "map (\<lambda>i. n * m + i) [0..<m] = [n * m..<n * m + m]"
    by (rule nth_equalityI) auto
  moreover have "[0..<n * m] @ [n * m..<n * m + m] = [0..<Suc n * m]"
    using upt_add_eq_append[of 0 "n * m" m] by (simp add: add.commute)
  ultimately show ?case using Suc by simp
qed simp

section \<open>Runs of operations under an invariant\<close>

text \<open>
  The contract a stateful component offers to its clients: every operation that returns keeps
  the invariant. The client lemma is that every state a sequence of operations reaches from a
  good state is good.
\<close>

inductive reach :: "('s \<Rightarrow> 'o \<Rightarrow> 's \<Rightarrow> bool) \<Rightarrow> 's \<Rightarrow> 's \<Rightarrow> bool" for step where
  reach_refl: "reach step s s"
| reach_step: "reach step s t \<Longrightarrow> step t opn u \<Longrightarrow> reach step s u"

locale invariant_component =
  fixes step :: "'s \<Rightarrow> 'o \<Rightarrow> 's \<Rightarrow> bool"
    and good :: "'s \<Rightarrow> bool"
  assumes good_step: "good s \<Longrightarrow> step s opn t \<Longrightarrow> good t"
begin

lemma good_reach: "reach step s t \<Longrightarrow> good s \<Longrightarrow> good t"
  by (induction rule: reach.induct) (auto intro: good_step)

end

end
