(* ===== verification/Batch.thy ===== *)
theory Batch
  imports Prelude
begin

text \<open>
  Batches of tokens (\<open>src/llm/llama.cpp/src/llama-batch.h\<close> and \<open>llama-batch.cpp\<close>): the batch the
  user submits, the sequence-aware \<open>sbatch\<close> and the micro-batches it is split into. A pointer
  that may be null is an option; the arrays are lists. Embeddings are only copied, so a float is
  its 32-bit pattern.
\<close>

section \<open>Data\<close>

record llama_batch =
  b_n_tokens :: int
  b_token :: "int list option"
  b_embd :: "u32 list option"
  b_pos :: "int list option"
  b_n_seq_id :: "int list option"
  b_seq_id :: "int list list option"
  b_logits :: "int list option"

record llama_ubatch =
  ub_equal_seqs :: bool
  ub_n_tokens :: nat
  ub_n_seq_tokens :: nat
  ub_n_seqs :: nat
  ub_token :: "int list option"
  ub_embd :: "u32 list option"
  ub_pos :: "int list"
  ub_n_seq_id :: "int list"
  ub_seq_id :: "int list list"
  ub_output :: "int list"

text \<open>A sequence of an sbatch is a slice of the sorted ids that belong to the same set of sequences.\<close>

record llama_sbatch_seq =
  ss_n_seq_id :: int
  ss_seq_id :: "int list option"
  ss_offset :: nat
  ss_length :: nat

text \<open>The buffers behind a micro-batch are part of the micro-batch here; what a buffer held for the
  previous one is not kept (a reserved buffer starts with zeros).\<close>

record llama_sbatch =
  sb_n_tokens :: nat
  sb_n_embd :: nat
  sb_logits_all :: bool
  sb_ids :: "nat list"
  sb_out_ids :: "nat list"
  sb_seq :: "llama_sbatch_seq list"
  sb_batch :: "llama_batch option"

section \<open>Reading and writing arrays\<close>

definition deref :: "'a option \<Rightarrow> 'a res" where
  "deref p = (case p of None \<Rightarrow> Inl Undef | Some x \<Rightarrow> Inr x)"

definition index_res :: "'a list \<Rightarrow> nat \<Rightarrow> 'a res" where
  "index_res xs i = (if i < length xs then Inr (xs ! i) else Inl Undef)"

text \<open>\<open>write_at k vs arr\<close> stores \<open>vs\<close> from index \<open>k\<close> on.\<close>

definition write_at :: "nat \<Rightarrow> 'a list \<Rightarrow> 'a list \<Rightarrow> 'a list res" where
  "write_at k vs arr = (if k + length vs \<le> length arr then Inr (take k arr @ vs @ drop (k + length vs) arr) else Inl Undef)"

text \<open>The slice of the sorted ids a sequence takes next, and the rows of an array at given indices.\<close>

definition slice_ids :: "nat list \<Rightarrow> nat \<Rightarrow> nat \<Rightarrow> nat list res" where
  "slice_ids ids offset n = (if offset + n \<le> length ids then Inr (take n (drop offset ids)) else Inl Undef)"

definition gather :: "'a list \<Rightarrow> nat list \<Rightarrow> 'a list res" where
  "gather arr sel = map_res (index_res arr) sel"

definition row_res :: "nat \<Rightarrow> 'a list \<Rightarrow> nat \<Rightarrow> 'a list res" where
  "row_res w arr i = (if w * i + w \<le> length arr then Inr (take w (drop (w * i) arr)) else Inl Undef)"

text \<open>A pointer into an array at an offset.\<close>

definition advance_ptr :: "nat \<Rightarrow> 'a list \<Rightarrow> 'a list res" where
  "advance_ptr n arr = (if n \<le> length arr then Inr (drop n arr) else Inl Undef)"

section \<open>Splitting into micro-batches\<close>

fun pop_empty_rev :: "llama_sbatch_seq list \<Rightarrow> llama_sbatch_seq list" where
  "pop_empty_rev [] = []"
| "pop_empty_rev (s # ss) = (if ss_length s = 0 then pop_empty_rev ss else s # ss)"

definition pop_empty :: "llama_sbatch_seq list \<Rightarrow> llama_sbatch_seq list" where
  "pop_empty ss = rev (pop_empty_rev (rev ss))"

definition reserve_ubatch :: "nat \<Rightarrow> bool \<Rightarrow> llama_sbatch \<Rightarrow> llama_ubatch \<times> llama_sbatch" where
  "reserve_ubatch n_ubatch has_embd sb =
     (\<lparr>ub_equal_seqs = True, ub_n_tokens = 0, ub_n_seq_tokens = 0, ub_n_seqs = 0,
       ub_token = (if has_embd then None else Some (replicate n_ubatch 0)),
       ub_embd = (if has_embd then Some (replicate (sb_n_embd sb * n_ubatch) 0) else None),
       ub_pos = replicate n_ubatch 0, ub_n_seq_id = replicate n_ubatch 0,
       ub_seq_id = replicate n_ubatch [], ub_output = replicate n_ubatch 0\<rparr>,
      sb\<lparr>sb_seq := pop_empty (sb_seq sb)\<rparr>)"

text \<open>The parts of \<open>add_seq_to_ubatch\<close>: tokens, embeddings, positions, sequence ids and outputs.\<close>

definition add_tokens :: "llama_batch \<Rightarrow> nat list \<Rightarrow> nat \<Rightarrow> llama_ubatch \<Rightarrow> llama_ubatch res" where
  "add_tokens batch sel offset ub =
     (case b_token batch of
        None \<Rightarrow> Inr (ub\<lparr>ub_token := None\<rparr>)
      | Some toks \<Rightarrow>
          if ub_equal_seqs ub then
            bind_res (gather toks sel) (\<lambda>vs. bind_res (deref (ub_token ub)) (\<lambda>arr.
              bind_res (write_at (ub_n_tokens ub) vs arr) (\<lambda>arr'. Inr (ub\<lparr>ub_token := Some arr'\<rparr>))))
          else bind_res (advance_ptr offset toks) (\<lambda>p. Inr (ub\<lparr>ub_token := Some p\<rparr>)))"

definition add_embd :: "nat \<Rightarrow> llama_batch \<Rightarrow> nat list \<Rightarrow> nat \<Rightarrow> llama_ubatch \<Rightarrow> llama_ubatch res" where
  "add_embd n_embd batch sel offset ub =
     (case b_embd batch of
        None \<Rightarrow> Inr (ub\<lparr>ub_embd := None\<rparr>)
      | Some es \<Rightarrow>
          if ub_equal_seqs ub then
            bind_res (map_res (row_res n_embd es) sel) (\<lambda>rows. bind_res (deref (ub_embd ub)) (\<lambda>arr.
              bind_res (write_at (n_embd * ub_n_tokens ub) (concat rows) arr) (\<lambda>arr'. Inr (ub\<lparr>ub_embd := Some arr'\<rparr>))))
          else bind_res (advance_ptr (n_embd * offset) es) (\<lambda>p. Inr (ub\<lparr>ub_embd := Some p\<rparr>)))"

definition add_pos :: "llama_batch \<Rightarrow> nat list \<Rightarrow> nat \<Rightarrow> llama_ubatch \<Rightarrow> llama_ubatch res" where
  "add_pos batch sel offset ub =
     bind_res (deref (b_pos batch)) (\<lambda>ps.
       if ub_equal_seqs ub then
         bind_res (gather ps sel) (\<lambda>vs. bind_res (write_at (ub_n_tokens ub) vs (ub_pos ub)) (\<lambda>arr'.
           Inr (ub\<lparr>ub_pos := arr'\<rparr>)))
       else bind_res (advance_ptr offset ps) (\<lambda>p. Inr (ub\<lparr>ub_pos := p\<rparr>)))"

definition add_seq_ids :: "llama_batch \<Rightarrow> llama_sbatch_seq \<Rightarrow> nat \<Rightarrow> llama_ubatch \<Rightarrow> llama_ubatch res" where
  "add_seq_ids batch s n ub =
     (if ub_equal_seqs ub then
        bind_res (write_at (ub_n_seqs ub) [ss_n_seq_id s] (ub_n_seq_id ub)) (\<lambda>ns.
          case ss_seq_id s of
            None \<Rightarrow> Inr (ub\<lparr>ub_n_seq_id := ns\<rparr>)
          | Some ids \<Rightarrow> bind_res (write_at (ub_n_seqs ub) [ids] (ub_seq_id ub)) (\<lambda>sq.
              Inr (ub\<lparr>ub_n_seq_id := ns, ub_seq_id := sq\<rparr>)))
      else
        bind_res (case b_n_seq_id batch of
            Some ns \<Rightarrow> advance_ptr (ss_offset s) ns
          | None \<Rightarrow> write_at (ub_n_seqs ub) (replicate n 1) (ub_n_seq_id ub)) (\<lambda>ns.
          case b_seq_id batch of
            None \<Rightarrow> Inr (ub\<lparr>ub_n_seq_id := ns\<rparr>)
          | Some sq \<Rightarrow> bind_res (advance_ptr (ss_offset s) sq) (\<lambda>sq'.
              Inr (ub\<lparr>ub_n_seq_id := ns, ub_seq_id := sq'\<rparr>))))"

text \<open>The outputs of the micro-batch and the ids they add to \<open>out_ids\<close>.\<close>

definition add_output ::
  "bool \<Rightarrow> llama_batch \<Rightarrow> nat \<Rightarrow> nat list \<Rightarrow> nat \<Rightarrow> llama_ubatch \<Rightarrow> (llama_ubatch \<times> nat list) res" where
  "add_output logits_all batch n_ids sel offset ub =
     (let write = (\<lambda>vs. bind_res (write_at (ub_n_tokens ub) vs (ub_output ub)) (\<lambda>arr'.
                     Inr (ub\<lparr>ub_output := arr'\<rparr>, map fst (filter (\<lambda>(i, v). v \<noteq> 0) (zip sel vs))))) in
      if logits_all then write (replicate (length sel) 1)
      else
        (case b_logits batch of
           Some ls \<Rightarrow>
             if ub_equal_seqs ub then bind_res (gather ls sel) write
             else bind_res (advance_ptr offset ls) (\<lambda>p.
                    if length sel \<le> length p
                    then Inr (ub\<lparr>ub_output := p\<rparr>, map (\<lambda>i. offset + i) (filter (\<lambda>i. p ! i \<noteq> 0) [0..<length sel]))
                    else Inl Undef)
         | None \<Rightarrow> write (map (\<lambda>i. of_bool (i + 1 = n_ids)) sel)))"

definition add_seq_to_ubatch :: "llama_ubatch \<Rightarrow> nat \<Rightarrow> nat \<Rightarrow> llama_sbatch \<Rightarrow> (llama_ubatch \<times> llama_sbatch) res" where
  "add_seq_to_ubatch ub k n sb =
     (case sb_batch sb of
        None \<Rightarrow> Inl GgmlAbort
      | Some batch \<Rightarrow>
          bind_res (index_res (sb_seq sb) k) (\<lambda>s.
          bind_res (ggml_assert (n \<le> ss_length s)) (\<lambda>_.
          bind_res (ggml_assert (ss_n_seq_id s = 0 \<or> ub_n_seqs ub = 0 \<or> n = ub_n_tokens ub div ub_n_seqs ub)) (\<lambda>_.
          bind_res (ggml_assert ((ss_n_seq_id s \<noteq> 0) = ub_equal_seqs ub)) (\<lambda>_.
          bind_res (slice_ids (sb_ids sb) (ss_offset s) n) (\<lambda>sel.
          bind_res (add_tokens batch sel (ss_offset s) ub) (\<lambda>ub1.
          bind_res (add_embd (sb_n_embd sb) batch sel (ss_offset s) ub1) (\<lambda>ub2.
          bind_res (add_pos batch sel (ss_offset s) ub2) (\<lambda>ub3.
          bind_res (add_seq_ids batch s n ub3) (\<lambda>ub4.
          bind_res (add_output (sb_logits_all sb) batch (length (sb_ids sb)) sel (ss_offset s) ub4) (\<lambda>(ub5, outs).
            let ub6 = (if ub_n_tokens ub5 = 0 \<and> ub_n_seqs ub5 = 0
                       then ub5\<lparr>ub_n_seq_tokens := (if ub_equal_seqs ub5 then n else 1)\<rparr> else ub5);
                ub7 = ub6\<lparr>ub_n_tokens := ub_n_tokens ub6 + n,
                          ub_n_seqs := ub_n_seqs ub6 + (if ub_equal_seqs ub6 then 1 else n)\<rparr>;
                sb' = sb\<lparr>sb_out_ids := sb_out_ids sb @ outs,
                         sb_seq := (sb_seq sb)[k := s\<lparr>ss_offset := ss_offset s + n, ss_length := ss_length s - n\<rparr>],
                         sb_n_tokens := sb_n_tokens sb - n\<rparr>
            in bind_res (ggml_assert (ub_n_tokens ub7 = ub_n_seq_tokens ub7 * ub_n_seqs ub7)) (\<lambda>_.
                 Inr (ub7, sb')))))))))))))"

text \<open>The three ways to take the next micro-batch.\<close>

definition start_split :: "nat \<Rightarrow> llama_sbatch \<Rightarrow> (nat \<times> llama_ubatch \<times> llama_sbatch) res" where
  "start_split n_ubatch sb =
     (let n = (if sb_n_tokens sb < n_ubatch then sb_n_tokens sb else n_ubatch) in
      bind_res (deref (sb_batch sb)) (\<lambda>batch.
        case reserve_ubatch n (b_embd batch \<noteq> None) sb of (ub, sb') \<Rightarrow> Inr (n, ub, sb')))"

definition split_simple :: "nat \<Rightarrow> llama_sbatch \<Rightarrow> (llama_ubatch \<times> llama_sbatch) res" where
  "split_simple n_ubatch sb =
     bind_res (start_split n_ubatch sb) (\<lambda>(n, ub0, sb0).
       let ub = ub0\<lparr>ub_equal_seqs := False\<rparr> in
       case sb_seq sb0 of
         [] \<Rightarrow> Inr (ub, sb0)
       | s # _ \<Rightarrow>
           bind_res (ggml_assert (length (sb_seq sb0) = 1 \<and> ss_n_seq_id s = 0)) (\<lambda>_.
             add_seq_to_ubatch ub 0 (if ss_length s < n then ss_length s else n) sb0))"

text \<open>The loop of \<open>split_equal\<close> over the sequences from the last one; \<open>n = 0\<close> as long as no
  sequence has set the common length.\<close>

fun equal_loop :: "nat \<Rightarrow> nat \<Rightarrow> nat \<Rightarrow> nat \<Rightarrow> llama_ubatch \<Rightarrow> llama_sbatch \<Rightarrow> (llama_ubatch \<times> llama_sbatch) res" where
  "equal_loop n_ubatch 0 n in_ubatch ub sb = Inr (ub, sb)"
| "equal_loop n_ubatch (Suc i) n in_ubatch ub sb =
     bind_res (index_res (sb_seq sb) i) (\<lambda>s.
     bind_res (ggml_assert (ss_length s > 0)) (\<lambda>_.
       let n' = (if n = 0 then (if ss_length s < n_ubatch then ss_length s else n_ubatch) else n) in
       bind_res (add_seq_to_ubatch ub i n' sb) (\<lambda>(ub', sb').
         if ss_n_seq_id s > 1 \<or> n' + (in_ubatch + n') > n_ubatch then Inr (ub', sb')
         else equal_loop n_ubatch i n' (in_ubatch + n') ub' sb')))"

definition split_equal :: "nat \<Rightarrow> llama_sbatch \<Rightarrow> (llama_ubatch \<times> llama_sbatch) res" where
  "split_equal n_ubatch sb =
     bind_res (start_split n_ubatch sb) (\<lambda>(n, ub, sb0).
       case sb_seq sb0 of
         [] \<Rightarrow> Inr (ub, sb0)
       | s # _ \<Rightarrow>
           bind_res (ggml_assert (ss_n_seq_id s > 0)) (\<lambda>_. equal_loop n (length (sb_seq sb0)) 0 0 ub sb0))"

definition split_seq :: "nat \<Rightarrow> llama_sbatch \<Rightarrow> (llama_ubatch \<times> llama_sbatch) res" where
  "split_seq n_ubatch sb =
     bind_res (start_split n_ubatch sb) (\<lambda>(n, ub, sb0).
       if sb_seq sb0 = [] then Inr (ub, sb0)
       else
         (let k = length (sb_seq sb0) - 1; s = sb_seq sb0 ! k in
          bind_res (ggml_assert (ss_n_seq_id s > 0)) (\<lambda>_.
            add_seq_to_ubatch ub k (if ss_length s < n then ss_length s else n) sb0)))"

section \<open>Building the sbatch\<close>

text \<open>\<open>std::sort\<close> takes a comparison and gives some sorted permutation; it is a parameter.\<close>

definition n_seq_of :: "llama_batch \<Rightarrow> nat \<Rightarrow> int" where
  "n_seq_of batch i = (case b_n_seq_id batch of None \<Rightarrow> 1 | Some ns \<Rightarrow> ns ! i)"

fun lex_ids :: "int list \<Rightarrow> int list \<Rightarrow> nat \<Rightarrow> bool option" where
  "lex_ids as bs 0 = None"
| "lex_ids (a # as) (b # bs) (Suc n) = (if a \<noteq> b then Some (a < b) else lex_ids as bs n)"
| "lex_ids _ _ (Suc n) = None"

definition less_token :: "llama_batch \<Rightarrow> nat \<Rightarrow> nat \<Rightarrow> bool" where
  "less_token batch a b =
     (if n_seq_of batch a = n_seq_of batch b then
        (case (case b_seq_id batch of None \<Rightarrow> None | Some sq \<Rightarrow> lex_ids (sq ! a) (sq ! b) (nat (n_seq_of batch a))) of
           Some r \<Rightarrow> r
         | None \<Rightarrow> (case b_pos batch of Some ps \<Rightarrow> ps ! a < ps ! b | None \<Rightarrow> a < b))
      else n_seq_of batch a > n_seq_of batch b)"

definition less_seq :: "llama_sbatch_seq \<Rightarrow> llama_sbatch_seq \<Rightarrow> bool" where
  "less_seq a b = (if ss_n_seq_id a = ss_n_seq_id b then ss_length a > ss_length b else ss_n_seq_id a < ss_n_seq_id b)"

text \<open>The loop that groups the sorted ids; the flag is whether \<open>last_seq\<close> points to the last sequence. The
  sequence ids of a token are as many as its \<open>n_seq_id\<close> says.\<close>

fun init_seqs :: "llama_batch \<Rightarrow> nat \<Rightarrow> nat list \<Rightarrow> bool \<Rightarrow> llama_sbatch_seq list \<Rightarrow> llama_sbatch_seq list res" where
  "init_seqs batch i [] has_last seqs = Inr seqs"
| "init_seqs batch i (bi # bis) has_last seqs =
     bind_res (bind_res (deref (b_n_seq_id batch)) (\<lambda>ns. index_res ns bi)) (\<lambda>n_seqs.
     bind_res (bind_res (deref (b_seq_id batch)) (\<lambda>sq. index_res sq bi)) (\<lambda>seq_ids.
       let l = last seqs;
           same = (has_last \<and> n_seqs = ss_n_seq_id l
                   \<and> (case ss_seq_id l of None \<Rightarrow> False
                      | Some ids \<Rightarrow> take (nat n_seqs) seq_ids = take (nat n_seqs) ids)) in
       if same then init_seqs batch (Suc i) bis True (butlast seqs @ [l\<lparr>ss_length := ss_length l + 1\<rparr>])
       else init_seqs batch (Suc i) bis True
              (seqs @ [\<lparr>ss_n_seq_id = n_seqs, ss_seq_id = Some seq_ids, ss_offset = i, ss_length = 1\<rparr>])))"

definition from_batch ::
  "((nat \<Rightarrow> nat \<Rightarrow> bool) \<Rightarrow> nat list \<Rightarrow> nat list)
   \<Rightarrow> ((llama_sbatch_seq \<Rightarrow> llama_sbatch_seq \<Rightarrow> bool) \<Rightarrow> llama_sbatch_seq list \<Rightarrow> llama_sbatch_seq list)
   \<Rightarrow> llama_batch \<Rightarrow> nat \<Rightarrow> bool \<Rightarrow> bool \<Rightarrow> llama_sbatch \<Rightarrow> llama_sbatch res" where
  "from_batch sort_ids sort_seqs batch n_embd simple logits_all sb =
     bind_res (ggml_assert (b_n_tokens batch \<ge> 0)) (\<lambda>_.
       let n = nat (b_n_tokens batch);
           sb1 = sb\<lparr>sb_batch := Some batch, sb_n_embd := n_embd, sb_logits_all := logits_all,
                    sb_n_tokens := n, sb_ids := [0..<n], sb_out_ids := []\<rparr> in
       if simple
       then Inr (sb1\<lparr>sb_seq := [\<lparr>ss_n_seq_id = 0, ss_seq_id = None, ss_offset = 0, ss_length = n\<rparr>]\<rparr>)
       else
         (let ids = sort_ids (less_token batch) [0..<n] in
          bind_res (init_seqs batch 0 ids False (sb_seq sb1)) (\<lambda>seqs.
            Inr (sb1\<lparr>sb_ids := ids, sb_seq := sort_seqs less_seq seqs\<rparr>))))"

section \<open>Batches\<close>

text \<open>\<open>llama_batch_allocr\<close>: the arrays the caller left out.\<close>

definition llama_batch_allocr :: "llama_batch \<Rightarrow> int \<Rightarrow> llama_batch res" where
  "llama_batch_allocr in_batch p0 =
     bind_res (ggml_assert (b_n_tokens in_batch > 0)) (\<lambda>_.
       let n = nat (b_n_tokens in_batch) in
       Inr (in_batch\<lparr>
         b_pos := (case b_pos in_batch of None \<Rightarrow> Some (map (\<lambda>i. int i + p0) [0..<n]) | Some x \<Rightarrow> Some x),
         b_n_seq_id := (case b_n_seq_id in_batch of None \<Rightarrow> Some (replicate n 1) | Some x \<Rightarrow> Some x),
         b_seq_id := (case b_seq_id in_batch of None \<Rightarrow> Some (replicate n [0]) | Some x \<Rightarrow> Some x),
         b_logits := (case b_logits in_batch of None \<Rightarrow> Some ((replicate n 0)[n - 1 := 1]) | Some x \<Rightarrow> Some x)\<rparr>))"

definition llama_batch_get_one :: "int list \<Rightarrow> int \<Rightarrow> llama_batch" where
  "llama_batch_get_one tokens n_tokens =
     \<lparr>b_n_tokens = n_tokens, b_token = Some tokens, b_embd = None, b_pos = None,
      b_n_seq_id = None, b_seq_id = None, b_logits = None\<rparr>"

text \<open>\<open>llama_batch_init\<close>: arrays of the given sizes; their contents are whatever the allocator left there.\<close>

definition llama_batch_init :: "(nat \<Rightarrow> int list) \<Rightarrow> nat \<Rightarrow> nat \<Rightarrow> nat \<Rightarrow> llama_batch" where
  "llama_batch_init mem n_tokens_alloc embd n_seq_max =
     \<lparr>b_n_tokens = 0,
      b_token = (if embd \<noteq> 0 then None else Some (mem n_tokens_alloc)),
      b_embd = (if embd \<noteq> 0 then Some (map of_int (mem (n_tokens_alloc * embd))) else None),
      b_pos = Some (mem n_tokens_alloc),
      b_n_seq_id = Some (mem n_tokens_alloc),
      b_seq_id = Some (map (\<lambda>_. mem n_seq_max) [0..<n_tokens_alloc]),
      b_logits = Some (mem n_tokens_alloc)\<rparr>"

text \<open>The loop of \<open>llama_decode_impl\<close> that takes micro-batches while tokens are left.\<close>

fun split_all ::
  "(llama_sbatch \<Rightarrow> (llama_ubatch \<times> llama_sbatch) res) \<Rightarrow> nat \<Rightarrow> llama_sbatch \<Rightarrow> (llama_ubatch list \<times> llama_sbatch) res" where
  "split_all split 0 sb = (if sb_n_tokens sb > 0 then Inl Diverge else Inr ([], sb))"
| "split_all split (Suc fuel) sb =
     (if sb_n_tokens sb > 0 then
        bind_res (split sb) (\<lambda>(ub, sb'). bind_res (split_all split fuel sb') (\<lambda>(ubs, sb''). Inr (ub # ubs, sb'')))
      else Inr ([], sb))"

end
