(* ===== verification/Kv_Cache.thy ===== *)
theory Kv_Cache
  imports Batch
begin

text \<open>
  The KV cache bookkeeping (\<open>src/llm/llama.cpp/src/llama-kv-cache.h\<close>, \<open>llama-kv-cache.cpp\<close> and
  the bridges and heuristics of \<open>llama.cpp\<close> that drive it). A cell records the position it holds
  and the set of sequences it belongs to; the cache keeps a vector of cells, a search head and a
  count of used cells. The tensors with the keys and values are not part of the model.

  Positions and sequence ids (\<open>int32_t\<close>) are integers, and arithmetic on positions that leaves 32 bits, or divides
  by zero, is \<open>Undef\<close>; sizes and indices (\<open>uint32_t\<close>) are natural
  numbers; the counter \<open>used\<close>, which the code decrements without a check, keeps its 32 bits. A
  vector read out of range is undefined in the source and unspecified (\<open>!\<close>) here.
\<close>

section \<open>Cells and the cache\<close>

record llama_kv_cell =
  c_pos :: int
  c_delta :: int
  c_src :: int
  c_tail :: int
  c_seq_id :: "int set"

definition new_cell :: llama_kv_cell where
  "new_cell = \<lparr>c_pos = -1, c_delta = 0, c_src = -1, c_tail = -1, c_seq_id = {}\<rparr>"

definition has_seq_id :: "llama_kv_cell \<Rightarrow> int \<Rightarrow> bool" where
  "has_seq_id c s \<longleftrightarrow> s \<in> c_seq_id c"

definition is_empty :: "llama_kv_cell \<Rightarrow> bool" where
  "is_empty c \<longleftrightarrow> c_seq_id c = {}"

definition is_same_seq :: "llama_kv_cell \<Rightarrow> llama_kv_cell \<Rightarrow> bool" where
  "is_same_seq c d \<longleftrightarrow> c_seq_id c = c_seq_id d"

record llama_kv_cache =
  kv_has_shift :: bool
  kv_do_defrag :: bool
  kv_recurrent :: bool
  kv_v_trans :: bool
  kv_can_shift :: bool
  kv_head :: nat
  kv_size :: nat
  kv_used :: u32
  kv_n :: nat
  kv_cells :: "llama_kv_cell list"

definition max_pos :: "llama_kv_cache \<Rightarrow> int" where
  "max_pos cache = foldl (\<lambda>m c. max m (c_pos c)) (-1) (kv_cells cache)"

record llama_kv_cache_slot_info =
  boundaries :: "nat \<times> nat"
  found :: bool

definition slot_failed :: llama_kv_cache_slot_info where
  "slot_failed = \<lparr>boundaries = (0, 0), found = False\<rparr>"

definition slot_bool :: "bool \<Rightarrow> llama_kv_cache_slot_info" where
  "slot_bool b = \<lparr>boundaries = (0, 0), found = b\<rparr>"

definition slot_range :: "nat \<Rightarrow> nat \<Rightarrow> llama_kv_cache_slot_info" where
  "slot_range b e = \<lparr>boundaries = (b, e), found = True\<rparr>"

definition llama_kv_cache_get_padding :: "bool \<Rightarrow> nat" where
  "llama_kv_cache_get_padding flash_attn = (if flash_attn then 256 else 32)"

text \<open>The bookkeeping part of \<open>llama_kv_cache_init\<close> (lines 31-48); \<open>recurrent\<close>, \<open>flash_attn\<close> and
  \<open>deepseek2\<close> are what it reads from the model and the context parameters. The fields it does not
  write (\<open>do_defrag\<close>, \<open>n\<close>) are kept.\<close>

definition llama_kv_cache_init :: "llama_kv_cache \<Rightarrow> bool \<Rightarrow> bool \<Rightarrow> bool \<Rightarrow> nat \<Rightarrow> llama_kv_cache" where
  "llama_kv_cache_init cache recurrent flash_attn deepseek2 kvsize =
     cache\<lparr>kv_has_shift := False,
           kv_recurrent := recurrent,
           kv_v_trans := (\<not> recurrent \<and> \<not> flash_attn),
           kv_can_shift := (\<not> recurrent \<and> \<not> deepseek2),
           kv_head := 0,
           kv_size := kvsize,
           kv_used := 0,
           kv_cells := replicate kvsize new_cell\<rparr>"

section \<open>Finding a slot\<close>

text \<open>Transformer-like models: the inner loop looks for the first cell of the window that is in
  use; the outer loop moves the head past it, wrapping at the end of the cache.\<close>

definition first_used :: "llama_kv_cell list \<Rightarrow> nat \<Rightarrow> nat \<Rightarrow> nat option" where
  "first_used cells head n_tokens = find (\<lambda>i. c_pos (cells ! (head + i)) \<ge> 0) [0..<n_tokens]"

text \<open>\<open>Some (True, head)\<close> is a slot found at \<open>head\<close>, \<open>Some (False, head)\<close> the failure return (the
  head stays moved), \<open>None\<close> a loop that does not end.\<close>

partial_function (option) find_slot_loop ::
  "llama_kv_cell list \<Rightarrow> nat \<Rightarrow> nat \<Rightarrow> nat \<Rightarrow> nat \<Rightarrow> (bool \<times> nat) option" where
  "find_slot_loop cells sz n_tokens head n_tested =
     (if head + n_tokens > sz
      then find_slot_loop cells sz n_tokens 0 (n_tested + (sz - head))
      else (case first_used cells head n_tokens of
              None \<Rightarrow> Some (True, head)
            | Some i \<Rightarrow>
                (if n_tested + (i + 1) \<ge> sz then Some (False, head + (i + 1))
                 else find_slot_loop cells sz n_tokens (head + (i + 1)) (n_tested + (i + 1)))))"

text \<open>Filling the slot: token \<open>k = s*n_seq_tokens + i\<close> goes to cell \<open>head + k\<close>.\<close>

definition fill_cell :: "llama_ubatch \<Rightarrow> nat \<Rightarrow> nat \<Rightarrow> llama_kv_cell \<Rightarrow> llama_kv_cell" where
  "fill_cell ub s k c =
     c\<lparr>c_pos := ub_pos ub ! k,
       c_seq_id := c_seq_id c \<union> set (take (nat (ub_n_seq_id ub ! s)) (ub_seq_id ub ! s))\<rparr>"

definition fill_slot :: "llama_ubatch \<Rightarrow> nat \<Rightarrow> llama_kv_cell list \<Rightarrow> llama_kv_cell list" where
  "fill_slot ub head cells =
     fold (\<lambda>s cs. fold (\<lambda>i cs.
         let k = s * ub_n_seq_tokens ub + i in
         cs[head + k := fill_cell ub s k (cs ! (head + k))])
       [0..<ub_n_seq_tokens ub] cs) [0..<ub_n_seqs ub] cells"

definition find_slot_transformer ::
  "llama_kv_cache \<Rightarrow> llama_ubatch \<Rightarrow> (llama_kv_cache \<times> llama_kv_cache_slot_info) res" where
  "find_slot_transformer cache ub =
     (let n_tokens = ub_n_tokens ub in
      if n_tokens > kv_size cache then Inr (cache, slot_failed)
      else (case find_slot_loop (kv_cells cache) (kv_size cache) n_tokens (kv_head cache) 0 of
              None \<Rightarrow> Inl Diverge
            | Some (False, h) \<Rightarrow> Inr (cache\<lparr>kv_head := h\<rparr>, slot_failed)
            | Some (True, h) \<Rightarrow>
                Inr (cache\<lparr>kv_head := h,
                           kv_cells := fill_slot ub h (kv_cells cache),
                           kv_used := kv_used cache + of_nat n_tokens\<rparr>,
                     slot_range h (h + n_tokens))))"

section \<open>Operations on sequences\<close>

definition norm_p0 :: "int \<Rightarrow> int" where
  "norm_p0 p0 = (if p0 < 0 then 0 else p0)"

definition norm_p1 :: "int \<Rightarrow> int" where
  "norm_p1 p1 = (if p1 < 0 then INT32_MAX else p1)"

definition in_range :: "int \<Rightarrow> int \<Rightarrow> llama_kv_cell \<Rightarrow> bool" where
  "in_range p0 p1 c \<longleftrightarrow> c_pos c \<ge> p0 \<and> c_pos c < p1"

definition llama_kv_cache_cell_max :: "llama_kv_cache \<Rightarrow> nat" where
  "llama_kv_cache_cell_max cache =
     (case find (\<lambda>i. c_pos (kv_cells cache ! (i - 1)) \<ge> 0 \<and> \<not> is_empty (kv_cells cache ! (i - 1)))
        (rev [1..<kv_size cache + 1]) of
        None \<Rightarrow> 0 | Some i \<Rightarrow> i)"

definition llama_kv_cache_clear :: "llama_kv_cache \<Rightarrow> llama_kv_cache" where
  "llama_kv_cache_clear cache =
     cache\<lparr>kv_cells := map (\<lambda>c. c\<lparr>c_pos := -1, c_seq_id := {}, c_src := -1, c_tail := -1\<rparr>)
                          (kv_cells cache),
           kv_head := 0,
           kv_used := 0\<rparr>"

text \<open>The head after a pass that may have freed cells: \<open>new_head\<close> is \<open>size\<close> when none was freed.\<close>

definition lower_head :: "nat \<Rightarrow> llama_kv_cache \<Rightarrow> llama_kv_cache" where
  "lower_head new_head cache =
     (if new_head \<noteq> kv_size cache \<and> new_head < kv_head cache then cache\<lparr>kv_head := new_head\<rparr> else cache)"

text \<open>\<open>llama_kv_cache_seq_rm\<close>: the body of the loop over the cells, with the counter and the new
  head as its local state.\<close>

definition seq_rm_cell ::
  "int \<Rightarrow> int \<Rightarrow> int \<Rightarrow> nat \<Rightarrow> nat \<Rightarrow> llama_kv_cell \<Rightarrow> u32 \<times> nat \<Rightarrow> llama_kv_cell \<times> (u32 \<times> nat)" where
  "seq_rm_cell sid p0 p1 sz i c st =
     (case st of (used, new_head) \<Rightarrow>
        if in_range p0 p1 c then
          (if sid < 0 \<or> has_seq_id c sid then
             (let c1 = c\<lparr>c_seq_id := (if sid < 0 then {} else c_seq_id c - {sid})\<rparr> in
              if is_empty c1 then
                (c1\<lparr>c_pos := -1, c_src := -1\<rparr>,
                 (if c_pos c1 \<ge> 0 then used - 1 else used,
                  if new_head = sz then i else new_head))
              else (c1, (used, new_head)))
           else (c, (used, new_head)))
        else (c, (used, new_head)))"

text \<open>Recurrent models: \<open>None\<close> is the early \<open>return false\<close>.\<close>

definition seq_rm_recurrent :: "llama_kv_cache \<Rightarrow> int \<Rightarrow> int \<Rightarrow> int \<Rightarrow> llama_kv_cache option" where
  "seq_rm_recurrent cache sid p0 p1 =
     (if sid \<ge> int (kv_size cache) then None
      else if 0 \<le> sid then
        (let tail_id = c_tail (kv_cells cache ! nat sid) in
         if tail_id \<ge> 0 then
           (let cell = kv_cells cache ! nat tail_id in
            if (0 < p0 \<and> p0 \<le> c_pos cell) \<or> (0 < p1 \<and> p1 \<le> c_pos cell) then None
            else if p0 \<le> c_pos cell \<and> c_pos cell < p1
            then Some (cache\<lparr>kv_cells := (kv_cells cache)
                        [nat sid := (kv_cells cache ! nat sid)\<lparr>c_tail := -1\<rparr>]\<rparr>)
            else Some cache)
         else Some cache)
      else if p0 \<noteq> p1 \<and> (p0 \<noteq> 0 \<or> p1 \<noteq> INT32_MAX) then None
      else Some cache)"

definition seq_rm_pass :: "llama_kv_cache \<Rightarrow> int \<Rightarrow> int \<Rightarrow> int \<Rightarrow> llama_kv_cache" where
  "seq_rm_pass cache sid p0 p1 =
     (case for_each_i (seq_rm_cell sid p0 p1 (kv_size cache)) 0 (kv_cells cache)
             (kv_used cache, kv_size cache) of
        (cells, (used, new_head)) \<Rightarrow>
          lower_head new_head (cache\<lparr>kv_cells := cells, kv_used := used\<rparr>))"

definition llama_kv_cache_seq_rm :: "llama_kv_cache \<Rightarrow> int \<Rightarrow> int \<Rightarrow> int \<Rightarrow> llama_kv_cache \<times> bool" where
  "llama_kv_cache_seq_rm cache sid p0' p1' =
     (let p0 = norm_p0 p0'; p1 = norm_p1 p1' in
      case (if kv_recurrent cache then seq_rm_recurrent cache sid p0 p1 else Some cache) of
        None \<Rightarrow> (cache, False)
      | Some cache1 \<Rightarrow> (seq_rm_pass cache1 sid p0 p1, True))"

text \<open>\<open>llama_kv_cache_seq_cp\<close>. In the recurrent branch the four references of the source may alias,
  so the updates go through the vector one after the other.\<close>

definition upd_cell :: "nat \<Rightarrow> (llama_kv_cell \<Rightarrow> llama_kv_cell) \<Rightarrow> llama_kv_cache \<Rightarrow> llama_kv_cache" where
  "upd_cell i f cache = cache\<lparr>kv_cells := (kv_cells cache)[i := f (kv_cells cache ! i)]\<rparr>"

definition seq_cp_clear_dst :: "llama_kv_cache \<Rightarrow> int \<Rightarrow> llama_kv_cache" where
  "seq_cp_clear_dst cache dst =
     (let t = c_tail (kv_cells cache ! nat dst) in
      if t \<ge> 0 then
        (let cache = upd_cell (nat t) (\<lambda>c. c\<lparr>c_seq_id := c_seq_id c - {dst}\<rparr>) cache;
             cache = upd_cell (nat dst) (\<lambda>c. c\<lparr>c_tail := -1\<rparr>) cache in
         if is_empty (kv_cells cache ! nat t)
         then (upd_cell (nat t) (\<lambda>c. c\<lparr>c_pos := -1, c_delta := -1, c_src := -1\<rparr>) cache)
                \<lparr>kv_used := kv_used cache - 1\<rparr>
         else cache)
      else cache)"

definition seq_cp_recurrent :: "llama_kv_cache \<Rightarrow> int \<Rightarrow> int \<Rightarrow> llama_kv_cache" where
  "seq_cp_recurrent cache src dst =
     (if 0 \<le> dst \<and> dst < int (kv_size cache) \<and> 0 \<le> src \<and> src < int (kv_size cache) then
        (let cache = seq_cp_clear_dst cache dst;
             t = c_tail (kv_cells cache ! nat src) in
         if t \<ge> 0 then
           (let cache = upd_cell (nat t) (\<lambda>c. c\<lparr>c_seq_id := insert dst (c_seq_id c)\<rparr>) cache in
            upd_cell (nat dst) (\<lambda>c. c\<lparr>c_tail := c_tail (kv_cells cache ! nat src)\<rparr>) cache)
         else cache)
      else cache)"

definition seq_cp_cell :: "int \<Rightarrow> int \<Rightarrow> int \<Rightarrow> int \<Rightarrow> llama_kv_cell \<Rightarrow> llama_kv_cell" where
  "seq_cp_cell src dst p0 p1 c =
     (if has_seq_id c src \<and> in_range p0 p1 c then c\<lparr>c_seq_id := insert dst (c_seq_id c)\<rparr> else c)"

definition llama_kv_cache_seq_cp :: "llama_kv_cache \<Rightarrow> int \<Rightarrow> int \<Rightarrow> int \<Rightarrow> int \<Rightarrow> llama_kv_cache" where
  "llama_kv_cache_seq_cp cache src dst p0' p1' =
     (let p0 = norm_p0 p0'; p1 = norm_p1 p1' in
      if kv_recurrent cache then seq_cp_recurrent cache src dst
      else cache\<lparr>kv_head := 0, kv_cells := map (seq_cp_cell src dst p0 p1) (kv_cells cache)\<rparr>)"

text \<open>\<open>llama_kv_cache_seq_keep\<close>.\<close>

definition seq_keep_cell ::
  "bool \<Rightarrow> int \<Rightarrow> nat \<Rightarrow> nat \<Rightarrow> llama_kv_cell \<Rightarrow> u32 \<times> nat \<Rightarrow> llama_kv_cell \<times> (u32 \<times> nat)" where
  "seq_keep_cell recurrent sid sz i c st =
     (case st of (used, new_head) \<Rightarrow>
        let c1 = (if recurrent \<and> int i \<noteq> sid then c\<lparr>c_tail := -1\<rparr> else c) in
        if \<not> has_seq_id c1 sid then
          (c1\<lparr>c_pos := -1, c_src := -1, c_seq_id := {}\<rparr>,
           (if c_pos c1 \<ge> 0 then used - 1 else used,
            if new_head = sz then i else new_head))
        else (c1\<lparr>c_seq_id := {sid}\<rparr>, (used, new_head)))"

definition llama_kv_cache_seq_keep :: "llama_kv_cache \<Rightarrow> int \<Rightarrow> llama_kv_cache" where
  "llama_kv_cache_seq_keep cache sid =
     (case for_each_i (seq_keep_cell (kv_recurrent cache) sid (kv_size cache)) 0 (kv_cells cache)
             (kv_used cache, kv_size cache) of
        (cells, (used, new_head)) \<Rightarrow>
          lower_head new_head (cache\<lparr>kv_cells := cells, kv_used := used\<rparr>))"

text \<open>\<open>llama_kv_cache_seq_add\<close>; the local state of the loop is \<open>has_shift\<close>, \<open>used\<close>, \<open>new_head\<close>.\<close>

definition seq_add_cell ::
  "int \<Rightarrow> int \<Rightarrow> int \<Rightarrow> int \<Rightarrow> nat \<Rightarrow> nat \<Rightarrow> llama_kv_cell \<Rightarrow> bool \<times> u32 \<times> nat
     \<Rightarrow> (llama_kv_cell \<times> (bool \<times> u32 \<times> nat)) res" where
  "seq_add_cell sid p0 p1 delta sz i c st =
     (case st of (shift, used, new_head) \<Rightarrow>
        if has_seq_id c sid \<and> in_range p0 p1 c then
          bind_res (int32 (c_pos c + delta)) (\<lambda>pos.
          bind_res (int32 (c_delta c + delta)) (\<lambda>del.
            let c1 = c\<lparr>c_pos := pos, c_delta := del\<rparr> in
            Inr (if c_pos c1 < 0 then
                   (c1\<lparr>c_pos := -1, c_seq_id := {}\<rparr>,
                    (True, if \<not> is_empty c1 then used - 1 else used,
                     if new_head = sz then i else new_head))
                 else (c1, (True, used, new_head)))))
        else Inr (c, st))"

definition recurrent_tail_upd ::
  "llama_kv_cache \<Rightarrow> int \<Rightarrow> int \<Rightarrow> int \<Rightarrow> (int \<Rightarrow> int res) \<Rightarrow> llama_kv_cache res" where
  "recurrent_tail_upd cache sid p0 p1 f =
     (if 0 \<le> sid \<and> sid < int (kv_size cache) then
        (let tail_id = c_tail (kv_cells cache ! nat sid) in
         if tail_id \<ge> 0 then
           (let cell = kv_cells cache ! nat tail_id in
            if has_seq_id cell sid \<and> p0 \<le> c_pos cell \<and> c_pos cell < p1
            then bind_res (f (c_pos cell)) (\<lambda>pos. Inr (upd_cell (nat tail_id) (\<lambda>c. c\<lparr>c_pos := pos\<rparr>) cache))
            else Inr cache)
         else Inr cache)
      else Inr cache)"

definition llama_kv_cache_seq_add :: "llama_kv_cache \<Rightarrow> int \<Rightarrow> int \<Rightarrow> int \<Rightarrow> int \<Rightarrow> llama_kv_cache res" where
  "llama_kv_cache_seq_add cache sid p0' p1' delta =
     (let p0 = norm_p0 p0'; p1 = norm_p1 p1' in
      if p0 = p1 then Inr cache
      else if kv_recurrent cache then recurrent_tail_upd cache sid p0 p1 (\<lambda>p. int32 (p + delta))
      else bind_res (for_each_i_res (seq_add_cell sid p0 p1 delta (kv_size cache)) 0 (kv_cells cache)
                       (kv_has_shift cache, kv_used cache, kv_size cache)) (\<lambda>(cells, (shift, used, new_head)).
             Inr (cache\<lparr>kv_cells := cells, kv_has_shift := shift, kv_used := used,
                        kv_head := (if new_head \<noteq> kv_size cache then new_head else 0)\<rparr>)))"

text \<open>\<open>llama_kv_cache_seq_div\<close>.\<close>

definition seq_div_cell ::
  "int \<Rightarrow> int \<Rightarrow> int \<Rightarrow> int \<Rightarrow> nat \<Rightarrow> llama_kv_cell \<Rightarrow> bool \<Rightarrow> (llama_kv_cell \<times> bool) res" where
  "seq_div_cell sid p0 p1 d i c shift =
     (if has_seq_id c sid \<and> in_range p0 p1 c then
        (let p_old = c_pos c in
         bind_res (int32_div p_old d) (\<lambda>p_new.
         bind_res (int32 (p_new - p_old)) (\<lambda>diff.
         bind_res (int32 (c_delta c + diff)) (\<lambda>del.
           Inr (c\<lparr>c_pos := p_new, c_delta := del\<rparr>, True)))))
      else Inr (c, shift))"

definition llama_kv_cache_seq_div :: "llama_kv_cache \<Rightarrow> int \<Rightarrow> int \<Rightarrow> int \<Rightarrow> int \<Rightarrow> llama_kv_cache res" where
  "llama_kv_cache_seq_div cache sid p0' p1' d =
     (let p0 = norm_p0 p0'; p1 = norm_p1 p1' in
      if p0 = p1 then Inr cache
      else if kv_recurrent cache then recurrent_tail_upd cache sid p0 p1 (\<lambda>p. int32_div p d)
      else bind_res (for_each_i_res (seq_div_cell sid p0 p1 d) 0 (kv_cells cache) (kv_has_shift cache)) (\<lambda>(cells, shift).
             Inr (cache\<lparr>kv_cells := cells, kv_has_shift := shift\<rparr>)))"

definition llama_kv_cache_seq_pos_max :: "llama_kv_cache \<Rightarrow> int \<Rightarrow> int" where
  "llama_kv_cache_seq_pos_max cache sid =
     foldl (\<lambda>r c. if has_seq_id c sid then max r (c_pos c) else r) 0 (kv_cells cache)"

definition llama_kv_cache_defrag :: "llama_kv_cache \<Rightarrow> llama_kv_cache" where
  "llama_kv_cache_defrag cache =
     (if \<not> kv_recurrent cache then cache\<lparr>kv_do_defrag := True\<rparr> else cache)"

definition llama_get_kv_cache_token_count :: "llama_kv_cache \<Rightarrow> int" where
  "llama_get_kv_cache_token_count kv = foldl (\<lambda>r c. r + int (card (c_seq_id c))) 0 (kv_cells kv)"

definition llama_get_kv_cache_used_cells :: "llama_kv_cache \<Rightarrow> int" where
  "llama_get_kv_cache_used_cells kv = sint (kv_used kv)"

definition llama_kv_cache_can_shift :: "llama_kv_cache \<Rightarrow> bool" where
  "llama_kv_cache_can_shift kv = kv_can_shift kv"

section \<open>The invariant of the cache\<close>

definition cell_ok :: "llama_kv_cell \<Rightarrow> bool" where
  "cell_ok c \<longleftrightarrow> c_pos c \<ge> -1 \<and> (c_pos c \<ge> 0 \<longleftrightarrow> \<not> is_empty c) \<and> finite (c_seq_id c)"

definition occupied :: "llama_kv_cell \<Rightarrow> u32" where
  "occupied c = of_bool (\<not> is_empty c)"

definition n_occupied :: "llama_kv_cell list \<Rightarrow> nat" where
  "n_occupied cells = length (filter (\<lambda>c. \<not> is_empty c) cells)"

definition kv_inv :: "llama_kv_cache \<Rightarrow> bool" where
  "kv_inv cache \<longleftrightarrow> length (kv_cells cache) = kv_size cache \<and> kv_head cache \<le> kv_size cache
     \<and> (\<forall>c \<in> set (kv_cells cache). cell_ok c)
     \<and> kv_used cache = of_nat (n_occupied (kv_cells cache))"

lemmas cell_defs = cell_ok_def occupied_def is_empty_def has_seq_id_def in_range_def

lemma sum_occupied: "sum_list (map occupied cells) = of_nat (n_occupied cells)"
  unfolding occupied_def n_occupied_def by (rule sum_list_of_bool_filter)

lemma n_occupied_append [simp]: "n_occupied (xs @ ys) = n_occupied xs + n_occupied ys"
  by (simp add: n_occupied_def)

lemma n_occupied_le: "n_occupied cells \<le> length cells"
  by (simp add: n_occupied_def)

lemma n_occupied_replicate_new [simp]: "n_occupied (replicate k new_cell) = 0"
  by (simp add: n_occupied_def new_cell_def is_empty_def)

lemma n_occupied_map_cong:
  assumes "\<And>c. c \<in> set cells \<Longrightarrow> is_empty (f c) = is_empty c"
  shows "n_occupied (map f cells) = n_occupied cells"
  using assms by (induction cells) (auto simp: n_occupied_def)

lemma lower_head_simps [simp]:
  "kv_cells (lower_head h cache) = kv_cells cache"
  "kv_used (lower_head h cache) = kv_used cache"
  "kv_size (lower_head h cache) = kv_size cache"
  "kv_recurrent (lower_head h cache) = kv_recurrent cache"
  "kv_head cache \<le> n \<Longrightarrow> kv_head (lower_head h cache) \<le> n"
  by (auto simp: lower_head_def)

text \<open>The contract of a pass over the cells: the body keeps a cell well-formed, and its counter
  follows the occupancy of the cell it writes.\<close>

locale cell_pass =
  fixes body :: "nat \<Rightarrow> llama_kv_cell \<Rightarrow> 's \<Rightarrow> llama_kv_cell \<times> 's"
    and cnt :: "'s \<Rightarrow> u32"
  assumes body_ok: "cell_ok c \<Longrightarrow> cell_ok (fst (body i c s))"
    and body_cnt: "cell_ok c \<Longrightarrow> cnt (snd (body i c s)) = cnt s + occupied (fst (body i c s)) - occupied c"
begin

lemma pass_ok:
  "\<forall>c \<in> set cells. cell_ok c \<Longrightarrow> \<forall>c \<in> set (fst (for_each_i body i cells s)). cell_ok c"
  using for_each_i_all[of cell_ok cell_ok body cells] body_ok by blast

lemma pass_cnt:
  assumes "\<forall>c \<in> set cells. cell_ok c" and "cnt s = of_nat (n_occupied cells)"
  shows "cnt (snd (for_each_i body i cells s)) = of_nat (n_occupied (fst (for_each_i body i cells s)))"
proof -
  have "cnt (snd (for_each_i body i cells s))
      = cnt s + sum_list (map occupied (fst (for_each_i body i cells s))) - sum_list (map occupied cells)"
    using for_each_i_counter[of cell_ok cnt body occupied cells i s] body_cnt assms(1) by blast
  then show ?thesis using assms(2) by (simp add: sum_occupied)
qed

end

interpretation rm: cell_pass "seq_rm_cell sid p0 p1 sz" fst for sid p0 p1 sz
  by unfold_locales (auto simp: seq_rm_cell_def cell_defs Let_def split: prod.splits)

interpretation keep: cell_pass "seq_keep_cell r sid sz" fst for r sid sz
  by unfold_locales (auto simp: seq_keep_cell_def cell_defs Let_def split: prod.splits)

text \<open>Shifting and dividing, as passes that leave a cell alone where the arithmetic would fail: a pass that returns is
  one of these (\<open>for_each_i_res_ok\<close>).\<close>

lemma add_step_simp:
  "ok_or_same (seq_add_cell sid p0 p1 delta sz) i c (shift, used, new_head) =
     (if has_seq_id c sid \<and> in_range p0 p1 c \<and> fits_int32 (c_pos c + delta) \<and> fits_int32 (c_delta c + delta) then
        (if c_pos c + delta < 0 then
           (c\<lparr>c_pos := -1, c_delta := c_delta c + delta, c_seq_id := {}\<rparr>,
            (True, if \<not> is_empty c then used - 1 else used, if new_head = sz then i else new_head))
         else (c\<lparr>c_pos := c_pos c + delta, c_delta := c_delta c + delta\<rparr>, (True, used, new_head)))
      else (c, (shift, used, new_head)))"
  by (simp add: ok_or_same_def seq_add_cell_def int32_def Let_def is_empty_def)

interpretation add: cell_pass "ok_or_same (seq_add_cell sid p0 p1 delta sz)" "\<lambda>st. fst (snd st)" for sid p0 p1 delta sz
proof (unfold_locales, goal_cases)
  case (1 c i s)
  then show ?case by (cases s) (auto simp: add_step_simp cell_defs)
next
  case (2 c i s)
  then show ?case by (cases s) (auto simp: add_step_simp cell_defs)
qed

lemma trunc_div_nonneg: "0 \<le> p \<Longrightarrow> 0 \<le> trunc_div p (int (Suc k))"
  by (simp add: trunc_div_def sgn_if pos_imp_zdiv_nonneg_iff)

lemma div_step_simp:
  "ok_or_same (seq_div_cell sid p0 p1 d) i c shift =
     (if has_seq_id c sid \<and> in_range p0 p1 c \<and> d \<noteq> 0 \<and> fits_int32 (trunc_div (c_pos c) d) \<and>
         fits_int32 (trunc_div (c_pos c) d - c_pos c) \<and> fits_int32 (c_delta c + (trunc_div (c_pos c) d - c_pos c))
      then (c\<lparr>c_pos := trunc_div (c_pos c) d, c_delta := c_delta c + (trunc_div (c_pos c) d - c_pos c)\<rparr>, True)
      else (c, shift))"
  by (simp add: ok_or_same_def seq_div_cell_def int32_def int32_div_def Let_def)

interpretation dv: cell_pass "ok_or_same (seq_div_cell sid p0 p1 (int (Suc k)))" "\<lambda>_. 0" for sid p0 p1 k
proof (unfold_locales, goal_cases)
  case (1 c i s)
  have "0 \<le> c_pos c \<Longrightarrow> - 1 \<le> trunc_div (c_pos c) (int (Suc k)) \<and> 0 \<le> trunc_div (c_pos c) (int (Suc k))"
    using trunc_div_nonneg[of "c_pos c" k] by linarith
  with 1 show ?case by (auto simp: div_step_simp cell_defs)
next
  case (2 c i s)
  then show ?case by (auto simp: div_step_simp cell_defs)
qed

subsection \<open>Every operation keeps it\<close>

lemma kv_invI:
  assumes "length (kv_cells c) = kv_size c" "kv_head c \<le> kv_size c"
    "\<forall>x \<in> set (kv_cells c). cell_ok x" "kv_used c = of_nat (n_occupied (kv_cells c))"
  shows "kv_inv c"
  using assms by (simp add: kv_inv_def)

lemma kv_invD:
  assumes "kv_inv c"
  shows "length (kv_cells c) = kv_size c" "kv_head c \<le> kv_size c"
    "\<forall>x \<in> set (kv_cells c). cell_ok x" "kv_used c = of_nat (n_occupied (kv_cells c))"
  using assms by (simp_all add: kv_inv_def)

lemma new_cell_ok [simp]: "cell_ok new_cell"
  by (simp add: cell_ok_def new_cell_def is_empty_def)

lemma kv_inv_init: "kv_inv (llama_kv_cache_init cache r fa ds n)"
  by (rule kv_invI) (simp_all add: llama_kv_cache_init_def)

lemma kv_inv_clear: "kv_inv cache \<Longrightarrow> kv_inv (llama_kv_cache_clear cache)"
proof (rule kv_invI, goal_cases)
  case 4
  show ?case
    by (simp add: llama_kv_cache_clear_def n_occupied_def filter_map o_def is_empty_def filter_empty_conv)
qed (auto simp: llama_kv_cache_clear_def kv_inv_def cell_defs)

lemma kv_inv_seq_rm_pass:
  assumes "kv_inv cache" shows "kv_inv (seq_rm_pass cache sid p0 p1)"
proof -
  let ?f = "seq_rm_cell sid p0 p1 (kv_size cache)"
  let ?s = "(kv_used cache, kv_size cache)"
  obtain cells used h where eq: "for_each_i ?f 0 (kv_cells cache) ?s = (cells, used, h)"
    using prod_cases3 by blast
  note inv = kv_invD[OF assms]
  have "length cells = kv_size cache"
    using inv(1) length_for_each_i[of ?f 0 "kv_cells cache" ?s] by (simp add: eq)
  moreover have "\<forall>c \<in> set cells. cell_ok c" using rm.pass_ok[OF inv(3)] eq by (metis fst_conv)
  moreover have "used = of_nat (n_occupied cells)"
    using rm.pass_cnt[OF inv(3), of ?s] inv(4) eq by (metis fst_conv snd_conv)
  ultimately show ?thesis using inv(2) by (auto simp: seq_rm_pass_def eq intro!: kv_invI)
qed

lemma kv_inv_seq_rm:
  assumes "kv_inv cache" "\<not> kv_recurrent cache"
  shows "kv_inv (fst (llama_kv_cache_seq_rm cache sid p0 p1))"
  using assms kv_inv_seq_rm_pass by (simp add: llama_kv_cache_seq_rm_def Let_def)

lemma kv_inv_seq_keep:
  assumes "kv_inv cache" shows "kv_inv (llama_kv_cache_seq_keep cache sid)"
proof -
  let ?f = "seq_keep_cell (kv_recurrent cache) sid (kv_size cache)"
  let ?s = "(kv_used cache, kv_size cache)"
  obtain cells used h where eq: "for_each_i ?f 0 (kv_cells cache) ?s = (cells, used, h)"
    using prod_cases3 by blast
  note inv = kv_invD[OF assms]
  have "length cells = kv_size cache"
    using inv(1) length_for_each_i[of ?f 0 "kv_cells cache" ?s] by (simp add: eq)
  moreover have "\<forall>c \<in> set cells. cell_ok c" using keep.pass_ok[OF inv(3)] eq by (metis fst_conv)
  moreover have "used = of_nat (n_occupied cells)"
    using keep.pass_cnt[OF inv(3), of ?s] inv(4) eq by (metis fst_conv snd_conv)
  ultimately show ?thesis
    using inv(2) by (auto simp: llama_kv_cache_seq_keep_def eq intro!: kv_invI)
qed

text \<open>The new head a pass records is the first freed cell, an index of the vector.\<close>

lemma seq_add_new_head:
  assumes "for_each_i (ok_or_same (seq_add_cell sid p0 p1 d sz)) i cells (sh, u, h) = (cells', sh', u', h')"
    and "i + length cells \<le> sz" and "h \<le> sz"
  shows "h' \<le> sz"
  using assms
proof (induction cells arbitrary: i sh u h cells' sh' u' h')
  case (Cons c cells)
  obtain c1 sh1 u1 h1 where 1: "ok_or_same (seq_add_cell sid p0 p1 d sz) i c (sh, u, h) = (c1, sh1, u1, h1)"
    using prod_cases4 by blast
  have "h1 \<le> sz" using 1 Cons.prems by (auto simp: add_step_simp split: if_splits)
  then show ?case using Cons.IH[of "Suc i" sh1 u1 h1] Cons.prems 1 by (auto split: prod.splits)
qed simp

text \<open>A shift or a division of a Transformer cache that returns is a pass over the cells.\<close>

lemma seq_add_returns:
  assumes "\<not> kv_recurrent cache" "llama_kv_cache_seq_add cache sid p0 p1 delta = Inr cache'"
  obtains (same) "norm_p0 p0 = norm_p1 p1" "cache' = cache"
  | (pass) cells sh used h where "norm_p0 p0 \<noteq> norm_p1 p1"
      "for_each_i (ok_or_same (seq_add_cell sid (norm_p0 p0) (norm_p1 p1) delta (kv_size cache))) 0 (kv_cells cache)
         (kv_has_shift cache, kv_used cache, kv_size cache) = (cells, sh, used, h)"
      "cache' = cache\<lparr>kv_cells := cells, kv_has_shift := sh, kv_used := used, kv_head := (if h \<noteq> kv_size cache then h else 0)\<rparr>"
  using assms for_each_i_res_ok[of "seq_add_cell sid (norm_p0 p0) (norm_p1 p1) delta (kv_size cache)" 0 "kv_cells cache"
      "(kv_has_shift cache, kv_used cache, kv_size cache)"]
  by (fastforce simp: llama_kv_cache_seq_add_def Let_def split: if_splits)

lemma seq_div_returns:
  assumes "\<not> kv_recurrent cache" "llama_kv_cache_seq_div cache sid p0 p1 d = Inr cache'"
  obtains (same) "norm_p0 p0 = norm_p1 p1" "cache' = cache"
  | (pass) cells sh where "norm_p0 p0 \<noteq> norm_p1 p1"
      "for_each_i (ok_or_same (seq_div_cell sid (norm_p0 p0) (norm_p1 p1) d)) 0 (kv_cells cache) (kv_has_shift cache) = (cells, sh)"
      "cache' = cache\<lparr>kv_cells := cells, kv_has_shift := sh\<rparr>"
  using assms for_each_i_res_ok[of "seq_div_cell sid (norm_p0 p0) (norm_p1 p1) d" 0 "kv_cells cache" "kv_has_shift cache"]
  by (fastforce simp: llama_kv_cache_seq_div_def Let_def split: if_splits)

lemma kv_inv_seq_add:
  assumes "kv_inv cache" "\<not> kv_recurrent cache" "llama_kv_cache_seq_add cache sid p0 p1 delta = Inr cache'"
  shows "kv_inv cache'"
  using assms(2,3)
proof (cases rule: seq_add_returns)
  case (pass cells sh used h)
  let ?f = "ok_or_same (seq_add_cell sid (norm_p0 p0) (norm_p1 p1) delta (kv_size cache))"
  let ?s = "(kv_has_shift cache, kv_used cache, kv_size cache)"
  note inv = kv_invD[OF assms(1)] and eq = pass(2)
  have "length cells = kv_size cache"
    using inv(1) length_for_each_i[of ?f 0 "kv_cells cache" ?s] by (simp add: eq)
  moreover have "\<forall>c \<in> set cells. cell_ok c" using add.pass_ok[OF inv(3)] eq by (metis fst_conv)
  moreover have "used = of_nat (n_occupied cells)"
    using add.pass_cnt[OF inv(3), of ?s] inv(4) eq by (metis fst_conv snd_conv)
  moreover have "h \<le> kv_size cache" using seq_add_new_head[OF eq] inv(1) by simp
  ultimately show ?thesis unfolding pass(3) by (intro kv_invI) auto
qed (use assms(1) in simp)

lemma kv_inv_seq_div:
  assumes "kv_inv cache" "\<not> kv_recurrent cache" "0 < d" "llama_kv_cache_seq_div cache sid p0 p1 d = Inr cache'"
  shows "kv_inv cache'"
  using assms(2,4)
proof (cases rule: seq_div_returns)
  case (pass cells sh)
  obtain k where d: "d = int (Suc k)" using assms(3) by (metis Suc_pred' zero_less_imp_eq_int)
  let ?f = "ok_or_same (seq_div_cell sid (norm_p0 p0) (norm_p1 p1) (int (Suc k)))"
  note inv = kv_invD[OF assms(1)] and eq = pass(2)[unfolded d]
  have "length cells = kv_size cache"
    using inv(1) length_for_each_i[of ?f 0 "kv_cells cache" "kv_has_shift cache"] eq by (metis fst_conv)
  moreover have "\<forall>c \<in> set cells. cell_ok c" using dv.pass_ok[OF inv(3)] eq by (metis fst_conv)
  moreover have "of_nat (n_occupied cells) = (of_nat (n_occupied (kv_cells cache)) :: u32)"
    using for_each_i_counter[of cell_ok "\<lambda>_. 0" ?f occupied "kv_cells cache" 0 "kv_has_shift cache"]
      dv.body_cnt inv(3) by (simp add: eq sum_occupied del: of_nat_Suc)
  ultimately show ?thesis unfolding pass(3) using inv(2,4) by (intro kv_invI) auto
qed (use assms(1) in simp)

lemma seq_cp_cell_ok: "cell_ok c \<Longrightarrow> cell_ok (seq_cp_cell src dst p0 p1 c)"
  by (auto simp: seq_cp_cell_def cell_defs)

lemma kv_inv_seq_cp:
  assumes "kv_inv cache" "\<not> kv_recurrent cache"
  shows "kv_inv (llama_kv_cache_seq_cp cache src dst p0 p1)"
proof -
  have "n_occupied (map (seq_cp_cell src dst q0 q1) (kv_cells cache)) = n_occupied (kv_cells cache)" for q0 q1
    by (rule n_occupied_map_cong) (auto simp: seq_cp_cell_def is_empty_def has_seq_id_def)
  then show ?thesis using assms
    by (auto simp: llama_kv_cache_seq_cp_def Let_def kv_inv_def seq_cp_cell_ok)
qed

lemma kv_inv_defrag: "kv_inv cache \<Longrightarrow> kv_inv (llama_kv_cache_defrag cache)"
  by (auto simp: llama_kv_cache_defrag_def kv_inv_def)

section \<open>The slot search\<close>

text \<open>A window of \<open>n\<close> cells from \<open>s\<close> is blocked when it leaves the cache or holds a used cell.\<close>

definition blocked :: "llama_kv_cell list \<Rightarrow> nat \<Rightarrow> nat \<Rightarrow> nat \<Rightarrow> bool" where
  "blocked cells sz n s \<longleftrightarrow> s + n > sz \<or> (\<exists>i<n. c_pos (cells ! (s + i)) \<ge> 0)"

definition slot_spec :: "llama_kv_cell list \<Rightarrow> nat \<Rightarrow> nat \<Rightarrow> bool \<times> nat \<Rightarrow> bool" where
  "slot_spec cells sz n r = (case r of (ok, h) \<Rightarrow>
     h \<le> sz \<and> (if ok then \<not> blocked cells sz n h else (\<forall>s. blocked cells sz n s)))"

lemma first_used_None: "first_used cells h n = None \<longleftrightarrow> (\<forall>i<n. c_pos (cells ! (h + i)) < 0)"
  by (auto simp: first_used_def find_None_iff not_le)

lemma first_used_Some:
  assumes "first_used cells h n = Some i"
  shows "i < n" "c_pos (cells ! (h + i)) \<ge> 0"
  using assms by (auto simp: first_used_def find_Some_iff)

lemma first_used_blocks:
  assumes "first_used cells h n = Some i" "h \<le> s" "s < h + (i + 1)"
  shows "blocked cells sz n s"
proof -
  have "s + (h + i - s) = h + i" and "h + i - s < n"
    using assms first_used_Some(1)[OF assms(1)] by auto
  then show ?thesis using first_used_Some(2)[OF assms(1)] unfolding blocked_def by metis
qed

lemma blocked_first_used:
  assumes "blocked cells sz n h" "h + n \<le> sz"
  obtains i where "first_used cells h n = Some i"
  using assms first_used_None[of cells h n] by (cases "first_used cells h n") (auto simp: blocked_def)

lemma find_slot_wrap:
  "head + n > sz \<Longrightarrow> find_slot_loop cells sz n head t = find_slot_loop cells sz n 0 (t + (sz - head))"
  by (subst find_slot_loop.simps) simp

lemma find_slot_found:
  assumes "head + n \<le> sz" "first_used cells head n = None"
  shows "find_slot_loop cells sz n head t = Some (True, head)" "slot_spec cells sz n (True, head)"
proof -
  show "find_slot_loop cells sz n head t = Some (True, head)"
    using assms by (subst find_slot_loop.simps) simp
  show "slot_spec cells sz n (True, head)"
    using assms by (auto simp: slot_spec_def blocked_def first_used_None not_le)
qed

lemma find_slot_stop:
  assumes "head + n \<le> sz" "first_used cells head n = Some i" "sz \<le> t + (i + 1)"
  shows "find_slot_loop cells sz n head t = Some (False, head + (i + 1))"
  using assms by (subst find_slot_loop.simps) auto

lemma find_slot_go:
  assumes "head + n \<le> sz" "first_used cells head n = Some i" "\<not> sz \<le> t + (i + 1)"
  shows "find_slot_loop cells sz n head t = find_slot_loop cells sz n (head + (i + 1)) (t + (i + 1))"
  using assms by (subst find_slot_loop.simps) auto

text \<open>The three phases of the search: past the limit, after the wrap, before the wrap.\<close>

lemma find_slot_loop_exhausted:
  assumes "n \<le> sz" "head \<le> sz" "t \<ge> sz" "\<And>s. blocked cells sz n s"
  shows "\<exists>h \<le> sz. find_slot_loop cells sz n head t = Some (False, h)"
proof -
  have here: "\<exists>h' \<le> sz. find_slot_loop cells sz n h t' = Some (False, h')" if fit: "h + n \<le> sz" and lim: "t' \<ge> sz" for h t'
  proof -
    obtain i where i: "first_used cells h n = Some i"
      by (rule blocked_first_used[OF assms(4) fit])
    then show ?thesis using fit lim first_used_Some[OF i] find_slot_stop[OF fit i, of t'] by auto
  qed
  show ?thesis
  proof (cases "head + n \<le> sz")
    case False
    then have "find_slot_loop cells sz n head t = find_slot_loop cells sz n 0 (t + (sz - head))"
      by (simp add: find_slot_wrap)
    then show ?thesis using here[of 0 "t + (sz - head)"] assms by simp
  qed (use here assms in auto)
qed

lemma find_slot_loop_wrapped:
  assumes "n \<le> sz" "h0 \<le> sz" "head \<le> sz" "t = sz - h0 + head"
    "\<And>s. s < head \<Longrightarrow> blocked cells sz n s" "\<And>s. h0 \<le> s \<Longrightarrow> blocked cells sz n s"
  shows "\<exists>r. find_slot_loop cells sz n head t = Some r \<and> slot_spec cells sz n r"
  using assms
proof (induction "sz - head" arbitrary: head t rule: less_induct)
  case less
  note prems = less.prems
  show ?case
  proof (cases "head + n \<le> sz")
    case False
    then have all: "blocked cells sz n s" for s
      using prems(5)[of s] by (cases "s < head") (auto simp: blocked_def)
    have "find_slot_loop cells sz n head t = find_slot_loop cells sz n 0 (t + (sz - head))"
      using False by (simp add: find_slot_wrap)
    moreover have "t + (sz - head) \<ge> sz" using prems by simp
    ultimately show ?thesis
      using find_slot_loop_exhausted[of n sz 0 "t + (sz - head)" cells] all prems(1)
      by (auto simp: slot_spec_def)
  next
    case True
    show ?thesis
    proof (cases "first_used cells head n")
      case None
      then show ?thesis using find_slot_found[OF True] by blast
    next
      case (Some i)
      let ?h = "head + (i + 1)"
      have h: "?h \<le> sz" using first_used_Some(1)[OF Some] True by simp
      have lower: "blocked cells sz n s" if "s < ?h" for s
        using that prems(5) first_used_blocks[OF Some] by (cases "s < head") auto
      show ?thesis
      proof (cases "t + (i + 1) \<ge> sz")
        case stop: True
        then have "h0 \<le> ?h" using prems by simp
        then have "blocked cells sz n s" for s using lower[of s] prems(6)[of s] by (cases "s < ?h") auto
        then have "slot_spec cells sz n (False, ?h)" using h by (auto simp: slot_spec_def)
        then show ?thesis using find_slot_stop[OF True Some stop] by blast
      next
        case go: False
        have "find_slot_loop cells sz n head t = find_slot_loop cells sz n ?h (t + (i + 1))"
          by (rule find_slot_go[OF True Some go])
        moreover have "\<exists>r. find_slot_loop cells sz n ?h (t + (i + 1)) = Some r \<and> slot_spec cells sz n r"
          by (rule less.hyps) (use prems h lower True first_used_Some(1)[OF Some] in auto)
        ultimately show ?thesis by simp
      qed
    qed
  qed
qed

lemma find_slot_loop_first_pass:
  assumes "n \<le> sz" "h0 \<le> head" "head \<le> sz" "t = head - h0"
    "\<And>s. h0 \<le> s \<Longrightarrow> s < head \<Longrightarrow> blocked cells sz n s"
  shows "\<exists>r. find_slot_loop cells sz n head t = Some r \<and> slot_spec cells sz n r"
  using assms
proof (induction "sz - head" arbitrary: head t rule: less_induct)
  case less
  note prems = less.prems
  show ?case
  proof (cases "head + n \<le> sz")
    case False
    have "find_slot_loop cells sz n head t = find_slot_loop cells sz n 0 (t + (sz - head))"
      using False by (simp add: find_slot_wrap)
    moreover have "\<exists>r. find_slot_loop cells sz n 0 (t + (sz - head)) = Some r \<and> slot_spec cells sz n r"
    proof (rule find_slot_loop_wrapped[of n sz h0])
      fix s assume "h0 \<le> s"
      then show "blocked cells sz n s" using prems(5)[of s] False by (cases "s < head") (auto simp: blocked_def)
    qed (use prems in auto)
    ultimately show ?thesis by simp
  next
    case True
    show ?thesis
    proof (cases "first_used cells head n")
      case None
      then show ?thesis using find_slot_found[OF True] by blast
    next
      case (Some i)
      let ?h = "head + (i + 1)"
      have h: "?h \<le> sz" using first_used_Some(1)[OF Some] True by simp
      have lower: "blocked cells sz n s" if "h0 \<le> s" "s < ?h" for s
        using that prems(5) first_used_blocks[OF Some] by (cases "s < head") auto
      show ?thesis
      proof (cases "t + (i + 1) \<ge> sz")
        case stop: True
        then have 0: "h0 = 0" "?h = sz" using prems h by auto
        have "n > 0" using first_used_Some(1)[OF Some] by simp
        then have "blocked cells sz n s" for s
          using 0 lower[of s] by (cases "s < sz") (auto simp: blocked_def)
        then have "slot_spec cells sz n (False, ?h)" using h by (auto simp: slot_spec_def)
        then show ?thesis using find_slot_stop[OF True Some stop] by blast
      next
        case go: False
        have "find_slot_loop cells sz n head t = find_slot_loop cells sz n ?h (t + (i + 1))"
          by (rule find_slot_go[OF True Some go])
        moreover have "\<exists>r. find_slot_loop cells sz n ?h (t + (i + 1)) = Some r \<and> slot_spec cells sz n r"
          by (rule less.hyps) (use prems h lower True first_used_Some(1)[OF Some] in auto)
        ultimately show ?thesis by simp
      qed
    qed
  qed
qed

lemma find_slot_loop_correct:
  assumes "n \<le> sz" "head \<le> sz"
  obtains r where "find_slot_loop cells sz n head 0 = Some r" "slot_spec cells sz n r"
  using find_slot_loop_first_pass[of n sz head head 0 cells] assms by auto

subsection \<open>Filling the slot\<close>

text \<open>A micro-batch the decoder can place: as many positions as tokens, none negative, and at least
  one sequence id for every sequence.\<close>

definition ubatch_ok :: "llama_ubatch \<Rightarrow> bool" where
  "ubatch_ok ub \<longleftrightarrow> ub_n_tokens ub = ub_n_seqs ub * ub_n_seq_tokens ub
     \<and> (\<forall>k < ub_n_tokens ub. 0 \<le> ub_pos ub ! k)
     \<and> (\<forall>s < ub_n_seqs ub. 1 \<le> ub_n_seq_id ub ! s \<and> ub_n_seq_id ub ! s \<le> int (length (ub_seq_id ub ! s)))"

definition token_seqs :: "llama_ubatch \<Rightarrow> nat \<Rightarrow> int set" where
  "token_seqs ub k = (let s = k div ub_n_seq_tokens ub in
     set (take (nat (ub_n_seq_id ub ! s)) (ub_seq_id ub ! s)))"

definition fill_token :: "llama_ubatch \<Rightarrow> nat \<Rightarrow> llama_kv_cell \<Rightarrow> llama_kv_cell" where
  "fill_token ub k c = c\<lparr>c_pos := ub_pos ub ! k, c_seq_id := c_seq_id c \<union> token_seqs ub k\<rparr>"

lemma fill_slot_flat:
  "fill_slot ub head cells =
     fold (\<lambda>k cs. cs[head + k := fill_token ub k (cs ! (head + k))]) [0..<ub_n_seqs ub * ub_n_seq_tokens ub] cells"
proof -
  let ?m = "ub_n_seq_tokens ub"
  let ?u = "\<lambda>k cs. cs[head + k := fill_token ub k (cs ! (head + k))]"
  have row: "fold (\<lambda>i cs. let k = s * ?m + i in cs[head + k := fill_cell ub s k (cs ! (head + k))]) [0..<?m] cs
           = fold ?u (map (\<lambda>i. s * ?m + i) [0..<?m]) cs" for s cs
    unfolding fold_map o_def
    by (rule fold_cong) (auto simp: Let_def fill_cell_def fill_token_def token_seqs_def)
  have "fill_slot ub head cells = fold (\<lambda>s. fold ?u (map (\<lambda>i. s * ?m + i) [0..<?m])) [0..<ub_n_seqs ub] cells"
    unfolding fill_slot_def row ..
  also have "\<dots> = fold ?u [0..<ub_n_seqs ub * ?m] cells"
    unfolding fold_fold_concat concat_rows ..
  finally show ?thesis .
qed

lemma length_fill_slot [simp]: "length (fill_slot ub head cells) = length cells"
  by (simp add: fill_slot_flat)

lemma fill_slot_nth:
  assumes "i < length cells"
  shows "fill_slot ub head cells ! i =
    (if head \<le> i \<and> i < head + ub_n_seqs ub * ub_n_seq_tokens ub then fill_token ub (i - head) (cells ! i)
     else cells ! i)"
proof (cases "head \<le> i \<and> i < head + ub_n_seqs ub * ub_n_seq_tokens ub")
  case True
  then obtain k where k: "i = head + k" "k < ub_n_seqs ub * ub_n_seq_tokens ub"
    by (metis add.commute less_diff_conv2 le_add_diff_inverse)
  show ?thesis using fold_upd_nth[of "\<lambda>k. head + k" "[0..<ub_n_seqs ub * ub_n_seq_tokens ub]" k cells "fill_token ub"]
      assms k by (simp add: fill_slot_flat distinct_map)
next
  case False
  then show ?thesis unfolding fill_slot_flat by (subst fold_upd_other) auto
qed

lemma token_seqs_props:
  assumes "ubatch_ok ub" "k < ub_n_tokens ub"
  shows "token_seqs ub k \<noteq> {}" "finite (token_seqs ub k)"
proof -
  have "k div ub_n_seq_tokens ub < ub_n_seqs ub"
    using assms by (simp add: ubatch_ok_def less_mult_imp_div_less)
  then show "token_seqs ub k \<noteq> {}" using assms by (fastforce simp: ubatch_ok_def token_seqs_def Let_def)
  show "finite (token_seqs ub k)" by (simp add: token_seqs_def Let_def)
qed

lemma fill_token_ok:
  assumes "ubatch_ok ub" "k < ub_n_tokens ub" "cell_ok c"
  shows "cell_ok (fill_token ub k c)" "\<not> is_empty (fill_token ub k c)"
  using token_seqs_props[OF assms(1,2)] assms
  by (auto simp: fill_token_def cell_ok_def is_empty_def ubatch_ok_def intro: order_trans[of _ 0])

lemma n_occupied_sum: "n_occupied cells = (\<Sum>i<length cells. of_bool (\<not> is_empty (cells ! i)))"
  by (simp add: n_occupied_def length_filter_conv_card sum.If_cases Int_def of_bool_def conj_commute)

lemma n_occupied_fill:
  assumes "ubatch_ok ub" "head + ub_n_tokens ub \<le> length cells" "\<forall>c \<in> set cells. cell_ok c"
    and free: "\<And>i. i < ub_n_tokens ub \<Longrightarrow> c_pos (cells ! (head + i)) < 0"
  shows "n_occupied (fill_slot ub head cells) = n_occupied cells + ub_n_tokens ub"
proof -
  let ?N = "ub_n_tokens ub"
  have N: "?N = ub_n_seqs ub * ub_n_seq_tokens ub" using assms(1) by (simp add: ubatch_ok_def)
  have "of_bool (\<not> is_empty (fill_slot ub head cells ! i))
      = of_bool (\<not> is_empty (cells ! i)) + (of_bool (head \<le> i \<and> i < head + ?N) :: nat)"
    if i: "i < length cells" for i
  proof (cases "head \<le> i \<and> i < head + ?N")
    case True
    then have k: "i - head < ?N" "head + (i - head) = i" by auto
    have ok: "cell_ok (cells ! i)" using assms(3) i by simp
    have "is_empty (cells ! i)" using free[OF k(1)] ok k(2) by (auto simp: cell_ok_def)
    then show ?thesis using True i N fill_token_ok(2)[OF assms(1) k(1) ok] by (simp add: fill_slot_nth)
  qed (use i N in \<open>auto simp: fill_slot_nth\<close>)
  then have "n_occupied (fill_slot ub head cells)
      = n_occupied cells + (\<Sum>i<length cells. of_bool (head \<le> i \<and> i < head + ?N))"
    by (simp add: n_occupied_sum sum.distrib)
  also have "{x. x < length cells \<and> head \<le> x \<and> x < head + ?N} = {head..<head + ?N}"
    using assms(2) by auto
  then have "(\<Sum>i<length cells. of_bool (head \<le> i \<and> i < head + ?N)) = ?N"
    by (simp add: of_bool_def sum.If_cases Int_def)
  finally show ?thesis .
qed

text \<open>The whole operation: it returns, and either places the batch or reports that no window fits.\<close>

lemma find_slot_cases:
  assumes "kv_inv cache"
  obtains (toobig) "ub_n_tokens ub > kv_size cache" "find_slot_transformer cache ub = Inr (cache, slot_failed)"
  | (full) h where "h \<le> kv_size cache" "find_slot_transformer cache ub = Inr (cache\<lparr>kv_head := h\<rparr>, slot_failed)"
      "\<And>s. blocked (kv_cells cache) (kv_size cache) (ub_n_tokens ub) s"
  | (placed) h where "h + ub_n_tokens ub \<le> kv_size cache"
      "\<And>i. i < ub_n_tokens ub \<Longrightarrow> c_pos (kv_cells cache ! (h + i)) < 0"
      "find_slot_transformer cache ub = Inr (cache\<lparr>kv_head := h,
         kv_cells := fill_slot ub h (kv_cells cache),
         kv_used := kv_used cache + of_nat (ub_n_tokens ub)\<rparr>, slot_range h (h + ub_n_tokens ub))"
proof (cases "ub_n_tokens ub > kv_size cache")
  case True
  then show ?thesis using toobig by (simp add: find_slot_transformer_def)
next
  case False
  then have "ub_n_tokens ub \<le> kv_size cache" by simp
  then obtain ok h where r: "find_slot_loop (kv_cells cache) (kv_size cache) (ub_n_tokens ub) (kv_head cache) 0 = Some (ok, h)"
      and sp: "slot_spec (kv_cells cache) (kv_size cache) (ub_n_tokens ub) (ok, h)"
    using find_slot_loop_correct kv_invD(2)[OF assms] by (metis surj_pair)
  show ?thesis
  proof (cases ok)
    case True
    then show ?thesis using r sp False by (intro placed[of h])
        (auto simp: find_slot_transformer_def Let_def slot_spec_def blocked_def not_le)
  next
    case f: False
    then show ?thesis using r sp False by (intro full[of h])
        (auto simp: find_slot_transformer_def Let_def slot_spec_def)
  qed
qed

lemma kv_inv_find_slot:
  assumes "kv_inv cache" "ubatch_ok ub" "find_slot_transformer cache ub = Inr (cache', info)"
  shows "kv_inv cache'"
  using assms(1)
proof (cases rule: find_slot_cases[where ub = ub])
  case (placed h)
  note inv = kv_invD[OF assms(1)]
  have N: "ub_n_tokens ub = ub_n_seqs ub * ub_n_seq_tokens ub" using assms(2) by (simp add: ubatch_ok_def)
  have "\<forall>c \<in> set (fill_slot ub h (kv_cells cache)). cell_ok c"
  proof
    fix c assume "c \<in> set (fill_slot ub h (kv_cells cache))"
    then obtain i where "i < length (kv_cells cache)" "c = fill_slot ub h (kv_cells cache) ! i"
      by (metis in_set_conv_nth length_fill_slot)
    then show "cell_ok c" using inv(3) fill_token_ok(1)[OF assms(2), of "i - h" "kv_cells cache ! i"] N
      by (auto simp: fill_slot_nth)
  qed
  moreover have "n_occupied (fill_slot ub h (kv_cells cache)) = n_occupied (kv_cells cache) + ub_n_tokens ub"
    using n_occupied_fill[of ub h "kv_cells cache"] assms(2) inv placed by simp
  ultimately show ?thesis using placed inv assms(3) by (auto simp: kv_inv_def)
qed (use assms in \<open>auto simp: kv_inv_def\<close>)

section \<open>The abstract content of the cache\<close>

text \<open>What the cache promises to the attention: which token (sequence, position) is stored in
  which cell. Every operation on sequences is specified on this set.\<close>

definition entries :: "llama_kv_cache \<Rightarrow> (int \<times> nat \<times> int) set" where
  "entries cache = {(s, i, p). i < length (kv_cells cache) \<and> s \<in> c_seq_id (kv_cells cache ! i)
                               \<and> p = c_pos (kv_cells cache ! i)}"

lemma in_entries [simp]:
  "(s, i, p) \<in> entries cache \<longleftrightarrow> i < length (kv_cells cache) \<and> s \<in> c_seq_id (kv_cells cache ! i)
     \<and> p = c_pos (kv_cells cache ! i)"
  by (simp add: entries_def)

lemma triple_eqI: "(\<And>s i p. (s, i, p) \<in> A \<longleftrightarrow> (s, i, p) \<in> B) \<Longrightarrow> A = B"
  by auto

definition rm_cell :: "int \<Rightarrow> int \<Rightarrow> int \<Rightarrow> llama_kv_cell \<Rightarrow> llama_kv_cell" where
  "rm_cell sid p0 p1 c = fst (seq_rm_cell sid p0 p1 0 0 c (0, 0))"

lemma seq_rm_pass_cells: "kv_cells (seq_rm_pass cache sid p0 p1) = map (rm_cell sid p0 p1) (kv_cells cache)"
proof -
  have "fst (seq_rm_cell sid p0 p1 sz i c st) = rm_cell sid p0 p1 c" for sz i c st
    by (auto simp: rm_cell_def seq_rm_cell_def Let_def split: prod.splits)
  note m = for_each_i_map[of "seq_rm_cell sid p0 p1 (kv_size cache)" "rm_cell sid p0 p1", OF this]
  show ?thesis using m[of 0 "kv_cells cache" "(kv_used cache, kv_size cache)"]
    by (auto simp: seq_rm_pass_def split: prod.splits)
qed

lemma rm_cell_entry:
  "s \<in> c_seq_id (rm_cell sid p0 p1 c) \<and> p = c_pos (rm_cell sid p0 p1 c) \<longleftrightarrow>
   s \<in> c_seq_id c \<and> p = c_pos c \<and> \<not> ((sid < 0 \<or> s = sid) \<and> p0 \<le> p \<and> p < p1)"
  by (auto simp: rm_cell_def seq_rm_cell_def cell_defs Let_def)

lemma entries_seq_rm_pass:
  "entries (seq_rm_pass cache sid p0 p1)
     = {(s, i, p) \<in> entries cache. \<not> ((sid < 0 \<or> s = sid) \<and> p0 \<le> p \<and> p < p1)}"
proof -
  have "(s, i, p) \<in> entries (seq_rm_pass cache sid p0 p1) \<longleftrightarrow>
        (s, i, p) \<in> {(s, i, p) \<in> entries cache. \<not> ((sid < 0 \<or> s = sid) \<and> p0 \<le> p \<and> p < p1)}" for s i p
  proof (cases "i < length (kv_cells cache)")
    case True
    then show ?thesis using rm_cell_entry[of s sid p0 p1 "kv_cells cache ! i" p]
      by (simp add: seq_rm_pass_cells)
  qed (simp add: seq_rm_pass_cells)
  then show ?thesis by (rule triple_eqI)
qed

lemma entries_seq_cp:
  assumes "\<not> kv_recurrent cache"
  shows "entries (llama_kv_cache_seq_cp cache src dst p0 p1) = entries cache
    \<union> {(dst, i, p) | i p. (src, i, p) \<in> entries cache \<and> norm_p0 p0 \<le> p \<and> p < norm_p1 p1}"
  using assms by (auto simp: llama_kv_cache_seq_cp_def Let_def seq_cp_cell_def has_seq_id_def in_range_def
      split: if_splits)

definition keep_cell :: "bool \<Rightarrow> int \<Rightarrow> nat \<Rightarrow> llama_kv_cell \<Rightarrow> llama_kv_cell" where
  "keep_cell r sid i c = fst (seq_keep_cell r sid 0 i c (0, 0))"

lemma seq_keep_cells_nth:
  assumes "i < length (kv_cells cache)"
  shows "kv_cells (llama_kv_cache_seq_keep cache sid) ! i = keep_cell (kv_recurrent cache) sid i (kv_cells cache ! i)"
proof -
  have "fst (seq_keep_cell r sid sz i c st) = keep_cell r sid i c" for r sz i c st
    by (auto simp: keep_cell_def seq_keep_cell_def Let_def split: prod.splits)
  note m = for_each_i_map_idx[of "seq_keep_cell (kv_recurrent cache) sid (kv_size cache)"
      "keep_cell (kv_recurrent cache) sid", OF this]
  show ?thesis using assms m[of 0 "kv_cells cache" "(kv_used cache, kv_size cache)"]
    by (auto simp: llama_kv_cache_seq_keep_def split: prod.splits)
qed

lemma seq_keep_length [simp]:
  "length (kv_cells (llama_kv_cache_seq_keep cache sid)) = length (kv_cells cache)"
  using length_for_each_i[of "seq_keep_cell (kv_recurrent cache) sid (kv_size cache)" 0 "kv_cells cache"
      "(kv_used cache, kv_size cache)"]
  by (auto simp: llama_kv_cache_seq_keep_def split: prod.splits simp del: length_for_each_i)

lemma entries_seq_keep: "entries (llama_kv_cache_seq_keep cache sid) = {(s, i, p) \<in> entries cache. s = sid}"
proof -
  have "(s, i, p) \<in> entries (llama_kv_cache_seq_keep cache sid) \<longleftrightarrow>
        (s, i, p) \<in> {(s, i, p) \<in> entries cache. s = sid}" for s i p
  proof (cases "i < length (kv_cells cache)")
    case True
    then show ?thesis
      by (auto simp: seq_keep_cells_nth keep_cell_def seq_keep_cell_def has_seq_id_def Let_def)
  qed simp
  then show ?thesis by (rule triple_eqI)
qed

text \<open>The shift moves whole cells: a cell that holds the sequence in range is shifted for every
  sequence that shares it, and dropped when its position becomes negative.\<close>

definition shifts :: "llama_kv_cache \<Rightarrow> int \<Rightarrow> int \<Rightarrow> int \<Rightarrow> nat \<Rightarrow> bool" where
  "shifts cache sid p0 p1 i \<longleftrightarrow> (\<exists>p. (sid, i, p) \<in> entries cache \<and> norm_p0 p0 \<le> p \<and> p < norm_p1 p1)"

definition add_cell :: "int \<Rightarrow> int \<Rightarrow> int \<Rightarrow> int \<Rightarrow> llama_kv_cell \<Rightarrow> llama_kv_cell" where
  "add_cell sid p0 p1 delta c = fst (ok_or_same (seq_add_cell sid p0 p1 delta 0) 0 c (False, 0, 0))"

text \<open>The cells an operation on a range of a sequence is about, and the arithmetic that fails on them.\<close>

definition cell_hit :: "int \<Rightarrow> int \<Rightarrow> int \<Rightarrow> llama_kv_cell \<Rightarrow> bool" where
  "cell_hit sid p0 p1 c \<longleftrightarrow> sid \<in> c_seq_id c \<and> norm_p0 p0 \<le> c_pos c \<and> c_pos c < norm_p1 p1"

definition add_overflows :: "int \<Rightarrow> llama_kv_cell \<Rightarrow> bool" where
  "add_overflows delta c \<longleftrightarrow> \<not> fits_int32 (c_pos c + delta) \<or> \<not> fits_int32 (c_delta c + delta)"

definition div_fails :: "int \<Rightarrow> llama_kv_cell \<Rightarrow> bool" where
  "div_fails d c \<longleftrightarrow> d = 0 \<or> \<not> fits_int32 (trunc_div (c_pos c) d) \<or> \<not> fits_int32 (trunc_div (c_pos c) d - c_pos c) \<or>
     \<not> fits_int32 (c_delta c + (trunc_div (c_pos c) d - c_pos c))"

lemma cell_hit_empty_range: "norm_p0 p0 = norm_p1 p1 \<Longrightarrow> \<not> cell_hit sid p0 p1 c"
  by (simp add: cell_hit_def)

lemma seq_add_outcome:
  assumes "\<not> kv_recurrent cache"
  shows "case llama_kv_cache_seq_add cache sid p0 p1 delta of
      Inl e \<Rightarrow> e = Undef \<and> (\<exists>x \<in> set (kv_cells cache). cell_hit sid p0 p1 x \<and> add_overflows delta x)
    | Inr cache' \<Rightarrow> \<forall>x \<in> set (kv_cells cache). cell_hit sid p0 p1 x \<longrightarrow> \<not> add_overflows delta x"
proof (cases "norm_p0 p0 = norm_p1 p1")
  case True
  then show ?thesis by (simp add: llama_kv_cache_seq_add_def cell_hit_empty_range)
next
  case False
  let ?f = "seq_add_cell sid (norm_p0 p0) (norm_p1 p1) delta (kv_size cache)"
  let ?bad = "\<lambda>x. cell_hit sid p0 p1 x \<and> add_overflows delta x"
  have "case ?f i x s of Inl e \<Rightarrow> ?bad x \<and> e = Undef | Inr r \<Rightarrow> \<not> ?bad x" for i x s
    by (cases s) (auto simp: seq_add_cell_def cell_hit_def add_overflows_def cell_defs int32_def Let_def)
  from for_each_i_res_fails[where f = ?f and bad = ?bad and err = Undef, OF this, where i = 0 and xs = "kv_cells cache" and s = "(kv_has_shift cache, kv_used cache, kv_size cache)"]
  show ?thesis using False assms by (auto simp: llama_kv_cache_seq_add_def Let_def split: sum.splits)
qed

lemma seq_div_outcome:
  assumes "\<not> kv_recurrent cache"
  shows "case llama_kv_cache_seq_div cache sid p0 p1 d of
      Inl e \<Rightarrow> e = Undef \<and> (\<exists>x \<in> set (kv_cells cache). cell_hit sid p0 p1 x \<and> div_fails d x)
    | Inr cache' \<Rightarrow> \<forall>x \<in> set (kv_cells cache). cell_hit sid p0 p1 x \<longrightarrow> \<not> div_fails d x"
proof (cases "norm_p0 p0 = norm_p1 p1")
  case True
  then show ?thesis by (simp add: llama_kv_cache_seq_div_def cell_hit_empty_range)
next
  case False
  let ?f = "seq_div_cell sid (norm_p0 p0) (norm_p1 p1) d"
  let ?bad = "\<lambda>x. cell_hit sid p0 p1 x \<and> div_fails d x"
  have "case ?f i x s of Inl e \<Rightarrow> ?bad x \<and> e = Undef | Inr r \<Rightarrow> \<not> ?bad x" for i x s
    by (auto simp: seq_div_cell_def cell_hit_def div_fails_def cell_defs int32_def int32_div_def Let_def)
  from for_each_i_res_fails[where f = ?f and bad = ?bad and err = Undef, OF this, where i = 0 and xs = "kv_cells cache" and s = "kv_has_shift cache"]
  show ?thesis using False assms by (auto simp: llama_kv_cache_seq_div_def Let_def split: sum.splits)
qed

lemma seq_add_cells:
  assumes "\<not> kv_recurrent cache" "llama_kv_cache_seq_add cache sid p0 p1 delta = Inr cache'"
  shows "kv_cells cache' = map (add_cell sid (norm_p0 p0) (norm_p1 p1) delta) (kv_cells cache)"
  using assms
proof (cases rule: seq_add_returns)
  case same
  then have "map (add_cell sid (norm_p0 p0) (norm_p1 p1) delta) (kv_cells cache) = kv_cells cache"
    by (intro map_idI) (auto simp: add_cell_def add_step_simp in_range_def)
  then show ?thesis using same(2) by simp
next
  case (pass cells sh used h)
  have f: "fst (ok_or_same (seq_add_cell sid q0 q1 delta sz) i c st) = add_cell sid q0 q1 delta c" for q0 q1 sz i c st
    by (cases st) (simp add: add_cell_def add_step_simp)
  show ?thesis using for_each_i_map[of "ok_or_same (seq_add_cell sid (norm_p0 p0) (norm_p1 p1) delta (kv_size cache))", OF f,
      of 0 "kv_cells cache" "(kv_has_shift cache, kv_used cache, kv_size cache)"] pass by simp
qed

lemma add_cell_hit:
  assumes "cell_hit sid p0 p1 c \<longrightarrow> \<not> add_overflows delta c"
  shows "add_cell sid (norm_p0 p0) (norm_p1 p1) delta c =
    (if cell_hit sid p0 p1 c then
       (if c_pos c + delta < 0 then c\<lparr>c_pos := -1, c_delta := c_delta c + delta, c_seq_id := {}\<rparr>
        else c\<lparr>c_pos := c_pos c + delta, c_delta := c_delta c + delta\<rparr>)
     else c)"
  using assms by (auto simp: add_cell_def add_step_simp cell_hit_def add_overflows_def cell_defs)

lemma shifts_hit:
  "i < length (kv_cells cache) \<Longrightarrow> shifts cache sid p0 p1 i \<longleftrightarrow> cell_hit sid p0 p1 (kv_cells cache ! i)"
  by (auto simp: shifts_def cell_hit_def)

lemma entries_seq_add:
  assumes "\<not> kv_recurrent cache" "llama_kv_cache_seq_add cache sid p0 p1 delta = Inr cache'"
  shows "entries cache'
    = {(s, i, p) \<in> entries cache. \<not> shifts cache sid p0 p1 i}
      \<union> {(s, i, p + delta) | s i p. (s, i, p) \<in> entries cache \<and> shifts cache sid p0 p1 i \<and> 0 \<le> p + delta}"
    (is "?L = ?R")
proof -
  have ok: "\<forall>x \<in> set (kv_cells cache). cell_hit sid p0 p1 x \<longrightarrow> \<not> add_overflows delta x"
    using seq_add_outcome[OF assms(1), of sid p0 p1 delta] assms(2) by simp
  have "(s, i, p) \<in> ?L \<longleftrightarrow> (s, i, p) \<in> ?R" for s i p
  proof (cases "i < length (kv_cells cache)")
    case True
    then have "cell_hit sid p0 p1 (kv_cells cache ! i) \<longrightarrow> \<not> add_overflows delta (kv_cells cache ! i)" using ok by simp
    from add_cell_hit[OF this] show ?thesis using True by (auto simp: seq_add_cells[OF assms] shifts_hit)
  qed (simp add: seq_add_cells[OF assms])
  then show ?thesis by (rule triple_eqI)
qed

definition div_cell :: "int \<Rightarrow> int \<Rightarrow> int \<Rightarrow> int \<Rightarrow> llama_kv_cell \<Rightarrow> llama_kv_cell" where
  "div_cell sid p0 p1 d c = fst (ok_or_same (seq_div_cell sid p0 p1 d) 0 c False)"

lemma seq_div_cells:
  assumes "\<not> kv_recurrent cache" "llama_kv_cache_seq_div cache sid p0 p1 d = Inr cache'"
  shows "kv_cells cache' = map (div_cell sid (norm_p0 p0) (norm_p1 p1) d) (kv_cells cache)"
  using assms
proof (cases rule: seq_div_returns)
  case same
  then have "map (div_cell sid (norm_p0 p0) (norm_p1 p1) d) (kv_cells cache) = kv_cells cache"
    by (intro map_idI) (auto simp: div_cell_def div_step_simp in_range_def)
  then show ?thesis using same(2) by simp
next
  case (pass cells sh)
  have f: "fst (ok_or_same (seq_div_cell sid q0 q1 d) i c st) = div_cell sid q0 q1 d c" for q0 q1 i c st
    by (simp add: div_cell_def div_step_simp)
  show ?thesis using for_each_i_map[of "ok_or_same (seq_div_cell sid (norm_p0 p0) (norm_p1 p1) d)", OF f,
      of 0 "kv_cells cache" "kv_has_shift cache"] pass by simp
qed

lemma div_cell_hit:
  assumes "cell_hit sid p0 p1 c \<longrightarrow> \<not> div_fails d c"
  shows "div_cell sid (norm_p0 p0) (norm_p1 p1) d c =
    (if cell_hit sid p0 p1 c
     then c\<lparr>c_pos := trunc_div (c_pos c) d, c_delta := c_delta c + (trunc_div (c_pos c) d - c_pos c)\<rparr> else c)"
  using assms by (auto simp: div_cell_def div_step_simp cell_hit_def div_fails_def cell_defs)

lemma entries_seq_div:
  assumes "\<not> kv_recurrent cache" "llama_kv_cache_seq_div cache sid p0 p1 d = Inr cache'"
  shows "entries cache'
    = {(s, i, if shifts cache sid p0 p1 i then trunc_div p d else p) | s i p. (s, i, p) \<in> entries cache}"
    (is "?L = ?R")
proof -
  have ok: "\<forall>x \<in> set (kv_cells cache). cell_hit sid p0 p1 x \<longrightarrow> \<not> div_fails d x"
    using seq_div_outcome[OF assms(1), of sid p0 p1 d] assms(2) by simp
  have "(s, i, p) \<in> ?L \<longleftrightarrow> (s, i, p) \<in> ?R" for s i p
  proof (cases "i < length (kv_cells cache)")
    case True
    then have "cell_hit sid p0 p1 (kv_cells cache ! i) \<longrightarrow> \<not> div_fails d (kv_cells cache ! i)" using ok by simp
    from div_cell_hit[OF this] show ?thesis using True by (auto simp: seq_div_cells[OF assms] shifts_hit)
  qed (simp add: seq_div_cells[OF assms])
  then show ?thesis by (rule triple_eqI)
qed

lemma entries_fill_slot:
  assumes "kv_inv cache" "ubatch_ok ub" "h + ub_n_tokens ub \<le> kv_size cache"
    and free: "\<And>i. i < ub_n_tokens ub \<Longrightarrow> c_pos (kv_cells cache ! (h + i)) < 0"
  shows "entries (cache\<lparr>kv_head := h', kv_cells := fill_slot ub h (kv_cells cache), kv_used := u\<rparr>)
    = entries cache \<union> {(s, h + k, ub_pos ub ! k) | s k. k < ub_n_tokens ub \<and> s \<in> token_seqs ub k}"
    (is "?L = ?R")
proof -
  have N: "ub_n_tokens ub = ub_n_seqs ub * ub_n_seq_tokens ub" using assms(2) by (simp add: ubatch_ok_def)
  note inv = kv_invD[OF assms(1)]
  have "(s, i, p) \<in> ?L \<longleftrightarrow> (s, i, p) \<in> ?R" for s i p
  proof (cases "h \<le> i \<and> i < h + ub_n_tokens ub")
    case True
    then obtain k where k: "i = h + k" "k < ub_n_tokens ub" by (metis le_iff_add nat_add_left_cancel_less)
    have len: "i < length (kv_cells cache)" using k assms(3) inv(1) by simp
    then have "cell_ok (kv_cells cache ! i)" using inv(3) by simp
    then have "is_empty (kv_cells cache ! i)" using free[OF k(2)] k(1) by (auto simp: cell_ok_def)
    then show ?thesis using k len N by (auto simp: fill_slot_nth fill_token_def is_empty_def)
  next
    case False
    then show ?thesis using N inv(1) assms(3) by (cases "i < length (kv_cells cache)") (auto simp: fill_slot_nth)
  qed
  then show ?thesis by (rule triple_eqI)
qed

end
