(* ===== verification/Kv_Recurrent.thy ===== *)
theory Kv_Recurrent
  imports Kv_Cache
begin

text \<open>
  \<open>llama_kv_cache_find_slot\<close> for recurrent models (lines 127-288 of \<open>llama-kv-cache.cpp\<close>), where a
  cell holds the state of a whole sequence and cell number \<open>s\<close> also records, in \<open>tail\<close>, the cell
  that holds the state of sequence \<open>s\<close>. The five loops of the source are five definitions, run in
  the source's order. The debug-only consistency check only logs.
\<close>

text \<open>First loop: every sequence id must fit, and the ids after the first of a token give up the
  cell they had. The flag is false after the early return.\<close>

definition release_tail :: "llama_kv_cache \<Rightarrow> int \<Rightarrow> llama_kv_cache" where
  "release_tail cache sid =
     (let t = c_tail (kv_cells cache ! nat sid) in
      if t \<ge> 0 then
        (let cache = upd_cell (nat t) (\<lambda>c. c\<lparr>c_seq_id := c_seq_id c - {sid}\<rparr>) cache;
             cache = upd_cell (nat sid) (\<lambda>c. c\<lparr>c_tail := -1\<rparr>) cache in
         if is_empty (kv_cells cache ! nat t)
         then (upd_cell (nat t) (\<lambda>c. c\<lparr>c_pos := -1, c_src := -1\<rparr>) cache)\<lparr>kv_used := kv_used cache - 1\<rparr>
         else cache)
      else cache)"

fun rec_check_ids :: "llama_kv_cache \<Rightarrow> (nat \<times> int) list \<Rightarrow> llama_kv_cache \<times> bool" where
  "rec_check_ids cache [] = (cache, True)"
| "rec_check_ids cache ((j, sid) # ids) =
     (if sid < 0 \<or> sid \<ge> int (kv_size cache) then (cache, False)
      else rec_check_ids (if j > 0 then release_tail cache sid else cache) ids)"

definition ubatch_ids :: "llama_ubatch \<Rightarrow> (nat \<times> int) list" where
  "ubatch_ids ub = concat (map (\<lambda>s. map (\<lambda>j. (j, ub_seq_id ub ! s ! j)) [0..<nat (ub_n_seq_id ub ! s)])
                               [0..<ub_n_seqs ub])"

text \<open>The search for an empty cell; the first argument counts the iterations left.\<close>

fun next_empty :: "nat \<Rightarrow> llama_kv_cell list \<Rightarrow> nat \<Rightarrow> nat \<Rightarrow> nat" where
  "next_empty 0 cells sz nec = nec"
| "next_empty (Suc k) cells sz nec =
     (let nec = (if nec \<ge> sz then nec - sz else nec) in
      if is_empty (cells ! nec) then nec else next_empty k cells sz (nec + 1))"

text \<open>Second loop: each sequence of the batch gets a cell it owns alone.\<close>

record rec_range =
  rr_cells :: "llama_kv_cell list"
  rr_next :: nat
  rr_min :: int
  rr_max :: int

definition rec_take_cell :: "nat \<Rightarrow> nat \<Rightarrow> llama_kv_cell list \<Rightarrow> llama_kv_cell list" where
  "rec_take_cell sid nec cells =
     (let t = c_tail (cells ! sid);
          cells = (if t \<ge> 0 then
                     (let orig = cells ! nat t;
                          cells = cells[nec := (cells ! nec)\<lparr>c_pos := c_pos orig, c_src := c_src orig\<rparr>];
                          cells = cells[nat t := (cells ! nat t)\<lparr>c_seq_id := c_seq_id (cells ! nat t) - {int sid}\<rparr>]
                      in cells[nec := (cells ! nec)\<lparr>c_seq_id := insert (int sid) (c_seq_id (cells ! nec))\<rparr>])
                   else cells)
      in cells[sid := (cells ! sid)\<lparr>c_tail := int nec\<rparr>])"

definition rec_assign_cell :: "llama_ubatch \<Rightarrow> nat \<Rightarrow> nat \<Rightarrow> rec_range \<Rightarrow> rec_range res" where
  "rec_assign_cell ub sz s r =
     (let sid = nat (ub_seq_id ub ! s ! 0); nec = rr_next r in
      if nec \<ge> length (rr_cells r) then Inl Undef
      else if \<not> is_empty (rr_cells r ! nec) then Inl GgmlAbort
      else (let cells = rec_take_cell sid nec (rr_cells r) in
            Inr (r\<lparr>rr_cells := cells,
                   rr_next := (if s + 1 < ub_n_seqs ub then next_empty sz cells sz (nec + 1) else nec)\<rparr>)))"

definition rec_assign :: "llama_ubatch \<Rightarrow> nat \<Rightarrow> nat \<Rightarrow> rec_range \<Rightarrow> rec_range res" where
  "rec_assign ub sz s r =
     (let sid = nat (ub_seq_id ub ! s ! 0); t = c_tail (rr_cells r ! sid) in
      if t \<ge> 0 \<and> \<not> has_seq_id (rr_cells r ! nat t) (int sid) then Inl GgmlAbort
      else bind_res
        (if t \<ge> 0 \<and> card (c_seq_id (rr_cells r ! nat t)) = 1 then Inr r else rec_assign_cell ub sz s r)
        (\<lambda>r. let t = c_tail (rr_cells r ! sid) in
             Inr (r\<lparr>rr_min := (if rr_min r > t then t else rr_min r),
                    rr_max := (if rr_max r < t then t else rr_max r)\<rparr>)))"

fun rec_assign_all :: "llama_ubatch \<Rightarrow> nat \<Rightarrow> nat list \<Rightarrow> rec_range \<Rightarrow> rec_range res" where
  "rec_assign_all ub sz [] r = Inr r"
| "rec_assign_all ub sz (s # ss) r = bind_res (rec_assign ub sz s r) (rec_assign_all ub sz ss)"

text \<open>Third loop: the cells of the batch are swapped into a contiguous range from \<open>min\<close>.\<close>

definition set_tails :: "int set \<Rightarrow> int \<Rightarrow> llama_kv_cell list \<Rightarrow> llama_kv_cell list" where
  "set_tails ids t cells =
     map (\<lambda>i. if int i \<in> ids then (cells ! i)\<lparr>c_tail := t\<rparr> else cells ! i) [0..<length cells]"

definition rec_gather :: "llama_ubatch \<Rightarrow> int \<Rightarrow> nat \<Rightarrow> llama_kv_cell list \<Rightarrow> llama_kv_cell list" where
  "rec_gather ub mn s cells =
     (let dst_id = int s + mn; src_id = c_tail (cells ! nat (ub_seq_id ub ! s ! 0)) in
      if dst_id \<noteq> src_id then
        (let d = cells ! nat dst_id; c = cells ! nat src_id;
             cells = cells[nat dst_id := d\<lparr>c_pos := c_pos c, c_src := c_src c, c_seq_id := c_seq_id c\<rparr>];
             cells = cells[nat src_id := (cells ! nat src_id)\<lparr>c_pos := c_pos d, c_src := c_src d, c_seq_id := c_seq_id d\<rparr>];
             cells = set_tails (c_seq_id (cells ! nat src_id)) src_id cells
         in set_tails (c_seq_id (cells ! nat dst_id)) dst_id cells)
      else cells)"

text \<open>Fourth loop: position and sequence ids of each cell of the range.\<close>

definition own_seq :: "nat \<Rightarrow> int \<Rightarrow> llama_kv_cell list \<Rightarrow> llama_kv_cell list" where
  "own_seq k sid cells =
     (let cells = cells[k := (cells ! k)\<lparr>c_seq_id := insert sid (c_seq_id (cells ! k))\<rparr>]
      in cells[nat sid := (cells ! nat sid)\<lparr>c_tail := int k\<rparr>])"

definition rec_update :: "llama_ubatch \<Rightarrow> nat \<Rightarrow> nat \<Rightarrow> llama_kv_cell list \<Rightarrow> llama_kv_cell list" where
  "rec_update ub mn s cells =
     (let last_pos = ub_pos ub ! (ub_n_seq_tokens ub * s + ub_n_seq_tokens ub - 1);
          cell_id = s + mn;
          cells = cells[cell_id := (cells ! cell_id)\<lparr>c_pos := last_pos, c_seq_id := {}\<rparr>]
      in fold (own_seq cell_id) (take (nat (ub_n_seq_id ub ! s)) (ub_seq_id ub ! s)) cells)"

definition find_slot_recurrent ::
  "llama_kv_cache \<Rightarrow> llama_ubatch \<Rightarrow> (llama_kv_cache \<times> llama_kv_cache_slot_info) res" where
  "find_slot_recurrent cache ub =
     bind_res (ggml_assert (ub_equal_seqs ub)) (\<lambda>_.
       case rec_check_ids cache (ubatch_ids ub) of
         (cache, False) \<Rightarrow> Inr (cache, slot_failed)
       | (cache, True) \<Rightarrow>
           (let sz = kv_size cache;
                nec = next_empty sz (kv_cells cache) sz (kv_head cache) in
            bind_res (rec_assign_all ub sz [0..<ub_n_seqs ub]
                        \<lparr>rr_cells = kv_cells cache, rr_next = nec, rr_min = int sz - 1, rr_max = 0\<rparr>) (\<lambda>r.
              let mn = rr_min r;
                  cells = fold (rec_gather ub mn) [0..<ub_n_seqs ub] (rr_cells r);
                  cells = fold (rec_update ub (nat mn)) [0..<ub_n_seqs ub] cells;
                  n = nat ((rr_max r - mn + 1) mod 2 ^ 32) in
              Inr (cache\<lparr>kv_cells := cells,
                         kv_head := nat mn,
                         kv_n := n,
                         kv_used := of_nat (length (filter (\<lambda>c. \<not> is_empty c) cells))\<rparr>,
                   slot_bool (n \<ge> ub_n_seqs ub)))))"

text \<open>The operation as the decoder calls it.\<close>

definition llama_kv_cache_find_slot ::
  "llama_kv_cache \<Rightarrow> llama_ubatch \<Rightarrow> (llama_kv_cache \<times> llama_kv_cache_slot_info) res" where
  "llama_kv_cache_find_slot cache ub =
     (if kv_recurrent cache then find_slot_recurrent cache ub else find_slot_transformer cache ub)"

section \<open>What a successful search leaves behind\<close>

lemma length_release_tail [simp]:
  "length (kv_cells (release_tail cache sid)) = length (kv_cells cache)"
  "kv_size (release_tail cache sid) = kv_size cache" "kv_recurrent (release_tail cache sid) = kv_recurrent cache"
  by (simp_all add: release_tail_def upd_cell_def Let_def)

lemma rec_check_ids_length:
  "rec_check_ids cache ids = (cache', ok) \<Longrightarrow>
     length (kv_cells cache') = length (kv_cells cache) \<and> kv_size cache' = kv_size cache \<and> kv_recurrent cache' = kv_recurrent cache"
  by (induction cache ids rule: rec_check_ids.induct) (auto split: if_splits)

lemma rec_check_ids_range:
  assumes "rec_check_ids cache ids = (cache', True)" "(j, sid) \<in> set ids"
  shows "0 \<le> sid \<and> sid < int (kv_size cache)"
  using assms by (induction cache ids rule: rec_check_ids.induct) (auto split: if_splits)

lemma length_rec_take_cell [simp]: "length (rec_take_cell sid nec cells) = length cells"
  by (simp add: rec_take_cell_def Let_def)

lemma length_set_tails [simp]: "length (set_tails ids t cells) = length cells"
  by (simp add: set_tails_def)

lemma length_rec_gather [simp]: "length (rec_gather ub mn s cells) = length cells"
  by (simp add: rec_gather_def Let_def)

lemma length_rec_gather_all [simp]: "length (fold (rec_gather ub mn) ss cells) = length cells"
  by (induction ss arbitrary: cells) auto

lemma length_own_seq [simp]: "length (own_seq k sid cells) = length cells"
  by (simp add: own_seq_def Let_def)

lemma length_own_seqs [simp]: "length (fold (own_seq k) ids cells) = length cells"
  by (induction ids arbitrary: cells) auto

lemma length_rec_update [simp]: "length (rec_update ub mn s cells) = length cells"
  by (simp add: rec_update_def Let_def)

lemma length_rec_update_all [simp]: "length (fold (rec_update ub mn) ss cells) = length cells"
  by (induction ss arbitrary: cells) auto

lemma own_seq_nth:
  assumes "k < length cells" "0 \<le> sid \<and> sid < int (length cells)" "i < length cells"
  shows "own_seq k sid cells ! i =
    (cells ! i)\<lparr>c_seq_id := (if i = k then insert sid (c_seq_id (cells ! i)) else c_seq_id (cells ! i)),
               c_tail := (if int i = sid then int k else c_tail (cells ! i))\<rparr>"
  using assms by (auto simp: own_seq_def Let_def nth_list_update)

lemma own_seqs_nth:
  assumes "k < length cells" "\<forall>sid \<in> set ids. 0 \<le> sid \<and> sid < int (length cells)" "i < length cells"
  shows "fold (own_seq k) ids cells ! i =
    (cells ! i)\<lparr>c_seq_id := (if i = k then c_seq_id (cells ! i) \<union> set ids else c_seq_id (cells ! i)),
               c_tail := (if int i \<in> set ids then int k else c_tail (cells ! i))\<rparr>"
  using assms
proof (induction ids arbitrary: cells)
  case (Cons sid ids)
  have "own_seq k sid cells ! i =
    (cells ! i)\<lparr>c_seq_id := (if i = k then insert sid (c_seq_id (cells ! i)) else c_seq_id (cells ! i)),
               c_tail := (if int i = sid then int k else c_tail (cells ! i))\<rparr>"
    using Cons.prems by (intro own_seq_nth) auto
  then show ?case using Cons.IH[of "own_seq k sid cells"] Cons.prems by auto
qed simp

definition seq_ids :: "llama_ubatch \<Rightarrow> nat \<Rightarrow> int list" where
  "seq_ids ub s = take (nat (ub_n_seq_id ub ! s)) (ub_seq_id ub ! s)"

definition last_pos :: "llama_ubatch \<Rightarrow> nat \<Rightarrow> int" where
  "last_pos ub s = ub_pos ub ! (ub_n_seq_tokens ub * s + ub_n_seq_tokens ub - 1)"

lemma rec_update_nth:
  assumes "s + mn < length cells" "i < length cells"
    "\<forall>sid \<in> set (seq_ids ub s). 0 \<le> sid \<and> sid < int (length cells)"
  shows "rec_update ub mn s cells ! i =
    (cells ! i)\<lparr>c_pos := (if i = s + mn then last_pos ub s else c_pos (cells ! i)),
               c_seq_id := (if i = s + mn then set (seq_ids ub s) else c_seq_id (cells ! i)),
               c_tail := (if int i \<in> set (seq_ids ub s) then int (s + mn) else c_tail (cells ! i))\<rparr>"
proof -
  let ?c = "cells[s + mn := (cells ! (s + mn))\<lparr>c_pos := last_pos ub s, c_seq_id := {}\<rparr>]"
  have "rec_update ub mn s cells ! i = fold (own_seq (s + mn)) (seq_ids ub s) ?c ! i"
    by (simp add: rec_update_def Let_def seq_ids_def last_pos_def)
  then show ?thesis using own_seqs_nth[of "s + mn" ?c "seq_ids ub s" i] assms
    by (auto simp: nth_list_update)
qed

definition owns :: "llama_ubatch \<Rightarrow> nat \<Rightarrow> llama_kv_cell list \<Rightarrow> nat \<Rightarrow> bool" where
  "owns ub mn cells s \<longleftrightarrow> c_pos (cells ! (s + mn)) = last_pos ub s
     \<and> c_seq_id (cells ! (s + mn)) = set (seq_ids ub s)
     \<and> (\<forall>sid \<in> set (seq_ids ub s). c_tail (cells ! nat sid) = int (s + mn))"

lemma rec_update_all_owns:
  assumes "mn + n \<le> length cells"
    and "\<forall>s<n. \<forall>sid \<in> set (seq_ids ub s). 0 \<le> sid \<and> sid < int (length cells)"
    and "\<forall>s<n. \<forall>s'<n. s \<noteq> s' \<longrightarrow> set (seq_ids ub s) \<inter> set (seq_ids ub s') = {}"
  shows "\<forall>s<n. owns ub mn (fold (rec_update ub mn) [0..<n] cells) s"
  using assms
proof (induction n)
  case (Suc n)
  let ?c = "fold (rec_update ub mn) [0..<n] cells"
  have IH: "\<forall>s<n. owns ub mn ?c s" using Suc.IH Suc.prems by (simp add: All_less_Suc)
  have step: "rec_update ub mn n ?c ! i =
    (?c ! i)\<lparr>c_pos := (if i = n + mn then last_pos ub n else c_pos (?c ! i)),
             c_seq_id := (if i = n + mn then set (seq_ids ub n) else c_seq_id (?c ! i)),
             c_tail := (if int i \<in> set (seq_ids ub n) then int (n + mn) else c_tail (?c ! i))\<rparr>"
    if "i < length cells" for i
    by (rule rec_update_nth) (use Suc.prems that in auto)
  have "owns ub mn (rec_update ub mn n ?c) s" if s: "s < Suc n" for s
  proof (cases "s = n")
    case True
    have "0 \<le> sid \<and> nat sid < length cells" if "sid \<in> set (seq_ids ub n)" for sid
      using Suc.prems(2) that by (auto simp: nat_less_iff)
    then show ?thesis using True step Suc.prems(1) by (auto simp: owns_def)
  next
    case False
    with s have sn: "s < n" by simp
    have "int (nat sid) \<notin> set (seq_ids ub n) \<and> nat sid < length cells" if "sid \<in> set (seq_ids ub s)" for sid
    proof -
      have "0 \<le> sid \<and> sid < int (length cells)" using Suc.prems(2) sn that by (simp add: All_less_Suc)
      moreover have "set (seq_ids ub s) \<inter> set (seq_ids ub n) = {}" using Suc.prems(3) sn by auto
      ultimately show ?thesis using that by (auto simp: nat_less_iff)
    qed
    then show ?thesis using IH sn step Suc.prems(1) by (auto simp: owns_def)
  qed
  then show ?case by simp
qed simp

text \<open>The tails stay indices of the cache through the first two loops, so the range found lies in
  the cache.\<close>

definition tails_ok :: "llama_kv_cell list \<Rightarrow> bool" where
  "tails_ok cells \<longleftrightarrow> (\<forall>c \<in> set cells. -1 \<le> c_tail c \<and> c_tail c < int (length cells))"

lemma tails_ok_upd:
  assumes "tails_ok cells" "-1 \<le> c_tail c \<and> c_tail c < int (length cells)"
  shows "tails_ok (cells[i := c])"
  using assms set_update_subset_insert[of cells i c] by (auto simp: tails_ok_def)

lemma tails_ok_nth: "tails_ok cells \<Longrightarrow> i < length cells \<Longrightarrow> -1 \<le> c_tail (cells ! i) \<and> c_tail (cells ! i) < int (length cells)"
  by (simp add: tails_ok_def)

lemma tails_ok_upd_same:
  assumes "tails_ok cells" "c_tail c = c_tail (cells ! i)"
  shows "tails_ok (cells[i := c])"
proof (cases "i < length cells")
  case True
  show ?thesis by (rule tails_ok_upd[OF assms(1)]) (simp add: assms(2) tails_ok_nth[OF assms(1) True])
next
  case False
  then show ?thesis using assms(1) by (simp add: list_update_beyond)
qed

lemma tails_ok_upd_cell:
  assumes "tails_ok (kv_cells cache)" "\<And>c. c_tail (f c) = c_tail c"
  shows "tails_ok (kv_cells (upd_cell i f cache))"
  using tails_ok_upd_same[OF assms(1), of "f (kv_cells cache ! i)" i] assms(2) by (simp add: upd_cell_def)

lemma length_upd_cell [simp]: "length (kv_cells (upd_cell i f cache)) = length (kv_cells cache)"
  by (simp add: upd_cell_def)

lemma tails_ok_clear_tail:
  assumes "tails_ok (kv_cells cache)"
  shows "tails_ok (kv_cells (upd_cell i (\<lambda>c. c\<lparr>c_tail := -1\<rparr>) cache))"
  using tails_ok_upd[OF assms, of "(kv_cells cache ! i)\<lparr>c_tail := -1\<rparr>" i]
  by (simp add: upd_cell_def)

lemma tails_ok_release_tail:
  assumes "tails_ok (kv_cells cache)"
  shows "tails_ok (kv_cells (release_tail cache sid))"
proof -
  have a: "tails_ok (kv_cells (upd_cell (nat sid) (\<lambda>c. c\<lparr>c_tail := -1\<rparr>)
             (upd_cell t (\<lambda>c. c\<lparr>c_seq_id := c_seq_id c - {sid}\<rparr>) cache)))" for t
    by (intro tails_ok_clear_tail tails_ok_upd_cell[OF assms]) simp
  show ?thesis unfolding release_tail_def Let_def
    using assms a tails_ok_upd_cell[OF a, where f = "\<lambda>c. c\<lparr>c_pos := -1, c_src := -1\<rparr>"] by simp
qed

lemma rec_check_ids_tails:
  assumes "rec_check_ids cache ids = (cache', ok)" "tails_ok (kv_cells cache)"
  shows "tails_ok (kv_cells cache')"
  using assms by (induction cache ids rule: rec_check_ids.induct)
    (auto simp: tails_ok_release_tail split: if_splits)

lemma tails_ok_rec_take_cell:
  assumes "tails_ok cells" "nec < length cells"
  shows "tails_ok (rec_take_cell sid nec cells)"
proof -
  let ?t = "nat (c_tail (cells ! sid))"
  let ?a = "cells[nec := (cells ! nec)\<lparr>c_pos := c_pos (cells ! ?t), c_src := c_src (cells ! ?t)\<rparr>]"
  let ?b = "?a[?t := (?a ! ?t)\<lparr>c_seq_id := c_seq_id (?a ! ?t) - {int sid}\<rparr>]"
  let ?d = "?b[nec := (?b ! nec)\<lparr>c_seq_id := insert (int sid) (c_seq_id (?b ! nec))\<rparr>]"
  have a: "tails_ok ?a" by (rule tails_ok_upd_same[OF assms(1)]) simp
  have b: "tails_ok ?b" by (rule tails_ok_upd_same[OF a]) simp
  have d: "tails_ok ?d" by (rule tails_ok_upd_same[OF b]) simp
  have fin: "tails_ok (xs[sid := (xs ! sid)\<lparr>c_tail := int nec\<rparr>])" if "tails_ok xs" "length xs = length cells" for xs
    by (rule tails_ok_upd[OF that(1)]) (use that assms in auto)
  show ?thesis unfolding rec_take_cell_def Let_def
    by (rule fin) (use d assms in auto)
qed

definition range_ok :: "rec_range \<Rightarrow> bool" where
  "range_ok r \<longleftrightarrow> tails_ok (rr_cells r) \<and> 0 \<le> rr_min r \<and> rr_min r < int (length (rr_cells r))
     \<and> 0 \<le> rr_max r \<and> rr_max r < int (length (rr_cells r))"

lemma rec_assign_range:
  assumes "rec_assign ub sz s r = Inr r'" "range_ok r" "nat (ub_seq_id ub ! s ! 0) < length (rr_cells r)"
  shows "range_ok r' \<and> length (rr_cells r') = length (rr_cells r) \<and> rr_min r' \<le> rr_max r'"
proof -
  let ?sid = "nat (ub_seq_id ub ! s ! 0)"
  obtain r1 where r1: "(if 0 \<le> c_tail (rr_cells r ! ?sid) \<and> card (c_seq_id (rr_cells r ! nat (c_tail (rr_cells r ! ?sid)))) = 1
      then Inr r else rec_assign_cell ub sz s r) = Inr r1"
    and r': "r' = r1\<lparr>rr_min := (if rr_min r1 > c_tail (rr_cells r1 ! ?sid) then c_tail (rr_cells r1 ! ?sid) else rr_min r1),
                     rr_max := (if rr_max r1 < c_tail (rr_cells r1 ! ?sid) then c_tail (rr_cells r1 ! ?sid) else rr_max r1)\<rparr>"
    using assms(1) unfolding rec_assign_def Let_def by (auto split: if_splits)
  have r1ok: "range_ok r1 \<and> length (rr_cells r1) = length (rr_cells r) \<and> 0 \<le> c_tail (rr_cells r1 ! ?sid)"
  proof (cases "0 \<le> c_tail (rr_cells r ! ?sid) \<and> card (c_seq_id (rr_cells r ! nat (c_tail (rr_cells r ! ?sid)))) = 1")
    case True
    then show ?thesis using r1 assms(2) by simp
  next
    case False
    then have "rec_assign_cell ub sz s r = Inr r1" using r1 by (simp only: if_False)
    moreover have "c_tail (rec_take_cell ?sid nec cells ! ?sid) = int nec" if "?sid < length cells" for nec cells
      using that by (simp add: rec_take_cell_def Let_def)
    ultimately show ?thesis using assms(2,3)
      by (auto simp: rec_assign_cell_def Let_def range_ok_def tails_ok_rec_take_cell split: if_splits)
  qed
  then show ?thesis using r' tails_ok_nth[of "rr_cells r1" ?sid] assms(3) by (auto simp: range_ok_def)
qed

lemma rec_assign_all_range:
  assumes "rec_assign_all ub sz ss r = Inr r'" "range_ok r" "ss \<noteq> []"
    "\<forall>s \<in> set ss. nat (ub_seq_id ub ! s ! 0) < length (rr_cells r)"
  shows "range_ok r' \<and> length (rr_cells r') = length (rr_cells r) \<and> rr_min r' \<le> rr_max r'"
  using assms
proof (induction ss arbitrary: r)
  case (Cons s ss)
  then obtain r1 where 1: "rec_assign ub sz s r = Inr r1" "rec_assign_all ub sz ss r1 = Inr r'" by auto
  have 2: "range_ok r1 \<and> length (rr_cells r1) = length (rr_cells r) \<and> rr_min r1 \<le> rr_max r1"
    using rec_assign_range[OF 1(1)] Cons.prems by simp
  then show ?case using 1(2) Cons.IH[OF 1(2)] Cons.prems(4) by (cases "ss = []") auto
qed simp

lemma in_ubatch_ids:
  assumes "s < ub_n_seqs ub" "sid \<in> set (seq_ids ub s)"
  shows "\<exists>j. (j, sid) \<in> set (ubatch_ids ub)"
proof -
  obtain i where "i < nat (ub_n_seq_id ub ! s)" "sid = ub_seq_id ub ! s ! i"
    using assms(2) by (auto simp: seq_ids_def in_set_conv_nth)
  then have "(i, sid) \<in> set (ubatch_ids ub)"
    using assms(1) by (auto simp: ubatch_ids_def intro!: bexI[of _ s])
  then show ?thesis by blast
qed

lemma first_id_in_range:
  assumes "1 \<le> ub_n_seq_id ub ! s" "ub_n_seq_id ub ! s \<le> int (length (ub_seq_id ub ! s))"
  shows "ub_seq_id ub ! s ! 0 \<in> set (seq_ids ub s)"
proof -
  have "0 < length (seq_ids ub s)" using assms by (simp add: seq_ids_def)
  then show ?thesis using nth_mem[of 0 "seq_ids ub s"] by (simp add: seq_ids_def)
qed

text \<open>A batch for the recurrent search: every sequence has at least one id, and no id occurs in two
  sequences.\<close>

definition rec_ubatch_ok :: "llama_ubatch \<Rightarrow> bool" where
  "rec_ubatch_ok ub \<longleftrightarrow> ub_equal_seqs ub \<and> 0 < ub_n_seqs ub
     \<and> (\<forall>s < ub_n_seqs ub. 1 \<le> ub_n_seq_id ub ! s \<and> ub_n_seq_id ub ! s \<le> int (length (ub_seq_id ub ! s)))
     \<and> (\<forall>s < ub_n_seqs ub. \<forall>s' < ub_n_seqs ub. s \<noteq> s' \<longrightarrow> set (seq_ids ub s) \<inter> set (seq_ids ub s') = {})"

lemma find_slot_recurrent_owns:
  assumes "rec_ubatch_ok ub" "length (kv_cells cache) = kv_size cache" "kv_size cache < 2 ^ 32"
    "tails_ok (kv_cells cache)" "find_slot_recurrent cache ub = Inr (cache', info)" "found info"
  shows "kv_head cache' + ub_n_seqs ub \<le> kv_size cache \<and> length (kv_cells cache') = kv_size cache
    \<and> kv_head cache' + kv_n cache' \<le> kv_size cache \<and> ub_n_seqs ub \<le> kv_n cache' \<and> kv_recurrent cache' = kv_recurrent cache
    \<and> (\<forall>s < ub_n_seqs ub. owns ub (kv_head cache') (kv_cells cache') s)
    \<and> kv_used cache' = of_nat (n_occupied (kv_cells cache'))"
proof -
  let ?n = "ub_n_seqs ub"
  obtain c1 ok where c1: "rec_check_ids cache (ubatch_ids ub) = (c1, ok)" by fastforce
  have ok: ok using assms(5,6) c1 by (cases ok) (auto simp: find_slot_recurrent_def slot_failed_def)
  note len = rec_check_ids_length[OF c1] and tl = rec_check_ids_tails[OF c1 assms(4)]
  have ids: "0 \<le> sid \<and> sid < int (kv_size cache)" if "s < ?n" "sid \<in> set (seq_ids ub s)" for s sid
    using rec_check_ids_range[of cache "ubatch_ids ub" c1] c1 ok in_ubatch_ids[OF that] by auto
  let ?r0 = "\<lparr>rr_cells = kv_cells c1, rr_next = next_empty (kv_size c1) (kv_cells c1) (kv_size c1) (kv_head c1),
              rr_min = int (kv_size c1) - 1, rr_max = 0\<rparr>"
  obtain r where r: "rec_assign_all ub (kv_size c1) [0..<?n] ?r0 = Inr r"
    and cells: "kv_cells cache' = fold (rec_update ub (nat (rr_min r))) [0..<?n]
                                    (fold (rec_gather ub (rr_min r)) [0..<?n] (rr_cells r))"
    and hd: "kv_head cache' = nat (rr_min r)" "kv_n cache' = nat ((rr_max r - rr_min r + 1) mod 2 ^ 32)"
      "kv_recurrent cache' = kv_recurrent c1"
    and n: "nat ((rr_max r - rr_min r + 1) mod 2 ^ 32) \<ge> ?n"
    and used: "kv_used cache' = of_nat (n_occupied (kv_cells cache'))"
    using assms(5,6) c1 ok
    by (auto simp: find_slot_recurrent_def Let_def slot_bool_def n_occupied_def)
  have id0: "nat (ub_seq_id ub ! s ! 0) < kv_size cache" if "s < ?n" for s
    using ids[OF that first_id_in_range] assms(1) that by (auto simp: rec_ubatch_ok_def nat_less_iff)
  have pos: "0 < ?n" using assms(1) by (simp add: rec_ubatch_ok_def)
  then have sz: "0 < kv_size cache" using id0[of 0] by simp
  have "range_ok ?r0" using tl len assms(2) sz by (simp add: range_ok_def)
  then have ro: "range_ok r" "length (rr_cells r) = kv_size cache" "rr_min r \<le> rr_max r"
    using rec_assign_all_range[OF r] id0 pos len assms(2) by auto
  then have m: "(rr_max r - rr_min r + 1) mod 2 ^ 32 = rr_max r - rr_min r + 1"
    using assms(3) by (intro mod_pos_pos_trivial) (auto simp: range_ok_def)
  then have fit: "nat (rr_min r) + ?n \<le> kv_size cache" using n ro by (auto simp: range_ok_def)
  have win: "nat (rr_min r) + nat (rr_max r - rr_min r + 1) \<le> kv_size cache" using ro by (auto simp: range_ok_def)
  have "\<forall>s<?n. owns ub (nat (rr_min r)) (kv_cells cache') s" unfolding cells
    by (rule rec_update_all_owns) (use fit ro ids assms(1) in \<open>auto simp: rec_ubatch_ok_def\<close>)
  then show ?thesis using hd fit used ro win n len unfolding m by (simp add: cells)
qed

end
