(* ===== verification/Kv_Context.thy ===== *)
theory Kv_Context
  imports Kv_Recurrent
begin

text \<open>
  The KV cache as its clients see it: the bridges of the public API and the heuristics of the
  decoder (\<open>src/llm/llama.cpp/src/llama.cpp\<close>), the restorer that rolls a failed decode back
  (\<open>llama-kv-cache.h\<close>) and the debugging view (\<open>llama-kv-cache.cpp\<close>, lines 630-718).
\<close>

section \<open>Bridges of the public API\<close>

definition ctx_seq_rm :: "llama_kv_cache \<Rightarrow> int \<Rightarrow> int \<Rightarrow> int \<Rightarrow> llama_kv_cache \<times> bool" where
  "ctx_seq_rm cache sid p0 p1 = llama_kv_cache_seq_rm cache sid p0 p1"

definition ctx_seq_cp :: "llama_kv_cache \<Rightarrow> int \<Rightarrow> int \<Rightarrow> int \<Rightarrow> int \<Rightarrow> llama_kv_cache" where
  "ctx_seq_cp cache src dst p0 p1 =
     (if src = dst then cache else llama_kv_cache_seq_cp cache src dst p0 p1)"

definition ctx_seq_add :: "llama_kv_cache \<Rightarrow> int \<Rightarrow> int \<Rightarrow> int \<Rightarrow> int \<Rightarrow> llama_kv_cache res" where
  "ctx_seq_add cache sid p0 p1 delta =
     (if delta = 0 then Inr cache else llama_kv_cache_seq_add cache sid p0 p1 delta)"

definition ctx_seq_div :: "llama_kv_cache \<Rightarrow> int \<Rightarrow> int \<Rightarrow> int \<Rightarrow> int \<Rightarrow> llama_kv_cache res" where
  "ctx_seq_div cache sid p0 p1 d =
     (if d = 1 then Inr cache else llama_kv_cache_seq_div cache sid p0 p1 d)"

text \<open>The bookkeeping of \<open>llama_kv_cache_update_impl\<close> after a K-shift (lines 9258-9266).\<close>

definition shift_applied :: "llama_kv_cache \<Rightarrow> llama_kv_cache" where
  "shift_applied cache =
     cache\<lparr>kv_has_shift := False, kv_cells := map (\<lambda>c. c\<lparr>c_delta := 0\<rparr>) (kv_cells cache)\<rparr>"

section \<open>The restorer\<close>

record llama_kv_slot_restorer =
  rs_head :: nat
  rs_n :: nat
  rs_slots :: "(nat \<times> nat) list"
  rs_do_restore :: bool

definition slot_restorer :: "llama_kv_cache \<Rightarrow> llama_kv_slot_restorer" where
  "slot_restorer cache = \<lparr>rs_head = kv_head cache, rs_n = kv_n cache, rs_slots = [], rs_do_restore = False\<rparr>"

definition restorer_save ::
  "llama_kv_slot_restorer \<Rightarrow> llama_kv_cache_slot_info \<Rightarrow> llama_kv_slot_restorer" where
  "restorer_save rs slot =
     (if found slot then
        (let rs = rs\<lparr>rs_do_restore := True\<rparr> in
         if fst (boundaries slot) \<noteq> snd (boundaries slot)
         then rs\<lparr>rs_slots := rs_slots rs @ [boundaries slot]\<rparr> else rs)
      else rs)"

definition restorer_restore :: "llama_kv_slot_restorer \<Rightarrow> llama_kv_cache \<Rightarrow> llama_kv_cache" where
  "restorer_restore rs cache =
     (if rs_do_restore rs then
        (let cache = cache\<lparr>kv_head := rs_head rs, kv_n := rs_n rs\<rparr> in
         if kv_recurrent cache then fst (llama_kv_cache_seq_rm cache (-1) (-1) (-1))
         else fold (\<lambda>slot cache. fst (llama_kv_cache_seq_rm cache (-1) (int (fst slot)) (int (snd slot))))
                (rs_slots rs) cache)
      else cache)"

section \<open>Placing a micro-batch\<close>

definition GGML_PAD :: "nat \<Rightarrow> nat \<Rightarrow> nat" where
  "GGML_PAD x n = unat ((of_nat x + of_nat n - 1 :: u32) AND NOT (of_nat n - 1))"

text \<open>The KV part of \<open>llama_prepare_ubatch\<close> (lines 8549-8568): the head goes back to the start when
  enough cells before it are free, a slot is searched, saved for a rollback, and \<open>n\<close> is set to the
  padded number of cells the attention has to look at. The returned number is the function's.\<close>

definition kv_prepare ::
  "bool \<Rightarrow> llama_kv_cache \<Rightarrow> llama_kv_slot_restorer \<Rightarrow> llama_ubatch
     \<Rightarrow> (llama_kv_cache \<times> llama_kv_slot_restorer \<times> int) res" where
  "kv_prepare flash_attn cache rs ub =
     (let cache = (if kv_head cache > unat (kv_used cache + 2 * of_nat (ub_n_tokens ub))
                   then cache\<lparr>kv_head := 0\<rparr> else cache) in
      bind_res (llama_kv_cache_find_slot cache ub) (\<lambda>(cache, slot).
        if \<not> found slot then Inr (cache, rs, 1)
        else (let rs = restorer_save rs slot;
                  pad = llama_kv_cache_get_padding flash_attn;
                  cache = (if \<not> kv_recurrent cache
                           then cache\<lparr>kv_n := min (kv_size cache) (max pad (GGML_PAD (llama_kv_cache_cell_max cache) pad))\<rparr>
                           else cache)
              in Inr (cache, rs, 0))))"

section \<open>The debugging view\<close>

record llama_kv_cache_view =
  v_n_cells :: int
  v_n_seq_max :: int
  v_token_count :: int
  v_used_cells :: int
  v_max_contiguous :: int
  v_max_contiguous_idx :: int
  v_cells :: "int list option"
  v_cells_sequences :: "int list option"

definition llama_kv_cache_view_init :: "llama_kv_cache \<Rightarrow> int \<Rightarrow> llama_kv_cache_view" where
  "llama_kv_cache_view_init kv n_seq_max =
     \<lparr>v_n_cells = 0, v_n_seq_max = n_seq_max, v_token_count = 0,
      v_used_cells = llama_get_kv_cache_used_cells kv, v_max_contiguous = 0, v_max_contiguous_idx = -1,
      v_cells = None, v_cells_sequences = None\<rparr>"

definition llama_kv_cache_view_free :: "llama_kv_cache_view \<Rightarrow> llama_kv_cache_view" where
  "llama_kv_cache_view_free view = view\<lparr>v_cells := None, v_cells_sequences := None\<rparr>"

record view_scan =
  vs_used :: int
  vs_tokens :: int
  vs_curr :: int
  vs_max :: int
  vs_max_idx :: int

definition view_step :: "int \<Rightarrow> llama_kv_cell list \<Rightarrow> nat \<Rightarrow> view_scan \<Rightarrow> view_scan" where
  "view_step n_seq_max cells i v =
     (let curr_size = card (c_seq_id (cells ! i));
          v = v\<lparr>vs_tokens := vs_tokens v + int curr_size\<rparr>;
          v = (if curr_size > 0 then
                 (let v = (if vs_curr v \<ge> 0 \<and> int i - vs_curr v > vs_max v
                           then v\<lparr>vs_max := int i - vs_curr v, vs_max_idx := vs_curr v\<rparr> else v)
                  in v\<lparr>vs_curr := -1\<rparr>)
               else if vs_curr v < 0 then v\<lparr>vs_curr := int i\<rparr> else v)
      in if min (int curr_size) n_seq_max > 0 then v\<lparr>vs_used := vs_used v + 1\<rparr> else v)"

definition view_row :: "int \<Rightarrow> llama_kv_cell \<Rightarrow> int list" where
  "view_row n_seq_max c =
     (let ids = take (nat n_seq_max) (sorted_list_of_set (c_seq_id c))
      in ids @ replicate (nat n_seq_max - length ids) (-1))"

text \<open>The arrays are reallocated when the view is too small; rows past the cache keep their content.\<close>

definition llama_kv_cache_view_update :: "llama_kv_cache_view \<Rightarrow> llama_kv_cache \<Rightarrow> llama_kv_cache_view" where
  "llama_kv_cache_view_update view kv =
     (let m = nat (v_n_seq_max view);
          n_cells = (if v_n_cells view < int (kv_size kv) \<or> v_cells view = None
                     then int (kv_size kv) else v_n_cells view);
          v = fold (view_step (v_n_seq_max view) (kv_cells kv)) [0..<kv_size kv]
                \<lparr>vs_used = 0, vs_tokens = 0, vs_curr = -1, vs_max = 0, vs_max_idx = -1\<rparr>;
          v = (if vs_curr v \<ge> 0 \<and> int (length (kv_cells kv)) - vs_curr v > vs_max v
               then v\<lparr>vs_max_idx := vs_curr v, vs_max := int (length (kv_cells kv)) - vs_curr v\<rparr> else v)
      in view\<lparr>v_n_cells := n_cells,
              v_cells := Some (map (\<lambda>c. c_pos c + c_delta c) (kv_cells kv)
                               @ drop (kv_size kv) (case v_cells view of None \<Rightarrow> [] | Some xs \<Rightarrow> xs)),
              v_cells_sequences := Some (concat (map (view_row (v_n_seq_max view)) (kv_cells kv))
                               @ drop (kv_size kv * m) (case v_cells_sequences view of None \<Rightarrow> [] | Some xs \<Rightarrow> xs)),
              v_max_contiguous := vs_max v,
              v_max_contiguous_idx := vs_max_idx v,
              v_token_count := vs_tokens v,
              v_used_cells := vs_used v\<rparr>)"

section \<open>Reachable caches\<close>

datatype kv_op =
    FindSlot llama_ubatch
  | Prepare bool llama_kv_slot_restorer llama_ubatch
  | SeqRm int int int
  | SeqCp int int int int
  | SeqKeep int
  | SeqAdd int int int int
  | SeqDiv int int int int
  | Clear
  | Defrag
  | Shifted
  | Restore llama_kv_slot_restorer

text \<open>One call of the cache of a Transformer-like model that returns. A micro-batch must be well-formed, a divisor
  positive (the interface asks for more than one; a negative one makes positions negative) and a restorer one that was taken
  from a cache of this size. Shifts whose arithmetic overflows have no step.\<close>

inductive kv_step :: "llama_kv_cache \<Rightarrow> kv_op \<Rightarrow> llama_kv_cache \<Rightarrow> bool" where
  find_slot: "ubatch_ok ub \<Longrightarrow> llama_kv_cache_find_slot c ub = Inr (c', info) \<Longrightarrow> kv_step c (FindSlot ub) c'"
| prepare: "ubatch_ok ub \<Longrightarrow> kv_prepare fa c rs ub = Inr (c', rs', ret) \<Longrightarrow> kv_step c (Prepare fa rs ub) c'"
| seq_rm: "ctx_seq_rm c sid p0 p1 = (c', ok) \<Longrightarrow> kv_step c (SeqRm sid p0 p1) c'"
| seq_cp: "kv_step c (SeqCp src dst p0 p1) (ctx_seq_cp c src dst p0 p1)"
| seq_keep: "kv_step c (SeqKeep sid) (llama_kv_cache_seq_keep c sid)"
| seq_add: "ctx_seq_add c sid p0 p1 delta = Inr c' \<Longrightarrow> kv_step c (SeqAdd sid p0 p1 delta) c'"
| seq_div: "0 < d \<Longrightarrow> ctx_seq_div c sid p0 p1 d = Inr c' \<Longrightarrow> kv_step c (SeqDiv sid p0 p1 d) c'"
| clear: "kv_step c Clear (llama_kv_cache_clear c)"
| defrag: "kv_step c Defrag (llama_kv_cache_defrag c)"
| shifted: "kv_step c Shifted (shift_applied c)"
| restore: "rs_head rs \<le> kv_size c \<Longrightarrow> kv_step c (Restore rs) (restorer_restore rs c)"

inductive_cases kv_stepE: "kv_step c opn c'"

definition kv_good :: "llama_kv_cache \<Rightarrow> bool" where
  "kv_good c \<longleftrightarrow> kv_inv c \<and> \<not> kv_recurrent c"

lemma kv_recurrent_ops [simp]:
  "kv_recurrent (llama_kv_cache_seq_keep c sid) = kv_recurrent c"
  "kv_recurrent (llama_kv_cache_clear c) = kv_recurrent c"
  "kv_recurrent (llama_kv_cache_defrag c) = kv_recurrent c"
  "kv_recurrent (shift_applied c) = kv_recurrent c"
  "kv_recurrent (seq_rm_pass c sid p0 p1) = kv_recurrent c"
  by (auto simp: llama_kv_cache_seq_keep_def llama_kv_cache_clear_def llama_kv_cache_defrag_def
      shift_applied_def seq_rm_pass_def split: prod.splits)

lemma kv_recurrent_trans [simp]:
  assumes "\<not> kv_recurrent c"
  shows "\<not> kv_recurrent (fst (llama_kv_cache_seq_rm c sid p0 p1))"
    "\<not> kv_recurrent (llama_kv_cache_seq_cp c src dst p0 p1)"
  using assms by (auto simp: llama_kv_cache_seq_rm_def llama_kv_cache_seq_cp_def Let_def split: prod.splits)

lemma ctx_seq_add_keeps:
  assumes "\<not> kv_recurrent c" "ctx_seq_add c sid p0 p1 delta = Inr c'"
  shows "\<not> kv_recurrent c'" "kv_size c' = kv_size c"
proof -
  have "\<not> kv_recurrent c' \<and> kv_size c' = kv_size c"
  proof (cases "delta = 0")
    case False
    then have "llama_kv_cache_seq_add c sid p0 p1 delta = Inr c'" using assms(2) by (simp add: ctx_seq_add_def)
    with assms(1) show ?thesis using assms(1) by (cases rule: seq_add_returns) simp_all
  qed (use assms in \<open>simp add: ctx_seq_add_def\<close>)
  then show "\<not> kv_recurrent c'" "kv_size c' = kv_size c" by simp_all
qed

lemma ctx_seq_div_keeps:
  assumes "\<not> kv_recurrent c" "ctx_seq_div c sid p0 p1 d = Inr c'"
  shows "\<not> kv_recurrent c'" "kv_size c' = kv_size c"
proof -
  have "\<not> kv_recurrent c' \<and> kv_size c' = kv_size c"
  proof (cases "d = 1")
    case False
    then have "llama_kv_cache_seq_div c sid p0 p1 d = Inr c'" using assms(2) by (simp add: ctx_seq_div_def)
    with assms(1) show ?thesis using assms(1) by (cases rule: seq_div_returns) simp_all
  qed (use assms in \<open>simp add: ctx_seq_div_def\<close>)
  then show "\<not> kv_recurrent c'" "kv_size c' = kv_size c" by simp_all
qed

lemma kv_good_seq_rm: "kv_good c \<Longrightarrow> kv_good (fst (llama_kv_cache_seq_rm c sid p0 p1))"
  by (simp add: kv_good_def kv_inv_seq_rm)

lemma kv_good_find_slot:
  assumes "kv_good c" "ubatch_ok ub" "llama_kv_cache_find_slot c ub = Inr (c', info)"
  shows "kv_good c' \<and> kv_size c' = kv_size c"
proof -
  have t: "find_slot_transformer c ub = Inr (c', info)" "kv_inv c" "\<not> kv_recurrent c"
    using assms by (auto simp: llama_kv_cache_find_slot_def kv_good_def)
  have "kv_inv c'" by (rule kv_inv_find_slot[OF t(2) assms(2) t(1)])
  moreover have "\<not> kv_recurrent c' \<and> kv_size c' = kv_size c"
    using t by (cases rule: find_slot_cases[OF t(2), of ub]) auto
  ultimately show ?thesis by (simp add: kv_good_def)
qed

lemma kv_good_fields:
  assumes "kv_good c" "h \<le> kv_size c"
  shows "kv_good (c\<lparr>kv_head := h\<rparr>)" "kv_good (c\<lparr>kv_n := k\<rparr>)" "kv_good (c\<lparr>kv_head := h, kv_n := k\<rparr>)"
  using assms by (simp_all add: kv_good_def kv_inv_def)

lemma kv_good_prepare:
  assumes "kv_good c" "ubatch_ok ub" "kv_prepare fa c rs ub = Inr (c', rs', ret)"
  shows "kv_good c'"
proof -
  let ?c = "if kv_head c > unat (kv_used c + 2 * of_nat (ub_n_tokens ub)) then c\<lparr>kv_head := 0\<rparr> else c"
  obtain c1 slot where 1: "llama_kv_cache_find_slot ?c ub = Inr (c1, slot)"
    using assms(3) by (auto simp: kv_prepare_def Let_def)
  have "kv_good ?c" using assms(1) kv_good_fields(1)[OF assms(1), of 0] by simp
  then have g: "kv_good c1" using kv_good_find_slot[OF _ assms(2) 1] by blast
  moreover have "c' = c1 \<or> (\<exists>k. c' = c1\<lparr>kv_n := k\<rparr>)"
    using assms(3) 1 by (auto simp: kv_prepare_def Let_def split: if_splits)
  ultimately show ?thesis using kv_good_fields(2)[OF g, of 0] by auto
qed

lemma kv_good_restore:
  assumes "kv_good c" "rs_head rs \<le> kv_size c"
  shows "kv_good (restorer_restore rs c)"
proof -
  have "kv_good (fold (\<lambda>slot c. fst (llama_kv_cache_seq_rm c (-1) (int (fst slot)) (int (snd slot)))) slots c')"
    if "kv_good c'" for slots c'
    using that by (induction slots arbitrary: c') (auto intro: kv_good_seq_rm)
  then show ?thesis using assms kv_good_fields(3)[OF assms(1)] by (auto simp: restorer_restore_def Let_def kv_good_def)
qed

lemma kv_good_shift_applied: "kv_good c \<Longrightarrow> kv_good (shift_applied c)"
proof -
  assume g: "kv_good c"
  have "n_occupied (map (\<lambda>c. c\<lparr>c_delta := 0\<rparr>) (kv_cells c)) = n_occupied (kv_cells c)"
    by (rule n_occupied_map_cong) (simp add: is_empty_def)
  then show ?thesis using g by (auto simp: kv_good_def kv_inv_def shift_applied_def cell_ok_def is_empty_def)
qed

lemma kv_good_ops:
  assumes "kv_good c"
  shows "kv_good (ctx_seq_cp c src dst p0 p1)" "kv_good (llama_kv_cache_seq_keep c sid)"
    "kv_good (llama_kv_cache_clear c)" "kv_good (llama_kv_cache_defrag c)"
  using assms by (auto simp: kv_good_def ctx_seq_cp_def kv_inv_seq_cp kv_inv_seq_keep kv_inv_clear kv_inv_defrag)

lemma kv_good_seq_add:
  assumes "kv_good c" "ctx_seq_add c sid p0 p1 delta = Inr c'"
  shows "kv_good c'"
  using assms ctx_seq_add_keeps(1)[OF _ assms(2)] kv_inv_seq_add[of c sid p0 p1 delta c']
  by (auto simp: kv_good_def ctx_seq_add_def split: if_splits)

lemma kv_good_seq_div:
  assumes "kv_good c" "0 < d" "ctx_seq_div c sid p0 p1 d = Inr c'"
  shows "kv_good c'"
  using assms ctx_seq_div_keeps(1)[OF _ assms(3)] kv_inv_seq_div[of c d sid p0 p1 c']
  by (auto simp: kv_good_def ctx_seq_div_def split: if_splits)

lemma kv_size_ops [simp]:
  "kv_size (llama_kv_cache_seq_keep c sid) = kv_size c" "kv_size (llama_kv_cache_clear c) = kv_size c"
  "kv_size (llama_kv_cache_defrag c) = kv_size c" "kv_size (shift_applied c) = kv_size c"
  "kv_size (seq_rm_pass c sid p0 p1) = kv_size c"
  by (auto simp: llama_kv_cache_seq_keep_def llama_kv_cache_clear_def llama_kv_cache_defrag_def
      shift_applied_def seq_rm_pass_def split: prod.splits)

lemma kv_size_trans [simp]:
  assumes "\<not> kv_recurrent c"
  shows "kv_size (fst (llama_kv_cache_seq_rm c sid p0 p1)) = kv_size c"
    "kv_size (ctx_seq_cp c src dst p0 p1) = kv_size c"
  using assms by (auto simp: llama_kv_cache_seq_rm_def llama_kv_cache_seq_cp_def Let_def ctx_seq_cp_def split: prod.splits)

lemma kv_size_restore: "kv_good c \<Longrightarrow> rs_head rs \<le> kv_size c \<Longrightarrow> kv_size (restorer_restore rs c) = kv_size c"
proof -
  assume g: "kv_good c" and h: "rs_head rs \<le> kv_size c"
  have "kv_size (fold (\<lambda>slot c. fst (llama_kv_cache_seq_rm c (-1) (int (fst slot)) (int (snd slot)))) slots c') = kv_size c'"
    if "kv_good c'" for slots c'
    using that
  proof (induction slots arbitrary: c')
    case (Cons a slots)
    then show ?case using kv_good_seq_rm[of c' "-1" "int (fst a)" "int (snd a)"] by (simp add: kv_good_def)
  qed simp
  then show ?thesis using kv_good_fields(3)[OF g h] g by (simp add: restorer_restore_def Let_def kv_good_def)
qed

lemma kv_size_prepare:
  assumes "kv_good c" "ubatch_ok ub" "kv_prepare fa c rs ub = Inr (c', rs', ret)"
  shows "kv_size c' = kv_size c"
proof -
  let ?c = "if kv_head c > unat (kv_used c + 2 * of_nat (ub_n_tokens ub)) then c\<lparr>kv_head := 0\<rparr> else c"
  obtain c1 slot where 1: "llama_kv_cache_find_slot ?c ub = Inr (c1, slot)"
    using assms(3) by (auto simp: kv_prepare_def Let_def)
  have "kv_good ?c" using assms(1) kv_good_fields(1)[OF assms(1), of 0] by simp
  then have "kv_size c1 = kv_size c" using kv_good_find_slot[OF _ assms(2) 1] by auto
  then show ?thesis using assms(3) 1 by (auto simp: kv_prepare_def Let_def split: if_splits)
qed

text \<open>The invariant of a cache of \<open>n\<close> cells, as a component.\<close>

definition kv_good_n :: "nat \<Rightarrow> llama_kv_cache \<Rightarrow> bool" where
  "kv_good_n n c \<longleftrightarrow> kv_good c \<and> kv_size c = n"

interpretation kv: invariant_component kv_step "kv_good_n n" for n
proof (unfold_locales, elim kv_stepE, goal_cases)
  case (1 s opn t ub info)
  then show ?case using kv_good_find_slot[of s ub t info] by (simp add: kv_good_n_def)
next
  case (2 s opn t ub fa rs rs' ret)
  then show ?case using kv_good_prepare[of s ub] kv_size_prepare[of s ub] by (auto simp: kv_good_n_def)
next
  case (3 s opn t sid p0 p1 ok)
  then show ?case using kv_good_seq_rm[of s sid p0 p1] kv_size_trans(1)[of s sid p0 p1]
    by (simp add: ctx_seq_rm_def kv_good_n_def kv_good_def)
next
  case (6 s opn t sid p0 p1 delta)
  then show ?case using kv_good_seq_add[of s sid p0 p1 delta t] ctx_seq_add_keeps(2)[of s sid p0 p1 delta t]
    by (simp add: kv_good_n_def kv_good_def)
next
  case (7 s opn t d sid p0 p1)
  then show ?case using kv_good_seq_div[of s d sid p0 p1 t] ctx_seq_div_keeps(2)[of s sid p0 p1 d t]
    by (simp add: kv_good_n_def kv_good_def)
qed (auto simp: kv_good_n_def kv_size_restore intro: kv_good_ops kv_good_shift_applied kv_good_restore,
     simp_all add: kv_good_def)

section \<open>The window of the attention\<close>

lemma unat_and_not_mask: "unat ((w :: u32) AND NOT (mask k)) = unat w div 2 ^ k * 2 ^ k"
proof -
  have "w AND NOT (mask k) = push_bit k (drop_bit k w)"
    by (rule bit_eqI) (auto simp: bit_simps)
  then have "unat (w AND NOT (mask k)) = take_bit 32 (push_bit k (drop_bit k (unat w)))"
    by (simp only: unsigned_push_bit_eq unat_drop_bit_eq) simp
  then have "unat (w AND NOT (mask k)) = take_bit 32 (unat w div 2 ^ k * 2 ^ k)"
    by (simp only: push_bit_eq_mult drop_bit_eq_div)
  moreover have "unat w div 2 ^ k * 2 ^ k < 2 ^ 32"
    using order_le_less_trans[OF div_times_less_eq_dividend, of "unat w" "2 ^ 32" "2 ^ k"] unsigned_less[of w] by simp
  ultimately show ?thesis by (simp add: take_bit_nat_eq_self)
qed

lemma pad_round_up:
  assumes "x + 2 ^ k < 2 ^ 32"
  shows "x \<le> GGML_PAD x (2 ^ k)"
proof -
  have w: "(of_nat x + of_nat (2 ^ k) - 1 :: u32) = of_nat (x + 2 ^ k - 1)"
    by (subst of_nat_diff) (simp_all add: trans_le_add2)
  have m: "(of_nat (2 ^ k) - 1 :: u32) = mask k" by (simp add: mask_eq_exp_minus_1)
  have "GGML_PAD x (2 ^ k) = unat (of_nat (x + 2 ^ k - 1) :: u32) div 2 ^ k * 2 ^ k"
    unfolding GGML_PAD_def w m by (rule unat_and_not_mask)
  also have "unat (of_nat (x + 2 ^ k - 1) :: u32) = x + 2 ^ k - 1"
    using assms by (simp add: unat_of_nat take_bit_nat_eq_self)
  finally have eq: "GGML_PAD x (2 ^ k) = (x + 2 ^ k - 1) div 2 ^ k * 2 ^ k" .
  have "(x + 2 ^ k - 1) mod 2 ^ k < 2 ^ k" by simp
  then show ?thesis unfolding eq using div_mult_mod_eq[of "x + 2 ^ k - 1" "2 ^ k"] by linarith
qed

lemma cell_max_bound:
  assumes "i < kv_size cache" "c_pos (kv_cells cache ! i) \<ge> 0" "\<not> is_empty (kv_cells cache ! i)"
  shows "i < llama_kv_cache_cell_max cache"
proof -
  let ?P = "\<lambda>i. c_pos (kv_cells cache ! (i - 1)) \<ge> 0 \<and> \<not> is_empty (kv_cells cache ! (i - 1))"
  let ?xs = "rev [1..<kv_size cache + 1]"
  have "?P (i + 1)" and "i + 1 \<in> set ?xs" using assms by auto
  then obtain m where m: "find ?P ?xs = Some m" by (metis (mono_tags, lifting) find_None_iff not_None_eq)
  then obtain k where k: "k < length ?xs" "m = ?xs ! k" "\<forall>j<k. \<not> ?P (?xs ! j)"
    by (auto simp: find_Some_iff)
  have nth: "?xs ! j = kv_size cache - j" if "j < kv_size cache" for j
    using that by (simp add: rev_nth del: upt_Suc)
  have "\<not> kv_size cache - (i + 1) < k"
  proof
    assume "kv_size cache - (i + 1) < k"
    then have "\<not> ?P (?xs ! (kv_size cache - (i + 1)))" using k(3) by blast
    moreover have "?xs ! (kv_size cache - (i + 1)) = i + 1" using nth[of "kv_size cache - (i + 1)"] assms(1) by simp
    ultimately show False using assms by simp
  qed
  then show ?thesis using m k nth[of k] assms(1) by (auto simp: llama_kv_cache_cell_max_def)
qed

lemma cell_max_le: "llama_kv_cache_cell_max cache \<le> kv_size cache"
  by (auto simp: llama_kv_cache_cell_max_def find_Some_iff rev_nth split: option.splits)

section \<open>The view\<close>

text \<open>A run of \<open>k\<close> empty cells starting at \<open>s\<close>, inside the first \<open>n\<close> cells.\<close>

definition empty_run :: "llama_kv_cell list \<Rightarrow> nat \<Rightarrow> nat \<Rightarrow> nat \<Rightarrow> bool" where
  "empty_run cells n s k \<longleftrightarrow> s + k \<le> n \<and> (\<forall>i<k. is_empty (cells ! (s + i)))"

lemma empty_run_Suc: "empty_run cells n s k \<Longrightarrow> empty_run cells (Suc n) s k"
  by (simp add: empty_run_def)

text \<open>Invariant of the scan after \<open>n\<close> cells: the runs seen so far are no longer than the recorded
  maximum, except those inside the run that is still open.\<close>

definition scan_inv :: "llama_kv_cell list \<Rightarrow> nat \<Rightarrow> view_scan \<Rightarrow> bool" where
  "scan_inv cells n v \<longleftrightarrow>
     (vs_curr v = -1 \<and> (n = 0 \<or> \<not> is_empty (cells ! (n - 1)))
        \<or> (\<exists>c<n. vs_curr v = int c \<and> empty_run cells n c (n - c) \<and> (c = 0 \<or> \<not> is_empty (cells ! (c - 1)))))
     \<and> 0 \<le> vs_max v
     \<and> (vs_max v = 0 \<or> (\<exists>s. vs_max_idx v = int s \<and> empty_run cells n s (nat (vs_max v))))
     \<and> (\<forall>s k. empty_run cells n s k \<longrightarrow> int k \<le> vs_max v \<or> (vs_curr v \<noteq> -1 \<and> vs_curr v \<le> int s))"

lemma empty_run_break:
  assumes "empty_run cells (Suc n) s k" "\<not> is_empty (cells ! n)" "0 < k"
  shows "empty_run cells n s k"
proof -
  have "s + k \<noteq> Suc n"
  proof
    assume "s + k = Suc n"
    then have "s + (k - 1) = n" "k - 1 < k" using assms(3) by auto
    then show False using assms(1,2) unfolding empty_run_def by metis
  qed
  then show ?thesis using assms(1) by (simp add: empty_run_def)
qed

lemma scan_inv_step_empty:
  assumes "scan_inv cells n v" and True: "is_empty (cells ! n)"
  shows "scan_inv cells (Suc n) (view_step m cells n v)"
proof -
  have cur: "vs_curr (view_step m cells n v) = (if vs_curr v < 0 then int n else vs_curr v)"
    and mx: "vs_max (view_step m cells n v) = vs_max v" "vs_max_idx (view_step m cells n v) = vs_max_idx v"
    using True by (auto simp: view_step_def is_empty_def Let_def)
  have open_run: "\<exists>c<Suc n. vs_curr (view_step m cells n v) = int c \<and> empty_run cells (Suc n) c (Suc n - c)
      \<and> (c = 0 \<or> \<not> is_empty (cells ! (c - 1)))"
  proof (cases "vs_curr v = -1")
    case c: True
    then show ?thesis using assms(1) True cur by (intro exI[of _ n]) (auto simp: scan_inv_def empty_run_def)
  next
    case False
    then obtain c where c: "c < n" "vs_curr v = int c" "empty_run cells n c (n - c)" "c = 0 \<or> \<not> is_empty (cells ! (c - 1))"
      using assms(1) by (auto simp: scan_inv_def)
    have "empty_run cells (Suc n) c (Suc n - c)" unfolding empty_run_def
    proof (intro conjI allI impI)
      fix i assume "i < Suc n - c"
      then show "is_empty (cells ! (c + i))" using c True by (cases "c + i = n") (auto simp: empty_run_def)
    qed (use c in auto)
    then show ?thesis using c cur by (intro exI[of _ c]) auto
  qed
  have "int k \<le> vs_max v \<or> vs_curr (view_step m cells n v) \<le> int s" if r: "empty_run cells (Suc n) s k" for s k
  proof (cases "s + k = Suc n \<and> 0 < k")
    case e: True
    show ?thesis
    proof (rule disjI2, rule ccontr)
      assume less: "\<not> vs_curr (view_step m cells n v) \<le> int s"
      obtain c where c: "vs_curr (view_step m cells n v) = int c" "c < Suc n" "c = 0 \<or> \<not> is_empty (cells ! (c - 1))"
        using open_run by blast
      then have "s + (c - 1 - s) = c - 1" "c - 1 - s < k" "c \<noteq> 0" using less e by auto
      then show False using r c(3) unfolding empty_run_def by metis
    qed
  next
    case e: False
    show ?thesis
    proof (cases "k = 0")
      case True
      then show ?thesis using assms(1) by (simp add: scan_inv_def)
    next
      case False
      then have "empty_run cells n s k" using e r by (auto simp: empty_run_def)
      then show ?thesis using assms(1) cur by (auto simp: scan_inv_def)
    qed
  qed
  then show ?thesis using open_run assms(1) mx unfolding scan_inv_def
    by (auto intro: empty_run_Suc)
qed

lemma scan_inv_step_used:
  assumes "scan_inv cells n v" "\<forall>c \<in> set cells. finite (c_seq_id c)" "n < length cells"
    and False: "\<not> is_empty (cells ! n)"
  shows "scan_inv cells (Suc n) (view_step m cells n v)"
proof -
  have "0 < card (c_seq_id (cells ! n))" using False assms(2,3) by (simp add: is_empty_def card_gt_0_iff)
  then have cur: "vs_curr (view_step m cells n v) = -1"
    and mx: "vs_max (view_step m cells n v) = (if vs_curr v \<ge> 0 \<and> int n - vs_curr v > vs_max v then int n - vs_curr v else vs_max v)"
      "vs_max_idx (view_step m cells n v) = (if vs_curr v \<ge> 0 \<and> int n - vs_curr v > vs_max v then vs_curr v else vs_max_idx v)"
    by (auto simp: view_step_def Let_def)
  have bound: "int k \<le> vs_max (view_step m cells n v)" if r: "empty_run cells (Suc n) s k" for s k
  proof (cases "k = 0")
    case True
    then show ?thesis using assms(1) mx(1) by (auto simp: scan_inv_def)
  next
    case k: False
    then have "empty_run cells n s k" using empty_run_break[OF r False] by simp
    then have "int k \<le> vs_max v \<or> (vs_curr v \<noteq> -1 \<and> vs_curr v \<le> int s \<and> s + k \<le> n)"
      using assms(1) by (auto simp: scan_inv_def empty_run_def)
    then show ?thesis using mx(1) assms(1) by (auto simp: scan_inv_def)
  qed
  have "vs_max (view_step m cells n v) = 0 \<or> (\<exists>s. vs_max_idx (view_step m cells n v) = int s
          \<and> empty_run cells (Suc n) s (nat (vs_max (view_step m cells n v))))"
  proof (cases "vs_curr v \<ge> 0 \<and> int n - vs_curr v > vs_max v")
    case True
    then obtain c where c: "c < n" "vs_curr v = int c" "empty_run cells n c (n - c)"
      using assms(1) by (auto simp: scan_inv_def)
    then show ?thesis using True mx by (auto intro!: exI[of _ c] empty_run_Suc simp: nat_diff_distrib)
  next
    case False
    then show ?thesis using mx assms(1) by (auto simp: scan_inv_def intro: empty_run_Suc)
  qed
  then show ?thesis using cur bound False mx(1) assms(1) unfolding scan_inv_def
    by (auto simp del: mx)
qed

lemma scan_inv_all:
  assumes "\<forall>c \<in> set cells. finite (c_seq_id c)" "n \<le> length cells"
  shows "scan_inv cells n (fold (view_step m cells) [0..<n]
           \<lparr>vs_used = 0, vs_tokens = 0, vs_curr = -1, vs_max = 0, vs_max_idx = -1\<rparr>)"
  using assms(2)
proof (induction n)
  case 0
  show ?case by (auto simp: scan_inv_def empty_run_def)
next
  case (Suc n)
  then show ?case using assms(1) scan_inv_step_empty scan_inv_step_used
    by (cases "is_empty (cells ! n)") auto
qed

text \<open>At the end of the scan the open run, if any, takes part.\<close>

lemma view_max_contiguous:
  assumes "kv_inv kv"
  shows "empty_run (kv_cells kv) (kv_size kv) s k \<Longrightarrow> int k \<le> v_max_contiguous (llama_kv_cache_view_update view kv)"
    and "\<exists>s. empty_run (kv_cells kv) (kv_size kv) s (nat (v_max_contiguous (llama_kv_cache_view_update view kv)))"
    and "0 \<le> v_max_contiguous (llama_kv_cache_view_update view kv)"
proof -
  let ?v = "fold (view_step (v_n_seq_max view) (kv_cells kv)) [0..<kv_size kv]
              \<lparr>vs_used = 0, vs_tokens = 0, vs_curr = -1, vs_max = 0, vs_max_idx = -1\<rparr>"
  have inv: "scan_inv (kv_cells kv) (kv_size kv) ?v"
    using assms by (intro scan_inv_all) (auto simp: kv_inv_def cell_ok_def)
  have mx: "v_max_contiguous (llama_kv_cache_view_update view kv)
      = (if vs_curr ?v \<ge> 0 \<and> int (kv_size kv) - vs_curr ?v > vs_max ?v then int (kv_size kv) - vs_curr ?v else vs_max ?v)"
    using kv_invD(1)[OF assms] by (simp add: llama_kv_cache_view_update_def Let_def)
  show "0 \<le> v_max_contiguous (llama_kv_cache_view_update view kv)"
    using inv mx by (auto simp: scan_inv_def)
  show "int k \<le> v_max_contiguous (llama_kv_cache_view_update view kv)"
    if r: "empty_run (kv_cells kv) (kv_size kv) s k"
  proof -
    have "int k \<le> vs_max ?v \<or> (vs_curr ?v \<noteq> -1 \<and> vs_curr ?v \<le> int s)" using inv r by (simp add: scan_inv_def)
    moreover have "s + k \<le> kv_size kv" using r by (simp add: empty_run_def)
    ultimately show ?thesis using inv mx by (auto simp: scan_inv_def)
  qed
  show "\<exists>s. empty_run (kv_cells kv) (kv_size kv) s (nat (v_max_contiguous (llama_kv_cache_view_update view kv)))"
  proof (cases "vs_curr ?v \<ge> 0 \<and> int (kv_size kv) - vs_curr ?v > vs_max ?v")
    case True
    then obtain c where "c < kv_size kv" "vs_curr ?v = int c" "empty_run (kv_cells kv) (kv_size kv) c (kv_size kv - c)"
      using inv by (auto simp: scan_inv_def)
    then show ?thesis using True mx by (auto intro!: exI[of _ c] simp: nat_diff_distrib)
  next
    case False
    then show ?thesis using mx inv
      by (cases "vs_max ?v = 0") (auto simp: scan_inv_def empty_run_def intro: exI[of _ 0])
  qed
qed

lemma view_used_cells:
  assumes "kv_inv kv" "1 \<le> v_n_seq_max view"
  shows "v_used_cells (llama_kv_cache_view_update view kv) = int (n_occupied (kv_cells kv))"
proof -
  have "vs_used (fold (view_step m cells) [0..<n] v0) = vs_used v0 + int (n_occupied (take n cells))"
    if "n \<le> length cells" "\<forall>c \<in> set cells. finite (c_seq_id c)" "1 \<le> m" for n cells m v0
    using that(1)
  proof (induction n)
    case (Suc n)
    then have "finite (c_seq_id (cells ! n))" using that(2) by simp
    then have "vs_used (view_step m cells n v) = vs_used v + of_bool (\<not> is_empty (cells ! n))" for v
      using that(3) by (auto simp: view_step_def Let_def is_empty_def card_gt_0_iff)
    moreover have "n_occupied (take (Suc n) cells) = n_occupied (take n cells) + of_bool (\<not> is_empty (cells ! n))"
      using Suc.prems by (simp add: take_Suc_conv_app_nth n_occupied_def)
    ultimately show ?case using Suc by simp
  qed (simp add: n_occupied_def)
  from this[of "kv_size kv" "kv_cells kv" "v_n_seq_max view"] show ?thesis
    using assms kv_invD[OF assms(1)] by (auto simp: llama_kv_cache_view_update_def Let_def cell_ok_def)
qed

section \<open>Properties\<close>

text \<open>C1. In every cache that calls reach from a fresh Transformer cache (one that is not recurrent) of \<open>n < 2^32\<close> cells, a cell
  has a position iff it belongs to a sequence, the head is inside the cache, and the 32-bit counter
  \<open>used\<close> (decremented without a check) is exactly the number of non-empty cells. The calls are those of \<open>kv_step\<close>: slot searches
  and preparations with well-formed micro-batches, removing, copying, keeping, shifting, dividing by a positive number,
  clearing, defragmentation requests, applied shifts and rollbacks. On recurrent caches the counter can go wrong
  (\<open>recurrent_used_drifts\<close>).\<close>

theorem kv_reachable_invariant:
  assumes "reach kv_step (llama_kv_cache_init c0 False fa ds n) c" "n < 2 ^ 32"
  shows "length (kv_cells c) = n \<and> kv_head c \<le> n
    \<and> (\<forall>x \<in> set (kv_cells c). c_pos x \<ge> -1 \<and> (c_pos x \<ge> 0 \<longleftrightarrow> c_seq_id x \<noteq> {}))
    \<and> unat (kv_used c) = length (filter (\<lambda>x. c_seq_id x \<noteq> {}) (kv_cells c))"
proof -
  have "kv_good_n n (llama_kv_cache_init c0 False fa ds n)"
    using kv_inv_init[of c0 False fa ds n] by (simp add: kv_good_n_def kv_good_def llama_kv_cache_init_def)
  then have "kv_good_n n c" using kv.good_reach[OF assms(1)] by blast
  then have g: "kv_inv c" "kv_size c = n" by (auto simp: kv_good_n_def kv_good_def)
  have "n_occupied (kv_cells c) < 2 ^ 32"
    using n_occupied_le[of "kv_cells c"] g assms(2) by (simp add: kv_inv_def)
  then have "unat (kv_used c) = n_occupied (kv_cells c)"
    using g by (simp add: kv_inv_def unat_of_nat take_bit_nat_eq_self)
  then show ?thesis using g by (auto simp: kv_inv_def cell_ok_def is_empty_def n_occupied_def)
qed

definition ex_cache :: llama_kv_cache where
  "ex_cache = \<lparr>kv_has_shift = False, kv_do_defrag = False, kv_recurrent = False, kv_v_trans = False,
               kv_can_shift = False, kv_head = 0, kv_size = 0, kv_used = 0, kv_n = 0, kv_cells = []\<rparr>"

definition ex_ub :: llama_ubatch where
  "ex_ub = \<lparr>ub_equal_seqs = False, ub_n_tokens = 1, ub_n_seq_tokens = 1, ub_n_seqs = 1, ub_token = Some [7],
            ub_embd = None, ub_pos = [5], ub_n_seq_id = [1], ub_seq_id = [[8]], ub_output = [1]\<rparr>"

lemma ex_ub_ok: "ubatch_ok ex_ub"
  by (simp add: ubatch_ok_def ex_ub_def)

text \<open>A token is placed, its sequence is copied and shifted, and the original is removed.\<close>

theorem kv_reachable_invariant_witness:
  "\<exists>c. reach kv_step (llama_kv_cache_init ex_cache False False False 2) c
   \<and> kv_cells c = [new_cell\<lparr>c_pos := 3, c_delta := -2, c_seq_id := {4}\<rparr>, new_cell]
   \<and> unat (kv_used c) = length (filter (\<lambda>x. c_seq_id x \<noteq> {}) (kv_cells c)) \<and> unat (kv_used c) = 1"
proof -
  let ?c0 = "llama_kv_cache_init ex_cache False False False 2"
  define c1 where "c1 = ?c0\<lparr>kv_cells := [new_cell\<lparr>c_pos := 5, c_seq_id := {8}\<rparr>, new_cell], kv_used := 1\<rparr>"
  define c2 where "c2 = ctx_seq_cp c1 8 4 (-1) (-1)"
  define c3 where "c3 = c2\<lparr>kv_cells := [new_cell\<lparr>c_pos := 3, c_delta := -2, c_seq_id := {4, 8}\<rparr>, new_cell], kv_has_shift := True, kv_head := 0\<rparr>"
  define c4 where "c4 = fst (ctx_seq_rm c3 8 (-1) (-1))"
  have 1: "llama_kv_cache_find_slot ?c0 ex_ub = Inr (c1, slot_range 0 1)"
    by (simp add: c1_def llama_kv_cache_find_slot_def find_slot_transformer_def llama_kv_cache_init_def ex_ub_def Let_def
        find_slot_loop.simps first_used_def new_cell_def fill_slot_def fill_cell_def numeral_2_eq_2)
  have 2: "c2 = c1\<lparr>kv_head := 0, kv_cells := [new_cell\<lparr>c_pos := 5, c_seq_id := {4, 8}\<rparr>, new_cell]\<rparr>"
    by (simp add: c2_def c1_def ctx_seq_cp_def llama_kv_cache_seq_cp_def seq_cp_cell_def norm_p0_def norm_p1_def has_seq_id_def
        in_range_def INT32_MAX_def new_cell_def llama_kv_cache_init_def)
  have 3: "ctx_seq_add c2 4 (-1) (-1) (-2) = Inr c3"
    by (simp add: c3_def 2 c1_def ctx_seq_add_def llama_kv_cache_seq_add_def seq_add_cell_def norm_p0_def norm_p1_def has_seq_id_def
        in_range_def INT32_MAX_def new_cell_def llama_kv_cache_init_def int32_def fits_int32_def)
  have 4: "c4 = c3\<lparr>kv_cells := [new_cell\<lparr>c_pos := 3, c_delta := -2, c_seq_id := {4}\<rparr>, new_cell]\<rparr>"
    by (simp add: c4_def c3_def 2 c1_def ctx_seq_rm_def llama_kv_cache_seq_rm_def seq_rm_pass_def seq_rm_cell_def norm_p0_def norm_p1_def
        has_seq_id_def in_range_def INT32_MAX_def new_cell_def llama_kv_cache_init_def lower_head_def is_empty_def insert_Diff_if)
  have "kv_step ?c0 (FindSlot ex_ub) c1" "kv_step c1 (SeqCp 8 4 (-1) (-1)) c2" "kv_step c2 (SeqAdd 4 (-1) (-1) (-2)) c3"
    "kv_step c3 (SeqRm 8 (-1) (-1)) c4"
    using 1 3 ex_ub_ok kv_step.seq_rm[of c3 8 "-1" "-1" c4 "snd (ctx_seq_rm c3 8 (-1) (-1))"]
    by (auto simp: c2_def c4_def intro!: kv_step.intros(1,4,6))
  then have r: "reach kv_step ?c0 c4" by (meson reach_refl reach_step)
  have "kv_cells c4 = [new_cell\<lparr>c_pos := 3, c_delta := -2, c_seq_id := {4}\<rparr>, new_cell]" by (simp add: 4)
  then show ?thesis using r kv_reachable_invariant[OF r] by (intro exI[of _ c4]) (simp add: new_cell_def)
qed

text \<open>C2. The slot search of a Transformer cache always returns, and it finds a slot iff the cache has
  as many consecutive free cells as the batch has tokens; the slot it returns is such a window.\<close>

theorem find_slot_complete:
  assumes "kv_inv c" "\<not> kv_recurrent c"
  shows "\<exists>c' info. llama_kv_cache_find_slot c ub = Inr (c', info)
    \<and> (found info \<longleftrightarrow> (\<exists>s. s + ub_n_tokens ub \<le> kv_size c \<and> (\<forall>i < ub_n_tokens ub. c_pos (kv_cells c ! (s + i)) < 0)))
    \<and> (found info \<longrightarrow> boundaries info = (kv_head c', kv_head c' + ub_n_tokens ub)
         \<and> kv_head c' + ub_n_tokens ub \<le> kv_size c
         \<and> (\<forall>i < ub_n_tokens ub. c_pos (kv_cells c ! (kv_head c' + i)) < 0))"
proof -
  have eq: "llama_kv_cache_find_slot c ub = find_slot_transformer c ub"
    using assms(2) by (simp add: llama_kv_cache_find_slot_def)
  show ?thesis using assms(1)
  proof (cases rule: find_slot_cases[where ub = ub])
    case toobig
    then show ?thesis by (auto simp: eq slot_failed_def)
  next
    case (full h)
    then show ?thesis by (simp add: eq slot_failed_def blocked_def) (meson leD linorder_not_less)
  next
    case (placed h)
    then show ?thesis by (auto simp: eq slot_range_def intro!: exI[of _ h])
  qed
qed

theorem find_slot_complete_witness:
  "\<exists>c' info. llama_kv_cache_find_slot (llama_kv_cache_init ex_cache False False False 3)
      \<lparr>ub_equal_seqs = False, ub_n_tokens = 2, ub_n_seq_tokens = 1, ub_n_seqs = 2, ub_token = None,
       ub_embd = None, ub_pos = [0, 1], ub_n_seq_id = [1, 1], ub_seq_id = [[0], [0]], ub_output = [0, 1]\<rparr>
    = Inr (c', info) \<and> found info"
proof -
  let ?c = "llama_kv_cache_init ex_cache False False False 3"
  let ?ub = "\<lparr>ub_equal_seqs = False, ub_n_tokens = 2, ub_n_seq_tokens = 1, ub_n_seqs = 2, ub_token = None,
       ub_embd = None, ub_pos = [0, 1], ub_n_seq_id = [1, 1], ub_seq_id = [[0], [0]], ub_output = [0, 1]\<rparr>"
  have "\<not> kv_recurrent ?c" by (simp add: llama_kv_cache_init_def)
  moreover have "\<exists>s. s + 2 \<le> kv_size ?c \<and> (\<forall>i<2. c_pos (kv_cells ?c ! (s + i)) < 0)"
    by (rule exI[of _ 0]) (simp add: llama_kv_cache_init_def new_cell_def)
  ultimately show ?thesis using find_slot_complete[OF kv_inv_init, of ex_cache False False False 3 ?ub] by auto
qed

lemma find_slot_entries:
  assumes "kv_inv c" "\<not> kv_recurrent c" "ubatch_ok ub"
    "llama_kv_cache_find_slot c ub = Inr (c', info)" "found info"
  shows "entries c' = entries c \<union>
    {(s, kv_head c' + k, ub_pos ub ! k) | s k. k < ub_n_tokens ub
       \<and> s \<in> set (take (nat (ub_n_seq_id ub ! (k div ub_n_seq_tokens ub))) (ub_seq_id ub ! (k div ub_n_seq_tokens ub)))}"
proof -
  have t: "find_slot_transformer c ub = Inr (c', info)"
    using assms(2,4) by (simp add: llama_kv_cache_find_slot_def)
  show ?thesis using assms(1)
  proof (cases rule: find_slot_cases[where ub = ub])
    case (placed h)
    then show ?thesis using entries_fill_slot[OF assms(1,3) placed(1,2)] t
      by (auto simp: token_seqs_def Let_def)
  qed (use t assms(5) in \<open>auto simp: slot_failed_def\<close>)
qed

lemma find_slot_cells:
  assumes "kv_inv c" "\<not> kv_recurrent c" "ubatch_ok ub"
    "llama_kv_cache_find_slot c ub = Inr (c', info)" "found info"
  shows "\<forall>i < kv_size c. kv_cells c' ! i =
      (if kv_head c' \<le> i \<and> i < kv_head c' + ub_n_tokens ub
       then (kv_cells c ! i)\<lparr>c_pos := ub_pos ub ! (i - kv_head c'), c_seq_id := token_seqs ub (i - kv_head c')\<rparr> else kv_cells c ! i)"
    "\<forall>k < ub_n_tokens ub. is_empty (kv_cells c ! (kv_head c' + k))"
    "c' = c\<lparr>kv_head := kv_head c', kv_cells := kv_cells c', kv_used := kv_used c + of_nat (ub_n_tokens ub)\<rparr>"
proof -
  have t: "find_slot_transformer c ub = Inr (c', info)"
    using assms(2,4) by (simp add: llama_kv_cache_find_slot_def)
  obtain h where h: "h + ub_n_tokens ub \<le> kv_size c" "\<And>i. i < ub_n_tokens ub \<Longrightarrow> c_pos (kv_cells c ! (h + i)) < 0"
    "c' = c\<lparr>kv_head := h, kv_cells := fill_slot ub h (kv_cells c), kv_used := kv_used c + of_nat (ub_n_tokens ub)\<rparr>"
    using assms(1)
  proof (cases rule: find_slot_cases[where ub = ub])
    case (placed h)
    then show ?thesis using that[of h] t by simp
  qed (use t assms(5) in \<open>auto simp: slot_failed_def\<close>)
  have len: "length (kv_cells c) = kv_size c" "ub_n_tokens ub = ub_n_seqs ub * ub_n_seq_tokens ub"
    using assms(1,3) by (simp_all add: kv_inv_def ubatch_ok_def)
  have free: "is_empty (kv_cells c ! (h + k))" if "k < ub_n_tokens ub" for k
  proof -
    have "cell_ok (kv_cells c ! (h + k))" using assms(1) len(1) h(1) that by (simp add: kv_inv_def)
    then show ?thesis using h(2)[OF that] by (auto simp: cell_ok_def)
  qed
  then show "\<forall>k < ub_n_tokens ub. is_empty (kv_cells c ! (kv_head c' + k))" using h(3) by simp
  show "c' = c\<lparr>kv_head := kv_head c', kv_cells := kv_cells c', kv_used := kv_used c + of_nat (ub_n_tokens ub)\<rparr>" using h(3) by simp
  show "\<forall>i < kv_size c. kv_cells c' ! i =
      (if kv_head c' \<le> i \<and> i < kv_head c' + ub_n_tokens ub
       then (kv_cells c ! i)\<lparr>c_pos := ub_pos ub ! (i - kv_head c'), c_seq_id := token_seqs ub (i - kv_head c')\<rparr> else kv_cells c ! i)"
  proof (intro allI impI)
    fix i assume i: "i < kv_size c"
    have "c_seq_id (kv_cells c ! i) = {}" if "h \<le> i" "i < h + ub_n_tokens ub"
      using free[of "i - h"] that by (simp add: is_empty_def)
    then show "kv_cells c' ! i = (if kv_head c' \<le> i \<and> i < kv_head c' + ub_n_tokens ub
       then (kv_cells c ! i)\<lparr>c_pos := ub_pos ub ! (i - kv_head c'), c_seq_id := token_seqs ub (i - kv_head c')\<rparr> else kv_cells c ! i)"
      using h(3) i len by (simp add: fill_slot_nth fill_token_def)
  qed
qed

text \<open>When a recurrent cache refuses to remove, and that it only forgets a tail before the pass.\<close>

lemma seq_rm_recurrent_None:
  "seq_rm_recurrent c sid q0 q1 = None \<longleftrightarrow>
     \<not> (if sid < 0 then q0 = q1 \<or> q0 = 0 \<and> q1 = INT32_MAX
        else sid < int (kv_size c) \<and>
             (let t = c_tail (kv_cells c ! nat sid); p = c_pos (kv_cells c ! nat t) in
              t < 0 \<or> \<not> (0 < q0 \<and> q0 \<le> p) \<and> \<not> (0 < q1 \<and> q1 \<le> p)))"
  by (auto simp: seq_rm_recurrent_def Let_def)

lemma entries_tail: "entries (c\<lparr>kv_cells := (kv_cells c)[j := (kv_cells c ! j)\<lparr>c_tail := t\<rparr>]\<rparr>) = entries c"
  by (rule triple_eqI) (cases "j < length (kv_cells c)", auto simp: nth_list_update)

lemma seq_rm_recurrent_entries: "seq_rm_recurrent c sid q0 q1 = Some c1 \<Longrightarrow> entries c1 = entries c"
  by (auto simp: seq_rm_recurrent_def Let_def entries_tail simp del: in_entries split: if_splits)

text \<open>C21. A slot that was found in a Transformer cache stores exactly the tokens of the micro-batch: token \<open>k\<close> goes to cell
  \<open>head + k\<close>, which was empty, with its position and its sequences; every other cell is untouched, \<open>used\<close> grows by the number of tokens, and
  only the head, the cells and \<open>used\<close> change. So the entries of the cache are the old ones and those of the tokens.\<close>

theorem find_slot_stores_batch:
  assumes "kv_inv c" "\<not> kv_recurrent c" "ubatch_ok ub"
    "llama_kv_cache_find_slot c ub = Inr (c', info)" "found info"
  shows "(\<forall>i < kv_size c. kv_cells c' ! i =
        (if kv_head c' \<le> i \<and> i < kv_head c' + ub_n_tokens ub
         then (kv_cells c ! i)\<lparr>c_pos := ub_pos ub ! (i - kv_head c'),
                c_seq_id := set (take (nat (ub_n_seq_id ub ! ((i - kv_head c') div ub_n_seq_tokens ub)))
                                      (ub_seq_id ub ! ((i - kv_head c') div ub_n_seq_tokens ub)))\<rparr>
         else kv_cells c ! i))
    \<and> (\<forall>k < ub_n_tokens ub. is_empty (kv_cells c ! (kv_head c' + k)))
    \<and> c' = c\<lparr>kv_head := kv_head c', kv_cells := kv_cells c', kv_used := kv_used c + of_nat (ub_n_tokens ub)\<rparr>
    \<and> entries c' = entries c \<union>
      {(s, kv_head c' + k, ub_pos ub ! k) | s k. k < ub_n_tokens ub
         \<and> s \<in> set (take (nat (ub_n_seq_id ub ! (k div ub_n_seq_tokens ub))) (ub_seq_id ub ! (k div ub_n_seq_tokens ub)))}"
  using find_slot_cells[OF assms] find_slot_entries[OF assms] by (intro conjI) (simp_all add: token_seqs_def Let_def)

theorem find_slot_stores_batch_witness:
  "\<exists>c' info. llama_kv_cache_find_slot (llama_kv_cache_init ex_cache False False False 2) ex_ub = Inr (c', info)
     \<and> found info \<and> (8, kv_head c', 5) \<in> entries c' \<and> kv_used c' = 1 \<and> kv_cells c' ! 1 = new_cell"
proof -
  let ?c = "llama_kv_cache_init ex_cache False False False 2"
  have nr: "\<not> kv_recurrent ?c" by (simp add: llama_kv_cache_init_def)
  let ?c1 = "?c\<lparr>kv_head := 0, kv_cells := fill_slot ex_ub 0 (kv_cells ?c), kv_used := 1\<rparr>"
  have r: "llama_kv_cache_find_slot ?c ex_ub = Inr (?c1, slot_range 0 1)"
    by (simp add: llama_kv_cache_find_slot_def find_slot_transformer_def llama_kv_cache_init_def ex_ub_def Let_def
        find_slot_loop.simps first_used_def new_cell_def)
  have f: "found (slot_range 0 1)" by (simp add: slot_range_def)
  note s = find_slot_stores_batch[OF kv_inv_init nr ex_ub_ok r f]
  have "(8, 0, 5) \<in> entries ?c1"
    using s[THEN conjunct2, THEN conjunct2, THEN conjunct2] by (simp add: ex_ub_def del: in_entries)
  moreover have "kv_cells ?c1 ! 1 = new_cell"
    using s[THEN conjunct1, rule_format, of 1] by (simp add: ex_ub_def llama_kv_cache_init_def)
  ultimately show ?thesis using r f by (intro exI conjI) (assumption, assumption, simp_all del: in_entries)
qed

text \<open>C11. Removing a sequence (or, with a negative id, all of them) from a range of positions. When \<open>true\<close> is returned, exactly the entries of
  the sequence in the range are gone and every other entry is in its cell at its position; when \<open>false\<close> is, nothing has changed. A Transformer
  cache never refuses. A recurrent one, whose cells hold the state of a whole sequence, refuses exactly an id that is no index of a
  cell, a range that would cut off a part of the sequence's state, and, for all sequences, a range that is neither empty nor everything.\<close>

theorem seq_rm_removes:
  "case ctx_seq_rm c sid p0 p1 of (c', ok) \<Rightarrow>
     (if ok then entries c' = {(s, i, p) \<in> entries c. \<not> ((sid < 0 \<or> s = sid) \<and> norm_p0 p0 \<le> p \<and> p < norm_p1 p1)} else c' = c)
   \<and> (ok \<longleftrightarrow> \<not> kv_recurrent c \<or>
        (if sid < 0 then norm_p0 p0 = norm_p1 p1 \<or> norm_p0 p0 = 0 \<and> norm_p1 p1 = INT32_MAX
         else sid < int (kv_size c) \<and>
              (let t = c_tail (kv_cells c ! nat sid); p = c_pos (kv_cells c ! nat t) in
               t < 0 \<or> \<not> (0 < norm_p0 p0 \<and> norm_p0 p0 \<le> p) \<and> \<not> (0 < norm_p1 p1 \<and> norm_p1 p1 \<le> p))))"
proof (cases "kv_recurrent c")
  case False
  then show ?thesis using entries_seq_rm_pass[of c sid "norm_p0 p0" "norm_p1 p1"]
    by (simp add: ctx_seq_rm_def llama_kv_cache_seq_rm_def Let_def)
next
  case True
  show ?thesis
  proof (cases "seq_rm_recurrent c sid (norm_p0 p0) (norm_p1 p1)")
    case None
    then have "ctx_seq_rm c sid p0 p1 = (c, False)" using True by (simp add: ctx_seq_rm_def llama_kv_cache_seq_rm_def)
    then show ?thesis using None True by (simp add: seq_rm_recurrent_None Let_def)
  next
    case (Some c1)
    then have "ctx_seq_rm c sid p0 p1 = (seq_rm_pass c1 sid (norm_p0 p0) (norm_p1 p1), True)" using True
      by (simp add: ctx_seq_rm_def llama_kv_cache_seq_rm_def)
    moreover have "\<not> seq_rm_recurrent c sid (norm_p0 p0) (norm_p1 p1) = None" using Some by simp
    ultimately show ?thesis using entries_seq_rm_pass[of c1 sid "norm_p0 p0" "norm_p1 p1"] seq_rm_recurrent_entries[OF Some] True
      unfolding seq_rm_recurrent_None by (simp add: Let_def)
  qed
qed

definition ex_full :: llama_kv_cache where
  "ex_full = ex_cache\<lparr>kv_size := 2, kv_head := 1, kv_used := 1,
     kv_cells := [new_cell\<lparr>c_pos := 1, c_seq_id := {7, 9}\<rparr>, new_cell]\<rparr>"

text \<open>A Transformer cache from which a sequence is removed, and a recurrent one that refuses to cut a state.\<close>

definition ex_state :: llama_kv_cache where
  "ex_state = ex_cache\<lparr>kv_recurrent := True, kv_size := 2, kv_used := 1,
     kv_cells := [new_cell\<lparr>c_pos := 5, c_tail := 0, c_seq_id := {0}\<rparr>, new_cell]\<rparr>"

theorem seq_rm_removes_witness:
  "(9, 0, 1) \<in> entries (fst (ctx_seq_rm ex_full 7 (-1) (-1))) \<and> (7, 0, 1) \<notin> entries (fst (ctx_seq_rm ex_full 7 (-1) (-1)))
   \<and> ctx_seq_rm ex_state 0 3 (-1) = (ex_state, False) \<and> entries (fst (ctx_seq_rm ex_state 0 (-1) (-1))) = {}"
proof -
  have nr: "\<not> kv_recurrent ex_full" by (simp add: ex_full_def ex_cache_def)
  have e: "(9, 0, 1) \<in> entries ex_full" by (simp add: ex_full_def)
  have "(9, 0, 1) \<in> entries (fst (ctx_seq_rm ex_full 7 (-1) (-1)))" "(7, 0, 1) \<notin> entries (fst (ctx_seq_rm ex_full 7 (-1) (-1)))"
    using seq_rm_removes[of ex_full 7 "-1" "-1"] nr e
    by (auto simp: norm_p0_def norm_p1_def INT32_MAX_def split: prod.splits simp del: in_entries)
  moreover have "ctx_seq_rm ex_state 0 3 (-1) = (ex_state, False)"
    using seq_rm_removes[of ex_state 0 3 "-1"] by (auto simp: ex_state_def norm_p0_def norm_p1_def INT32_MAX_def split: prod.splits if_splits)
  moreover have "entries ex_state = {(0, 0, 5)}" by (auto simp: entries_def ex_state_def new_cell_def less_Suc_eq)
  then have "entries (fst (ctx_seq_rm ex_state 0 (-1) (-1))) = {}"
    using seq_rm_removes[of ex_state 0 "-1" "-1"]
    by (auto simp: ex_state_def norm_p0_def norm_p1_def INT32_MAX_def split: prod.splits if_splits simp del: in_entries)
  ultimately show ?thesis by blast
qed

lemma entries_ctx_seq_cp:
  assumes "\<not> kv_recurrent c"
  shows "entries (ctx_seq_cp c src dst p0 p1) = entries c \<union>
    {(dst, i, p) | i p. (src, i, p) \<in> entries c \<and> (if p0 < 0 then 0 else p0) \<le> p \<and> p < (if p1 < 0 then INT32_MAX else p1)}"
  using entries_seq_cp[OF assms, of src dst p0 p1]
  by (auto simp: ctx_seq_cp_def norm_p0_def norm_p1_def)

lemma entries_ctx_seq_add:
  assumes "\<not> kv_recurrent c" "ctx_seq_add c sid p0 p1 delta = Inr c'"
  shows "entries c' = {(s, i, p) \<in> entries c. \<not> shifts c sid p0 p1 i}
      \<union> {(s, i, p + delta) | s i p. (s, i, p) \<in> entries c \<and> shifts c sid p0 p1 i \<and> (delta = 0 \<or> 0 \<le> p + delta)}"
proof (cases "delta = 0")
  case True
  then show ?thesis using assms(2) by (auto simp: ctx_seq_add_def)
next
  case False
  then show ?thesis using entries_seq_add[OF assms(1), of sid p0 p1 delta c'] assms(2) by (simp add: ctx_seq_add_def)
qed

lemma entries_ctx_seq_div:
  assumes "\<not> kv_recurrent c" "ctx_seq_div c sid p0 p1 d = Inr c'"
  shows "entries c' = {(s, i, if shifts c sid p0 p1 i then sgn p * sgn d * (\<bar>p\<bar> div \<bar>d\<bar>) else p) | s i p. (s, i, p) \<in> entries c}"
proof (cases "d = 1")
  case True
  have "sgn p * (\<bar>p\<bar>) = p" for p :: int by (simp add: sgn_mult_abs)
  then show ?thesis using True assms(2) by (auto simp: ctx_seq_div_def)
next
  case False
  then show ?thesis using entries_seq_div[OF assms(1), of sid p0 p1 d c'] assms(2) by (simp add: ctx_seq_div_def trunc_div_def)
qed

lemma ctx_seq_add_outcome:
  assumes "\<not> kv_recurrent c"
  shows "case ctx_seq_add c sid p0 p1 delta of
       Inl e \<Rightarrow> e = Undef \<and> delta \<noteq> 0 \<and> (\<exists>x \<in> set (kv_cells c). cell_hit sid p0 p1 x \<and> add_overflows delta x)
     | Inr c' \<Rightarrow> (delta = 0 \<or> (\<forall>x \<in> set (kv_cells c). cell_hit sid p0 p1 x \<longrightarrow> \<not> add_overflows delta x))
         \<and> entries c' = {(s, i, p) \<in> entries c. \<not> shifts c sid p0 p1 i}
           \<union> {(s, i, p + delta) | s i p. (s, i, p) \<in> entries c \<and> shifts c sid p0 p1 i \<and> (delta = 0 \<or> 0 \<le> p + delta)}"
proof (cases "ctx_seq_add c sid p0 p1 delta")
  case (Inl e)
  then show ?thesis using seq_add_outcome[OF assms, of sid p0 p1 delta] by (cases "delta = 0") (simp_all add: ctx_seq_add_def)
next
  case (Inr c')
  have "delta = 0 \<or> (\<forall>x \<in> set (kv_cells c). cell_hit sid p0 p1 x \<longrightarrow> \<not> add_overflows delta x)"
    using Inr seq_add_outcome[OF assms, of sid p0 p1 delta] by (cases "delta = 0") (simp_all add: ctx_seq_add_def)
  then show ?thesis unfolding Inr sum.case by (intro conjI entries_ctx_seq_add[OF assms Inr])
qed

lemma ctx_seq_div_outcome:
  assumes "\<not> kv_recurrent c"
  shows "case ctx_seq_div c sid p0 p1 d of
       Inl e \<Rightarrow> e = Undef \<and> d \<noteq> 1 \<and> (\<exists>x \<in> set (kv_cells c). cell_hit sid p0 p1 x \<and> div_fails d x)
     | Inr c' \<Rightarrow> (d = 1 \<or> (\<forall>x \<in> set (kv_cells c). cell_hit sid p0 p1 x \<longrightarrow> \<not> div_fails d x))
         \<and> entries c' = {(s, i, if shifts c sid p0 p1 i then sgn p * sgn d * (\<bar>p\<bar> div \<bar>d\<bar>) else p) | s i p. (s, i, p) \<in> entries c}"
proof (cases "ctx_seq_div c sid p0 p1 d")
  case (Inl e)
  then show ?thesis using seq_div_outcome[OF assms, of sid p0 p1 d] by (cases "d = 1") (simp_all add: ctx_seq_div_def)
next
  case (Inr c')
  have "d = 1 \<or> (\<forall>x \<in> set (kv_cells c). cell_hit sid p0 p1 x \<longrightarrow> \<not> div_fails d x)"
    using Inr seq_div_outcome[OF assms, of sid p0 p1 d] by (cases "d = 1") (simp_all add: ctx_seq_div_def)
  then show ?thesis unfolding Inr sum.case by (intro conjI entries_ctx_seq_div[OF assms Inr])
qed

text \<open>C12. The other operations on sequences, of a cache that is not recurrent. Copying gives the destination every entry of the source in the range, in the
  same cells, and changes nothing else. Keeping a sequence leaves exactly its own entries. Shifting adds the offset to the position of every cell that
  holds the sequence in the range, for all the sequences that share the cell, and drops the cells whose position becomes negative; it is
  undefined exactly when the sum for the position or for \<open>delta\<close> of such a cell leaves 32 bits. Dividing divides, truncating, the
  position of every such cell and keeps it in use; it is undefined exactly when there is such a cell and the divisor is zero, or the quotient or the change of \<open>delta\<close>
  leaves 32 bits. An offset of 0 and a divisor of 1 return before anything is done.\<close>

theorem sequence_operations_exact:
  assumes "\<not> kv_recurrent c"
  shows "entries (ctx_seq_cp c src dst p0 p1) = entries c \<union>
      {(dst, i, p) | i p. (src, i, p) \<in> entries c \<and> (if p0 < 0 then 0 else p0) \<le> p \<and> p < (if p1 < 0 then INT32_MAX else p1)}
    \<and> entries (llama_kv_cache_seq_keep c sid) = {(s, i, p) \<in> entries c. s = sid}
    \<and> (case ctx_seq_add c sid p0 p1 delta of
         Inl e \<Rightarrow> e = Undef \<and> delta \<noteq> 0 \<and> (\<exists>x \<in> set (kv_cells c). cell_hit sid p0 p1 x \<and> add_overflows delta x)
       | Inr c' \<Rightarrow> (delta = 0 \<or> (\<forall>x \<in> set (kv_cells c). cell_hit sid p0 p1 x \<longrightarrow> \<not> add_overflows delta x))
           \<and> entries c' = {(s, i, p) \<in> entries c. \<not> shifts c sid p0 p1 i}
             \<union> {(s, i, p + delta) | s i p. (s, i, p) \<in> entries c \<and> shifts c sid p0 p1 i \<and> (delta = 0 \<or> 0 \<le> p + delta)})
    \<and> (case ctx_seq_div c sid p0 p1 d of
         Inl e \<Rightarrow> e = Undef \<and> d \<noteq> 1 \<and> (\<exists>x \<in> set (kv_cells c). cell_hit sid p0 p1 x \<and> div_fails d x)
       | Inr c' \<Rightarrow> (d = 1 \<or> (\<forall>x \<in> set (kv_cells c). cell_hit sid p0 p1 x \<longrightarrow> \<not> div_fails d x))
           \<and> entries c' = {(s, i, if shifts c sid p0 p1 i then sgn p * sgn d * (\<bar>p\<bar> div \<bar>d\<bar>) else p) | s i p. (s, i, p) \<in> entries c})"
  by (intro conjI entries_ctx_seq_cp[OF assms] entries_seq_keep ctx_seq_add_outcome[OF assms] ctx_seq_div_outcome[OF assms])

theorem sequence_operations_exact_witness:
  "(3, 0, 1) \<in> entries (ctx_seq_cp ex_full 7 3 0 5)
   \<and> (case ctx_seq_add ex_full 7 0 (-1) 3 of Inl e \<Rightarrow> False | Inr c' \<Rightarrow> (9, 0, 4) \<in> entries c')
   \<and> (case ctx_seq_add ex_full 7 0 (-1) (-2) of Inl e \<Rightarrow> False | Inr c' \<Rightarrow> entries c' = {})
   \<and> ctx_seq_add ex_full 7 0 (-1) INT32_MAX = Inl Undef
   \<and> (case ctx_seq_div ex_full 7 0 (-1) 2 of Inl e \<Rightarrow> False | Inr c' \<Rightarrow> (9, 0, 0) \<in> entries c')
   \<and> ctx_seq_div ex_full 7 0 (-1) 0 = Inl Undef"
proof -
  have nr: "\<not> kv_recurrent ex_full" by (simp add: ex_full_def ex_cache_def)
  have sh: "shifts ex_full 7 0 (-1) 0"
    by (simp add: shifts_def ex_full_def norm_p0_def norm_p1_def INT32_MAX_def)
  have e: "entries ex_full = {(7, 0, 1), (9, 0, 1)}"
    by (auto simp: entries_def ex_full_def new_cell_def less_Suc_eq)
  have ok: "\<not> isl (ctx_seq_add ex_full 7 0 (-1) 3)" "\<not> isl (ctx_seq_add ex_full 7 0 (-1) (-2))" "\<not> isl (ctx_seq_div ex_full 7 0 (-1) 2)"
    and bad: "isl (ctx_seq_add ex_full 7 0 (-1) INT32_MAX)" "isl (ctx_seq_div ex_full 7 0 (-1) 0)"
    by code_simp+
  note ops = sequence_operations_exact[OF nr, of 7 3 0 "-1" 7, unfolded e]
  note add = ops[of _ 2, THEN conjunct2, THEN conjunct2, THEN conjunct1]
    and dv = ops[of 0, THEN conjunct2, THEN conjunct2, THEN conjunct2]
  have "(3, 0, 1) \<in> entries (ctx_seq_cp ex_full 7 3 0 5)" using sequence_operations_exact[OF nr, of 7 3 0 5, unfolded e] by simp
  moreover have "case ctx_seq_add ex_full 7 0 (-1) 3 of Inl e \<Rightarrow> False | Inr c' \<Rightarrow> (9, 0, 4) \<in> entries c'"
    using add[of 3] ok(1) sh by (cases "ctx_seq_add ex_full 7 0 (-1) 3") (auto simp del: in_entries)
  moreover have "case ctx_seq_add ex_full 7 0 (-1) (-2) of Inl e \<Rightarrow> False | Inr c' \<Rightarrow> entries c' = {}"
    using add[of "-2"] ok(2) sh by (cases "ctx_seq_add ex_full 7 0 (-1) (-2)") (auto simp del: in_entries)
  moreover have "ctx_seq_add ex_full 7 0 (-1) INT32_MAX = Inl Undef"
    using add[of INT32_MAX] bad(1) by (cases "ctx_seq_add ex_full 7 0 (-1) INT32_MAX") simp_all
  moreover have "(9, 0, 0) \<in> {(s, i, if shifts ex_full 7 0 (-1) i then sgn p * sgn 2 * (\<bar>p\<bar> div \<bar>2\<bar>) else p) | s i p.
      (s, i, p) \<in> {(7 :: int, 0, 1 :: int), (9, 0, 1)}}"
    using sh by (intro CollectI exI[of _ "9 :: int"] exI[of _ 0] exI[of _ "1 :: int"]) simp
  then have "case ctx_seq_div ex_full 7 0 (-1) 2 of Inl e \<Rightarrow> False | Inr c' \<Rightarrow> (9, 0, 0) \<in> entries c'"
    using dv[of 2] ok(3) by (cases "ctx_seq_div ex_full 7 0 (-1) 2") (simp_all del: in_entries)
  moreover have "ctx_seq_div ex_full 7 0 (-1) 0 = Inl Undef"
    using dv[of 0] bad(2) by (cases "ctx_seq_div ex_full 7 0 (-1) 0") simp_all
  ultimately show ?thesis by blast
qed

text \<open>On a recurrent cache the counter \<open>used\<close> can go wrong: a shift leaves a negative position in a cell that stays in use, and
  \<open>llama_kv_cache_seq_keep\<close>, which counts a cell down only when its position is not negative, then empties it without counting.\<close>

lemma recurrent_used_drifts:
  "\<exists>c1 info c2. llama_kv_cache_find_slot (llama_kv_cache_init ex_cache True False False 2) (ex_ub\<lparr>ub_equal_seqs := True, ub_seq_id := [[0]]\<rparr>) = Inr (c1, info)
     \<and> found info \<and> ctx_seq_add c1 0 (-1) (-1) (-9) = Inr c2
     \<and> kv_used (llama_kv_cache_seq_keep c2 1) = 1 \<and> n_occupied (kv_cells (llama_kv_cache_seq_keep c2 1)) = 0"
proof -
  let ?c0 = "llama_kv_cache_init ex_cache True False False 2" and ?ub = "ex_ub\<lparr>ub_equal_seqs := True, ub_seq_id := [[0]]\<rparr>"
  let ?run = "bind_res (llama_kv_cache_find_slot ?c0 ?ub) (\<lambda>(c1, info). bind_res (ctx_seq_add c1 0 (-1) (-1) (-9)) (\<lambda>c2.
     let c3 = llama_kv_cache_seq_keep c2 1 in Inr (found info, kv_used c3, n_occupied (kv_cells c3))))"
  have "?run = Inr (True, 1, 0)" by code_simp
  then show ?thesis by (fastforce simp: Let_def)
qed

text \<open>C22. For a recurrent model, a search that reports success leaves each sequence of the batch in its own
  cell of one contiguous range from the head: the cell has the position of the sequence's last token
  and exactly its ids, each id's tail points to it, and \<open>used\<close> counts the non-empty cells.\<close>

theorem recurrent_slot_owned:
  assumes "rec_ubatch_ok ub" "length (kv_cells c) = kv_size c" "kv_size c < 2 ^ 32"
    "tails_ok (kv_cells c)" "kv_recurrent c"
    "llama_kv_cache_find_slot c ub = Inr (c', info)" "found info"
  shows "kv_head c' + ub_n_seqs ub \<le> kv_size c
    \<and> (\<forall>s < ub_n_seqs ub. c_pos (kv_cells c' ! (s + kv_head c')) = last_pos ub s
         \<and> c_seq_id (kv_cells c' ! (s + kv_head c')) = set (seq_ids ub s)
         \<and> (\<forall>sid \<in> set (seq_ids ub s). c_tail (kv_cells c' ! nat sid) = int (s + kv_head c')))
    \<and> kv_used c' = of_nat (n_occupied (kv_cells c'))"
  using find_slot_recurrent_owns[OF assms(1-4) _ assms(7), of c'] assms(5,6)
  by (auto simp: llama_kv_cache_find_slot_def owns_def)

definition ex_rec_ub :: llama_ubatch where
  "ex_rec_ub = \<lparr>ub_equal_seqs = True, ub_n_tokens = 2, ub_n_seq_tokens = 1, ub_n_seqs = 2, ub_token = Some [7, 8],
            ub_embd = None, ub_pos = [4, 6], ub_n_seq_id = [1, 1], ub_seq_id = [[1], [0]], ub_output = [1, 1]\<rparr>"

theorem recurrent_slot_owned_witness:
  "\<exists>c' info. llama_kv_cache_find_slot (llama_kv_cache_init ex_cache True False False 3) ex_rec_ub = Inr (c', info)
     \<and> found info \<and> c_tail (kv_cells c' ! 1) = int (kv_head c')"
proof -
  let ?c = "llama_kv_cache_init ex_cache True False False 3"
  let ?r = "llama_kv_cache_find_slot ?c ex_rec_ub"
  have ok: "rec_ubatch_ok ex_rec_ub"
    by (auto simp: rec_ubatch_ok_def ex_rec_ub_def seq_ids_def less_Suc_eq numeral_2_eq_2)
  have sz: "length (kv_cells ?c) = kv_size ?c" "kv_size ?c < 2 ^ 32" "tails_ok (kv_cells ?c)" "kv_recurrent ?c"
    by (simp_all add: llama_kv_cache_init_def tails_ok_def new_cell_def)
  have "isl ?r = False \<and> found (snd (projr ?r))" by code_simp
  then obtain q where q: "?r = Inr q" "found (snd q)" by (cases ?r) simp_all
  obtain c' info where "q = (c', info)" by fastforce
  with q have r: "?r = Inr (c', info)" "found info" by simp_all
  have "0 < ub_n_seqs ex_rec_ub" "1 \<in> set (seq_ids ex_rec_ub 0)" by (simp_all add: ex_rec_ub_def seq_ids_def)
  then have "c_tail (kv_cells c' ! nat 1) = int (0 + kv_head c')"
    using recurrent_slot_owned[OF ok sz r] by blast
  then show ?thesis using r by (intro exI[of _ c'] exI[of _ info]) simp
qed

lemma prepare_ok_window:
  assumes "kv_prepare fa c rs ub = Inr (c', rs', 0)"
  shows "\<exists>c1. c' = (if \<not> kv_recurrent c1 then c1\<lparr>kv_n := min (kv_size c1)
      (max (llama_kv_cache_get_padding fa) (GGML_PAD (llama_kv_cache_cell_max c1) (llama_kv_cache_get_padding fa)))\<rparr> else c1)"
proof -
  define r where "r = llama_kv_cache_find_slot
    (if kv_head c > unat (kv_used c + 2 * of_nat (ub_n_tokens ub)) then c\<lparr>kv_head := 0\<rparr> else c) ub"
  note p = assms[unfolded kv_prepare_def Let_def r_def[symmetric]]
  obtain c1 slot where r: "r = Inr (c1, slot)" using p by (cases r) auto
  then show ?thesis using p by (cases "found slot") auto
qed

lemma prepare_window:
  assumes "kv_inv c" "\<not> kv_recurrent c" "kv_size c + 256 < 2 ^ 32" "ubatch_ok ub"
    "kv_prepare fa c rs ub = Inr (c', rs', 0)"
  shows "kv_n c' \<le> kv_size c' \<and> (\<forall>s i p. (s, i, p) \<in> entries c' \<longrightarrow> i < kv_n c')"
proof -
  have g: "kv_good c" using assms(1,2) by (simp add: kv_good_def)
  then have g': "kv_good c'" "kv_size c' = kv_size c"
    using kv_good_prepare[OF _ assms(4,5)] kv_size_prepare[OF _ assms(4,5)] by auto
  let ?pad = "llama_kv_cache_get_padding fa"
  obtain c1 where c1: "c' = (if \<not> kv_recurrent c1 then c1\<lparr>kv_n := min (kv_size c1) (max ?pad (GGML_PAD (llama_kv_cache_cell_max c1) ?pad))\<rparr> else c1)"
    using prepare_ok_window[OF assms(5)] by blast
  have "\<not> kv_recurrent c1" using c1 g'(1) by (cases "kv_recurrent c1") (simp_all add: kv_good_def)
  moreover have "llama_kv_cache_cell_max (c1\<lparr>kv_n := k\<rparr>) = llama_kv_cache_cell_max c1" for k
    by (simp add: llama_kv_cache_cell_max_def)
  ultimately have n: "kv_n c' = min (kv_size c') (max ?pad (GGML_PAD (llama_kv_cache_cell_max c') ?pad))"
    using c1 by simp
  have "llama_kv_cache_cell_max c' \<le> GGML_PAD (llama_kv_cache_cell_max c') ?pad"
    using pad_round_up[of "llama_kv_cache_cell_max c'" 8] pad_round_up[of "llama_kv_cache_cell_max c'" 5]
      cell_max_le[of c'] g'(2) assms(3) by (simp add: llama_kv_cache_get_padding_def)
  moreover have "i < llama_kv_cache_cell_max c' \<and> i < kv_size c'" if "(s, i, p) \<in> entries c'" for s i p
  proof -
    have i: "i < kv_size c'" "cell_ok (kv_cells c' ! i)" "\<not> is_empty (kv_cells c' ! i)"
      using that g' by (auto simp: kv_good_def kv_inv_def is_empty_def)
    then show ?thesis using cell_max_bound[of i c'] by (simp add: cell_ok_def)
  qed
  ultimately show ?thesis using n by fastforce
qed

text \<open>A micro-batch that was prepared is in the cache: every token in its cell, with all of its sequences.\<close>

lemma prepare_places:
  assumes "kv_good c" "ubatch_ok ub" "kv_prepare fa c rs ub = Inr (c', rs', 0)" "k < ub_n_tokens ub" "s \<in> token_seqs ub k"
  shows "(s, kv_head c' + k, ub_pos ub ! k) \<in> entries c'"
proof -
  define c0 where "c0 = (if kv_head c > unat (kv_used c + 2 * of_nat (ub_n_tokens ub)) then c\<lparr>kv_head := 0\<rparr> else c)"
  have g: "kv_good c0" using assms(1) kv_good_fields(1)[OF assms(1), of 0] by (simp add: c0_def)
  obtain c1 slot where 1: "llama_kv_cache_find_slot c0 ub = Inr (c1, slot)" "found slot" "c' = c1 \<or> (\<exists>n. c' = c1\<lparr>kv_n := n\<rparr>)"
    using assms(3) by (auto simp: kv_prepare_def Let_def c0_def split: if_splits)
  have "(s, kv_head c1 + k, ub_pos ub ! k) \<in> entries c1"
    using find_slot_entries[OF _ _ assms(2) 1(1,2)] g assms(4,5) by (auto simp: kv_good_def token_seqs_def Let_def)
  then show ?thesis using 1(3) by auto
qed

text \<open>After a micro-batch was placed, the window of the attention \<open>n\<close> lies in the cache and covers
  every cell in use: the padding of the last used cell never cuts one off.\<close>

theorem prepare_window_covers:
  assumes "kv_inv c" "\<not> kv_recurrent c" "kv_size c + 256 < 2 ^ 32" "ubatch_ok ub"
    "kv_prepare fa c rs ub = Inr (c', rs', 0)"
  shows "kv_n c' \<le> kv_size c' \<and> (\<forall>s i p. (s, i, p) \<in> entries c' \<longrightarrow> i < kv_n c')"
  by (rule prepare_window[OF assms])

theorem prepare_window_covers_witness:
  "\<exists>c' rs'. kv_prepare False (llama_kv_cache_init ex_cache False False False 40)
      (slot_restorer ex_cache) ex_ub = Inr (c', rs', 0) \<and> kv_n c' \<le> kv_size c' \<and> 0 < kv_n c'"
proof -
  let ?c = "llama_kv_cache_init ex_cache False False False 40"
  let ?r = "kv_prepare False ?c (slot_restorer ex_cache) ex_ub"
  have nr: "\<not> kv_recurrent ?c" "kv_size ?c + 256 < 2 ^ 32" by (simp_all add: llama_kv_cache_init_def)
  have r: "llama_kv_cache_find_slot ?c ex_ub = Inr (?c\<lparr>kv_head := 0, kv_cells := fill_slot ex_ub 0 (kv_cells ?c),
      kv_used := 1\<rparr>, slot_range 0 1)"
    by (simp add: llama_kv_cache_find_slot_def find_slot_transformer_def llama_kv_cache_init_def ex_ub_def Let_def
        find_slot_loop.simps first_used_def new_cell_def)
  have h0: "kv_head ?c = 0" by (simp add: llama_kv_cache_init_def)
  let ?c1 = "?c\<lparr>kv_head := 0, kv_cells := fill_slot ex_ub 0 (kv_cells ?c), kv_used := 1\<rparr>"
  have f: "found (slot_range 0 1)" by (simp add: slot_range_def)
  obtain c' rs' where p: "?r = Inr (c', rs', 0)"
    using r h0 f nr by (auto simp: kv_prepare_def Let_def slot_range_def)
  have "(8, 0, 5) \<in> entries ?c1"
  proof -
    have "ub_n_tokens ex_ub = 1" by (simp add: ex_ub_def)
    then show ?thesis using nr(2) by (simp add: fill_slot_nth fill_token_def token_seqs_def ex_ub_def llama_kv_cache_init_def)
  qed
  moreover have "entries c' = entries ?c1" using p r h0 f nr
    by (auto simp: kv_prepare_def Let_def slot_range_def entries_def)
  ultimately have "(8, 0, 5) \<in> entries c'" by simp
  then have "0 < kv_n c'" "kv_n c' \<le> kv_size c'"
    using prepare_window_covers[OF kv_inv_init nr ex_ub_ok p] by blast+
  then show ?thesis using p by blast
qed

lemma kv_inv_free:
  assumes "kv_inv c" "i < kv_size c"
  shows "is_empty (kv_cells c ! i) \<longleftrightarrow> c_pos (kv_cells c ! i) < 0"
proof -
  have "cell_ok (kv_cells c ! i)" using kv_invD(1,3)[OF assms(1)] assms(2) by simp
  then show ?thesis by (auto simp: cell_ok_def)
qed

lemma entries_cong: "kv_cells a = kv_cells b \<Longrightarrow> entries a = entries b"
  by (simp add: entries_def)

text \<open>The debugging view agrees with the slot search: a micro-batch finds a slot iff it has at most
  \<open>max_contiguous\<close> tokens, and the used cells the view counts are the ones the cache counts.\<close>

theorem view_predicts_slot:
  assumes "kv_inv c" "\<not> kv_recurrent c" "llama_kv_cache_find_slot c ub = Inr (c', info)" "1 \<le> v_n_seq_max view"
  shows "(found info \<longleftrightarrow> int (ub_n_tokens ub) \<le> v_max_contiguous (llama_kv_cache_view_update view c))
    \<and> of_int (v_used_cells (llama_kv_cache_view_update view c)) = kv_used c"
proof -
  let ?mx = "v_max_contiguous (llama_kv_cache_view_update view c)" and ?n = "ub_n_tokens ub"
  have run: "(\<exists>s. empty_run (kv_cells c) (kv_size c) s k) \<longleftrightarrow> int k \<le> ?mx" for k
  proof
    assume "int k \<le> ?mx"
    then obtain s where "empty_run (kv_cells c) (kv_size c) s (nat ?mx)" "k \<le> nat ?mx"
      using view_max_contiguous(2)[OF assms(1), of view] by auto
    then show "\<exists>s. empty_run (kv_cells c) (kv_size c) s k" by (auto simp: empty_run_def intro!: exI[of _ s])
  qed (use view_max_contiguous(1)[OF assms(1)] in blast)
  have "empty_run (kv_cells c) (kv_size c) s ?n \<longleftrightarrow> \<not> blocked (kv_cells c) (kv_size c) ?n s" for s
  proof -
    have "is_empty (kv_cells c ! (s + i)) \<longleftrightarrow> c_pos (kv_cells c ! (s + i)) < 0" if "s + ?n \<le> kv_size c" "i < ?n" for i
      using that by (intro kv_inv_free[OF assms(1)]) simp
    then show ?thesis by (auto simp: empty_run_def blocked_def not_le)
  qed
  moreover have "found info \<longleftrightarrow> (\<exists>s. \<not> blocked (kv_cells c) (kv_size c) ?n s)" using assms(1)
  proof (cases rule: find_slot_cases[where ub = ub])
    case (placed h)
    then show ?thesis using assms(2,3)
      by (auto simp: llama_kv_cache_find_slot_def slot_range_def blocked_def not_le intro!: exI[of _ h])
  qed (use assms(2,3) in \<open>auto simp: llama_kv_cache_find_slot_def slot_failed_def blocked_def\<close>)
  ultimately show ?thesis
    using run[of ?n] view_used_cells[OF assms(1,4)] kv_invD(4)[OF assms(1)] by simp
qed

theorem view_predicts_slot_witness:
  "\<exists>c' info. llama_kv_cache_find_slot (llama_kv_cache_init ex_cache False False False 2) ex_ub = Inr (c', info)
     \<and> found info \<and> 1 \<le> v_max_contiguous (llama_kv_cache_view_update (llama_kv_cache_view_init ex_cache 1)
                           (llama_kv_cache_init ex_cache False False False 2))"
proof -
  let ?c = "llama_kv_cache_init ex_cache False False False 2"
  have nr: "\<not> kv_recurrent ?c" by (simp add: llama_kv_cache_init_def)
  have r: "llama_kv_cache_find_slot ?c ex_ub = Inr (?c\<lparr>kv_head := 0, kv_cells := fill_slot ex_ub 0 (kv_cells ?c),
      kv_used := 1\<rparr>, slot_range 0 1)"
    by (simp add: llama_kv_cache_find_slot_def find_slot_transformer_def llama_kv_cache_init_def ex_ub_def Let_def
        find_slot_loop.simps first_used_def new_cell_def)
  have "1 \<le> v_n_seq_max (llama_kv_cache_view_init ex_cache 1)" by (simp add: llama_kv_cache_view_init_def)
  then show ?thesis using r view_predicts_slot[OF kv_inv_init nr r]
    by (auto simp: slot_range_def ex_ub_def)
qed

text \<open>The restorer passes cell indices to \<open>llama_kv_cache_seq_rm\<close>, which takes positions. When the
  positions of the micro-batch are its cell indices and no other token has one of them, the
  rollback removes exactly the micro-batch.\<close>

theorem restore_exact:
  assumes "kv_inv c" "\<not> kv_recurrent c" "ubatch_ok ub" "0 < ub_n_tokens ub"
    "llama_kv_cache_find_slot c ub = Inr (c', info)" "found info"
    "\<forall>k < ub_n_tokens ub. ub_pos ub ! k = int (kv_head c' + k)"
    "\<forall>s i p. (s, i, p) \<in> entries c \<longrightarrow> \<not> (int (kv_head c') \<le> p \<and> p < int (kv_head c' + ub_n_tokens ub))"
  shows "entries (restorer_restore (restorer_save (slot_restorer c) info) c') = entries c"
proof -
  have t: "find_slot_transformer c ub = Inr (c', info)"
    using assms(2,5) by (simp add: llama_kv_cache_find_slot_def)
  let ?N = "ub_n_tokens ub"
  show ?thesis using assms(1)
  proof (cases rule: find_slot_cases[where ub = ub])
    case (placed h)
    let ?c1 = "c'\<lparr>kv_head := kv_head c, kv_n := kv_n c\<rparr>"
    have h: "kv_head c' = h" "boundaries info = (h, h + ?N)" "\<not> kv_recurrent c'" using t placed assms(2)
      by (auto simp: slot_range_def)
    then have r: "restorer_restore (restorer_save (slot_restorer c) info) c'
        = seq_rm_pass ?c1 (-1) (norm_p0 (int h)) (norm_p1 (int (h + ?N)))"
      using assms(4,6) by (simp add: restorer_restore_def restorer_save_def slot_restorer_def Let_def llama_kv_cache_seq_rm_def)
    have e: "entries ?c1 = entries c \<union> {(s, h + k, ub_pos ub ! k) | s k. k < ?N \<and> s \<in> token_seqs ub k}"
    proof -
      have "c' = c\<lparr>kv_head := h, kv_cells := fill_slot ub h (kv_cells c), kv_used := kv_used c + of_nat ?N\<rparr>"
        using t placed(3) by simp
      then have "entries ?c1 = entries (c\<lparr>kv_head := h, kv_cells := fill_slot ub h (kv_cells c), kv_used := 0\<rparr>)"
        by (intro entries_cong) simp
      then show ?thesis using entries_fill_slot[OF assms(1,3) placed(1,2)] by simp
    qed
    show ?thesis unfolding r entries_seq_rm_pass e using assms(7,8) h(1)
      by (fastforce simp: norm_p0_def norm_p1_def simp del: in_entries)
  qed (use t assms(6) in \<open>auto simp: slot_failed_def\<close>)
qed

theorem restore_exact_witness:
  "\<exists>c' info. llama_kv_cache_find_slot (llama_kv_cache_init ex_cache False False False 2)
       (ex_ub\<lparr>ub_pos := [0]\<rparr>) = Inr (c', info)
     \<and> entries (restorer_restore (restorer_save (slot_restorer (llama_kv_cache_init ex_cache False False False 2)) info) c')
       = entries (llama_kv_cache_init ex_cache False False False 2)"
proof -
  let ?c = "llama_kv_cache_init ex_cache False False False 2" and ?ub = "ex_ub\<lparr>ub_pos := [0]\<rparr>"
  let ?c' = "?c\<lparr>kv_head := 0, kv_cells := fill_slot ?ub 0 (kv_cells ?c), kv_used := 1\<rparr>"
  have nr: "\<not> kv_recurrent ?c" by (simp add: llama_kv_cache_init_def)
  have ok: "ubatch_ok ?ub" "0 < ub_n_tokens ?ub" by (simp_all add: ubatch_ok_def ex_ub_def)
  have r: "llama_kv_cache_find_slot ?c ?ub = Inr (?c', slot_range 0 1)"
    by (simp add: llama_kv_cache_find_slot_def find_slot_transformer_def llama_kv_cache_init_def ex_ub_def Let_def
        find_slot_loop.simps first_used_def new_cell_def)
  have f: "found (slot_range 0 1)" by (simp add: slot_range_def)
  have p: "\<forall>k < ub_n_tokens ?ub. ub_pos ?ub ! k = int (kv_head ?c' + k)" by (simp add: ex_ub_def)
  have e: "\<forall>s i p. (s, i, p) \<in> entries ?c \<longrightarrow> \<not> (int (kv_head ?c') \<le> p \<and> p < int (kv_head ?c' + ub_n_tokens ?ub))"
    by (auto simp: llama_kv_cache_init_def new_cell_def)
  show ?thesis using r restore_exact[OF kv_inv_init nr ok r f p e] by blast
qed

text \<open>C23. In general the rollback is wrong: in a reachable-looking cache whose cell 0 holds position 1 of
  sequence 7, a micro-batch with position 5 of sequence 8 is placed in cell 1, and restoring deletes
  the old token and keeps the new one.\<close>

theorem restore_removes_wrong_token:
  "\<exists>c ub c' info. kv_inv c \<and> \<not> kv_recurrent c \<and> ubatch_ok ub
     \<and> llama_kv_cache_find_slot c ub = Inr (c', info) \<and> found info
     \<and> entries c = {(7, 0, 1)}
     \<and> entries (restorer_restore (restorer_save (slot_restorer c) info) c') = {(8, 1, 5)}"
proof -
  let ?c = "ex_cache\<lparr>kv_size := 2, kv_head := 1, kv_used := 1,
     kv_cells := [new_cell\<lparr>c_pos := 1, c_seq_id := {7}\<rparr>, new_cell]\<rparr>"
  let ?c' = "?c\<lparr>kv_head := 1, kv_cells := fill_slot ex_ub 1 (kv_cells ?c), kv_used := 2\<rparr>"
  have inv: "kv_inv ?c" by (simp add: kv_inv_def cell_ok_def is_empty_def n_occupied_def new_cell_def)
  have nr: "\<not> kv_recurrent ?c" by (simp add: ex_cache_def)
  have r: "llama_kv_cache_find_slot ?c ex_ub = Inr (?c', slot_range 1 2)"
    by (simp add: llama_kv_cache_find_slot_def find_slot_transformer_def ex_cache_def ex_ub_def Let_def
        find_slot_loop.simps first_used_def new_cell_def numeral_2_eq_2)
  have e: "entries ?c = {(7, 0, 1)}" by (auto simp: entries_def new_cell_def less_Suc_eq)
  let ?c1 = "?c'\<lparr>kv_head := 1, kv_n := 0\<rparr>"
  have "restorer_restore (restorer_save (slot_restorer ?c) (slot_range 1 2)) ?c' = seq_rm_pass ?c1 (-1) 1 2"
    by (simp add: restorer_restore_def restorer_save_def slot_restorer_def slot_range_def Let_def
        llama_kv_cache_seq_rm_def norm_p0_def norm_p1_def ex_cache_def)
  moreover have "entries ?c1 = {(7, 0, 1), (8, 1, 5)}"
    by (auto simp: entries_def fill_slot_nth fill_token_def token_seqs_def ex_ub_def new_cell_def less_Suc_eq)
  ultimately have "entries (restorer_restore (restorer_save (slot_restorer ?c) (slot_range 1 2)) ?c') = {(8, 1, 5)}"
    by (auto simp: entries_seq_rm_pass simp del: in_entries)
  then show ?thesis using inv nr ex_ub_ok r e
    by (intro exI[of _ ?c] exI[of _ ex_ub] exI[of _ ?c'] exI[of _ "slot_range 1 2"]) (simp add: slot_range_def)
qed

text \<open>The view counts a pending shift twice: \<open>llama_kv_cache_seq_add\<close> adds the offset to the position
  and to \<open>delta\<close>, and the view shows their sum.\<close>

theorem view_double_counts_shift:
  assumes "\<not> kv_recurrent c" "length (kv_cells c) = kv_size c" "i < kv_size c" "sid \<in> c_seq_id (kv_cells c ! i)"
    "c_delta (kv_cells c ! i) = 0" "0 \<le> c_pos (kv_cells c ! i)" "c_pos (kv_cells c ! i) < INT32_MAX"
    "d \<noteq> 0" "0 \<le> c_pos (kv_cells c ! i) + d" "ctx_seq_add c sid (-1) (-1) d = Inr c'"
  shows "c_pos (kv_cells c' ! i) = c_pos (kv_cells c ! i) + d
    \<and> the (v_cells (llama_kv_cache_view_update view c')) ! i = c_pos (kv_cells c ! i) + 2 * d"
proof -
  have add: "llama_kv_cache_seq_add c sid (-1) (-1) d = Inr c'" using assms(8,10) by (simp add: ctx_seq_add_def)
  have hit: "cell_hit sid (-1) (-1) (kv_cells c ! i)" using assms(4,6,7) by (simp add: cell_hit_def norm_p0_def norm_p1_def)
  have "\<not> add_overflows d (kv_cells c ! i)" using seq_add_outcome[OF assms(1), of sid "-1" "-1" d] add assms(2,3) hit by simp
  then have cell: "kv_cells c' ! i = (kv_cells c ! i)\<lparr>c_pos := c_pos (kv_cells c ! i) + d, c_delta := d\<rparr>"
    using assms hit add_cell_hit[of sid "-1" "-1" "kv_cells c ! i" d] seq_add_cells[OF assms(1) add] by simp
  have "length (kv_cells c') = kv_size c" using assms(2) seq_add_cells[OF assms(1) add] by simp
  then show ?thesis using cell assms(3) by (simp add: llama_kv_cache_view_update_def Let_def nth_append)
qed

theorem view_double_counts_shift_witness:
  "\<exists>c'. ctx_seq_add ex_full 7 (-1) (-1) 3 = Inr c'
     \<and> the (v_cells (llama_kv_cache_view_update (llama_kv_cache_view_init ex_full 1) c')) ! 0 = 7"
proof -
  have "\<not> isl (ctx_seq_add ex_full 7 (-1) (-1) 3)" by code_simp
  then obtain c' where "ctx_seq_add ex_full 7 (-1) (-1) 3 = Inr c'" by (cases "ctx_seq_add ex_full 7 (-1) (-1) 3") auto
  then show ?thesis using view_double_counts_shift[of ex_full 0 7 3 c' "llama_kv_cache_view_init ex_full 1"]
    by (simp add: ex_full_def ex_cache_def new_cell_def INT32_MAX_def)
qed

end
