(* ===== verification/Kv_Defrag.thy ===== *)
theory Kv_Defrag
  imports Kv_Context "HOL-Library.Multiset"
begin

text \<open>
  Defragmentation of the KV cache (\<open>llama_kv_cache_defrag_impl\<close>, \<open>build_defrag\<close> and
  \<open>llama_kv_cache_update_impl\<close> in \<open>llama.cpp\<close>). The search for holes and their fillers works on the cells and on the
  vector \<open>ids\<close> of destinations; the graph it builds is a list of block copies. The data of a cell (its row of every
  key tensor and its column of every value tensor) is an element of an arbitrary type here: the copies move all
  of it together.
\<close>

section \<open>The search for moves\<close>

record defrag_state =
  d_ids :: "nat list"
  d_cells :: "llama_kv_cell list"
  d_head :: nat
  d_n_moves :: nat

text \<open>The size of the hole at \<open>i0\<close>.\<close>

definition hole_len :: "llama_kv_cell list \<Rightarrow> nat \<Rightarrow> nat \<Rightarrow> nat" where
  "hole_len cells n_used i0 = 1 + length (takeWhile (\<lambda>j. is_empty (cells ! j)) [i0 + 1..<n_used])"

definition movable :: "nat \<Rightarrow> defrag_state \<Rightarrow> nat \<Rightarrow> bool" where
  "movable n_kv s j \<longleftrightarrow> \<not> (is_empty (d_cells s ! j) \<or> d_ids s ! j \<noteq> n_kv)"

text \<open>From the end, the first \<open>nh\<close> cells that can move: how many were found and where the search stopped.\<close>

fun find_sources :: "nat \<Rightarrow> defrag_state \<Rightarrow> nat \<Rightarrow> nat \<Rightarrow> nat \<Rightarrow> nat \<Rightarrow> nat \<times> nat" where
  "find_sources n_kv s nh i0 0 nf = (nf, 0)"
| "find_sources n_kv s nh i0 (Suc j) nf =
     (if Suc j > i0 then
        (if \<not> movable n_kv s (Suc j) then find_sources n_kv s nh i0 j nf
         else if nf + 1 = nh then (nf + 1, Suc j)
         else find_sources n_kv s nh i0 j (nf + 1))
      else (nf, Suc j))"

text \<open>The loop that moves the cells found; \<open>i1s\<close> are the indices from the first source on. The flag of the
  result is \<open>stop\<close>.\<close>

fun move_cells ::
  "nat \<Rightarrow> nat \<Rightarrow> nat \<Rightarrow> nat \<Rightarrow> nat \<Rightarrow> nat list \<Rightarrow> bool \<Rightarrow> nat \<Rightarrow> defrag_state \<Rightarrow> defrag_state \<times> bool" where
  "move_cells n_kv n_used max_moves i0 nh [] cont nf s = (s, False)"
| "move_cells n_kv n_used max_moves i0 nh (i1 # i1s) cont nf s =
     (if \<not> movable n_kv s i1 then
        (if d_n_moves s = max_moves then (s, True)
         else move_cells n_kv n_used max_moves i0 nh i1s False nf s)
      else
        (let s' = s\<lparr>d_ids := (d_ids s)[i1 := i0 + nf],
                    d_cells := (d_cells s)[i0 + nf := d_cells s ! i1, i1 := new_cell],
                    d_head := n_used,
                    d_n_moves := (if cont then d_n_moves s else d_n_moves s + 1)\<rparr> in
         if nf + 1 = nh then (s', False)
         else move_cells n_kv n_used max_moves i0 nh i1s True (nf + 1) s'))"

function defrag_loop :: "nat \<Rightarrow> nat \<Rightarrow> nat \<Rightarrow> nat \<Rightarrow> defrag_state \<Rightarrow> defrag_state res" where
  "defrag_loop n_kv n_used max_moves i0 s =
     (if i0 < n_used then
        (if \<not> is_empty (d_cells s ! i0) then
           defrag_loop n_kv n_used max_moves (i0 + 1) (s\<lparr>d_ids := (d_ids s)[i0 := i0]\<rparr>)
         else
           (let nh = hole_len (d_cells s) n_used i0 in
            case find_sources n_kv s nh i0 (n_kv - 1) 0 of (nf, src) \<Rightarrow>
              bind_res (ggml_assert (nf = nh)) (\<lambda>_.
                case move_cells n_kv n_used max_moves i0 nh [src..<n_kv] False 0 s of (s', stop) \<Rightarrow>
                  if stop \<or> d_n_moves s' = max_moves then Inr s'
                  else defrag_loop n_kv n_used max_moves (i0 + nh) s')))
      else Inr s)"
  by pat_completeness auto
termination
  by (relation "measure (\<lambda>(n_kv, n_used, max_moves, i0, s). n_used - i0)") (auto simp: hole_len_def)

declare defrag_loop.simps [simp del]

text \<open>The number of moves the graph has room for.\<close>

definition defrag_max_moves :: "nat \<Rightarrow> nat \<Rightarrow> nat" where
  "defrag_max_moves max_nodes n_layer = (max_nodes - 2 * n_layer) div (6 * n_layer)"

text \<open>\<open>build_defrag\<close>: a run of cells with consecutive destinations is one copy (source, destination, length).\<close>

function defrag_copies :: "nat list \<Rightarrow> nat \<Rightarrow> (nat \<times> nat \<times> nat) list" where
  "defrag_copies ids i =
     (if i < length ids then
        (let dst = ids ! i in
         if i = dst \<or> dst = length ids then defrag_copies ids (i + 1)
         else
           (let nm = 1 + length (takeWhile (\<lambda>k. ids ! (i + k) = dst + k) [1..<length ids - i]) in
            (i, dst, nm) # defrag_copies ids (i + nm)))
      else [])"
  by pat_completeness auto
termination
  by (relation "measure (\<lambda>(ids, i). length ids - i)") auto

declare defrag_copies.simps [simp del]

text \<open>\<open>ggml_cpy\<close> between two views of \<open>nm\<close> cells.\<close>

fun copy_block :: "nat \<times> nat \<times> nat \<Rightarrow> 'd list \<Rightarrow> 'd list" where
  "copy_block (src, dst, nm) data = take dst data @ take nm (drop src data) @ drop (dst + nm) data"

definition llama_kv_cache_defrag_impl :: "nat \<Rightarrow> nat \<Rightarrow> llama_kv_cache \<times> 'd list \<Rightarrow> (llama_kv_cache \<times> 'd list) res" where
  "llama_kv_cache_defrag_impl max_nodes n_layer kvd =
     (case kvd of (kv, data) \<Rightarrow>
        let n_kv = llama_kv_cache_cell_max kv;
            n_used = unat (kv_used kv);
            s0 = \<lparr>d_ids = replicate n_kv n_kv, d_cells = kv_cells kv, d_head = kv_head kv, d_n_moves = 0\<rparr> in
        bind_res (defrag_loop n_kv n_used (defrag_max_moves max_nodes n_layer) 0 s0) (\<lambda>s.
          if d_n_moves s = 0 then Inr (kv\<lparr>kv_cells := d_cells s, kv_head := d_head s\<rparr>, data)
          else Inr (kv\<lparr>kv_cells := d_cells s, kv_head := d_head s\<rparr>, fold copy_block (defrag_copies (d_ids s) 0) data)))"

text \<open>\<open>llama_kv_cache_update_impl\<close>: a pending shift of the keys is applied (by \<open>k_shift\<close>, a graph of the model,
  where the model has rotary positions), then a pending defragmentation.\<close>

definition llama_kv_cache_update_impl ::
  "bool \<Rightarrow> (int list \<Rightarrow> 'd list \<Rightarrow> 'd list) \<Rightarrow> nat \<Rightarrow> nat \<Rightarrow> llama_kv_cache \<times> 'd list \<Rightarrow> (llama_kv_cache \<times> 'd list) res" where
  "llama_kv_cache_update_impl has_rope k_shift max_nodes n_layer kvd =
     (case kvd of (kv, data) \<Rightarrow>
        bind_res (if kv_has_shift kv then
                    (if \<not> kv_can_shift kv then Inl GgmlAbort
                     else Inr (shift_applied kv, if has_rope then k_shift (map c_delta (kv_cells kv)) data else data))
                  else Inr (kv, data)) (\<lambda>(kv1, data1).
          if kv_do_defrag kv1 then
            bind_res (llama_kv_cache_defrag_impl max_nodes n_layer (kv1, data1)) (\<lambda>(kv2, data2).
              Inr (kv2\<lparr>kv_do_defrag := False\<rparr>, data2))
          else Inr (kv1, data1)))"

section \<open>Moved cells\<close>

definition moved :: "nat list \<Rightarrow> nat \<Rightarrow> nat \<Rightarrow> bool" where
  "moved ids i t \<longleftrightarrow> i < length ids \<and> ids ! i = t \<and> t \<noteq> i \<and> t \<noteq> length ids"

text \<open>How the cells relate to the original ones: a moved cell has left its place empty and is at its destination, which
  was empty; sources are at or after \<open>n_used\<close>, destinations before it.\<close>

definition defrag_rel :: "nat \<Rightarrow> llama_kv_cell list \<Rightarrow> nat list \<Rightarrow> llama_kv_cell list \<Rightarrow> bool" where
  "defrag_rel n_used cells0 ids cells \<longleftrightarrow>
     length cells = length cells0 \<and> length ids \<le> length cells0 \<and> n_used \<le> length ids
     \<and> (\<forall>i t. moved ids i t \<longrightarrow> t < n_used \<and> n_used \<le> i \<and> \<not> is_empty (cells0 ! i) \<and> is_empty (cells0 ! t))
     \<and> (\<forall>i i' t. moved ids i t \<and> moved ids i' t \<longrightarrow> i = i')
     \<and> (\<forall>i t. moved ids i t \<longrightarrow> cells ! t = cells0 ! i \<and> cells ! i = new_cell)
     \<and> (\<forall>j < length cells0. (\<forall>t. \<not> moved ids j t) \<and> (\<forall>i. \<not> moved ids i j) \<longrightarrow> cells ! j = cells0 ! j)"

lemma is_empty_new [simp]: "is_empty new_cell"
  by (simp add: is_empty_def new_cell_def)

lemma moved_update:
  assumes "i1 < length ids" "ids ! i1 = length ids" "t \<noteq> i1" "t < length ids"
  shows "moved (ids[i1 := t]) i u \<longleftrightarrow> moved ids i u \<or> (i = i1 \<and> u = t)"
  using assms by (auto simp: moved_def nth_list_update)

lemma moved_mark:
  assumes "i0 < length ids" "ids ! i0 = length ids"
  shows "moved (ids[i0 := i0]) i u \<longleftrightarrow> moved ids i u"
  using assms by (auto simp: moved_def nth_list_update)

lemma defrag_rel_move:
  assumes r: "defrag_rel n_used cells0 ids cells" and i1: "i1 < length ids" "ids ! i1 = length ids" "n_used \<le> i1"
    and ne: "\<not> is_empty (cells ! i1)" and t: "t < n_used" "is_empty (cells ! t)" "\<forall>i. \<not> moved ids i t"
  shows "defrag_rel n_used cells0 (ids[i1 := t]) (cells[t := cells ! i1, i1 := new_cell])"
proof -
  have len: "length cells = length cells0" "length ids \<le> length cells0" "n_used \<le> length ids"
    and sep: "\<And>i t. moved ids i t \<Longrightarrow> t < n_used \<and> n_used \<le> i \<and> \<not> is_empty (cells0 ! i) \<and> is_empty (cells0 ! t)"
    and inj: "\<And>i i' t. moved ids i t \<Longrightarrow> moved ids i' t \<Longrightarrow> i = i'"
    and mv: "\<And>i t. moved ids i t \<Longrightarrow> cells ! t = cells0 ! i \<and> cells ! i = new_cell"
    and same: "\<And>j. j < length cells0 \<Longrightarrow> \<forall>t. \<not> moved ids j t \<Longrightarrow> \<forall>i. \<not> moved ids i j \<Longrightarrow> cells ! j = cells0 ! j"
    using r unfolding defrag_rel_def by blast+
  have m: "moved (ids[i1 := t]) i u \<longleftrightarrow> moved ids i u \<or> (i = i1 \<and> u = t)" for i u
    using moved_update[OF i1(1,2)] t(1) i1(3) len(3) by auto
  have n1: "\<forall>u. \<not> moved ids i1 u" using i1(2) by (auto simp: moved_def)
  have n2: "\<forall>i. \<not> moved ids i i1" using sep i1(3) by (meson leD)
  have n3: "\<forall>u. \<not> moved ids t u" using sep t(1) by (meson leD)
  have c1: "cells ! i1 = cells0 ! i1" using same[OF _ n1 n2] i1(1) len by simp
  have c2: "cells ! t = cells0 ! t" using same[OF _ n3] t(1,3) len by simp
  have ti: "t \<noteq> i1" "t < length cells" "i1 < length cells" using t(1) i1 len by auto
  show ?thesis unfolding defrag_rel_def m
  proof (intro conjI allI impI)
    fix i u assume "moved ids i u \<or> i = i1 \<and> u = t"
    then show "u < n_used" "n_used \<le> i" "\<not> is_empty (cells0 ! i)" "is_empty (cells0 ! u)"
      using sep t(1,2) i1(3) ne c1 c2 by auto
  next
    fix i i' u assume "(moved ids i u \<or> i = i1 \<and> u = t) \<and> (moved ids i' u \<or> i' = i1 \<and> u = t)"
    then show "i = i'" using inj t(3) by blast
  next
    fix i u assume a: "moved ids i u \<or> i = i1 \<and> u = t"
    show "cells[t := cells ! i1, i1 := new_cell] ! u = cells0 ! i"
      using a mv n2 t(3) ti c1 by (auto simp: nth_list_update)
    show "cells[t := cells ! i1, i1 := new_cell] ! i = new_cell"
      using a mv n1 n3 ti by (auto simp: nth_list_update)
  next
    fix j assume j: "j < length cells0" "(\<forall>u. \<not> (moved ids j u \<or> j = i1 \<and> u = t)) \<and> (\<forall>i. \<not> (moved ids i j \<or> i = i1 \<and> j = t))"
    then have "j \<noteq> i1" "j \<noteq> t" by auto
    then show "cells[t := cells ! i1, i1 := new_cell] ! j = cells0 ! j" using j same by simp
  qed (use len in simp_all)
qed

section \<open>Counting occupied cells\<close>

definition occ :: "llama_kv_cell list \<Rightarrow> nat set" where
  "occ cells = {j. j < length cells \<and> \<not> is_empty (cells ! j)}"

lemma occ_finite [simp]: "finite (occ cells)"
  by (simp add: occ_def)

lemma card_occ: "card (occ cells) = n_occupied cells"
  by (simp add: occ_def n_occupied_def length_filter_conv_card)

lemma occ_move:
  assumes "t < length cells" "i1 < length cells" "t \<noteq> i1" "is_empty (cells ! t)" "\<not> is_empty (cells ! i1)"
  shows "occ (cells[t := cells ! i1, i1 := new_cell]) = insert t (occ cells - {i1})"
  using assms by (auto simp: occ_def nth_list_update)

lemma card_occ_move:
  assumes "t < length cells" "i1 < length cells" "t \<noteq> i1" "is_empty (cells ! t)" "\<not> is_empty (cells ! i1)"
  shows "card (occ (cells[t := cells ! i1, i1 := new_cell])) = card (occ cells)"
proof -
  have "t \<notin> occ cells" "i1 \<in> occ cells" using assms by (auto simp: occ_def)
  then show ?thesis unfolding occ_move[OF assms] by (simp add: card.insert_remove card_Diff_singleton_if)
    (metis Suc_pred card_gt_0_iff empty_iff occ_finite)
qed

text \<open>The search from the end finds the last \<open>nh\<close> occupied cells.\<close>

lemma find_sources_spec:
  assumes mv: "\<And>j. i0 < j \<Longrightarrow> j < n_kv \<Longrightarrow> movable n_kv s j \<longleftrightarrow> j \<in> A" and fin: "finite A"
  shows "j < n_kv \<Longrightarrow> nf < nh \<Longrightarrow> nh \<le> nf + card {k \<in> A. i0 < k \<and> k \<le> j}
    \<Longrightarrow> \<exists>src. find_sources n_kv s nh i0 j nf = (nh, src) \<and> i0 < src \<and> src \<le> j \<and> src \<in> A \<and> card {k \<in> A. src \<le> k \<and> k \<le> j} = nh - nf"
proof (induction j arbitrary: nf)
  case 0
  then have "{k \<in> A. i0 < k \<and> k \<le> 0} = {}" by auto
  then show ?case using 0 by (simp only: card.empty)
next
  case (Suc j)
  show ?case
  proof (cases "i0 < Suc j")
    case False
    then have "{k \<in> A. i0 < k \<and> k \<le> Suc j} = {}" by auto
    then show ?thesis using Suc.prems by (simp only: card.empty)
  next
    case i0: True
    show ?thesis
    proof (cases "Suc j \<in> A")
      case False
      then have eq: "{k \<in> A. a < k \<and> k \<le> Suc j} = {k \<in> A. a < k \<and> k \<le> j}" "{k \<in> A. a \<le> k \<and> k \<le> Suc j} = {k \<in> A. a \<le> k \<and> k \<le> j}" for a
        by (auto simp: le_Suc_eq)
      then show ?thesis using Suc.IH[of nf] Suc.prems i0 False mv by (auto simp: le_SucI)
    next
      case True
      have ins: "{k \<in> A. i0 < k \<and> k \<le> Suc j} = insert (Suc j) {k \<in> A. i0 < k \<and> k \<le> j}" using True i0 by (auto simp: le_Suc_eq)
      then have c: "card {k \<in> A. i0 < k \<and> k \<le> Suc j} = Suc (card {k \<in> A. i0 < k \<and> k \<le> j})" using fin by simp
      show ?thesis
      proof (cases "nf + 1 = nh")
        case nh: True
        have "{k \<in> A. Suc j \<le> k \<and> k \<le> Suc j} = {Suc j}" using True by auto
        then show ?thesis using nh i0 True mv Suc.prems by auto
      next
        case False
        then obtain src where r: "find_sources n_kv s nh i0 j (nf + 1) = (nh, src)" "i0 < src" "src \<le> j" "src \<in> A"
          "card {k \<in> A. src \<le> k \<and> k \<le> j} = nh - (nf + 1)" using Suc.IH[of "nf + 1"] Suc.prems c by auto
        have "{k \<in> A. src \<le> k \<and> k \<le> Suc j} = insert (Suc j) {k \<in> A. src \<le> k \<and> k \<le> j}" using True r(3) by (auto simp: le_Suc_eq)
        then have "card {k \<in> A. src \<le> k \<and> k \<le> Suc j} = nh - nf" using fin r(5) Suc.prems(2) False by simp
        then show ?thesis using r i0 True False mv Suc.prems(1) by (auto intro: le_SucI)
      qed
    qed
  qed
qed

section \<open>The invariant of the search\<close>

text \<open>\<open>i0\<close> is the start of the hole being filled and every cell before \<open>m\<close> is occupied.\<close>

definition defrag_inv :: "nat \<Rightarrow> nat \<Rightarrow> llama_kv_cell list \<Rightarrow> nat \<Rightarrow> nat \<Rightarrow> defrag_state \<Rightarrow> bool" where
  "defrag_inv n_kv n_used cells0 i0 m s \<longleftrightarrow>
     defrag_rel n_used cells0 (d_ids s) (d_cells s) \<and> length (d_ids s) = n_kv \<and> m \<le> n_used
     \<and> (\<forall>j < n_kv. d_ids s ! j \<noteq> n_kv \<longrightarrow> j < i0 \<or> n_used \<le> j \<and> is_empty (d_cells s ! j))
     \<and> (\<forall>i t. moved (d_ids s) i t \<longrightarrow> t < m \<and> 0 < d_n_moves s)
     \<and> (\<forall>j < m. \<not> is_empty (d_cells s ! j))
     \<and> card (occ (d_cells s)) = n_used \<and> occ (d_cells s) \<subseteq> {..<n_kv}
     \<and> d_n_moves s \<le> card {j. j < m \<and> is_empty (cells0 ! j)}"

lemma defrag_inv_dest:
  assumes "defrag_inv n_kv n_used cells0 i0 m s"
  shows "defrag_rel n_used cells0 (d_ids s) (d_cells s)" "length (d_ids s) = n_kv" "m \<le> n_used"
    "j < n_kv \<Longrightarrow> d_ids s ! j \<noteq> n_kv \<Longrightarrow> i0 \<le> j \<Longrightarrow> n_used \<le> j \<and> is_empty (d_cells s ! j)"
    "moved (d_ids s) i t \<Longrightarrow> t < m \<and> 0 < d_n_moves s"
    "j < m \<Longrightarrow> \<not> is_empty (d_cells s ! j)"
    "card (occ (d_cells s)) = n_used" "occ (d_cells s) \<subseteq> {..<n_kv}" "n_used \<le> n_kv" "n_kv \<le> length (d_cells s)"
    "d_n_moves s \<le> card {j. j < m \<and> is_empty (cells0 ! j)}"
  using assms unfolding defrag_inv_def defrag_rel_def by (auto simp: not_less)

lemma movable_occ:
  assumes "defrag_inv n_kv n_used cells0 i0 m s" "i0 \<le> j" "j < n_kv"
  shows "movable n_kv s j \<longleftrightarrow> j \<in> occ (d_cells s)"
  using defrag_inv_dest(4,10)[OF assms(1)] assms(2,3) by (fastforce simp: movable_def occ_def)

text \<open>Moving one cell into the hole.\<close>

lemma defrag_inv_move:
  assumes inv: "defrag_inv n_kv n_used cells0 i0 (i0 + nf) s" and i1: "n_used \<le> i1" "i1 < n_kv" "movable n_kv s i1"
    and t: "i0 + nf < n_used" "is_empty (d_cells s ! (i0 + nf))" and n: "0 < n'" "n' \<le> d_n_moves s + 1"
    and s': "s' = s\<lparr>d_ids := (d_ids s)[i1 := i0 + nf], d_cells := (d_cells s)[i0 + nf := d_cells s ! i1, i1 := new_cell],
                    d_head := n_used, d_n_moves := n'\<rparr>"
  shows "defrag_inv n_kv n_used cells0 i0 (i0 + (nf + 1)) s'"
proof -
  note d = defrag_inv_dest[OF inv]
  have mv: "\<not> is_empty (d_cells s ! i1)" "d_ids s ! i1 = length (d_ids s)" using i1(3) d(2) by (auto simp: movable_def)
  have len: "i1 < length (d_ids s)" "i1 < length (d_cells s)" "i0 + nf < length (d_cells s)" "i0 + nf \<noteq> i1"
    using i1 d(2,9,10) t(1) by auto
  have nm: "\<forall>i. \<not> moved (d_ids s) i (i0 + nf)" using d(5) by blast
  have rel: "defrag_rel n_used cells0 (d_ids s') (d_cells s')"
    using defrag_rel_move[OF d(1) len(1) mv(2) i1(1) mv(1) t nm] by (simp add: s')
  have m: "moved (d_ids s') i u \<longleftrightarrow> moved (d_ids s) i u \<or> (i = i1 \<and> u = i0 + nf)" for i u
    using moved_update[OF len(1) mv(2), of "i0 + nf"] len(4) t(1) d(2,9) by (simp add: s')
  have o: "occ (d_cells s') = insert (i0 + nf) (occ (d_cells s) - {i1})"
    using occ_move[OF len(3,2,4) t(2) mv(1)] by (simp add: s')
  have c: "card (occ (d_cells s')) = n_used"
    using card_occ_move[OF len(3,2,4) t(2) mv(1)] d(7) by (simp add: s')
  have e: "j < i0 \<or> n_used \<le> j \<and> is_empty (d_cells s' ! j)" if "j < n_kv" "d_ids s' ! j \<noteq> n_kv" for j
  proof (cases "j = i1")
    case True
    then show ?thesis using len(2) i1(1) by (simp add: s')
  next
    case False
    then have "d_ids s ! j \<noteq> n_kv" using that(2) by (simp add: s')
    then show ?thesis using False d(4)[OF that(1)] t(1) by (auto simp: s' nth_list_update)
  qed
  show ?thesis unfolding defrag_inv_def
  proof (intro conjI allI impI)
    have "\<forall>u. \<not> moved (d_ids s) (i0 + nf) u" using d(1) t(1) unfolding defrag_rel_def by (meson leD)
    then have "is_empty (cells0 ! (i0 + nf))" using d(1) nm t len(3) unfolding defrag_rel_def by metis
    then have "{j. j < i0 + (nf + 1) \<and> is_empty (cells0 ! j)} = insert (i0 + nf) {j. j < i0 + nf \<and> is_empty (cells0 ! j)}"
      by (auto simp: less_Suc_eq)
    then show "d_n_moves s' \<le> card {j. j < i0 + (nf + 1) \<and> is_empty (cells0 ! j)}" using d(11) n(2) by (simp add: s')
    show "occ (d_cells s') \<subseteq> {..<n_kv}" using o d(8,9) t(1) by auto
    show "\<not> is_empty (d_cells s' ! j)" if "j < i0 + (nf + 1)" for j
      using that d(6)[of j] mv(1) len t(1) i1(1) by (auto simp: s' nth_list_update less_Suc_eq)
    show "u < i0 + (nf + 1)" "0 < d_n_moves s'" if "moved (d_ids s') i u" for i u
      using that d(5)[of i u] n unfolding m by (auto simp: s')
  qed (use rel d(2,3) t(1) e c in \<open>auto simp: s'\<close>)
qed

lemma move_cells_inv:
  assumes "defrag_inv n_kv n_used cells0 i0 (i0 + nf) s" "nf < nh" "i0 + nh \<le> n_used"
    "\<forall>j. i0 + nf \<le> j \<and> j < i0 + nh \<longrightarrow> is_empty (d_cells s ! j)" "n_used \<le> a" "a \<le> n_kv"
    "nh - nf \<le> card {k \<in> occ (d_cells s). a \<le> k}" "cont \<longrightarrow> 0 < d_n_moves s"
  shows "\<exists>s' stop nf'. move_cells n_kv n_used mx i0 nh [a..<n_kv] cont nf s = (s', stop) \<and> nf' \<le> nh
     \<and> defrag_inv n_kv n_used cells0 i0 (i0 + nf') s' \<and> (if stop then d_n_moves s' = mx else nf' = nh)
     \<and> d_head s' \<in> {d_head s, n_used}"
  using assms
proof (induction "n_kv - a" arbitrary: a nf s cont)
  case 0
  then have "{k \<in> occ (d_cells s). a \<le> k} = {}" using defrag_inv_dest(8)[OF 0(2)] by auto
  then show ?case using "0.prems" by (simp only: card.empty)
next
  case (Suc x)
  note d = defrag_inv_dest[OF Suc.prems(1)]
  have a: "a < n_kv" "i0 \<le> a" using Suc.hyps(2) Suc.prems by auto
  then have u: "[a..<n_kv] = a # [a + 1..<n_kv]" by (simp add: upt_rec)
  have mo: "movable n_kv s a \<longleftrightarrow> a \<in> occ (d_cells s)" using movable_occ[OF Suc.prems(1) a(2,1)] .
  show ?case
  proof (cases "movable n_kv s a")
    case False
    then have "{k \<in> occ (d_cells s). a \<le> k} = {k \<in> occ (d_cells s). a + 1 \<le> k}" using mo by (auto simp: Suc_le_eq le_less)
    then have c: "nh - nf \<le> card {k \<in> occ (d_cells s). a + 1 \<le> k}" using Suc.prems(7) by simp
    have st: "move_cells n_kv n_used mx i0 nh [a..<n_kv] cont nf s =
      (if d_n_moves s = mx then (s, True) else move_cells n_kv n_used mx i0 nh [a + 1..<n_kv] False nf s)"
      using False by (simp add: u)
    show ?thesis
    proof (cases "d_n_moves s = mx")
      case True
      then show ?thesis using Suc.prems(1,2) unfolding st by (intro exI[of _ s] exI[of _ True] exI[of _ nf]) auto
    next
      case mx: False
      show ?thesis unfolding st if_not_P[OF mx]
        by (rule Suc.hyps(1)) (use Suc.hyps(2) Suc.prems a c in simp_all)
    qed
  next
    case True
    let ?t = "i0 + nf"
    define s' where "s' = s\<lparr>d_ids := (d_ids s)[a := ?t], d_cells := (d_cells s)[?t := d_cells s ! a, a := new_cell],
                    d_head := n_used, d_n_moves := (if cont then d_n_moves s else d_n_moves s + 1)\<rparr>"
    have t: "?t < n_used" "is_empty (d_cells s ! ?t)" using Suc.prems by auto
    have inv: "defrag_inv n_kv n_used cells0 i0 (i0 + (nf + 1)) s'"
      by (rule defrag_inv_move[OF Suc.prems(1,5) a(1) True t _ _ s'_def]) (use Suc.prems(8) in simp_all)
    have "occ (d_cells s') = insert ?t (occ (d_cells s) - {a})"
      using occ_move[of ?t "d_cells s" a] t Suc.prems(5) a d(9,10) mo True by (simp add: s'_def occ_def)
    then have "{k \<in> occ (d_cells s'). a + 1 \<le> k} = {k \<in> occ (d_cells s). a \<le> k} - {a}" using t(1) Suc.prems(5) by auto
    moreover have "a \<in> {k \<in> occ (d_cells s). a \<le> k}" using mo True by simp
    ultimately have c: "nh - (nf + 1) \<le> card {k \<in> occ (d_cells s'). a + 1 \<le> k}"
      using Suc.prems(7) by (simp add: card_Diff_singleton_if)
    have e: "\<forall>j. i0 + (nf + 1) \<le> j \<and> j < i0 + nh \<longrightarrow> is_empty (d_cells s' ! j)"
      using Suc.prems(3,4,5) by (auto simp: s'_def nth_list_update)
    have st: "move_cells n_kv n_used mx i0 nh [a..<n_kv] cont nf s =
      (if nf + 1 = nh then (s', False) else move_cells n_kv n_used mx i0 nh [a + 1..<n_kv] True (nf + 1) s')"
      using True by (simp add: u s'_def Let_def)
    have h: "d_head s' = n_used" "0 < d_n_moves s'" using Suc.prems(8) by (simp_all add: s'_def)
    show ?thesis
    proof (cases "nf + 1 = nh")
      case True
      then show ?thesis using inv h unfolding st by (intro exI[of _ s'] exI[of _ False] exI[of _ nh]) auto
    next
      case False
      have "\<exists>s1 stop nf'. move_cells n_kv n_used mx i0 nh [a + 1..<n_kv] True (nf + 1) s' = (s1, stop) \<and> nf' \<le> nh
        \<and> defrag_inv n_kv n_used cells0 i0 (i0 + nf') s1 \<and> (if stop then d_n_moves s1 = mx else nf' = nh)
        \<and> d_head s1 \<in> {d_head s', n_used}"
        by (rule Suc.hyps(1)) (use Suc.hyps(2) Suc.prems(2,3,5) a inv c e h False in simp_all)
      then show ?thesis unfolding st if_not_P[OF False] h(1) by blast
    qed
  qed
qed

text \<open>Enough cells lie at or after \<open>n_used\<close> to fill a hole before it, and the search from the end stops among them.\<close>

lemma occ_beyond:
  assumes "card (occ cells) = n_used" "i0 + nh \<le> n_used" "\<forall>j. i0 \<le> j \<and> j < i0 + nh \<longrightarrow> is_empty (cells ! j)"
  shows "nh \<le> card {k \<in> occ cells. n_used \<le> k}"
proof -
  have "occ cells \<inter> {..<n_used} \<subseteq> {..<n_used} - {i0..<i0 + nh}" using assms(3) by (auto simp: occ_def)
  then have "card (occ cells \<inter> {..<n_used}) \<le> card ({..<n_used} - {i0..<i0 + nh})" by (intro card_mono) auto
  also have "\<dots> = n_used - nh" using assms(2) by (subst card_Diff_subset) auto
  finally have "card (occ cells \<inter> {..<n_used}) \<le> n_used - nh" .
  moreover have "card (occ cells) = card (occ cells \<inter> {..<n_used}) + card {k \<in> occ cells. n_used \<le> k}"
    by (subst card_Un_disjoint[symmetric]) (auto intro: arg_cong[where f = card])
  ultimately show ?thesis using assms(1,2) by linarith
qed

lemma hole_len_spec:
  assumes "is_empty (cells ! i0)" "i0 < n_used"
  shows "0 < hole_len cells n_used i0" "i0 + hole_len cells n_used i0 \<le> n_used"
    "i0 \<le> j \<Longrightarrow> j < i0 + hole_len cells n_used i0 \<Longrightarrow> is_empty (cells ! j)"
proof -
  let ?P = "\<lambda>j. is_empty (cells ! j)" and ?l = "[i0 + 1..<n_used]"
  have le: "length (takeWhile ?P ?l) \<le> n_used - (i0 + 1)" using length_takeWhile_le[of ?P ?l] by simp
  then show "0 < hole_len cells n_used i0" "i0 + hole_len cells n_used i0 \<le> n_used"
    using assms(2) by (simp_all add: hole_len_def)
  assume j: "i0 \<le> j" "j < i0 + hole_len cells n_used i0"
  show "is_empty (cells ! j)"
  proof (cases "j = i0")
    case False
    then have k: "j - (i0 + 1) < length (takeWhile ?P ?l)" using j by (simp add: hole_len_def)
    then have "?P (takeWhile ?P ?l ! (j - (i0 + 1)))" by (meson nth_mem set_takeWhileD)
    moreover have "takeWhile ?P ?l ! (j - (i0 + 1)) = j"
      using takeWhile_nth[OF k] k le False j by simp
    ultimately show ?thesis by simp
  qed (use assms in simp)
qed

lemma defrag_inv_mark:
  assumes inv: "defrag_inv n_kv n_used cells0 i0 i0 s" and i0: "i0 < n_used" "\<not> is_empty (d_cells s ! i0)"
  shows "defrag_inv n_kv n_used cells0 (i0 + 1) (i0 + 1) (s\<lparr>d_ids := (d_ids s)[i0 := i0]\<rparr>)"
proof -
  note d = defrag_inv_dest[OF inv]
  have l: "i0 < length (d_ids s)" using i0 d(2,9) by simp
  have id: "d_ids s ! i0 = length (d_ids s)" using d(2) d(4)[of i0] i0 l by force
  note m = moved_mark[OF l id]
  have "defrag_rel n_used cells0 ((d_ids s)[i0 := i0]) (d_cells s)" using d(1) unfolding defrag_rel_def m by simp
  moreover have "j < i0 + 1 \<or> n_used \<le> j \<and> is_empty (d_cells s ! j)" if "j < n_kv" "(d_ids s)[i0 := i0] ! j \<noteq> n_kv" for j
    using that d(4)[of j] l by (auto simp: nth_list_update split: if_splits)
  moreover have "card {j. j < i0 \<and> is_empty (cells0 ! j)} \<le> card {j. j < i0 + 1 \<and> is_empty (cells0 ! j)}"
    by (rule card_mono) auto
  ultimately show ?thesis unfolding defrag_inv_def using m d(2,3,5,6,7,8,11) i0 by (fastforce simp: less_Suc_eq)
qed

lemma defrag_loop_inv:
  assumes "defrag_inv n_kv n_used cells0 i0 i0 s"
  shows "\<exists>s' j m. defrag_loop n_kv n_used mx i0 s = Inr s' \<and> defrag_inv n_kv n_used cells0 j m s'
     \<and> (m = n_used \<or> d_n_moves s' = mx) \<and> d_head s' \<in> {d_head s, n_used}"
  using assms
proof (induction n_kv n_used mx i0 s rule: defrag_loop.induct)
  case (1 n_kv n_used mx i0 s)
  note d = defrag_inv_dest[OF "1.prems"]
  show ?case
  proof (cases "i0 < n_used")
    case False
    then show ?thesis using "1.prems" d(3) by (subst defrag_loop.simps) auto
  next
    case i0: True
    show ?thesis
    proof (cases "is_empty (d_cells s ! i0)")
      case False
      then show ?thesis using "1.IH"(1)[OF i0 False] defrag_inv_mark[OF "1.prems" i0 False] i0
        by (subst defrag_loop.simps) auto
    next
      case e: True
      define nh where "nh = hole_len (d_cells s) n_used i0"
      note h = hole_len_spec[OF e i0, folded nh_def]
      have by1: "nh \<le> card {k \<in> occ (d_cells s). n_used \<le> k}" using occ_beyond[OF d(7) h(2)] h(3) by blast
      have lt: "k \<le> n_kv - 1" if "k \<in> occ (d_cells s)" for k using that d(8) by fastforce
      have pos: "0 < n_kv" using i0 d(9) by simp
      have sub: "{k \<in> occ (d_cells s). n_used \<le> k} \<subseteq> {k \<in> occ (d_cells s). i0 < k \<and> k \<le> n_kv - 1}" using i0 lt by auto
      have "nh \<le> 0 + card {k \<in> occ (d_cells s). i0 < k \<and> k \<le> n_kv - 1}"
        using by1 card_mono[OF _ sub] by simp
      then obtain src where src: "find_sources n_kv s nh i0 (n_kv - 1) 0 = (nh, src)" "src \<le> n_kv - 1"
          "src \<in> occ (d_cells s)" "card {k \<in> occ (d_cells s). src \<le> k \<and> k \<le> n_kv - 1} = nh"
        using find_sources_spec[of i0 n_kv s "occ (d_cells s)" "n_kv - 1" 0 nh] movable_occ[OF "1.prems"] pos h(1) by auto
      have ge: "n_used \<le> src"
      proof (rule ccontr)
        assume a: "\<not> n_used \<le> src"
        then have "insert src {k \<in> occ (d_cells s). n_used \<le> k} \<subseteq> {k \<in> occ (d_cells s). src \<le> k \<and> k \<le> n_kv - 1}"
          using src(3) lt by auto
        then have "card (insert src {k \<in> occ (d_cells s). n_used \<le> k}) \<le> nh" using card_mono[of "{k \<in> occ (d_cells s). src \<le> k \<and> k \<le> n_kv - 1}"] src(4) by simp
        then show False using a by1 by simp
      qed
      have eq: "{k \<in> occ (d_cells s). src \<le> k} = {k \<in> occ (d_cells s). src \<le> k \<and> k \<le> n_kv - 1}" using lt by auto
      have "\<exists>s' stop nf'. move_cells n_kv n_used mx i0 nh [src..<n_kv] False 0 s = (s', stop) \<and> nf' \<le> nh
         \<and> defrag_inv n_kv n_used cells0 i0 (i0 + nf') s' \<and> (if stop then d_n_moves s' = mx else nf' = nh)
         \<and> d_head s' \<in> {d_head s, n_used}"
        by (rule move_cells_inv) (use "1.prems" h ge src(2,4) pos in \<open>auto simp: eq\<close>)
      then obtain s' stop nf' where mv: "move_cells n_kv n_used mx i0 nh [src..<n_kv] False 0 s = (s', stop)"
          "defrag_inv n_kv n_used cells0 i0 (i0 + nf') s'" "if stop then d_n_moves s' = mx else nf' = nh"
          "d_head s' \<in> {d_head s, n_used}" by blast
      have st: "defrag_loop n_kv n_used mx i0 s =
          (if stop \<or> d_n_moves s' = mx then Inr s' else defrag_loop n_kv n_used mx (i0 + nh) s')"
        by (subst defrag_loop.simps) (simp add: i0 e nh_def[symmetric] Let_def src(1)[unfolded One_nat_def] mv(1) ggml_assert_def)
      show ?thesis
      proof (cases "stop \<or> d_n_moves s' = mx")
        case True
        then show ?thesis using mv unfolding st by (auto split: if_splits)
      next
        case False
        then have "defrag_inv n_kv n_used cells0 (i0 + nh) (i0 + nh) s'"
          using mv(2,3) unfolding defrag_inv_def by (auto split: if_splits)
        from "1.IH"(2)[OF i0 _ nh_def src(1)[symmetric] _ mv(1)[symmetric] False this, of "()"] e mv(4)
        have "\<exists>s1 j m. defrag_loop n_kv n_used mx (i0 + nh) s' = Inr s1 \<and> defrag_inv n_kv n_used cells0 j m s1
           \<and> (m = n_used \<or> d_n_moves s1 = mx) \<and> d_head s1 \<in> {d_head s', n_used}" by simp
        then show ?thesis unfolding st if_not_P[OF False] using mv(4) by (metis insertE insertI1 singletonD)
      qed
    qed
  qed
qed

section \<open>The copies of the data\<close>

text \<open>Sources lie at or after \<open>n_used\<close> and destinations before it, so no copy overwrites what a later one reads.\<close>

definition apart :: "nat \<Rightarrow> nat list \<Rightarrow> bool" where
  "apart n_used ids \<longleftrightarrow> n_used \<le> length ids \<and> (\<forall>i t. moved ids i t \<longrightarrow> t < n_used \<and> n_used \<le> i)
     \<and> (\<forall>i i' t. moved ids i t \<and> moved ids i' t \<longrightarrow> i = i')"

lemma defrag_rel_apart: "defrag_rel n_used cells0 ids cells \<Longrightarrow> apart n_used ids"
  unfolding defrag_rel_def apart_def by blast

lemma copy_block_length [simp]:
  "src + nm \<le> length data \<Longrightarrow> dst + nm \<le> length data \<Longrightarrow> length (copy_block (src, dst, nm) data) = length data"
  by simp

lemma copy_block_nth:
  assumes "src + nm \<le> length data" "dst + nm \<le> length data" "j < length data"
  shows "copy_block (src, dst, nm) data ! j = (if dst \<le> j \<and> j < dst + nm then data ! (src + (j - dst)) else data ! j)"
  using assms by (auto simp: nth_append)

lemma run_moved:
  assumes ap: "apart n_used ids" and mv: "moved ids i dst"
    and nm: "nm = 1 + length (takeWhile (\<lambda>k. ids ! (i + k) = dst + k) [1..<length ids - i])"
  shows "i + nm \<le> length ids" "k < nm \<Longrightarrow> moved ids (i + k) (dst + k)"
proof -
  let ?P = "\<lambda>k. ids ! (i + k) = dst + k" and ?l = "[1..<length ids - i]"
  have len: "length (takeWhile ?P ?l) \<le> length ids - i - 1" using length_takeWhile_le[of ?P ?l] by simp
  have i: "i < length ids" "dst < n_used" "n_used \<le> i" 
    using mv ap by (simp add: moved_def, simp_all only: apart_def)
  have "nm \<le> 1 + (length ids - i - 1)" unfolding nm using len by (rule add_left_mono)
  then show b: "i + nm \<le> length ids" using i(1) by simp
  have eq: "ids ! (i + k) = dst + k" if "k < nm" for k
  proof (cases k)
    case 0
    then show ?thesis using mv by (simp add: moved_def)
  next
    case (Suc k')
    then have k': "k' < length (takeWhile ?P ?l)" using that nm by simp
    then have "?P (takeWhile ?P ?l ! k')" by (meson nth_mem set_takeWhileD)
    moreover have "takeWhile ?P ?l ! k' = k" using takeWhile_nth[OF k'] k' len Suc by simp
    ultimately show ?thesis by simp
  qed
  assume "k < nm"
  then show "moved ids (i + k) (dst + k)"
  proof (induction k)
    case 0
    then show ?case using mv by simp
  next
    case (Suc k)
    then have "dst + k < n_used" using ap by (simp add: apart_def)
    then have "dst + Suc k < length ids" using i by simp
    then show ?case using eq[OF Suc.prems] Suc.prems b i by (simp add: moved_def)
  qed
qed

lemma copies_data:
  assumes ap: "apart n_used ids" and "length ids \<le> length data"
  shows "length (fold copy_block (defrag_copies ids i) data) = length data
    \<and> (\<forall>j < length data. (\<forall>s \<ge> i. moved ids s j \<longrightarrow> fold copy_block (defrag_copies ids i) data ! j = data ! s)
      \<and> ((\<forall>s \<ge> i. \<not> moved ids s j) \<longrightarrow> fold copy_block (defrag_copies ids i) data ! j = data ! j))"
  using assms
proof (induction ids i arbitrary: data rule: defrag_copies.induct)
  case (1 ids i)
  show ?case
  proof (cases "i < length ids")
    case False
    then have "\<not> moved ids s j" if "i \<le> s" for s j using that by (auto simp: moved_def)
    then show ?thesis using False by (subst (1 2 3) defrag_copies.simps) auto
  next
    case i: True
    show ?thesis
    proof (cases "moved ids i (ids ! i)")
      case False
      then have n: "i = ids ! i \<or> ids ! i = length ids" using i by (auto simp: moved_def)
      then have eq: "defrag_copies ids i = defrag_copies ids (i + 1)"
        using i by (subst defrag_copies.simps) (simp add: Let_def)
      have "moved ids s j \<Longrightarrow> s \<noteq> i" for s j using False by (auto simp: moved_def)
      then have "(i \<le> s \<and> moved ids s j) = (i + 1 \<le> s \<and> moved ids s j)" for s j by (auto simp: Suc_le_eq le_less)
      moreover note "1.IH"(1)[OF i refl n "1.prems"]
      ultimately show ?thesis unfolding eq by blast
    next
      case True
      define dst where "dst = ids ! i"
      define nm where "nm = 1 + length (takeWhile (\<lambda>k. ids ! (i + k) = dst + k) [1..<length ids - i])"
      note mi = True[folded dst_def]
      have n: "\<not> (i = dst \<or> dst = length ids)" using mi by (auto simp: moved_def)
      have eq: "defrag_copies ids i = (i, dst, nm) # defrag_copies ids (i + nm)"
        using i n by (subst defrag_copies.simps) (simp add: Let_def dst_def[symmetric] nm_def)
      note run = run_moved[OF "1.prems"(1) mi nm_def]
      have sep: "t < n_used \<and> n_used \<le> s" "moved ids s' t \<Longrightarrow> s' = s" if "moved ids s t" for s s' t
        using that "1.prems"(1) unfolding apart_def by blast+
      have dn: "dst + nm \<le> n_used" "n_used \<le> length ids"
      proof -
        have nm: "0 < nm" by (simp add: nm_def)
        then show "dst + nm \<le> n_used" using sep(1)[OF run(2)[of "nm - 1"]] by linarith
        show "n_used \<le> length ids" using "1.prems"(1) by (simp add: apart_def)
      qed
      define d1 where "d1 = copy_block (i, dst, nm) data"
      have b: "i + nm \<le> length data" "dst + nm \<le> length data" using run(1) dn "1.prems"(2) by auto
      have l1: "length d1 = length data" using b by (simp add: d1_def)
      have n1: "d1 ! j = (if dst \<le> j \<and> j < dst + nm then data ! (i + (j - dst)) else data ! j)" if "j < length data" for j
        unfolding d1_def by (rule copy_block_nth[OF b that])
      have IH: "length (fold copy_block (defrag_copies ids (i + nm)) d1) = length d1"
        "\<And>j s. j < length data \<Longrightarrow> i + nm \<le> s \<Longrightarrow> moved ids s j \<Longrightarrow> fold copy_block (defrag_copies ids (i + nm)) d1 ! j = d1 ! s"
        "\<And>j. j < length data \<Longrightarrow> \<forall>s \<ge> i + nm. \<not> moved ids s j \<Longrightarrow> fold copy_block (defrag_copies ids (i + nm)) d1 ! j = d1 ! j"
        using "1.IH"(2)[OF i dst_def n nm_def "1.prems"(1), of d1] "1.prems"(2) unfolding l1 by blast+
      have f: "fold copy_block (defrag_copies ids i) data = fold copy_block (defrag_copies ids (i + nm)) d1"
        by (simp add: eq d1_def)
      have early: "dst \<le> j \<and> j < dst + nm \<and> s = i + (j - dst)" if "moved ids s j" "i \<le> s" "s < i + nm" for s j
      proof -
        have "moved ids s (dst + (s - i))" using run(2)[of "s - i"] that by simp
        then have "j = dst + (s - i)" using that(1) by (simp add: moved_def)
        then show ?thesis using that by auto
      qed
      show ?thesis unfolding f
      proof (intro conjI allI impI)
        fix j s assume j: "j < length data" "i \<le> s" "moved ids s j"
        show "fold copy_block (defrag_copies ids (i + nm)) d1 ! j = data ! s"
        proof (cases "i + nm \<le> s")
          case True
          have s: "s < length data" "\<not> s < dst + nm" using j(3) "1.prems"(2) sep(1)[OF j(3)] dn by (auto simp: moved_def)
          then show ?thesis using IH(2)[OF j(1) True j(3)] n1[OF s(1)] by simp
        next
          case False
          then have e: "dst \<le> j \<and> j < dst + nm \<and> s = i + (j - dst)" using early[OF j(3,2)] by simp
          have "\<forall>s' \<ge> i + nm. \<not> moved ids s' j" using sep(2)[OF j(3)] False by blast
          then show ?thesis using IH(3)[OF j(1)] n1[OF j(1)] e by simp
        qed
      next
        fix j assume j: "j < length data" "\<forall>s \<ge> i. \<not> moved ids s j"
        have "\<not> (dst \<le> j \<and> j < dst + nm)" using run(2)[of "j - dst"] j(2) by force
        then show "fold copy_block (defrag_copies ids (i + nm)) d1 ! j = data ! j"
          using IH(3)[OF j(1)] n1[OF j(1)] j(2) by auto
      qed (simp add: IH(1) l1)
    qed
  qed
qed

section \<open>Defragmentation as a permutation of the occupied cells\<close>

definition defrag_from :: "nat list \<Rightarrow> nat \<Rightarrow> nat" where
  "defrag_from ids j = (if \<exists>i. moved ids i j then THE i. moved ids i j else j)"

lemma defrag_from_moved: "apart n_used ids \<Longrightarrow> moved ids i j \<Longrightarrow> defrag_from ids j = i"
  unfolding defrag_from_def apart_def by (subst if_P, blast) (rule the_equality, blast+)

lemma defrag_from_same: "\<nexists>i. moved ids i j \<Longrightarrow> defrag_from ids j = j"
  by (simp add: defrag_from_def)

lemma defrag_from_bij:
  assumes r: "defrag_rel n_used cells0 ids cells"
  shows "inj_on (defrag_from ids) (occ cells)" "defrag_from ids ` occ cells = occ cells0"
    "j \<in> occ cells \<Longrightarrow> cells ! j = cells0 ! defrag_from ids j"
proof -
  note ap = defrag_rel_apart[OF r] and fm = defrag_from_moved[OF defrag_rel_apart[OF r]]
  have len: "length cells = length cells0" "length ids \<le> length cells0" "n_used \<le> length ids"
    and sep: "\<And>i t. moved ids i t \<Longrightarrow> t < n_used \<and> n_used \<le> i \<and> \<not> is_empty (cells0 ! i) \<and> is_empty (cells0 ! t)"
    and mv: "\<And>i t. moved ids i t \<Longrightarrow> cells ! t = cells0 ! i \<and> cells ! i = new_cell"
    and same: "\<And>j. j < length cells0 \<Longrightarrow> \<forall>t. \<not> moved ids j t \<Longrightarrow> \<forall>i. \<not> moved ids i j \<Longrightarrow> cells ! j = cells0 ! j"
    using r unfolding defrag_rel_def by blast+
  have stay: "\<forall>t. \<not> moved ids j t" if "j \<in> occ cells" for j using that mv by (fastforce simp: occ_def)
  show eq: "cells ! j = cells0 ! defrag_from ids j" if "j \<in> occ cells" for j
  proof (cases "\<exists>i. moved ids i j")
    case True
    then show ?thesis using fm mv by blast
  next
    case False
    then show ?thesis using same[of j] stay[OF that] that len(1) by (simp add: defrag_from_same occ_def)
  qed
  show "inj_on (defrag_from ids) (occ cells)"
  proof (rule inj_onI)
    fix j k assume a: "j \<in> occ cells" "k \<in> occ cells" "defrag_from ids j = defrag_from ids k"
    show "j = k"
    proof (cases "(\<exists>i. moved ids i j) \<or> (\<exists>i. moved ids i k)")
      case True
      have "moved ids i j \<Longrightarrow> j = k" "moved ids i k \<Longrightarrow> j = k" for i
        using a(3) fm[of i j] fm[of i k] fm[of _ j] fm[of _ k] stay[OF a(1)] stay[OF a(2)] defrag_from_same[of ids j]
          defrag_from_same[of ids k] by (metis moved_def)+
      then show ?thesis using True by blast
    next
      case False
      then show ?thesis using a(3) by (simp add: defrag_from_same)
    qed
  qed
  have "defrag_from ids j \<in> occ cells0" if "j \<in> occ cells" for j
  proof (cases "\<exists>i. moved ids i j")
    case True
    then obtain i where "moved ids i j" by blast
    then show ?thesis using fm sep len by (auto simp: occ_def moved_def)
  next
    case False
    then show ?thesis using eq[OF that] that len(1) by (simp add: defrag_from_same occ_def)
  qed
  moreover have "i \<in> defrag_from ids ` occ cells" if i: "i \<in> occ cells0" for i
  proof (cases "\<exists>t. moved ids i t")
    case True
    then obtain t where t: "moved ids i t" by blast
    then have "t \<in> occ cells" using sep[OF t] mv[OF t] len by (auto simp: occ_def)
    then show ?thesis using fm[OF t] by blast
  next
    case False
    have "\<forall>k. \<not> moved ids k i" using sep i by (auto simp: occ_def)
    then show ?thesis using same[of i] False i len(1)
      by (intro image_eqI[of _ _ i]) (auto simp: defrag_from_same occ_def)
  qed
  ultimately show "defrag_from ids ` occ cells = occ cells0" by blast
qed

text \<open>The occupied cells with their data, as a multiset.\<close>

definition cell_data :: "llama_kv_cell list \<Rightarrow> 'd list \<Rightarrow> (llama_kv_cell \<times> 'd) multiset" where
  "cell_data cells data = mset (filter (\<lambda>(c, _). \<not> is_empty c) (zip cells data))"

lemma cell_data_occ:
  assumes "length data = length cells"
  shows "cell_data cells data = image_mset (\<lambda>j. (cells ! j, data ! j)) (mset_set (occ cells))"
proof -
  have z: "zip cells data = map (\<lambda>j. (cells ! j, data ! j)) [0..<length cells]"
    using assms by (auto intro: nth_equalityI)
  have "filter (\<lambda>(c, _). \<not> is_empty c) (zip cells data)
      = map (\<lambda>j. (cells ! j, data ! j)) (filter (\<lambda>j. \<not> is_empty (cells ! j)) [0..<length cells])"
    unfolding z filter_map by (simp add: o_def)
  moreover have "mset (filter (\<lambda>j. \<not> is_empty (cells ! j)) [0..<length cells]) = mset_set (occ cells)"
    by (subst mset_set_set[symmetric]) (auto simp: occ_def intro!: arg_cong[where f = mset_set])
  ultimately show ?thesis unfolding cell_data_def by (simp add: mset_map[symmetric] del: mset_map) (simp)
qed

lemma cell_data_defrag:
  assumes r: "defrag_rel n_used cells0 ids cells" and l: "length data = length cells0"
  shows "cell_data cells (fold copy_block (defrag_copies ids 0) data) = cell_data cells0 data"
proof -
  let ?d = "fold copy_block (defrag_copies ids 0) data"
  have len: "length cells = length cells0" "length ids \<le> length data" using r l by (simp_all add: defrag_rel_def)
  note ap = defrag_rel_apart[OF r] and bij = defrag_from_bij[OF r]
  note c = copies_data[OF ap len(2), of 0]
  have d: "?d ! j = data ! defrag_from ids j" if "j \<in> occ cells" for j
  proof (cases "\<exists>i. moved ids i j")
    case True
    then obtain i where "moved ids i j" by blast
    then show ?thesis using defrag_from_moved[OF ap] c that len l by (auto simp: occ_def)
  next
    case False
    then show ?thesis using c that len l by (auto simp: defrag_from_same occ_def)
  qed
  have "cell_data cells ?d = image_mset (\<lambda>j. (cells ! j, ?d ! j)) (mset_set (occ cells))"
    using c len l by (intro cell_data_occ) simp
  also have "\<dots> = image_mset (\<lambda>j. (cells0 ! defrag_from ids j, data ! defrag_from ids j)) (mset_set (occ cells))"
    by (rule image_mset_cong) (use d bij(3) in auto)
  also have "\<dots> = image_mset (\<lambda>j. (cells0 ! j, data ! j)) (image_mset (defrag_from ids) (mset_set (occ cells)))"
    by (simp add: multiset.map_comp o_def)
  also have "image_mset (defrag_from ids) (mset_set (occ cells)) = mset_set (occ cells0)"
    using image_mset_mset_set[OF bij(1)] bij(2) by simp
  finally show ?thesis using cell_data_occ[OF l] by simp
qed

section \<open>The whole operation\<close>

lemma occ_below_max:
  assumes "kv_inv kv"
  shows "occ (kv_cells kv) \<subseteq> {..<llama_kv_cache_cell_max kv}"
proof
  fix i assume "i \<in> occ (kv_cells kv)"
  then have i: "i < kv_size kv" "cell_ok (kv_cells kv ! i)" "\<not> is_empty (kv_cells kv ! i)"
    using assms by (auto simp: kv_inv_def occ_def)
  then show "i \<in> {..<llama_kv_cache_cell_max kv}" using cell_max_bound[of i kv] by (simp add: cell_ok_def is_empty_def)
qed

lemma not_moved_replicate [simp]: "\<not> moved (replicate n n) i t"
  by (auto simp: moved_def)

lemma no_moves_no_copies:
  assumes "\<And>i t. \<not> moved ids i t"
  shows "defrag_copies ids i = []"
  using assms
proof (induction ids i rule: defrag_copies.induct)
  case (1 ids i)
  then have "i < length ids \<Longrightarrow> i = ids ! i \<or> ids ! i = length ids" by (metis moved_def)
  then show ?case using 1 by (subst defrag_copies.simps) (auto simp: Let_def)
qed

lemma defrag_impl_spec:
  assumes inv: "kv_inv kv" and sz: "kv_size kv < 2 ^ 32"
  obtains s j m where "llama_kv_cache_defrag_impl mn nl (kv, data) = Inr (kv\<lparr>kv_cells := d_cells s, kv_head := d_head s\<rparr>,
       fold copy_block (defrag_copies (d_ids s) 0) data)"
    "defrag_inv (llama_kv_cache_cell_max kv) (n_occupied (kv_cells kv)) (kv_cells kv) j m s"
    "m = n_occupied (kv_cells kv) \<or> d_n_moves s = defrag_max_moves mn nl"
    "d_head s \<in> {kv_head kv, n_occupied (kv_cells kv)}"
proof -
  let ?n = "llama_kv_cache_cell_max kv" and ?u = "n_occupied (kv_cells kv)"
  let ?s0 = "\<lparr>d_ids = replicate ?n ?n, d_cells = kv_cells kv, d_head = kv_head kv, d_n_moves = 0\<rparr>"
  have len: "length (kv_cells kv) = kv_size kv" and used: "kv_used kv = of_nat ?u" using inv by (simp_all add: kv_inv_def)
  have "?u \<le> kv_size kv" using n_occupied_le[of "kv_cells kv"] len by simp
  then have u: "unat (kv_used kv) = ?u" using used sz by (simp add: unat_of_nat take_bit_nat_eq_self)
  have "?u \<le> ?n" using card_mono[OF _ occ_below_max[OF inv]] by (simp add: card_occ)
  then have "defrag_inv ?n ?u (kv_cells kv) 0 0 ?s0"
    using occ_below_max[OF inv] cell_max_le[of kv] len by (auto simp: defrag_inv_def defrag_rel_def card_occ)
  from defrag_loop_inv[OF this, of "defrag_max_moves mn nl"] obtain s j m
    where s: "defrag_loop ?n ?u (defrag_max_moves mn nl) 0 ?s0 = Inr s" "defrag_inv ?n ?u (kv_cells kv) j m s"
      "m = ?u \<or> d_n_moves s = defrag_max_moves mn nl" "d_head s \<in> {kv_head kv, ?u}" by auto
  have "d_n_moves s = 0 \<Longrightarrow> defrag_copies (d_ids s) 0 = []"
    using defrag_inv_dest(5)[OF s(2)] by (intro no_moves_no_copies) auto
  then show ?thesis using s by (intro that[of s j m]) (auto simp: llama_kv_cache_defrag_impl_def Let_def u)
qed

lemma defrag_rel_cells:
  assumes r: "defrag_rel n_used cells0 ids cells"
  shows "set cells \<subseteq> insert new_cell (set cells0)"
proof
  fix c assume "c \<in> set cells"
  then obtain k where k: "k < length cells" "c = cells ! k" by (auto simp: in_set_conv_nth)
  have len: "length cells = length cells0" "length ids \<le> length cells0" using r by (simp_all add: defrag_rel_def)
  show "c \<in> insert new_cell (set cells0)"
  proof (cases "(\<exists>t. moved ids k t) \<or> (\<exists>i. moved ids i k)")
    case True
    then obtain i where "cells ! k = new_cell \<or> i < length ids \<and> cells ! k = cells0 ! i"
      using r unfolding defrag_rel_def by (metis moved_def)
    then show ?thesis using k(2) len by auto
  next
    case False
    then have "cells ! k = cells0 ! k" using r k(1) len unfolding defrag_rel_def by simp
    then show ?thesis using k len by simp
  qed
qed

lemma kv_inv_defrag_impl:
  assumes inv: "kv_inv kv" and d: "defrag_inv n_kv (n_occupied (kv_cells kv)) (kv_cells kv) j m s"
    and h: "d_head s \<in> {kv_head kv, n_occupied (kv_cells kv)}"
  shows "kv_inv (kv\<lparr>kv_cells := d_cells s, kv_head := d_head s\<rparr>)"
proof -
  note r = defrag_inv_dest(1)[OF d]
  have "cell_ok new_cell" by (simp add: cell_ok_def new_cell_def is_empty_def)
  then have "\<forall>c \<in> set (d_cells s). cell_ok c" using defrag_rel_cells[OF r] inv by (auto simp: kv_inv_def)
  moreover have "length (d_cells s) = length (kv_cells kv)" using r by (simp add: defrag_rel_def)
  moreover have "n_occupied (d_cells s) = n_occupied (kv_cells kv)" using defrag_inv_dest(7)[OF d] by (simp add: card_occ)
  moreover have "n_occupied (kv_cells kv) \<le> kv_size kv" using n_occupied_le[of "kv_cells kv"] inv by (simp add: kv_inv_def)
  ultimately show ?thesis using inv h by (auto simp: kv_inv_def)
qed

section \<open>Properties\<close>

text \<open>C10: Defragmentation of a cache whose used counter is accurate never trips its assertion, keeps the invariant of
  the cache, and keeps every occupied cell together with its key and value data: the pairs of cell and data before and
  after are the same multiset, although the moves are planned on the cells and run later as block copies.\<close>

theorem defrag_keeps_cells_and_data:
  assumes "kv_inv kv" "kv_size kv < 2 ^ 32" "length data = kv_size kv"
  shows "\<exists>kv' data'. llama_kv_cache_defrag_impl max_nodes n_layer (kv, data) = Inr (kv', data') \<and> kv_inv kv'
    \<and> length data' = length data \<and> kv_used kv' = kv_used kv
    \<and> cell_data (kv_cells kv') data' = cell_data (kv_cells kv) data"
proof -
  obtain s j m where s: "llama_kv_cache_defrag_impl max_nodes n_layer (kv, data) = Inr (kv\<lparr>kv_cells := d_cells s, kv_head := d_head s\<rparr>,
       fold copy_block (defrag_copies (d_ids s) 0) data)"
    and inv: "defrag_inv (llama_kv_cache_cell_max kv) (n_occupied (kv_cells kv)) (kv_cells kv) j m s"
    and h: "d_head s \<in> {kv_head kv, n_occupied (kv_cells kv)}"
    by (rule defrag_impl_spec[OF assms(1,2), of max_nodes n_layer data])
  note r = defrag_inv_dest(1)[OF inv]
  have l: "length data = length (kv_cells kv)" using assms by (simp add: kv_inv_def)
  have "length (d_ids s) \<le> length data" using r l by (simp add: defrag_rel_def)
  then have "length (fold copy_block (defrag_copies (d_ids s) 0) data) = length data"
    using copies_data[OF defrag_rel_apart[OF r]] by blast
  then show ?thesis using s kv_inv_defrag_impl[OF assms(1) inv h] cell_data_defrag[OF r l] by simp
qed

definition frag_cells :: "llama_kv_cell list" where
  "frag_cells = [new_cell\<lparr>c_pos := 0, c_seq_id := {0}\<rparr>, new_cell, new_cell, new_cell\<lparr>c_pos := 1, c_seq_id := {0}\<rparr>,
     new_cell, new_cell\<lparr>c_pos := 2, c_seq_id := {0, 1}\<rparr>]"

definition frag_cache :: llama_kv_cache where
  "frag_cache = (llama_kv_cache_init ex_cache False False False 6)\<lparr>kv_cells := frag_cells, kv_used := 3, kv_do_defrag := True\<rparr>"

lemma frag_cache_inv: "kv_inv frag_cache" "kv_size frag_cache = 6" "n_occupied (kv_cells frag_cache) = 3"
  by (simp_all add: kv_inv_def frag_cache_def frag_cells_def llama_kv_cache_init_def n_occupied_def is_empty_def
      new_cell_def cell_ok_def)

lemma frag_cache_sel: "kv_used frag_cache = 3" "kv_cells frag_cache = frag_cells" "length ''abcdef'' = 6"
  by (simp_all add: frag_cache_def)

theorem defrag_keeps_cells_and_data_witness:
  "\<exists>kv' data'. llama_kv_cache_defrag_impl 8192 32 (frag_cache, ''abcdef'') = Inr (kv', data') \<and> kv_inv kv'
    \<and> length data' = length ''abcdef'' \<and> kv_used kv' = 3 \<and> cell_data (kv_cells kv') data' = cell_data frag_cells ''abcdef''"
  using defrag_keeps_cells_and_data[of frag_cache "''abcdef''" 8192 32]
  by (simp add: frag_cache_inv frag_cache_sel)

text \<open>C24: When the graph has room for one copy per empty cell among the first \<open>used\<close> cells, defragmentation leaves the cache
  compact: the occupied cells are exactly the first \<open>used\<close> ones. A hole is a run of empty cells, and room for one copy per hole is not enough, because the
  cells that fill a hole may come from several places (\<open>one_copy_per_hole_too_few\<close>).\<close>

theorem defrag_compacts:
  assumes "kv_inv kv" "kv_size kv < 2 ^ 32"
    "length (filter is_empty (take (unat (kv_used kv)) (kv_cells kv))) \<le> defrag_max_moves max_nodes n_layer"
    "llama_kv_cache_defrag_impl max_nodes n_layer (kv, data) = Inr (kv', data')"
  shows "\<forall>i < kv_size kv. \<not> is_empty (kv_cells kv' ! i) \<longleftrightarrow> i < unat (kv_used kv)"
proof -
  let ?u = "n_occupied (kv_cells kv)"
  obtain s j m where s: "llama_kv_cache_defrag_impl max_nodes n_layer (kv, data) = Inr (kv\<lparr>kv_cells := d_cells s, kv_head := d_head s\<rparr>,
       fold copy_block (defrag_copies (d_ids s) 0) data)"
    and inv: "defrag_inv (llama_kv_cache_cell_max kv) ?u (kv_cells kv) j m s"
    and fin: "m = ?u \<or> d_n_moves s = defrag_max_moves max_nodes n_layer"
    by (rule defrag_impl_spec[OF assms(1,2), of max_nodes n_layer data])
  note d = defrag_inv_dest[OF inv]
  have len: "length (kv_cells kv) = kv_size kv" and used: "kv_used kv = of_nat ?u" using assms(1) by (simp_all add: kv_inv_def)
  have ul: "?u \<le> kv_size kv" using n_occupied_le[of "kv_cells kv"] len by simp
  then have u: "unat (kv_used kv) = ?u" using used assms(2) by (simp add: unat_of_nat take_bit_nat_eq_self)
  have c: "kv_cells kv' = d_cells s" using s assms(4) by auto
  have holes: "length (filter is_empty (take ?u (kv_cells kv))) = card {j. j < ?u \<and> is_empty (kv_cells kv ! j)}"
    using ul len by (simp add: length_filter_conv_card) (rule arg_cong[where f = card], auto)
  have below: "{..<?u} \<subseteq> occ (d_cells s)"
  proof
    fix i assume i: "i \<in> {..<?u}"
    have il: "i < length (d_cells s)" using i d(9,10) by simp
    show "i \<in> occ (d_cells s)"
    proof (cases "i < m")
      case True
      then show ?thesis using d(6) il by (simp add: occ_def)
    next
      case False
      let ?H = "\<lambda>m. {j. j < m \<and> is_empty (kv_cells kv ! j)}"
      have "?H m = ?H ?u"
        by (rule card_seteq) (use d(3,11) fin False i holes assms(3) u in auto)
      then have ne: "\<not> is_empty (kv_cells kv ! i)" using False i by blast
      have "\<forall>t. \<not> moved (d_ids s) i t" using d(1) i unfolding defrag_rel_def by (meson leD lessThan_iff)
      moreover have "\<forall>k. \<not> moved (d_ids s) k i" using d(5) False by blast
      ultimately have "d_cells s ! i = kv_cells kv ! i" using d(1) i ul len unfolding defrag_rel_def by simp
      then show ?thesis using ne il by (simp add: occ_def)
    qed
  qed
  have "occ (d_cells s) = {..<?u}" by (rule card_seteq[OF _ below, symmetric]) (simp_all add: d(7))
  moreover have "length (d_cells s) = kv_size kv" using d(1) len by (simp add: defrag_rel_def)
  ultimately show ?thesis unfolding c u by (auto simp: occ_def)
qed

theorem defrag_compacts_witness:
  "\<exists>kv' data'. llama_kv_cache_defrag_impl 8192 32 (frag_cache, ''abcdef'') = Inr (kv', data')
    \<and> map (\<lambda>c. \<not> is_empty c) (kv_cells kv') = [True, True, True, False, False, False]"
proof -
  obtain s j m where s: "llama_kv_cache_defrag_impl 8192 32 (frag_cache, ''abcdef'') = Inr (frag_cache\<lparr>kv_cells := d_cells s, kv_head := d_head s\<rparr>,
       fold copy_block (defrag_copies (d_ids s) 0) ''abcdef'')"
    and inv: "defrag_inv (llama_kv_cache_cell_max frag_cache) (n_occupied (kv_cells frag_cache)) (kv_cells frag_cache) j m s"
    by (rule defrag_impl_spec[of frag_cache 8192 32 "''abcdef''"]) (simp_all only: frag_cache_inv, simp)
  have l: "length (d_cells s) = 6"
    using defrag_inv_dest(1)[OF inv] by (simp add: defrag_rel_def frag_cache_sel frag_cells_def)
  have h: "length (filter is_empty (take (unat (kv_used frag_cache)) (kv_cells frag_cache))) \<le> defrag_max_moves 8192 32"
    by (simp add: frag_cache_sel frag_cells_def defrag_max_moves_def is_empty_def new_cell_def)
  have "\<forall>i < 6. \<not> is_empty (d_cells s ! i) \<longleftrightarrow> i < 3"
    using defrag_compacts[OF frag_cache_inv(1) _ h s] by (simp add: frag_cache_inv frag_cache_sel)
  then have "map (\<lambda>c. \<not> is_empty c) (d_cells s) = map (\<lambda>i. i < 3) [0..<6]"
    using l by (intro nth_equalityI) simp_all
  then show ?thesis using s by (simp add: upt_rec)
qed

text \<open>Two empty cells make one hole; the two cells that could fill it are not neighbours, and with room for one copy the second one stays.\<close>

lemma one_copy_per_hole_too_few:
  "defrag_max_moves 8 1 = 1 \<and>
   (case llama_kv_cache_defrag_impl 8 1
      (frag_cache\<lparr>kv_size := 5, kv_used := 2, kv_cells := [new_cell, new_cell, new_cell\<lparr>c_pos := 1, c_seq_id := {0}\<rparr>, new_cell,
         new_cell\<lparr>c_pos := 2, c_seq_id := {0}\<rparr>]\<rparr>, ''abcde'') of
      Inl e \<Rightarrow> False
    | Inr (kv', data') \<Rightarrow> map (\<lambda>c. \<not> is_empty c) (kv_cells kv') = [True, False, False, False, True])"
  by code_simp

lemma update_impl_spec:
  fixes k_shift :: "int list \<Rightarrow> 'd list \<Rightarrow> 'd list"
  assumes "kv_good kv" "kv_size kv < 2 ^ 32"
  shows "case llama_kv_cache_update_impl has_rope k_shift max_nodes n_layer (kv, data) of
      Inl e \<Rightarrow> e = GgmlAbort \<and> kv_has_shift kv \<and> \<not> kv_can_shift kv
    | Inr (kv', data') \<Rightarrow> (kv_has_shift kv \<longrightarrow> kv_can_shift kv) \<and> kv_good kv' \<and> \<not> kv_has_shift kv' \<and> \<not> kv_do_defrag kv'
        \<and> kv_used kv' = kv_used kv \<and> kv_size kv' = kv_size kv \<and> kv_can_shift kv' = kv_can_shift kv \<and> (kv_has_shift kv \<longrightarrow> (\<forall>c \<in> set (kv_cells kv'). c_delta c = 0))
        \<and> (\<not> kv_has_shift kv \<and> \<not> kv_do_defrag kv \<longrightarrow> kv' = kv \<and> data' = data)"
proof (cases "kv_has_shift kv \<and> \<not> kv_can_shift kv")
  case True
  then show ?thesis by (simp add: llama_kv_cache_update_impl_def)
next
  case False
  define kv1 where "kv1 = (if kv_has_shift kv then shift_applied kv else kv)"
  define data1 where "data1 = (if kv_has_shift kv \<and> has_rope then k_shift (map c_delta (kv_cells kv)) data else data)"
  have g1: "kv_good kv1" using assms(1) kv_good_shift_applied by (simp add: kv1_def)
  have k1: "\<not> kv_has_shift kv1" "kv_do_defrag kv1 = kv_do_defrag kv" "kv_used kv1 = kv_used kv" "kv_size kv1 = kv_size kv" "kv_can_shift kv1 = kv_can_shift kv"
    by (simp_all add: kv1_def shift_applied_def)
  have delta: "\<forall>c \<in> set (kv_cells kv1). c_delta c = 0" if "kv_has_shift kv" using that by (simp add: kv1_def shift_applied_def)
  have step: "llama_kv_cache_update_impl has_rope k_shift max_nodes n_layer (kv, data) =
     (if kv_do_defrag kv then bind_res (llama_kv_cache_defrag_impl max_nodes n_layer (kv1, data1)) (\<lambda>(kv2, data2).
        Inr (kv2\<lparr>kv_do_defrag := False\<rparr>, data2)) else Inr (kv1, data1))"
    using False k1(2) by (auto simp: llama_kv_cache_update_impl_def kv1_def data1_def)
  show ?thesis
  proof (cases "kv_do_defrag kv")
    case defrag: True
    obtain s j m where s: "llama_kv_cache_defrag_impl max_nodes n_layer (kv1, data1) = Inr (kv1\<lparr>kv_cells := d_cells s, kv_head := d_head s\<rparr>,
         fold copy_block (defrag_copies (d_ids s) 0) data1)"
      and inv: "defrag_inv (llama_kv_cache_cell_max kv1) (n_occupied (kv_cells kv1)) (kv_cells kv1) j m s"
      and h: "d_head s \<in> {kv_head kv1, n_occupied (kv_cells kv1)}"
      by (rule defrag_impl_spec[of kv1 max_nodes n_layer data1]) (use g1 assms(2) k1 in \<open>simp_all add: kv_good_def\<close>)
    have "c_delta new_cell = 0" by (simp add: new_cell_def)
    then have "\<forall>c \<in> set (d_cells s). c_delta c = 0" if "kv_has_shift kv"
      using defrag_rel_cells[OF defrag_inv_dest(1)[OF inv]] delta[OF that] by auto
    moreover have "kv_inv (kv1\<lparr>kv_cells := d_cells s, kv_head := d_head s\<rparr>)"
      using kv_inv_defrag_impl[OF _ inv h] g1 by (simp add: kv_good_def)
    ultimately show ?thesis using False k1 g1 defrag by (auto simp: step s kv_good_def kv_inv_def)
  next
    case no: False
    show ?thesis using False k1 g1 delta by (simp add: step no kv1_def data1_def)
  qed
qed

text \<open>C25: Updating a cache applies what is pending: it aborts exactly when a shift is pending and the model cannot shift;
  otherwise no shift and no defragmentation is pending afterwards, the invariant and the used counter are kept, the
  deltas of an applied shift are cleared, and a cache with nothing pending is returned unchanged with its data.\<close>

theorem cache_update_applies_pending:
  fixes k_shift :: "int list \<Rightarrow> 'd list \<Rightarrow> 'd list"
  assumes "kv_good kv" "kv_size kv < 2 ^ 32"
  shows "case llama_kv_cache_update_impl has_rope k_shift max_nodes n_layer (kv, data) of
      Inl e \<Rightarrow> e = GgmlAbort \<and> kv_has_shift kv \<and> \<not> kv_can_shift kv
    | Inr (kv', data') \<Rightarrow> (kv_has_shift kv \<longrightarrow> kv_can_shift kv) \<and> kv_good kv' \<and> \<not> kv_has_shift kv' \<and> \<not> kv_do_defrag kv'
        \<and> kv_used kv' = kv_used kv \<and> (kv_has_shift kv \<longrightarrow> (\<forall>c \<in> set (kv_cells kv'). c_delta c = 0))
        \<and> (\<not> kv_has_shift kv \<and> \<not> kv_do_defrag kv \<longrightarrow> kv' = kv \<and> data' = data)"
  using update_impl_spec[OF assms, where has_rope = has_rope and k_shift = k_shift and max_nodes = max_nodes and n_layer = n_layer and data = data] by (auto split: sum.splits)

theorem cache_update_applies_pending_witness:
  "\<exists>kv' data'. llama_kv_cache_update_impl True (\<lambda>ds d. d) 8192 32 (frag_cache\<lparr>kv_has_shift := True\<rparr>, ''abcdef'') = Inr (kv', data')
    \<and> \<not> kv_has_shift kv' \<and> \<not> kv_do_defrag kv' \<and> list_all (\<lambda>c. c_delta c = 0) (kv_cells kv')"
proof -
  let ?kv = "frag_cache\<lparr>kv_has_shift := True\<rparr>"
  have "kv_good ?kv" using frag_cache_inv(1) by (simp add: kv_good_def kv_inv_def) (simp add: frag_cache_def llama_kv_cache_init_def)
  moreover have "kv_size ?kv < 2 ^ 32" "kv_can_shift ?kv"
    using frag_cache_inv(2) by (simp_all add: frag_cache_def llama_kv_cache_init_def)
  ultimately show ?thesis
    using cache_update_applies_pending[of ?kv, where has_rope = True and k_shift = "\<lambda>ds d. d"
        and max_nodes = 8192 and n_layer = 32 and data = "''abcdef''"]
    by (auto simp: list_all_iff split: sum.splits)
qed

end
