(* ===== verification/Batch_Split.thy ===== *)
theory Batch_Split
  imports Batch "HOL-Library.Multiset"
begin

text \<open>
  Splitting a batch loses and repeats nothing. A token of a batch is an entry: its id, its
  embedding, its position, the sequences it belongs to and whether its output is wanted. Whatever way
  an sbatch is split, the loop that takes micro-batches ends, no assertion fails, no array is
  read or written out of bounds, and the entries of the micro-batches together are those of the batch.
\<close>

section \<open>Arrays\<close>

lemma gather_ok: "\<forall>i \<in> set js. i < length arr \<Longrightarrow> gather arr js = Inr (map (\<lambda>i. arr ! i) js)"
  by (induction js) (auto simp: gather_def index_res_def)

lemma rows_ok:
  "\<forall>i \<in> set js. i < n \<Longrightarrow> length arr = w * n \<Longrightarrow> map_res (row_res w arr) js = Inr (map (\<lambda>i. take w (drop (w * i) arr)) js)"
proof (induction js)
  case (Cons i js)
  then have "w * (i + 1) \<le> w * n" by (intro mult_le_mono2) auto
  then show ?case using Cons by (simp add: row_res_def algebra_simps)
qed simp

lemma concat_rows_nth:
  assumes "\<forall>r \<in> set rows. length r = w" "j < length rows"
  shows "take w (drop (w * j) (concat rows @ ys)) = rows ! j"
  using assms
proof (induction rows arbitrary: j)
  case (Cons r rows)
  then show ?case by (cases j) (auto simp: drop_append algebra_simps)
qed simp

lemma length_concat_rows: "\<forall>r \<in> set rows. length r = w \<Longrightarrow> length (concat rows) = w * length rows"
  by (induction rows) auto

lemma write_at_ok: "k + length vs \<le> length arr \<Longrightarrow> write_at k vs arr = Inr (take k arr @ vs @ drop (k + length vs) arr)"
  by (simp add: write_at_def)

section \<open>Entries\<close>

record token_entry =
  te_token :: "int option"
  te_embd :: "u32 list option"
  te_pos :: int
  te_seqs :: "int list"
  te_output :: bool

text \<open>Whether the output of a token is wanted: all of them, the marked ones, or the last.\<close>

definition wants_output :: "bool \<Rightarrow> llama_batch \<Rightarrow> nat \<Rightarrow> bool" where
  "wants_output logits_all batch i \<longleftrightarrow>
     (logits_all \<or> (case b_logits batch of Some ls \<Rightarrow> ls ! i \<noteq> 0 | None \<Rightarrow> i + 1 = nat (b_n_tokens batch)))"

definition row_at :: "nat \<Rightarrow> 'a list \<Rightarrow> nat \<Rightarrow> 'a list" where
  "row_at w arr i = take w (drop (w * i) arr)"

definition batch_entry :: "nat \<Rightarrow> bool \<Rightarrow> llama_batch \<Rightarrow> nat \<Rightarrow> token_entry" where
  "batch_entry n_embd logits_all batch i =
     \<lparr>te_token = map_option (\<lambda>ts. ts ! i) (b_token batch),
      te_embd = map_option (\<lambda>es. row_at n_embd es i) (b_embd batch),
      te_pos = the (b_pos batch) ! i,
      te_seqs = take (nat (the (b_n_seq_id batch) ! i)) (the (b_seq_id batch) ! i),
      te_output = wants_output logits_all batch i\<rparr>"

definition ubatch_entry :: "nat \<Rightarrow> llama_ubatch \<Rightarrow> nat \<Rightarrow> token_entry" where
  "ubatch_entry n_embd ub i =
     (let q = i div ub_n_seq_tokens ub in
      \<lparr>te_token = map_option (\<lambda>ts. ts ! i) (ub_token ub),
       te_embd = map_option (\<lambda>es. row_at n_embd es i) (ub_embd ub),
       te_pos = ub_pos ub ! i,
       te_seqs = take (nat (ub_n_seq_id ub ! q)) (ub_seq_id ub ! q),
       te_output = (ub_output ub ! i \<noteq> 0)\<rparr>)"

definition ubatch_entries :: "nat \<Rightarrow> llama_ubatch \<Rightarrow> token_entry list" where
  "ubatch_entries n_embd ub = map (ubatch_entry n_embd ub) [0..<ub_n_tokens ub]"

text \<open>A batch as \<open>llama_batch_allocr\<close> leaves it: tokens or embeddings, every other array but the logits
  present, every array as long as the batch, and every token in at least one sequence.\<close>

definition batch_ok :: "nat \<Rightarrow> llama_batch \<Rightarrow> bool" where
  "batch_ok n_embd batch \<longleftrightarrow>
     (let n = nat (b_n_tokens batch) in
      0 \<le> b_n_tokens batch
      \<and> (b_token batch = None) \<noteq> (b_embd batch = None)
      \<and> (\<forall>ts. b_token batch = Some ts \<longrightarrow> length ts = n)
      \<and> (\<forall>es. b_embd batch = Some es \<longrightarrow> length es = n_embd * n)
      \<and> (\<exists>ps. b_pos batch = Some ps \<and> length ps = n)
      \<and> (\<exists>ns. b_n_seq_id batch = Some ns \<and> length ns = n \<and> (\<forall>k \<in> set ns. 0 < k))
      \<and> (\<exists>sq. b_seq_id batch = Some sq \<and> length sq = n
            \<and> (\<forall>i < n. the (b_n_seq_id batch) ! i \<le> int (length (sq ! i))))
      \<and> (\<forall>ls. b_logits batch = Some ls \<longrightarrow> length ls = n))"

section \<open>Adding a sequence to a micro-batch\<close>

text \<open>Writing \<open>vs\<close> at \<open>k\<close> keeps what is before and sets what follows.\<close>

definition written :: "nat \<Rightarrow> 'a list \<Rightarrow> 'a list \<Rightarrow> 'a list \<Rightarrow> bool" where
  "written k vs arr arr' \<longleftrightarrow> length arr' = length arr \<and> (\<forall>i < k. arr' ! i = arr ! i) \<and> (\<forall>j < length vs. arr' ! (k + j) = vs ! j)"

lemma write_at_written:
  "k + length vs \<le> length arr \<Longrightarrow> \<exists>arr'. write_at k vs arr = Inr arr' \<and> written k vs arr arr'"
  by (auto simp: write_at_def written_def nth_append)

text \<open>The same for the rows of an array of embeddings.\<close>

lemma written_rows:
  assumes "written (w * k) (concat rows) arr arr'" "\<forall>r \<in> set rows. length r = w" "w * k + w * length rows \<le> length arr"
  shows "i < k \<Longrightarrow> row_at w arr' i = row_at w arr i" "j < length rows \<Longrightarrow> row_at w arr' (k + j) = rows ! j"
proof -
  note len = length_concat_rows[OF assms(2)]
  have la: "length arr' = length arr" using assms(1) by (simp add: written_def)
  show "row_at w arr' i = row_at w arr i" if "i < k"
  proof (rule nth_equalityI)
    show l: "length (row_at w arr' i) = length (row_at w arr i)" by (simp add: row_at_def la)
    fix d assume "d < length (row_at w arr' i)"
    then have "d < w" by (simp add: row_at_def)
    moreover have "w * i + w \<le> w * k" using that by (metis Suc_leI mult_Suc_right add.commute mult_le_mono2)
    ultimately show "row_at w arr' i ! d = row_at w arr i ! d"
      using assms(1) \<open>d < length (row_at w arr' i)\<close> by (simp add: row_at_def written_def la)
  qed
  show "row_at w arr' (k + j) = rows ! j" if j: "j < length rows"
  proof -
    have c: "take (w * length rows) (drop (w * k) arr') = concat rows"
    proof (rule nth_equalityI)
      show "length (take (w * length rows) (drop (w * k) arr')) = length (concat rows)" using assms(3) la len by simp
      fix d assume "d < length (take (w * length rows) (drop (w * k) arr'))"
      then have "d < length (concat rows)" using len by simp
      then show "take (w * length rows) (drop (w * k) arr') ! d = concat rows ! d"
        using assms(1,3) la len by (simp add: written_def)
    qed
    have "w * j + w \<le> w * length rows" using j by (metis Suc_leI mult_Suc_right add.commute mult_le_mono2)
    then have "row_at w arr' (k + j) = take w (drop (w * j) (take (w * length rows) (drop (w * k) arr')))"
      by (simp add: row_at_def drop_take min_def algebra_simps)
    then show ?thesis using concat_rows_nth[OF assms(2) j, of "[]"] c by simp
  qed
qed

text \<open>A micro-batch of \<open>m\<close> sequences of \<open>L\<close> tokens each, with room for \<open>cap\<close> tokens.\<close>

definition equal_ubatch :: "nat \<Rightarrow> llama_batch \<Rightarrow> nat \<Rightarrow> nat \<Rightarrow> nat \<Rightarrow> llama_ubatch \<Rightarrow> bool" where
  "equal_ubatch w batch cap m L ub \<longleftrightarrow>
     ub_equal_seqs ub \<and> ub_n_seqs ub = m \<and> ub_n_tokens ub = m * L \<and> m * L \<le> cap \<and> (0 < m \<longrightarrow> ub_n_seq_tokens ub = L)
     \<and> (ub_token ub = None \<longleftrightarrow> b_token batch = None) \<and> (\<forall>arr. ub_token ub = Some arr \<longrightarrow> length arr = cap)
     \<and> (ub_embd ub = None \<longleftrightarrow> b_embd batch = None) \<and> (\<forall>arr. ub_embd ub = Some arr \<longrightarrow> length arr = w * cap)
     \<and> length (ub_pos ub) = cap \<and> length (ub_n_seq_id ub) = cap \<and> length (ub_seq_id ub) = cap
     \<and> length (ub_output ub) = cap
     \<and> (\<forall>q < m. 1 \<le> ub_n_seq_id ub ! q \<and> ub_n_seq_id ub ! q \<le> int (length (ub_seq_id ub ! q)))"

lemma add_tokens_equal:
  assumes "equal_ubatch w batch cap m L ub" "batch_ok w batch" "\<forall>i \<in> set js. i < nat (b_n_tokens batch)"
    and "m * L + length js \<le> cap"
  obtains t where "add_tokens batch js off ub = Inr (ub\<lparr>ub_token := t\<rparr>)"
    and "t = None \<longleftrightarrow> b_token batch = None" "\<forall>arr. t = Some arr \<longrightarrow> length arr = cap"
    and "\<forall>i < m * L. map_option (\<lambda>ts. ts ! i) t = map_option (\<lambda>ts. ts ! i) (ub_token ub)"
    and "\<forall>j < length js. map_option (\<lambda>ts. ts ! (m * L + j)) t = map_option (\<lambda>ts. ts ! (js ! j)) (b_token batch)"
proof (cases "b_token batch")
  case None
  then show ?thesis using assms(1) by (intro that[of None]) (auto simp: add_tokens_def equal_ubatch_def)
next
  case (Some ts)
  with assms(1) obtain arr where arr: "ub_token ub = Some arr" "length arr = cap" by (auto simp: equal_ubatch_def)
  have "length ts = nat (b_n_tokens batch)" using assms(2) Some by (auto simp: batch_ok_def Let_def)
  then have g: "gather ts js = Inr (map (\<lambda>i. ts ! i) js)" using assms(3) by (intro gather_ok) simp
  obtain arr' where w: "write_at (m * L) (map (\<lambda>i. ts ! i) js) arr = Inr arr'" "written (m * L) (map (\<lambda>i. ts ! i) js) arr arr'"
    using write_at_written[of "m * L" "map (\<lambda>i. ts ! i) js" arr] arr assms(4) by auto
  show ?thesis
  proof (rule that[of "Some arr'"])
    show "add_tokens batch js off ub = Inr (ub\<lparr>ub_token := Some arr'\<rparr>)"
      using assms(1) arr w(1) g Some by (simp add: add_tokens_def equal_ubatch_def deref_def)
  qed (use Some arr w(2) in \<open>auto simp: written_def\<close>)
qed

lemma add_embd_equal:
  assumes "equal_ubatch w batch cap m L ub" "batch_ok w batch" "\<forall>i \<in> set js. i < nat (b_n_tokens batch)"
    and "m * L + length js \<le> cap"
  obtains t where "add_embd w batch js off ub = Inr (ub\<lparr>ub_embd := t\<rparr>)"
    and "t = None \<longleftrightarrow> b_embd batch = None" "\<forall>arr. t = Some arr \<longrightarrow> length arr = w * cap"
    and "\<forall>i < m * L. map_option (\<lambda>ts. row_at w ts i) t = map_option (\<lambda>ts. row_at w ts i) (ub_embd ub)"
    and "\<forall>j < length js. map_option (\<lambda>ts. row_at w ts (m * L + j)) t = map_option (\<lambda>ts. row_at w ts (js ! j)) (b_embd batch)"
proof (cases "b_embd batch")
  case None
  then show ?thesis using assms(1) by (intro that[of None]) (auto simp: add_embd_def equal_ubatch_def)
next
  case (Some es)
  let ?rows = "map (\<lambda>i. row_at w es i) js"
  from Some assms(1) obtain arr where arr: "ub_embd ub = Some arr" "length arr = w * cap" by (auto simp: equal_ubatch_def)
  have es: "length es = w * nat (b_n_tokens batch)" using assms(2) Some by (auto simp: batch_ok_def Let_def)
  have g: "map_res (row_res w es) js = Inr ?rows" using rows_ok[OF assms(3) es] by (simp add: row_at_def)
  have rows: "\<forall>r \<in> set ?rows. length r = w"
  proof
    fix r assume "r \<in> set ?rows"
    then obtain i where "i \<in> set js" "r = row_at w es i" by auto
    moreover have "w * i + w \<le> w * nat (b_n_tokens batch)"
      using assms(3) \<open>i \<in> set js\<close> by (metis Suc_leI mult_Suc_right add.commute mult_le_mono2)
    ultimately show "length r = w" by (simp add: row_at_def es)
  qed
  have room: "w * (m * L) + w * length ?rows \<le> length arr"
    using mult_le_mono2[OF assms(4), of w] arr(2) by (simp add: distrib_left)
  then obtain arr' where wr: "write_at (w * (m * L)) (concat ?rows) arr = Inr arr'" "written (w * (m * L)) (concat ?rows) arr arr'"
    using write_at_written[of "w * (m * L)" "concat ?rows" arr] length_concat_rows[OF rows] by auto
  note wro = written_rows[OF wr(2) rows room]
  show ?thesis
  proof (rule that[of "Some arr'"])
    show "add_embd w batch js off ub = Inr (ub\<lparr>ub_embd := Some arr'\<rparr>)"
      using assms(1) arr wr(1) g Some by (simp add: add_embd_def equal_ubatch_def deref_def)
    show "\<forall>arr. Some arr' = Some arr \<longrightarrow> length arr = w * cap" using wr(2) arr by (simp add: written_def)
  qed (use Some arr wro in auto)
qed

lemma add_pos_equal:
  assumes "equal_ubatch w batch cap m L ub" "batch_ok w batch" "\<forall>i \<in> set js. i < nat (b_n_tokens batch)"
    and "m * L + length js \<le> cap"
  obtains p where "add_pos batch js off ub = Inr (ub\<lparr>ub_pos := p\<rparr>)" "length p = cap"
    and "\<forall>i < m * L. p ! i = ub_pos ub ! i" "\<forall>j < length js. p ! (m * L + j) = the (b_pos batch) ! (js ! j)"
proof -
  obtain ps where ps: "b_pos batch = Some ps" "length ps = nat (b_n_tokens batch)"
    using assms(2) by (auto simp: batch_ok_def Let_def)
  have g: "gather ps js = Inr (map (\<lambda>i. ps ! i) js)" using assms(3) ps by (intro gather_ok) simp
  obtain p where w: "write_at (m * L) (map (\<lambda>i. ps ! i) js) (ub_pos ub) = Inr p" "written (m * L) (map (\<lambda>i. ps ! i) js) (ub_pos ub) p"
    using write_at_written[of "m * L" "map (\<lambda>i. ps ! i) js" "ub_pos ub"] assms(1,4) by (auto simp: equal_ubatch_def)
  show ?thesis
    by (rule that[of p]) (use assms(1) ps g w in \<open>auto simp: add_pos_def equal_ubatch_def deref_def written_def\<close>)
qed

lemma add_seq_ids_equal:
  assumes "equal_ubatch w batch cap m L ub" "m < cap" "ss_seq_id s = Some l"
  obtains ns sq where "add_seq_ids batch s n ub = Inr (ub\<lparr>ub_n_seq_id := ns, ub_seq_id := sq\<rparr>)"
    and "length ns = cap" "length sq = cap" "ns ! m = ss_n_seq_id s" "sq ! m = l"
    and "\<forall>q < m. ns ! q = ub_n_seq_id ub ! q" "\<forall>q < m. sq ! q = ub_seq_id ub ! q"
proof -
  obtain ns where ns: "write_at m [ss_n_seq_id s] (ub_n_seq_id ub) = Inr ns" "written m [ss_n_seq_id s] (ub_n_seq_id ub) ns"
    using write_at_written[of m "[ss_n_seq_id s]" "ub_n_seq_id ub"] assms(1,2) by (auto simp: equal_ubatch_def)
  obtain sq where sq: "write_at m [l] (ub_seq_id ub) = Inr sq" "written m [l] (ub_seq_id ub) sq"
    using write_at_written[of m "[l]" "ub_seq_id ub"] assms(1,2) by (auto simp: equal_ubatch_def)
  show ?thesis
    by (rule that[of sq ns]) (use assms ns sq in \<open>auto simp: add_seq_ids_def equal_ubatch_def written_def\<close>)
qed

lemma filter_zip_map: "map fst (filter (\<lambda>(i, v). v \<noteq> 0) (zip js (map f js))) = filter (\<lambda>i. f i \<noteq> (0::int)) js"
  by (induction js) auto

text \<open>The value stored for the output of a token.\<close>

definition output_value :: "bool \<Rightarrow> llama_batch \<Rightarrow> nat \<Rightarrow> int" where
  "output_value logits_all batch i =
     (if logits_all then 1 else case b_logits batch of Some ls \<Rightarrow> ls ! i | None \<Rightarrow> of_bool (i + 1 = nat (b_n_tokens batch)))"

lemma output_value_iff: "output_value la batch i \<noteq> 0 \<longleftrightarrow> wants_output la batch i"
  by (auto simp: output_value_def wants_output_def split: option.splits)

lemma add_output_equal:
  assumes "equal_ubatch w batch cap m L ub" "batch_ok w batch" "\<forall>i \<in> set js. i < nat (b_n_tokens batch)"
    and "m * L + length js \<le> cap"
  obtains p where "add_output la batch (nat (b_n_tokens batch)) js off ub = Inr (ub\<lparr>ub_output := p\<rparr>, filter (wants_output la batch) js)"
    and "length p = cap" "\<forall>i < m * L. p ! i = ub_output ub ! i" "\<forall>j < length js. p ! (m * L + j) = output_value la batch (js ! j)"
proof -
  let ?vs = "map (output_value la batch) js"
  obtain p where w: "write_at (m * L) ?vs (ub_output ub) = Inr p" "written (m * L) ?vs (ub_output ub) p"
    using write_at_written[of "m * L" ?vs "ub_output ub"] assms(1,4) by (auto simp: equal_ubatch_def)
  have outs: "map fst (filter (\<lambda>(i, v). v \<noteq> 0) (zip js ?vs)) = filter (wants_output la batch) js"
    by (simp add: filter_zip_map output_value_iff)
  have eq: "ub_equal_seqs ub" "ub_n_tokens ub = m * L" using assms(1) by (auto simp: equal_ubatch_def)
  have "add_output la batch (nat (b_n_tokens batch)) js off ub
      = bind_res (write_at (m * L) ?vs (ub_output ub)) (\<lambda>arr'.
                     Inr (ub\<lparr>ub_output := arr'\<rparr>, map fst (filter (\<lambda>(i, v). v \<noteq> 0) (zip js ?vs))))"
  proof (cases "b_logits batch")
    case None
    have "output_value la batch = (\<lambda>i. if la then 1 else of_bool (i + 1 = nat (b_n_tokens batch)))"
      by (rule ext) (simp add: output_value_def None)
    then show ?thesis using eq None by (simp add: add_output_def map_replicate_const)
  next
    case (Some ls)
    have "length ls = nat (b_n_tokens batch)" using assms(2) Some by (auto simp: batch_ok_def Let_def)
    then have "gather ls js = Inr (map (\<lambda>i. ls ! i) js)" using assms(3) by (intro gather_ok) simp
    moreover have "output_value la batch = (\<lambda>i. if la then 1 else ls ! i)" by (rule ext) (simp add: output_value_def Some)
    ultimately show ?thesis using eq Some by (simp add: add_output_def map_replicate_const)
  qed
  then show ?thesis using w outs assms(1) by (intro that[of p]) (auto simp: written_def equal_ubatch_def)
qed

text \<open>What a sequence of an sbatch has to be: a slice of the ids, all in the sequences it names.\<close>

definition seq_slice :: "llama_sbatch \<Rightarrow> llama_sbatch_seq \<Rightarrow> nat list" where
  "seq_slice sb s = take (ss_length s) (drop (ss_offset s) (sb_ids sb))"

definition seq_fits :: "llama_batch \<Rightarrow> llama_sbatch \<Rightarrow> llama_sbatch_seq \<Rightarrow> bool" where
  "seq_fits batch sb s \<longleftrightarrow> 0 < ss_n_seq_id s \<and> ss_offset s + ss_length s \<le> length (sb_ids sb)
     \<and> (\<exists>l. ss_seq_id s = Some l \<and> ss_n_seq_id s \<le> int (length l) \<and> (\<forall>i \<in> set (seq_slice sb s). the (b_n_seq_id batch) ! i = ss_n_seq_id s
           \<and> take (nat (ss_n_seq_id s)) (the (b_seq_id batch) ! i) = take (nat (ss_n_seq_id s)) l))"

definition sbatch_base :: "nat \<Rightarrow> llama_batch \<Rightarrow> llama_sbatch \<Rightarrow> bool" where
  "sbatch_base w batch sb \<longleftrightarrow> sb_batch sb = Some batch \<and> batch_ok w batch \<and> sb_n_embd sb = w
     \<and> length (sb_ids sb) = nat (b_n_tokens batch) \<and> (\<forall>i \<in> set (sb_ids sb). i < nat (b_n_tokens batch))"

text \<open>What taking \<open>n\<close> tokens of sequence \<open>k\<close> leaves.\<close>

definition take_seq :: "nat \<Rightarrow> nat \<Rightarrow> llama_sbatch \<Rightarrow> llama_sbatch" where
  "take_seq k n sb =
     (let s = sb_seq sb ! k; js = take n (drop (ss_offset s) (sb_ids sb)) in
      sb\<lparr>sb_out_ids := sb_out_ids sb @ filter (wants_output (sb_logits_all sb) (the (sb_batch sb))) js,
         sb_seq := (sb_seq sb)[k := s\<lparr>ss_offset := ss_offset s + n, ss_length := ss_length s - n\<rparr>],
         sb_n_tokens := sb_n_tokens sb - n\<rparr>)"

lemma div_below: "i < m * L \<Longrightarrow> i div L < m" for i m L :: nat
  by (metis less_mult_imp_div_less)

lemma div_new: "j < L \<Longrightarrow> (m * L + j) div L = m" for j m L :: nat
  by (cases "L = 0") (simp_all add: add.commute)

lemma ubatch_entries_snoc:
  assumes "ub_n_tokens ub' = ub_n_tokens ub + length js"
    and "\<And>i. i < ub_n_tokens ub \<Longrightarrow> ubatch_entry w ub' i = ubatch_entry w ub i"
    and "\<And>j. j < length js \<Longrightarrow> ubatch_entry w ub' (ub_n_tokens ub + j) = f (js ! j)"
  shows "ubatch_entries w ub' = ubatch_entries w ub @ map f js"
proof (rule nth_equalityI)
  fix i assume "i < length (ubatch_entries w ub')"
  then have i: "i < ub_n_tokens ub + length js" by (simp add: ubatch_entries_def assms(1))
  show "ubatch_entries w ub' ! i = (ubatch_entries w ub @ map f js) ! i"
  proof (cases "i < ub_n_tokens ub")
    case True
    then show ?thesis using assms(1,2) by (simp add: ubatch_entries_def nth_append)
  next
    case False
    then show ?thesis using i assms(1) assms(3)[of "i - ub_n_tokens ub"] by (simp add: ubatch_entries_def nth_append)
  qed
qed (simp add: ubatch_entries_def assms(1))

text \<open>The composition of the parts.\<close>

lemma add_seq_steps:
  assumes "sb_batch sb = Some batch" "k < length (sb_seq sb)" "s = sb_seq sb ! k" "n \<le> ss_length s"
    and "ss_n_seq_id s = 0 \<or> m = 0 \<or> n = ub_n_tokens ub div m" "(ss_n_seq_id s \<noteq> 0) = ub_equal_seqs ub" "ub_n_seqs ub = m"
    and "slice_ids (sb_ids sb) (ss_offset s) n = Inr js"
    and "add_tokens batch js (ss_offset s) ub = Inr u1" "add_embd (sb_n_embd sb) batch js (ss_offset s) u1 = Inr u2"
    and "add_pos batch js (ss_offset s) u2 = Inr u3" "add_seq_ids batch s n u3 = Inr u4"
    and "add_output (sb_logits_all sb) batch (length (sb_ids sb)) js (ss_offset s) u4 = Inr (u5, outs)"
    and "ub_equal_seqs u5 = ub_equal_seqs ub" "ub_n_seqs u5 = m" "ub_n_tokens u5 = m * c"
    and "0 < m \<or> 0 < ub_n_tokens u5 \<longrightarrow> ub_n_seq_tokens u5 = c" "c = (if ub_equal_seqs ub then n else 1)"
  shows "add_seq_to_ubatch ub k n sb
    = Inr (u5\<lparr>ub_n_seq_tokens := c, ub_n_tokens := m * c + n, ub_n_seqs := m + (if ub_equal_seqs ub then 1 else n)\<rparr>,
           sb\<lparr>sb_out_ids := sb_out_ids sb @ outs,
              sb_seq := (sb_seq sb)[k := s\<lparr>ss_offset := ss_offset s + n, ss_length := ss_length s - n\<rparr>],
              sb_n_tokens := sb_n_tokens sb - n\<rparr>)"
proof -
  have i: "index_res (sb_seq sb) k = Inr s" using assms(2,3) by (simp add: index_res_def)
  have a: "ggml_assert (n \<le> ss_length s) = Inr ()"
    "ggml_assert (ss_n_seq_id s = 0 \<or> ub_n_seqs ub = 0 \<or> n = ub_n_tokens ub div ub_n_seqs ub) = Inr ()"
    "ggml_assert ((ss_n_seq_id s \<noteq> 0) = ub_equal_seqs ub) = Inr ()" using assms(4-7) by simp_all
  have c: "(if ub_n_tokens u5 = 0 \<and> ub_n_seqs u5 = 0 then u5\<lparr>ub_n_seq_tokens := (if ub_equal_seqs u5 then n else 1)\<rparr> else u5)
     = u5\<lparr>ub_n_seq_tokens := c\<rparr>" using assms(14-18) by auto
  have m: "m * c + n = c * (m + (if ub_equal_seqs ub then 1 else n))" using assms(18) by (simp add: algebra_simps)
  show ?thesis unfolding add_seq_to_ubatch_def assms(1) option.case i bind_res_simps a assms(8-13) prod.case c Let_def
    using assms(14-16) m by (simp add: algebra_simps)
qed

lemma add_seq_equal:
  assumes base: "sbatch_base w batch sb" and ub: "equal_ubatch w batch cap m L ub"
    and k: "k < length (sb_seq sb)" and fits: "seq_fits batch sb (sb_seq sb ! k)"
    and L: "0 < L" "L \<le> ss_length (sb_seq sb ! k)" and room: "m * L + L \<le> cap"
  shows "\<exists>ub'. add_seq_to_ubatch ub k L sb = Inr (ub', take_seq k L sb) \<and> equal_ubatch w batch cap (Suc m) L ub'
    \<and> ubatch_entries w ub' = ubatch_entries w ub
        @ map (batch_entry w (sb_logits_all sb) batch) (take L (drop (ss_offset (sb_seq sb ! k)) (sb_ids sb)))"
proof -
  let ?s = "sb_seq sb ! k"
  let ?js = "take L (drop (ss_offset ?s) (sb_ids sb))"
  obtain l where l: "ss_seq_id ?s = Some l" "\<forall>i \<in> set (seq_slice sb ?s). the (b_n_seq_id batch) ! i = ss_n_seq_id ?s
      \<and> take (nat (ss_n_seq_id ?s)) (the (b_seq_id batch) ! i) = take (nat (ss_n_seq_id ?s)) l"
      "ss_n_seq_id ?s \<le> int (length l)"
    and off: "ss_offset ?s + ss_length ?s \<le> length (sb_ids sb)" and n: "0 < ss_n_seq_id ?s"
    using fits by (auto simp: seq_fits_def)
  have js: "length ?js = L" using off L(2) by simp
  have jsN: "\<forall>i \<in> set ?js. i < nat (b_n_tokens batch)"
    using base by (auto simp: sbatch_base_def dest: in_set_takeD in_set_dropD)
  have jss: "set ?js \<subseteq> set (seq_slice sb ?s)"
    using L(2) set_take_subset_set_take unfolding seq_slice_def by fast
  have ok: "batch_ok w batch" and sbb: "sb_batch sb = Some batch" "sb_n_embd sb = w"
    and lenids: "length (sb_ids sb) = nat (b_n_tokens batch)"
    using base by (auto simp: sbatch_base_def)
  have room': "m * L + length ?js \<le> cap" using room js by simp
  have "m * 1 \<le> m * L" using L(1) by (intro mult_le_mono2) simp
  then have mcap: "m < cap" using room L(1) by linarith
  have u: "ub_equal_seqs ub" "ub_n_seqs ub = m" "ub_n_tokens ub = m * L" "0 < m \<Longrightarrow> ub_n_seq_tokens ub = L"
    using ub by (auto simp: equal_ubatch_def)
  obtain t where t: "add_tokens batch ?js (ss_offset ?s) ub = Inr (ub\<lparr>ub_token := t\<rparr>)"
    "t = None \<longleftrightarrow> b_token batch = None" "\<forall>arr. t = Some arr \<longrightarrow> length arr = cap"
    "\<forall>i < m * L. map_option (\<lambda>ts. ts ! i) t = map_option (\<lambda>ts. ts ! i) (ub_token ub)"
    "\<forall>j < length ?js. map_option (\<lambda>ts. ts ! (m * L + j)) t = map_option (\<lambda>ts. ts ! (?js ! j)) (b_token batch)"
    using add_tokens_equal[OF ub ok jsN room'] by blast
  let ?u1 = "ub\<lparr>ub_token := t\<rparr>"
  have u1: "equal_ubatch w batch cap m L ?u1" using ub t by (auto simp: equal_ubatch_def)
  obtain e where e: "add_embd w batch ?js (ss_offset ?s) ?u1 = Inr (?u1\<lparr>ub_embd := e\<rparr>)"
    "e = None \<longleftrightarrow> b_embd batch = None" "\<forall>arr. e = Some arr \<longrightarrow> length arr = w * cap"
    "\<forall>i < m * L. map_option (\<lambda>ts. row_at w ts i) e = map_option (\<lambda>ts. row_at w ts i) (ub_embd ?u1)"
    "\<forall>j < length ?js. map_option (\<lambda>ts. row_at w ts (m * L + j)) e = map_option (\<lambda>ts. row_at w ts (?js ! j)) (b_embd batch)"
    using add_embd_equal[OF u1 ok jsN room'] by blast
  let ?u2 = "?u1\<lparr>ub_embd := e\<rparr>"
  have u2: "equal_ubatch w batch cap m L ?u2" using u1 e by (auto simp: equal_ubatch_def)
  obtain p where p: "add_pos batch ?js (ss_offset ?s) ?u2 = Inr (?u2\<lparr>ub_pos := p\<rparr>)" "length p = cap"
    "\<forall>i < m * L. p ! i = ub_pos ?u2 ! i" "\<forall>j < length ?js. p ! (m * L + j) = the (b_pos batch) ! (?js ! j)"
    using add_pos_equal[OF u2 ok jsN room'] by blast
  let ?u3 = "?u2\<lparr>ub_pos := p\<rparr>"
  have u3: "equal_ubatch w batch cap m L ?u3" using u2 p by (auto simp: equal_ubatch_def)
  obtain sq ns where q: "add_seq_ids batch ?s L ?u3 = Inr (?u3\<lparr>ub_n_seq_id := ns, ub_seq_id := sq\<rparr>)"
    "length ns = cap" "length sq = cap" "ns ! m = ss_n_seq_id ?s" "sq ! m = l"
    "\<forall>q < m. ns ! q = ub_n_seq_id ?u3 ! q" "\<forall>q < m. sq ! q = ub_seq_id ?u3 ! q"
    using add_seq_ids_equal[OF u3 mcap l(1)] by blast
  let ?u4 = "?u3\<lparr>ub_n_seq_id := ns, ub_seq_id := sq\<rparr>"
  have u4: "equal_ubatch w batch cap m L ?u4" using u3 q by (auto simp: equal_ubatch_def)
  obtain o' where o: "add_output (sb_logits_all sb) batch (nat (b_n_tokens batch)) ?js (ss_offset ?s) ?u4
      = Inr (?u4\<lparr>ub_output := o'\<rparr>, filter (wants_output (sb_logits_all sb) batch) ?js)"
    "length o' = cap" "\<forall>i < m * L. o' ! i = ub_output ?u4 ! i"
    "\<forall>j < length ?js. o' ! (m * L + j) = output_value (sb_logits_all sb) batch (?js ! j)"
    using add_output_equal[OF u4 ok jsN room'] by blast
  let ?u5 = "?u4\<lparr>ub_output := o'\<rparr>"
  let ?ub' = "?u5\<lparr>ub_n_seq_tokens := L, ub_n_tokens := m * L + L, ub_n_seqs := Suc m\<rparr>"
  have keep: "0 < m \<Longrightarrow> ?u5\<lparr>ub_n_seq_tokens := L\<rparr> = ?u5" using u(4) by simp
  have div: "ss_n_seq_id ?s = 0 \<or> m = 0 \<or> L = ub_n_tokens ub div m" using u(3) by simp
  have sl: "slice_ids (sb_ids sb) (ss_offset ?s) L = Inr ?js" using off L(2) by (simp add: slice_ids_def)
  have "add_seq_to_ubatch ub k L sb = Inr (?ub', take_seq k L sb)"
    using add_seq_steps[OF sbb(1) k refl L(2) div _ u(2) sl t(1) e(1)[folded sbb(2)] p(1) q(1) o(1)[folded lenids], of L] n u
    by (simp add: take_seq_def Let_def sbb(1))
  moreover have "equal_ubatch w batch cap (Suc m) L ?ub'"
    using u4 o(2) q(4,5) l(3) n room by (auto simp: equal_ubatch_def less_Suc_eq)
  moreover have "ubatch_entries w ?ub' = ubatch_entries w ub @ map (batch_entry w (sb_logits_all sb) batch) ?js"
  proof (rule ubatch_entries_snoc)
    fix i assume i: "i < ub_n_tokens ub"
    then have "i div L < m" "0 < m" using u(3) div_below[of i m L] by auto
    then show "ubatch_entry w ?ub' i = ubatch_entry w ub i"
      using i u t(4) e(4) p(3) q(6,7) o(3) by (simp add: ubatch_entry_def Let_def)
  next
    fix j assume j: "j < length ?js"
    then have "(m * L + j) div L = m" using js div_new[of j L m] by simp
    moreover have "?js ! j \<in> set (seq_slice sb ?s)" using j jss by (meson nth_mem subsetD)
    ultimately show "ubatch_entry w ?ub' (ub_n_tokens ub + j) = batch_entry w (sb_logits_all sb) batch (?js ! j)"
      using j u t(5) e(5) p(4) q(4,5) o(4) l(2) output_value_iff
      by (simp add: ubatch_entry_def batch_entry_def Let_def)
  qed (use u js in simp)
  ultimately show ?thesis by blast
qed

section \<open>The contract of a split\<close>

definition entry_of :: "llama_sbatch \<Rightarrow> nat \<Rightarrow> token_entry" where
  "entry_of sb = batch_entry (sb_n_embd sb) (sb_logits_all sb) (the (sb_batch sb))"

text \<open>What is left in an sbatch.\<close>

definition rest :: "llama_sbatch \<Rightarrow> nat multiset" where
  "rest sb = (\<Sum>s \<leftarrow> sb_seq sb. mset (seq_slice sb s))"

definition same_batch :: "llama_sbatch \<Rightarrow> llama_sbatch \<Rightarrow> bool" where
  "same_batch sb sb' \<longleftrightarrow> sb_batch sb' = sb_batch sb \<and> sb_n_embd sb' = sb_n_embd sb \<and> sb_logits_all sb' = sb_logits_all sb
     \<and> sb_ids sb' = sb_ids sb"

text \<open>The shape the KV cache relies on.\<close>

definition ubatch_shape :: "nat \<Rightarrow> llama_ubatch \<Rightarrow> bool" where
  "ubatch_shape w ub \<longleftrightarrow> ub_n_tokens ub = ub_n_seqs ub * ub_n_seq_tokens ub \<and> ub_n_tokens ub \<le> length (ub_output ub)
     \<and> (ub_token ub = None) \<noteq> (ub_embd ub = None)
     \<and> (\<forall>arr. ub_token ub = Some arr \<longrightarrow> ub_n_tokens ub \<le> length arr)
     \<and> (\<forall>arr. ub_embd ub = Some arr \<longrightarrow> w * ub_n_tokens ub \<le> length arr)
     \<and> ub_n_tokens ub \<le> length (ub_pos ub) \<and> ub_n_seqs ub \<le> length (ub_n_seq_id ub) \<and> ub_n_seqs ub \<le> length (ub_seq_id ub)
     \<and> (\<forall>s < ub_n_seqs ub. 1 \<le> ub_n_seq_id ub ! s \<and> ub_n_seq_id ub ! s \<le> int (length (ub_seq_id ub ! s)))"

text \<open>The micro-batch \<open>ub\<close> takes at least one and at most \<open>cap\<close> of the tokens left, and the ids added to
  \<open>out_ids\<close> are the tokens whose output it marks, in its order.\<close>

definition took :: "nat \<Rightarrow> llama_sbatch \<Rightarrow> llama_ubatch \<Rightarrow> llama_sbatch \<Rightarrow> bool" where
  "took cap sb ub sb' \<longleftrightarrow> same_batch sb sb' \<and> ubatch_shape (sb_n_embd sb) ub \<and> 0 < ub_n_tokens ub \<and> ub_n_tokens ub \<le> cap
     \<and> sb_n_tokens sb = ub_n_tokens ub + sb_n_tokens sb'
     \<and> (\<exists>js. rest sb = mset js + rest sb' \<and> ubatch_entries (sb_n_embd sb) ub = map (entry_of sb) js
          \<and> sb_out_ids sb' = sb_out_ids sb @ filter (\<lambda>i. te_output (entry_of sb i)) js)"

lemma same_batch_entry: "same_batch sb sb' \<Longrightarrow> entry_of sb' = entry_of sb"
  by (simp add: same_batch_def entry_of_def)

text \<open>A way to split: as long as tokens are left it takes some of them and keeps its invariant.\<close>

locale batch_splitter =
  fixes split :: "llama_sbatch \<Rightarrow> (llama_ubatch \<times> llama_sbatch) res"
    and inv :: "llama_sbatch \<Rightarrow> bool"
    and cap :: nat
  assumes takes_some: "inv sb \<Longrightarrow> 0 < sb_n_tokens sb \<Longrightarrow> \<exists>ub sb'. split sb = Inr (ub, sb') \<and> inv sb' \<and> took cap sb ub sb'"
    and empties: "inv sb \<Longrightarrow> sb_n_tokens sb = 0 \<Longrightarrow> rest sb = {#}"
begin

lemma all_split:
  "inv sb \<Longrightarrow> sb_n_tokens sb \<le> fuel \<Longrightarrow>
     \<exists>ubs sb'. split_all split fuel sb = Inr (ubs, sb') \<and> inv sb' \<and> sb_n_tokens sb' = 0 \<and> same_batch sb sb'
       \<and> (\<forall>ub \<in> set ubs. ubatch_shape (sb_n_embd sb) ub \<and> 0 < ub_n_tokens ub \<and> ub_n_tokens ub \<le> cap)
       \<and> (\<exists>js. mset js = rest sb \<and> concat (map (ubatch_entries (sb_n_embd sb)) ubs) = map (entry_of sb) js
            \<and> sb_out_ids sb' = sb_out_ids sb @ filter (\<lambda>i. te_output (entry_of sb i)) js)"
proof (induction fuel arbitrary: sb)
  case 0
  then show ?case using empties by (auto simp: same_batch_def)
next
  case (Suc fuel)
  show ?case
  proof (cases "sb_n_tokens sb = 0")
    case True
    then show ?thesis using Suc.prems empties by (auto simp: same_batch_def)
  next
    case False
    then obtain ub sb1 where s: "split sb = Inr (ub, sb1)" "inv sb1" and t: "took cap sb ub sb1"
      using takes_some[OF Suc.prems(1)] by auto
    from t have "sb_n_tokens sb1 \<le> fuel" using Suc.prems(2) by (auto simp: took_def)
    from Suc.IH[OF s(2) this] obtain ubs sb2 js where
      r: "split_all split fuel sb1 = Inr (ubs, sb2)" "inv sb2" "sb_n_tokens sb2 = 0" "same_batch sb1 sb2"
        "\<forall>ub \<in> set ubs. ubatch_shape (sb_n_embd sb1) ub \<and> 0 < ub_n_tokens ub \<and> ub_n_tokens ub \<le> cap"
        "mset js = rest sb1" "concat (map (ubatch_entries (sb_n_embd sb1)) ubs) = map (entry_of sb1) js"
        "sb_out_ids sb2 = sb_out_ids sb1 @ filter (\<lambda>i. te_output (entry_of sb1 i)) js" by blast
    from t obtain js1 where o: "rest sb = mset js1 + rest sb1" "ubatch_entries (sb_n_embd sb) ub = map (entry_of sb) js1"
      "sb_out_ids sb1 = sb_out_ids sb @ filter (\<lambda>i. te_output (entry_of sb i)) js1" by (auto simp: took_def)
    have sb: "same_batch sb sb1" using t by (simp add: took_def)
    have e: "entry_of sb1 = entry_of sb" "sb_n_embd sb1 = sb_n_embd sb"
      using same_batch_entry[OF sb] sb by (simp_all add: same_batch_def)
    show ?thesis
    proof (intro exI[of _ "ub # ubs"] exI[of _ sb2] exI[of _ "js1 @ js"] conjI)
      show "split_all split (Suc fuel) sb = Inr (ub # ubs, sb2)" using False s(1) r(1) by simp
      show "same_batch sb sb2" using sb r(4) by (simp add: same_batch_def)
      show "\<forall>ub \<in> set (ub # ubs). ubatch_shape (sb_n_embd sb) ub \<and> 0 < ub_n_tokens ub \<and> ub_n_tokens ub \<le> cap"
        using r(5) t e(2) by (simp add: took_def)
    qed (use r o e in auto)
  qed
qed

end

section \<open>Splitting by sequence\<close>

text \<open>The invariant of an sbatch between splits.\<close>

definition seqs_inv :: "llama_sbatch \<Rightarrow> bool" where
  "seqs_inv sb \<longleftrightarrow> sbatch_base (sb_n_embd sb) (the (sb_batch sb)) sb
     \<and> (\<forall>s \<in> set (sb_seq sb). seq_fits (the (sb_batch sb)) sb s)
     \<and> (\<Sum>s \<leftarrow> sb_seq sb. ss_length s) = sb_n_tokens sb"

lemma pop_empty_rev_split: "\<exists>es. ss = es @ pop_empty_rev ss \<and> (\<forall>s \<in> set es. ss_length s = 0)"
proof (induction ss)
  case (Cons s ss)
  then obtain es where "ss = es @ pop_empty_rev ss" "\<forall>s \<in> set es. ss_length s = 0" by blast
  then show ?case by (cases "ss_length s = 0") (auto intro!: exI[of _ "s # es"])
qed simp

lemma pop_empty_split: "\<exists>es. ss = pop_empty ss @ es \<and> (\<forall>s \<in> set es. ss_length s = 0)"
proof -
  obtain es where "rev ss = es @ pop_empty_rev (rev ss)" "\<forall>s \<in> set es. ss_length s = 0" using pop_empty_rev_split by blast
  then have "ss = pop_empty ss @ rev es" "\<forall>s \<in> set (rev es). ss_length s = 0"
    unfolding pop_empty_def by (metis rev_append rev_rev_ident, simp)
  then show ?thesis by blast
qed

lemma pop_empty_last: "pop_empty ss \<noteq> [] \<Longrightarrow> 0 < ss_length (last (pop_empty ss))"
proof -
  have "pop_empty_rev ts \<noteq> [] \<Longrightarrow> 0 < ss_length (hd (pop_empty_rev ts))" for ts by (induction ts) auto
  then show "pop_empty ss \<noteq> [] \<Longrightarrow> ?thesis" by (simp add: pop_empty_def last_rev)
qed

lemma sum_list_update_swap:
  fixes f :: "'a \<Rightarrow> 'b::comm_monoid_add"
  shows "k < length xs \<Longrightarrow> sum_list (map f (xs[k := y])) + f (xs ! k) = sum_list (map f xs) + f y"
proof (induction xs arbitrary: k)
  case (Cons x xs)
  show ?case
  proof (cases k)
    case 0
    then show ?thesis by (simp add: ac_simps)
  next
    case (Suc k')
    then have "sum_list (map f (xs[k' := y])) + f (xs ! k') = sum_list (map f xs) + f y" using Cons by simp
    then show ?thesis using Suc by (simp add: add.assoc)
  qed
qed simp

definition popped :: "llama_sbatch \<Rightarrow> llama_sbatch" where
  "popped sb = sb\<lparr>sb_seq := pop_empty (sb_seq sb)\<rparr>"

lemma popped_fields [simp]:
  "sb_batch (popped sb) = sb_batch sb" "sb_n_embd (popped sb) = sb_n_embd sb" "sb_logits_all (popped sb) = sb_logits_all sb"
  "sb_ids (popped sb) = sb_ids sb" "sb_out_ids (popped sb) = sb_out_ids sb" "sb_n_tokens (popped sb) = sb_n_tokens sb"
  "sb_seq (popped sb) = pop_empty (sb_seq sb)" "seq_slice (popped sb) = seq_slice sb" "seq_fits b (popped sb) = seq_fits b sb"
  "sbatch_base w b (popped sb) = sbatch_base w b sb" "entry_of (popped sb) = entry_of sb"
  by (auto simp: popped_def seq_slice_def seq_fits_def sbatch_base_def entry_of_def fun_eq_iff)

lemma popped_inv:
  assumes "seqs_inv sb"
  shows "seqs_inv (popped sb)" "rest (popped sb) = rest sb"
proof -
  obtain es where es: "sb_seq sb = pop_empty (sb_seq sb) @ es" "\<forall>s \<in> set es. ss_length s = 0" using pop_empty_split by blast
  have "sum_list (map ss_length es) = 0" using es(2) by (induction es) auto
  then have "(\<Sum>s \<leftarrow> pop_empty (sb_seq sb). ss_length s) = (\<Sum>s \<leftarrow> sb_seq sb. ss_length s)"
    by (subst (2) es(1)) simp
  moreover have "set (pop_empty (sb_seq sb)) \<subseteq> set (sb_seq sb)" by (subst (2) es(1)) simp
  ultimately show "seqs_inv (popped sb)" using assms by (auto simp: seqs_inv_def)
  have "(\<Sum>s \<leftarrow> es. mset (seq_slice sb s)) = {#}"
    using es(2) by (induction es) (auto simp: seq_slice_def)
  then show "rest (popped sb) = rest sb" unfolding rest_def by (simp, subst (2) es(1)) simp
qed

lemma take_seq_fields [simp]:
  "sb_batch (take_seq k n sb) = sb_batch sb" "sb_n_embd (take_seq k n sb) = sb_n_embd sb"
  "sb_logits_all (take_seq k n sb) = sb_logits_all sb" "sb_ids (take_seq k n sb) = sb_ids sb"
  "sb_n_tokens (take_seq k n sb) = sb_n_tokens sb - n"
  "seq_slice (take_seq k n sb) = seq_slice sb" "seq_fits b (take_seq k n sb) = seq_fits b sb"
  "sbatch_base w b (take_seq k n sb) = sbatch_base w b sb" "entry_of (take_seq k n sb) = entry_of sb"
  "length (sb_seq (take_seq k n sb)) = length (sb_seq sb)"
  by (auto simp: take_seq_def Let_def seq_slice_def seq_fits_def sbatch_base_def entry_of_def fun_eq_iff)

lemma take_seq_seq:
  "sb_seq (take_seq k n sb) = (sb_seq sb)[k := (sb_seq sb ! k)\<lparr>ss_offset := ss_offset (sb_seq sb ! k) + n, ss_length := ss_length (sb_seq sb ! k) - n\<rparr>]"
  by (simp add: take_seq_def Let_def)

lemma te_output_entry: "te_output (entry_of sb i) = wants_output (sb_logits_all sb) (the (sb_batch sb)) i"
  by (simp add: entry_of_def batch_entry_def)

lemma take_seq_inv:
  assumes inv: "seqs_inv sb" and k: "k < length (sb_seq sb)" and n: "n \<le> ss_length (sb_seq sb ! k)"
  shows "seqs_inv (take_seq k n sb)" "sb_n_tokens sb = n + sb_n_tokens (take_seq k n sb)"
    "rest sb = mset (take n (drop (ss_offset (sb_seq sb ! k)) (sb_ids sb))) + rest (take_seq k n sb)"
proof -
  let ?s = "sb_seq sb ! k"
  let ?s' = "?s\<lparr>ss_offset := ss_offset ?s + n, ss_length := ss_length ?s - n\<rparr>"
  let ?js = "take n (drop (ss_offset ?s) (sb_ids sb))"
  have sl: "seq_slice sb ?s = ?js @ seq_slice sb ?s'"
    using take_add[of n "ss_length ?s - n" "drop (ss_offset ?s) (sb_ids sb)"] n by (simp add: seq_slice_def add.commute)
  have len: "(\<Sum>s \<leftarrow> (sb_seq sb)[k := ?s']. ss_length s) + ss_length ?s = (\<Sum>s \<leftarrow> sb_seq sb. ss_length s) + ss_length ?s'"
    by (rule sum_list_update_swap[OF k])
  then show t: "sb_n_tokens sb = n + sb_n_tokens (take_seq k n sb)" using inv n by (simp add: seqs_inv_def)
  have "seq_fits (the (sb_batch sb)) sb ?s" using inv k by (simp add: seqs_inv_def)
  then have "seq_fits (the (sb_batch sb)) sb ?s'" using n sl by (auto simp: seq_fits_def)
  then have "\<forall>x \<in> set ((sb_seq sb)[k := ?s']). seq_fits (the (sb_batch sb)) sb x"
    using inv set_update_subset_insert[of "sb_seq sb" k ?s'] unfolding seqs_inv_def by blast
  moreover have "(\<Sum>s \<leftarrow> (sb_seq sb)[k := ?s']. ss_length s) = sb_n_tokens sb - n" using len inv n by (simp add: seqs_inv_def)
  ultimately show "seqs_inv (take_seq k n sb)" using inv unfolding seqs_inv_def take_seq_seq take_seq_fields by blast
  have "rest (take_seq k n sb) + mset (seq_slice sb ?s) = rest sb + mset (seq_slice sb ?s')"
    unfolding rest_def take_seq_seq by (simp, rule sum_list_update_swap[OF k, where y = ?s'])
  then show "rest sb = mset ?js + rest (take_seq k n sb)" unfolding sl by (simp add: add.commute)
qed

lemma take_seq_outs:
  "sb_out_ids (take_seq k n sb) = sb_out_ids sb
     @ filter (\<lambda>i. te_output (entry_of sb i)) (take n (drop (ss_offset (sb_seq sb ! k)) (sb_ids sb)))"
  by (simp add: take_seq_def Let_def te_output_entry)

lemma start_split_ok:
  assumes "seqs_inv sb" "n = (if sb_n_tokens sb < c then sb_n_tokens sb else c)"
  shows "\<exists>ub. start_split c sb = Inr (n, ub, popped sb) \<and> equal_ubatch (sb_n_embd sb) (the (sb_batch sb)) n 0 L ub
    \<and> ubatch_entries (sb_n_embd sb) ub = []"
proof -
  obtain batch where b: "sb_batch sb = Some batch" "batch_ok (sb_n_embd sb) batch"
    using assms(1) by (auto simp: seqs_inv_def sbatch_base_def)
  then show ?thesis using assms(2)
    by (auto simp: start_split_def Let_def deref_def reserve_ubatch_def popped_def equal_ubatch_def ubatch_entries_def batch_ok_def)
qed

lemma nonempty_popped:
  assumes "seqs_inv sb" "0 < sb_n_tokens sb"
  shows "pop_empty (sb_seq sb) \<noteq> []"
proof
  assume "pop_empty (sb_seq sb) = []"
  then have "sb_n_tokens (popped sb) = 0" using popped_inv(1)[OF assms(1)] by (simp add: seqs_inv_def)
  then show False using assms(2) by simp
qed

lemma took_step:
  assumes "seqs_inv sb" "k < length (sb_seq sb)" "0 < L" "L \<le> ss_length (sb_seq sb ! k)"
    "equal_ubatch (sb_n_embd sb) (the (sb_batch sb)) cap m L ub" "m * L + L \<le> cap"
  shows "\<exists>ub'. add_seq_to_ubatch ub k L sb = Inr (ub', take_seq k L sb)
    \<and> equal_ubatch (sb_n_embd sb) (the (sb_batch sb)) cap (Suc m) L ub'
    \<and> ubatch_entries (sb_n_embd sb) ub' = ubatch_entries (sb_n_embd sb) ub
        @ map (entry_of sb) (take L (drop (ss_offset (sb_seq sb ! k)) (sb_ids sb)))"
  using add_seq_equal[OF _ assms(5,2) _ assms(3,4,6)] assms(1,2) by (simp add: seqs_inv_def entry_of_def)

lemma seqs_batch_ok: "seqs_inv sb \<Longrightarrow> batch_ok (sb_n_embd sb) (the (sb_batch sb))"
  by (simp add: seqs_inv_def sbatch_base_def)

lemma equal_ubatch_shape:
  assumes "equal_ubatch w batch cap (Suc m) L ub" "0 < L" "batch_ok w batch"
  shows "ubatch_shape w ub"
proof -
  have c: "Suc m * L \<le> cap" using assms(1) by (simp add: equal_ubatch_def)
  moreover have "Suc m * 1 \<le> Suc m * L" using assms(2) by (intro mult_le_mono2) simp
  ultimately have "Suc m \<le> cap" by (metis mult.right_neutral order_trans)
  moreover have "w * (Suc m * L) \<le> w * cap" using c by (rule mult_le_mono2)
  ultimately show ?thesis using assms c by (simp add: equal_ubatch_def ubatch_shape_def batch_ok_def Let_def)
qed

lemma split_seq_takes:
  assumes inv: "seqs_inv sb" and t: "0 < sb_n_tokens sb" and c: "0 < c"
  shows "\<exists>ub sb'. split_seq c sb = Inr (ub, sb') \<and> seqs_inv sb' \<and> took c sb ub sb'"
proof -
  let ?sb = "popped sb" and ?n = "if sb_n_tokens sb < c then sb_n_tokens sb else c"
  let ?k = "length (sb_seq ?sb) - 1"
  let ?s = "sb_seq ?sb ! ?k"
  let ?L = "if ss_length ?s < ?n then ss_length ?s else ?n"
  have ne: "sb_seq ?sb \<noteq> []" using nonempty_popped[OF inv t] by simp
  then have k: "?k < length (sb_seq ?sb)" by simp
  have pos: "0 < ss_length ?s" using pop_empty_last ne by (simp add: last_conv_nth)
  have L: "0 < ?L" "?L \<le> ss_length ?s" "?L \<le> ?n" using pos t c by auto
  obtain ub where ub: "start_split c sb = Inr (?n, ub, ?sb)" "equal_ubatch (sb_n_embd sb) (the (sb_batch sb)) ?n 0 ?L ub"
    "ubatch_entries (sb_n_embd sb) ub = []" using start_split_ok[OF inv refl] by blast
  obtain ub' where ub': "add_seq_to_ubatch ub ?k ?L ?sb = Inr (ub', take_seq ?k ?L ?sb)"
    "equal_ubatch (sb_n_embd sb) (the (sb_batch sb)) ?n (Suc 0) ?L ub'"
    "ubatch_entries (sb_n_embd sb) ub' = map (entry_of sb) (take ?L (drop (ss_offset ?s) (sb_ids sb)))"
    using took_step[OF popped_inv(1)[OF inv] k L(1,2), of ?n 0 ub] ub L(3) by auto
  have "0 < ss_n_seq_id ?s" using popped_inv(1)[OF inv] k by (auto simp: seqs_inv_def seq_fits_def simp del: popped_fields)
  then have r: "split_seq c sb = Inr (ub', take_seq ?k ?L ?sb)"
    unfolding split_seq_def ub(1) bind_res_simps prod.case Let_def using ne ub'(1) by (simp only: if_False ggml_assert_True bind_res_simps)
  note ts = take_seq_inv[OF popped_inv(1)[OF inv] k L(2)]
  have n: "ub_n_tokens ub' = ?L" using ub'(2) by (simp add: equal_ubatch_def)
  have "took c sb ub' (take_seq ?k ?L ?sb)" unfolding took_def n
  proof (intro conjI exI[of _ "take ?L (drop (ss_offset ?s) (sb_ids sb))"])
    show "rest sb = mset (take ?L (drop (ss_offset ?s) (sb_ids sb))) + rest (take_seq ?k ?L ?sb)"
      using ts(3) unfolding popped_inv(2)[OF inv] by (simp only: popped_fields)
    show "sb_out_ids (take_seq ?k ?L ?sb) = sb_out_ids sb
        @ filter (\<lambda>i. te_output (entry_of sb i)) (take ?L (drop (ss_offset ?s) (sb_ids sb)))"
      using take_seq_outs[of ?k ?L ?sb] by (simp only: popped_fields)
    show "sb_n_tokens sb = ?L + sb_n_tokens (take_seq ?k ?L ?sb)" using ts(2) by (simp only: popped_fields)
    show "?L \<le> c" using L(3) by (rule order_trans) simp
  qed (use L(1) ub'(3) equal_ubatch_shape[OF ub'(2) L(1)] seqs_batch_ok[OF inv] in \<open>simp_all add: same_batch_def\<close>)
  then show ?thesis using r ts(1) by blast
qed

lemma seqs_inv_done: "seqs_inv sb \<Longrightarrow> sb_n_tokens sb = 0 \<Longrightarrow> rest sb = {#}"
proof -
  assume inv: "seqs_inv sb" "sb_n_tokens sb = 0"
  then have "pop_empty (sb_seq sb) = []" using popped_inv(1)[OF inv(1)] pop_empty_last[of "sb_seq sb"]
    by (cases "pop_empty (sb_seq sb)" rule: rev_cases) (auto simp: seqs_inv_def)
  then show ?thesis using popped_inv(2)[OF inv(1)] by (simp add: rest_def)
qed

interpretation by_seq: batch_splitter "split_seq (Suc c)" seqs_inv "Suc c" for c
  by unfold_locales (rule split_seq_takes, assumption+, simp, rule seqs_inv_done, assumption+)

section \<open>Splitting into sequences of equal length\<close>

text \<open>The order \<open>from_batch\<close> gives the sequences: few sequence ids first, then long ones first. Sequences
  of one id behind a position are at most as long as the one there, and empty ones are at the end.\<close>

definition seq_order :: "llama_sbatch_seq list \<Rightarrow> bool" where
  "seq_order ss \<longleftrightarrow> sorted_wrt (\<lambda>a b. \<not> less_seq b a) ss \<and> sorted_wrt (\<lambda>a b. ss_length a = 0 \<longrightarrow> ss_length b = 0) ss"

definition equal_inv :: "llama_sbatch \<Rightarrow> bool" where
  "equal_inv sb \<longleftrightarrow> seqs_inv sb \<and> seq_order (sb_seq sb)"

text \<open>What a step of the loop moves from the sbatch to the micro-batch: the tokens \<open>js\<close>.\<close>

definition moves :: "nat list \<Rightarrow> llama_ubatch \<times> llama_sbatch \<Rightarrow> llama_ubatch \<times> llama_sbatch \<Rightarrow> bool" where
  "moves js a b \<longleftrightarrow> (case a of (ub, sb) \<Rightarrow> case b of (ub', sb') \<Rightarrow> same_batch sb sb'
     \<and> ubatch_entries (sb_n_embd sb) ub' = ubatch_entries (sb_n_embd sb) ub @ map (entry_of sb) js
     \<and> rest sb = mset js + rest sb' \<and> sb_n_tokens sb = length js + sb_n_tokens sb'
     \<and> sb_out_ids sb' = sb_out_ids sb @ filter (\<lambda>i. te_output (entry_of sb i)) js)"

lemma moves_trans: "moves js a b \<Longrightarrow> moves ks b c \<Longrightarrow> moves (js @ ks) a c"
  by (cases a; cases b; cases c) (auto simp: moves_def same_batch_def entry_of_def)

lemma moves_step:
  assumes "seqs_inv sb" "k < length (sb_seq sb)" "0 < L" "L \<le> ss_length (sb_seq sb ! k)"
    "equal_ubatch (sb_n_embd sb) (the (sb_batch sb)) cap m L ub" "m * L + L \<le> cap"
  obtains ub' js where "add_seq_to_ubatch ub k L sb = Inr (ub', take_seq k L sb)" "moves js (ub, sb) (ub', take_seq k L sb)"
    "equal_ubatch (sb_n_embd sb) (the (sb_batch sb)) cap (Suc m) L ub'" "seqs_inv (take_seq k L sb)"
proof -
  let ?js = "take L (drop (ss_offset (sb_seq sb ! k)) (sb_ids sb))"
  obtain ub' where ub': "add_seq_to_ubatch ub k L sb = Inr (ub', take_seq k L sb)"
    "equal_ubatch (sb_n_embd sb) (the (sb_batch sb)) cap (Suc m) L ub'"
    "ubatch_entries (sb_n_embd sb) ub' = ubatch_entries (sb_n_embd sb) ub @ map (entry_of sb) ?js"
    using took_step[OF assms] by blast
  note t = take_seq_inv[OF assms(1,2,4)]
  have "seq_fits (the (sb_batch sb)) sb (sb_seq sb ! k)" using assms(1,2) by (simp add: seqs_inv_def)
  then have "length ?js = L" using assms(4) by (auto simp: seq_fits_def)
  moreover note take_seq_outs[of k L sb]
  moreover have "same_batch sb (take_seq k L sb)" by (simp add: same_batch_def)
  ultimately have "moves ?js (ub, sb) (ub', take_seq k L sb)"
    using t(2,3) ub'(3) unfolding moves_def prod.case by presburger
  then show ?thesis using that ub'(1,2) t(1) by blast
qed

definition shrink :: "nat \<Rightarrow> llama_sbatch_seq \<Rightarrow> llama_sbatch_seq" where
  "shrink L s = s\<lparr>ss_offset := ss_offset s + L, ss_length := ss_length s - L\<rparr>"

lemma shrunk_update:
  "k < length xs \<Longrightarrow> (take (Suc k) xs @ map (shrink L) (drop (Suc k) xs))[k := shrink L (xs ! k)] = take k xs @ map (shrink L) (drop k xs)"
  by (rule nth_equalityI) (auto simp: nth_append nth_list_update)

lemma equal_loop_moves:
  assumes xs: "\<forall>s \<in> set xs. ss_n_seq_id s = 1 \<and> L \<le> ss_length s \<and> 0 < ss_length s" and L: "0 < L"
  shows "i < length xs \<Longrightarrow> sb_seq sb = take i xs @ map (shrink L) (drop i xs) \<Longrightarrow> seqs_inv sb
    \<Longrightarrow> m = length xs - i \<Longrightarrow> equal_ubatch (sb_n_embd sb) (the (sb_batch sb)) cap m L ub \<Longrightarrow> m * L + L \<le> cap
    \<Longrightarrow> \<exists>ub' sb' js i'. equal_loop cap i L (m * L) ub sb = Inr (ub', sb') \<and> moves js (ub, sb) (ub', sb') \<and> seqs_inv sb'
        \<and> i' \<le> i \<and> sb_seq sb' = take i' xs @ map (shrink L) (drop i' xs)
        \<and> equal_ubatch (sb_n_embd sb) (the (sb_batch sb)) cap (length xs - i') L ub'"
proof (induction i arbitrary: sb ub m)
  case 0
  have "moves [] (ub, sb) (ub, sb)" by (simp add: moves_def same_batch_def)
  then show ?case using 0 by fastforce
next
  case (Suc i)
  have i: "i < length (sb_seq sb)" "sb_seq sb ! i = xs ! i" "xs ! i \<in> set xs"
    using Suc.prems(1,2) by (auto simp: nth_append)
  then have s: "ss_n_seq_id (xs ! i) = 1" "L \<le> ss_length (xs ! i)" "0 < ss_length (xs ! i)" using xs by auto
  obtain ub1 js where st: "add_seq_to_ubatch ub i L sb = Inr (ub1, take_seq i L sb)" "moves js (ub, sb) (ub1, take_seq i L sb)"
    "equal_ubatch (sb_n_embd sb) (the (sb_batch sb)) cap (Suc m) L ub1" "seqs_inv (take_seq i L sb)"
    using moves_step[OF Suc.prems(3) i(1) L _ Suc.prems(5,6)] s(2) i(2) by metis
  have sq: "sb_seq (take_seq i L sb) = take i xs @ map (shrink L) (drop i xs)"
  proof -
    have "sb_seq (take_seq i L sb) = (sb_seq sb)[i := shrink L (xs ! i)]" by (simp only: take_seq_seq i(2) shrink_def)
    also have "\<dots> = take i xs @ map (shrink L) (drop i xs)"
      unfolding Suc.prems(2) by (rule shrunk_update) (use Suc.prems(1) in simp)
    finally show ?thesis .
  qed
  have m: "Suc m = length xs - i" using Suc.prems(1,4) by simp
  have idx: "index_res (sb_seq sb) i = Inr (xs ! i)" using i by (simp add: index_res_def)
  have eq: "equal_loop cap (Suc i) L (m * L) ub sb
      = (if L + (m * L + L) > cap then Inr (ub1, take_seq i L sb) else equal_loop cap i L (Suc m * L) ub1 (take_seq i L sb))"
    using s L by (simp add: idx st(1) add.commute)
  show ?case
  proof (cases "L + (m * L + L) > cap")
    case True
    then show ?thesis using eq st sq m by (intro exI[of _ ub1] exI[of _ "take_seq i L sb"] exI[of _ js] exI[of _ i]) simp
  next
    case False
    have "i < length xs" using Suc.prems(1) by simp
    note IH = Suc.IH[OF this sq st(4) m]
    have "equal_ubatch (sb_n_embd (take_seq i L sb)) (the (sb_batch (take_seq i L sb))) cap (Suc m) L ub1"
      using st(3) by simp
    moreover have "Suc m * L + L \<le> cap" using False by (simp add: algebra_simps)
    ultimately obtain ub' sb' ks i' where r: "equal_loop cap i L (Suc m * L) ub1 (take_seq i L sb) = Inr (ub', sb')"
      "moves ks (ub1, take_seq i L sb) (ub', sb')" "seqs_inv sb'" "i' \<le> i" "sb_seq sb' = take i' xs @ map (shrink L) (drop i' xs)"
      "equal_ubatch (sb_n_embd sb) (the (sb_batch sb)) cap (length xs - i') L ub'"
      using IH unfolding take_seq_fields by blast
    have "equal_loop cap (Suc i) L (m * L) ub sb = Inr (ub', sb')" using eq False r(1) by (simp only: if_False)
    then show ?thesis using moves_trans[OF st(2) r(2)] r(3-6) le_SucI by blast
  qed
qed

lemma moves_took:
  assumes "moves js (ub0, sb) (ub, sb')" "ubatch_entries (sb_n_embd sb) ub0 = []" "ubatch_shape (sb_n_embd sb) ub"
    "0 < ub_n_tokens ub" "ub_n_tokens ub \<le> cap"
  shows "took cap sb ub sb'"
proof -
  have e: "ubatch_entries (sb_n_embd sb) ub = map (entry_of sb) js" using assms(1,2) by (simp add: moves_def)
  then have "ub_n_tokens ub = length js" by (metis length_map length_upt diff_zero ubatch_entries_def)
  then show ?thesis using assms e unfolding took_def moves_def prod.case
    by (auto simp: filter_map comp_def)
qed

lemma seq_order_pop:
  assumes "seq_order ss"
  shows "seq_order (pop_empty ss)" "\<forall>s \<in> set (pop_empty ss). 0 < ss_length s"
proof -
  obtain es where es: "ss = pop_empty ss @ es" using pop_empty_split by blast
  show o: "seq_order (pop_empty ss)"
    using assms unfolding seq_order_def by (subst (asm) (1 2) es) (simp add: sorted_wrt_append)
  show "\<forall>s \<in> set (pop_empty ss). 0 < ss_length s"
  proof (rule ccontr)
    let ?ps = "pop_empty ss"
    assume "\<not> (\<forall>s \<in> set ?ps. 0 < ss_length s)"
    then obtain j where j: "j < length ?ps" "ss_length (?ps ! j) = 0" by (auto simp: in_set_conv_nth)
    then have ne: "?ps \<noteq> []" by auto
    have "ss_length (last ?ps) = 0"
    proof (cases "j = length ?ps - 1")
      case True
      then show ?thesis using j ne by (simp add: last_conv_nth)
    next
      case False
      then have "j < length ?ps - 1" "length ?ps - 1 < length ?ps" using j(1) ne by auto
      then show ?thesis using o j(2) ne unfolding seq_order_def sorted_wrt_iff_nth_less by (metis last_conv_nth)
    qed
    then show False using pop_empty_last[OF ne] by simp
  qed
qed

text \<open>After the loop the sequences are in order again.\<close>

lemma seq_order_shrunk:
  assumes "seq_order xs" "\<forall>s \<in> set xs. 0 < ss_length s" "i = length xs - 1 \<or> (\<forall>s \<in> set xs. ss_n_seq_id s = 1)"
  shows "seq_order (take i xs @ map (shrink L) (drop i xs))"
proof -
  have o: "\<not> less_seq (xs ! b) (xs ! a)" if "a < b" "b < length xs" for a b
    using assms(1) that unfolding seq_order_def sorted_wrt_iff_nth_less by blast
  have one: "ss_n_seq_id (xs ! a) = 1 \<and> ss_n_seq_id (xs ! b) = 1" if "i \<le> a" "a < b" "b < length xs" for a b
    using assms(3) that by auto
  have len: "0 < ss_length (xs ! a)" if "a < length xs" for a using assms(2) that by simp
  let ?ys = "take i xs @ map (shrink L) (drop i xs)"
  have y: "?ys ! a = (if a < i then xs ! a else shrink L (xs ! a))" if "a < length xs" for a
    using that by (auto simp: nth_append)
  have "\<not> less_seq (?ys ! b) (?ys ! a) \<and> (ss_length (?ys ! a) = 0 \<longrightarrow> ss_length (?ys ! b) = 0)"
    if ab: "a < b" "b < length xs" for a b
  proof (cases "i \<le> a")
    case True
    then show ?thesis using o[OF ab] one[OF True ab] ab y[of a] y[of b] by (auto simp: less_seq_def shrink_def)
  next
    case False
    then show ?thesis using o[OF ab] len[of a] ab y[of a] y[of b] by (auto simp: less_seq_def shrink_def)
  qed
  then show ?thesis unfolding seq_order_def sorted_wrt_iff_nth_less by simp
qed

lemma last_decides:
  assumes "seq_order xs" "xs \<noteq> []" "\<forall>s \<in> set xs. 0 < ss_n_seq_id s" "\<not> 1 < ss_n_seq_id (last xs)" "s \<in> set xs"
  shows "ss_n_seq_id s = 1" "ss_length (last xs) \<le> ss_length s"
proof -
  obtain j where j: "j < length xs" "s = xs ! j" using assms(5) by (auto simp: in_set_conv_nth)
  have "\<not> less_seq (last xs) s \<or> s = last xs"
  proof (cases "j = length xs - 1")
    case False
    then have "j < length xs - 1" using j(1) by simp
    then show ?thesis using assms(1,2) j unfolding seq_order_def sorted_wrt_iff_nth_less by (simp add: last_conv_nth)
  qed (use j assms(2) in \<open>simp add: last_conv_nth\<close>)
  moreover have "0 < ss_n_seq_id s" "0 < ss_n_seq_id (last xs)" using assms(2,3,5) by auto
  ultimately show "ss_n_seq_id s = 1" "ss_length (last xs) \<le> ss_length s"
    using assms(4) by (auto simp: less_seq_def split: if_splits)
qed

lemma equal_run:
  assumes inv: "seqs_inv sb" and xs: "sb_seq sb = xs" "xs \<noteq> []" "seq_order xs" "\<forall>s \<in> set xs. 0 < ss_length s"
    and L: "L = (if ss_length (last xs) < n then ss_length (last xs) else n)" "0 < n"
    and ub: "equal_ubatch (sb_n_embd sb) (the (sb_batch sb)) n 0 L ub"
  shows "\<exists>ub' sb' ks i. equal_loop n (length xs) 0 0 ub sb = Inr (ub', sb') \<and> moves ks (ub, sb) (ub', sb') \<and> seqs_inv sb'
    \<and> seq_order (sb_seq sb') \<and> i < length xs \<and> equal_ubatch (sb_n_embd sb) (the (sb_batch sb)) n (length xs - i) L ub'"
proof -
  obtain k where k: "length xs = Suc k" using xs(2) by (cases xs) auto
  then have s: "xs ! k = last xs" using xs(2) by (simp add: last_conv_nth)
  have npos: "\<forall>s \<in> set xs. 0 < ss_n_seq_id s" using inv xs(1) by (auto simp: seqs_inv_def seq_fits_def)
  have pos: "0 < ss_length (last xs)" using xs(2,4) by simp
  then have L0: "0 < L" "L \<le> ss_length (last xs)" "L \<le> n" using L by auto
  have kl: "k < length (sb_seq sb)" using k xs(1) by simp
  obtain ub1 js where st: "add_seq_to_ubatch ub k L sb = Inr (ub1, take_seq k L sb)"
    "moves js (ub, sb) (ub1, take_seq k L sb)" "equal_ubatch (sb_n_embd sb) (the (sb_batch sb)) n (Suc 0) L ub1"
    "seqs_inv (take_seq k L sb)"
    using moves_step[OF inv kl L0(1) _ ub] L0(2,3) xs(1) s by auto
  have sq: "sb_seq (take_seq k L sb) = take k xs @ map (shrink L) (drop k xs)"
    using shrunk_update[of k xs L] k xs(1) by (simp add: take_seq_seq shrink_def)
  have idx: "index_res (sb_seq sb) k = Inr (last xs)" using k s xs(1) by (simp add: index_res_def)
  have loop: "equal_loop n (Suc k) 0 0 ub sb
      = (if 1 < ss_n_seq_id (last xs) \<or> L + L > n then Inr (ub1, take_seq k L sb)
         else equal_loop n k L (1 * L) ub1 (take_seq k L sb))"
    using pos L(1) by (simp add: idx st(1) Let_def flip: L(1))
  show ?thesis
  proof (cases "1 < ss_n_seq_id (last xs) \<or> L + L > n")
    case True
    have "seq_order (sb_seq (take_seq k L sb))"
      unfolding sq by (rule seq_order_shrunk[OF xs(3,4)]) (use k in simp)
    then show ?thesis unfolding k using loop True st
      by (intro exI[of _ ub1] exI[of _ "take_seq k L sb"] exI[of _ js] exI[of _ k]) simp
  next
    case False
    then have one: "\<forall>s \<in> set xs. ss_n_seq_id s = 1 \<and> L \<le> ss_length s \<and> 0 < ss_length s"
      using last_decides[OF xs(3,2) npos] L0(2) xs(4) by fastforce
    have "equal_ubatch (sb_n_embd (take_seq k L sb)) (the (sb_batch (take_seq k L sb))) n 1 L ub1" using st(3) by simp
    moreover have "1 * L + L \<le> n" "1 = length xs - k" using False k by simp_all
    ultimately obtain ub' sb' ks i where r: "equal_loop n k L (1 * L) ub1 (take_seq k L sb) = Inr (ub', sb')"
      "moves ks (ub1, take_seq k L sb) (ub', sb')" "seqs_inv sb'" "i \<le> k" "sb_seq sb' = take i xs @ map (shrink L) (drop i xs)"
      "equal_ubatch (sb_n_embd sb) (the (sb_batch sb)) n (length xs - i) L ub'"
      using equal_loop_moves[OF one L0(1), of k "take_seq k L sb" 1 n ub1] sq st(4) kl xs(1) unfolding take_seq_fields by blast
    have "seq_order (sb_seq sb')"
      unfolding r(5) by (rule seq_order_shrunk[OF xs(3,4)]) (use one in blast)
    then show ?thesis unfolding k using loop False r k moves_trans[OF st(2) r(2)]
      by (intro exI[of _ ub'] exI[of _ sb'] exI[of _ "js @ ks"] exI[of _ i]) simp
  qed
qed

lemma split_equal_takes:
  assumes inv: "equal_inv sb" and t: "0 < sb_n_tokens sb" and c: "0 < c"
  shows "\<exists>ub sb'. split_equal c sb = Inr (ub, sb') \<and> equal_inv sb' \<and> took c sb ub sb'"
proof -
  define n where "n = (if sb_n_tokens sb < c then sb_n_tokens sb else c)"
  define xs where "xs = sb_seq (popped sb)"
  define L where "L = (if ss_length (last xs) < n then ss_length (last xs) else n)"
  have sinv: "seqs_inv sb" and o: "seq_order xs" "\<forall>s \<in> set xs. 0 < ss_length s"
    using inv seq_order_pop by (auto simp: equal_inv_def xs_def)
  have ne: "xs \<noteq> []" using nonempty_popped[OF sinv t] by (simp add: xs_def)
  have n: "0 < n" "n \<le> c" using t c by (auto simp: n_def)
  then have L0: "0 < L" "L \<le> n" using o(2) ne by (auto simp: L_def)
  obtain ub where ub: "start_split c sb = Inr (n, ub, popped sb)" "equal_ubatch (sb_n_embd sb) (the (sb_batch sb)) n 0 L ub"
    "ubatch_entries (sb_n_embd sb) ub = []" using start_split_ok[OF sinv n_def] by blast
  then have "equal_ubatch (sb_n_embd (popped sb)) (the (sb_batch (popped sb))) n 0 L ub" by simp
  from equal_run[OF popped_inv(1)[OF sinv] xs_def[symmetric] ne o L_def n(1) this] obtain ub' sb' ks i where
    r: "equal_loop n (length xs) 0 0 ub (popped sb) = Inr (ub', sb')" "moves ks (ub, popped sb) (ub', sb')" "seqs_inv sb'"
      "seq_order (sb_seq sb')" "i < length xs" "equal_ubatch (sb_n_embd sb) (the (sb_batch sb)) n (length xs - i) L ub'"
    unfolding popped_fields by blast
  obtain s ss where xs: "xs = s # ss" using ne by (cases xs) auto
  have "0 < ss_n_seq_id s" using popped_inv(1)[OF sinv] xs by (auto simp: seqs_inv_def seq_fits_def xs_def)
  then have "split_equal c sb = Inr (ub', sb')"
    unfolding split_equal_def ub(1) bind_res_simps prod.case xs_def[symmetric] using r(1) xs by (simp only: list.case ggml_assert_True bind_res_simps)
  moreover have "moves ks (ub, sb) (ub', sb')" using r(2) popped_inv(2)[OF sinv] by (simp add: moves_def same_batch_def)
  moreover obtain m where m: "length xs - i = Suc m" using r(5) by (metis Suc_diff_Suc)
  moreover have "ub_n_tokens ub' = Suc m * L" using r(6) m by (simp add: equal_ubatch_def)
  moreover have "ub_n_tokens ub' \<le> n" using r(6) by (simp add: equal_ubatch_def)
  ultimately show ?thesis
    using moves_took[of ks ub sb ub' sb' c] ub(3) equal_ubatch_shape[OF _ _ seqs_batch_ok[OF sinv]] r(3,4,6) L0 n by (auto simp: equal_inv_def)
qed

interpretation equal_len: batch_splitter "split_equal (Suc c)" equal_inv "Suc c" for c
proof unfold_locales
  show "equal_inv sb \<Longrightarrow> 0 < sb_n_tokens sb \<Longrightarrow> \<exists>ub sb'. split_equal (Suc c) sb = Inr (ub, sb') \<and> equal_inv sb' \<and> took (Suc c) sb ub sb'" for sb
    by (rule split_equal_takes) simp_all
  show "equal_inv sb \<Longrightarrow> sb_n_tokens sb = 0 \<Longrightarrow> rest sb = {#}" for sb
    by (rule seqs_inv_done) (simp_all add: equal_inv_def)
qed

section \<open>The simple split\<close>

text \<open>One sequence, of no id, that is what is left of the batch in its own order.\<close>

definition simple_inv :: "llama_sbatch \<Rightarrow> bool" where
  "simple_inv sb \<longleftrightarrow> sbatch_base (sb_n_embd sb) (the (sb_batch sb)) sb \<and> sb_ids sb = [0..<length (sb_ids sb)]
     \<and> (if sb_seq sb = [] then sb_n_tokens sb = 0
        else \<exists>s. sb_seq sb = [s] \<and> ss_n_seq_id s = 0 \<and> ss_length s = sb_n_tokens sb
               \<and> ss_offset s + ss_length s = length (sb_ids sb))"

lemma batch_arrays:
  assumes "batch_ok w batch"
  obtains ps ns sq where "b_pos batch = Some ps" "length ps = nat (b_n_tokens batch)" "b_n_seq_id batch = Some ns"
      "length ns = nat (b_n_tokens batch)" "b_seq_id batch = Some sq" "length sq = nat (b_n_tokens batch)"
      "\<forall>i < nat (b_n_tokens batch). 1 \<le> ns ! i \<and> ns ! i \<le> int (length (sq ! i))"
proof -
  obtain ps ns sq where a: "b_pos batch = Some ps" "length ps = nat (b_n_tokens batch)" "b_n_seq_id batch = Some ns"
      "length ns = nat (b_n_tokens batch)" "\<forall>k \<in> set ns. 0 < k" "b_seq_id batch = Some sq" "length sq = nat (b_n_tokens batch)"
      "\<forall>i < nat (b_n_tokens batch). the (b_n_seq_id batch) ! i \<le> int (length (sq ! i))"
    using assms unfolding batch_ok_def Let_def by blast
  have "1 \<le> ns ! i" if "i < nat (b_n_tokens batch)" for i
    using a(5) nth_mem[of i ns] a(4) that by fastforce
  then show ?thesis using a by (intro that[of ps ns sq]) auto
qed

lemma filter_wants_shift:
  "map (\<lambda>i. off + i) (filter (\<lambda>i. P (off + i)) [0..<n]) = filter P [off..<off + n]"
  by (induction n) auto

lemma add_output_simple:
  assumes ok: "batch_ok w batch" and off: "off + n \<le> nat (b_n_tokens batch)"
    and ub: "\<not> ub_equal_seqs ub" "ub_n_tokens ub = 0" "length (ub_output ub) = n"
  obtains p where "add_output la batch (nat (b_n_tokens batch)) [off..<off + n] off ub
      = Inr (ub\<lparr>ub_output := p\<rparr>, filter (wants_output la batch) [off..<off + n])"
    and "\<forall>j < n. (p ! j \<noteq> 0) = wants_output la batch (off + j)" and "n \<le> length p"
proof (cases "la \<or> b_logits batch = None")
  case True
  let ?vs = "map (output_value la batch) [off..<off + n]"
  have w: "write_at 0 ?vs (ub_output ub) = Inr ?vs" using ub(3) by (simp add: write_at_def)
  have vs: "(if la then replicate n 1 else map (\<lambda>i. of_bool (i + 1 = nat (b_n_tokens batch))) [off..<off + n]) = ?vs"
    using True by (auto simp: output_value_def intro!: nth_equalityI)
  have "add_output la batch (nat (b_n_tokens batch)) [off..<off + n] off ub
      = bind_res (write_at 0 ?vs (ub_output ub)) (\<lambda>arr'. Inr (ub\<lparr>ub_output := arr'\<rparr>,
          map fst (filter (\<lambda>(i, v). v \<noteq> 0) (zip [off..<off + n] ?vs))))"
    using True ub(2) by (auto simp: add_output_def Let_def simp flip: vs)
  then show ?thesis using w by (intro that[of ?vs]) (simp_all add: filter_zip_map output_value_iff)
next
  case False
  then obtain ls where ls: "b_logits batch = Some ls" "\<not> la" by auto
  have len: "length ls = nat (b_n_tokens batch)" using ok ls by (auto simp: batch_ok_def Let_def)
  have wants: "wants_output la batch i = (ls ! i \<noteq> 0)" for i using ls by (simp add: wants_output_def)
  have "filter (\<lambda>i. drop off ls ! i \<noteq> 0) [0..<n] = filter (\<lambda>i. wants_output la batch (off + i)) [0..<n]"
    using off len wants by (intro filter_cong) auto
  then have "map (\<lambda>i. off + i) (filter (\<lambda>i. drop off ls ! i \<noteq> 0) [0..<n]) = filter (wants_output la batch) [off..<off + n]"
    by (simp only: filter_wants_shift)
  moreover have "advance_ptr off ls = Inr (drop off ls)" "n \<le> length (drop off ls)" using off len by (simp_all add: advance_ptr_def)
  ultimately have "add_output la batch (nat (b_n_tokens batch)) [off..<off + n] off ub
      = Inr (ub\<lparr>ub_output := drop off ls\<rparr>, filter (wants_output la batch) [off..<off + n])"
    using ls ub(1) by (simp only: add_output_def Let_def option.case if_False bind_res_simps length_upt diff_add_inverse if_True)
  then show ?thesis using off len wants by (intro that[of "drop off ls"]) auto
qed

lemma add_seq_simple:
  assumes base: "sbatch_base w batch sb" "sb_ids sb = [0..<length (sb_ids sb)]"
    and s: "sb_seq sb = [s]" "ss_n_seq_id s = 0" "ss_offset s + ss_length s = length (sb_ids sb)" "n \<le> ss_length s"
    and ub: "\<not> ub_equal_seqs ub" "ub_n_seqs ub = 0" "ub_n_tokens ub = 0" "length (ub_output ub) = n"
  shows "\<exists>ub'. add_seq_to_ubatch ub 0 n sb = Inr (ub', take_seq 0 n sb) \<and> ub_n_tokens ub' = n \<and> ubatch_shape w ub'
    \<and> ubatch_entries w ub' = map (batch_entry w (sb_logits_all sb) batch) [ss_offset s..<ss_offset s + n]"
proof -
  let ?js = "[ss_offset s..<ss_offset s + n]" and ?off = "ss_offset s"
  have N: "length (sb_ids sb) = nat (b_n_tokens batch)" and ok: "batch_ok w batch" and b: "sb_batch sb = Some batch" "sb_n_embd sb = w"
    using base(1) by (auto simp: sbatch_base_def)
  have off: "?off + n \<le> nat (b_n_tokens batch)" using s(3,4) N by simp
  obtain ps ns sq where arr: "b_pos batch = Some ps" "length ps = nat (b_n_tokens batch)" "b_n_seq_id batch = Some ns"
      "length ns = nat (b_n_tokens batch)" "b_seq_id batch = Some sq" "length sq = nat (b_n_tokens batch)"
      "\<forall>i < nat (b_n_tokens batch). 1 \<le> ns ! i \<and> ns ! i \<le> int (length (sq ! i))"
    using batch_arrays[OF ok] by blast
  have ids: "take n (drop ?off (sb_ids sb)) = ?js" using s(3,4) by (subst base(2)) (auto simp: min_def)
  then have sl: "slice_ids (sb_ids sb) ?off n = Inr ?js" using s(3,4) by (simp add: slice_ids_def)
  let ?t = "map_option (drop ?off) (b_token batch)" and ?e = "map_option (drop (w * ?off)) (b_embd batch)"
  let ?u1 = "ub\<lparr>ub_token := ?t\<rparr>"
  let ?u2 = "?u1\<lparr>ub_embd := ?e\<rparr>"
  let ?u3 = "?u2\<lparr>ub_pos := drop ?off ps\<rparr>"
  let ?u4 = "?u3\<lparr>ub_n_seq_id := drop ?off ns, ub_seq_id := drop ?off sq\<rparr>"
  have lt: "\<forall>ts. b_token batch = Some ts \<longrightarrow> length ts = nat (b_n_tokens batch)"
    and le: "\<forall>es. b_embd batch = Some es \<longrightarrow> length es = w * nat (b_n_tokens batch)" using ok by (auto simp: batch_ok_def Let_def)
  have oN: "?off \<le> nat (b_n_tokens batch)" using off by simp
  have 1: "add_tokens batch ?js ?off ub = Inr ?u1"
    using ub(1) lt oN by (cases "b_token batch") (auto simp: add_tokens_def advance_ptr_def)
  have 2: "add_embd (sb_n_embd sb) batch ?js ?off ?u1 = Inr ?u2"
    using ub(1) le mult_le_mono2[OF oN, of w] b(2) by (cases "b_embd batch") (auto simp: add_embd_def advance_ptr_def)
  have 3: "add_pos batch ?js ?off ?u2 = Inr ?u3" using ub(1) arr(1,2) oN by (simp add: add_pos_def deref_def advance_ptr_def)
  have 4: "add_seq_ids batch s n ?u3 = Inr ?u4" using ub(1) arr oN by (simp add: add_seq_ids_def advance_ptr_def)
  obtain p where p: "add_output (sb_logits_all sb) batch (length (sb_ids sb)) ?js ?off ?u4
      = Inr (?u4\<lparr>ub_output := p\<rparr>, filter (wants_output (sb_logits_all sb) batch) ?js)"
    "\<forall>j < n. (p ! j \<noteq> 0) = wants_output (sb_logits_all sb) batch (?off + j)" "n \<le> length p"
    using add_output_simple[OF ok off, of ?u4 "sb_logits_all sb"] ub unfolding N by auto
  let ?ub' = "?u4\<lparr>ub_output := p, ub_n_seq_tokens := 1, ub_n_tokens := n, ub_n_seqs := n\<rparr>"
  have "add_seq_to_ubatch ub 0 n sb = Inr (?ub', take_seq 0 n sb)"
  proof -
    have k: "0 < length (sb_seq sb)" "s = sb_seq sb ! 0" using s(1) by simp_all
    have a: "ss_n_seq_id s = 0 \<or> 0 = (0 :: nat) \<or> n = ub_n_tokens ub div 0" "(ss_n_seq_id s \<noteq> 0) = ub_equal_seqs ub"
      using s(2) ub(1) by simp_all
    have f: "ub_equal_seqs (?u4\<lparr>ub_output := p\<rparr>) = ub_equal_seqs ub" "ub_n_seqs (?u4\<lparr>ub_output := p\<rparr>) = 0"
      "ub_n_tokens (?u4\<lparr>ub_output := p\<rparr>) = 0 * 1" "1 = (if ub_equal_seqs ub then n else 1)" using ub by simp_all
    have g: "0 < (0 :: nat) \<or> 0 < ub_n_tokens (?u4\<lparr>ub_output := p\<rparr>) \<longrightarrow> ub_n_seq_tokens (?u4\<lparr>ub_output := p\<rparr>) = 1"
      using ub by simp
    show ?thesis using add_seq_steps[OF b(1) k s(4) a ub(2) sl 1 2 3 4 p(1) f(1-3) g f(4)] ub(1)
      by (simp add: take_seq_def b(1) ids flip: k(2))
  qed
  moreover have "ubatch_shape w ?ub'"
  proof -
    have "w * n \<le> length es - w * ?off" if "b_embd batch = Some es" for es
      using le that mult_le_mono2[OF off, of w] by (simp add: distrib_left)
    then show ?thesis using arr off p(3) lt ok by (auto simp: ubatch_shape_def batch_ok_def Let_def)
  qed
  moreover have "ubatch_entries w ?ub' = map (batch_entry w (sb_logits_all sb) batch) ?js"
  proof (rule nth_equalityI)
    fix i assume "i < length (ubatch_entries w ?ub')"
    then have i: "i < n" by (simp add: ubatch_entries_def)
    have "row_at w (drop (w * ?off) es) i = row_at w es (?off + i)" for es :: "u32 list"
      by (simp add: row_at_def algebra_simps)
    then show "ubatch_entries w ?ub' ! i = map (batch_entry w (sb_logits_all sb) batch) ?js ! i"
      using i off arr lt p(2)
      by (cases "b_token batch"; cases "b_embd batch") (auto simp: ubatch_entries_def ubatch_entry_def batch_entry_def Let_def)
  qed (simp add: ubatch_entries_def)
  ultimately show ?thesis by (intro exI[of _ ?ub']) simp
qed

lemma pop_empty_single: "pop_empty [s] = (if ss_length s = 0 then [] else [s])" "pop_empty [] = []"
  by (simp_all add: pop_empty_def)

lemma split_simple_takes:
  assumes inv: "simple_inv sb" and t: "0 < sb_n_tokens sb" and c: "0 < c"
  shows "\<exists>ub sb'. split_simple c sb = Inr (ub, sb') \<and> simple_inv sb' \<and> took c sb ub sb'"
proof -
  obtain batch where b: "sb_batch sb = Some batch" and base: "sbatch_base (sb_n_embd sb) batch sb"
    using inv by (auto simp: simple_inv_def sbatch_base_def)
  obtain s where s: "sb_seq sb = [s]" "ss_n_seq_id s = 0" "ss_length s = sb_n_tokens sb" "ss_offset s + ss_length s = length (sb_ids sb)"
    using inv t by (auto simp: simple_inv_def split: if_splits)
  have ids: "sb_ids sb = [0..<length (sb_ids sb)]" using inv by (simp add: simple_inv_def)
  define n where "n = (if sb_n_tokens sb < c then sb_n_tokens sb else c)"
  have n: "0 < n" "n \<le> c" "n \<le> ss_length s" using t c s(3) by (auto simp: n_def)
  have pop: "popped sb = sb" using s(1,3) t by (simp add: popped_def pop_empty_single)
  obtain ub where ub: "start_split c sb = Inr (n, ub, sb)" "ub_n_seqs ub = 0" "ub_n_tokens ub = 0" "length (ub_output ub) = n"
    using b pop by (auto simp: start_split_def Let_def deref_def reserve_ubatch_def popped_def n_def)
  let ?js = "[ss_offset s..<ss_offset s + n]"
  obtain ub' where r: "add_seq_to_ubatch (ub\<lparr>ub_equal_seqs := False\<rparr>) 0 n sb = Inr (ub', take_seq 0 n sb)" "ub_n_tokens ub' = n"
    "ubatch_shape (sb_n_embd sb) ub'" "ubatch_entries (sb_n_embd sb) ub' = map (entry_of sb) ?js"
    using add_seq_simple[OF base ids s(1,2,4) n(3), of "ub\<lparr>ub_equal_seqs := False\<rparr>"] ub b by (auto simp: entry_of_def)
  have "(if ss_length s < n then ss_length s else n) = n" using n(3) by simp
  then have "split_simple c sb = Inr (ub', take_seq 0 n sb)"
    using r(1) s by (simp add: split_simple_def ub(1) Let_def)
  moreover have "simple_inv (take_seq 0 n sb)"
    using inv s n ids by (simp add: simple_inv_def take_seq_seq)
  moreover have "took c sb ub' (take_seq 0 n sb)"
  proof -
    let ?N = "length (sb_ids sb)"
    have sl: "seq_slice sb x = take (ss_length x) (drop (ss_offset x) [0..<?N])" for x by (simp add: seq_slice_def flip: ids)
    have "[ss_offset s..<?N] = ?js @ [ss_offset s + n..<?N]"
      using upt_add_eq_append[of "ss_offset s" "ss_offset s + n" "?N - (ss_offset s + n)"] s(4) n(3) by simp
    then have "rest sb = mset ?js + rest (take_seq 0 n sb)"
      unfolding rest_def take_seq_fields using s(1,4) n(3) by (simp add: take_seq_seq sl)
    moreover have "take n (drop (ss_offset s) (sb_ids sb)) = ?js" using s(4) n(3) by (subst ids) auto
    then have "sb_out_ids (take_seq 0 n sb) = sb_out_ids sb @ filter (\<lambda>i. te_output (entry_of sb i)) ?js"
      using take_seq_outs[of 0 n sb] s(1) by simp
    moreover have "sb_n_tokens sb = n + (sb_n_tokens sb - n)" using n(3) s(3) by simp
    ultimately show ?thesis
      unfolding took_def r(2,4) take_seq_fields using r(3) n by (fastforce simp: same_batch_def)
  qed
  ultimately show ?thesis by blast
qed

lemma simple_inv_done:
  assumes "simple_inv sb" "sb_n_tokens sb = 0"
  shows "rest sb = {#}"
  using assms by (auto simp: simple_inv_def rest_def seq_slice_def split: if_splits)

interpretation plain: batch_splitter "split_simple (Suc c)" simple_inv "Suc c" for c
  by unfold_locales (rule split_simple_takes, assumption+, simp, rule simple_inv_done, assumption+)

end
