(* ===== verification/Batch_Form.thy ===== *)
theory Batch_Form
  imports Batch_Split
begin

text \<open>
  Forming an sbatch from a batch, and the splits of the result: every token of the batch is in
  exactly one micro-batch. \<open>std::sort\<close> is a parameter of \<open>from_batch\<close>; what is used of it is that it
  returns a permutation in which no element is greater than a later one.
\<close>

definition sorts :: "(('a \<Rightarrow> 'a \<Rightarrow> bool) \<Rightarrow> 'a list \<Rightarrow> 'a list) \<Rightarrow> ('a \<Rightarrow> 'a \<Rightarrow> bool) \<Rightarrow> 'a list \<Rightarrow> bool" where
  "sorts srt lt xs \<longleftrightarrow> mset (srt lt xs) = mset xs \<and> sorted_wrt (\<lambda>a b. \<not> lt b a) (srt lt xs)"

section \<open>Grouping the sorted ids\<close>

text \<open>The sequences so far cover the ids before position \<open>length pre\<close>, in order.\<close>

definition groups :: "llama_batch \<Rightarrow> llama_sbatch \<Rightarrow> nat list \<Rightarrow> llama_sbatch_seq list \<Rightarrow> bool" where
  "groups batch sb pre seqs \<longleftrightarrow> (\<forall>s \<in> set seqs. seq_fits batch sb s \<and> 0 < ss_length s)
     \<and> concat (map (seq_slice sb) seqs) = pre
     \<and> (seqs \<noteq> [] \<longrightarrow> ss_offset (last seqs) + ss_length (last seqs) = length pre)"

lemma groups_new:
  assumes "groups batch sb pre seqs" "sb_ids sb = pre @ bi # bis" "0 < n" "the (b_n_seq_id batch) ! bi = n"
    "n \<le> int (length l)" "the (b_seq_id batch) ! bi = l"
  shows "groups batch sb (pre @ [bi]) (seqs @ [\<lparr>ss_n_seq_id = n, ss_seq_id = Some l, ss_offset = length pre, ss_length = 1\<rparr>])"
  using assms by (auto simp: groups_def seq_fits_def seq_slice_def)

lemma groups_extend:
  assumes g: "groups batch sb pre seqs" and ids: "sb_ids sb = pre @ bi # bis" and ne: "seqs \<noteq> []"
    and n: "the (b_n_seq_id batch) ! bi = ss_n_seq_id (last seqs)"
    and l: "ss_seq_id (last seqs) = Some l"
      "take (nat (ss_n_seq_id (last seqs))) (the (b_seq_id batch) ! bi) = take (nat (ss_n_seq_id (last seqs))) l"
  shows "groups batch sb (pre @ [bi]) (butlast seqs @ [(last seqs)\<lparr>ss_length := ss_length (last seqs) + 1\<rparr>])"
proof -
  let ?s = "last seqs"
  let ?s' = "?s\<lparr>ss_length := ss_length ?s + 1\<rparr>"
  have off: "ss_offset ?s + ss_length ?s = length pre" using g ne by (simp add: groups_def)
  have lt: "ss_length ?s < length (drop (ss_offset ?s) (sb_ids sb))" and at: "sb_ids sb ! (ss_offset ?s + ss_length ?s) = bi"
    using ids off by (auto simp: nth_append)
  have sl: "seq_slice sb ?s' = seq_slice sb ?s @ [bi]"
    using take_Suc_conv_app_nth[OF lt] at lt by (simp add: seq_slice_def)
  have seqs: "seqs = butlast seqs @ [?s]" using ne by simp
  have fits: "seq_fits batch sb ?s" using g ne by (simp add: groups_def)
  then have "seq_fits batch sb ?s'" using sl off ids n l by (auto simp: seq_fits_def)
  moreover have "concat (map (seq_slice sb) seqs) = pre" using g by (simp add: groups_def)
  then have "concat (map (seq_slice sb) (butlast seqs)) @ seq_slice sb ?s = pre" by (subst (asm) seqs) simp
  ultimately show ?thesis using g off sl by (auto simp: groups_def dest: in_set_butlastD)
qed

lemma init_seqs_groups:
  assumes ok: "batch_ok w batch"
  shows "groups batch sb pre seqs \<Longrightarrow> sb_ids sb = pre @ bis \<Longrightarrow> \<forall>i \<in> set bis. i < nat (b_n_tokens batch)
    \<Longrightarrow> has_last = (seqs \<noteq> [])
    \<Longrightarrow> \<exists>seqs'. init_seqs batch (length pre) bis has_last seqs = Inr seqs' \<and> groups batch sb (sb_ids sb) seqs'"
proof (induction bis arbitrary: pre seqs has_last)
  case Nil
  then show ?case by simp
next
  case (Cons bi bis)
  obtain ps ns sq where arr: "b_n_seq_id batch = Some ns" "length ns = nat (b_n_tokens batch)" "b_seq_id batch = Some sq"
      "length sq = nat (b_n_tokens batch)" "\<forall>i < nat (b_n_tokens batch). 1 \<le> ns ! i \<and> ns ! i \<le> int (length (sq ! i))"
    using batch_arrays[OF ok] by metis
  have bi: "bi < nat (b_n_tokens batch)" using Cons.prems(3) by simp
  then have n: "0 < ns ! bi" "ns ! bi \<le> int (length (sq ! bi))" using arr(5) by fastforce+
  have ids: "sb_ids sb = (pre @ [bi]) @ bis" using Cons.prems(2) by simp
  let ?l = "last seqs"
  let ?same = "has_last \<and> ns ! bi = ss_n_seq_id ?l \<and> (case ss_seq_id ?l of None \<Rightarrow> False
                      | Some ids \<Rightarrow> take (nat (ns ! bi)) (sq ! bi) = take (nat (ns ! bi)) ids)"
  let ?seqs' = "if ?same then butlast seqs @ [?l\<lparr>ss_length := ss_length ?l + 1\<rparr>]
     else seqs @ [\<lparr>ss_n_seq_id = ns ! bi, ss_seq_id = Some (sq ! bi), ss_offset = length pre, ss_length = 1\<rparr>]"
  have step: "init_seqs batch (length pre) (bi # bis) has_last seqs = init_seqs batch (length (pre @ [bi])) bis True ?seqs'"
    using arr bi by (simp add: deref_def index_res_def Let_def)
  have "groups batch sb (pre @ [bi]) ?seqs'"
  proof (cases ?same)
    case True
    then have eq: "?seqs' = butlast seqs @ [?l\<lparr>ss_length := ss_length ?l + 1\<rparr>]" by (rule if_P)
    obtain l where l: "ss_seq_id ?l = Some l" using True by (auto split: option.splits)
    with True Cons.prems(4) have c: "seqs \<noteq> []" "ns ! bi = ss_n_seq_id ?l" "take (nat (ns ! bi)) (sq ! bi) = take (nat (ns ! bi)) l"
      by auto
    show ?thesis unfolding eq by (rule groups_extend[OF Cons.prems(1,2) c(1) _ l]) (use c arr in simp_all)
  next
    case False
    then have "?seqs' = seqs @ [\<lparr>ss_n_seq_id = ns ! bi, ss_seq_id = Some (sq ! bi), ss_offset = length pre, ss_length = 1\<rparr>]"
      by (rule if_not_P)
    then show ?thesis using groups_new[OF Cons.prems(1,2) n(1) _ n(2)] arr by simp
  qed
  moreover have "\<forall>i \<in> set bis. i < nat (b_n_tokens batch)" "True = (?seqs' \<noteq> [])" using Cons.prems(3) by simp_all
  ultimately show ?case unfolding step by (intro Cons.IH[OF _ ids])
qed

section \<open>The sbatch of a batch\<close>

lemma mset_sum_list: "mset xs = mset ys \<Longrightarrow> sum_list (map f xs) = sum_list (map f ys)" for f :: "'a \<Rightarrow> 'b::comm_monoid_add"
  by (metis mset_map sum_mset_sum_list)

lemma from_batch_simple:
  assumes "batch_ok w batch" "from_batch si ss batch w True la sb = Inr sb1"
  shows "simple_inv sb1" "rest sb1 = mset [0..<nat (b_n_tokens batch)]"
    "sb_n_tokens sb1 = nat (b_n_tokens batch)" "sb_out_ids sb1 = []" "sb_n_embd sb1 = w" "entry_of sb1 = batch_entry w la batch"
  using assms
  by (auto simp: from_batch_def Let_def simple_inv_def sbatch_base_def rest_def seq_slice_def entry_of_def)

lemma from_batch_seqs:
  assumes ok: "batch_ok w batch" and si: "sorts si (less_token batch) [0..<nat (b_n_tokens batch)]" and ss: "\<And>xs. sorts ss less_seq xs" and empty: "sb_seq sb = []"
  shows "\<exists>sb1. from_batch si ss batch w False la sb = Inr sb1 \<and> equal_inv sb1
    \<and> rest sb1 = mset [0..<nat (b_n_tokens batch)]
    \<and> sb_n_tokens sb1 = nat (b_n_tokens batch) \<and> sb_out_ids sb1 = [] \<and> sb_n_embd sb1 = w
    \<and> entry_of sb1 = batch_entry w la batch"
proof -
  let ?n = "nat (b_n_tokens batch)"
  let ?ids = "si (less_token batch) [0..<?n]"
  let ?sb = "sb\<lparr>sb_batch := Some batch, sb_n_embd := w, sb_logits_all := la, sb_n_tokens := ?n, sb_out_ids := [], sb_ids := ?ids\<rparr>"
  have m: "mset ?ids = mset [0..<?n]" using si by (simp add: sorts_def)
  have ids: "set ?ids = {..<?n}" "length ?ids = ?n"
    using mset_eq_setD[OF m] mset_eq_length[OF m] by (simp_all add: atLeast0LessThan)
  have "groups batch ?sb [] []" by (simp add: groups_def)
  from init_seqs_groups[OF ok this, of ?ids False] ids(1) obtain seqs where
    i: "init_seqs batch 0 ?ids False [] = Inr seqs" and g: "groups batch ?sb ?ids seqs" by auto
  let ?seqs = "ss less_seq seqs"
  let ?sb1 = "?sb\<lparr>sb_seq := ?seqs\<rparr>"
  have ms: "mset ?seqs = mset seqs" and srt: "sorted_wrt (\<lambda>a b. \<not> less_seq b a) ?seqs" using ss by (simp_all add: sorts_def)
  have set: "set ?seqs = set seqs" using ms by (rule mset_eq_setD)
  have sl: "seq_slice ?sb1 = seq_slice ?sb" "seq_fits batch ?sb1 = seq_fits batch ?sb"
    by (auto simp: fun_eq_iff seq_slice_def seq_fits_def)
  have fits: "\<forall>s \<in> set seqs. seq_fits batch ?sb s \<and> 0 < ss_length s" and cc: "concat (map (seq_slice ?sb) seqs) = ?ids"
    using g by (auto simp: groups_def)
  have "\<forall>s \<in> set seqs. length (seq_slice ?sb s) = ss_length s" using fits by (auto simp: seq_fits_def seq_slice_def)
  then have "(\<Sum>s \<leftarrow> seqs. ss_length s) = length (concat (map (seq_slice ?sb) seqs))"
    by (simp add: length_concat comp_def cong: map_cong)
  then have "(\<Sum>s \<leftarrow> ?seqs. ss_length s) = ?n" using mset_sum_list[OF ms, of ss_length] cc ids(2) by simp
  then have "seqs_inv ?sb1" using ok ids fits set sl by (auto simp: seqs_inv_def sbatch_base_def)
  moreover have "sorted_wrt (\<lambda>a b. ss_length a = 0 \<longrightarrow> ss_length b = 0) ?seqs"
    by (rule sorted_wrt_mono_rel[OF _ srt]) (use fits set in auto)
  then have "seq_order ?seqs" using srt by (simp add: seq_order_def)
  moreover have "rest ?sb1 = mset [0..<?n]"
  proof -
    have "rest ?sb1 = (\<Sum>s \<leftarrow> seqs. mset (seq_slice ?sb s))" unfolding rest_def sl using mset_sum_list[OF ms] by simp
    also have "\<dots> = mset (concat (map (seq_slice ?sb) seqs))" by (induction seqs) auto
    finally show ?thesis using cc m by simp
  qed
  moreover have "from_batch si ss batch w False la sb = Inr ?sb1"
    using ok empty i by (simp add: from_batch_def Let_def batch_ok_def)
  ultimately show ?thesis by (intro exI[of _ ?sb1]) (auto simp: equal_inv_def entry_of_def)
qed

section \<open>Every token once\<close>

text \<open>What a complete split of a batch has to give: micro-batches of the right shape and size whose entries
  are those of the batch, no token left, and output ids that list the tokens whose output is
  wanted in the order in which the micro-batches compute them.\<close>

definition split_complete ::
  "nat \<Rightarrow> nat \<Rightarrow> bool \<Rightarrow> llama_batch \<Rightarrow> llama_ubatch list \<Rightarrow> llama_sbatch \<Rightarrow> bool" where
  "split_complete w cap la batch ubs sb \<longleftrightarrow>
     (\<forall>ub \<in> set ubs. ubatch_shape w ub \<and> 0 < ub_n_tokens ub \<and> ub_n_tokens ub \<le> cap)
     \<and> sb_n_tokens sb = 0
     \<and> (\<exists>js. mset js = mset [0..<nat (b_n_tokens batch)]
          \<and> concat (map (ubatch_entries w) ubs) = map (batch_entry w la batch) js
          \<and> sb_out_ids sb = filter (wants_output la batch) js)"

context batch_splitter
begin

lemma complete:
  assumes "inv sb" "rest sb = mset [0..<nat (b_n_tokens batch)]" "sb_n_tokens sb = nat (b_n_tokens batch)" "sb_out_ids sb = []"
    "sb_n_embd sb = w" "entry_of sb = batch_entry w la batch"
  shows "\<exists>ubs sb2. split_all split (nat (b_n_tokens batch)) sb = Inr (ubs, sb2) \<and> split_complete w cap la batch ubs sb2"
proof -
  obtain ubs sb2 js where r: "split_all split (nat (b_n_tokens batch)) sb = Inr (ubs, sb2)" "sb_n_tokens sb2 = 0"
      "\<forall>ub \<in> set ubs. ubatch_shape (sb_n_embd sb) ub \<and> 0 < ub_n_tokens ub \<and> ub_n_tokens ub \<le> cap" "mset js = rest sb"
      "concat (map (ubatch_entries (sb_n_embd sb)) ubs) = map (entry_of sb) js"
      "sb_out_ids sb2 = sb_out_ids sb @ filter (\<lambda>i. te_output (entry_of sb i)) js"
    using all_split[OF assms(1) eq_refl[OF assms(3)]] by blast
  have "te_output (batch_entry w la batch i) = wants_output la batch i" for i by (simp add: batch_entry_def)
  then show ?thesis unfolding split_complete_def using r assms(2,4-6)
    by (intro exI[of _ ubs] exI[of _ sb2] conjI exI[of _ js]) simp_all
qed

end

text \<open>C7: Forming an sbatch from any well-formed batch and taking micro-batches of at most \<open>c + 1\<close> tokens until none is left ends without a
  failed assertion or an access out of bounds, after at most as many rounds as there are tokens, and the micro-batches together
  hold every token of the batch exactly once, with its own position, sequences and output flag. This holds for the simple
  split; and for the splits of recurrent models, where the tokens are grouped by sequence and split into runs of equal
  length (\<open>split_equal\<close>) or one sequence at a time (\<open>split_seq\<close>), for every sorting function that sorts, when the
  sbatch starts without sequences.\<close>

theorem splits_complete:
  assumes "batch_ok w batch"
  shows "(\<exists>sb1 ubs sb2. from_batch si ss batch w True la sb = Inr sb1
      \<and> split_all (split_simple (Suc c)) (nat (b_n_tokens batch)) sb1 = Inr (ubs, sb2) \<and> split_complete w (Suc c) la batch ubs sb2)
    \<and> (sorts si (less_token batch) [0..<nat (b_n_tokens batch)] \<and> (\<forall>xs. sorts ss less_seq xs) \<and> sb_seq sb = [] \<longrightarrow>
        (\<exists>sb1. from_batch si ss batch w False la sb = Inr sb1
          \<and> (\<exists>ubs sb2. split_all (split_equal (Suc c)) (nat (b_n_tokens batch)) sb1 = Inr (ubs, sb2) \<and> split_complete w (Suc c) la batch ubs sb2)
          \<and> (\<exists>ubs sb2. split_all (split_seq (Suc c)) (nat (b_n_tokens batch)) sb1 = Inr (ubs, sb2) \<and> split_complete w (Suc c) la batch ubs sb2)))"
proof (intro conjI impI)
  have "0 \<le> b_n_tokens batch" using assms by (simp add: batch_ok_def Let_def)
  then obtain sb1 where sb1: "from_batch si ss batch w True la sb = Inr sb1" by (simp add: from_batch_def Let_def)
  show "\<exists>sb1 ubs sb2. from_batch si ss batch w True la sb = Inr sb1
      \<and> split_all (split_simple (Suc c)) (nat (b_n_tokens batch)) sb1 = Inr (ubs, sb2) \<and> split_complete w (Suc c) la batch ubs sb2"
    using plain.complete[OF from_batch_simple[OF assms sb1]] sb1 by blast
next
  assume a: "sorts si (less_token batch) [0..<nat (b_n_tokens batch)] \<and> (\<forall>xs. sorts ss less_seq xs) \<and> sb_seq sb = []"
  then have si: "sorts si (less_token batch) [0..<nat (b_n_tokens batch)]" and ss: "\<forall>xs. sorts ss less_seq xs" and e: "sb_seq sb = []" by auto
  obtain sb1 where sb1: "from_batch si ss batch w False la sb = Inr sb1" "equal_inv sb1"
    and f: "rest sb1 = mset [0..<nat (b_n_tokens batch)]"
      "sb_n_tokens sb1 = nat (b_n_tokens batch)" "sb_out_ids sb1 = []" "sb_n_embd sb1 = w"
      "entry_of sb1 = batch_entry w la batch"
    using from_batch_seqs[OF assms si spec[OF ss] e] by blast
  have "seqs_inv sb1" using sb1(2) by (simp add: equal_inv_def)
  then show "\<exists>sb1. from_batch si ss batch w False la sb = Inr sb1
      \<and> (\<exists>ubs sb2. split_all (split_equal (Suc c)) (nat (b_n_tokens batch)) sb1 = Inr (ubs, sb2) \<and> split_complete w (Suc c) la batch ubs sb2)
      \<and> (\<exists>ubs sb2. split_all (split_seq (Suc c)) (nat (b_n_tokens batch)) sb1 = Inr (ubs, sb2) \<and> split_complete w (Suc c) la batch ubs sb2)"
    using by_seq.complete[OF _ f] equal_len.complete[OF sb1(2) f] sb1(1) by blast
qed

text \<open>An insertion sort sorts.\<close>

primrec insert_by :: "('a \<Rightarrow> 'a \<Rightarrow> bool) \<Rightarrow> 'a \<Rightarrow> 'a list \<Rightarrow> 'a list" where
  "insert_by lt x [] = [x]"
| "insert_by lt x (y # ys) = (if lt x y then x # y # ys else y # insert_by lt x ys)"

definition sort_by :: "('a \<Rightarrow> 'a \<Rightarrow> bool) \<Rightarrow> 'a list \<Rightarrow> 'a list" where
  "sort_by lt xs = foldr (insert_by lt) xs []"

lemma mset_insert_by: "mset (insert_by lt x ys) = add_mset x (mset ys)"
  by (induction ys) auto

lemma sort_by_sorts:
  assumes "\<And>a b. lt a b \<Longrightarrow> \<not> lt b a" "\<And>a b c. \<not> lt b a \<Longrightarrow> \<not> lt c b \<Longrightarrow> \<not> lt c a"
  shows "sorts sort_by lt xs"
proof -
  have set: "set (insert_by lt x ys) = insert x (set ys)" for x ys by (induction ys) auto
  have ins: "sorted_wrt (\<lambda>a b. \<not> lt b a) ys \<Longrightarrow> sorted_wrt (\<lambda>a b. \<not> lt b a) (insert_by lt x ys)" for x ys
  proof (induction ys)
    case (Cons y ys)
    show ?case
    proof (cases "lt x y")
      case True
      then have "\<forall>z \<in> set (y # ys). \<not> lt z x" using Cons.prems assms by (metis list.set_intros set_ConsD sorted_wrt.simps(2))
      then show ?thesis using True Cons.prems by simp
    next
      case False
      then show ?thesis using Cons set by auto
    qed
  qed simp
  show ?thesis unfolding sorts_def sort_by_def
  proof
    show "mset (foldr (insert_by lt) xs []) = mset xs" by (induction xs) (simp_all add: mset_insert_by)
    show "sorted_wrt (\<lambda>a b. \<not> lt b a) (foldr (insert_by lt) xs [])" by (induction xs) (simp_all add: ins)
  qed
qed

lemma sort_by_seqs: "sorts sort_by less_seq xs"
  by (rule sort_by_sorts) (auto simp: less_seq_def split: if_splits)

text \<open>Three tokens in two sequences.\<close>

definition ex_batch :: llama_batch where
  "ex_batch = \<lparr>b_n_tokens = 3, b_token = Some [10, 11, 12], b_embd = None, b_pos = Some [0, 1, 0],
     b_n_seq_id = Some [1, 1, 1], b_seq_id = Some [[0], [0], [1]], b_logits = None\<rparr>"

definition sb_empty :: llama_sbatch where
  "sb_empty = \<lparr>sb_n_tokens = 0, sb_n_embd = 0, sb_logits_all = False, sb_ids = [], sb_out_ids = [], sb_seq = [], sb_batch = None\<rparr>"

lemma ex_batch_ok: "batch_ok 4 ex_batch"
  by (simp add: batch_ok_def ex_batch_def Let_def less_Suc_eq numeral_3_eq_3 numeral_2_eq_2)

lemma ex_batch_sorted: "sorts sort_by (less_token ex_batch) [0..<nat (b_n_tokens ex_batch)]"
  unfolding sorts_def by code_simp

theorem splits_complete_witness:
  "batch_ok 4 ex_batch
   \<and> (\<exists>sb1 ubs sb2. from_batch sort_by sort_by ex_batch 4 True False sb_empty = Inr sb1
      \<and> split_all (split_simple (Suc 1)) (nat (b_n_tokens ex_batch)) sb1 = Inr (ubs, sb2) \<and> split_complete 4 (Suc 1) False ex_batch ubs sb2)
   \<and> (\<exists>sb1 ubs sb2. from_batch sort_by sort_by ex_batch 4 False False sb_empty = Inr sb1
      \<and> split_all (split_equal (Suc 1)) (nat (b_n_tokens ex_batch)) sb1 = Inr (ubs, sb2) \<and> split_complete 4 (Suc 1) False ex_batch ubs sb2)"
proof -
  have "sb_seq sb_empty = []" by (simp add: sb_empty_def)
  then show ?thesis using splits_complete[OF ex_batch_ok, of sort_by sort_by False sb_empty 1] ex_batch_ok ex_batch_sorted sort_by_seqs by blast
qed

section \<open>Left-over sequences\<close>

text \<open>A batch whose second sequence is left over when only the first micro-batch is taken, and the next
  batch, three tokens of sequence 0.\<close>

definition ex_first :: llama_batch where
  "ex_first = \<lparr>b_n_tokens = 3, b_token = Some [10, 11, 12], b_embd = None, b_pos = Some [0, 0, 1],
     b_n_seq_id = Some [1, 1, 1], b_seq_id = Some [[0], [1], [1]], b_logits = None\<rparr>"

definition ex_next :: llama_batch where
  "ex_next = \<lparr>b_n_tokens = 3, b_token = Some [13, 14, 15], b_embd = None, b_pos = Some [1, 2, 3],
     b_n_seq_id = Some [1, 1, 1], b_seq_id = Some [[0], [0], [0]], b_logits = None\<rparr>"

text \<open>\<open>from_batch\<close> does not clear the sequences of an earlier batch. When a decode stops before all its
  micro-batches are taken, the next batch is formed on top of what is left: here its first micro-batch holds two tokens
  of the new batch as tokens of sequence 1, although all tokens of the new batch are of sequence 0.\<close>

theorem left_over_sequences:
  "bind_res (from_batch sort_by sort_by ex_first 4 False False sb_empty) (\<lambda>sb1.
   bind_res (split_equal 1 sb1) (\<lambda>(ub1, sb2).
   bind_res (from_batch sort_by sort_by ex_next 4 False False sb2) (\<lambda>sb3.
   bind_res (split_equal 8 sb3) (\<lambda>(ub, sb4).
     Inr (map te_token (ubatch_entries 4 ub), map te_seqs (ubatch_entries 4 ub))))))
   = Inr ([Some 14, Some 15], [[1], [1]])"
  by code_simp

section \<open>Defaults\<close>

text \<open>What \<open>llama_batch_get_one\<close> leaves out is filled in: the tokens get consecutive positions from \<open>p0\<close>, sequence
  0, and only the last one an output; the result is a well-formed batch.\<close>

theorem batch_defaults:
  assumes "toks \<noteq> []"
  shows "\<exists>b. llama_batch_allocr (llama_batch_get_one toks (int (length toks))) p0 = Inr b \<and> batch_ok w b
    \<and> map (batch_entry w False b) [0..<length toks]
      = map (\<lambda>i. \<lparr>te_token = Some (toks ! i), te_embd = None, te_pos = int i + p0, te_seqs = [0],
                   te_output = (i + 1 = length toks)\<rparr>) [0..<length toks]"
proof -
  let ?n = "length toks"
  let ?b = "\<lparr>b_n_tokens = int ?n, b_token = Some toks, b_embd = None, b_pos = Some (map (\<lambda>i. int i + p0) [0..<?n]),
      b_n_seq_id = Some (replicate ?n 1), b_seq_id = Some (replicate ?n [0]), b_logits = Some ((replicate ?n 0)[?n - 1 := 1])\<rparr>"
  have "llama_batch_allocr (llama_batch_get_one toks (int ?n)) p0 = Inr ?b"
    using assms by (simp add: llama_batch_allocr_def llama_batch_get_one_def Let_def)
  moreover have "batch_ok w ?b" by (simp add: batch_ok_def)
  moreover have "batch_entry w False ?b i = \<lparr>te_token = Some (toks ! i), te_embd = None, te_pos = int i + p0, te_seqs = [0],
                   te_output = (i + 1 = ?n)\<rparr>" if "i < ?n" for i
    using that assms by (auto simp: batch_entry_def wants_output_def nth_list_update)
  ultimately show ?thesis by (intro exI[of _ ?b]) simp
qed

theorem batch_defaults_witness:
  "[7, 8] \<noteq> ([] :: int list) \<and>
   (\<exists>b. llama_batch_allocr (llama_batch_get_one [7, 8] (int (length [7 :: int, 8]))) 5 = Inr b \<and> batch_ok 4 b
    \<and> map (batch_entry 4 False b) [0..<length [7 :: int, 8]]
      = map (\<lambda>i. \<lparr>te_token = Some ([7, 8] ! i), te_embd = None, te_pos = int i + 5, te_seqs = [0],
                   te_output = (i + 1 = length [7 :: int, 8])\<rparr>) [0..<length [7 :: int, 8]])"
  using batch_defaults[of "[7, 8]" 5 4] by blast

end
