(* ===== verification/Inputs.thy ===== *)
theory Inputs
  imports Kv_Defrag Batch_Form
begin

text \<open>
  The inputs of a graph: the tensors the graph builders of \<open>llama.cpp\<close> create for a micro-batch and \<open>llama_set_inputs\<close> of
  \<open>llama-context.cpp\<close>, which fills them from the micro-batch and the KV cache. An entry of a tensor is \<open>None\<close> until it is
  written. Which inputs an architecture has is a parameter, and so is the logarithm in the bucket of a large
  distance. Plain \<open>assert\<close>s, which a release build drops, are left out.
\<close>

section \<open>State and parameters\<close>

datatype llama_pooling_type = POOLING_UNSPECIFIED | POOLING_NONE | POOLING_MEAN | POOLING_CLS | POOLING_LAST | POOLING_RANK

text \<open>The parameters of the context and of the model.\<close>

record llama_params =
  p_n_batch :: nat
  p_n_ubatch :: nat
  p_n_seq_max :: nat
  p_n_threads :: int
  p_n_threads_batch :: int
  p_embeddings :: bool
  p_pooling_type :: llama_pooling_type
  p_causal_attn :: bool
  p_model_causal :: bool
  p_flash_attn :: bool
  p_logits_all :: bool
  p_n_vocab :: nat
  p_n_embd :: nat
  p_n_layer :: nat
  p_max_nodes :: nat
  p_has_rope :: bool
  p_has_decoder :: bool
  p_use_alibi :: bool
  p_n_swa :: u32
  p_n_rel_attn_bkts :: nat
  p_n_pos_per_token :: nat

text \<open>An entry of an attention mask: \<open>-INFINITY\<close>, or the float of an integer. A weight of the mean: 0, or \<open>1.0f/float(s)\<close>.\<close>

datatype kq = NegInf | Bias int

datatype mean_weight = NoWeight | Recip nat

record 'a tensor =
  tn_host :: bool
  tn_data :: "'a option list"

record llama_inputs =
  inp_tokens :: "int tensor option"
  inp_embd :: "u32 tensor option"
  inp_pos :: "int tensor option"
  inp_out_ids :: "int tensor option"
  inp_KQ_mask :: "kq tensor option"
  inp_KQ_mask_swa :: "kq tensor option"
  inp_mean :: "mean_weight tensor option"
  inp_cls :: "int tensor option"
  inp_s_copy :: "int tensor option"
  inp_s_mask :: "bool tensor option"
  inp_pos_bucket :: "int tensor option"
  inp_embd_enc :: "u32 tensor option"
  inp_KQ_mask_cross :: "kq tensor option"

record 'd llama_context =
  lc_kv :: llama_kv_cache
  lc_data :: "'d list"
  lc_sbatch :: llama_sbatch
  lc_n_queued_tokens :: nat
  lc_is_encoding :: bool
  lc_embd_seq :: "int \<rightharpoonup> u32 list"
  lc_embd_enc :: "u32 list"
  lc_seq_ids_enc :: "int set list"
  lc_buf_output :: "u32 list option"
  lc_logits :: "nat option"
  lc_embd :: "nat option"
  lc_output_size :: nat
  lc_logits_size :: nat
  lc_embd_size :: nat
  lc_output_ids :: "int list"
  lc_n_outputs :: nat
  lc_inputs :: llama_inputs

section \<open>Creating the tensors\<close>

text \<open>What the builder of an architecture asks for; where a mask or the buckets are asked for, whether they are causal. The
  tensors the scheduler puts in host memory are a parameter too.\<close>

record graph_spec =
  g_host :: bool
  g_pos :: bool
  g_out_ids :: bool
  g_KQ_mask :: "bool option"
  g_KQ_mask_swa :: "bool option"
  g_s_copy :: bool
  g_s_mask :: bool
  g_pos_bucket :: "bool option"
  g_embd_enc :: bool
  g_KQ_mask_cross :: bool

definition GGML_KQ_MASK_PAD :: nat where
  "GGML_KQ_MASK_PAD = 64"

definition new_tensor :: "graph_spec \<Rightarrow> nat \<Rightarrow> 'a tensor option" where
  "new_tensor g n = Some \<lparr>tn_host = g_host g, tn_data = replicate n None\<rparr>"

definition no_inputs :: llama_inputs where
  "no_inputs = \<lparr>inp_tokens = None, inp_embd = None, inp_pos = None, inp_out_ids = None, inp_KQ_mask = None,
     inp_KQ_mask_swa = None, inp_mean = None, inp_cls = None, inp_s_copy = None, inp_s_mask = None,
     inp_pos_bucket = None, inp_embd_enc = None, inp_KQ_mask_cross = None\<rparr>"

definition llm_build_inp_embd :: "graph_spec \<Rightarrow> llama_params \<Rightarrow> llama_ubatch \<Rightarrow> llama_inputs \<Rightarrow> llama_inputs" where
  "llm_build_inp_embd g p ub inp =
     (if ub_token ub \<noteq> None then inp\<lparr>inp_tokens := new_tensor g (ub_n_tokens ub)\<rparr>
      else inp\<lparr>inp_embd := new_tensor g (p_n_embd p * ub_n_tokens ub)\<rparr>)"

text \<open>The architecture with several positions per token creates \<open>inp_pos\<close> itself, with a place for each.\<close>

definition build_inp_pos :: "graph_spec \<Rightarrow> llama_params \<Rightarrow> llama_ubatch \<Rightarrow> llama_inputs \<Rightarrow> llama_inputs" where
  "build_inp_pos g p ub inp = inp\<lparr>inp_pos := new_tensor g (ub_n_tokens ub * p_n_pos_per_token p)\<rparr>"

definition build_inp_out_ids :: "graph_spec \<Rightarrow> nat \<Rightarrow> llama_inputs \<Rightarrow> llama_inputs" where
  "build_inp_out_ids g n_outputs inp = inp\<lparr>inp_out_ids := new_tensor g n_outputs\<rparr>"

definition build_inp_KQ_mask :: "graph_spec \<Rightarrow> nat \<Rightarrow> nat \<Rightarrow> bool \<Rightarrow> llama_inputs \<Rightarrow> llama_inputs" where
  "build_inp_KQ_mask g n_kv n_tokens causal inp =
     inp\<lparr>inp_KQ_mask := new_tensor g ((if causal then n_kv else n_tokens) * GGML_PAD n_tokens GGML_KQ_MASK_PAD)\<rparr>"

definition build_inp_KQ_mask_swa :: "graph_spec \<Rightarrow> llama_params \<Rightarrow> nat \<Rightarrow> nat \<Rightarrow> bool \<Rightarrow> llama_inputs \<Rightarrow> llama_inputs res" where
  "build_inp_KQ_mask_swa g p n_kv n_tokens causal inp =
     bind_res (ggml_assert (p_n_swa p > 0)) (\<lambda>_.
       Inr (inp\<lparr>inp_KQ_mask_swa := new_tensor g ((if causal then n_kv else n_tokens) * GGML_PAD n_tokens GGML_KQ_MASK_PAD)\<rparr>))"

definition build_inp_mean :: "graph_spec \<Rightarrow> nat \<Rightarrow> llama_inputs \<Rightarrow> llama_inputs" where
  "build_inp_mean g n_tokens inp = inp\<lparr>inp_mean := new_tensor g (n_tokens * n_tokens)\<rparr>"

definition build_inp_cls :: "graph_spec \<Rightarrow> nat \<Rightarrow> llama_inputs \<Rightarrow> llama_inputs" where
  "build_inp_cls g n_tokens inp = inp\<lparr>inp_cls := new_tensor g n_tokens\<rparr>"

definition build_inp_s_copy :: "graph_spec \<Rightarrow> nat \<Rightarrow> llama_inputs \<Rightarrow> llama_inputs" where
  "build_inp_s_copy g n_kv inp = inp\<lparr>inp_s_copy := new_tensor g n_kv\<rparr>"

definition build_inp_s_mask :: "graph_spec \<Rightarrow> nat \<Rightarrow> llama_inputs \<Rightarrow> llama_inputs" where
  "build_inp_s_mask g n_kv inp = inp\<lparr>inp_s_mask := new_tensor g n_kv\<rparr>"

definition llm_build_pos_bucket :: "graph_spec \<Rightarrow> nat \<Rightarrow> nat \<Rightarrow> bool \<Rightarrow> llama_inputs \<Rightarrow> llama_inputs" where
  "llm_build_pos_bucket g n_kv n_tokens causal inp =
     inp\<lparr>inp_pos_bucket := new_tensor g ((if causal then n_kv else n_tokens) * n_tokens)\<rparr>"

definition llm_build_inp_embd_enc :: "graph_spec \<Rightarrow> nat \<Rightarrow> nat \<Rightarrow> llama_inputs \<Rightarrow> llama_inputs" where
  "llm_build_inp_embd_enc g n_embd n_outputs_enc inp = inp\<lparr>inp_embd_enc := new_tensor g (n_embd * n_outputs_enc)\<rparr>"

definition llm_build_inp_KQ_mask_cross :: "graph_spec \<Rightarrow> nat \<Rightarrow> nat \<Rightarrow> llama_inputs \<Rightarrow> llama_inputs" where
  "llm_build_inp_KQ_mask_cross g n_outputs_enc n_tokens inp =
     inp\<lparr>inp_KQ_mask_cross := new_tensor g (n_outputs_enc * GGML_PAD n_tokens GGML_KQ_MASK_PAD)\<rparr>"

text \<open>The inputs \<open>append_pooling\<close> creates.\<close>

definition append_pooling :: "graph_spec \<Rightarrow> llama_params \<Rightarrow> nat \<Rightarrow> llama_inputs \<Rightarrow> llama_inputs res" where
  "append_pooling g p n_tokens inp =
     (case p_pooling_type p of
        POOLING_NONE \<Rightarrow> Inr inp
      | POOLING_MEAN \<Rightarrow> Inr (build_inp_mean g n_tokens inp)
      | POOLING_UNSPECIFIED \<Rightarrow> Inl GgmlAbort
      | _ \<Rightarrow> Inr (build_inp_cls g n_tokens inp))"

text \<open>The input tensors of the graph of a micro-batch.\<close>

definition llama_build_inputs :: "graph_spec \<Rightarrow> llama_params \<Rightarrow> 'd llama_context \<Rightarrow> llama_ubatch \<Rightarrow> llama_inputs res" where
  "llama_build_inputs g p lc ub =
     (let n_tokens = ub_n_tokens ub; n_kv = kv_n (lc_kv lc);
          n_outputs_enc = length (lc_embd_enc lc) div p_n_embd p;
          inp0 = llm_build_inp_embd g p ub no_inputs;
          inp1 = (if g_pos g then build_inp_pos g p ub inp0 else inp0);
          inp2 = (if g_out_ids g then build_inp_out_ids g (lc_n_outputs lc) inp1 else inp1);
          inp3 = (case g_KQ_mask g of None \<Rightarrow> inp2 | Some causal \<Rightarrow> build_inp_KQ_mask g n_kv n_tokens causal inp2);
          inp4 = (if g_s_copy g then build_inp_s_copy g n_kv inp3 else inp3);
          inp5 = (if g_s_mask g then build_inp_s_mask g n_kv inp4 else inp4);
          inp6 = (case g_pos_bucket g of None \<Rightarrow> inp5 | Some causal \<Rightarrow> llm_build_pos_bucket g n_kv n_tokens causal inp5);
          inp7 = (if g_embd_enc g then llm_build_inp_embd_enc g (p_n_embd p) n_outputs_enc inp6 else inp6);
          inp8 = (if g_KQ_mask_cross g then llm_build_inp_KQ_mask_cross g n_outputs_enc n_tokens inp7 else inp7) in
      bind_res (case g_KQ_mask_swa g of
                  None \<Rightarrow> Inr inp8
                | Some causal \<Rightarrow> build_inp_KQ_mask_swa g p n_kv n_tokens causal inp8) (\<lambda>inp9.
        if p_embeddings p then append_pooling g p n_tokens inp9 else Inr inp9))"

section \<open>Filling the tensors\<close>

text \<open>\<open>ggml_backend_tensor_set\<close> copies the first \<open>n\<close> elements of an array to a tensor.\<close>

definition tensor_set :: "'a tensor option \<Rightarrow> 'a list \<Rightarrow> nat \<Rightarrow> 'a tensor option res" where
  "tensor_set t src n =
     bind_res (ggml_assert (t \<noteq> None)) (\<lambda>_.
       if n = 0 then Inr t
       else
         bind_res (ggml_assert (n \<le> length (tn_data (the t)))) (\<lambda>_.
           if n \<le> length src then Inr (Some ((the t)\<lparr>tn_data := map Some (take n src) @ drop n (tn_data (the t))\<rparr>))
           else Inl Undef))"

text \<open>A write to an entry, the data of a tensor in host memory, and the access to an array by a signed id.\<close>

definition put :: "nat \<Rightarrow> 'a \<Rightarrow> 'a option list \<Rightarrow> 'a option list res" where
  "put k v xs = (if k < length xs then Inr (xs[k := Some v]) else Inl Undef)"

definition host_data :: "'a tensor \<Rightarrow> 'a option list res" where
  "host_data t = bind_res (ggml_assert (tn_host t)) (\<lambda>_. Inr (tn_data t))"

definition index_id :: "'a list \<Rightarrow> int \<Rightarrow> 'a res" where
  "index_id xs k = (if 0 \<le> k then index_res xs (nat k) else Inl Undef)"

definition first_seq :: "llama_ubatch \<Rightarrow> nat \<Rightarrow> int res" where
  "first_seq ub s = bind_res (index_res (ub_seq_id ub) s) (\<lambda>ids. index_res ids 0)"

definition set_tokens :: "llama_ubatch \<Rightarrow> llama_inputs \<Rightarrow> llama_inputs res" where
  "set_tokens ub inp =
     (case ub_token ub of
        None \<Rightarrow> Inr inp
      | Some toks \<Rightarrow> bind_res (tensor_set (inp_tokens inp) toks (ub_n_tokens ub)) (\<lambda>t. Inr (inp\<lparr>inp_tokens := t\<rparr>)))"

definition set_embd :: "llama_params \<Rightarrow> llama_ubatch \<Rightarrow> llama_inputs \<Rightarrow> llama_inputs res" where
  "set_embd p ub inp =
     (case ub_embd ub of
        None \<Rightarrow> Inr inp
      | Some es \<Rightarrow> bind_res (tensor_set (inp_embd inp) es (ub_n_tokens ub * p_n_embd p)) (\<lambda>t. Inr (inp\<lparr>inp_embd := t\<rparr>)))"

definition set_pos :: "llama_params \<Rightarrow> llama_ubatch \<Rightarrow> llama_inputs \<Rightarrow> llama_inputs res" where
  "set_pos p ub inp =
     (case inp_pos inp of
        None \<Rightarrow> Inr inp
      | Some _ \<Rightarrow> bind_res (tensor_set (inp_pos inp) (ub_pos ub) (ub_n_tokens ub * p_n_pos_per_token p)) (\<lambda>t. Inr (inp\<lparr>inp_pos := t\<rparr>)))"

text \<open>The rows of the outputs. \<open>output\<close> is the array of flags of the micro-batch, which may be null.\<close>

definition out_ids_data :: "nat \<Rightarrow> nat \<Rightarrow> int list option \<Rightarrow> int option list \<Rightarrow> int option list res" where
  "out_ids_data n_outputs n_tokens output d =
     (if n_outputs = n_tokens then fold_res (\<lambda>i d. put i (int i) d) [0..<n_tokens] d
      else
        (case output of
           Some flags \<Rightarrow>
             bind_res (fold_res (\<lambda>i (d, k).
                 bind_res (index_res flags i) (\<lambda>v.
                   if v \<noteq> 0 then bind_res (put k (int i) d) (\<lambda>d'. Inr (d', k + 1)) else Inr (d, k)))
               [0..<n_tokens] (d, 0)) (\<lambda>(d', k).
             bind_res (ggml_assert (n_outputs = k)) (\<lambda>_. Inr d'))
         | None \<Rightarrow>
             if n_outputs = 1 then put 0 (int n_tokens - 1) d
             else bind_res (ggml_assert (n_outputs = 0)) (\<lambda>_. Inr d)))"

definition set_out_ids :: "llama_params \<Rightarrow> nat \<Rightarrow> llama_ubatch \<Rightarrow> llama_inputs \<Rightarrow> llama_inputs res" where
  "set_out_ids p n_outputs ub inp =
     (if p_model_causal p \<or> p_pooling_type p = POOLING_NONE then
        (case inp_out_ids inp of
           None \<Rightarrow> Inr inp
         | Some t \<Rightarrow>
             bind_res (host_data t) (\<lambda>d.
             bind_res (out_ids_data n_outputs (ub_n_tokens ub) (Some (ub_output ub)) d) (\<lambda>d'.
               Inr (inp\<lparr>inp_out_ids := Some (t\<lparr>tn_data := d'\<rparr>)\<rparr>))))
      else Inr inp)"

text \<open>The attention mask over the cells of the cache, and its variant for a sliding window.\<close>

definition kq_cell :: "bool \<Rightarrow> int \<Rightarrow> int \<Rightarrow> llama_kv_cell \<Rightarrow> kq" where
  "kq_cell use_alibi seq_id pos c =
     (if \<not> has_seq_id c seq_id \<or> c_pos c > pos then NegInf
      else if use_alibi then Bias (- \<bar>c_pos c - pos\<bar>) else Bias 0)"

definition kq_swa :: "u32 \<Rightarrow> int \<Rightarrow> llama_kv_cell \<Rightarrow> kq \<Rightarrow> kq" where
  "kq_swa n_swa pos c f = (if pos - c_pos c \<ge> sint n_swa then NegInf else f)"

definition put_opt :: "nat \<Rightarrow> 'a \<Rightarrow> 'a option list option \<Rightarrow> 'a option list option res" where
  "put_opt k v d = (case d of None \<Rightarrow> Inr None | Some xs \<Rightarrow> bind_res (put k v xs) (\<lambda>xs'. Inr (Some xs')))"

definition causal_cell ::
  "llama_params \<Rightarrow> llama_kv_cache \<Rightarrow> int \<Rightarrow> int \<Rightarrow> nat \<Rightarrow> nat \<Rightarrow> kq option list option \<times> kq option list option
     \<Rightarrow> (kq option list option \<times> kq option list option) res" where
  "causal_cell p kv seq_id pos row i d =
     bind_res (index_res (kv_cells kv) i) (\<lambda>c.
       let f = kq_cell (p_use_alibi p) seq_id pos c; k = row * kv_n kv + i in
       bind_res (put_opt k f (fst d)) (\<lambda>d1.
       bind_res (put_opt k (kq_swa (p_n_swa p) pos c f) (snd d)) (\<lambda>d2. Inr (d1, d2))))"

definition causal_rows ::
  "llama_params \<Rightarrow> llama_kv_cache \<Rightarrow> llama_ubatch \<Rightarrow> kq option list option \<times> kq option list option
     \<Rightarrow> (kq option list option \<times> kq option list option) res" where
  "causal_rows p kv ub d =
     fold_res (\<lambda>s d.
       bind_res (first_seq ub s) (\<lambda>seq_id.
         fold_res (\<lambda>j d.
           bind_res (index_res (ub_pos ub) (s * ub_n_seq_tokens ub + j)) (\<lambda>pos.
             fold_res (causal_cell p kv seq_id pos (s * ub_n_seq_tokens ub + j)) [0..<kv_n kv] d))
           [0..<ub_n_seq_tokens ub] d)) [0..<ub_n_seqs ub] d"

definition pad_rows :: "nat \<Rightarrow> nat \<Rightarrow> kq option list option \<Rightarrow> kq option list option res" where
  "pad_rows n_tokens w d =
     fold_res (\<lambda>i d. fold_res (\<lambda>j d. put_opt (i * w + j) NegInf d) [0..<w] d) [n_tokens..<GGML_PAD n_tokens GGML_KQ_MASK_PAD] d"

definition opt_data :: "'a tensor option \<Rightarrow> 'a option list option res" where
  "opt_data t = (case t of None \<Rightarrow> Inr None | Some t \<Rightarrow> bind_res (host_data t) (\<lambda>d. Inr (Some d)))"

definition with_data :: "'a tensor option \<Rightarrow> 'a option list option \<Rightarrow> 'a tensor option" where
  "with_data t d = (case (t, d) of (Some t, Some d) \<Rightarrow> Some (t\<lparr>tn_data := d\<rparr>) | _ \<Rightarrow> t)"

definition set_causal_masks :: "llama_params \<Rightarrow> llama_kv_cache \<Rightarrow> llama_ubatch \<Rightarrow> llama_inputs \<Rightarrow> llama_inputs res" where
  "set_causal_masks p kv ub inp =
     bind_res (opt_data (inp_KQ_mask inp)) (\<lambda>data.
     bind_res (opt_data (inp_KQ_mask_swa inp)) (\<lambda>data_swa.
     bind_res (causal_rows p kv ub (data, data_swa)) (\<lambda>(d1, d2).
     bind_res (pad_rows (ub_n_tokens ub) (kv_n kv) d1) (\<lambda>d1'.
     bind_res (pad_rows (ub_n_tokens ub) (kv_n kv) d2) (\<lambda>d2'.
       Inr (inp\<lparr>inp_KQ_mask := with_data (inp_KQ_mask inp) d1', inp_KQ_mask_swa := with_data (inp_KQ_mask_swa inp) d2'\<rparr>))))))"

text \<open>The mask of bidirectional attention: whether the sequences of \<open>s0\<close> contain \<open>seq_id\<close> (the loop stops at the first match).\<close>

definition has_seq :: "llama_ubatch \<Rightarrow> nat \<Rightarrow> int \<Rightarrow> bool res" where
  "has_seq ub s0 seq_id =
     bind_res (index_res (ub_n_seq_id ub) s0) (\<lambda>k.
       fold_res (\<lambda>s b.
         if b then Inr b
         else bind_res (index_res (ub_seq_id ub) s0) (\<lambda>ids. bind_res (index_res ids s) (\<lambda>x. Inr (x = seq_id))))
         [0..<nat k] False)"

definition full_entry :: "llama_params \<Rightarrow> llama_ubatch \<Rightarrow> int \<Rightarrow> nat \<Rightarrow> nat \<Rightarrow> nat \<Rightarrow> kq res" where
  "full_entry p ub seq_id tj s0 ti =
     bind_res (has_seq ub s0 seq_id) (\<lambda>b.
       if \<not> b then Inr NegInf
       else if p_use_alibi p then
         bind_res (index_res (ub_pos ub) ti) (\<lambda>x. bind_res (index_res (ub_pos ub) tj) (\<lambda>y. Inr (Bias (- \<bar>x - y\<bar>))))
       else Inr (Bias 0))"

definition full_row :: "llama_params \<Rightarrow> llama_ubatch \<Rightarrow> nat \<Rightarrow> int \<Rightarrow> nat \<Rightarrow> kq option list \<Rightarrow> kq option list res" where
  "full_row p ub n_stride seq_id tj d =
     bind_res (fold_res (\<lambda>s0 d. fold_res (\<lambda>i d.
         let ti = s0 * ub_n_seq_tokens ub + i in
         bind_res (full_entry p ub seq_id tj s0 ti) (\<lambda>f. put (tj * n_stride + ti) f d))
         [0..<ub_n_seq_tokens ub] d) [0..<ub_n_seqs ub] d)
       (fold_res (\<lambda>i d. put (tj * n_stride + i) NegInf d) [ub_n_tokens ub..<n_stride])"

definition set_full_mask :: "llama_params \<Rightarrow> llama_kv_cache \<Rightarrow> bool \<Rightarrow> llama_ubatch \<Rightarrow> llama_inputs \<Rightarrow> llama_inputs res" where
  "set_full_mask p kv is_encoding ub inp =
     (let n_stride = (if p_model_causal p \<and> \<not> is_encoding then kv_n kv else ub_n_tokens ub) in
      bind_res (deref (inp_KQ_mask inp)) (\<lambda>t.
      bind_res (host_data t) (\<lambda>data.
      bind_res (fold_res (\<lambda>s1 d.
          bind_res (first_seq ub s1) (\<lambda>seq_id.
            fold_res (\<lambda>j d. full_row p ub n_stride seq_id (s1 * ub_n_seq_tokens ub + j) d) [0..<ub_n_seq_tokens ub] d))
          [0..<ub_n_seqs ub] data) (\<lambda>data'.
        Inr (inp\<lparr>inp_KQ_mask := Some (t\<lparr>tn_data := data'\<rparr>)\<rparr>)))))"

definition set_KQ_masks :: "llama_params \<Rightarrow> llama_kv_cache \<Rightarrow> bool \<Rightarrow> llama_ubatch \<Rightarrow> llama_inputs \<Rightarrow> llama_inputs res" where
  "set_KQ_masks p kv is_encoding ub inp =
     (if inp_KQ_mask inp \<noteq> None \<or> inp_KQ_mask_swa inp \<noteq> None then
        if p_causal_attn p \<and> \<not> is_encoding then set_causal_masks p kv ub inp
        else set_full_mask p kv is_encoding ub inp
      else Inr inp)"

text \<open>Pooling. The sequence id of a set of tokens must be an index of a token.\<close>

definition pooled_seq :: "llama_ubatch \<Rightarrow> nat \<Rightarrow> int res" where
  "pooled_seq ub s =
     bind_res (first_seq ub s) (\<lambda>seq_id. bind_res (ggml_assert (seq_id < int (ub_n_tokens ub))) (\<lambda>_. Inr seq_id))"

definition mean_sums :: "llama_ubatch \<Rightarrow> nat list res" where
  "mean_sums ub =
     fold_res (\<lambda>s sum.
       bind_res (pooled_seq ub s) (\<lambda>seq_id.
       bind_res (index_id sum seq_id) (\<lambda>x. Inr (sum[nat seq_id := x + ub_n_seq_tokens ub]))))
       [0..<ub_n_seqs ub] (replicate (ub_n_tokens ub) 0)"

definition set_mean :: "llama_params \<Rightarrow> llama_ubatch \<Rightarrow> llama_inputs \<Rightarrow> llama_inputs res" where
  "set_mean p ub inp =
     (if p_embeddings p \<and> p_pooling_type p = POOLING_MEAN then
        bind_res (ggml_assert (inp_mean inp \<noteq> None)) (\<lambda>_.
        let t = the (inp_mean inp); n = ub_n_tokens ub in
        bind_res (host_data t) (\<lambda>data0.
        bind_res (write_at 0 (replicate (n * n) (Some NoWeight)) data0) (\<lambda>data.
        bind_res (mean_sums ub) (\<lambda>sum.
        let div_v = map (\<lambda>s. if s > 0 then Recip s else NoWeight) sum in
        bind_res (fold_res (\<lambda>s d.
            bind_res (first_seq ub s) (\<lambda>seq_id.
              fold_res (\<lambda>i d.
                bind_res (index_id div_v seq_id) (\<lambda>v. put (nat seq_id * n + s * ub_n_seq_tokens ub + i) v d))
                [0..<ub_n_seq_tokens ub] d)) [0..<ub_n_seqs ub] data) (\<lambda>data'.
          Inr (inp\<lparr>inp_mean := Some (t\<lparr>tn_data := data'\<rparr>)\<rparr>))))))
      else Inr inp)"

definition cls_data :: "llama_ubatch \<Rightarrow> int option list \<Rightarrow> int option list res" where
  "cls_data ub data =
     fold_res (\<lambda>s d.
       bind_res (pooled_seq ub s) (\<lambda>seq_id.
         fold_res (\<lambda>i d.
           bind_res (index_res (ub_pos ub) (s * ub_n_seq_tokens ub + i)) (\<lambda>pos.
             if pos = 0 then bind_res (index_id d seq_id) (\<lambda>_. put (nat seq_id) (int (s * ub_n_seq_tokens ub + i)) d) else Inr d))
           [0..<ub_n_seq_tokens ub] d)) [0..<ub_n_seqs ub] data"

text \<open>The last token of every sequence: its position and its row, \<open>-1\<close> where there is none.\<close>

definition last_rows :: "llama_ubatch \<Rightarrow> (int list \<times> int list) res" where
  "last_rows ub =
     fold_res (\<lambda>s lpr.
       bind_res (pooled_seq ub s) (\<lambda>seq_id.
         fold_res (\<lambda>i (lp, lr).
           bind_res (index_res (ub_pos ub) (s * ub_n_seq_tokens ub + i)) (\<lambda>pos.
           bind_res (index_id lp seq_id) (\<lambda>x.
             if pos \<ge> x then Inr (lp[nat seq_id := pos], lr[nat seq_id := int (s * ub_n_seq_tokens ub + i)])
             else Inr (lp, lr))))
           [0..<ub_n_seq_tokens ub] lpr)) [0..<ub_n_seqs ub] (replicate (ub_n_tokens ub) (-1), replicate (ub_n_tokens ub) (-1))"

definition last_data :: "llama_ubatch \<Rightarrow> int option list \<Rightarrow> int option list res" where
  "last_data ub data =
     bind_res (last_rows ub) (\<lambda>(lp, lr).
       fold_res (\<lambda>i d. if lr ! i \<ge> 0 then put i (lr ! i) d else Inr d) [0..<ub_n_tokens ub] data)"

definition set_cls :: "llama_params \<Rightarrow> llama_ubatch \<Rightarrow> llama_inputs \<Rightarrow> llama_inputs res" where
  "set_cls p ub inp =
     (if p_embeddings p \<and> p_pooling_type p \<in> {POOLING_CLS, POOLING_RANK, POOLING_LAST} then
        bind_res (ggml_assert (inp_cls inp \<noteq> None)) (\<lambda>_.
        let t = the (inp_cls inp) in
        bind_res (host_data t) (\<lambda>data0.
        bind_res (write_at 0 (replicate (ub_n_tokens ub) (Some 0)) data0) (\<lambda>data.
        bind_res (if p_pooling_type p = POOLING_LAST then last_data ub data else cls_data ub data) (\<lambda>data'.
          Inr (inp\<lparr>inp_cls := Some (t\<lparr>tn_data := data'\<rparr>)\<rparr>)))))
      else Inr inp)"

text \<open>Recurrent states: those of the window that must be cleared, and where the others are copied from. A state is cleared and
  copied once only, so the cells change.\<close>

definition s_mask_step :: "nat \<Rightarrow> nat \<Rightarrow> llama_kv_cell list \<times> bool option list \<Rightarrow> (llama_kv_cell list \<times> bool option list) res" where
  "s_mask_step head i st =
     (case st of (cells, d) \<Rightarrow>
        let cell_id = i + head in
        bind_res (index_res cells cell_id) (\<lambda>c.
        bind_res (put i (c_src c \<ge> 0) d) (\<lambda>d'.
          Inr (if c_src c < 0 then cells[cell_id := c\<lparr>c_src := int cell_id\<rparr>] else cells, d'))))"

definition s_copy_step ::
  "nat \<Rightarrow> nat \<Rightarrow> nat \<Rightarrow> llama_kv_cell list \<times> int option list \<Rightarrow> (llama_kv_cell list \<times> int option list) res" where
  "s_copy_step head sz i st =
     (case st of (cells, d) \<Rightarrow>
        let cell_id = i + head in
        bind_res (index_res cells cell_id) (\<lambda>c.
        let src = (if c_src c < 0 \<or> nat (c_src c) \<ge> sz then int cell_id else c_src c) in
        bind_res (put i src d) (\<lambda>d'. Inr (cells[cell_id := c\<lparr>c_src := int cell_id\<rparr>], d'))))"

definition set_s_mask :: "llama_kv_cache \<times> llama_inputs \<Rightarrow> (llama_kv_cache \<times> llama_inputs) res" where
  "set_s_mask st =
     (case st of (kv, inp) \<Rightarrow>
        (case inp_s_mask inp of
           None \<Rightarrow> Inr st
         | Some t \<Rightarrow>
             bind_res (host_data t) (\<lambda>d.
             bind_res (fold_res (s_mask_step (kv_head kv)) [0..<kv_n kv] (kv_cells kv, d)) (\<lambda>(cells, d').
               Inr (kv\<lparr>kv_cells := cells\<rparr>, inp\<lparr>inp_s_mask := Some (t\<lparr>tn_data := d'\<rparr>)\<rparr>)))))"

definition set_s_copy :: "llama_kv_cache \<times> llama_inputs \<Rightarrow> (llama_kv_cache \<times> llama_inputs) res" where
  "set_s_copy st =
     (case st of (kv, inp) \<Rightarrow>
        (case inp_s_copy inp of
           None \<Rightarrow> Inr st
         | Some t \<Rightarrow>
             bind_res (host_data t) (\<lambda>d.
             bind_res (fold_res (s_copy_step (kv_head kv) (kv_size kv)) [0..<kv_n kv] (kv_cells kv, d)) (\<lambda>(cells, d').
               Inr (kv\<lparr>kv_cells := cells\<rparr>, inp\<lparr>inp_s_copy := Some (t\<lparr>tn_data := d'\<rparr>)\<rparr>)))))"

text \<open>The bucket of a relative position. \<open>large r n m\<close> is the float expression with the logarithm, rounded down.\<close>

definition llama_relative_position_bucket :: "(int \<Rightarrow> nat \<Rightarrow> nat \<Rightarrow> int) \<Rightarrow> int \<Rightarrow> int \<Rightarrow> nat \<Rightarrow> bool \<Rightarrow> int" where
  "llama_relative_position_bucket large x y n_bkts bidirectional =
     (let n_buckets = (if bidirectional then n_bkts div 2 else n_bkts);
          max_exact = n_buckets div 2;
          relative_position = (if bidirectional then \<bar>x - y\<bar> else - min (x - y) 0);
          relative_bucket = (if bidirectional \<and> x - y > 0 then int n_buckets else 0);
          if_large = min (large relative_position n_buckets max_exact) (int n_buckets - 1) in
      relative_bucket + (if relative_position < int max_exact then relative_position else if_large))"

definition set_pos_bucket ::
  "(int \<Rightarrow> nat \<Rightarrow> nat \<Rightarrow> int) \<Rightarrow> llama_params \<Rightarrow> llama_kv_cache \<Rightarrow> bool \<Rightarrow> llama_ubatch \<Rightarrow> llama_inputs \<Rightarrow> llama_inputs res" where
  "set_pos_bucket large p kv is_encoding ub inp =
     (case inp_pos_bucket inp of
        None \<Rightarrow> Inr inp
      | Some t \<Rightarrow>
          bind_res (host_data t) (\<lambda>data.
          bind_res (ggml_assert (\<not> ub_equal_seqs ub)) (\<lambda>_.
          let w = (if is_encoding then ub_n_tokens ub else kv_n kv) in
          bind_res (fold_res (\<lambda>j d. fold_res (\<lambda>i d.
              bind_res (if is_encoding then index_res (ub_pos ub) i else bind_res (index_res (kv_cells kv) i) (\<lambda>c. Inr (c_pos c))) (\<lambda>x.
              bind_res (index_res (ub_pos ub) j) (\<lambda>y.
                put (j * w + i) (llama_relative_position_bucket large x y (p_n_rel_attn_bkts p) is_encoding) d)))
              [0..<w] d) [0..<ub_n_tokens ub] data) (\<lambda>data'.
            Inr (inp\<lparr>inp_pos_bucket := Some (t\<lparr>tn_data := data'\<rparr>)\<rparr>)))))"

definition set_embd_enc :: "bool \<Rightarrow> u32 list \<Rightarrow> llama_inputs \<Rightarrow> llama_inputs res" where
  "set_embd_enc is_encoding embd_enc inp =
     (case inp_embd_enc inp of
        None \<Rightarrow> Inr inp
      | Some t \<Rightarrow>
          if is_encoding then Inr inp
          else bind_res (tensor_set (Some t) embd_enc (length (tn_data t))) (\<lambda>t'. Inr (inp\<lparr>inp_embd_enc := t'\<rparr>)))"

definition cross_entry :: "int set list \<Rightarrow> llama_ubatch \<Rightarrow> nat \<Rightarrow> nat \<Rightarrow> kq res" where
  "cross_entry seq_ids_enc ub j i =
     bind_res (index_res (ub_n_seq_id ub) j) (\<lambda>k.
       fold_res (\<lambda>s f.
         bind_res (index_res (ub_seq_id ub) j) (\<lambda>ids. bind_res (index_res ids s) (\<lambda>x.
         bind_res (index_res seq_ids_enc i) (\<lambda>S. Inr (if x \<in> S then Bias 0 else f))))) [0..<nat k] NegInf)"

definition set_KQ_mask_cross ::
  "llama_params \<Rightarrow> bool \<Rightarrow> u32 list \<Rightarrow> int set list \<Rightarrow> llama_ubatch \<Rightarrow> llama_inputs \<Rightarrow> llama_inputs res" where
  "set_KQ_mask_cross p is_encoding embd_enc seq_ids_enc ub inp =
     (case inp_KQ_mask_cross inp of
        None \<Rightarrow> Inr inp
      | Some t \<Rightarrow>
          if is_encoding then Inr inp
          else
            let n = length embd_enc div p_n_embd p in
            bind_res (host_data t) (\<lambda>data.
            bind_res (ggml_assert (\<not> ub_equal_seqs ub)) (\<lambda>_.
            bind_res (fold_res (\<lambda>j d. fold_res (\<lambda>i d.
                bind_res (cross_entry seq_ids_enc ub j i) (\<lambda>f. put (j * n + i) f d))
                [0..<n] d) [0..<ub_n_tokens ub] data) (\<lambda>data1.
            bind_res (pad_rows (ub_n_tokens ub) n (Some data1)) (\<lambda>data2.
              Inr (inp\<lparr>inp_KQ_mask_cross := with_data (Some t) data2\<rparr>))))))"

definition llama_set_inputs ::
  "(int \<Rightarrow> nat \<Rightarrow> nat \<Rightarrow> int) \<Rightarrow> llama_params \<Rightarrow> llama_ubatch \<Rightarrow> 'd llama_context \<Rightarrow> 'd llama_context res" where
  "llama_set_inputs large p ub lc =
     (let kv = lc_kv lc; enc = lc_is_encoding lc in
      bind_res (set_tokens ub (lc_inputs lc)) (\<lambda>inp1.
      bind_res (set_embd p ub inp1) (\<lambda>inp2.
      bind_res (set_pos p ub inp2) (\<lambda>inp3.
      bind_res (set_out_ids p (lc_n_outputs lc) ub inp3) (\<lambda>inp4.
      bind_res (ggml_assert (p_model_causal p \<or> \<not> p_causal_attn p)) (\<lambda>_.
      bind_res (set_KQ_masks p kv enc ub inp4) (\<lambda>inp5.
      bind_res (set_mean p ub inp5) (\<lambda>inp6.
      bind_res (set_cls p ub inp6) (\<lambda>inp7.
      bind_res (if kv_recurrent kv then bind_res (set_s_mask (kv, inp7)) set_s_copy else Inr (kv, inp7)) (\<lambda>(kv', inp8).
      bind_res (set_pos_bucket large p kv' enc ub inp8) (\<lambda>inp9.
      bind_res (set_embd_enc enc (lc_embd_enc lc) inp9) (\<lambda>inp10.
      bind_res (set_KQ_mask_cross p enc (lc_embd_enc lc) (lc_seq_ids_enc lc) ub inp10) (\<lambda>inp11.
        Inr (lc\<lparr>lc_kv := kv', lc_inputs := inp11\<rparr>))))))))))))))"

end
