(* ===== verification/Decode.thy ===== *)
theory Decode
  imports Inputs
begin

text \<open>
  Decoding a batch (\<open>llama_decode_impl\<close> and \<open>llama_encode_impl\<close> with their helpers in \<open>llama.cpp\<close>) and
  the output buffer (\<open>llama_output_reserve\<close>, \<open>llama_output_reorder\<close> and the accessors in \<open>llama-context.cpp\<close>).
  The buffer is a list of floats (as bit patterns), a pointer into it an offset. What the code calls outside of these
  files is a parameter: the computation of a graph, the allocator, \<open>std::sort\<close> and the comparison of floats that asks for
  a defragmentation.
\<close>

section \<open>What decoding calls\<close>

datatype ggml_failure = ALLOC_FAILED | FAILED | ABORTED

text \<open>The inputs of the graph of the encoder and of the decoder (\<open>r_spec\<close>), and its computation: on the cache, the data of its cells, the
  input tensors, the micro-batch and the number of outputs it gives a status, new data and the contents of the tensor the code extracts.\<close>

record 'd runtime =
  r_sort_ids :: "(nat \<Rightarrow> nat \<Rightarrow> bool) \<Rightarrow> nat list \<Rightarrow> nat list"
  r_sort_seqs :: "(llama_sbatch_seq \<Rightarrow> llama_sbatch_seq \<Rightarrow> bool) \<Rightarrow> llama_sbatch_seq list \<Rightarrow> llama_sbatch_seq list"
  r_alloc :: "nat \<Rightarrow> bool"
  r_spec :: "bool \<Rightarrow> graph_spec"
  r_bucket :: "int \<Rightarrow> nat \<Rightarrow> nat \<Rightarrow> int"
  r_graph :: "llama_kv_cache \<Rightarrow> 'd list \<Rightarrow> llama_inputs \<Rightarrow> llama_ubatch \<Rightarrow> nat \<Rightarrow> ggml_failure option \<times> 'd list \<times> u32 list"
  r_k_shift :: "int list \<Rightarrow> 'd list \<Rightarrow> 'd list"
  r_fragmented :: "llama_kv_cache \<Rightarrow> bool"

section \<open>The output buffer\<close>

definition llama_output_reserve ::
  "llama_params \<Rightarrow> (nat \<Rightarrow> bool) \<Rightarrow> 'd llama_context \<Rightarrow> nat \<Rightarrow> 'd llama_context \<times> nat" where
  "llama_output_reserve p alloc lc n_outputs =
     (let n_outputs_max = max n_outputs (p_n_seq_max p);
          has_logits = (\<not> p_embeddings p);
          has_embd = (p_embeddings p \<and> p_pooling_type p = POOLING_NONE);
          logits_size = (if has_logits then p_n_vocab p * n_outputs_max else 0);
          embd_size = (if has_embd then p_n_embd p * n_outputs_max else 0);
          new_size = logits_size + embd_size;
          lc1 = (if lc_output_ids lc = [] then lc\<lparr>lc_output_ids := replicate (p_n_batch p) 0\<rparr> else lc);
          lc2 = (case lc_buf_output lc1 of
                   Some b \<Rightarrow> if length b < new_size then
                       lc1\<lparr>lc_buf_output := (if alloc new_size then Some (replicate new_size 0) else None),
                           lc_logits := None, lc_embd := None\<rparr>
                     else lc1
                 | None \<Rightarrow> lc1\<lparr>lc_buf_output := (if alloc new_size then Some (replicate new_size 0) else None)\<rparr>)
      in case lc_buf_output lc2 of
           None \<Rightarrow> (lc2, 0)
         | Some b \<Rightarrow>
             (lc2\<lparr>lc_buf_output := Some (replicate (length b) 0),
                  lc_logits := (if has_logits then Some 0 else None),
                  lc_embd := (if has_embd then Some logits_size else None),
                  lc_output_size := n_outputs_max, lc_logits_size := logits_size, lc_embd_size := embd_size,
                  lc_output_ids := replicate (length (lc_output_ids lc2)) (-1), lc_n_outputs := 0\<rparr>, n_outputs_max))"

text \<open>The selection sort: the index of the smallest id from \<open>i\<close> on, and the swap of two rows of \<open>w\<close> floats (the index
  is computed in 32 bits).\<close>

definition find_min :: "nat list \<Rightarrow> nat \<Rightarrow> nat \<Rightarrow> nat" where
  "find_min out_ids i n = fold (\<lambda>j j_min. if out_ids ! j < out_ids ! j_min then j else j_min) [i + 1..<n] i"

definition swap_rows :: "nat \<Rightarrow> nat \<Rightarrow> nat \<Rightarrow> nat \<Rightarrow> u32 list \<Rightarrow> u32 list res" where
  "swap_rows base w i j buf =
     fold_res (\<lambda>k b.
       let x = base + unat (of_nat i * of_nat w + of_nat k :: u32);
           y = base + unat (of_nat j * of_nat w + of_nat k :: u32) in
       if x < length b \<and> y < length b then Inr (b[x := b ! y, y := b ! x]) else Inl Undef) [0..<w] buf"

definition reorder_step ::
  "llama_params \<Rightarrow> 'd llama_context \<Rightarrow> nat \<Rightarrow> nat \<Rightarrow> nat list \<times> u32 list option \<Rightarrow> (nat list \<times> u32 list option) res" where
  "reorder_step p lc n i s =
     (case s of (out_ids, buf) \<Rightarrow>
        let j_min = find_min out_ids i n in
        if j_min = i then Inr s
        else
          bind_res (if lc_logits_size lc > 0 then
                      bind_res (deref buf) (\<lambda>b. bind_res (deref (lc_logits lc)) (\<lambda>base.
                        bind_res (swap_rows base (p_n_vocab p) i j_min b) (\<lambda>b'. Inr (Some b'))))
                    else Inr buf) (\<lambda>buf1.
          bind_res (if lc_embd_size lc > 0 then
                      bind_res (deref buf1) (\<lambda>b. bind_res (deref (lc_embd lc)) (\<lambda>base.
                        bind_res (swap_rows base (p_n_embd p) i j_min b) (\<lambda>b'. Inr (Some b'))))
                    else Inr buf1) (\<lambda>buf2.
            Inr (out_ids[i := out_ids ! j_min, j_min := out_ids ! i], buf2))))"

text \<open>The loop that fills \<open>output_ids\<close>: output \<open>i\<close> is the output of token \<open>out_ids[i]\<close>.\<close>

definition set_output_ids :: "nat list \<Rightarrow> int list \<Rightarrow> int list res" where
  "set_output_ids out_ids ids =
     fold_res (\<lambda>(i, t) ids. if t < length ids then Inr (ids[t := int i]) else Inl Undef)
       (zip [0..<length out_ids] out_ids) ids"

definition llama_output_reorder :: "llama_params \<Rightarrow> 'd llama_context \<Rightarrow> 'd llama_context res" where
  "llama_output_reorder p lc =
     (let out_ids = sb_out_ids (lc_sbatch lc); n_outputs = lc_n_outputs lc in
      if out_ids = [] then Inr lc
      else
        bind_res (ggml_assert (n_outputs = length out_ids)) (\<lambda>_.
        bind_res (fold_res (reorder_step p lc n_outputs) [0..<n_outputs - 1] (out_ids, lc_buf_output lc)) (\<lambda>(out_ids', buf).
        bind_res (set_output_ids out_ids' (replicate (length (lc_output_ids lc)) (-1))) (\<lambda>ids.
          Inr (lc\<lparr>lc_buf_output := buf, lc_output_ids := ids, lc_sbatch := (lc_sbatch lc)\<lparr>sb_out_ids := []\<rparr>\<rparr>)))))"

section \<open>Reading outputs\<close>

datatype output_error = NoOutputs | NegativeOutOfRange | OutOfRange | NotAnOutput | CorruptBuffer

text \<open>The checks of \<open>llama_get_logits_ith\<close> and \<open>llama_get_embeddings_ith\<close>: the row of output \<open>i\<close>.\<close>

definition output_row :: "nat option \<Rightarrow> 'd llama_context \<Rightarrow> int \<Rightarrow> output_error + nat" where
  "output_row ptr lc i =
     (if ptr = None then Inl NoOutputs
      else if i < 0 \<and> int (lc_n_outputs lc) + i < 0 then Inl NegativeOutOfRange
      else if i \<ge> 0 \<and> nat i \<ge> length (lc_output_ids lc) then Inl OutOfRange
      else
        (let j = (if i < 0 then int (lc_n_outputs lc) + i else lc_output_ids lc ! nat i) in
         if j < 0 then Inl NotAnOutput
         else if j \<ge> int (lc_n_outputs lc) then Inl CorruptBuffer
         else Inr (nat j)))"

text \<open>An exception is logged; a release build then returns a null pointer, a debug build aborts. The product is
  computed in 32 bits.\<close>

definition output_ptr :: "bool \<Rightarrow> nat option \<Rightarrow> nat \<Rightarrow> 'd llama_context \<Rightarrow> int \<Rightarrow> nat option res" where
  "output_ptr ndebug ptr w lc i =
     (case output_row ptr lc i of
        Inl _ \<Rightarrow> if ndebug then Inr None else Inl GgmlAbort
      | Inr j \<Rightarrow> Inr (Some (the ptr + unat (of_nat j * of_nat w :: u32))))"

definition llama_get_logits_ith :: "bool \<Rightarrow> llama_params \<Rightarrow> 'd llama_context \<Rightarrow> int \<Rightarrow> nat option res" where
  "llama_get_logits_ith ndebug p lc i = output_ptr ndebug (lc_logits lc) (p_n_vocab p) lc i"

definition llama_get_embeddings_ith :: "bool \<Rightarrow> llama_params \<Rightarrow> 'd llama_context \<Rightarrow> int \<Rightarrow> nat option res" where
  "llama_get_embeddings_ith ndebug p lc i = output_ptr ndebug (lc_embd lc) (p_n_embd p) lc i"

definition llama_get_logits :: "llama_params \<Rightarrow> 'd llama_context \<Rightarrow> ('d llama_context \<times> nat option) res" where
  "llama_get_logits p lc = bind_res (llama_output_reorder p lc) (\<lambda>lc'. Inr (lc', lc_logits lc'))"

definition llama_get_embeddings :: "llama_params \<Rightarrow> 'd llama_context \<Rightarrow> ('d llama_context \<times> nat option) res" where
  "llama_get_embeddings p lc = bind_res (llama_output_reorder p lc) (\<lambda>lc'. Inr (lc', lc_embd lc'))"

definition llama_get_embeddings_seq :: "'d llama_context \<Rightarrow> int \<Rightarrow> u32 list option" where
  "llama_get_embeddings_seq lc seq_id = lc_embd_seq lc seq_id"

section \<open>Decoding\<close>

definition embd_pooled :: "llama_params \<Rightarrow> bool" where
  "embd_pooled p \<longleftrightarrow> p_embeddings p \<and> p_pooling_type p \<noteq> POOLING_NONE"

definition tokens_valid :: "llama_params \<Rightarrow> llama_batch \<Rightarrow> nat \<Rightarrow> bool res" where
  "tokens_valid p batch n =
     (case b_token batch of
        None \<Rightarrow> Inr True
      | Some ts \<Rightarrow> bind_res (map_res (index_res ts) [0..<n]) (\<lambda>vs. Inr (list_all (\<lambda>t. 0 \<le> t \<and> t < int (p_n_vocab p)) vs)))"

definition count_outputs :: "llama_params \<Rightarrow> llama_batch \<Rightarrow> nat \<Rightarrow> nat res" where
  "count_outputs p batch n =
     (case (b_logits batch, embd_pooled p) of
        (Some ls, False) \<Rightarrow> bind_res (map_res (index_res ls) [0..<n]) (\<lambda>vs. Inr (length (filter (\<lambda>v. v \<noteq> 0) vs)))
      | _ \<Rightarrow> Inr (if p_logits_all p \<or> embd_pooled p then n else 1))"

text \<open>\<open>llama_prepare_sbatch\<close>: the context, the number of outputs and the code returned.\<close>

definition llama_prepare_sbatch ::
  "llama_params \<Rightarrow> 'd runtime \<Rightarrow> 'd llama_context \<Rightarrow> llama_batch \<Rightarrow> ('d llama_context \<times> nat \<times> int) res" where
  "llama_prepare_sbatch p rt lc batch =
     (let n = nat (b_n_tokens batch) in
      bind_res (ggml_assert ((b_token batch = None) \<noteq> (b_embd batch = None))) (\<lambda>_.
      bind_res (tokens_valid p batch n) (\<lambda>valid.
      if \<not> valid then Inr (lc, 0, -1)
      else
        bind_res (ggml_assert (n \<le> p_n_batch p)) (\<lambda>_.
        bind_res (ggml_assert (p_causal_attn p \<or> n \<le> p_n_ubatch p)) (\<lambda>_.
        bind_res (count_outputs p batch n) (\<lambda>n_outputs.
        bind_res (from_batch (r_sort_ids rt) (r_sort_seqs rt) batch (p_n_embd p) (\<not> kv_recurrent (lc_kv lc)) (n_outputs = n) (lc_sbatch lc)) (\<lambda>sb.
          case llama_output_reserve p (r_alloc rt)
                 (lc\<lparr>lc_n_queued_tokens := lc_n_queued_tokens lc + n, lc_embd_seq := Map.empty, lc_sbatch := sb\<rparr>) n_outputs of
            (lc', got) \<Rightarrow> Inr (lc', n_outputs, if got < n_outputs then -2 else 0))))))))"

definition split_next :: "llama_params \<Rightarrow> llama_kv_cache \<Rightarrow> llama_sbatch \<Rightarrow> (llama_ubatch \<times> llama_sbatch) res" where
  "split_next p kv =
     (if kv_recurrent kv then (if embd_pooled p then split_seq (p_n_ubatch p) else split_equal (p_n_ubatch p))
      else split_simple (p_n_ubatch p))"

definition count_ubatch_outputs :: "llama_ubatch \<Rightarrow> nat \<Rightarrow> nat \<Rightarrow> nat res" where
  "count_ubatch_outputs ub n_outputs n_tokens_all =
     (if n_outputs = n_tokens_all then Inr (ub_n_tokens ub)
      else bind_res (map_res (index_res (ub_output ub)) [0..<ub_n_tokens ub]) (\<lambda>vs. Inr (length (filter (\<lambda>v. v \<noteq> 0) vs))))"

definition llama_prepare_ubatch ::
  "llama_params \<Rightarrow> 'd runtime \<Rightarrow> nat \<Rightarrow> nat \<Rightarrow> llama_kv_slot_restorer \<Rightarrow> 'd llama_context
     \<Rightarrow> ('d llama_context \<times> llama_kv_slot_restorer \<times> llama_ubatch \<times> int) res" where
  "llama_prepare_ubatch p rt n_outputs n_tokens_all rs lc =
     bind_res (ggml_assert (sb_n_tokens (lc_sbatch lc) > 0)) (\<lambda>_.
     bind_res (split_next p (lc_kv lc) (lc_sbatch lc)) (\<lambda>(ub, sb).
     bind_res (count_ubatch_outputs ub n_outputs n_tokens_all) (\<lambda>n_new.
       let lc1 = lc\<lparr>lc_sbatch := sb, lc_n_outputs := n_new\<rparr> in
       if p_model_causal p then
         bind_res (llama_kv_cache_update_impl (p_has_rope p) (r_k_shift rt) (p_max_nodes p) (p_n_layer p) (lc_kv lc, lc_data lc)) (\<lambda>(kv1, data1).
         bind_res (kv_prepare (p_flash_attn p) kv1 rs ub) (\<lambda>(kv2, rs', ret).
           Inr (lc1\<lparr>lc_kv := kv2, lc_data := data1\<rparr>, rs', ub, ret)))
       else Inr (lc1, rs, ub, 0))))"

text \<open>The code returned for a failed computation.\<close>

fun status_code :: "ggml_failure \<Rightarrow> int" where
  "status_code ABORTED = 2"
| "status_code ALLOC_FAILED = -2"
| "status_code FAILED = -3"

text \<open>\<open>ggml_backend_tensor_get_async\<close> reads \<open>n\<close> floats of a tensor from an offset on and asserts that it has them.\<close>

definition tensor_get :: "u32 list \<Rightarrow> int \<Rightarrow> nat \<Rightarrow> u32 list res" where
  "tensor_get t off n =
     bind_res (ggml_assert (0 \<le> off \<and> nat off + n \<le> length t)) (\<lambda>_. Inr (take n (drop (nat off) t)))"

text \<open>Rows of \<open>w\<close> floats of the output tensor go to the buffer behind the rows of the earlier micro-batches.\<close>

definition extract_rows ::
  "nat option \<Rightarrow> nat \<Rightarrow> nat \<Rightarrow> nat \<Rightarrow> nat \<Rightarrow> u32 list \<Rightarrow> 'd llama_context \<Rightarrow> 'd llama_context res" where
  "extract_rows ptr sz w n_outputs prev out lc =
     bind_res (ggml_assert (ptr \<noteq> None)) (\<lambda>_.
       let n_new = lc_n_outputs lc in
       if n_new = 0 then Inr lc
       else
         bind_res (ggml_assert (prev + n_new \<le> n_outputs)) (\<lambda>_.
         bind_res (ggml_assert ((prev + n_new) * w \<le> sz)) (\<lambda>_.
         bind_res (tensor_get out 0 (n_new * w)) (\<lambda>vs.
         bind_res (deref (lc_buf_output lc)) (\<lambda>b.
         bind_res (write_at (the ptr + prev * w) vs b) (\<lambda>b'.
           Inr (lc\<lparr>lc_buf_output := Some b'\<rparr>)))))))"

text \<open>One vector of \<open>w\<close> floats per sequence of the micro-batch, unless the sequence has one already.\<close>

definition extract_seqs :: "nat \<Rightarrow> nat \<Rightarrow> llama_ubatch \<Rightarrow> u32 list \<Rightarrow> 'd llama_context \<Rightarrow> 'd llama_context res" where
  "extract_seqs n w ub out lc =
     bind_res (fold_res (\<lambda>s m.
         bind_res (bind_res (index_res (ub_seq_id ub) s) (\<lambda>ids. index_res ids 0)) (\<lambda>seq_id.
           if m seq_id \<noteq> None then Inr m
           else bind_res (tensor_get out (int w * seq_id) w) (\<lambda>vs. Inr (m(seq_id \<mapsto> vs))))) [0..<n] (lc_embd_seq lc))
       (\<lambda>m. Inr (lc\<lparr>lc_embd_seq := m\<rparr>))"

definition extract_outputs :: "llama_params \<Rightarrow> nat \<Rightarrow> nat \<Rightarrow> llama_ubatch \<Rightarrow> u32 list \<Rightarrow> 'd llama_context \<Rightarrow> 'd llama_context res" where
  "extract_outputs p n_outputs prev ub out lc =
     (if lc_n_outputs lc = 0 then Inr lc
      else if \<not> p_embeddings p then extract_rows (lc_logits lc) (lc_logits_size lc) (p_n_vocab p) n_outputs prev out lc
      else
        (case p_pooling_type p of
           POOLING_NONE \<Rightarrow> extract_rows (lc_embd lc) (lc_embd_size lc) (p_n_embd p) n_outputs prev out lc
         | POOLING_RANK \<Rightarrow> extract_seqs (ub_n_seqs ub) 1 ub out lc
         | POOLING_UNSPECIFIED \<Rightarrow> Inl GgmlAbort
         | _ \<Rightarrow> extract_seqs (ub_n_seqs ub) (p_n_embd p) ub out lc))"

text \<open>One round of the loop. The last component is the code when decoding returns.\<close>

definition decode_ubatch ::
  "llama_params \<Rightarrow> 'd runtime \<Rightarrow> nat \<Rightarrow> nat \<Rightarrow> 'd llama_context \<times> llama_kv_slot_restorer \<times> nat
     \<Rightarrow> ('d llama_context \<times> llama_kv_slot_restorer \<times> nat \<times> int option) res" where
  "decode_ubatch p rt n_outputs n_tokens_all st =
     (case st of (lc0, rs0, prev) \<Rightarrow>
        bind_res (llama_prepare_ubatch p rt n_outputs n_tokens_all rs0 lc0) (\<lambda>(lc, rs, ub, ret).
          if ret \<noteq> 0 then Inr (lc, rs, prev, Some ret)
          else
            bind_res (ggml_assert ((if ub_n_tokens ub = 1 then p_n_threads p else p_n_threads_batch p) > 0)) (\<lambda>_.
            bind_res (llama_build_inputs (r_spec rt False) p lc ub) (\<lambda>inp.
            bind_res (llama_set_inputs (r_bucket rt) p ub (lc\<lparr>lc_inputs := inp\<rparr>)) (\<lambda>lc.
              case r_graph rt (lc_kv lc) (lc_data lc) (lc_inputs lc) ub (lc_n_outputs lc) of (status, data', out) \<Rightarrow>
                (case status of
                   Some e \<Rightarrow> Inr (lc\<lparr>lc_kv := restorer_restore rs (lc_kv lc), lc_data := data'\<rparr>, rs, prev, Some (status_code e))
                 | None \<Rightarrow>
                     let kv = lc_kv lc;
                         kv' = (if kv_head kv + ub_n_tokens ub \<ge> kv_size kv then kv\<lparr>kv_head := 0\<rparr>
                                else kv\<lparr>kv_head := kv_head kv + ub_n_tokens ub\<rparr>) in
                     bind_res (extract_outputs p n_outputs prev ub out (lc\<lparr>lc_kv := kv', lc_data := data'\<rparr>)) (\<lambda>lc'.
                       Inr (lc', rs, prev + lc_n_outputs lc', None))))))))"

fun decode_loop ::
  "nat \<Rightarrow> llama_params \<Rightarrow> 'd runtime \<Rightarrow> nat \<Rightarrow> nat \<Rightarrow> 'd llama_context \<times> llama_kv_slot_restorer \<times> nat
     \<Rightarrow> ('d llama_context \<times> int option) res" where
  "decode_loop fuel p rt n_outputs n_tokens_all (lc, rs, prev) =
     (if sb_n_tokens (lc_sbatch lc) > 0 then
        (case fuel of
           0 \<Rightarrow> Inl Diverge
         | Suc fuel' \<Rightarrow>
             bind_res (decode_ubatch p rt n_outputs n_tokens_all (lc, rs, prev)) (\<lambda>(lc', rs', prev', ret).
               case ret of
                 Some r \<Rightarrow> Inr (lc', Some r)
               | None \<Rightarrow> decode_loop fuel' p rt n_outputs n_tokens_all (lc', rs', prev')))
      else Inr (lc, None))"

declare decode_loop.simps [simp del]

definition set_output_mappings :: "nat \<Rightarrow> 'd llama_context \<Rightarrow> 'd llama_context res" where
  "set_output_mappings n_outputs lc =
     (let out_ids = sb_out_ids (lc_sbatch lc) in
      bind_res (ggml_assert (length out_ids = n_outputs)) (\<lambda>_.
      bind_res (set_output_ids out_ids (lc_output_ids lc)) (\<lambda>ids.
        Inr (lc\<lparr>lc_output_ids := ids,
                lc_sbatch := (if out_ids = [0..<n_outputs] then (lc_sbatch lc)\<lparr>sb_out_ids := []\<rparr> else lc_sbatch lc),
                lc_n_outputs := n_outputs\<rparr>))))"

definition llama_decode_impl ::
  "llama_params \<Rightarrow> 'd runtime \<Rightarrow> 'd llama_context \<Rightarrow> llama_batch \<Rightarrow> ('d llama_context \<times> int) res" where
  "llama_decode_impl p rt lc inp_batch =
     (let lc0 = lc\<lparr>lc_is_encoding := False\<rparr> in
      if b_n_tokens inp_batch = 0 then Inr (lc0, -1)
      else
        bind_res (llama_batch_allocr inp_batch (if b_pos inp_batch \<noteq> None then -1 else max_pos (lc_kv lc) + 1)) (\<lambda>batch.
        let n = nat (b_n_tokens batch); rs = slot_restorer (lc_kv lc0) in
        bind_res (llama_prepare_sbatch p rt lc0 batch) (\<lambda>(lc1, n_outputs, ret).
          if ret \<noteq> 0 then Inr (lc1, ret)
          else
            bind_res (decode_loop n p rt n_outputs n (lc1, rs, 0)) (\<lambda>(lc2, ret).
              case ret of
                Some r \<Rightarrow> Inr (lc2, r)
              | None \<Rightarrow>
                  bind_res (set_output_mappings n_outputs lc2) (\<lambda>lc3.
                    Inr (if p_causal_attn p \<and> r_fragmented rt (lc_kv lc3)
                         then lc3\<lparr>lc_kv := llama_kv_cache_defrag (lc_kv lc3)\<rparr> else lc3, 0))))))"

section \<open>Encoding\<close>

text \<open>The sequences of every token, remembered for the cross attention. \<open>seq_ids_enc\<close> is only resized, so the sets
  of an earlier encoding stay in it.\<close>

definition seq_ids_of :: "llama_ubatch \<Rightarrow> nat \<Rightarrow> int set list \<Rightarrow> int set list res" where
  "seq_ids_of ub n old =
     map_res (\<lambda>i.
       bind_res (index_res (ub_n_seq_id ub) i) (\<lambda>k.
       if k \<le> 0 then Inr (if i < length old then old ! i else {})
       else
         bind_res (index_res (ub_seq_id ub) i) (\<lambda>ids.
         bind_res (map_res (index_res ids) [0..<nat k]) (\<lambda>vs.
           Inr ((if i < length old then old ! i else {}) \<union> set vs))))) [0..<n]"

definition encode_extract :: "llama_params \<Rightarrow> nat \<Rightarrow> llama_ubatch \<Rightarrow> u32 list \<Rightarrow> 'd llama_context \<Rightarrow> 'd llama_context res" where
  "encode_extract p n ub out lc =
     (if p_has_decoder p then
        bind_res (tensor_get out 0 (n * p_n_embd p)) (\<lambda>vs.
        bind_res (ggml_assert (\<not> ub_equal_seqs ub)) (\<lambda>_.
        bind_res (seq_ids_of ub n (lc_seq_ids_enc lc)) (\<lambda>ids.
          Inr (lc\<lparr>lc_embd_enc := vs, lc_seq_ids_enc := ids\<rparr>))))
      else if \<not> p_embeddings p then Inr lc
      else
        bind_res (ggml_assert (lc_embd lc \<noteq> None)) (\<lambda>_.
          case p_pooling_type p of
            POOLING_NONE \<Rightarrow>
              bind_res (ggml_assert (n * p_n_embd p \<le> lc_embd_size lc)) (\<lambda>_.
              bind_res (tensor_get out 0 (n * p_n_embd p)) (\<lambda>vs.
              bind_res (deref (lc_buf_output lc)) (\<lambda>b.
              bind_res (write_at (the (lc_embd lc)) vs b) (\<lambda>b'. Inr (lc\<lparr>lc_buf_output := Some b'\<rparr>)))))
          | POOLING_RANK \<Rightarrow> Inl GgmlAbort
          | POOLING_UNSPECIFIED \<Rightarrow> Inl GgmlAbort
          | _ \<Rightarrow>
              bind_res (ggml_assert (\<not> ub_equal_seqs ub)) (\<lambda>_.
                extract_seqs n (p_n_embd p) ub out (lc\<lparr>lc_embd_seq := Map.empty\<rparr>))))"

text \<open>The part of \<open>llama_encode_impl\<close> after the output buffer is reserved.\<close>

definition encode_compute ::
  "llama_params \<Rightarrow> 'd runtime \<Rightarrow> nat \<Rightarrow> llama_ubatch \<Rightarrow> 'd llama_context \<Rightarrow> ('d llama_context \<times> int) res" where
  "encode_compute p rt n ub lc =
     bind_res (set_output_ids [0..<n] (lc_output_ids lc)) (\<lambda>ids.
     let lc0 = lc\<lparr>lc_output_ids := ids, lc_n_outputs := n\<rparr> in
     bind_res (ggml_assert ((if n = 1 then p_n_threads p else p_n_threads_batch p) > 0)) (\<lambda>_.
     bind_res (llama_build_inputs (r_spec rt True) p lc0 ub) (\<lambda>inp.
     bind_res (llama_set_inputs (r_bucket rt) p ub (lc0\<lparr>lc_inputs := inp\<rparr>)) (\<lambda>lc1.
       case r_graph rt (lc_kv lc1) (lc_data lc1) (lc_inputs lc1) ub n of (status, data', out) \<Rightarrow>
         (case status of
            Some e \<Rightarrow> Inr (lc1\<lparr>lc_data := data'\<rparr>, status_code e)
          | None \<Rightarrow> bind_res (encode_extract p n ub out (lc1\<lparr>lc_data := data'\<rparr>)) (\<lambda>lc2. Inr (lc2, 0)))))))"

definition llama_encode_impl ::
  "llama_params \<Rightarrow> 'd runtime \<Rightarrow> 'd llama_context \<Rightarrow> llama_batch \<Rightarrow> ('d llama_context \<times> int) res" where
  "llama_encode_impl p rt lc inp_batch =
     (let lc0 = lc\<lparr>lc_is_encoding := True\<rparr> in
      if b_n_tokens inp_batch = 0 then Inr (lc0, -1)
      else
        bind_res (llama_batch_allocr inp_batch (if b_pos inp_batch \<noteq> None then -1 else max_pos (lc_kv lc) + 1)) (\<lambda>batch.
        let n = nat (b_n_tokens batch) in
        bind_res (ggml_assert ((b_token batch = None) \<noteq> (b_embd batch = None))) (\<lambda>_.
        bind_res (tokens_valid p batch n) (\<lambda>valid.
        if \<not> valid then Inr (lc0, -1)
        else
          bind_res (ggml_assert (n \<le> p_n_ubatch p)) (\<lambda>_.
          let lc1 = lc0\<lparr>lc_n_queued_tokens := lc_n_queued_tokens lc0 + n\<rparr> in
          bind_res (from_batch (r_sort_ids rt) (r_sort_seqs rt) batch (p_n_embd p) True True (lc_sbatch lc1)) (\<lambda>sb.
          bind_res (split_simple n sb) (\<lambda>(ub, sb').
            case llama_output_reserve p (r_alloc rt) (lc1\<lparr>lc_sbatch := sb'\<rparr>) n of (lc2, got) \<Rightarrow>
              if got < n then Inr (lc2, -2)
              else encode_compute p rt n ub lc2)))))))"

end
