(* ===== verification/Inputs_Fill.thy ===== *)
theory Inputs_Fill
  imports Inputs
begin

text \<open>
  What \<open>llama_set_inputs\<close> writes: it succeeds on the tensors the builders create, the attention masks show
  every token exactly the cells of its own sequence up to its position, and the recurrent states are cleared and copied once.
\<close>

section \<open>Loops that fill a tensor in order\<close>

lemma fold_res_upt:
  assumes "I a s" "a \<le> b" "\<And>i s. a \<le> i \<Longrightarrow> i < b \<Longrightarrow> I i s \<Longrightarrow> \<exists>s'. f i s = Inr s' \<and> I (Suc i) s'"
  shows "\<exists>s'. fold_res f [a..<b] s = Inr s' \<and> I b s'"
  using assms
proof (induction "b - a" arbitrary: a s)
  case (Suc n)
  then have "a < b" by simp
  then obtain s1 where s1: "f a s = Inr s1" "I (Suc a) s1" using Suc.prems by blast
  have "\<exists>s'. fold_res f [Suc a..<b] s1 = Inr s' \<and> I b s'"
    using Suc.hyps(1)[of "Suc a" s1] Suc.hyps(2) Suc.prems(3) s1(2) \<open>a < b\<close> by simp
  then show ?case using s1(1) \<open>a < b\<close> by (simp add: upt_conv_Cons)
qed simp

text \<open>The first \<open>m\<close> of \<open>n\<close> entries are those of \<open>F\<close>.\<close>

definition filled :: "(nat \<Rightarrow> 'a) \<Rightarrow> nat \<Rightarrow> nat \<Rightarrow> 'a option list \<Rightarrow> bool" where
  "filled F n m d \<longleftrightarrow> length d = n \<and> (\<forall>k < m. d ! k = Some (F k))"

definition filled_opt :: "(nat \<Rightarrow> 'a) \<Rightarrow> nat \<Rightarrow> nat \<Rightarrow> 'a option list option \<Rightarrow> bool" where
  "filled_opt F n m d \<longleftrightarrow> (case d of None \<Rightarrow> True | Some d \<Rightarrow> filled F n m d)"

lemma put_filled:
  assumes "filled F n m d" "m < n" "v = F m"
  shows "\<exists>d'. put m v d = Inr d' \<and> filled F n (Suc m) d'"
  using assms by (auto simp: filled_def put_def less_Suc_eq)

lemma put_opt_filled:
  assumes "filled_opt F n m d" "m < n" "v = F m"
  shows "\<exists>d'. put_opt m v d = Inr d' \<and> filled_opt F n (Suc m) d' \<and> (d' = None \<longleftrightarrow> d = None)"
proof (cases d)
  case (Some xs)
  then obtain xs' where "put m v xs = Inr xs'" "filled F n (Suc m) xs'"
    using put_filled[of F n m xs v] assms by (auto simp: filled_opt_def)
  then show ?thesis using Some by (simp add: put_opt_def filled_opt_def)
qed (simp add: put_opt_def filled_opt_def)

lemma filled_full: "filled F n n d \<longleftrightarrow> d = map (\<lambda>k. Some (F k)) [0..<n]"
  by (auto simp: filled_def intro!: nth_equalityI)

lemma filled_none: "filled F n 0 (replicate n None)"
  by (simp add: filled_def)

text \<open>Rows of \<open>w\<close> entries, one after the other.\<close>

lemma entry_lt: "t < r \<Longrightarrow> i < w \<Longrightarrow> t * w + i < r * w" for t r i w :: nat
  using mult_le_mono1[of "Suc t" r w] by simp

lemma pad_rows_filled:
  assumes "filled_opt F (R * w) (n * w) d" "R = GGML_PAD n GGML_KQ_MASK_PAD" "n \<le> R" "\<And>k. n * w \<le> k \<Longrightarrow> k < R * w \<Longrightarrow> F k = NegInf"
  shows "\<exists>d'. pad_rows n w d = Inr d' \<and> filled_opt F (R * w) (R * w) d' \<and> (d' = None \<longleftrightarrow> d = None)"
  unfolding pad_rows_def assms(2)[symmetric]
proof (rule fold_res_upt[where I = "\<lambda>i d'. filled_opt F (R * w) (i * w) d' \<and> (d' = None \<longleftrightarrow> d = None)"])
  fix i d1 assume i: "n \<le> i" "i < R" and d1: "filled_opt F (R * w) (i * w) d1 \<and> (d1 = None \<longleftrightarrow> d = None)"
  have "\<exists>d2. fold_res (\<lambda>j. put_opt (i * w + j) NegInf) [0..<w] d1 = Inr d2
      \<and> (filled_opt F (R * w) (i * w + w) d2 \<and> (d2 = None \<longleftrightarrow> d = None))"
  proof (rule fold_res_upt[where I = "\<lambda>j d'. filled_opt F (R * w) (i * w + j) d' \<and> (d' = None \<longleftrightarrow> d = None)"])
    fix j d2 assume j: "j < w" and d2: "filled_opt F (R * w) (i * w + j) d2 \<and> (d2 = None \<longleftrightarrow> d = None)"
    have "n * w \<le> i * w + j" using mult_le_mono1[OF i(1)] by (rule trans_le_add1)
    then show "\<exists>s'. put_opt (i * w + j) NegInf d2 = Inr s' \<and> (filled_opt F (R * w) (i * w + Suc j) s' \<and> (s' = None \<longleftrightarrow> d = None))"
      using put_opt_filled[of F "R * w" "i * w + j" d2 NegInf] d2 entry_lt[OF i(2) j] assms(4) by auto
  qed (use d1 in simp_all)
  then show "\<exists>s'. fold_res (\<lambda>j. put_opt (i * w + j) NegInf) [0..<w] d1 = Inr s'
      \<and> (filled_opt F (R * w) (Suc i * w) s' \<and> (s' = None \<longleftrightarrow> d = None))" by (simp add: add.commute)
qed (use assms(1,3) in simp_all)

section \<open>The causal masks\<close>

text \<open>What token \<open>t\<close> sees of cell \<open>i\<close>; the rows after the last token are padding.\<close>

definition token_seq :: "llama_ubatch \<Rightarrow> nat \<Rightarrow> int" where
  "token_seq ub t = hd (ub_seq_id ub ! (t div ub_n_seq_tokens ub))"

definition mask_at :: "llama_params \<Rightarrow> llama_kv_cache \<Rightarrow> llama_ubatch \<Rightarrow> nat \<Rightarrow> kq" where
  "mask_at p kv ub k =
     (let t = k div kv_n kv; i = k mod kv_n kv in
      if t < ub_n_tokens ub then kq_cell (p_use_alibi p) (token_seq ub t) (ub_pos ub ! t) (kv_cells kv ! i) else NegInf)"

definition swa_at :: "llama_params \<Rightarrow> llama_kv_cache \<Rightarrow> llama_ubatch \<Rightarrow> nat \<Rightarrow> kq" where
  "swa_at p kv ub k =
     (let t = k div kv_n kv; i = k mod kv_n kv in
      if t < ub_n_tokens ub then kq_swa (p_n_swa p) (ub_pos ub ! t) (kv_cells kv ! i) (mask_at p kv ub k) else NegInf)"

definition masks_filled ::
  "llama_params \<Rightarrow> llama_kv_cache \<Rightarrow> llama_ubatch \<Rightarrow> nat \<Rightarrow> nat \<Rightarrow> kq option list option \<times> kq option list option
     \<Rightarrow> kq option list option \<times> kq option list option \<Rightarrow> bool" where
  "masks_filled p kv ub n m d0 d \<longleftrightarrow> filled_opt (mask_at p kv ub) n m (fst d) \<and> filled_opt (swa_at p kv ub) n m (snd d)
     \<and> (fst d = None \<longleftrightarrow> fst d0 = None) \<and> (snd d = None \<longleftrightarrow> snd d0 = None)"

lemma causal_cell_ok:
  assumes "masks_filled p kv ub (R * kv_n kv) (t * kv_n kv + i) d0 d" "i < kv_n kv" "kv_n kv \<le> length (kv_cells kv)"
    "t < ub_n_tokens ub" "ub_n_tokens ub \<le> R"
  shows "\<exists>d'. causal_cell p kv (token_seq ub t) (ub_pos ub ! t) t i d = Inr d'
    \<and> masks_filled p kv ub (R * kv_n kv) (t * kv_n kv + Suc i) d0 d'"
proof -
  let ?k = "t * kv_n kv + i" and ?c = "kv_cells kv ! i"
  let ?f = "kq_cell (p_use_alibi p) (token_seq ub t) (ub_pos ub ! t) ?c"
  have dm: "?k div kv_n kv = t" "?k mod kv_n kv = i" using assms(2) by simp_all
  then have f: "?f = mask_at p kv ub ?k" "kq_swa (p_n_swa p) (ub_pos ub ! t) ?c ?f = swa_at p kv ub ?k"
    using assms(4) by (simp_all add: mask_at_def swa_at_def Let_def)
  have lt: "?k < R * kv_n kv" using entry_lt[of t R i "kv_n kv"] assms(2,4,5) by simp
  obtain d1 where d1: "put_opt ?k ?f (fst d) = Inr d1" "filled_opt (mask_at p kv ub) (R * kv_n kv) (Suc ?k) d1" "d1 = None \<longleftrightarrow> fst d = None"
    using put_opt_filled[of "mask_at p kv ub", OF _ lt f(1), of "fst d"] assms(1) by (auto simp: masks_filled_def)
  obtain d2 where d2: "put_opt ?k (kq_swa (p_n_swa p) (ub_pos ub ! t) ?c ?f) (snd d) = Inr d2"
    "filled_opt (swa_at p kv ub) (R * kv_n kv) (Suc ?k) d2" "d2 = None \<longleftrightarrow> snd d = None"
    using put_opt_filled[of "swa_at p kv ub", OF _ lt f(2), of "snd d"] assms(1) by (auto simp: masks_filled_def)
  have "causal_cell p kv (token_seq ub t) (ub_pos ub ! t) t i d = Inr (d1, d2)"
    using d1(1) d2(1) assms(2,3) by (simp add: causal_cell_def index_res_def Let_def)
  then show ?thesis using d1 d2 assms(1) by (simp add: masks_filled_def)
qed

lemma ubatch_reads:
  assumes "ubatch_shape w ub" "s < ub_n_seqs ub"
  shows "first_seq ub s = Inr (hd (ub_seq_id ub ! s))" "hd (ub_seq_id ub ! s) \<in> set (take (nat (ub_n_seq_id ub ! s)) (ub_seq_id ub ! s))"
proof -
  have k: "1 \<le> ub_n_seq_id ub ! s" "ub_n_seq_id ub ! s \<le> int (length (ub_seq_id ub ! s))" "s < length (ub_seq_id ub)"
    using assms by (auto simp: ubatch_shape_def)
  then have ne: "ub_seq_id ub ! s \<noteq> []" by auto
  then show "first_seq ub s = Inr (hd (ub_seq_id ub ! s))" using k(3) by (simp add: first_seq_def index_res_def hd_conv_nth)
  show "hd (ub_seq_id ub ! s) \<in> set (take (nat (ub_n_seq_id ub ! s)) (ub_seq_id ub ! s))"
    using ne k(1) by (cases "ub_seq_id ub ! s"; cases "nat (ub_n_seq_id ub ! s)") auto
qed

lemma causal_rows_ok:
  assumes sh: "ubatch_shape w ub" and kv: "kv_n kv \<le> length (kv_cells kv)" and R: "ub_n_tokens ub \<le> R"
    and d: "masks_filled p kv ub (R * kv_n kv) 0 d0 d"
  shows "\<exists>d'. causal_rows p kv ub d = Inr d' \<and> masks_filled p kv ub (R * kv_n kv) (ub_n_tokens ub * kv_n kv) d0 d'"
proof -
  let ?L = "ub_n_seq_tokens ub" and ?I = "\<lambda>t d'. masks_filled p kv ub (R * kv_n kv) (t * kv_n kv) d0 d'"
  have n: "ub_n_tokens ub = ub_n_seqs ub * ?L" "ub_n_tokens ub \<le> length (ub_pos ub)" using sh by (simp_all add: ubatch_shape_def)
  have row: "\<exists>d2. bind_res (index_res (ub_pos ub) (s * ?L + j)) (\<lambda>pos.
      fold_res (causal_cell p kv (hd (ub_seq_id ub ! s)) pos (s * ?L + j)) [0..<kv_n kv] d1) = Inr d2 \<and> ?I (s * ?L + Suc j) d2"
    if s: "s < ub_n_seqs ub" and j: "j < ?L" and d1: "?I (s * ?L + j) d1" for s j d1
  proof -
    have t: "s * ?L + j < ub_n_tokens ub" using entry_lt[OF s j] n by simp
    have q: "token_seq ub (s * ?L + j) = hd (ub_seq_id ub ! s)" using j by (simp add: token_seq_def)
    have "\<exists>d2. fold_res (causal_cell p kv (hd (ub_seq_id ub ! s)) (ub_pos ub ! (s * ?L + j)) (s * ?L + j)) [0..<kv_n kv] d1 = Inr d2
        \<and> masks_filled p kv ub (R * kv_n kv) ((s * ?L + j) * kv_n kv + kv_n kv) d0 d2"
      using causal_cell_ok[OF _ _ kv t R, of p] d1 unfolding q by (intro fold_res_upt[where a = 0]) simp_all
    then show ?thesis using t n by (simp add: index_res_def add.commute[of "kv_n kv"])
  qed
  have "\<exists>d'. causal_rows p kv ub d = Inr d' \<and> ?I (ub_n_seqs ub * ?L) d'" unfolding causal_rows_def
  proof (rule fold_res_upt[where I = "\<lambda>s. ?I (s * ?L)"])
    fix s d1 assume s: "s < ub_n_seqs ub" and d1: "?I (s * ?L) d1"
    have "\<exists>d2. fold_res (\<lambda>j d. bind_res (index_res (ub_pos ub) (s * ?L + j)) (\<lambda>pos.
        fold_res (causal_cell p kv (hd (ub_seq_id ub ! s)) pos (s * ?L + j)) [0..<kv_n kv] d)) [0..<?L] d1 = Inr d2 \<and> ?I (s * ?L + ?L) d2"
      using row[OF s] d1 by (intro fold_res_upt[where I = "\<lambda>j. ?I (s * ?L + j)"]) simp_all
    then show "\<exists>d'. bind_res (first_seq ub s) (\<lambda>seq_id. fold_res (\<lambda>j d. bind_res (index_res (ub_pos ub) (s * ?L + j)) (\<lambda>pos.
        fold_res (causal_cell p kv seq_id pos (s * ?L + j)) [0..<kv_n kv] d)) [0..<?L] d1) = Inr d' \<and> ?I (Suc s * ?L) d'"
      by (simp add: ubatch_reads(1)[OF sh s] add.commute[of ?L])
  qed (use d in simp_all)
  then show ?thesis using n by simp
qed

text \<open>The data of a mask the builder created.\<close>

definition mask_tensor :: "bool \<Rightarrow> nat \<Rightarrow> (nat \<Rightarrow> 'a) \<Rightarrow> 'a tensor" where
  "mask_tensor host n F = \<lparr>tn_host = host, tn_data = map (\<lambda>k. Some (F k)) [0..<n]\<rparr>"

lemma mask_rows_ge: "n + 64 < 2 ^ 32 \<Longrightarrow> n \<le> GGML_PAD n GGML_KQ_MASK_PAD"
  using pad_round_up[of n 6] by (simp add: GGML_KQ_MASK_PAD_def)

lemma set_causal_masks_ok:
  assumes sh: "ubatch_shape w ub" and kv: "kv_n kv \<le> length (kv_cells kv)" and n: "ub_n_tokens ub + 64 < 2 ^ 32"
    and g: "g_host g" and m: "inp_KQ_mask inp \<in> {None, new_tensor g (kv_n kv * GGML_PAD (ub_n_tokens ub) GGML_KQ_MASK_PAD)}"
    and ms: "inp_KQ_mask_swa inp \<in> {None, new_tensor g (kv_n kv * GGML_PAD (ub_n_tokens ub) GGML_KQ_MASK_PAD)}"
  shows "set_causal_masks p kv ub inp = Inr (inp
    \<lparr>inp_KQ_mask := map_option (\<lambda>_. mask_tensor (g_host g) (GGML_PAD (ub_n_tokens ub) GGML_KQ_MASK_PAD * kv_n kv) (mask_at p kv ub)) (inp_KQ_mask inp),
     inp_KQ_mask_swa := map_option (\<lambda>_. mask_tensor (g_host g) (GGML_PAD (ub_n_tokens ub) GGML_KQ_MASK_PAD * kv_n kv) (swa_at p kv ub)) (inp_KQ_mask_swa inp)\<rparr>)"
proof -
  let ?R = "GGML_PAD (ub_n_tokens ub) GGML_KQ_MASK_PAD" and ?n = "ub_n_tokens ub"
  let ?N = "?R * kv_n kv"
  let ?d = "\<lambda>t. map_option (\<lambda>_. replicate ?N None) t :: kq option list option"
  have R: "?n \<le> ?R" using mask_rows_ge[OF n] .
  have o: "opt_data (inp_KQ_mask inp) = Inr (?d (inp_KQ_mask inp))" "opt_data (inp_KQ_mask_swa inp) = Inr (?d (inp_KQ_mask_swa inp))"
    using m ms g by (auto simp: opt_data_def host_data_def new_tensor_def mult.commute)
  have "masks_filled p kv ub ?N 0 (?d (inp_KQ_mask inp), ?d (inp_KQ_mask_swa inp)) (?d (inp_KQ_mask inp), ?d (inp_KQ_mask_swa inp))"
    by (simp add: masks_filled_def filled_opt_def filled_none split: option.split)
  from causal_rows_ok[OF sh kv R this] obtain d1 d2 where
    c: "causal_rows p kv ub (?d (inp_KQ_mask inp), ?d (inp_KQ_mask_swa inp)) = Inr (d1, d2)"
      "filled_opt (mask_at p kv ub) ?N (?n * kv_n kv) d1" "filled_opt (swa_at p kv ub) ?N (?n * kv_n kv) d2"
      "d1 = None \<longleftrightarrow> inp_KQ_mask inp = None" "d2 = None \<longleftrightarrow> inp_KQ_mask_swa inp = None"
    by (auto simp: masks_filled_def)
  have pad: "F k = NegInf" if "F = mask_at p kv ub \<or> F = swa_at p kv ub" "?n * kv_n kv \<le> k" "k < ?N" for F k
  proof -
    have "0 < kv_n kv" using that(3) by (cases "kv_n kv") auto
    then have "\<not> k div kv_n kv < ?n" using that(2) by (simp add: less_eq_div_iff_mult_less_eq not_less)
    then show ?thesis using that(1) by (auto simp: mask_at_def swa_at_def Let_def)
  qed
  obtain d1' where d1': "pad_rows ?n (kv_n kv) d1 = Inr d1'" "filled_opt (mask_at p kv ub) ?N ?N d1'" "d1' = None \<longleftrightarrow> d1 = None"
    using pad_rows_filled[OF c(2) refl R pad[of "mask_at p kv ub"]] by auto
  obtain d2' where d2': "pad_rows ?n (kv_n kv) d2 = Inr d2'" "filled_opt (swa_at p kv ub) ?N ?N d2'" "d2' = None \<longleftrightarrow> d2 = None"
    using pad_rows_filled[OF c(3) refl R pad[of "swa_at p kv ub"]] by auto
  have w: "with_data t d = map_option (\<lambda>_. mask_tensor (g_host g) ?N F) t"
    if "filled_opt F ?N ?N d" "d = None \<longleftrightarrow> t = None" "t \<in> {None, new_tensor g (kv_n kv * ?R)}" for t d and F :: "nat \<Rightarrow> kq"
    using that g by (cases t; cases d) (auto simp: with_data_def filled_opt_def filled_full mask_tensor_def new_tensor_def)
  show ?thesis unfolding set_causal_masks_def o c(1) bind_res_simps prod.case d1'(1) d2'(1)
    using w[OF d1'(2) _ m] w[OF d2'(2) _ ms] c(4,5) d1'(3) d2'(3) by simp
qed

section \<open>The other inputs of a decoder\<close>

lemma filter_upt_split:
  assumes "i < n"
  shows "filter P [0..<n] = filter P [0..<i] @ (if P i then [i] else []) @ filter P [Suc i..<n]"
proof -
  have "[0..<n] = [0..<i] @ i # [Suc i..<n]" using assms upt_add_eq_append[of 0 i "n - i"] by (simp add: upt_conv_Cons)
  then show ?thesis by simp
qed

text \<open>The output ids are the indices of the tokens whose output is wanted.\<close>

lemma out_ids_ok:
  assumes fl: "n \<le> length flags" and k: "n_outputs = length (filter (\<lambda>i. flags ! i \<noteq> 0) [0..<n])"
  shows "out_ids_data n_outputs n (Some flags) (replicate n_outputs None)
    = Inr (map (\<lambda>i. Some (int i)) (filter (\<lambda>i. flags ! i \<noteq> 0) [0..<n]))"
proof (cases "n_outputs = n")
  case True
  then have all: "filter (\<lambda>i. flags ! i \<noteq> 0) [0..<n] = [0..<n]"
    using k filter_id_conv[of "\<lambda>i. flags ! i \<noteq> 0" "[0..<n]"] length_filter_less[of _ "[0..<n]" "\<lambda>i. flags ! i \<noteq> 0"] by fastforce
  have "\<exists>d'. fold_res (\<lambda>i. put i (int i)) [0..<n] (replicate n None) = Inr d' \<and> filled int n n d'"
    by (rule fold_res_upt) (simp_all add: filled_none put_filled)
  then show ?thesis using True by (auto simp: out_ids_data_def all filled_full)
next
  case False
  let ?P = "\<lambda>i. flags ! i \<noteq> 0"
  let ?F = "\<lambda>k. int (filter ?P [0..<n] ! k)" and ?c = "\<lambda>i. length (filter ?P [0..<i])"
  have "\<exists>s'. fold_res (\<lambda>i (d, k). bind_res (index_res flags i) (\<lambda>v.
      if v \<noteq> 0 then bind_res (put k (int i) d) (\<lambda>d'. Inr (d', k + 1)) else Inr (d, k))) [0..<n] (replicate n_outputs None, 0)
      = Inr s' \<and> (filled ?F n_outputs (?c n) (fst s') \<and> snd s' = ?c n)"
  proof (rule fold_res_upt[where I = "\<lambda>i s. filled ?F n_outputs (?c i) (fst s) \<and> snd s = ?c i"])
    fix i s assume i: "i < n" and s: "filled ?F n_outputs (?c i) (fst s) \<and> snd s = ?c i"
    obtain d where d: "s = (d, ?c i)" "filled ?F n_outputs (?c i) d" using s by (cases s) auto
    show "\<exists>s'. (case s of (d, k) \<Rightarrow> bind_res (index_res flags i) (\<lambda>v.
        if v \<noteq> 0 then bind_res (put k (int i) d) (\<lambda>d'. Inr (d', k + 1)) else Inr (d, k))) = Inr s'
        \<and> (filled ?F n_outputs (?c (Suc i)) (fst s') \<and> snd s' = ?c (Suc i))"
    proof (cases "?P i")
      case True
      have "int i = ?F (?c i)" "?c i < n_outputs" using filter_upt_split[OF i, of ?P] True k by (simp_all add: nth_append)
      then obtain d' where "put (?c i) (int i) d = Inr d'" "filled ?F n_outputs (Suc (?c i)) d'" using put_filled[OF d(2)] by blast
      then show ?thesis using True i fl d(1) by (simp add: index_res_def)
    next
      case False
      then show ?thesis using i fl d by (simp add: index_res_def)
    qed
  qed (simp_all add: filled_none)
  then obtain s' where s': "fold_res (\<lambda>i (d, k). bind_res (index_res flags i) (\<lambda>v.
      if v \<noteq> 0 then bind_res (put k (int i) d) (\<lambda>d'. Inr (d', k + 1)) else Inr (d, k))) [0..<n] (replicate n_outputs None, 0) = Inr s'"
    "filled ?F n_outputs n_outputs (fst s')" "snd s' = n_outputs" unfolding k[symmetric] by blast
  have "fst s' = map (\<lambda>i. Some (int i)) (filter ?P [0..<n])"
    using s'(2) k by (auto simp: filled_full intro: nth_equalityI)
  then show ?thesis using s'(1,3) False by (cases s') (simp add: out_ids_data_def)
qed

lemma tensor_set_new:
  assumes "n \<le> length src"
  shows "tensor_set (new_tensor g n) src n = Inr (Some \<lparr>tn_host = g_host g, tn_data = map Some (take n src)\<rparr>)"
  using assms by (simp add: tensor_set_def new_tensor_def)

text \<open>The builder of a causal decoder without an encoder, with one position per token.\<close>

definition decoder_spec :: "llama_params \<Rightarrow> graph_spec \<Rightarrow> bool" where
  "decoder_spec p g \<longleftrightarrow> g_host g \<and> g_KQ_mask g \<noteq> Some False \<and> g_KQ_mask_swa g \<noteq> Some False
     \<and> (g_KQ_mask_swa g \<noteq> None \<longrightarrow> 0 < p_n_swa p) \<and> g_pos_bucket g = None \<and> \<not> g_embd_enc g \<and> \<not> g_KQ_mask_cross g
     \<and> p_n_pos_per_token p = 1 \<and> p_model_causal p \<and> p_causal_attn p \<and> \<not> p_embeddings p"

text \<open>The inputs of the micro-batch as the graph should get them.\<close>

definition decoder_inputs :: "llama_params \<Rightarrow> graph_spec \<Rightarrow> llama_kv_cache \<Rightarrow> llama_ubatch \<Rightarrow> llama_inputs" where
  "decoder_inputs p g kv ub =
     (let n = ub_n_tokens ub; N = GGML_PAD n GGML_KQ_MASK_PAD * kv_n kv;
          t = (\<lambda>xs. Some \<lparr>tn_host = g_host g, tn_data = map Some xs\<rparr>) in
      no_inputs\<lparr>inp_tokens := (case ub_token ub of None \<Rightarrow> None | Some toks \<Rightarrow> t (take n toks)),
        inp_embd := (case ub_embd ub of None \<Rightarrow> None | Some es \<Rightarrow> Some \<lparr>tn_host = g_host g, tn_data = map Some (take (p_n_embd p * n) es)\<rparr>),
        inp_pos := (if g_pos g then t (take n (ub_pos ub)) else None),
        inp_out_ids := (if g_out_ids g then t (map int (filter (\<lambda>i. ub_output ub ! i \<noteq> 0) [0..<n])) else None),
        inp_KQ_mask := (if g_KQ_mask g = None then None else Some (mask_tensor (g_host g) N (mask_at p kv ub))),
        inp_KQ_mask_swa := (if g_KQ_mask_swa g = None then None else Some (mask_tensor (g_host g) N (swa_at p kv ub))),
        inp_s_copy := (if g_s_copy g then new_tensor g (kv_n kv) else None),
        inp_s_mask := (if g_s_mask g then new_tensor g (kv_n kv) else None)\<rparr>)"

text \<open>The tensors as the builders leave them.\<close>

definition fresh_inputs :: "llama_params \<Rightarrow> graph_spec \<Rightarrow> llama_kv_cache \<Rightarrow> nat \<Rightarrow> llama_ubatch \<Rightarrow> llama_inputs" where
  "fresh_inputs p g kv n_outputs ub =
     (let n = ub_n_tokens ub; N = kv_n kv * GGML_PAD n GGML_KQ_MASK_PAD in
      no_inputs\<lparr>inp_tokens := (if ub_token ub = None then None else new_tensor g n),
        inp_embd := (if ub_token ub = None then new_tensor g (p_n_embd p * n) else None),
        inp_pos := (if g_pos g then new_tensor g n else None),
        inp_out_ids := (if g_out_ids g then new_tensor g n_outputs else None),
        inp_KQ_mask := (if g_KQ_mask g = None then None else new_tensor g N),
        inp_KQ_mask_swa := (if g_KQ_mask_swa g = None then None else new_tensor g N),
        inp_s_copy := (if g_s_copy g then new_tensor g (kv_n kv) else None),
        inp_s_mask := (if g_s_mask g then new_tensor g (kv_n kv) else None)\<rparr>)"

lemma build_decoder:
  assumes "decoder_spec p g"
  shows "llama_build_inputs g p lc ub = Inr (fresh_inputs p g (lc_kv lc) (lc_n_outputs lc) ub)"
proof -
  have m: "g_KQ_mask g = None \<or> g_KQ_mask g = Some True" "g_KQ_mask_swa g = None \<or> g_KQ_mask_swa g = Some True \<and> 0 < p_n_swa p"
    using assms by (cases "g_KQ_mask g"; cases "g_KQ_mask_swa g"; simp add: decoder_spec_def)+
  have f: "g_pos_bucket g = None" "\<not> g_embd_enc g" "\<not> g_KQ_mask_cross g" "p_n_pos_per_token p = 1" "\<not> p_embeddings p"
    using assms by (auto simp: decoder_spec_def)
  note defs = llm_build_inp_embd_def build_inp_pos_def build_inp_out_ids_def build_inp_KQ_mask_def build_inp_KQ_mask_swa_def
    build_inp_s_copy_def build_inp_s_mask_def
  have upd: "llm_build_inp_embd g p ub inp = inp\<lparr>inp_tokens := (if ub_token ub = None then inp_tokens inp else new_tensor g (ub_n_tokens ub)),
        inp_embd := (if ub_token ub = None then new_tensor g (p_n_embd p * ub_n_tokens ub) else inp_embd inp)\<rparr>"
    "(if g_pos g then build_inp_pos g p ub inp else inp) = inp\<lparr>inp_pos := (if g_pos g then new_tensor g (ub_n_tokens ub) else inp_pos inp)\<rparr>"
    "(if g_out_ids g then build_inp_out_ids g k inp else inp) = inp\<lparr>inp_out_ids := (if g_out_ids g then new_tensor g k else inp_out_ids inp)\<rparr>"
    "(if g_s_copy g then build_inp_s_copy g k inp else inp) = inp\<lparr>inp_s_copy := (if g_s_copy g then new_tensor g k else inp_s_copy inp)\<rparr>"
    "(if g_s_mask g then build_inp_s_mask g k inp else inp) = inp\<lparr>inp_s_mask := (if g_s_mask g then new_tensor g k else inp_s_mask inp)\<rparr>"
    for inp k using f(4) by (simp_all add: defs)
  have mask: "(case g_KQ_mask g of None \<Rightarrow> inp | Some causal \<Rightarrow> build_inp_KQ_mask g k n causal inp)
      = inp\<lparr>inp_KQ_mask := (if g_KQ_mask g = None then inp_KQ_mask inp else new_tensor g (k * GGML_PAD n GGML_KQ_MASK_PAD))\<rparr>"
    "(case g_KQ_mask_swa g of None \<Rightarrow> Inr inp | Some causal \<Rightarrow> build_inp_KQ_mask_swa g p k n causal inp)
      = Inr (inp\<lparr>inp_KQ_mask_swa := (if g_KQ_mask_swa g = None then inp_KQ_mask_swa inp else new_tensor g (k * GGML_PAD n GGML_KQ_MASK_PAD))\<rparr>)"
    for inp k n using m by (auto simp: defs)
  show ?thesis unfolding llama_build_inputs_def fresh_inputs_def Let_def upd mask f(1) option.case bind_res_simps
    using f(2,3,5) by (simp add: no_inputs_def)
qed

text \<open>The states of a recurrent cache. \<open>own_src\<close> is the cells after those from \<open>lo\<close> up to \<open>hi\<close> that satisfy \<open>P\<close> were made to
  point to themselves.\<close>

definition own_src :: "nat \<Rightarrow> nat \<Rightarrow> (llama_kv_cell \<Rightarrow> bool) \<Rightarrow> llama_kv_cell list \<Rightarrow> llama_kv_cell list" where
  "own_src lo hi P cells =
     map (\<lambda>j. if lo \<le> j \<and> j < hi \<and> P (cells ! j) then (cells ! j)\<lparr>c_src := int j\<rparr> else cells ! j) [0..<length cells]"

lemma own_src_none: "own_src lo lo P cells = cells"
  by (auto simp: own_src_def intro: nth_equalityI)

lemma own_src_nth: "j < length cells \<Longrightarrow> own_src lo hi P cells ! j = (if lo \<le> j \<and> j < hi \<and> P (cells ! j) then (cells ! j)\<lparr>c_src := int j\<rparr> else cells ! j)"
  by (simp add: own_src_def)

lemma length_own_src [simp]: "length (own_src lo hi P cells) = length cells"
  by (simp add: own_src_def)

lemma own_src_step:
  assumes "lo \<le> h" "h < length cells"
  shows "own_src lo (Suc h) P cells = (if P (cells ! h) then (own_src lo h P cells)[h := (cells ! h)\<lparr>c_src := int h\<rparr>] else own_src lo h P cells)"
  using assms by (auto simp: own_src_nth nth_list_update less_Suc_eq intro!: nth_equalityI)

lemma s_mask_loop:
  assumes "head + n \<le> length cells"
  shows "fold_res (s_mask_step head) [0..<n] (cells, replicate n None)
    = Inr (own_src head (head + n) (\<lambda>c. c_src c < 0) cells, map (\<lambda>i. Some (0 \<le> c_src (cells ! (head + i)))) [0..<n])"
proof -
  let ?F = "\<lambda>i. 0 \<le> c_src (cells ! (head + i))" and ?P = "\<lambda>c. c_src c < 0"
  have "\<exists>st. fold_res (s_mask_step head) [0..<n] (cells, replicate n None) = Inr st
      \<and> (fst st = own_src head (head + n) ?P cells \<and> filled ?F n n (snd st))"
  proof (rule fold_res_upt[where I = "\<lambda>i st. fst st = own_src head (head + i) ?P cells \<and> filled ?F n i (snd st)"])
    fix i st assume i: "i < n" and st: "fst st = own_src head (head + i) ?P cells \<and> filled ?F n i (snd st)"
    obtain d' where d': "put i (?F i) (snd st) = Inr d'" "filled ?F n (Suc i) d'" using put_filled[of ?F n i "snd st"] st i by auto
    have c: "fst st ! (head + i) = cells ! (head + i)" "head + i < length cells" using st i assms by (auto simp: own_src_nth)
    have "s_mask_step head i st = Inr (own_src head (head + Suc i) ?P cells, d')"
      using st c d'(1) own_src_step[OF le_add1 c(2), of ?P] by (cases st) (simp add: s_mask_step_def Let_def index_res_def add.commute[of i])
    then show "\<exists>st'. s_mask_step head i st = Inr st' \<and> (fst st' = own_src head (head + Suc i) ?P cells \<and> filled ?F n (Suc i) (snd st'))"
      using d'(2) by simp
  qed (simp_all add: own_src_none filled_none)
  then show ?thesis by (auto simp: filled_full)
qed

text \<open>Where a state is copied from.\<close>

definition state_source :: "nat \<Rightarrow> nat \<Rightarrow> llama_kv_cell \<Rightarrow> int" where
  "state_source sz j c = (if 0 \<le> c_src c \<and> c_src c < int sz then c_src c else int j)"

lemma s_copy_loop:
  assumes "head + n \<le> length cells"
  shows "fold_res (s_copy_step head sz) [0..<n] (cells, replicate n None)
    = Inr (own_src head (head + n) (\<lambda>_. True) cells, map (\<lambda>i. Some (state_source sz (head + i) (cells ! (head + i)))) [0..<n])"
proof -
  let ?F = "\<lambda>i. state_source sz (head + i) (cells ! (head + i))" and ?P = "\<lambda>_ :: llama_kv_cell. True"
  have "\<exists>st. fold_res (s_copy_step head sz) [0..<n] (cells, replicate n None) = Inr st
      \<and> (fst st = own_src head (head + n) ?P cells \<and> filled ?F n n (snd st))"
  proof (rule fold_res_upt[where I = "\<lambda>i st. fst st = own_src head (head + i) ?P cells \<and> filled ?F n i (snd st)"])
    fix i st assume i: "i < n" and st: "fst st = own_src head (head + i) ?P cells \<and> filled ?F n i (snd st)"
    obtain d' where d': "put i (?F i) (snd st) = Inr d'" "filled ?F n (Suc i) d'" using put_filled[of ?F n i "snd st"] st i by auto
    let ?c = "cells ! (head + i)"
    have c: "fst st ! (head + i) = ?c" "head + i < length cells" using st i assms by (auto simp: own_src_nth)
    have f: "(if c_src ?c < 0 \<or> nat (c_src ?c) \<ge> sz then int (head + i) else c_src ?c) = ?F i" by (auto simp: state_source_def)
    have "s_copy_step head sz i st = Inr (own_src head (head + Suc i) ?P cells, d')"
      using st c d'(1) own_src_step[OF le_add1 c(2), of ?P] f by (cases st) (simp add: s_copy_step_def Let_def index_res_def add.commute[of i])
    then show "\<exists>st'. s_copy_step head sz i st = Inr st' \<and> (fst st' = own_src head (head + Suc i) ?P cells \<and> filled ?F n (Suc i) (snd st'))"
      using d'(2) by simp
  qed (simp_all add: own_src_none filled_none)
  then show ?thesis by (auto simp: filled_full)
qed

text \<open>The cache and the inputs after the states were set.\<close>

definition states_used :: "graph_spec \<Rightarrow> llama_kv_cache \<Rightarrow> llama_kv_cache" where
  "states_used g kv = kv\<lparr>kv_cells := own_src (kv_head kv) (kv_head kv + kv_n kv) (\<lambda>c. g_s_copy g \<or> g_s_mask g \<and> c_src c < 0) (kv_cells kv)\<rparr>"

definition state_inputs :: "graph_spec \<Rightarrow> llama_kv_cache \<Rightarrow> llama_inputs \<Rightarrow> llama_inputs" where
  "state_inputs g kv inp =
     inp\<lparr>inp_s_mask := (if g_s_mask g then Some \<lparr>tn_host = g_host g,
              tn_data = map (\<lambda>i. Some (0 \<le> c_src (kv_cells kv ! (kv_head kv + i)))) [0..<kv_n kv]\<rparr> else None),
         inp_s_copy := (if g_s_copy g then Some \<lparr>tn_host = g_host g,
              tn_data = map (\<lambda>i. Some (state_source (kv_size kv) (kv_head kv + i) (kv_cells kv ! (kv_head kv + i)))) [0..<kv_n kv]\<rparr> else None)\<rparr>"

lemma state_source_own: "state_source sz j (if c_src c < 0 then c\<lparr>c_src := int j\<rparr> else c) = state_source sz j c"
  by (auto simp: state_source_def)

lemma set_states_ok:
  assumes kv: "kv_head kv + kv_n kv \<le> length (kv_cells kv)" and g: "g_host g"
    and inp: "inp_s_mask inp = (if g_s_mask g then new_tensor g (kv_n kv) else None)"
      "inp_s_copy inp = (if g_s_copy g then new_tensor g (kv_n kv) else None)"
  shows "bind_res (set_s_mask (kv, inp)) set_s_copy = Inr (states_used g kv, state_inputs g kv inp)"
proof -
  let ?h = "kv_head kv" and ?n = "kv_n kv" and ?cs = "kv_cells kv"
  let ?cs1 = "if g_s_mask g then own_src ?h (?h + ?n) (\<lambda>c. c_src c < 0) ?cs else ?cs"
  let ?inp1 = "inp\<lparr>inp_s_mask := (if g_s_mask g then Some \<lparr>tn_host = g_host g, tn_data = map (\<lambda>i. Some (0 \<le> c_src (?cs ! (?h + i)))) [0..<?n]\<rparr> else None)\<rparr>"
  have 1: "set_s_mask (kv, inp) = Inr (kv\<lparr>kv_cells := ?cs1\<rparr>, ?inp1)"
    using inp(1) g s_mask_loop[OF kv] by (simp add: set_s_mask_def new_tensor_def host_data_def)
  have kv1: "?h + ?n \<le> length ?cs1" using kv by simp
  have src: "state_source (kv_size kv) (?h + i) (?cs1 ! (?h + i)) = state_source (kv_size kv) (?h + i) (?cs ! (?h + i))" if "i < ?n" for i
    using that kv state_source_own[of "kv_size kv" "?h + i" "?cs ! (?h + i)"] by (simp add: own_src_nth)
  have cs: "own_src ?h (?h + ?n) (\<lambda>_. True) ?cs1 = own_src ?h (?h + ?n) (\<lambda>_. True) ?cs"
    by (rule nth_equalityI) (auto simp: own_src_nth)
  have 2: "set_s_copy (kv\<lparr>kv_cells := ?cs1\<rparr>, ?inp1) = Inr (states_used g kv, state_inputs g kv inp)"
  proof (cases "g_s_copy g")
    case True
    have "map (\<lambda>i. Some (state_source (kv_size kv) (?h + i) (?cs1 ! (?h + i)))) [0..<?n]
        = map (\<lambda>i. Some (state_source (kv_size kv) (?h + i) (?cs ! (?h + i)))) [0..<?n]" using src by (intro map_cong) auto
    then show ?thesis using True inp g s_copy_loop[OF kv1, of "kv_size kv"] cs
      by (simp add: set_s_copy_def new_tensor_def host_data_def states_used_def state_inputs_def)
  next
    case False
    then show ?thesis using inp by (cases "g_s_mask g") (simp_all add: set_s_copy_def states_used_def state_inputs_def own_src_def map_nth)
  qed
  show ?thesis using 1 2 by simp
qed

lemma set_masks_decoder:
  assumes g: "decoder_spec p g" and sh: "ubatch_shape w ub" and kv: "kv_n kv \<le> length (kv_cells kv)" and n: "ub_n_tokens ub + 64 < 2 ^ 32"
    and m: "inp_KQ_mask inp = (if g_KQ_mask g = None then None else new_tensor g (kv_n kv * GGML_PAD (ub_n_tokens ub) GGML_KQ_MASK_PAD))"
      "inp_KQ_mask_swa inp = (if g_KQ_mask_swa g = None then None else new_tensor g (kv_n kv * GGML_PAD (ub_n_tokens ub) GGML_KQ_MASK_PAD))"
  defines "N \<equiv> GGML_PAD (ub_n_tokens ub) GGML_KQ_MASK_PAD * kv_n kv"
  shows "set_KQ_masks p kv False ub inp = Inr (inp
    \<lparr>inp_KQ_mask := (if g_KQ_mask g = None then None else Some (mask_tensor (g_host g) N (mask_at p kv ub))),
     inp_KQ_mask_swa := (if g_KQ_mask_swa g = None then None else Some (mask_tensor (g_host g) N (swa_at p kv ub)))\<rparr>)"
proof -
  have h: "g_host g" "p_causal_attn p" using g by (auto simp: decoder_spec_def)
  have "inp_KQ_mask inp \<in> {None, new_tensor g (kv_n kv * GGML_PAD (ub_n_tokens ub) GGML_KQ_MASK_PAD)}"
    "inp_KQ_mask_swa inp \<in> {None, new_tensor g (kv_n kv * GGML_PAD (ub_n_tokens ub) GGML_KQ_MASK_PAD)}" using m by simp_all
  note c = set_causal_masks_ok[OF sh kv n h(1) this, of p]
  show ?thesis
  proof (cases "g_KQ_mask g = None \<and> g_KQ_mask_swa g = None")
    case True
    then show ?thesis using m by (simp add: set_KQ_masks_def)
  next
    case False
    then have "set_KQ_masks p kv False ub inp = set_causal_masks p kv ub inp"
      using m h(2) by (auto simp: set_KQ_masks_def new_tensor_def)
    then show ?thesis unfolding c N_def using m by (simp add: new_tensor_def)
  qed
qed

lemma set_embd_ok:
  assumes "ubatch_shape (p_n_embd p) ub" "inp_embd inp = (if ub_token ub = None then new_tensor g (p_n_embd p * ub_n_tokens ub) else None)"
  shows "set_embd p ub inp = Inr (inp\<lparr>inp_embd := (case ub_embd ub of None \<Rightarrow> None
    | Some es \<Rightarrow> Some \<lparr>tn_host = g_host g, tn_data = map Some (take (p_n_embd p * ub_n_tokens ub) es)\<rparr>)\<rparr>)"
proof (cases "ub_embd ub")
  case None
  then have "inp_embd inp = None" using assms by (auto simp: ubatch_shape_def)
  then show ?thesis using None by (simp add: set_embd_def)
next
  case (Some es)
  then have "inp_embd inp = new_tensor g (p_n_embd p * ub_n_tokens ub)" "p_n_embd p * ub_n_tokens ub \<le> length es"
    using assms unfolding ubatch_shape_def by auto
  then show ?thesis using Some tensor_set_new[of "p_n_embd p * ub_n_tokens ub" es g] by (simp add: set_embd_def mult.commute)
qed

lemma set_pos_ok:
  assumes "ubatch_shape w ub" "p_n_pos_per_token p = 1" "inp_pos inp = (if g_pos g then new_tensor g (ub_n_tokens ub) else None)"
  shows "set_pos p ub inp = Inr (inp\<lparr>inp_pos := (if g_pos g then Some \<lparr>tn_host = g_host g, tn_data = map Some (take (ub_n_tokens ub) (ub_pos ub))\<rparr> else None)\<rparr>)"
proof (cases "g_pos g")
  case True
  have "ub_n_tokens ub \<le> length (ub_pos ub)" using assms(1) by (simp add: ubatch_shape_def)
  then show ?thesis using True assms(2,3) tensor_set_new[of "ub_n_tokens ub" "ub_pos ub" g] by (simp add: set_pos_def new_tensor_def)
next
  case False
  then show ?thesis using assms(3) by (simp add: set_pos_def)
qed

lemma set_inputs_any:
  assumes g: "decoder_spec p g" and sh: "ubatch_shape (p_n_embd p) ub" and kv: "kv_n (lc_kv lc) \<le> length (kv_cells (lc_kv lc))"
    and n: "ub_n_tokens ub + 64 < 2 ^ 32" and rc: "kv_recurrent (lc_kv lc) \<Longrightarrow> kv_head (lc_kv lc) + kv_n (lc_kv lc) \<le> length (kv_cells (lc_kv lc))"
    and lc: "\<not> lc_is_encoding lc" "lc_n_outputs lc = length (filter (\<lambda>i. ub_output ub ! i \<noteq> 0) [0..<ub_n_tokens ub])"
  shows "llama_set_inputs large p ub (lc\<lparr>lc_inputs := fresh_inputs p g (lc_kv lc) (lc_n_outputs lc) ub\<rparr>)
    = Inr (if kv_recurrent (lc_kv lc)
           then lc\<lparr>lc_kv := states_used g (lc_kv lc), lc_inputs := state_inputs g (lc_kv lc) (decoder_inputs p g (lc_kv lc) ub)\<rparr>
           else lc\<lparr>lc_inputs := decoder_inputs p g (lc_kv lc) ub\<rparr>)"
proof -
  let ?kv = "lc_kv lc" and ?n = "ub_n_tokens ub" and ?h = "g_host g"
  let ?t = "\<lambda>xs. Some \<lparr>tn_host = ?h, tn_data = map Some xs\<rparr>"
  let ?i0 = "fresh_inputs p g ?kv (lc_n_outputs lc) ub"
  let ?i1 = "?i0\<lparr>inp_tokens := (case ub_token ub of None \<Rightarrow> None | Some toks \<Rightarrow> ?t (take ?n toks))\<rparr>"
  let ?i2 = "?i1\<lparr>inp_embd := (case ub_embd ub of None \<Rightarrow> None | Some es \<Rightarrow> ?t (take (p_n_embd p * ?n) es))\<rparr>"
  let ?i3 = "?i2\<lparr>inp_pos := (if g_pos g then ?t (take ?n (ub_pos ub)) else None)\<rparr>"
  let ?i4 = "?i3\<lparr>inp_out_ids := (if g_out_ids g then ?t (map int (filter (\<lambda>i. ub_output ub ! i \<noteq> 0) [0..<?n])) else None)\<rparr>"
  have h: "?h" "p_n_pos_per_token p = 1" "p_model_causal p" "p_causal_attn p" "\<not> p_embeddings p" using g by (auto simp: decoder_spec_def)
  have 1: "set_tokens ub ?i0 = Inr ?i1" using sh
    by (cases "ub_token ub") (auto simp: set_tokens_def fresh_inputs_def Let_def tensor_set_new ubatch_shape_def)
  have "inp_embd ?i1 = (if ub_token ub = None then new_tensor g (p_n_embd p * ?n) else None)" "inp_pos ?i2 = (if g_pos g then new_tensor g ?n else None)"
    by (simp_all add: fresh_inputs_def Let_def)
  note ep = this
  have 2: "set_embd p ub ?i1 = Inr ?i2" by (rule set_embd_ok[OF sh ep(1)])
  have 3: "set_pos p ub ?i2 = Inr ?i3" by (rule set_pos_ok[OF sh h(2) ep(2)])
  have 4: "set_out_ids p (lc_n_outputs lc) ub ?i3 = Inr ?i4"
    using out_ids_ok[OF _ lc(2)] sh h
    by (simp add: set_out_ids_def fresh_inputs_def Let_def new_tensor_def host_data_def ubatch_shape_def no_inputs_def comp_def)
  have "inp_KQ_mask ?i4 = (if g_KQ_mask g = None then None else new_tensor g (kv_n ?kv * GGML_PAD ?n GGML_KQ_MASK_PAD))"
    "inp_KQ_mask_swa ?i4 = (if g_KQ_mask_swa g = None then None else new_tensor g (kv_n ?kv * GGML_PAD ?n GGML_KQ_MASK_PAD))"
    by (simp_all add: fresh_inputs_def Let_def)
  note m = set_masks_decoder[OF g sh kv n this]
  have 5: "set_KQ_masks p ?kv False ub ?i4 = Inr (decoder_inputs p g ?kv ub)"
    unfolding m by (simp add: fresh_inputs_def decoder_inputs_def Let_def no_inputs_def)
  let ?i5 = "decoder_inputs p g ?kv ub"
  have 6: "(if kv_recurrent ?kv then bind_res (set_s_mask (?kv, ?i5)) set_s_copy else Inr (?kv, ?i5))
      = Inr (if kv_recurrent ?kv then (states_used g ?kv, state_inputs g ?kv ?i5) else (?kv, ?i5))"
    using set_states_ok[OF rc h(1), of ?i5] by (auto simp: decoder_inputs_def Let_def no_inputs_def)
  have 7: "set_pos_bucket large p kv' False ub inp = Inr inp" "set_embd_enc False (lc_embd_enc lc) inp = Inr inp"
    "set_KQ_mask_cross p False (lc_embd_enc lc) (lc_seq_ids_enc lc) ub inp = Inr inp" if "inp \<in> {?i5, state_inputs g ?kv ?i5}" for inp kv'
    using that by (auto simp: set_pos_bucket_def set_embd_enc_def set_KQ_mask_cross_def decoder_inputs_def state_inputs_def Let_def no_inputs_def)
  have 8: "set_mean p ub inp = Inr inp" "set_cls p ub inp = Inr inp" for inp using h(5) by (simp_all add: set_mean_def set_cls_def)
  have f: "lc_inputs (lc\<lparr>lc_inputs := ?i0\<rparr>) = ?i0" "lc_kv (lc\<lparr>lc_inputs := ?i0\<rparr>) = ?kv" "lc_n_outputs (lc\<lparr>lc_inputs := ?i0\<rparr>) = lc_n_outputs lc"
    "lc_is_encoding (lc\<lparr>lc_inputs := ?i0\<rparr>) = False" "lc_embd_enc (lc\<lparr>lc_inputs := ?i0\<rparr>) = lc_embd_enc lc" "lc_seq_ids_enc (lc\<lparr>lc_inputs := ?i0\<rparr>) = lc_seq_ids_enc lc"
    using lc(1) by simp_all
  have a: "ggml_assert (p_model_causal p \<or> \<not> p_causal_attn p) = Inr ()" using h(3) by simp
  show ?thesis unfolding llama_set_inputs_def Let_def f 1 2 3 4 5 6 8 a bind_res_simps
    by (cases "kv_recurrent ?kv") (simp_all add: 7)
qed

lemma set_inputs_decoder:
  assumes "decoder_spec p g" "ubatch_shape (p_n_embd p) ub" "kv_n (lc_kv lc) \<le> length (kv_cells (lc_kv lc))"
    "ub_n_tokens ub + 64 < 2 ^ 32" "\<not> kv_recurrent (lc_kv lc)" "\<not> lc_is_encoding lc"
    "lc_n_outputs lc = length (filter (\<lambda>i. ub_output ub ! i \<noteq> 0) [0..<ub_n_tokens ub])"
  shows "llama_set_inputs large p ub (lc\<lparr>lc_inputs := fresh_inputs p g (lc_kv lc) (lc_n_outputs lc) ub\<rparr>)
    = Inr (lc\<lparr>lc_inputs := decoder_inputs p g (lc_kv lc) ub\<rparr>)"
  using set_inputs_any[OF assms(1-4) _ assms(6,7)] assms(5) by simp

section \<open>What the masks show\<close>

text \<open>The micro-batch is in the cache and the window covers every cell in use.\<close>

definition placed :: "llama_kv_cache \<Rightarrow> llama_ubatch \<Rightarrow> bool" where
  "placed kv ub \<longleftrightarrow> kv_good kv \<and> kv_n kv \<le> kv_size kv \<and> (\<forall>s i q. (s, i, q) \<in> entries kv \<longrightarrow> i < kv_n kv)
     \<and> (\<forall>t < ub_n_tokens ub. \<forall>s \<in> token_seqs ub t. (s, kv_head kv + t, ub_pos ub ! t) \<in> entries kv)"

lemma placed_prepare:
  assumes "kv_good c" "kv_size c + 256 < 2 ^ 32" "ubatch_ok ub" "kv_prepare fa c rs ub = Inr (kv, rs', 0)"
  shows "placed kv ub"
  unfolding placed_def
proof (intro conjI)
  show "kv_good kv" by (rule kv_good_prepare[OF assms(1,3,4)])
  show "kv_n kv \<le> kv_size kv" "\<forall>s i q. (s, i, q) \<in> entries kv \<longrightarrow> i < kv_n kv"
    using prepare_window[OF _ _ assms(2,3,4)] assms(1) by (simp_all add: kv_good_def del: in_entries)
  show "\<forall>t < ub_n_tokens ub. \<forall>s \<in> token_seqs ub t. (s, kv_head kv + t, ub_pos ub ! t) \<in> entries kv"
    using prepare_places[OF assms(1,3,4)] by blast
qed

lemma token_seq_in:
  assumes "ubatch_shape w ub" "t < ub_n_tokens ub"
  shows "token_seq ub t \<in> token_seqs ub t"
proof -
  have "t div ub_n_seq_tokens ub < ub_n_seqs ub" using assms by (simp add: ubatch_shape_def less_mult_imp_div_less)
  from ubatch_reads(2)[OF assms(1) this] show ?thesis by (simp add: token_seq_def token_seqs_def Let_def)
qed

text \<open>A cell holds a position per sequence: what a mask shows, in terms of the entries of the cache.\<close>

lemma kq_cell_entries:
  assumes "i < length (kv_cells kv)"
  shows "(s, i, q) \<in> entries kv \<Longrightarrow> kq_cell alibi s pos (kv_cells kv ! i)
      = (if q \<le> pos then Bias (if alibi then q - pos else 0) else NegInf)"
    "(\<nexists>q. (s, i, q) \<in> entries kv) \<Longrightarrow> kq_cell alibi s pos (kv_cells kv ! i) = NegInf"
  using assms by (auto simp: kq_cell_def has_seq_id_def)

lemma kq_swa_entries:
  "(s, i, q) \<in> entries kv \<Longrightarrow> kq_swa n_swa pos (kv_cells kv ! i) f = (if q \<le> pos - sint n_swa then NegInf else f)"
  "kq_swa n_swa pos (kv_cells kv ! i) NegInf = NegInf"
  by (auto simp: kq_swa_def)

text \<open>Entry \<open>(t, i)\<close> of a mask of which token \<open>t\<close> sees the positions above \<open>lo\<close>.\<close>

definition shows_window :: "bool \<Rightarrow> llama_kv_cache \<Rightarrow> llama_ubatch \<Rightarrow> (int \<Rightarrow> int) \<Rightarrow> kq tensor option \<Rightarrow> bool" where
  "shows_window alibi kv ub lo tensor \<longleftrightarrow>
     (\<exists>m. tensor = Some m \<and> length (tn_data m) = GGML_PAD (ub_n_tokens ub) GGML_KQ_MASK_PAD * kv_n kv \<and> None \<notin> set (tn_data m)
        \<and> (\<forall>t < ub_n_tokens ub. \<forall>i < kv_n kv. let e = tn_data m ! (t * kv_n kv + i); pos = ub_pos ub ! t in
             (\<forall>q. (token_seq ub t, i, q) \<in> entries kv \<longrightarrow>
                e = Some (if lo pos < q \<and> q \<le> pos then Bias (if alibi then q - pos else 0) else NegInf))
             \<and> ((\<nexists>q. (token_seq ub t, i, q) \<in> entries kv) \<longrightarrow> e = Some NegInf)))"

lemma mask_nth:
  assumes "t < ub_n_tokens ub" "i < kv_n kv" "ub_n_tokens ub \<le> R"
  shows "tn_data (mask_tensor h (R * kv_n kv) F) ! (t * kv_n kv + i) = Some (F (t * kv_n kv + i))"
    "mask_at p kv ub (t * kv_n kv + i) = kq_cell (p_use_alibi p) (token_seq ub t) (ub_pos ub ! t) (kv_cells kv ! i)"
    "swa_at p kv ub (t * kv_n kv + i) = kq_swa (p_n_swa p) (ub_pos ub ! t) (kv_cells kv ! i)
       (kq_cell (p_use_alibi p) (token_seq ub t) (ub_pos ub ! t) (kv_cells kv ! i))"
  using assms entry_lt[of t R i "kv_n kv"] by (simp_all add: mask_tensor_def mask_at_def swa_at_def Let_def)

lemma shows_windowI:
  assumes "ub_n_tokens ub \<le> GGML_PAD (ub_n_tokens ub) GGML_KQ_MASK_PAD"
    "\<And>t i q. t < ub_n_tokens ub \<Longrightarrow> i < kv_n kv \<Longrightarrow> (token_seq ub t, i, q) \<in> entries kv \<Longrightarrow>
       F (t * kv_n kv + i) = (if lo (ub_pos ub ! t) < q \<and> q \<le> ub_pos ub ! t then Bias (if alibi then q - ub_pos ub ! t else 0) else NegInf)"
    "\<And>t i. t < ub_n_tokens ub \<Longrightarrow> i < kv_n kv \<Longrightarrow> \<nexists>q. (token_seq ub t, i, q) \<in> entries kv \<Longrightarrow> F (t * kv_n kv + i) = NegInf"
  shows "shows_window alibi kv ub lo (Some (mask_tensor h (GGML_PAD (ub_n_tokens ub) GGML_KQ_MASK_PAD * kv_n kv) F))"
proof -
  let ?m = "mask_tensor h (GGML_PAD (ub_n_tokens ub) GGML_KQ_MASK_PAD * kv_n kv) F"
  have "length (tn_data ?m) = GGML_PAD (ub_n_tokens ub) GGML_KQ_MASK_PAD * kv_n kv" "None \<notin> set (tn_data ?m)"
    by (auto simp: mask_tensor_def)
  then show ?thesis unfolding shows_window_def Let_def
    by (intro exI[of _ ?m] conjI allI impI refl; simp add: mask_nth(1)[OF _ _ assms(1)] assms(2,3) del: in_entries)
qed

lemma decoder_masks:
  assumes "kv_good kv" "kv_n kv \<le> kv_size kv" "ub_n_tokens ub + 64 < 2 ^ 32"
  shows "g_KQ_mask g \<noteq> None \<Longrightarrow> shows_window (p_use_alibi p) kv ub (\<lambda>_. -1) (inp_KQ_mask (decoder_inputs p g kv ub))"
    "g_KQ_mask_swa g \<noteq> None \<Longrightarrow> shows_window (p_use_alibi p) kv ub (\<lambda>pos. pos - sint (p_n_swa p)) (inp_KQ_mask_swa (decoder_inputs p g kv ub))"
proof -
  have pos: "0 \<le> q" if "(s, i, q) \<in> entries kv" for s i q
    using assms(1) that by (auto simp: kv_good_def kv_inv_def cell_ok_def is_empty_def)
  note R = mask_rows_ge[OF assms(3)]
  have cell: "i < length (kv_cells kv)" if "i < kv_n kv" for i using assms that by (simp add: kv_good_def kv_inv_def)
  have "shows_window (p_use_alibi p) kv ub (\<lambda>_. -1)
      (Some (mask_tensor (g_host g) (GGML_PAD (ub_n_tokens ub) GGML_KQ_MASK_PAD * kv_n kv) (mask_at p kv ub)))"
  proof (rule shows_windowI[OF R], goal_cases)
    case (1 t i q)
    then show ?case using pos[OF 1(3)] by (simp add: mask_nth(2)[OF 1(1,2) R] kq_cell_entries(1)[OF cell 1(3)])
  next
    case (2 t i)
    then show ?case by (simp add: mask_nth(2)[OF 2(1,2) R] kq_cell_entries(2)[OF cell 2(3)])
  qed
  then show "g_KQ_mask g \<noteq> None \<Longrightarrow> shows_window (p_use_alibi p) kv ub (\<lambda>_. -1) (inp_KQ_mask (decoder_inputs p g kv ub))"
    by (auto simp: decoder_inputs_def Let_def)
  have "shows_window (p_use_alibi p) kv ub (\<lambda>pos. pos - sint (p_n_swa p))
      (Some (mask_tensor (g_host g) (GGML_PAD (ub_n_tokens ub) GGML_KQ_MASK_PAD * kv_n kv) (swa_at p kv ub)))"
  proof (rule shows_windowI[OF R], goal_cases)
    case (1 t i q)
    then show ?case by (simp add: mask_nth(3)[OF 1(1,2) R] kq_cell_entries(1)[OF cell 1(3)] kq_swa_entries(1)[OF 1(3)] del: in_entries)
  next
    case (2 t i)
    then show ?case by (simp add: mask_nth(3)[OF 2(1,2) R] kq_cell_entries(2)[OF cell 2(3)] kq_swa_entries(2))
  qed
  then show "g_KQ_mask_swa g \<noteq> None
      \<Longrightarrow> shows_window (p_use_alibi p) kv ub (\<lambda>pos. pos - sint (p_n_swa p)) (inp_KQ_mask_swa (decoder_inputs p g kv ub))"
    by (auto simp: decoder_inputs_def Let_def)
qed

section \<open>The inputs of a decoder are exact\<close>

text \<open>C4: The attention masks. When a micro-batch was placed in a cache that satisfies its invariant, the inputs of a causal decoder are
  created and filled without a failed assertion or a write out of bounds, and every entry of the masks is written: token
  \<open>t\<close> sees a cell of the window exactly when the cell holds a token of the (first) sequence of \<open>t\<close> at a position not after
  its own, and in the mask of the sliding window less than \<open>n_swa\<close> before it. The window leaves out no entry of the cache, every token
  finds itself in its cell, and the output ids are the rows of the tokens whose output is wanted, in order.\<close>

theorem attention_masks_exact:
  assumes kv: "kv_good c" "kv_size c + 256 < 2 ^ 32" "kv_prepare fa c rs ub = Inr (kv, rs', 0)"
    and ub: "ubatch_shape (p_n_embd p) ub" "ubatch_ok ub" "ub_n_tokens ub + 64 < 2 ^ 32"
    and lc: "decoder_spec p g" "lc_kv lc = kv" "\<not> lc_is_encoding lc"
      "lc_n_outputs lc = length (filter (\<lambda>i. ub_output ub ! i \<noteq> 0) [0..<ub_n_tokens ub])"
  shows "\<exists>inp lc'. llama_build_inputs g p lc ub = Inr inp \<and> llama_set_inputs large p ub (lc\<lparr>lc_inputs := inp\<rparr>) = Inr lc' \<and> lc_kv lc' = kv
    \<and> (g_KQ_mask g \<noteq> None \<longrightarrow> shows_window (p_use_alibi p) kv ub (\<lambda>_. -1) (inp_KQ_mask (lc_inputs lc')))
    \<and> (g_KQ_mask_swa g \<noteq> None \<longrightarrow> shows_window (p_use_alibi p) kv ub (\<lambda>pos. pos - sint (p_n_swa p)) (inp_KQ_mask_swa (lc_inputs lc')))
    \<and> (\<forall>s i q. (s, i, q) \<in> entries kv \<longrightarrow> i < kv_n kv)
    \<and> (\<forall>t < ub_n_tokens ub. (token_seq ub t, kv_head kv + t, ub_pos ub ! t) \<in> entries kv)
    \<and> (g_out_ids g \<longrightarrow> map_option tn_data (inp_out_ids (lc_inputs lc'))
         = Some (map (\<lambda>i. Some (int i)) (filter (\<lambda>i. ub_output ub ! i \<noteq> 0) [0..<ub_n_tokens ub])))"
proof -
  have pl: "placed kv ub" by (rule placed_prepare[OF kv(1,2) ub(2) kv(3)])
  then have win: "kv_n (lc_kv lc) \<le> length (kv_cells (lc_kv lc))" "\<not> kv_recurrent (lc_kv lc)" "kv_good kv" "kv_n kv \<le> kv_size kv"
    using lc(2) by (auto simp: placed_def kv_good_def kv_inv_def)
  note m = decoder_masks[OF win(3,4) ub(3)]
  show ?thesis
    unfolding build_decoder[OF lc(1)] using set_inputs_decoder[OF lc(1) ub(1) win(1) ub(3) win(2) lc(3,4)] m pl token_seq_in[OF ub(1)] lc(2)
    by (intro exI[of _ "fresh_inputs p g (lc_kv lc) (lc_n_outputs lc) ub"] exI[of _ "lc\<lparr>lc_inputs := decoder_inputs p g kv ub\<rparr>"] conjI)
      (simp_all add: placed_def decoder_inputs_def Let_def comp_def del: in_entries)
qed

definition ex_params :: llama_params where
  "ex_params = \<lparr>p_n_batch = 4, p_n_ubatch = 2, p_n_seq_max = 1, p_n_threads = 1, p_n_threads_batch = 1, p_embeddings = False,
     p_pooling_type = POOLING_NONE, p_causal_attn = True, p_model_causal = True, p_flash_attn = False, p_logits_all = False,
     p_n_vocab = 2, p_n_embd = 1, p_n_layer = 1, p_max_nodes = 64, p_has_rope = False, p_has_decoder = True,
     p_use_alibi = False, p_n_swa = 0, p_n_rel_attn_bkts = 0, p_n_pos_per_token = 1\<rparr>"

definition ex_spec :: "bool \<Rightarrow> graph_spec" where
  "ex_spec enc = \<lparr>g_host = True, g_pos = True, g_out_ids = (\<not> enc), g_KQ_mask = Some (\<not> enc), g_KQ_mask_swa = None, g_s_copy = False,
     g_s_mask = False, g_pos_bucket = None, g_embd_enc = False, g_KQ_mask_cross = False\<rparr>"

definition ex_ctx :: "nat llama_context" where
  "ex_ctx = \<lparr>lc_kv = llama_kv_cache_init ex_cache False False False 4, lc_data = [0, 0, 0, 0], lc_sbatch = sb_empty, lc_n_queued_tokens = 0,
     lc_is_encoding = False, lc_embd_seq = Map.empty, lc_embd_enc = [], lc_seq_ids_enc = [], lc_buf_output = None, lc_logits = None,
     lc_embd = None, lc_output_size = 0, lc_logits_size = 0, lc_embd_size = 0, lc_output_ids = [], lc_n_outputs = 0,
     lc_inputs = no_inputs\<rparr>"

declare find_slot_loop.simps [code]

text \<open>A token at position 5 of sequence 8, placed in a cache of four cells: it sees itself and no empty cell.\<close>

theorem attention_masks_exact_witness:
  "\<exists>kv rs' inp lc'. kv_prepare False (lc_kv ex_ctx) (slot_restorer (lc_kv ex_ctx)) ex_ub = Inr (kv, rs', 0)
     \<and> llama_build_inputs (ex_spec False) ex_params (ex_ctx\<lparr>lc_kv := kv, lc_n_outputs := 1\<rparr>) ex_ub = Inr inp
     \<and> llama_set_inputs (\<lambda>_ _ _. 0) ex_params ex_ub (ex_ctx\<lparr>lc_kv := kv, lc_n_outputs := 1, lc_inputs := inp\<rparr>) = Inr lc'
     \<and> shows_window False kv ex_ub (\<lambda>_. -1) (inp_KQ_mask (lc_inputs lc')) \<and> (8, kv_head kv, 5) \<in> entries kv"
proof -
  have "case kv_prepare False (lc_kv ex_ctx) (slot_restorer (lc_kv ex_ctx)) ex_ub of Inl _ \<Rightarrow> False | Inr (_, _, ret) \<Rightarrow> ret = 0"
    by code_simp
  then obtain kv rs' where r: "kv_prepare False (lc_kv ex_ctx) (slot_restorer (lc_kv ex_ctx)) ex_ub = Inr (kv, rs', 0)"
    by (auto split: sum.splits)
  have kv: "kv_good (lc_kv ex_ctx)" "kv_size (lc_kv ex_ctx) + 256 < 2 ^ 32"
    by (simp_all add: ex_ctx_def kv_good_def kv_inv_init) (simp_all add: llama_kv_cache_init_def)
  have ub: "ubatch_shape (p_n_embd ex_params) ex_ub" "ub_n_tokens ex_ub + 64 < 2 ^ 32" by (simp_all add: ubatch_shape_def ex_ub_def)
  have spec: "decoder_spec ex_params (ex_spec False)" by (simp add: decoder_spec_def ex_params_def ex_spec_def)
  have f: "g_KQ_mask (ex_spec False) \<noteq> None" "p_use_alibi ex_params = False" "0 < ub_n_tokens ex_ub" "token_seq ex_ub 0 = 8" "ub_pos ex_ub ! 0 = 5"
    by (simp_all add: ex_spec_def ex_params_def ex_ub_def token_seq_def)
  have lc: "lc_kv (ex_ctx\<lparr>lc_kv := kv, lc_n_outputs := 1\<rparr>) = kv" "\<not> lc_is_encoding (ex_ctx\<lparr>lc_kv := kv, lc_n_outputs := 1\<rparr>)"
    "lc_n_outputs (ex_ctx\<lparr>lc_kv := kv, lc_n_outputs := 1\<rparr>) = length (filter (\<lambda>i. ub_output ex_ub ! i \<noteq> 0) [0..<ub_n_tokens ex_ub])"
    by (simp_all add: ex_ctx_def ex_ub_def)
  obtain inp lc' where q: "llama_build_inputs (ex_spec False) ex_params (ex_ctx\<lparr>lc_kv := kv, lc_n_outputs := 1\<rparr>) ex_ub = Inr inp"
      "llama_set_inputs (\<lambda>_ _ _. 0) ex_params ex_ub (ex_ctx\<lparr>lc_kv := kv, lc_n_outputs := 1, lc_inputs := inp\<rparr>) = Inr lc'"
      "shows_window (p_use_alibi ex_params) kv ex_ub (\<lambda>_. -1) (inp_KQ_mask (lc_inputs lc'))"
      "\<forall>t < ub_n_tokens ex_ub. (token_seq ex_ub t, kv_head kv + t, ub_pos ex_ub ! t) \<in> entries kv"
    using attention_masks_exact[OF kv r ub(1) ex_ub_ok ub(2) spec lc, of "\<lambda>_ _ _. 0"] f(1) by blast
  have "(8, kv_head kv, 5) \<in> entries kv" using q(4)[rule_format, OF f(3)] by (simp only: f(4,5) add_0_right)
  then show ?thesis using r q(1-3) unfolding f(2) by blast
qed

end
