(* ===== verification/Decode_Outputs.thy ===== *)
theory Decode_Outputs
  imports Decode Inputs_Fill
begin

text \<open>
  The outputs of decoding: the row a caller reads for a token is the row the graph computed for it, before and after the
  rows are put in the order of the batch.
\<close>

section \<open>Loops over indices\<close>

lemma map_res_index:
  assumes "n \<le> length xs"
  shows "map_res (index_res xs) [0..<n] = Inr (take n xs)"
proof -
  have "map_res (index_res xs) js = Inr (map ((!) xs) js)" if "\<forall>j \<in> set js. j < length xs" for js
    using that by (induction js) (auto simp: index_res_def)
  moreover have "map ((!) xs) [0..<n] = take n xs" using assms by (auto intro: nth_equalityI)
  ultimately show ?thesis using assms by simp
qed

text \<open>\<open>set_output_ids\<close> stores the position of every id.\<close>

lemma set_output_ids_ok:
  assumes "distinct outs" "\<forall>t \<in> set outs. t < length ids"
  shows "\<exists>ids'. set_output_ids outs ids = Inr ids' \<and> length ids' = length ids
    \<and> (\<forall>k < length outs. ids' ! (outs ! k) = int k) \<and> (\<forall>t. t \<notin> set outs \<longrightarrow> ids' ! t = ids ! t)"
  using assms
proof (induction outs rule: rev_induct)
  case Nil
  then show ?case by (simp add: set_output_ids_def)
next
  case (snoc t outs)
  then obtain ids' where i: "set_output_ids outs ids = Inr ids'" "length ids' = length ids"
    "\<forall>k < length outs. ids' ! (outs ! k) = int k" "\<forall>u. u \<notin> set outs \<longrightarrow> ids' ! u = ids ! u" by auto
  then have "set_output_ids (outs @ [t]) ids = Inr (ids'[t := int (length outs)])"
    using snoc.prems by (simp add: set_output_ids_def fold_res_append)
  moreover have "\<forall>k < length (outs @ [t]). ids'[t := int (length outs)] ! ((outs @ [t]) ! k) = int k"
    using i snoc.prems by (auto simp: nth_append nth_list_update less_Suc_eq)
  ultimately show ?case using i snoc.prems by (auto simp: nth_list_update)
qed

section \<open>One micro-batch\<close>

lemma set_inputs_keeps: "llama_set_inputs large p ub lc = Inr lc' \<Longrightarrow> \<exists>kv inp. lc' = lc\<lparr>lc_kv := kv, lc_inputs := inp\<rparr>"
  by (auto simp: llama_set_inputs_def Let_def)

lemma kv_prepare_total:
  assumes g: "kv_good c" and ub: "ubatch_ok ub"
  shows "\<exists>c' rs' ret. kv_prepare fa c rs ub = Inr (c', rs', ret) \<and> kv_good c' \<and> kv_size c' = kv_size c \<and> ret \<in> {0, 1}
    \<and> rs_head rs' = rs_head rs \<and> kv_has_shift c' = kv_has_shift c \<and> kv_can_shift c' = kv_can_shift c"
proof -
  let ?c = "if kv_head c > unat (kv_used c + 2 * of_nat (ub_n_tokens ub)) then c\<lparr>kv_head := 0\<rparr> else c"
  have gc: "kv_good ?c" "kv_inv ?c" using g kv_good_fields(1)[OF g, of 0] by (auto simp: kv_good_def)
  obtain c1 slot where 1: "llama_kv_cache_find_slot ?c ub = Inr (c1, slot)" "kv_has_shift c1 = kv_has_shift c" "kv_can_shift c1 = kv_can_shift c"
    using gc by (cases rule: find_slot_cases[OF gc(2), of ub]) (auto simp: llama_kv_cache_find_slot_def kv_good_def)
  have h: "rs_head (restorer_save rs slot) = rs_head rs" by (simp add: restorer_save_def Let_def)
  have "\<exists>c' rs' ret. kv_prepare fa c rs ub = Inr (c', rs', ret) \<and> ret \<in> {0, 1} \<and> rs_head rs' = rs_head rs
      \<and> kv_has_shift c' = kv_has_shift c1 \<and> kv_can_shift c' = kv_can_shift c1"
    using 1(1) h by (simp add: kv_prepare_def Let_def)
  then show ?thesis using kv_good_prepare[OF g ub] kv_size_prepare[OF g ub] 1(2,3) by metis
qed

text \<open>The rows the graph computed for a micro-batch: one of \<open>n_vocab\<close> floats for every token whose output is wanted, computed on a
  cache that holds the tokens of the micro-batch, with the inputs that belong to them.\<close>

definition ubatch_outputs :: "llama_params \<Rightarrow> llama_ubatch \<Rightarrow> nat" where
  "ubatch_outputs p ub = length (filter te_output (ubatch_entries (p_n_embd p) ub))"

definition graph_rows :: "llama_params \<Rightarrow> 'd runtime \<Rightarrow> llama_ubatch \<Rightarrow> u32 list \<Rightarrow> bool" where
  "graph_rows p rt ub rows \<longleftrightarrow> (\<exists>kv data data' out. placed kv ub
     \<and> r_graph rt kv data (decoder_inputs p (r_spec rt False) kv ub) ub (ubatch_outputs p ub) = (None, data', out)
     \<and> rows = take (ubatch_outputs p ub * p_n_vocab p) out)"

lemma ubatch_outputs_count: "ubatch_outputs p ub = length (filter (\<lambda>i. ub_output ub ! i \<noteq> 0) [0..<ub_n_tokens ub])"
  by (simp add: ubatch_outputs_def ubatch_entries_def filter_map o_def ubatch_entry_def Let_def)

lemma count_ubatch_outputs_ok:
  assumes "ubatch_shape (p_n_embd p) ub" "ubatch_entries (p_n_embd p) ub = map (batch_entry (p_n_embd p) (n_outputs = n) batch) js"
  shows "count_ubatch_outputs ub n_outputs n = Inr (ubatch_outputs p ub)"
proof (cases "n_outputs = n")
  case True
  have "ub_n_tokens ub = length (ubatch_entries (p_n_embd p) ub)" by (simp add: ubatch_entries_def)
  moreover have "filter te_output (map (batch_entry (p_n_embd p) True batch) js) = map (batch_entry (p_n_embd p) True batch) js"
    by (simp add: filter_id_conv batch_entry_def wants_output_def)
  ultimately show ?thesis using assms(2) True by (simp add: count_ubatch_outputs_def ubatch_outputs_def)
next
  case False
  have l: "ub_n_tokens ub \<le> length (ub_output ub)" using assms(1) by (simp add: ubatch_shape_def)
  have "length (filter (\<lambda>v. v \<noteq> 0) (map ((!) (ub_output ub)) [0..<ub_n_tokens ub])) = ubatch_outputs p ub"
    by (simp add: ubatch_outputs_def ubatch_entries_def filter_map o_def ubatch_entry_def Let_def)
  moreover have "map ((!) (ub_output ub)) [0..<ub_n_tokens ub] = take (ub_n_tokens ub) (ub_output ub)" using l by (auto intro: nth_equalityI)
  ultimately show ?thesis using False map_res_index[OF l] by (simp add: count_ubatch_outputs_def)
qed

lemma ubatch_ok_entries:
  assumes "ubatch_shape w ub" "ubatch_entries w ub = map (batch_entry w la batch) js"
    "\<forall>q \<in> set (the (b_pos batch)). 0 \<le> q" "\<forall>i \<in> set js. i < length (the (b_pos batch))"
  shows "ubatch_ok ub"
proof -
  have "0 \<le> ub_pos ub ! k" if k: "k < ub_n_tokens ub" for k
  proof -
    have l: "length js = ub_n_tokens ub" using arg_cong[OF assms(2), of length] by (simp add: ubatch_entries_def)
    have "te_pos (ubatch_entries w ub ! k) = ub_pos ub ! k" using k by (simp add: ubatch_entries_def ubatch_entry_def Let_def)
    then have "ub_pos ub ! k = the (b_pos batch) ! (js ! k)" using k l by (simp add: assms(2) batch_entry_def)
    then show ?thesis using assms(3,4) k l by simp
  qed
  then show ?thesis using assms(1) by (simp add: ubatch_ok_def ubatch_shape_def)
qed

lemma extract_rows_ok:
  assumes "prev + lc_n_outputs lc \<le> n_outputs" "n_outputs * w \<le> sz" "lc_n_outputs lc * w \<le> length out"
    "0 < n_outputs \<longrightarrow> ptr = Some base \<and> lc_buf_output lc = Some b \<and> base + sz \<le> length b" "0 < lc_n_outputs lc"
  shows "\<exists>b'. extract_rows ptr sz w n_outputs prev out lc = Inr (lc\<lparr>lc_buf_output := Some b'\<rparr>) \<and> length b' = length b
     \<and> take (base + (prev + lc_n_outputs lc) * w) b' = take (base + prev * w) b @ take (lc_n_outputs lc * w) out"
proof -
  let ?k = "lc_n_outputs lc"
  have pos: "0 < n_outputs" using assms(1,5) by linarith
  have le: "(prev + ?k) * w \<le> sz" using mult_le_mono1[OF assms(1)] assms(2) by (rule order_trans)
  then have r: "base + prev * w + ?k * w \<le> length b" using assms(2,4) pos by (simp add: distrib_right)
  then have l: "length (take (?k * w) out) = ?k * w" using assms(3) by simp
  let ?b' = "take (base + prev * w) b @ take (?k * w) out @ drop (base + prev * w + ?k * w) b"
  have "extract_rows ptr sz w n_outputs prev out lc = Inr (lc\<lparr>lc_buf_output := Some ?b'\<rparr>)"
    using assms pos le r l by (simp add: extract_rows_def Let_def tensor_get_def deref_def write_at_def)
  moreover have "length ?b' = length b" using r l by simp
  moreover have "take (base + (prev + ?k) * w) ?b' = take (base + prev * w) b @ take (?k * w) out"
    using r l by (simp add: distrib_right add.assoc)
  ultimately show ?thesis by blast
qed

section \<open>The loop\<close>

text \<open>A batch and parameters for which logits are computed by a causal decoder on a Transformer's cache; the graph gives at least
  the rows asked for. The number of tokens is an \<open>int32_t\<close>.\<close>

definition decodable :: "llama_params \<Rightarrow> 'd runtime \<Rightarrow> llama_batch \<Rightarrow> bool" where
  "decodable p rt batch \<longleftrightarrow> batch_ok (p_n_embd p) batch \<and> b_logits batch \<noteq> None \<and> (\<forall>q \<in> set (the (b_pos batch)). 0 \<le> q)
     \<and> b_n_tokens batch < 2 ^ 31 \<and> decoder_spec p (r_spec rt False)
     \<and> \<not> p_embeddings p \<and> 0 < p_n_ubatch p \<and> 0 < p_n_threads p \<and> 0 < p_n_threads_batch p
     \<and> (\<forall>kv data inp ub k data' out. r_graph rt kv data inp ub k = (None, data', out) \<longrightarrow> k * p_n_vocab p \<le> length out)"

text \<open>The state of the loop after the micro-batches \<open>ubs\<close>, whose rows are \<open>outs\<close> and whose tokens are \<open>js\<close>.\<close>

definition decode_inv ::
  "llama_params \<Rightarrow> 'd runtime \<Rightarrow> llama_batch \<Rightarrow> nat \<Rightarrow> nat \<Rightarrow> 'd llama_context \<Rightarrow> llama_kv_slot_restorer \<Rightarrow> nat
     \<Rightarrow> llama_ubatch list \<Rightarrow> u32 list list \<Rightarrow> nat list \<Rightarrow> bool" where
  "decode_inv p rt batch n_outputs sz lc rs prev ubs outs js \<longleftrightarrow>
     (let w = p_n_embd p; n = nat (b_n_tokens batch); la = (n_outputs = n); sb = lc_sbatch lc in
      \<not> lc_is_encoding lc \<and> simple_inv sb \<and> sb_n_embd sb = w \<and> entry_of sb = batch_entry w la batch
      \<and> mset js + rest sb = mset [0..<n] \<and> sb_out_ids sb = filter (wants_output la batch) js
      \<and> concat (map (ubatch_entries w) ubs) = map (batch_entry w la batch) js \<and> list_all2 (graph_rows p rt) ubs outs
      \<and> prev = length (filter (wants_output la batch) js) \<and> n_outputs = length (filter (wants_output la batch) [0..<n])
      \<and> kv_good (lc_kv lc) \<and> kv_size (lc_kv lc) = sz \<and> (kv_has_shift (lc_kv lc) \<longrightarrow> kv_can_shift (lc_kv lc)) \<and> rs_head rs \<le> sz
      \<and> (0 < n_outputs \<longrightarrow> lc_logits lc = Some 0 \<and> lc_embd_size lc = 0 \<and> n_outputs * p_n_vocab p \<le> lc_logits_size lc
           \<and> lc_output_ids lc = replicate (p_n_batch p) (-1)
           \<and> (\<exists>b. lc_buf_output lc = Some b \<and> lc_logits_size lc \<le> length b \<and> take (prev * p_n_vocab p) b = concat outs)))"

lemma length_graph_rows:
  assumes "decodable p rt batch" "graph_rows p rt ub rows"
  shows "length rows = ubatch_outputs p ub * p_n_vocab p"
proof -
  obtain kv data data' out where g: "r_graph rt kv data (decoder_inputs p (r_spec rt False) kv ub) ub (ubatch_outputs p ub) = (None, data', out)"
    "rows = take (ubatch_outputs p ub * p_n_vocab p) out" using assms(2) by (auto simp: graph_rows_def)
  then have "ubatch_outputs p ub * p_n_vocab p \<le> length out" using assms(1) unfolding decodable_def by blast
  then show ?thesis using g(2) by simp
qed

lemma wanted_part:
  assumes "mset (js @ ks) + R = mset [0..<n]"
  shows "length (filter P js) + length (filter P ks) \<le> length (filter P [0..<n])" "\<forall>i \<in> set ks. i < n"
proof -
  have "size (filter_mset P (mset (js @ ks) + R)) = length (filter P [0..<n])"
    unfolding assms by (metis mset_filter size_mset)
  then show "length (filter P js) + length (filter P ks) \<le> length (filter P [0..<n])" by (simp flip: mset_filter)
  show "\<forall>i \<in> set ks. i < n"
  proof
    fix i assume "i \<in> set ks"
    then have "i \<in># mset (js @ ks) + R" by simp
    then show "i < n" unfolding assms by simp
  qed
qed

definition advance_head :: "nat \<Rightarrow> llama_kv_cache \<Rightarrow> llama_kv_cache" where
  "advance_head k kv = (if kv_head kv + k \<ge> kv_size kv then kv\<lparr>kv_head := 0\<rparr> else kv\<lparr>kv_head := kv_head kv + k\<rparr>)"

lemma advance_head_good:
  assumes "kv_good kv"
  shows "kv_good (advance_head k kv)"
  using kv_good_fields(1)[OF assms, of 0] kv_good_fields(1)[OF assms, of "kv_head kv + k"] by (auto simp: advance_head_def)

text \<open>After a micro-batch was prepared, its inputs are set and the graph is computed on them.\<close>

lemma decode_ubatch_step:
  assumes pr: "llama_prepare_ubatch p rt n_outputs n rs lc = Inr (lc1, rs', ub, 0)"
    and spec: "decoder_spec p (r_spec rt False)" and shape: "ubatch_shape (p_n_embd p) ub"
    and win: "kv_n (lc_kv lc1) \<le> length (kv_cells (lc_kv lc1))" and nt: "ub_n_tokens ub + 64 < 2 ^ 32"
    and lc1: "\<not> kv_recurrent (lc_kv lc1)" "\<not> lc_is_encoding lc1"
      "lc_n_outputs lc1 = length (filter (\<lambda>i. ub_output ub ! i \<noteq> 0) [0..<ub_n_tokens ub])"
    and th: "(if ub_n_tokens ub = 1 then p_n_threads p else p_n_threads_batch p) > 0"
    and g: "r_graph rt (lc_kv lc1) (lc_data lc1) (decoder_inputs p (r_spec rt False) (lc_kv lc1) ub) ub (lc_n_outputs lc1) = (status, data', out)"
  defines "li \<equiv> lc1\<lparr>lc_inputs := decoder_inputs p (r_spec rt False) (lc_kv lc1) ub\<rparr>"
  shows "decode_ubatch p rt n_outputs n (lc, rs, prev) =
    (case status of
       Some e \<Rightarrow> Inr (li\<lparr>lc_kv := restorer_restore rs' (lc_kv lc1), lc_data := data'\<rparr>, rs', prev, Some (status_code e))
     | None \<Rightarrow> bind_res (extract_outputs p n_outputs prev ub out (li\<lparr>lc_kv := advance_head (ub_n_tokens ub) (lc_kv lc1), lc_data := data'\<rparr>))
         (\<lambda>lc'. Inr (lc', rs', prev + lc_n_outputs lc', None)))"
  unfolding decode_ubatch_def prod.case pr bind_res_simps ggml_assert_True[OF th] build_decoder[OF spec]
    set_inputs_decoder[OF spec shape win nt lc1]
  using g by (cases status) (simp_all add: li_def advance_head_def Let_def)

text \<open>A round takes a micro-batch of the tokens left, or returns.\<close>

lemma prepare_ubatch_ok:
  assumes d: "decodable p rt batch" and sz: "sz + 256 < 2 ^ 32" and t: "0 < sb_n_tokens (lc_sbatch lc)"
    and inv: "decode_inv p rt batch n_outputs sz lc rs prev ubs outs js"
  shows "\<exists>kv data sb rs' ub ret ks. llama_prepare_ubatch p rt n_outputs (nat (b_n_tokens batch)) rs lc
        = Inr (lc\<lparr>lc_kv := kv, lc_data := data, lc_sbatch := sb, lc_n_outputs := ubatch_outputs p ub\<rparr>, rs', ub, ret)
     \<and> ret \<in> {0, 1} \<and> ubatch_shape (p_n_embd p) ub \<and> (ret = 0 \<longrightarrow> placed kv ub) \<and> kv_good kv \<and> kv_size kv = sz \<and> (kv_has_shift kv \<longrightarrow> kv_can_shift kv) \<and> rs_head rs' \<le> sz
     \<and> simple_inv sb \<and> same_batch (lc_sbatch lc) sb \<and> sb_n_tokens sb < sb_n_tokens (lc_sbatch lc)
     \<and> rest (lc_sbatch lc) = mset ks + rest sb
     \<and> ubatch_entries (p_n_embd p) ub = map (batch_entry (p_n_embd p) (n_outputs = nat (b_n_tokens batch)) batch) ks
     \<and> sb_out_ids sb = sb_out_ids (lc_sbatch lc) @ filter (wants_output (n_outputs = nat (b_n_tokens batch)) batch) ks"
proof -
  let ?sb = "lc_sbatch lc" and ?w = "p_n_embd p" and ?n = "nat (b_n_tokens batch)"
  note i = inv[unfolded decode_inv_def Let_def]
  obtain c where c: "p_n_ubatch p = Suc c" using d by (metis decodable_def gr0_conv_Suc)
  obtain ub sb where s: "split_simple (Suc c) ?sb = Inr (ub, sb)" "simple_inv sb" and tk: "took (Suc c) ?sb ub sb"
    using plain.takes_some[of ?sb c] i t by auto
  obtain ks where ks: "rest ?sb = mset ks + rest sb" "ubatch_entries ?w ub = map (batch_entry ?w (n_outputs = ?n) batch) ks"
      "sb_out_ids sb = sb_out_ids ?sb @ filter (\<lambda>i. te_output (batch_entry ?w (n_outputs = ?n) batch i)) ks"
    using tk i by (auto simp: took_def)
  have shape: "ubatch_shape ?w ub" and same: "same_batch ?sb sb" and less: "sb_n_tokens sb < sb_n_tokens ?sb" using tk i by (auto simp: took_def)
  have wants: "te_output (batch_entry ?w (n_outputs = ?n) batch k) = wants_output (n_outputs = ?n) batch k" for k by (simp add: batch_entry_def)
  have ms: "mset (js @ ks) + rest sb = mset [0..<?n]" using i ks(1) by (simp add: add.assoc)
  have ok: "batch_ok ?w batch" using d by (simp add: decodable_def)
  have lp: "length (the (b_pos batch)) = ?n" using batch_arrays[OF ok] by (metis option.sel)
  have uok: "ubatch_ok ub"
    by (rule ubatch_ok_entries[OF shape ks(2)]) (use d wanted_part(2)[OF ms] lp in \<open>simp_all add: decodable_def\<close>)
  have kv: "kv_good (lc_kv lc)" "kv_size (lc_kv lc) < 2 ^ 32" "kv_has_shift (lc_kv lc) \<longrightarrow> kv_can_shift (lc_kv lc)" using i sz by auto
  obtain kv1 data1 where u: "llama_kv_cache_update_impl (p_has_rope p) (r_k_shift rt) (p_max_nodes p) (p_n_layer p) (lc_kv lc, lc_data lc) = Inr (kv1, data1)"
      "kv_good kv1" "kv_size kv1 = sz" "\<not> kv_has_shift kv1"
    using update_impl_spec[OF kv(1,2), where has_rope = "p_has_rope p" and k_shift = "r_k_shift rt" and max_nodes = "p_max_nodes p"
        and n_layer = "p_n_layer p" and data = "lc_data lc"] kv(3) i by (auto split: sum.splits)
  obtain kv2 rs' ret where pr: "kv_prepare (p_flash_attn p) kv1 rs ub = Inr (kv2, rs', ret)" "kv_good kv2" "kv_size kv2 = sz" "ret \<in> {0, 1}"
      "rs_head rs' = rs_head rs" "\<not> kv_has_shift kv2" using kv_prepare_total[OF u(2) uok, of "p_flash_attn p" rs] u(3,4) by auto
  have sn: "split_next p (lc_kv lc) ?sb = Inr (ub, sb)" using kv(1) s(1) c by (simp add: split_next_def kv_good_def)
  note cnt = count_ubatch_outputs_ok[OF shape ks(2)] and outs = ks(3)[unfolded wants]
  have rsz: "rs_head rs \<le> sz" using i by simp
  have pl: "placed kv2 ub" if "ret = 0" using placed_prepare[OF u(2) _ uok, of "p_flash_attn p" rs kv2 rs'] u(3) sz pr(1) that by simp
  have mc: "p_model_causal p" using d by (simp add: decodable_def decoder_spec_def)
  have "llama_prepare_ubatch p rt n_outputs ?n rs lc
      = Inr (lc\<lparr>lc_kv := kv2, lc_data := data1, lc_sbatch := sb, lc_n_outputs := ubatch_outputs p ub\<rparr>, rs', ub, ret)"
    using t sn cnt u(1) pr(1) mc by (simp add: llama_prepare_ubatch_def Let_def)
  then show ?thesis
    by (intro exI[of _ kv2] exI[of _ data1] exI[of _ sb] exI[of _ rs'] exI[of _ ub] exI[of _ ret] exI[of _ ks] conjI)
      (use pr s(2) same less ks(1,2) outs rsz shape pl in simp_all)
qed

lemma decode_ubatch_ok:
  assumes d: "decodable p rt batch" and sz: "sz + 256 < 2 ^ 32" and t: "0 < sb_n_tokens (lc_sbatch lc)"
    and inv: "decode_inv p rt batch n_outputs sz lc rs prev ubs outs js"
  shows "\<exists>lc' rs' prev' ret. decode_ubatch p rt n_outputs (nat (b_n_tokens batch)) (lc, rs, prev) = Inr (lc', rs', prev', ret)
    \<and> (case ret of
         Some r \<Rightarrow> r \<in> {1, 2, -2, -3} \<and> kv_good (lc_kv lc') \<and> kv_size (lc_kv lc') = sz
       | None \<Rightarrow> sb_n_tokens (lc_sbatch lc') < sb_n_tokens (lc_sbatch lc)
           \<and> (\<exists>ub rows ks. decode_inv p rt batch n_outputs sz lc' rs' prev' (ubs @ [ub]) (outs @ [rows]) (js @ ks)))"
proof -
  let ?w = "p_n_embd p" and ?n = "nat (b_n_tokens batch)" and ?v = "p_n_vocab p"
  note i = inv[unfolded decode_inv_def Let_def]
  obtain kv data sb rs' ub ret ks where pr: "llama_prepare_ubatch p rt n_outputs ?n rs lc
        = Inr (lc\<lparr>lc_kv := kv, lc_data := data, lc_sbatch := sb, lc_n_outputs := ubatch_outputs p ub\<rparr>, rs', ub, ret)" "ret \<in> {0, 1}"
      and shape: "ubatch_shape ?w ub" "ret = 0 \<longrightarrow> placed kv ub"
      and kv: "kv_good kv" "kv_size kv = sz" "kv_has_shift kv \<longrightarrow> kv_can_shift kv" "rs_head rs' \<le> sz"
      and sb: "simple_inv sb" "same_batch (lc_sbatch lc) sb" "sb_n_tokens sb < sb_n_tokens (lc_sbatch lc)"
      and ks: "rest (lc_sbatch lc) = mset ks + rest sb"
        "ubatch_entries ?w ub = map (batch_entry ?w (n_outputs = ?n) batch) ks"
        "sb_out_ids sb = sb_out_ids (lc_sbatch lc) @ filter (wants_output (n_outputs = ?n) batch) ks"
    using prepare_ubatch_ok[OF d sz t inv] by blast
  let ?k = "ubatch_outputs p ub"
  let ?lc = "lc\<lparr>lc_kv := kv, lc_data := data, lc_sbatch := sb, lc_n_outputs := ?k\<rparr>"
  have th: "(if ub_n_tokens ub = 1 then p_n_threads p else p_n_threads_batch p) > 0" using d by (simp add: decodable_def)
  let ?inp = "decoder_inputs p (r_spec rt False) kv ub"
  let ?li = "?lc\<lparr>lc_inputs := ?inp\<rparr>"
  obtain status data' out where g: "r_graph rt kv data ?inp ub ?k = (status, data', out)" by (metis prod_cases3)
  have spec: "decoder_spec p (r_spec rt False)" using d by (simp add: decodable_def)
  have ms: "mset (js @ ks) + rest sb = mset [0..<?n]" using i ks(1) by (simp add: add.assoc)
  have nt: "ub_n_tokens ub + 64 < 2 ^ 32"
  proof -
    have "length ks = ub_n_tokens ub" using arg_cong[OF ks(2), of length] by (simp add: ubatch_entries_def)
    moreover have "length ks \<le> ?n" using wanted_part(1)[OF ms, of "\<lambda>_. True"] by simp
    moreover have "b_n_tokens batch < 2147483648" using d by (simp add: decodable_def)
    ultimately have "ub_n_tokens ub < 2147483648" by linarith
    then show ?thesis by simp
  qed
  have wk: "length (filter (wants_output (n_outputs = ?n) batch) ks) = ?k"
    by (simp add: ubatch_outputs_def ks(2) filter_map o_def batch_entry_def)
  show ?thesis
  proof (cases "ret = 0")
    case False
    then show ?thesis using pr kv by (simp add: decode_ubatch_def)
  next
    case ret: True
    have q: "kv_n (lc_kv ?lc) \<le> length (kv_cells (lc_kv ?lc))" "\<not> kv_recurrent (lc_kv ?lc)" "\<not> lc_is_encoding ?lc"
        "lc_n_outputs ?lc = length (filter (\<lambda>i. ub_output ub ! i \<noteq> 0) [0..<ub_n_tokens ub])"
        "r_graph rt (lc_kv ?lc) (lc_data ?lc) (decoder_inputs p (r_spec rt False) (lc_kv ?lc) ub) ub (lc_n_outputs ?lc) = (status, data', out)"
      using shape(2) ret kv(1) i g by (simp_all add: placed_def kv_good_def kv_inv_def flip: ubatch_outputs_count[of p])
    have step: "decode_ubatch p rt n_outputs ?n (lc, rs, prev) =
        (case status of
           Some e \<Rightarrow> Inr (?li\<lparr>lc_kv := restorer_restore rs' kv, lc_data := data'\<rparr>, rs', prev, Some (status_code e))
         | None \<Rightarrow> bind_res (extract_outputs p n_outputs prev ub out (?li\<lparr>lc_kv := advance_head (ub_n_tokens ub) kv, lc_data := data'\<rparr>))
             (\<lambda>lc'. Inr (lc', rs', prev + lc_n_outputs lc', None)))"
      using decode_ubatch_step[OF pr(1)[unfolded ret] spec shape(1) q(1) nt q(2-4) th q(5), of prev] by (cases status) simp_all
    show ?thesis
    proof (cases status)
      case (Some e)
      have "status_code e \<in> {2, -2, -3}" by (cases e) simp_all
      moreover have "kv_good (restorer_restore rs' kv)" "kv_size (restorer_restore rs' kv) = sz"
        using kv_good_restore[OF kv(1)] kv_size_restore[OF kv(1)] kv(2,4) by simp_all
      ultimately show ?thesis using step Some by simp
    next
      case None
      define kv' where "kv' = advance_head (ub_n_tokens ub) kv"
      have kv': "kv_good kv'" "kv_size kv' = sz" "kv_has_shift kv' \<longrightarrow> kv_can_shift kv'"
        using advance_head_good[OF kv(1), of "ub_n_tokens ub"] kv by (auto simp: kv'_def advance_head_def)
      let ?rows = "take (?k * ?v) out"
      have rows: "graph_rows p rt ub ?rows" using g None shape(2) ret unfolding graph_rows_def by blast
      have lo: "?k * ?v \<le> length out" using d g None unfolding decodable_def by blast
      let ?lc1 = "?li\<lparr>lc_kv := kv', lc_data := data'\<rparr>"
      have ext: "\<exists>buf. extract_outputs p n_outputs prev ub out ?lc1 = Inr (?lc1\<lparr>lc_buf_output := buf\<rparr>)
          \<and> (0 < n_outputs \<longrightarrow> (\<exists>b'. buf = Some b' \<and> lc_logits_size lc \<le> length b' \<and> take ((prev + ?k) * ?v) b' = concat outs @ ?rows))"
      proof (cases "?k = 0")
        case True
        then show ?thesis using i by (intro exI[of _ "lc_buf_output lc"]) (auto simp: extract_outputs_def)
      next
        case False
        have le: "prev + ?k \<le> n_outputs" using wanted_part(1)[OF ms, of "wants_output (n_outputs = ?n) batch"] i wk by simp
        then have "0 < n_outputs" using False by linarith
        then obtain b where b: "lc_logits lc = Some 0" "n_outputs * ?v \<le> lc_logits_size lc" "lc_buf_output lc = Some b"
          "lc_logits_size lc \<le> length b" "take (prev * ?v) b = concat outs" using i by blast
        obtain b' where b': "extract_rows (Some 0) (lc_logits_size lc) ?v n_outputs prev out ?lc1 = Inr (?lc1\<lparr>lc_buf_output := Some b'\<rparr>)"
            "length b' = length b" "take (0 + (prev + ?k) * ?v) b' = take (0 + prev * ?v) b @ ?rows"
          using extract_rows_ok[of prev ?lc1 n_outputs ?v "lc_logits_size lc" out "Some 0" 0 b] le b lo False by auto
        then show ?thesis using b False d by (intro exI[of _ "Some b'"]) (simp add: extract_outputs_def decodable_def)
      qed
      then obtain buf where buf: "extract_outputs p n_outputs prev ub out ?lc1 = Inr (?lc1\<lparr>lc_buf_output := buf\<rparr>)"
          "0 < n_outputs \<longrightarrow> (\<exists>b'. buf = Some b' \<and> lc_logits_size lc \<le> length b' \<and> take ((prev + ?k) * ?v) b' = concat outs @ ?rows)" by blast
      let ?lc2 = "?lc1\<lparr>lc_buf_output := buf\<rparr>"
      have st: "decode_ubatch p rt n_outputs ?n (lc, rs, prev) = Inr (?lc2, rs', prev + ?k, None)"
        using step None buf(1) by (simp add: kv'_def)
      have e: "sb_n_embd sb = ?w" "entry_of sb = batch_entry ?w (n_outputs = ?n) batch"
        using same_batch_entry[OF sb(2)] sb(2) i by (simp_all add: same_batch_def)
      have all: "list_all2 (graph_rows p rt) (ubs @ [ub]) (outs @ [?rows])"
        by (rule list_all2_appendI) (use i rows in simp_all)
      have "decode_inv p rt batch n_outputs sz ?lc2 rs' (prev + ?k) (ubs @ [ub]) (outs @ [?rows]) (js @ ks)"
        unfolding decode_inv_def Let_def
        using i sb(1) e ms ks kv' kv(4) wk all buf(2) by (simp add: add.assoc)
      then show ?thesis using st sb(3) by auto
    qed
  qed
qed

lemma decode_loop_ok:
  assumes d: "decodable p rt batch" and sz: "sz + 256 < 2 ^ 32"
  shows "decode_inv p rt batch n_outputs sz lc rs prev ubs outs js \<Longrightarrow> sb_n_tokens (lc_sbatch lc) \<le> fuel
    \<Longrightarrow> \<exists>lc' ret. decode_loop fuel p rt n_outputs (nat (b_n_tokens batch)) (lc, rs, prev) = Inr (lc', ret)
      \<and> (case ret of
           Some r \<Rightarrow> r \<in> {1, 2, -2, -3} \<and> kv_good (lc_kv lc') \<and> kv_size (lc_kv lc') = sz
         | None \<Rightarrow> sb_n_tokens (lc_sbatch lc') = 0
             \<and> (\<exists>rs' prev' ubs' outs' js'. decode_inv p rt batch n_outputs sz lc' rs' prev' ubs' outs' js'))"
proof (induction fuel arbitrary: lc rs prev ubs outs js)
  case 0
  then show ?case by (subst decode_loop.simps) (simp, blast)
next
  case (Suc fuel)
  show ?case
  proof (cases "0 < sb_n_tokens (lc_sbatch lc)")
    case False
    then show ?thesis using Suc.prems by (subst decode_loop.simps) (simp, blast)
  next
    case True
    obtain lc' rs' prev' ret where st: "decode_ubatch p rt n_outputs (nat (b_n_tokens batch)) (lc, rs, prev) = Inr (lc', rs', prev', ret)"
        "case ret of
         Some r \<Rightarrow> r \<in> {1, 2, -2, -3} \<and> kv_good (lc_kv lc') \<and> kv_size (lc_kv lc') = sz
       | None \<Rightarrow> sb_n_tokens (lc_sbatch lc') < sb_n_tokens (lc_sbatch lc)
           \<and> (\<exists>ub rows ks. decode_inv p rt batch n_outputs sz lc' rs' prev' (ubs @ [ub]) (outs @ [rows]) (js @ ks))"
      using decode_ubatch_ok[OF d sz True Suc.prems(1)] by blast
    have eq: "decode_loop (Suc fuel) p rt n_outputs (nat (b_n_tokens batch)) (lc, rs, prev) = (case ret of
        Some r \<Rightarrow> Inr (lc', Some r) | None \<Rightarrow> decode_loop fuel p rt n_outputs (nat (b_n_tokens batch)) (lc', rs', prev'))"
      using True st(1) by (subst decode_loop.simps) simp
    show ?thesis
    proof (cases ret)
      case None
      then obtain ub rows ks where inv: "decode_inv p rt batch n_outputs sz lc' rs' prev' (ubs @ [ub]) (outs @ [rows]) (js @ ks)"
        "sb_n_tokens (lc_sbatch lc') \<le> fuel" using st(2) Suc.prems(2) by auto
      show ?thesis unfolding eq None option.case by (rule Suc.IH[OF inv])
    next
      case (Some r)
      then show ?thesis using st(2) unfolding eq by simp
    qed
  qed
qed

section \<open>Before the loop\<close>

lemma reserve_ok:
  assumes "llama_output_reserve p alloc lc n_outputs = (lc', got)" "\<not> got < n_outputs" "\<not> p_embeddings p"
    "lc_output_ids lc = [] \<or> length (lc_output_ids lc) = p_n_batch p"
  shows "lc_kv lc' = lc_kv lc" "lc_sbatch lc' = lc_sbatch lc" "lc_is_encoding lc' = lc_is_encoding lc"
    "0 < n_outputs \<Longrightarrow> lc_logits lc' = Some 0 \<and> lc_embd_size lc' = 0 \<and> n_outputs * p_n_vocab p \<le> lc_logits_size lc' \<and> lc_output_ids lc' = replicate (p_n_batch p) (-1)
       \<and> (\<exists>b. lc_buf_output lc' = Some b \<and> lc_logits_size lc' \<le> length b)"
  using assms by (auto simp: llama_output_reserve_def Let_def max_def split: if_splits option.splits)

lemma reserve_keeps:
  assumes "llama_output_reserve p alloc lc n_outputs = (lc', got)"
  shows "lc_kv lc' = lc_kv lc"
  using assms by (auto simp: llama_output_reserve_def Let_def split: if_splits option.splits)

lemma filter_nth_count:
  assumes "length xs = n"
  shows "length (filter P xs) = length (filter (\<lambda>i. P (xs ! i)) [0..<n])"
proof -
  have "filter P xs = map ((!) xs) (filter (\<lambda>i. P (xs ! i)) [0..<n])"
    using assms map_nth[of xs] by (simp add: filter_map[unfolded o_def, symmetric])
  then show ?thesis by simp
qed

definition wanted :: "llama_batch \<Rightarrow> nat \<Rightarrow> bool" where
  "wanted batch i \<longleftrightarrow> the (b_logits batch) ! i \<noteq> 0"

text \<open>The outputs are counted as the batch asks for them.\<close>

lemma count_outputs_ok:
  assumes "decodable p rt batch"
  defines "n \<equiv> nat (b_n_tokens batch)"
  shows "\<exists>m. count_outputs p batch n = Inr m \<and> m = length (filter (wanted batch) [0..<n])
    \<and> (\<forall>i < n. wants_output (m = n) batch i \<longleftrightarrow> wanted batch i)"
proof -
  obtain ls where ls: "b_logits batch = Some ls" "length ls = n"
    using assms by (auto simp: decodable_def batch_ok_def Let_def)
  let ?m = "length (filter (wanted batch) [0..<n])"
  have "count_outputs p batch n = Inr (length (filter (\<lambda>v. v \<noteq> 0) ls))"
    using assms ls map_res_index[of n ls] by (simp add: count_outputs_def decodable_def embd_pooled_def)
  then have c: "count_outputs p batch n = Inr ?m" using filter_nth_count[OF ls(2)] ls(1) by (simp add: wanted_def[abs_def])
  have "wants_output (?m = n) batch i \<longleftrightarrow> wanted batch i" if "i < n" for i
  proof (cases "?m = n")
    case True
    then have "filter (wanted batch) [0..<n] = [0..<n]" by (metis diff_zero filter_id_conv length_filter_less length_upt less_irrefl)
    then have "wanted batch i" using that by (metis atLeastLessThan_iff filter_id_conv le0 set_upt)
    then show ?thesis using True by (simp add: wants_output_def)
  next
    case False
    then show ?thesis using ls by (simp add: wants_output_def wanted_def)
  qed
  then show ?thesis using c by blast
qed

lemma tokens_valid_ok:
  assumes "batch_ok w batch"
  shows "\<exists>v. tokens_valid p batch (nat (b_n_tokens batch)) = Inr v"
proof (cases "b_token batch")
  case (Some ts)
  then have "length ts = nat (b_n_tokens batch)" using assms by (simp add: batch_ok_def Let_def)
  then show ?thesis using Some map_res_index[of "nat (b_n_tokens batch)" ts] by (simp add: tokens_valid_def)
qed (auto simp: tokens_valid_def)

lemma prepare_sbatch_ok:
  assumes d: "decodable p rt batch" and kv: "kv_good (lc_kv lc)" "kv_has_shift (lc_kv lc) \<longrightarrow> kv_can_shift (lc_kv lc)" "rs_head rs \<le> kv_size (lc_kv lc)" "\<not> lc_is_encoding lc"
    and n: "nat (b_n_tokens batch) \<le> p_n_batch p"
    and ids: "lc_output_ids lc = [] \<or> length (lc_output_ids lc) = p_n_batch p"
  shows "\<exists>lc' m ret. llama_prepare_sbatch p rt lc batch = Inr (lc', m, ret) \<and> lc_kv lc' = lc_kv lc \<and> ret \<in> {0, -1, -2}
    \<and> (ret = 0 \<longrightarrow> decode_inv p rt batch m (kv_size (lc_kv lc)) lc' rs 0 [] [] [] \<and> sb_n_tokens (lc_sbatch lc') = nat (b_n_tokens batch)
         \<and> (\<forall>i < nat (b_n_tokens batch). wants_output (m = nat (b_n_tokens batch)) batch i \<longleftrightarrow> wanted batch i))"
proof -
  let ?n = "nat (b_n_tokens batch)" and ?w = "p_n_embd p"
  have ok: "batch_ok ?w batch" and ne: "\<not> p_embeddings p" using d by (auto simp: decodable_def)
  obtain v where v: "tokens_valid p batch ?n = Inr v" using tokens_valid_ok[OF ok] by blast
  obtain m where m: "count_outputs p batch ?n = Inr m" "m = length (filter (wanted batch) [0..<?n])"
    "\<forall>i < ?n. wants_output (m = ?n) batch i \<longleftrightarrow> wanted batch i" using count_outputs_ok[OF d] by blast
  have tok: "(b_token batch = None) \<noteq> (b_embd batch = None)" "0 \<le> b_n_tokens batch" using ok by (simp_all add: batch_ok_def Let_def)
  then obtain sb where sb: "from_batch (r_sort_ids rt) (r_sort_seqs rt) batch ?w True (m = ?n) (lc_sbatch lc) = Inr sb"
    by (simp add: from_batch_def Let_def)
  note f = from_batch_simple[OF ok sb]
  let ?lc = "lc\<lparr>lc_n_queued_tokens := lc_n_queued_tokens lc + ?n, lc_embd_seq := Map.empty, lc_sbatch := sb\<rparr>"
  obtain lc' got where r: "llama_output_reserve p (r_alloc rt) ?lc m = (lc', got)" by fastforce
  have nr: "\<not> kv_recurrent (lc_kv lc)" using kv(1) by (simp add: kv_good_def)
  have res: "llama_prepare_sbatch p rt lc batch = (if v then Inr (lc', m, if got < m then -2 else 0) else Inr (lc, 0, -1))"
    using tok v n m(1) sb r nr d by (simp add: llama_prepare_sbatch_def Let_def decodable_def decoder_spec_def)
  have ids': "lc_output_ids ?lc = [] \<or> length (lc_output_ids ?lc) = p_n_batch p" using ids by simp
  have inv: "decode_inv p rt batch m (kv_size (lc_kv lc)) lc' rs 0 [] [] []" "sb_n_tokens (lc_sbatch lc') = ?n" if "\<not> got < m"
  proof -
    note k = reserve_ok[OF r that ne ids']
    have "filter (wants_output (m = ?n) batch) [0..<?n] = filter (wanted batch) [0..<?n]" using m(3) by (intro filter_cong) auto
    then show "decode_inv p rt batch m (kv_size (lc_kv lc)) lc' rs 0 [] [] []"
      unfolding decode_inv_def Let_def using k f kv m(2) by auto
    show "sb_n_tokens (lc_sbatch lc') = ?n" using k(2) f(3) by simp
  qed
  have kvk: "lc_kv lc' = lc_kv lc" using reserve_keeps[OF r] by simp
  show ?thesis
  proof (cases v)
    case False
    then show ?thesis using res by simp
  next
    case True
    then show ?thesis using res inv m(3) kvk by (cases "got < m") auto
  qed
qed

section \<open>Reading the outputs\<close>

text \<open>Reading token \<open>i\<close> gives \<open>row\<close>.\<close>

definition reads_row :: "llama_params \<Rightarrow> 'd llama_context \<Rightarrow> int \<Rightarrow> u32 list \<Rightarrow> bool" where
  "reads_row p lc i row \<longleftrightarrow> (\<exists>off b. llama_get_logits_ith True p lc i = Inr (Some off) \<and> lc_buf_output lc = Some b
     \<and> off + p_n_vocab p \<le> length b \<and> take (p_n_vocab p) (drop off b) = row)"

lemma unat_index:
  assumes "k < m" "m * w < 2 ^ 32"
  shows "unat (of_nat k * of_nat w :: u32) = k * w"
proof -
  have "k * w < 2 ^ 32" using assms mult_le_mono1[of k m w] by (meson le_less_trans less_imp_le)
  then show ?thesis by (simp flip: of_nat_mult add: unat_of_nat take_bit_nat_eq_self)
qed

lemma row_take: "k < m \<Longrightarrow> row_at w (take (m * w) b) k = row_at w b k"
  using mult_le_mono1[of "Suc k" m w] by (simp add: row_at_def drop_take mult.commute min_def)

text \<open>The state in which outputs are read: row \<open>k\<close> of the buffer belongs to token \<open>ts ! k\<close>.\<close>

definition outputs_ready :: "llama_params \<Rightarrow> 'd llama_context \<Rightarrow> nat list \<Rightarrow> u32 list \<Rightarrow> bool" where
  "outputs_ready p lc ts rows \<longleftrightarrow> lc_n_outputs lc = length ts \<and> distinct ts
     \<and> (sb_out_ids (lc_sbatch lc) = ts \<or> sb_out_ids (lc_sbatch lc) = [] \<and> sorted ts)
     \<and> (ts \<noteq> [] \<longrightarrow> lc_logits lc = Some 0 \<and> lc_embd_size lc = 0 \<and> (\<forall>t \<in> set ts. t < length (lc_output_ids lc))
          \<and> (\<forall>k < length ts. lc_output_ids lc ! (ts ! k) = int k) \<and> (\<forall>t < length (lc_output_ids lc). t \<notin> set ts \<longrightarrow> lc_output_ids lc ! t = -1)
          \<and> length ts * p_n_vocab p \<le> lc_logits_size lc
          \<and> (\<exists>b. lc_buf_output lc = Some b \<and> lc_logits_size lc \<le> length b \<and> take (length ts * p_n_vocab p) b = rows))"

lemma outputs_ready_reads:
  assumes r: "outputs_ready p lc ts rows" and small: "length ts * p_n_vocab p < 2 ^ 32"
  shows "k < length ts \<Longrightarrow> reads_row p lc (int (ts ! k)) (row_at (p_n_vocab p) rows k)"
    "t \<notin> set ts \<Longrightarrow> llama_get_logits_ith True p lc (int t) = Inr None"
proof -
  assume k: "k < length ts"
  then have ne: "ts \<noteq> []" by auto
  then obtain b where b: "lc_buf_output lc = Some b" "lc_logits_size lc \<le> length b" "take (length ts * p_n_vocab p) b = rows"
    and o: "lc_logits lc = Some 0" "ts ! k < length (lc_output_ids lc)" "lc_output_ids lc ! (ts ! k) = int k" "lc_n_outputs lc = length ts"
      "length ts * p_n_vocab p \<le> lc_logits_size lc"
    using r k unfolding outputs_ready_def by (metis nth_mem)
  have "llama_get_logits_ith True p lc (int (ts ! k)) = Inr (Some (k * p_n_vocab p))"
    using o k unat_index[OF k small] by (simp add: llama_get_logits_ith_def output_ptr_def output_row_def)
  moreover have "Suc k * p_n_vocab p \<le> length ts * p_n_vocab p" using k by (intro mult_le_mono1) simp
  then have "k * p_n_vocab p + p_n_vocab p \<le> length b" using o(5) b(2) by simp
  ultimately show "reads_row p lc (int (ts ! k)) (row_at (p_n_vocab p) rows k)"
    unfolding reads_row_def using b row_take[OF k, of "p_n_vocab p" b] by (simp add: row_at_def mult.commute)
next
  assume t: "t \<notin> set ts"
  show "llama_get_logits_ith True p lc (int t) = Inr None"
  proof (cases "ts = []")
    case True
    then have "lc_n_outputs lc = 0" using r by (simp add: outputs_ready_def)
    then show ?thesis by (auto simp: llama_get_logits_ith_def output_ptr_def output_row_def Let_def)
  next
    case False
    then have "t < length (lc_output_ids lc) \<Longrightarrow> lc_output_ids lc ! t = -1" using r t by (simp add: outputs_ready_def)
    then show ?thesis by (auto simp: llama_get_logits_ith_def output_ptr_def output_row_def Let_def)
  qed
qed

lemma set_output_mappings_ok:
  assumes d: "decodable p rt batch" and inv: "decode_inv p rt batch m sz lc rs prev ubs outs js"
    and fin: "sb_n_tokens (lc_sbatch lc) = 0" and n: "nat (b_n_tokens batch) \<le> p_n_batch p"
    and w: "\<forall>i < nat (b_n_tokens batch). wants_output (m = nat (b_n_tokens batch)) batch i \<longleftrightarrow> wanted batch i"
  shows "mset js = mset [0..<nat (b_n_tokens batch)]"
    "\<exists>lc'. set_output_mappings m lc = Inr lc' \<and> lc_kv lc' = lc_kv lc \<and> outputs_ready p lc' (filter (wanted batch) js) (concat outs)"
proof -
  let ?n = "nat (b_n_tokens batch)"
  note i = inv[unfolded decode_inv_def Let_def]
  have "rest (lc_sbatch lc) = {#}" using i fin by (intro simple_inv_done) auto
  then show ms: "mset js = mset [0..<?n]" using i by simp
  then have sj: "set js = {0..<?n}" "distinct js" by (metis mset_eq_setD set_upt, metis distinct_upt mset_eq_imp_distinct_iff)
  let ?ts = "filter (wanted batch) js"
  have ts: "filter (wants_output (m = ?n) batch) js = ?ts" using w sj(1) by (intro filter_cong) auto
  have lm: "length ?ts = m" using i ms ts by (metis mset_filter size_mset)
  have out: "sb_out_ids (lc_sbatch lc) = ?ts" "prev = m" using i ts lm by simp_all
  show "\<exists>lc'. set_output_mappings m lc = Inr lc' \<and> lc_kv lc' = lc_kv lc \<and> outputs_ready p lc' ?ts (concat outs)"
  proof (cases "m = 0")
    case True
    then show ?thesis using out lm by (simp add: set_output_mappings_def Let_def set_output_ids_def outputs_ready_def)
  next
    case False
    then have "0 < m" by simp
    moreover have "0 < m \<longrightarrow> lc_logits lc = Some 0 \<and> lc_embd_size lc = 0 \<and> m * p_n_vocab p \<le> lc_logits_size lc \<and> lc_output_ids lc = replicate (p_n_batch p) (-1)
           \<and> (\<exists>b. lc_buf_output lc = Some b \<and> lc_logits_size lc \<le> length b \<and> take (prev * p_n_vocab p) b = concat outs)"
      using i by (elim conjE)
    ultimately obtain b where b: "lc_logits lc = Some 0" "m * p_n_vocab p \<le> lc_logits_size lc" "lc_output_ids lc = replicate (p_n_batch p) (-1)"
        "lc_buf_output lc = Some b" "lc_logits_size lc \<le> length b" "take (m * p_n_vocab p) b = concat outs" "lc_embd_size lc = 0" unfolding out(2) by blast
    have lt: "\<forall>t \<in> set ?ts. t < length (lc_output_ids lc)" using sj(1) n b(3) by auto
    obtain ids where ids: "set_output_ids ?ts (lc_output_ids lc) = Inr ids" "length ids = p_n_batch p"
        "\<forall>k < length ?ts. ids ! (?ts ! k) = int k" "\<forall>t. t \<notin> set ?ts \<longrightarrow> ids ! t = lc_output_ids lc ! t"
      using set_output_ids_ok[OF _ lt] sj(2) b(3) by auto
    let ?lc = "lc\<lparr>lc_output_ids := ids,
                lc_sbatch := (if ?ts = [0..<m] then (lc_sbatch lc)\<lparr>sb_out_ids := []\<rparr> else lc_sbatch lc), lc_n_outputs := m\<rparr>"
    have "set_output_mappings m lc = Inr ?lc" using out lm ids(1) by (simp add: set_output_mappings_def Let_def)
    moreover have "outputs_ready p ?lc ?ts (concat outs)"
      unfolding outputs_ready_def lm using ids b lt sj(2) lm out(1) by auto
    ultimately show ?thesis by auto
  qed
qed

section \<open>Putting the rows in order\<close>

lemma unat_index_add:
  assumes "i < m" "k < w" "m * w < 2 ^ 32"
  shows "unat (of_nat i * of_nat w + of_nat k :: u32) = i * w + k" "i * w + k < m * w"
proof -
  have "Suc i * w \<le> m * w" using assms(1) by (intro mult_le_mono1) simp
  then show l: "i * w + k < m * w" using assms(2) by simp
  then have "i * w + k < 2 ^ 32" using assms(3) by simp
  then show "unat (of_nat i * of_nat w + of_nat k :: u32) = i * w + k"
    by (simp flip: of_nat_mult of_nat_add add: unat_of_nat take_bit_nat_eq_self)
qed

lemma fold_res_cong: "(\<And>x s. x \<in> set xs \<Longrightarrow> f x s = g x s) \<Longrightarrow> fold_res f xs s = fold_res g xs s"
  by (induction xs arbitrary: s) (auto intro: arg_cong2[where f = bind_res])

text \<open>Swapping two disjoint blocks element by element.\<close>

lemma swap_blocks:
  fixes I J w :: nat
  assumes apart: "I + w \<le> J \<or> J + w \<le> I" and lim: "I + w \<le> length b" "J + w \<le> length b"
  defines "f \<equiv> \<lambda>k b. if I + k < length b \<and> J + k < length b then Inr (b[I + k := b ! (J + k), J + k := b ! (I + k)]) else Inl Undef"
    and "g \<equiv> \<lambda>c q. if I \<le> q \<and> q < I + c then J + (q - I) else if J \<le> q \<and> q < J + c then I + (q - J) else q"
  shows "c \<le> w \<Longrightarrow> \<exists>b'. fold_res f [0..<c] b = Inr b' \<and> length b' = length b \<and> (\<forall>q < length b. b' ! q = b ! g c q)"
proof (induction c)
  case 0
  then show ?case by (auto simp: g_def)
next
  case (Suc c)
  then obtain b1 where b1: "fold_res f [0..<c] b = Inr b1" "length b1 = length b" "\<forall>q < length b. b1 ! q = b ! g c q" by auto
  have c: "c < w" using Suc.prems by simp
  have lt: "I + c < length b" "J + c < length b" using lim c by simp_all
  have old: "b1 ! (I + c) = b ! (I + c)" "b1 ! (J + c) = b ! (J + c)" using b1(3) lt apart c by (auto simp: g_def)
  let ?b' = "b1[I + c := b1 ! (J + c), J + c := b1 ! (I + c)]"
  have "fold_res f [0..<Suc c] b = Inr ?b'" using b1(1,2) lt by (simp add: fold_res_append f_def)
  moreover have "?b' ! q = b ! g (Suc c) q" if q: "q < length b" for q
  proof -
    consider "q = I + c" | "q = J + c" | "q \<noteq> I + c" "q \<noteq> J + c" by blast
    then show ?thesis
    proof cases
      case 3
      then have "g (Suc c) q = g c q" by (auto simp: less_Suc_eq g_def)
      moreover have "?b' ! q = b1 ! q" using 3 by simp
      ultimately show ?thesis using b1(3) q by simp
    qed (use old lt b1(2) apart c in \<open>auto simp: nth_list_update g_def\<close>)
  qed
  ultimately show ?case using b1(2) by (intro exI[of _ ?b']) simp
qed

lemma rows_apart: "i \<noteq> j \<Longrightarrow> i * w + w \<le> j * w \<or> j * w + w \<le> i * w" for i j w :: nat
  using mult_le_mono1[of "Suc i" j w] mult_le_mono1[of "Suc j" i w] by (cases "i < j") auto

lemma swap_rows_ok:
  assumes ij: "i < m" "j < m" "i \<noteq> j" and w: "m * w < 2 ^ 32" "m * w \<le> length b"
  shows "\<exists>b'. swap_rows 0 w i j b = Inr b' \<and> length b' = length b
    \<and> (\<forall>r < m. row_at w b' r = row_at w b (if r = i then j else if r = j then i else r))"
proof -
  let ?g = "\<lambda>I J q. if I \<le> q \<and> q < I + w then J + (q - I) else if J \<le> q \<and> q < J + w then I + (q - J) else (q :: nat)"
  have lim: "r * w + w \<le> length b" if "r < m" for r using mult_le_mono1[of "Suc r" m w] that w(2) by simp
  have "swap_rows 0 w i j b = fold_res (\<lambda>k b. if i * w + k < length b \<and> j * w + k < length b
      then Inr (b[i * w + k := b ! (j * w + k), j * w + k := b ! (i * w + k)]) else Inl Undef) [0..<w] b"
    unfolding swap_rows_def using unat_index_add(1)[OF ij(1) _ w(1)] unat_index_add(1)[OF ij(2) _ w(1)]
    by (intro fold_res_cong) (simp add: Let_def)
  then obtain b' where b': "swap_rows 0 w i j b = Inr b'" "length b' = length b" "\<forall>q < length b. b' ! q = b ! ?g (i * w) (j * w) q"
    using swap_blocks[OF rows_apart[OF ij(3)] lim[OF ij(1)] lim[OF ij(2)] order_refl] by auto
  have "row_at w b' r = row_at w b (if r = i then j else if r = j then i else r)" if r: "r < m" for r
  proof -
    let ?s = "if r = i then j else if r = j then i else r"
    have sm: "?s < m" using r ij by simp
    have "?g I J (R + x) = (if r = i then J else if r = j then I else R) + x" if "x < w" "I = i * w" "J = j * w" "R = r * w" for x I J R
    proof -
      have "r \<noteq> i \<longrightarrow> R + w \<le> I \<or> I + w \<le> R" "r \<noteq> j \<longrightarrow> R + w \<le> J \<or> J + w \<le> R" "I + w \<le> J \<or> J + w \<le> I" "r = i \<longrightarrow> R = I" "r = j \<longrightarrow> R = J"
        using rows_apart[of r i w] rows_apart[of r j w] rows_apart[OF ij(3), of w] that(2-4) by auto
      then show ?thesis using that(1) by auto
    qed
    then have g: "?g (i * w) (j * w) (r * w + x) = ?s * w + x" if "x < w" for x using that by simp
    have "b' ! (r * w + x) = b ! (?s * w + x)" if x: "x < w" for x
      using b'(3)[rule_format, of "r * w + x"] lim[OF r] x unfolding g[OF x] by simp
    then show ?thesis unfolding row_at_def using lim[OF r] lim[OF sm] b'(2) by (intro nth_equalityI) (auto simp: mult.commute)
  qed
  then show ?thesis using b' by blast
qed

lemma find_min_ok:
  assumes "i < n"
  shows "i \<le> find_min ts i n" "find_min ts i n < n" "i \<le> j \<Longrightarrow> j < n \<Longrightarrow> ts ! find_min ts i n \<le> ts ! j"
proof -
  let ?f = "\<lambda>j j_min. if ts ! j < ts ! j_min then j else j_min"
  have "i \<le> fold ?f [i + 1..<c] i \<and> fold ?f [i + 1..<c] i < c \<and> (\<forall>j. i \<le> j \<and> j < c \<longrightarrow> ts ! fold ?f [i + 1..<c] i \<le> ts ! j)" if "i < c" for c
    using that
  proof (induction c)
    case (Suc c)
    then show ?case by (cases "i = c") (auto simp: less_Suc_eq le_less dest: less_trans)
  qed simp
  from this[OF assms] show "i \<le> find_min ts i n" "find_min ts i n < n" "i \<le> j \<Longrightarrow> j < n \<Longrightarrow> ts ! find_min ts i n \<le> ts ! j"
    unfolding find_min_def by blast+
qed

definition row_list :: "nat \<Rightarrow> nat \<Rightarrow> u32 list \<Rightarrow> u32 list list" where
  "row_list m w b = map (row_at w b) [0..<m]"

lemma swapped_list:
  assumes "i < length xs" "j < length xs"
  shows "mset (xs[i := xs ! j, j := xs ! i]) = mset xs"
  using assms by (simp add: mset_swap)

lemma zip_swap: "length xs = length ys \<Longrightarrow> i < length xs \<Longrightarrow> j < length xs
    \<Longrightarrow> zip (xs[i := xs ! j, j := xs ! i]) (ys[i := ys ! j, j := ys ! i]) = (zip xs ys)[i := zip xs ys ! j, j := zip xs ys ! i]"
  by (simp add: update_zip)

text \<open>A step of the selection sort swaps an id together with its row.\<close>

lemma reorder_step_ok:
  assumes lc: "lc_logits lc = Some 0" "lc_embd_size lc = 0" "m * p_n_vocab p \<le> lc_logits_size lc"
    and b: "lc_logits_size lc \<le> length b" "m * p_n_vocab p < 2 ^ 32" and i: "i < m" "length ts = m"
    and pre: "\<forall>x < i. \<forall>y. x \<le> y \<and> y < m \<longrightarrow> ts ! x \<le> ts ! y"
  shows "\<exists>ts' b'. reorder_step p lc m i (ts, Some b) = Inr (ts', Some b') \<and> length ts' = m \<and> length b' = length b
    \<and> mset (zip ts' (row_list m (p_n_vocab p) b')) = mset (zip ts (row_list m (p_n_vocab p) b))
    \<and> (\<forall>x < Suc i. \<forall>y. x \<le> y \<and> y < m \<longrightarrow> ts' ! x \<le> ts' ! y)"
proof -
  let ?w = "p_n_vocab p" and ?j = "find_min ts i m"
  note fm = find_min_ok[OF i(1), where ts = ts]
  show ?thesis
  proof (cases "?j = i")
    case True
    have "\<forall>x < Suc i. \<forall>y. x \<le> y \<and> y < m \<longrightarrow> ts ! x \<le> ts ! y" using pre fm(3) True by (auto simp: less_Suc_eq)
    then show ?thesis using True i by (simp add: reorder_step_def Let_def)
  next
    case ne: False
    let ?ts = "ts[i := ts ! ?j, ?j := ts ! i]"
    have wl: "m * ?w \<le> length b" using lc(3) b(1) by simp
    obtain b' where b': "swap_rows 0 ?w i ?j b = Inr b'" "length b' = length b"
      "\<forall>r < m. row_at ?w b' r = row_at ?w b (if r = i then ?j else if r = ?j then i else r)"
      using swap_rows_ok[OF i(1) fm(2) ne[symmetric] b(2) wl] by blast
    obtain b1 where b1: "reorder_step p lc m i (ts, Some b) = Inr (?ts, Some b1)" "length b1 = length b"
      "\<forall>r < m. row_at ?w b1 r = row_at ?w b (if r = i then ?j else if r = ?j then i else r)"
    proof (cases "0 < lc_logits_size lc")
      case True
      then show ?thesis using that[of b'] b' ne lc(1,2) by (simp add: reorder_step_def Let_def deref_def)
    next
      case False
      then have "?w = 0" using lc(3) i(1) by simp
      then show ?thesis using that[of b] ne lc(2) False by (simp add: reorder_step_def Let_def row_at_def)
    qed
    have "row_list m ?w b1 = (row_list m ?w b)[i := row_list m ?w b ! ?j, ?j := row_list m ?w b ! i]"
      using b1(3) i(1) fm(2) ne by (intro nth_equalityI) (auto simp: row_list_def nth_list_update)
    then have "zip ?ts (row_list m ?w b1) = (zip ts (row_list m ?w b))[i := zip ts (row_list m ?w b) ! ?j, ?j := zip ts (row_list m ?w b) ! i]"
      using zip_swap[of ts "row_list m ?w b" i ?j] i fm(2) by (simp add: row_list_def)
    then have ms: "mset (zip ?ts (row_list m ?w b1)) = mset (zip ts (row_list m ?w b))"
      using swapped_list[of i "zip ts (row_list m ?w b)" ?j] i fm(2) by (simp add: row_list_def)
    have "?ts ! x \<le> ?ts ! y" if "x < Suc i" "x \<le> y" "y < m" for x y
    proof (cases "x = i")
      case True
      then show ?thesis using fm(3)[of y] fm(3)[of i] fm(1,2) i that ne by (auto simp: nth_list_update)
    next
      case False
      then have x: "x < i" using that(1) by simp
      then have "?ts ! x = ts ! x" using fm(1) by simp
      moreover have "ts ! x \<le> ts ! z" if "x \<le> z" "z < m" for z using pre x that by blast
      ultimately show ?thesis using that x fm(1,2) i by (auto simp: nth_list_update)
    qed
    then show ?thesis using b1(1,2) ms i by (intro exI[of _ ?ts] exI[of _ b1]) simp
  qed
qed

lemma reorder_loop_ok:
  assumes lc: "lc_logits lc = Some 0" "lc_embd_size lc = 0" "m * p_n_vocab p \<le> lc_logits_size lc"
    and b: "lc_logits_size lc \<le> length b" "m * p_n_vocab p < 2 ^ 32" and ts: "length ts = m"
  shows "c \<le> m \<Longrightarrow> \<exists>ts' b'. fold_res (reorder_step p lc m) [0..<c] (ts, Some b) = Inr (ts', Some b') \<and> length ts' = m \<and> length b' = length b
    \<and> mset (zip ts' (row_list m (p_n_vocab p) b')) = mset (zip ts (row_list m (p_n_vocab p) b))
    \<and> (\<forall>x < c. \<forall>y. x \<le> y \<and> y < m \<longrightarrow> ts' ! x \<le> ts' ! y)"
proof (induction c)
  case 0
  then show ?case using ts by simp
next
  case (Suc c)
  then obtain ts1 b1 where 1: "fold_res (reorder_step p lc m) [0..<c] (ts, Some b) = Inr (ts1, Some b1)" "length ts1 = m" "length b1 = length b"
    "mset (zip ts1 (row_list m (p_n_vocab p) b1)) = mset (zip ts (row_list m (p_n_vocab p) b))"
    "\<forall>x < c. \<forall>y. x \<le> y \<and> y < m \<longrightarrow> ts1 ! x \<le> ts1 ! y" by auto
  have c: "c < m" "lc_logits_size lc \<le> length b1" using Suc.prems b(1) 1(3) by simp_all
  show ?case using reorder_step_ok[OF lc c(2) b(2) c(1) 1(2,5)] 1(1,3,4) by (auto simp: fold_res_append)
qed

lemma reorder_ok:
  assumes r: "outputs_ready p lc ts rows" and small: "length ts * p_n_vocab p < 2 ^ 32"
  shows "\<exists>lc' ts' rows'. llama_output_reorder p lc = Inr lc' \<and> outputs_ready p lc' ts' rows' \<and> sorted ts' \<and> lc_logits lc' = lc_logits lc
    \<and> mset (zip ts' (row_list (length ts) (p_n_vocab p) rows')) = mset (zip ts (row_list (length ts) (p_n_vocab p) rows)) \<and> length ts' = length ts"
proof (cases "sb_out_ids (lc_sbatch lc) = []")
  case True
  then have "sorted ts" using r by (auto simp: outputs_ready_def)
  then show ?thesis using True r by (simp add: llama_output_reorder_def Let_def) blast
next
  case False
  let ?m = "length ts" and ?w = "p_n_vocab p"
  have o: "sb_out_ids (lc_sbatch lc) = ts" "ts \<noteq> []" "lc_n_outputs lc = ?m" "distinct ts" using False r by (auto simp: outputs_ready_def)
  then obtain b where b: "lc_buf_output lc = Some b" "lc_logits_size lc \<le> length b" "take (?m * ?w) b = rows"
    and q: "lc_logits lc = Some 0" "lc_embd_size lc = 0" "?m * ?w \<le> lc_logits_size lc" "\<forall>t \<in> set ts. t < length (lc_output_ids lc)"
    using r unfolding outputs_ready_def by blast
  obtain ts' b' where l: "fold_res (reorder_step p lc ?m) [0..<?m - 1] (ts, Some b) = Inr (ts', Some b')" "length ts' = ?m" "length b' = length b"
      "mset (zip ts' (row_list ?m ?w b')) = mset (zip ts (row_list ?m ?w b))"
      "\<forall>x < ?m - 1. \<forall>y. x \<le> y \<and> y < ?m \<longrightarrow> ts' ! x \<le> ts' ! y"
    using reorder_loop_ok[OF q(1-3) b(2) small refl, of "?m - 1"] by auto
  have srt: "sorted ts'" unfolding sorted_iff_nth_mono_less
  proof (intro allI impI)
    fix x y assume "x < y" "y < length ts'"
    then show "ts' ! x \<le> ts' ! y" using l(2,5) by (auto simp: less_imp_le)
  qed
  have "mset (map fst (zip ts' (row_list ?m ?w b'))) = mset (map fst (zip ts (row_list ?m ?w b)))" using l(4) by (metis mset_map)
  then have mst: "mset ts' = mset ts" using l(2) by (simp add: row_list_def)
  then have st: "set ts' = set ts" "distinct ts'" using o(4) by (metis mset_eq_setD, metis mset_eq_imp_distinct_iff)
  let ?old = "replicate (length (lc_output_ids lc)) (-1 :: int)"
  obtain ids where ids: "set_output_ids ts' ?old = Inr ids" "length ids = length ?old" "\<forall>k < length ts'. ids ! (ts' ! k) = int k"
      "\<forall>t. t \<notin> set ts' \<longrightarrow> ids ! t = ?old ! t"
    using set_output_ids_ok[OF st(2), of ?old] st(1) q(4) by auto
  let ?lc = "lc\<lparr>lc_buf_output := Some b', lc_output_ids := ids, lc_sbatch := (lc_sbatch lc)\<lparr>sb_out_ids := []\<rparr>\<rparr>"
  have "llama_output_reorder p lc = Inr ?lc" using o l(1) ids(1) b(1) by (simp add: llama_output_reorder_def Let_def)
  moreover have "outputs_ready p ?lc ts' (take (?m * ?w) b')"
    unfolding outputs_ready_def using o l(2,3) st srt q b ids by auto
  moreover have "row_list ?m ?w (take (?m * ?w) x) = row_list ?m ?w x" for x by (simp add: row_list_def row_take)
  ultimately show ?thesis using srt l(2,4) b(3) by (intro exI[of _ ?lc] exI[of _ ts'] exI[of _ "take (?m * ?w) b'"]) auto
qed

section \<open>Properties\<close>

lemma batch_entry_wanted:
  assumes "decodable p rt batch" "\<forall>i < n. wants_output la batch i \<longleftrightarrow> wanted batch i" "\<forall>i \<in> set js. i < n"
  shows "map (batch_entry w la batch) js = map (batch_entry w False batch) js"
proof (rule map_cong[OF refl])
  fix i assume "i \<in> set js"
  then have "wants_output la batch i \<longleftrightarrow> wants_output False batch i"
    using assms by (auto simp: wants_output_def wanted_def decodable_def)
  then show "batch_entry w la batch i = batch_entry w False batch i" by (simp add: batch_entry_def)
qed

text \<open>C3: Decoding with a Transformer's cache. From a context whose cache satisfies its invariant, decoding a well-formed batch
  never aborts, runs out of bounds or loops: it returns one of the documented codes with the invariant of the cache
  kept. When it returns 0, the micro-batches held every token of the batch exactly once, and reading the logits
  of a token by its index in the batch gives the row the graph computed for that token (row \<open>k\<close> of all rows computed, for the
  \<open>k\<close>-th token whose output was wanted in the order of the micro-batches), and a null pointer for every other token.\<close>

theorem decode_returns_token_outputs:
  fixes lc :: "'d llama_context"
  assumes alloc: "llama_batch_allocr inp (if b_pos inp \<noteq> None then -1 else max_pos (lc_kv lc) + 1) = Inr batch"
    and d: "decodable p rt batch" and kv: "kv_good (lc_kv lc)" "kv_size (lc_kv lc) + 256 < 2 ^ 32" "kv_has_shift (lc_kv lc) \<longrightarrow> kv_can_shift (lc_kv lc)"
    and n: "nat (b_n_tokens batch) \<le> p_n_batch p"
    and ids: "lc_output_ids lc = [] \<or> length (lc_output_ids lc) = p_n_batch p" and small: "p_n_batch p * p_n_vocab p < 2 ^ 32"
  shows "\<exists>lc' ret. llama_decode_impl p rt lc inp = Inr (lc', ret) \<and> ret \<in> {0, 1, 2, -1, -2, -3} \<and> kv_good (lc_kv lc')
    \<and> (ret = 0 \<longrightarrow> (\<exists>ubs outs js. mset js = mset [0..<nat (b_n_tokens batch)]
         \<and> concat (map (ubatch_entries (p_n_embd p)) ubs) = map (batch_entry (p_n_embd p) False batch) js
         \<and> list_all2 (graph_rows p rt) ubs outs
         \<and> outputs_ready p lc' (filter (wanted batch) js) (concat outs)
         \<and> (\<forall>k < length (filter (wanted batch) js). reads_row p lc' (int (filter (wanted batch) js ! k)) (row_at (p_n_vocab p) (concat outs) k))
         \<and> (\<forall>i. \<not> (i < nat (b_n_tokens batch) \<and> wanted batch i) \<longrightarrow> llama_get_logits_ith True p lc' (int i) = Inr None)))"
proof -
  let ?n = "nat (b_n_tokens batch)" and ?lc0 = "lc\<lparr>lc_is_encoding := False\<rparr>" and ?rs = "slot_restorer (lc_kv lc)"
  have nz: "b_n_tokens inp \<noteq> 0" using alloc by (auto simp: llama_batch_allocr_def)
  have rs: "rs_head ?rs \<le> kv_size (lc_kv ?lc0)" using kv(1) by (simp add: slot_restorer_def kv_good_def kv_inv_def)
  obtain lc1 m ret where p1: "llama_prepare_sbatch p rt ?lc0 batch = Inr (lc1, m, ret)" "lc_kv lc1 = lc_kv lc" "ret \<in> {0, -1, -2}"
    and p2: "ret = 0 \<Longrightarrow> decode_inv p rt batch m (kv_size (lc_kv lc)) lc1 ?rs 0 [] [] []" "ret = 0 \<Longrightarrow> sb_n_tokens (lc_sbatch lc1) = ?n"
      "ret = 0 \<Longrightarrow> \<forall>i < ?n. wants_output (m = ?n) batch i \<longleftrightarrow> wanted batch i"
    using prepare_sbatch_ok[OF d, of ?lc0 ?rs] kv n ids rs by auto
  show ?thesis
  proof (cases "ret = 0")
    case False
    then show ?thesis using alloc nz p1 kv(1) by (auto simp: llama_decode_impl_def Let_def)
  next
    case ret: True
    obtain lc2 r where l: "decode_loop ?n p rt m ?n (lc1, ?rs, 0) = Inr (lc2, r)"
      "case r of Some r \<Rightarrow> r \<in> {1, 2, -2, -3} \<and> kv_good (lc_kv lc2) \<and> kv_size (lc_kv lc2) = kv_size (lc_kv lc)
         | None \<Rightarrow> sb_n_tokens (lc_sbatch lc2) = 0
             \<and> (\<exists>rs' prev' ubs' outs' js'. decode_inv p rt batch m (kv_size (lc_kv lc)) lc2 rs' prev' ubs' outs' js')"
      using decode_loop_ok[OF d kv(2) p2(1)[OF ret], of ?n] p2(2)[OF ret] by auto
    show ?thesis
    proof (cases r)
      case (Some e)
      then show ?thesis using alloc nz p1(1) ret l by (auto simp: llama_decode_impl_def Let_def)
    next
      case None
      then obtain rs' prev ubs outs js where inv: "decode_inv p rt batch m (kv_size (lc_kv lc)) lc2 rs' prev ubs outs js"
        and fin: "sb_n_tokens (lc_sbatch lc2) = 0" using l(2) by auto
      note sm = set_output_mappings_ok[OF d inv fin n p2(3)[OF ret]]
      obtain lc3 where lc3: "set_output_mappings m lc2 = Inr lc3" "lc_kv lc3 = lc_kv lc2" "outputs_ready p lc3 (filter (wanted batch) js) (concat outs)"
        using sm(2) by blast
      define lc4 where "lc4 = (if p_causal_attn p \<and> r_fragmented rt (lc_kv lc3) then lc3\<lparr>lc_kv := llama_kv_cache_defrag (lc_kv lc3)\<rparr> else lc3)"
      have res: "llama_decode_impl p rt lc inp = Inr (lc4, 0)"
        using alloc nz p1(1) ret l(1) None lc3(1) by (simp add: llama_decode_impl_def Let_def lc4_def)
      have g: "kv_good (lc_kv lc4)" using inv lc3(2) kv_good_ops(4) by (auto simp: lc4_def decode_inv_def Let_def)
      have ready: "outputs_ready p lc4 (filter (wanted batch) js) (concat outs)" using lc3(3) by (simp add: lc4_def outputs_ready_def)
      have lt: "set js = {0..<?n}" using sm(1) by (metis mset_eq_setD set_upt)
      have ent: "concat (map (ubatch_entries (p_n_embd p)) ubs) = map (batch_entry (p_n_embd p) False batch) js"
        using inv batch_entry_wanted[OF d p2(3)[OF ret], of js "p_n_embd p"] lt by (simp add: decode_inv_def Let_def)
      have "length js = ?n" using sm(1) by (metis diff_zero length_upt mset_eq_length)
      then have "length (filter (wanted batch) js) \<le> p_n_batch p" using n length_filter_le[of "wanted batch" js] by linarith
      then have sml: "length (filter (wanted batch) js) * p_n_vocab p < 2 ^ 32"
        using mult_le_mono1[of _ "p_n_batch p" "p_n_vocab p"] small by (meson le_less_trans)
      have "llama_get_logits_ith True p lc4 (int i) = Inr None" if "\<not> (i < ?n \<and> wanted batch i)" for i
        using outputs_ready_reads(2)[OF ready sml] that lt by auto
      moreover have "list_all2 (graph_rows p rt) ubs outs" using inv by (simp add: decode_inv_def Let_def)
      ultimately show ?thesis using res g ready sm(1) ent outputs_ready_reads(1)[OF ready sml] by auto
    qed
  qed
qed

text \<open>A graph whose row for an output holds the token and its position, as it finds them in its inputs.\<close>

definition ex_graph ::
  "llama_kv_cache \<Rightarrow> nat list \<Rightarrow> llama_inputs \<Rightarrow> llama_ubatch \<Rightarrow> nat \<Rightarrow> ggml_failure option \<times> nat list \<times> u32 list" where
  "ex_graph kv data inp ub k =
     (let ids = (case inp_out_ids inp of None \<Rightarrow> [0..<ub_n_tokens ub] | Some t \<Rightarrow> map (\<lambda>x. nat (the x)) (tn_data t));
          tok = tn_data (the (inp_tokens inp)); pos = tn_data (the (inp_pos inp)) in
      (None, data, take (k * 2) (concat (map (\<lambda>i. [of_int (the (tok ! i)), of_int (the (pos ! i))]) ids) @ replicate (k * 2) 0)))"

definition ex_runtime :: "nat runtime" where
  "ex_runtime = \<lparr>r_sort_ids = sort_by, r_sort_seqs = sort_by, r_alloc = (\<lambda>_. True), r_spec = ex_spec, r_bucket = (\<lambda>_ _ _. 0),
     r_graph = ex_graph, r_k_shift = (\<lambda>_ d. d), r_fragmented = (\<lambda>_. False)\<rparr>"

definition ex_input :: llama_batch where
  "ex_input = \<lparr>b_n_tokens = 3, b_token = Some [0, 1, 0], b_embd = None, b_pos = None, b_n_seq_id = None, b_seq_id = None, b_logits = Some [1, 0, 1]\<rparr>"

definition ex_full_input :: llama_batch where
  "ex_full_input = ex_input\<lparr>b_pos := Some [0, 1, 2], b_n_seq_id := Some [1, 1, 1], b_seq_id := Some [[0], [0], [0]]\<rparr>"

lemma ex_alloc: "llama_batch_allocr ex_input (max_pos (lc_kv ex_ctx) + 1) = Inr ex_full_input"
  by code_simp

lemma ex_decoded:
  "case llama_decode_impl ex_params ex_runtime ex_ctx ex_input of
     Inl _ \<Rightarrow> False
   | Inr (lc', ret) \<Rightarrow> ret = 0 \<and> lc_buf_output lc' = Some [0, 0, 0, 2] \<and> lc_output_ids lc' = [0, -1, 1, -1]
       \<and> lc_logits lc' = Some 0 \<and> lc_n_outputs lc' = 2"
  by code_simp

lemma ex_decodable: "decodable ex_params ex_runtime ex_full_input"
proof -
  have "batch_ok (p_n_embd ex_params) ex_full_input"
    by (simp add: batch_ok_def ex_full_input_def ex_input_def ex_params_def Let_def less_Suc_eq numeral_3_eq_3)
  moreover have "k * 2 \<le> length out" if "ex_graph kv data inp ub k = (None, data', out)" for kv data inp ub k data' out
    using that by (auto simp: ex_graph_def Let_def)
  moreover have "decoder_spec ex_params (r_spec ex_runtime False)" by (simp add: decoder_spec_def ex_params_def ex_runtime_def ex_spec_def)
  ultimately show ?thesis by (auto simp: decodable_def ex_full_input_def ex_input_def ex_params_def ex_runtime_def)
qed

theorem decode_returns_token_outputs_witness:
  "\<exists>lc'. llama_decode_impl ex_params ex_runtime ex_ctx ex_input = Inr (lc', 0) \<and> lc_buf_output lc' = Some [0, 0, 0, 2]
    \<and> llama_get_logits_ith True ex_params lc' 0 = Inr (Some 0) \<and> llama_get_logits_ith True ex_params lc' 2 = Inr (Some 2)
    \<and> llama_get_logits_ith True ex_params lc' 1 = Inr None"
proof -
  have kv: "kv_good (lc_kv ex_ctx)" "kv_size (lc_kv ex_ctx) + 256 < 2 ^ 32" "kv_has_shift (lc_kv ex_ctx) \<longrightarrow> kv_can_shift (lc_kv ex_ctx)"
    by (simp_all add: ex_ctx_def kv_good_def kv_inv_init) (simp_all add: llama_kv_cache_init_def)
  have n: "nat (b_n_tokens ex_full_input) \<le> p_n_batch ex_params"
      "lc_output_ids ex_ctx = [] \<or> length (lc_output_ids ex_ctx) = p_n_batch ex_params" "p_n_batch ex_params * p_n_vocab ex_params < 2 ^ 32"
    by (simp_all add: ex_full_input_def ex_input_def ex_params_def ex_ctx_def)
  have alloc: "llama_batch_allocr ex_input (if b_pos ex_input \<noteq> None then -1 else max_pos (lc_kv ex_ctx) + 1) = Inr ex_full_input"
    using ex_alloc by (simp add: ex_input_def)
  obtain lc' ret where r: "llama_decode_impl ex_params ex_runtime ex_ctx ex_input = Inr (lc', ret)"
    and q: "ret = 0 \<longrightarrow> (\<forall>i. \<not> (i < nat (b_n_tokens ex_full_input) \<and> wanted ex_full_input i) \<longrightarrow> llama_get_logits_ith True ex_params lc' (int i) = Inr None)"
    using decode_returns_token_outputs[OF alloc ex_decodable kv n] by blast
  have e: "ret = 0" "lc_buf_output lc' = Some [0, 0, 0, 2]" "lc_output_ids lc' = [0, -1, 1, -1]" "lc_logits lc' = Some 0" "lc_n_outputs lc' = 2"
    using ex_decoded r by simp_all
  have "llama_get_logits_ith True ex_params lc' (int 1) = Inr None"
    using q[rule_format, OF e(1), of 1] by (simp add: wanted_def ex_full_input_def ex_input_def)
  moreover have "llama_get_logits_ith True ex_params lc' 0 = Inr (Some 0)" "llama_get_logits_ith True ex_params lc' 2 = Inr (Some 2)"
    using e by (simp_all add: llama_get_logits_ith_def output_ptr_def output_row_def ex_params_def)
  ultimately show ?thesis using r e(1,2) by simp
qed

text \<open>C36: Reading all logits puts the rows in the order of the batch and loses none: \<open>llama_get_logits\<close> returns the buffer with
  the row of the \<open>k\<close>-th wanted token (by its index in the batch) as row \<open>k\<close>, reading a single token gives the same row as
  before, and a second call changes nothing.\<close>

theorem get_logits_sorts_rows:
  assumes r: "outputs_ready p lc ts rows" and small: "length ts * p_n_vocab p < 2 ^ 32"
  shows "\<exists>lc' rows'. llama_get_logits p lc = Inr (lc', lc_logits lc) \<and> outputs_ready p lc' (sort ts) rows'
    \<and> (\<forall>k < length ts. reads_row p lc (int (sort ts ! k)) (row_at (p_n_vocab p) rows' k) \<and> reads_row p lc' (int (sort ts ! k)) (row_at (p_n_vocab p) rows' k))
    \<and> llama_get_logits p lc' = Inr (lc', lc_logits lc)"
proof -
  let ?m = "length ts" and ?w = "p_n_vocab p"
  obtain lc' ts' rows' where o: "llama_output_reorder p lc = Inr lc'" "outputs_ready p lc' ts' rows'" "sorted ts'" "lc_logits lc' = lc_logits lc"
      "mset (zip ts' (row_list ?m ?w rows')) = mset (zip ts (row_list ?m ?w rows))" "length ts' = ?m"
    using reorder_ok[OF r small] by blast
  have "mset (map fst (zip ts' (row_list ?m ?w rows'))) = mset (map fst (zip ts (row_list ?m ?w rows)))" using o(5) by (metis mset_map)
  then have "mset ts' = mset ts" using o(6) by (simp add: row_list_def)
  then have ts': "ts' = sort ts" using o(3) by (metis properties_for_sort)
  have reads: "reads_row p lc (int (ts' ! k)) (row_at ?w rows' k)" if k: "k < ?m" for k
  proof -
    have "(ts' ! k, row_at ?w rows' k) \<in> set (zip ts' (row_list ?m ?w rows'))" using k o(6) by (auto simp: in_set_zip row_list_def)
    then have "(ts' ! k, row_at ?w rows' k) \<in> set (zip ts (row_list ?m ?w rows))" using mset_eq_setD[OF o(5)] by simp
    then obtain j where "j < ?m" "ts ! j = ts' ! k" "row_at ?w rows j = row_at ?w rows' k" by (auto simp: in_set_zip row_list_def)
    then show ?thesis using outputs_ready_reads(1)[OF r small] by metis
  qed
  have reads': "reads_row p lc' (int (ts' ! k)) (row_at ?w rows' k)" if "k < ?m" for k
    using outputs_ready_reads(1)[OF o(2)] small o(6) that by simp
  have "sb_out_ids (lc_sbatch lc') = []" using o(1) r
    by (auto simp: llama_output_reorder_def Let_def split: if_splits)
  then have "llama_get_logits p lc' = Inr (lc', lc_logits lc)" using o(4) by (simp add: llama_get_logits_def llama_output_reorder_def Let_def)
  then show ?thesis using o(1,2,4) reads reads' unfolding ts' by (auto simp: llama_get_logits_def)
qed

text \<open>Three outputs of a batch of four tokens, computed in the order 3, 0, 2.\<close>

definition ex_unsorted :: "nat llama_context" where
  "ex_unsorted = ex_ctx\<lparr>lc_sbatch := sb_empty\<lparr>sb_out_ids := [3, 0, 2]\<rparr>, lc_buf_output := Some [30, 31, 0, 1, 20, 21], lc_logits := Some 0,
     lc_output_size := 3, lc_logits_size := 6, lc_output_ids := [1, -1, 2, 0], lc_n_outputs := 3\<rparr>"

theorem get_logits_sorts_rows_witness:
  "outputs_ready ex_params ex_unsorted [3, 0, 2] [30, 31, 0, 1, 20, 21]
   \<and> (\<exists>lc' rows'. llama_get_logits ex_params ex_unsorted = Inr (lc', Some 0) \<and> outputs_ready ex_params lc' [0, 2, 3] rows'
        \<and> reads_row ex_params lc' 3 (row_at 2 rows' 2))"
proof -
  have r: "outputs_ready ex_params ex_unsorted [3, 0, 2] [30, 31, 0, 1, 20, 21]"
    by (simp add: outputs_ready_def ex_unsorted_def ex_ctx_def ex_params_def less_Suc_eq numeral_eq_Suc)
  have s: "sort [3, 0, 2 :: nat] = [0, 2, 3]" by simp
  have l: "lc_logits ex_unsorted = Some 0" "p_n_vocab ex_params = 2" by (simp_all add: ex_unsorted_def ex_params_def)
  obtain lc' rows' where q: "llama_get_logits ex_params ex_unsorted = Inr (lc', Some 0)" "outputs_ready ex_params lc' [0, 2, 3] rows'"
      "\<forall>k < length [3, 0, 2 :: nat]. reads_row ex_params lc' (int ([0, 2, 3] ! k)) (row_at 2 rows' k)"
    using get_logits_sorts_rows[OF r] unfolding s l by auto
  have "reads_row ex_params lc' (int ([0, 2, 3] ! 2)) (row_at 2 rows' 2)" using q(3) by (rule allE[where x = 2]) simp
  then show ?thesis using r q(1,2) by auto
qed

text \<open>The offset of a row is computed in 32 bits, so a row that starts at or after float \<open>2 ^ 32\<close> is not the one returned: with
  a vocabulary of 128256 tokens, output 33488 is valid, its row starts at float 4295036928, and the pointer returned is
  float 69632, in the middle of row 0.\<close>

theorem logits_offset_wraps:
  fixes lc :: "'d llama_context"
  assumes "p_n_vocab p = 128256" "lc_logits lc = Some 0" "lc_n_outputs lc = 33489" "length (lc_output_ids lc) = 33489"
    "lc_output_ids lc ! 33488 = 33488"
  shows "output_row (lc_logits lc) lc 33488 = Inr 33488 \<and> llama_get_logits_ith ndebug p lc 33488 = Inr (Some 69632)
    \<and> (69632 :: nat) \<noteq> 33488 * p_n_vocab p"
  using assms by (simp add: llama_get_logits_ith_def output_ptr_def output_row_def)

theorem logits_offset_wraps_witness:
  "llama_get_logits_ith True (ex_params\<lparr>p_n_vocab := 128256\<rparr>)
     (ex_ctx\<lparr>lc_logits := Some 0, lc_n_outputs := 33489, lc_output_ids := (replicate 33489 (-1))[33488 := 33488]\<rparr>) 33488 = Inr (Some 69632)"
  using logits_offset_wraps[of "ex_params\<lparr>p_n_vocab := 128256\<rparr>"
      "ex_ctx\<lparr>lc_logits := Some 0, lc_n_outputs := 33489, lc_output_ids := (replicate 33489 (-1))[33488 := 33488]\<rparr>" True]
  by simp

text \<open>C37: Encoding with an encoder-only model that pools its embeddings never succeeds: after a successful computation the
  assertion that the buffer of token embeddings exists fails, since that buffer is only reserved without pooling. The code
  that extracts an embedding per sequence cannot be reached.\<close>

theorem encode_pooled_never_succeeds:
  assumes "\<not> p_has_decoder p" "p_embeddings p" "p_pooling_type p \<noteq> POOLING_NONE"
  shows "llama_encode_impl p rt lc inp \<noteq> Inr (lc', 0)"
proof
  assume r: "llama_encode_impl p rt lc inp = Inr (lc', 0)"
  have pos: "0 < nat (b_n_tokens batch)" if "llama_batch_allocr inp q = Inr batch" for q batch
    using that by (auto simp: llama_batch_allocr_def Let_def)
  have emb: "lc_embd (fst (llama_output_reserve p al lc1 k)) = None" if "\<not> snd (llama_output_reserve p al lc1 k) < k" "0 < k" for al lc1 k
    using that assms by (auto simp: llama_output_reserve_def Let_def split: if_splits option.splits)
  have st: "status_code e \<noteq> 0" for e by (cases e) simp_all
  have comp: "encode_compute p rt k ub lc1 \<noteq> Inr (lc', 0)" if "lc_embd lc1 = None" for k ub lc1
    using that assms st by (auto simp: encode_compute_def encode_extract_def Let_def split: prod.splits option.splits dest!: set_inputs_keeps)
  have "encode_compute p rt (nat (b_n_tokens batch)) ub (fst (llama_output_reserve p al lc1 (nat (b_n_tokens batch)))) \<noteq> Inr (lc', 0)"
    if "llama_batch_allocr inp q = Inr batch" "\<not> snd (llama_output_reserve p al lc1 (nat (b_n_tokens batch))) < nat (b_n_tokens batch)"
    for q batch ub al lc1
    by (rule comp[OF emb[OF that(2) pos[OF that(1)]]])
  note never = this
  show False using r by (auto simp: llama_encode_impl_def Let_def split_def split: if_splits) (use never in blast)+
qed

definition ex_pooled :: llama_params where
  "ex_pooled = ex_params\<lparr>p_n_ubatch := 4, p_embeddings := True, p_pooling_type := POOLING_MEAN, p_has_decoder := False\<rparr>"

lemma ex_encoded:
  "case llama_encode_impl (ex_pooled\<lparr>p_pooling_type := POOLING_NONE\<rparr>) ex_runtime ex_ctx ex_input of Inl _ \<Rightarrow> False | Inr (_, ret) \<Rightarrow> ret = 0"
  "case llama_encode_impl ex_pooled ex_runtime ex_ctx ex_input of Inl e \<Rightarrow> e = GgmlAbort | Inr _ \<Rightarrow> False"
  by code_simp+

theorem encode_pooled_never_succeeds_witness:
  "(\<nexists>lc'. llama_encode_impl ex_pooled ex_runtime ex_ctx ex_input = Inr (lc', 0))
   \<and> llama_encode_impl ex_pooled ex_runtime ex_ctx ex_input = Inl GgmlAbort"
proof -
  have "\<nexists>lc'. llama_encode_impl ex_pooled ex_runtime ex_ctx ex_input = Inr (lc', 0)"
    using encode_pooled_never_succeeds[of ex_pooled ex_runtime ex_ctx ex_input] by (simp add: ex_pooled_def)
  then show ?thesis using ex_encoded(2) by (simp split: sum.splits)
qed

end
