(* ===== verification/Inputs_Props.thy ===== *)
theory Inputs_Props
  imports Inputs_Fill
begin

text \<open>
  Inputs of the other kinds of models: recurrent states, relative positions, bidirectional attention and pooling.
\<close>

section \<open>Recurrent states\<close>

lemma own_src_idem: "own_src lo hi (\<lambda>_. True) (own_src lo hi (\<lambda>_. True) cells) = own_src lo hi (\<lambda>_. True) cells"
  by (rule nth_equalityI) (simp_all add: own_src_nth)

lemma entries_own_src: "entries (kv\<lparr>kv_cells := own_src lo hi P (kv_cells kv)\<rparr>) = entries kv"
  by (rule triple_eqI) (auto simp: own_src_nth split: if_splits)

text \<open>C14: The states of a recurrent model. After a successful search for a slot the inputs are set without a failed assertion or an access out
  of bounds: a state of the window is kept by the mask exactly when it has a source, and it is copied from that source
  if it is a cell of the cache and from itself otherwise. The entries of the cache do not change, and setting the inputs again
  clears nothing and copies every state of the window to itself: clearing and copying happen once.\<close>

theorem recurrent_states_once:
  assumes slot: "rec_ubatch_ok ub" "length (kv_cells c) = kv_size c" "kv_size c < 2 ^ 32" "tails_ok (kv_cells c)" "kv_recurrent c"
      "llama_kv_cache_find_slot c ub = Inr (kv, info)" "found info"
    and ub: "ubatch_shape (p_n_embd p) ub" "ub_n_tokens ub + 64 < 2 ^ 32"
    and lc: "decoder_spec p g" "g_s_mask g" "g_s_copy g" "lc_kv lc = kv" "\<not> lc_is_encoding lc"
      "lc_n_outputs lc = length (filter (\<lambda>i. ub_output ub ! i \<noteq> 0) [0..<ub_n_tokens ub])"
  defines "cell \<equiv> \<lambda>i. kv_cells kv ! (kv_head kv + i)"
  shows "\<exists>inp lc' lc''. llama_build_inputs g p lc ub = Inr inp
    \<and> llama_set_inputs large p ub (lc\<lparr>lc_inputs := inp\<rparr>) = Inr lc' \<and> entries (lc_kv lc') = entries kv
    \<and> map_option tn_data (inp_s_mask (lc_inputs lc')) = Some (map (\<lambda>i. Some (0 \<le> c_src (cell i))) [0..<kv_n kv])
    \<and> map_option tn_data (inp_s_copy (lc_inputs lc')) = Some (map (\<lambda>i. Some (state_source (kv_size kv) (kv_head kv + i) (cell i))) [0..<kv_n kv])
    \<and> llama_set_inputs large p ub (lc'\<lparr>lc_inputs := inp\<rparr>) = Inr lc'' \<and> lc_kv lc'' = lc_kv lc'
    \<and> map_option tn_data (inp_s_mask (lc_inputs lc'')) = Some (replicate (kv_n kv) (Some True))
    \<and> map_option tn_data (inp_s_copy (lc_inputs lc'')) = Some (map (\<lambda>i. Some (int (kv_head kv + i))) [0..<kv_n kv])"
proof -
  let ?h = "kv_head kv" and ?n = "kv_n kv"
  have w: "?h + ?n \<le> length (kv_cells kv)" "kv_recurrent kv"
    using find_slot_recurrent_owns[OF slot(1-4) _ slot(7), of kv] slot(5,6) by (auto simp: llama_kv_cache_find_slot_def)
  let ?kv' = "states_used g kv"
  define lc' where "lc' = lc\<lparr>lc_kv := ?kv', lc_inputs := state_inputs g kv (decoder_inputs p g kv ub)\<rparr>"
  define lc'' where "lc'' = lc'\<lparr>lc_kv := states_used g ?kv', lc_inputs := state_inputs g ?kv' (decoder_inputs p g ?kv' ub)\<rparr>"
  have f: "kv_head ?kv' = ?h" "kv_n ?kv' = ?n" "length (kv_cells ?kv') = length (kv_cells kv)" "kv_recurrent ?kv'" "kv_size ?kv' = kv_size kv"
    using w(2) by (simp_all add: states_used_def)
  have 1: "llama_set_inputs large p ub (lc\<lparr>lc_inputs := fresh_inputs p g kv (lc_n_outputs lc) ub\<rparr>) = Inr lc'"
    using set_inputs_any[OF lc(1) ub(1) _ ub(2) _ lc(5,6), of large] w lc(4) by (simp add: lc'_def)
  have "fresh_inputs p g ?kv' (lc_n_outputs lc) ub = fresh_inputs p g kv (lc_n_outputs lc) ub" using f by (simp add: fresh_inputs_def)
  then have 2: "llama_set_inputs large p ub (lc'\<lparr>lc_inputs := fresh_inputs p g kv (lc_n_outputs lc) ub\<rparr>) = Inr lc''"
    using set_inputs_any[OF lc(1) ub(1), of lc' large] ub(2) lc(5,6) w f by (simp add: lc''_def) (simp add: lc'_def)
  have cells: "kv_cells ?kv' = own_src ?h (?h + ?n) (\<lambda>_. True) (kv_cells kv)" using lc(3) by (simp add: states_used_def)
  have src: "c_src (kv_cells ?kv' ! (?h + i)) = int (?h + i)" if "i < ?n" for i
    using that w(1) unfolding cells by (simp add: own_src_nth)
  have kv'': "states_used g ?kv' = ?kv'" using lc(3) by (simp add: states_used_def own_src_idem)
  have own: "state_source (kv_size kv) (?h + i) (kv_cells ?kv' ! (?h + i)) = int (?h + i)" if "i < ?n" for i
    using src[OF that] by (simp add: state_source_def)
  have e: "entries ?kv' = entries kv" unfolding states_used_def by (rule entries_own_src)
  have m: "map (\<lambda>i. Some (0 \<le> c_src (kv_cells ?kv' ! (?h + i)))) [0..<?n] = replicate ?n (Some True)"
    using src by (intro nth_equalityI) simp_all
  have k: "map (\<lambda>i. Some (state_source (kv_size kv) (?h + i) (kv_cells ?kv' ! (?h + i)))) [0..<?n] = map (\<lambda>i. Some (int (?h + i))) [0..<?n]"
    using own by simp
  show ?thesis unfolding build_decoder[OF lc(1)] lc(4)
    by (intro exI[of _ "fresh_inputs p g kv (lc_n_outputs lc) ub"] exI[of _ lc'] exI[of _ lc''] conjI)
      (use 1 2 e m k in \<open>simp_all add: lc'_def lc''_def kv'' state_inputs_def f lc(2,3) cell_def\<close>)
qed

definition ex_rec_spec :: graph_spec where
  "ex_rec_spec = (ex_spec False)\<lparr>g_KQ_mask := None, g_s_copy := True, g_s_mask := True\<rparr>"

theorem recurrent_states_once_witness:
  "\<exists>kv info inp lc' lc''. llama_kv_cache_find_slot (llama_kv_cache_init ex_cache True False False 3) ex_rec_ub = Inr (kv, info)
     \<and> llama_build_inputs ex_rec_spec ex_params (ex_ctx\<lparr>lc_kv := kv, lc_n_outputs := 2\<rparr>) ex_rec_ub = Inr inp
     \<and> llama_set_inputs (\<lambda>_ _ _. 0) ex_params ex_rec_ub (ex_ctx\<lparr>lc_kv := kv, lc_n_outputs := 2, lc_inputs := inp\<rparr>) = Inr lc'
     \<and> llama_set_inputs (\<lambda>_ _ _. 0) ex_params ex_rec_ub (lc'\<lparr>lc_inputs := inp\<rparr>) = Inr lc''
     \<and> map_option tn_data (inp_s_mask (lc_inputs lc'')) = Some (replicate (kv_n kv) (Some True))"
proof -
  let ?c = "llama_kv_cache_init ex_cache True False False 3"
  let ?r = "llama_kv_cache_find_slot ?c ex_rec_ub"
  have ok: "rec_ubatch_ok ex_rec_ub"
    by (auto simp: rec_ubatch_ok_def ex_rec_ub_def seq_ids_def less_Suc_eq numeral_2_eq_2)
  have sz: "length (kv_cells ?c) = kv_size ?c" "kv_size ?c < 2 ^ 32" "tails_ok (kv_cells ?c)" "kv_recurrent ?c"
    by (simp_all add: llama_kv_cache_init_def tails_ok_def new_cell_def)
  have "case ?r of Inl _ \<Rightarrow> False | Inr (_, info) \<Rightarrow> found info" by code_simp
  then obtain kv info where r: "?r = Inr (kv, info)" "found info" by (auto split: sum.splits)
  have ub: "ubatch_shape (p_n_embd ex_params) ex_rec_ub" "ub_n_tokens ex_rec_ub + 64 < 2 ^ 32"
    by (simp add: ubatch_shape_def ex_rec_ub_def less_Suc_eq numeral_2_eq_2) (simp add: ex_rec_ub_def)
  have spec: "decoder_spec ex_params ex_rec_spec" "g_s_mask ex_rec_spec" "g_s_copy ex_rec_spec"
    by (simp_all add: decoder_spec_def ex_params_def ex_spec_def ex_rec_spec_def)
  let ?lc = "ex_ctx\<lparr>lc_kv := kv, lc_n_outputs := 2\<rparr>"
  have lc: "lc_kv ?lc = kv" "\<not> lc_is_encoding ?lc"
    "lc_n_outputs ?lc = length (filter (\<lambda>i. ub_output ex_rec_ub ! i \<noteq> 0) [0..<ub_n_tokens ex_rec_ub])"
    by (simp_all add: ex_ctx_def ex_rec_ub_def numeral_2_eq_2)
  show ?thesis using recurrent_states_once[OF ok sz r ub spec lc, of "\<lambda>_ _ _. 0"] r(1) by blast
qed

section \<open>Relative positions\<close>

text \<open>The buckets of relative positions. Whatever the distance, the bucket is an index of the table of biases: at least 0 and below the
  number of buckets, where the logarithm of a ratio of at least one is not negative and the table has a bucket for
  each direction; and within a direction the small distances have buckets of their own.\<close>

theorem position_bucket_in_table:
  assumes "\<And>r n m. int m \<le> r \<Longrightarrow> 0 \<le> large r n m" "2 \<le> n_bkts"
  shows "0 \<le> llama_relative_position_bucket large x y n_bkts bi \<and> llama_relative_position_bucket large x y n_bkts bi < int n_bkts
    \<and> (\<bar>x - y\<bar> < int ((if bi then n_bkts div 2 else n_bkts) div 2) \<and> (bi \<or> x \<le> y) \<longrightarrow>
         llama_relative_position_bucket large x y n_bkts bi = \<bar>x - y\<bar> + (if bi \<and> x > y then int (n_bkts div 2) else 0))"
proof -
  define n where "n = (if bi then n_bkts div 2 else n_bkts)"
  define r where "r = (if bi then \<bar>x - y\<bar> else - min (x - y) 0)"
  define e where "e = (if r < int (n div 2) then r else min (large r n (n div 2)) (int n - 1))"
  have n: "1 \<le> n" "bi \<Longrightarrow> 2 * n \<le> n_bkts" "\<not> bi \<Longrightarrow> n = n_bkts" using assms(2) by (auto simp: n_def)
  have r: "0 \<le> r" by (auto simp: r_def)
  have e: "0 \<le> e" "e < int n" using r n(1) assms(1)[of "n div 2" r n] by (auto simp: e_def)
  have b: "llama_relative_position_bucket large x y n_bkts bi = (if bi \<and> x - y > 0 then int n else 0) + e"
    by (simp add: llama_relative_position_bucket_def Let_def n_def r_def e_def)
  have "int n + int n \<le> int n_bkts" if bi using n(2)[OF that] by simp
  moreover have "int n \<le> int n_bkts" using n(2,3) by (cases bi) simp_all
  ultimately have range: "0 \<le> (if bi \<and> x - y > 0 then int n else 0) + e" "(if bi \<and> x - y > 0 then int n else 0) + e < int n_bkts"
    using e n(3) by auto
  have "e = \<bar>x - y\<bar>" if "\<bar>x - y\<bar> < int (n div 2)" "bi \<or> x \<le> y"
  proof -
    have "r = \<bar>x - y\<bar>" using that(2) by (auto simp: r_def)
    then show ?thesis using that(1) by (simp add: e_def)
  qed
  then show ?thesis unfolding b n_def[symmetric] using range by (simp add: n_def)
qed

theorem position_bucket_in_table_witness:
  "llama_relative_position_bucket (\<lambda>r n m. r) 7 2 32 True = 21 \<and> llama_relative_position_bucket (\<lambda>r n m. r) 2 90 32 False < 32"
  using position_bucket_in_table[of "\<lambda>r n m. r" 32 7 2 True] position_bucket_in_table[of "\<lambda>r n m. r" 32 2 90 False] by simp

section \<open>Bidirectional attention\<close>

lemma has_seq_ok:
  assumes "ubatch_shape w ub" "s0 < ub_n_seqs ub"
  shows "has_seq ub s0 q = Inr (q \<in> set (take (nat (ub_n_seq_id ub ! s0)) (ub_seq_id ub ! s0)))"
proof -
  let ?ids = "ub_seq_id ub ! s0" and ?k = "nat (ub_n_seq_id ub ! s0)"
  let ?f = "\<lambda>s b. if b then Inr b else bind_res (index_res (ub_seq_id ub) s0) (\<lambda>ids. bind_res (index_res ids s) (\<lambda>x. Inr (x = q)))"
  have k: "?k \<le> length ?ids" "s0 < length (ub_seq_id ub)" "s0 < length (ub_n_seq_id ub)" using assms by (auto simp: ubatch_shape_def)
  have "\<exists>b. fold_res ?f [0..<?k] False = Inr b \<and> b = (q \<in> set (take ?k ?ids))"
  proof (rule fold_res_upt[where I = "\<lambda>i b. b = (q \<in> set (take i ?ids))"])
    fix i b assume i: "i < ?k" and b: "b = (q \<in> set (take i ?ids))"
    then have "take (Suc i) ?ids = take i ?ids @ [?ids ! i]" using k(1) by (simp add: take_Suc_conv_app_nth)
    then show "\<exists>b'. ?f i b = Inr b' \<and> b' = (q \<in> set (take (Suc i) ?ids))"
      using i b k by (auto simp: index_res_def)
  qed simp_all
  then show ?thesis using k(3) by (simp add: has_seq_def index_res_def)
qed

text \<open>Entry \<open>(tj, ti)\<close> of the mask of bidirectional attention, in rows of \<open>m\<close> entries.\<close>

definition full_at :: "llama_params \<Rightarrow> llama_ubatch \<Rightarrow> nat \<Rightarrow> nat \<Rightarrow> kq" where
  "full_at p ub m k =
     (let tj = k div m; ti = k mod m in
      if ti < ub_n_tokens ub \<and> token_seq ub tj \<in> token_seqs ub ti
      then Bias (if p_use_alibi p then - \<bar>ub_pos ub ! ti - ub_pos ub ! tj\<bar> else 0) else NegInf)"

lemma full_entry_ok:
  assumes sh: "ubatch_shape w ub" and s0: "s0 < ub_n_seqs ub" and i: "i < ub_n_seq_tokens ub" and tj: "tj < ub_n_tokens ub"
    and m: "ub_n_tokens ub \<le> m"
  defines "ti \<equiv> s0 * ub_n_seq_tokens ub + i"
  shows "full_entry p ub (token_seq ub tj) tj s0 ti = Inr (full_at p ub m (tj * m + ti))"
proof -
  have ti: "ti < ub_n_tokens ub" using entry_lt[OF s0 i] sh by (simp add: ti_def ubatch_shape_def)
  have k: "(tj * m + ti) div m = tj" "(tj * m + ti) mod m = ti" using ti m by simp_all
  have "token_seqs ub ti = set (take (nat (ub_n_seq_id ub ! s0)) (ub_seq_id ub ! s0))" using i by (simp add: token_seqs_def ti_def)
  moreover have "ub_n_tokens ub \<le> length (ub_pos ub)" using sh by (simp add: ubatch_shape_def)
  ultimately show ?thesis unfolding full_at_def Let_def k using ti tj by (simp add: full_entry_def has_seq_ok[OF sh s0] index_res_def)
qed

lemma full_row_ok:
  assumes sh: "ubatch_shape w ub" and tj: "tj < ub_n_tokens ub" and m: "ub_n_tokens ub \<le> m" "ub_n_tokens ub * m \<le> N"
    and d: "filled (full_at p ub m) N (tj * m) d"
  shows "\<exists>d'. full_row p ub m (token_seq ub tj) tj d = Inr d' \<and> filled (full_at p ub m) N (Suc tj * m) d'"
proof -
  let ?L = "ub_n_seq_tokens ub" and ?F = "full_at p ub m"
  have n: "ub_n_tokens ub = ub_n_seqs ub * ?L" using sh by (simp add: ubatch_shape_def)
  have lt: "tj * m + i < N" if "i < m" for i using entry_lt[OF tj that] m(2) by simp
  have "\<exists>d'. fold_res (\<lambda>s0 d. fold_res (\<lambda>i d. let ti = s0 * ?L + i in
      bind_res (full_entry p ub (token_seq ub tj) tj s0 ti) (\<lambda>f. put (tj * m + ti) f d)) [0..<?L] d) [0..<ub_n_seqs ub] d = Inr d'
      \<and> filled ?F N (tj * m + ub_n_seqs ub * ?L) d'"
  proof (rule fold_res_upt[where I = "\<lambda>s0. filled ?F N (tj * m + s0 * ?L)"])
    fix s0 d1 assume s0: "s0 < ub_n_seqs ub" and d1: "filled ?F N (tj * m + s0 * ?L) d1"
    have "\<exists>d'. fold_res (\<lambda>i d. let ti = s0 * ?L + i in bind_res (full_entry p ub (token_seq ub tj) tj s0 ti) (\<lambda>f. put (tj * m + ti) f d)) [0..<?L] d1
        = Inr d' \<and> filled ?F N (tj * m + (s0 * ?L + ?L)) d'"
    proof (rule fold_res_upt[where I = "\<lambda>i. filled ?F N (tj * m + (s0 * ?L + i))"])
      fix i d2 assume i: "i < ?L" and d2: "filled ?F N (tj * m + (s0 * ?L + i)) d2"
      have "tj * m + (s0 * ?L + i) < N" using lt[of "s0 * ?L + i"] entry_lt[OF s0 i] n m(1) by simp
      from put_filled[OF d2 this refl] full_entry_ok[OF sh s0 i tj m(1), of p]
      show "\<exists>d'. (let ti = s0 * ?L + i in bind_res (full_entry p ub (token_seq ub tj) tj s0 ti) (\<lambda>f. put (tj * m + ti) f d2)) = Inr d'
          \<and> filled ?F N (tj * m + (s0 * ?L + Suc i)) d'" by (simp add: Let_def)
    qed (use d1 in simp_all)
    then show "\<exists>d'. fold_res (\<lambda>i d. let ti = s0 * ?L + i in bind_res (full_entry p ub (token_seq ub tj) tj s0 ti) (\<lambda>f. put (tj * m + ti) f d)) [0..<?L] d1
        = Inr d' \<and> filled ?F N (tj * m + Suc s0 * ?L) d'" by (simp add: add.commute[of ?L])
  qed (use d in simp_all)
  then obtain d1 where d1: "fold_res (\<lambda>s0 d. fold_res (\<lambda>i d. let ti = s0 * ?L + i in
      bind_res (full_entry p ub (token_seq ub tj) tj s0 ti) (\<lambda>f. put (tj * m + ti) f d)) [0..<?L] d) [0..<ub_n_seqs ub] d = Inr d1"
      "filled ?F N (tj * m + ub_n_tokens ub) d1" using n by auto
  have "\<exists>d'. fold_res (\<lambda>i d. put (tj * m + i) NegInf d) [ub_n_tokens ub..<m] d1 = Inr d' \<and> filled ?F N (tj * m + m) d'"
  proof (rule fold_res_upt[where I = "\<lambda>i. filled ?F N (tj * m + i)"])
    fix i d2 assume i: "ub_n_tokens ub \<le> i" "i < m" and d2: "filled ?F N (tj * m + i) d2"
    have "NegInf = ?F (tj * m + i)" using i by (simp add: full_at_def)
    then show "\<exists>d'. put (tj * m + i) NegInf d2 = Inr d' \<and> filled ?F N (tj * m + Suc i) d'" using put_filled[OF d2 lt[OF i(2)]] by simp
  qed (use d1(2) m(1) in simp_all)
  then show ?thesis using d1(1) by (simp add: full_row_def add.commute[of m])
qed

lemma set_full_mask_ok:
  assumes sh: "ubatch_shape w ub" and t: "inp_KQ_mask inp = Some t" "tn_host t"
    and m: "m = (if p_model_causal p \<and> \<not> enc then kv_n kv else ub_n_tokens ub)" "ub_n_tokens ub \<le> m" "ub_n_tokens ub * m \<le> length (tn_data t)"
  shows "\<exists>d. set_full_mask p kv enc ub inp = Inr (inp\<lparr>inp_KQ_mask := Some (t\<lparr>tn_data := d\<rparr>)\<rparr>)
    \<and> filled (full_at p ub m) (length (tn_data t)) (ub_n_tokens ub * m) d"
proof -
  let ?L = "ub_n_seq_tokens ub" and ?I = "\<lambda>tj. filled (full_at p ub m) (length (tn_data t)) (tj * m)"
  have n: "ub_n_tokens ub = ub_n_seqs ub * ?L" using sh by (simp add: ubatch_shape_def)
  have "\<exists>d. fold_res (\<lambda>s1 d. bind_res (first_seq ub s1) (\<lambda>seq_id.
      fold_res (\<lambda>j d. full_row p ub m seq_id (s1 * ?L + j) d) [0..<?L] d)) [0..<ub_n_seqs ub] (tn_data t) = Inr d \<and> ?I (ub_n_seqs ub * ?L) d"
  proof (rule fold_res_upt[where I = "\<lambda>s1. ?I (s1 * ?L)"])
    fix s1 d assume s1: "s1 < ub_n_seqs ub" and d: "?I (s1 * ?L) d"
    have "\<exists>d'. fold_res (\<lambda>j d. full_row p ub m (hd (ub_seq_id ub ! s1)) (s1 * ?L + j) d) [0..<?L] d = Inr d' \<and> ?I (s1 * ?L + ?L) d'"
    proof (rule fold_res_upt[where I = "\<lambda>j. ?I (s1 * ?L + j)"])
      fix j d1 assume j: "j < ?L" and d1: "?I (s1 * ?L + j) d1"
      have "token_seq ub (s1 * ?L + j) = hd (ub_seq_id ub ! s1)" using j by (simp add: token_seq_def)
      then show "\<exists>d'. full_row p ub m (hd (ub_seq_id ub ! s1)) (s1 * ?L + j) d1 = Inr d' \<and> ?I (s1 * ?L + Suc j) d'"
        using full_row_ok[OF sh _ m(2,3) d1] entry_lt[OF s1 j] n by simp
    qed (use d in simp_all)
    then show "\<exists>d'. bind_res (first_seq ub s1) (\<lambda>seq_id. fold_res (\<lambda>j d. full_row p ub m seq_id (s1 * ?L + j) d) [0..<?L] d) = Inr d' \<and> ?I (Suc s1 * ?L) d'"
      by (simp add: ubatch_reads(1)[OF sh s1] add.commute[of ?L])
  qed (simp_all add: filled_def)
  then show ?thesis using t n by (auto simp: set_full_mask_def Let_def m(1)[symmetric] deref_def host_data_def)
qed

text \<open>C34: The mask of bidirectional attention. When a context that does not use causal attention (or encodes) sets the mask, every token
  has a written entry for every place of a row, and token \<open>tj\<close> sees token \<open>ti\<close> of the micro-batch exactly when the
  (first) sequence of \<open>tj\<close> is one of the sequences of \<open>ti\<close>, whatever their order; it sees no place after the last token. The
  mask of a sliding window is left as it was.\<close>

theorem full_mask_exact:
  assumes sh: "ubatch_shape w ub" and c: "\<not> (p_causal_attn p \<and> \<not> enc)" and t: "inp_KQ_mask inp = Some t" "tn_host t"
    and m: "m = (if p_model_causal p \<and> \<not> enc then kv_n kv else ub_n_tokens ub)" "ub_n_tokens ub \<le> m" "ub_n_tokens ub * m \<le> length (tn_data t)"
  shows "\<exists>inp' d. set_KQ_masks p kv enc ub inp = Inr inp' \<and> map_option tn_data (inp_KQ_mask inp') = Some d \<and> length d = length (tn_data t)
    \<and> (\<forall>tj < ub_n_tokens ub. \<forall>ti < m. d ! (tj * m + ti) = Some
         (if ti < ub_n_tokens ub \<and> token_seq ub tj \<in> token_seqs ub ti
          then Bias (if p_use_alibi p then - \<bar>ub_pos ub ! ti - ub_pos ub ! tj\<bar> else 0) else NegInf))
    \<and> inp_KQ_mask_swa inp' = inp_KQ_mask_swa inp"
proof -
  obtain d where d: "set_full_mask p kv enc ub inp = Inr (inp\<lparr>inp_KQ_mask := Some (t\<lparr>tn_data := d\<rparr>)\<rparr>)"
    "filled (full_at p ub m) (length (tn_data t)) (ub_n_tokens ub * m) d" using set_full_mask_ok[OF sh t m] by blast
  have "d ! (tj * m + ti) = Some
      (if ti < ub_n_tokens ub \<and> token_seq ub tj \<in> token_seqs ub ti
       then Bias (if p_use_alibi p then - \<bar>ub_pos ub ! ti - ub_pos ub ! tj\<bar> else 0) else NegInf)" if a: "tj < ub_n_tokens ub" "ti < m" for tj ti
  proof -
    have k: "(tj * m + ti) div m = tj" "(tj * m + ti) mod m = ti" using a(2) by simp_all
    have "d ! (tj * m + ti) = Some (full_at p ub m (tj * m + ti))" using d(2) entry_lt[OF a] by (simp add: filled_def)
    then show ?thesis unfolding full_at_def Let_def k .
  qed
  moreover have "set_KQ_masks p kv enc ub inp = set_full_mask p kv enc ub inp" using c t by (auto simp: set_KQ_masks_def)
  ultimately show ?thesis using d by (auto simp: filled_def)
qed

section \<open>Pooling\<close>

lemma pooled_seq_ok:
  assumes "ubatch_shape w ub" "s < ub_n_seqs ub" "hd (ub_seq_id ub ! s) < int (ub_n_tokens ub)"
  shows "pooled_seq ub s = Inr (hd (ub_seq_id ub ! s))"
  using assms by (simp add: pooled_seq_def ubatch_reads(1))

text \<open>The sequences that are pooled are numbered from 0 below the number of tokens.\<close>

definition poolable :: "llama_ubatch \<Rightarrow> bool" where
  "poolable ub \<longleftrightarrow> (\<forall>s < ub_n_seqs ub. 0 \<le> hd (ub_seq_id ub ! s) \<and> hd (ub_seq_id ub ! s) < int (ub_n_tokens ub))"

definition seq_tokens :: "llama_ubatch \<Rightarrow> nat \<Rightarrow> nat \<Rightarrow> nat list" where
  "seq_tokens ub m q = filter (\<lambda>t. token_seq ub t = int q) [0..<m]"

lemma seq_tokens_block:
  "seq_tokens ub (ub_n_seq_tokens ub + s * ub_n_seq_tokens ub) q = seq_tokens ub (s * ub_n_seq_tokens ub) q
     @ (if hd (ub_seq_id ub ! s) = int q then map (\<lambda>j. s * ub_n_seq_tokens ub + j) [0..<ub_n_seq_tokens ub] else [])"
proof -
  let ?L = "ub_n_seq_tokens ub"
  have "[0..<?L + s * ?L] = [0..<s * ?L] @ map (\<lambda>j. s * ?L + j) [0..<?L]"
    using upt_add_eq_append[of 0 "s * ?L" ?L] by (simp add: add.commute map_add_upt[of "s * ?L" ?L, simplified add.commute])
  moreover have "token_seq ub (s * ?L + j) = hd (ub_seq_id ub ! s)" if "j < ?L" for j using that by (simp add: token_seq_def)
  ultimately show ?thesis unfolding seq_tokens_def by (auto simp: filter_map comp_def filter_id_conv intro!: filter_False)
qed

lemma mean_sums_ok:
  assumes sh: "ubatch_shape w ub" and p: "poolable ub"
  shows "mean_sums ub = Inr (map (\<lambda>q. length (seq_tokens ub (ub_n_tokens ub) q)) [0..<ub_n_tokens ub])"
proof -
  let ?L = "ub_n_seq_tokens ub" and ?n = "ub_n_tokens ub"
  let ?S = "\<lambda>m. map (\<lambda>q. length (seq_tokens ub m q)) [0..<?n]"
  have n: "?n = ub_n_seqs ub * ?L" using sh by (simp add: ubatch_shape_def)
  have "\<exists>r. mean_sums ub = Inr r \<and> r = ?S (ub_n_seqs ub * ?L)" unfolding mean_sums_def
  proof (rule fold_res_upt[where I = "\<lambda>s r. r = ?S (s * ?L)"])
    show "replicate ?n 0 = ?S (0 * ?L)" by (auto simp: seq_tokens_def intro: nth_equalityI)
  next
    fix s r assume s: "s < ub_n_seqs ub" and r: "r = ?S (s * ?L)"
    have q: "0 \<le> hd (ub_seq_id ub ! s)" "hd (ub_seq_id ub ! s) < int ?n" using p s by (auto simp: poolable_def)
    let ?q = "nat (hd (ub_seq_id ub ! s))"
    have "?S (Suc s * ?L) = r[?q := r ! ?q + ?L]" unfolding r
      using q by (intro nth_equalityI) (auto simp: seq_tokens_block nth_list_update)
    then show "\<exists>r'. bind_res (pooled_seq ub s) (\<lambda>seq_id. bind_res (index_id r seq_id) (\<lambda>x. Inr (r[nat seq_id := x + ?L]))) = Inr r' \<and> r' = ?S (Suc s * ?L)"
      using q r by (simp add: pooled_seq_ok[OF sh s q(2)] index_id_def index_res_def)
  qed simp
  then show ?thesis using n by simp
qed

text \<open>A loop over the tokens of a micro-batch, sequence by sequence, that does the same for every token.\<close>

lemma fold_tokens:
  assumes sh: "ubatch_shape w ub"
    and q: "\<And>s. s < ub_n_seqs ub \<Longrightarrow> read s = Inr (hd (ub_seq_id ub ! s))"
    and init: "I 0 d"
    and step: "\<And>t d. t < ub_n_tokens ub \<Longrightarrow> I t d \<Longrightarrow> \<exists>d'. body (token_seq ub t) t d = Inr d' \<and> I (Suc t) d'"
  shows "\<exists>d'. fold_res (\<lambda>s d. bind_res (read s) (\<lambda>seq_id.
      fold_res (\<lambda>i d. body seq_id (s * ub_n_seq_tokens ub + i) d) [0..<ub_n_seq_tokens ub] d)) [0..<ub_n_seqs ub] d = Inr d' \<and> I (ub_n_tokens ub) d'"
proof -
  let ?L = "ub_n_seq_tokens ub"
  have n: "ub_n_tokens ub = ub_n_seqs ub * ?L" using sh by (simp add: ubatch_shape_def)
  have "\<exists>d'. fold_res (\<lambda>s d. bind_res (read s) (\<lambda>seq_id. fold_res (\<lambda>i d. body seq_id (s * ?L + i) d) [0..<?L] d)) [0..<ub_n_seqs ub] d = Inr d'
      \<and> I (ub_n_seqs ub * ?L) d'"
  proof (rule fold_res_upt[where I = "\<lambda>s. I (s * ?L)"])
    fix s d1 assume s: "s < ub_n_seqs ub" and d1: "I (s * ?L) d1"
    have "\<exists>d'. fold_res (\<lambda>i d. body (hd (ub_seq_id ub ! s)) (s * ?L + i) d) [0..<?L] d1 = Inr d' \<and> I (s * ?L + ?L) d'"
    proof (rule fold_res_upt[where I = "\<lambda>i. I (s * ?L + i)"])
      fix i d2 assume i: "i < ?L" and d2: "I (s * ?L + i) d2"
      have "token_seq ub (s * ?L + i) = hd (ub_seq_id ub ! s)" using i by (simp add: token_seq_def)
      then show "\<exists>d'. body (hd (ub_seq_id ub ! s)) (s * ?L + i) d2 = Inr d' \<and> I (s * ?L + Suc i) d'"
        using step[OF _ d2] entry_lt[OF s i] n by simp
    qed (use d1 in simp_all)
    then show "\<exists>d'. bind_res (read s) (\<lambda>seq_id. fold_res (\<lambda>i d. body seq_id (s * ?L + i) d) [0..<?L] d1) = Inr d' \<and> I (Suc s * ?L) d'"
      by (simp add: q[OF s] add.commute[of ?L])
  qed (use init in simp_all)
  then show ?thesis using n by simp
qed

lemma token_seq_bounds:
  assumes "ubatch_shape w ub" "poolable ub" "t < ub_n_tokens ub"
  shows "0 \<le> token_seq ub t" "token_seq ub t < int (ub_n_tokens ub)"
proof -
  have "t div ub_n_seq_tokens ub < ub_n_seqs ub" using assms(1,3) by (simp add: ubatch_shape_def less_mult_imp_div_less)
  then show "0 \<le> token_seq ub t" "token_seq ub t < int (ub_n_tokens ub)" using assms(2) by (auto simp: poolable_def token_seq_def)
qed

lemma set_mean_ok:
  assumes sh: "ubatch_shape w ub" and p: "poolable ub" "p_embeddings p" "p_pooling_type p = POOLING_MEAN" and g: "g_host g"
  defines "n \<equiv> ub_n_tokens ub"
  shows "\<exists>inp'. set_mean p ub (build_inp_mean g n inp) = Inr inp'
    \<and> (\<exists>d. map_option tn_data (inp_mean inp') = Some d \<and> length d = n * n
        \<and> (\<forall>q < n. \<forall>t < n. d ! (q * n + t) = Some (if token_seq ub t = int q then Recip (length (seq_tokens ub n q)) else NoWeight)))"
proof -
  let ?cnt = "\<lambda>q. length (seq_tokens ub n q)"
  let ?v = "map (\<lambda>s. if s > 0 then Recip s else NoWeight) (map ?cnt [0..<n])"
  let ?F = "\<lambda>T k. Some (if k mod n < T \<and> token_seq ub (k mod n) = int (k div n) then Recip (?cnt (k div n)) else NoWeight)"
  let ?body = "\<lambda>seq_id t d. bind_res (index_id ?v seq_id) (\<lambda>v. put (nat seq_id * n + t) v d)"
  have loop: "\<exists>d. fold_res (\<lambda>s d. bind_res (first_seq ub s) (\<lambda>seq_id. fold_res (\<lambda>i d. ?body seq_id (s * ub_n_seq_tokens ub + i) d)
      [0..<ub_n_seq_tokens ub] d)) [0..<ub_n_seqs ub] (replicate (n * n) (Some NoWeight)) = Inr d \<and> d = map (?F (ub_n_tokens ub)) [0..<n * n]"
  proof (rule fold_tokens[OF sh ubatch_reads(1)[OF sh], where I = "\<lambda>T d. d = map (?F T) [0..<n * n]" and body = ?body])
    fix t d assume t: "t < ub_n_tokens ub" and d: "d = map (?F t) [0..<n * n]"
    note b = token_seq_bounds[OF sh p(1) t]
    let ?q = "nat (token_seq ub t)"
    have q: "?q < n" "int ?q = token_seq ub t" "t < n" using b t by (simp_all add: n_def)
    have "t \<in> set (seq_tokens ub n ?q)" using q by (simp add: seq_tokens_def)
    then have c: "?v ! ?q = Recip (?cnt ?q)" using q(1) by (auto simp: length_pos_if_in_set)
    have k: "?q * n + t < n * n" using entry_lt[OF q(1,3)] .
    have "map (?F (Suc t)) [0..<n * n] = d[?q * n + t := Some (?v ! ?q)]"
    proof (rule nth_equalityI)
      fix j assume j: "j < length (map (?F (Suc t)) [0..<n * n])"
      have "j = j div n * n + j mod n" by simp
      then have "j = ?q * n + t \<longleftrightarrow> j div n = ?q \<and> j mod n = t" using q(3) by (metis div_mult_self3 div_less mod_less mod_mult_self3 add_0_right gr_implies_not0)
      then show "map (?F (Suc t)) [0..<n * n] ! j = d[?q * n + t := Some (?v ! ?q)] ! j"
        using j k q(2) unfolding d c by (auto simp: nth_list_update less_Suc_eq)
    qed (simp add: d)
    then show "\<exists>d'. ?body (token_seq ub t) t d = Inr d' \<and> d' = map (?F (Suc t)) [0..<n * n]"
      using b k q(1,3) d by (simp add: index_id_def index_res_def put_def)
  qed (auto simp: intro!: nth_equalityI)
  have s: "mean_sums ub = Inr (map ?cnt [0..<n])" using mean_sums_ok[OF sh p(1)] by (simp add: n_def)
  have w: "write_at 0 (replicate (n * n) (Some NoWeight)) (replicate (n * n) None) = Inr (replicate (n * n) (Some NoWeight))"
    by (simp add: write_at_def)
  obtain d where d: "fold_res (\<lambda>s d. bind_res (first_seq ub s) (\<lambda>seq_id. fold_res (\<lambda>i d. ?body seq_id (s * ub_n_seq_tokens ub + i) d)
      [0..<ub_n_seq_tokens ub] d)) [0..<ub_n_seqs ub] (replicate (n * n) (Some NoWeight)) = Inr d" "d = map (?F n) [0..<n * n]"
    using loop by (auto simp: n_def)
  have "set_mean p ub (build_inp_mean g n inp) = Inr (inp\<lparr>inp_mean := Some \<lparr>tn_host = g_host g, tn_data = d\<rparr>\<rparr>)"
    using p(2,3) g s w d(1) by (simp add: set_mean_def build_inp_mean_def new_tensor_def host_data_def Let_def n_def add.assoc)
  moreover have "d ! (q * n + t) = Some (if token_seq ub t = int q then Recip (?cnt q) else NoWeight)" if "q < n" "t < n" for q t
  proof -
    have "(q * n + t) div n = q" "(q * n + t) mod n = t" using that(2) by simp_all
    then show ?thesis using entry_lt[OF that] that(2) unfolding d(2) by simp
  qed
  ultimately show ?thesis using d(2) by simp
qed

text \<open>The token of a sequence with the greatest position, the last one where several have it.\<close>

definition last_token :: "llama_ubatch \<Rightarrow> nat \<Rightarrow> nat \<Rightarrow> nat \<Rightarrow> bool" where
  "last_token ub m q t \<longleftrightarrow> t < m \<and> token_seq ub t = int q
     \<and> (\<forall>u < m. token_seq ub u = int q \<longrightarrow> ub_pos ub ! u < ub_pos ub ! t \<or> ub_pos ub ! u = ub_pos ub ! t \<and> u \<le> t)"

text \<open>The vectors of the loop after \<open>m\<close> tokens.\<close>

definition last_inv :: "llama_ubatch \<Rightarrow> nat \<Rightarrow> int list \<times> int list \<Rightarrow> bool" where
  "last_inv ub m lpr \<longleftrightarrow> length (fst lpr) = ub_n_tokens ub \<and> length (snd lpr) = ub_n_tokens ub
     \<and> (\<forall>q < ub_n_tokens ub. if (\<exists>t < m. token_seq ub t = int q)
          then \<exists>t. last_token ub m q t \<and> snd lpr ! q = int t \<and> fst lpr ! q = ub_pos ub ! t
          else snd lpr ! q = -1 \<and> fst lpr ! q = -1)"

lemma last_step:
  assumes inv: "last_inv ub t (lp, lr)" and t: "token_seq ub t = int q" "q < ub_n_tokens ub" "0 \<le> ub_pos ub ! t"
  shows "last_inv ub (Suc t) (if lp ! q \<le> ub_pos ub ! t then (lp[q := ub_pos ub ! t], lr[q := int t]) else (lp, lr))"
proof -
  have len: "length lp = ub_n_tokens ub" "length lr = ub_n_tokens ub" using inv by (simp_all add: last_inv_def)
  have old: "if (\<exists>u < t. token_seq ub u = int r) then \<exists>u. last_token ub t r u \<and> lr ! r = int u \<and> lp ! r = ub_pos ub ! u else lr ! r = -1 \<and> lp ! r = -1"
    if "r < ub_n_tokens ub" for r using inv that unfolding last_inv_def fst_conv snd_conv by blast
  have other: "(\<exists>u < Suc t. token_seq ub u = int r) \<longleftrightarrow> (\<exists>u < t. token_seq ub u = int r)" "last_token ub (Suc t) r = last_token ub t r" if "r \<noteq> q" for r
    using that t(1) by (auto simp: last_token_def less_Suc_eq fun_eq_iff)
  have mine: "\<exists>u. last_token ub (Suc t) q u \<and> (if lp ! q \<le> ub_pos ub ! t then int t else lr ! q) = int u
      \<and> (if lp ! q \<le> ub_pos ub ! t then ub_pos ub ! t else lp ! q) = ub_pos ub ! u"
  proof (cases "lp ! q \<le> ub_pos ub ! t")
    case True
    have "last_token ub (Suc t) q t" using old[OF t(2)] True t(1)
      by (auto simp: last_token_def less_Suc_eq split: if_splits)
    then show ?thesis using True by auto
  next
    case False
    then obtain u where "last_token ub t q u" "lr ! q = int u" "lp ! q = ub_pos ub ! u" using old[OF t(2)] t(3) by (auto split: if_splits)
    then show ?thesis using False by (intro exI[of _ u]) (auto simp: last_token_def less_Suc_eq)
  qed
  have new: "\<exists>u < Suc t. token_seq ub u = int q" using t(1) by auto
  show ?thesis unfolding last_inv_def
  proof (intro conjI allI impI)
    fix r assume r: "r < ub_n_tokens ub"
    show "if (\<exists>u < Suc t. token_seq ub u = int r)
        then \<exists>u. last_token ub (Suc t) r u \<and> snd (if lp ! q \<le> ub_pos ub ! t then (lp[q := ub_pos ub ! t], lr[q := int t]) else (lp, lr)) ! r = int u
          \<and> fst (if lp ! q \<le> ub_pos ub ! t then (lp[q := ub_pos ub ! t], lr[q := int t]) else (lp, lr)) ! r = ub_pos ub ! u
        else snd (if lp ! q \<le> ub_pos ub ! t then (lp[q := ub_pos ub ! t], lr[q := int t]) else (lp, lr)) ! r = -1
          \<and> fst (if lp ! q \<le> ub_pos ub ! t then (lp[q := ub_pos ub ! t], lr[q := int t]) else (lp, lr)) ! r = -1"
    proof (cases "r = q")
      case True
      then show ?thesis using mine new len t(2) by (cases "lp ! q \<le> ub_pos ub ! t") simp_all
    next
      case False
      then show ?thesis using old[OF r] unfolding other[OF False] by (cases "lp ! q \<le> ub_pos ub ! t") simp_all
    qed
  qed (use len in simp_all)
qed

lemma last_rows_ok:
  assumes sh: "ubatch_shape w ub" "ubatch_ok ub" and p: "poolable ub"
  shows "\<exists>lpr. last_rows ub = Inr lpr \<and> last_inv ub (ub_n_tokens ub) lpr"
  unfolding last_rows_def
proof (rule fold_tokens[OF sh(1), where I = "last_inv ub" and body = "\<lambda>seq_id t (lp, lr). bind_res (index_res (ub_pos ub) t) (\<lambda>pos.
    bind_res (index_id lp seq_id) (\<lambda>x. if pos \<ge> x then Inr (lp[nat seq_id := pos], lr[nat seq_id := int t]) else Inr (lp, lr)))"])
  show "pooled_seq ub s = Inr (hd (ub_seq_id ub ! s))" if "s < ub_n_seqs ub" for s
    using pooled_seq_ok[OF sh(1) that] p that by (simp add: poolable_def)
  show "last_inv ub 0 (replicate (ub_n_tokens ub) (-1), replicate (ub_n_tokens ub) (-1))" by (simp add: last_inv_def)
  fix t and d :: "int list \<times> int list" assume t: "t < ub_n_tokens ub" and d: "last_inv ub t d"
  obtain lp lr where d': "d = (lp, lr)" by fastforce
  let ?q = "nat (token_seq ub t)"
  have b: "0 \<le> token_seq ub t" "?q < ub_n_tokens ub" using token_seq_bounds[OF sh(1) p t] by simp_all
  have "0 \<le> ub_pos ub ! t" "t < length (ub_pos ub)" using sh t by (auto simp: ubatch_ok_def ubatch_shape_def)
  moreover have "length lp = ub_n_tokens ub" using d d' by (simp add: last_inv_def)
  ultimately show "\<exists>d'. (case d of (lp, lr) \<Rightarrow> bind_res (index_res (ub_pos ub) t) (\<lambda>pos. bind_res (index_id lp (token_seq ub t)) (\<lambda>x.
      if x \<le> pos then Inr (lp[nat (token_seq ub t) := pos], lr[nat (token_seq ub t) := int t]) else Inr (lp, lr)))) = Inr d' \<and> last_inv ub (Suc t) d'"
    using last_step[of ub t lp lr ?q] d d' b by (auto simp: index_id_def index_res_def split: if_splits)
qed

lemma set_last_ok:
  assumes sh: "ubatch_shape w ub" "ubatch_ok ub" and p: "poolable ub" "p_embeddings p" "p_pooling_type p = POOLING_LAST" and g: "g_host g"
  defines "n \<equiv> ub_n_tokens ub"
  shows "\<exists>inp' d. set_cls p ub (build_inp_cls g n inp) = Inr inp' \<and> map_option tn_data (inp_cls inp') = Some d \<and> length d = n
    \<and> (\<forall>q < n. if \<exists>t < n. token_seq ub t = int q then \<exists>t. last_token ub n q t \<and> d ! q = Some (int t) else d ! q = Some 0)"
proof -
  obtain lp lr where l: "last_rows ub = Inr (lp, lr)" "last_inv ub n (lp, lr)" using last_rows_ok[OF sh p(1)] by (auto simp: n_def)
  let ?F = "\<lambda>q. if lr ! q \<ge> 0 then lr ! q else 0"
  have "\<exists>d. fold_res (\<lambda>i d. if lr ! i \<ge> 0 then put i (lr ! i) d else Inr d) [0..<n] (replicate n (Some 0)) = Inr d
      \<and> d = map (\<lambda>q. Some (if q < n then ?F q else 0)) [0..<n]"
  proof (rule fold_res_upt[where I = "\<lambda>i d. d = map (\<lambda>q. Some (if q < i then ?F q else 0)) [0..<n]"])
    fix i d assume i: "i < n" and d: "d = map (\<lambda>q. Some (if q < i then ?F q else 0)) [0..<n]"
    have "map (\<lambda>q. Some (if q < Suc i then ?F q else 0)) [0..<n] = (if lr ! i \<ge> 0 then d[i := Some (lr ! i)] else d)"
      using i by (intro nth_equalityI) (auto simp: d nth_list_update less_Suc_eq)
    then show "\<exists>d'. (if lr ! i \<ge> 0 then put i (lr ! i) d else Inr d) = Inr d' \<and> d' = map (\<lambda>q. Some (if q < Suc i then ?F q else 0)) [0..<n]"
      using i d by (simp add: put_def)
  qed (auto intro: nth_equalityI)
  then obtain d where d: "last_data ub (replicate n (Some 0)) = Inr d" "d = map (\<lambda>q. Some (?F q)) [0..<n]"
    using l(1) by (auto simp: last_data_def n_def)
  have w: "write_at 0 (replicate n (Some 0)) (replicate n None) = Inr (replicate n (Some 0 :: int option))" by (simp add: write_at_def)
  have s: "set_cls p ub (build_inp_cls g n inp) = Inr (inp\<lparr>inp_cls := Some \<lparr>tn_host = g_host g, tn_data = d\<rparr>\<rparr>)"
    using p(2,3) g w d(1) by (simp add: set_cls_def build_inp_cls_def new_tensor_def host_data_def Let_def n_def)
  have "if \<exists>t < n. token_seq ub t = int q then \<exists>t. last_token ub n q t \<and> d ! q = Some (int t) else d ! q = Some 0" if q: "q < n" for q
  proof -
    have "if \<exists>t < n. token_seq ub t = int q then \<exists>t. last_token ub n q t \<and> lr ! q = int t else lr ! q = -1"
      using l(2) q unfolding last_inv_def n_def by (auto split: if_splits)
    then show ?thesis using q unfolding d(2) by (auto split: if_splits)
  qed
  note all = this
  have "length d = n" using d(2) by simp
  then show ?thesis using s all
    by (intro exI[of _ "inp\<lparr>inp_cls := Some \<lparr>tn_host = g_host g, tn_data = d\<rparr>\<rparr>"] exI[of _ d] conjI) simp_all
qed

text \<open>C35: Pooling. For mean pooling the matrix that averages the embeddings of a micro-batch is completely written: row \<open>q\<close> has the
  weight \<open>1/m\<close> for each of the \<open>m\<close> tokens of sequence \<open>q\<close> and 0 for every other token. For pooling by the last token every
  entry of the row indices is written: for a sequence of the micro-batch it is the row of its token with the greatest
  position, whatever the order of the tokens, and 0 for every other index.\<close>

theorem pooling_inputs_exact:
  assumes "ubatch_shape w ub" "ubatch_ok ub" "poolable ub" "p_embeddings p" "g_host g" "n = ub_n_tokens ub"
  shows "(p_pooling_type p = POOLING_MEAN \<longrightarrow> (\<exists>inp' d. set_mean p ub (build_inp_mean g n inp) = Inr inp'
        \<and> map_option tn_data (inp_mean inp') = Some d \<and> length d = n * n
        \<and> (\<forall>q < n. \<forall>t < n. d ! (q * n + t) = Some (if token_seq ub t = int q then Recip (length (seq_tokens ub n q)) else NoWeight))))
    \<and> (p_pooling_type p = POOLING_LAST \<longrightarrow> (\<exists>inp' d. set_cls p ub (build_inp_cls g n inp) = Inr inp'
        \<and> map_option tn_data (inp_cls inp') = Some d \<and> length d = n
        \<and> (\<forall>q < n. if \<exists>t < n. token_seq ub t = int q then \<exists>t. last_token ub n q t \<and> d ! q = Some (int t) else d ! q = Some 0)))"
proof (intro conjI impI)
  assume "p_pooling_type p = POOLING_MEAN"
  from set_mean_ok[OF assms(1,3,4) this assms(5), of inp] show "\<exists>inp' d. set_mean p ub (build_inp_mean g n inp) = Inr inp'
      \<and> map_option tn_data (inp_mean inp') = Some d \<and> length d = n * n
      \<and> (\<forall>q < n. \<forall>t < n. d ! (q * n + t) = Some (if token_seq ub t = int q then Recip (length (seq_tokens ub n q)) else NoWeight))"
    unfolding assms(6) by blast
next
  assume "p_pooling_type p = POOLING_LAST"
  from set_last_ok[OF assms(1-4) this assms(5), of inp] show "\<exists>inp' d. set_cls p ub (build_inp_cls g n inp) = Inr inp'
      \<and> map_option tn_data (inp_cls inp') = Some d \<and> length d = n
      \<and> (\<forall>q < n. if \<exists>t < n. token_seq ub t = int q then \<exists>t. last_token ub n q t \<and> d ! q = Some (int t) else d ! q = Some 0)"
    unfolding assms(6) by blast
qed

section \<open>Examples\<close>

text \<open>Three tokens: two of sequence 0, and between them one of sequence 1.\<close>

definition ex_two_seqs :: llama_ubatch where
  "ex_two_seqs = \<lparr>ub_equal_seqs = False, ub_n_tokens = 3, ub_n_seq_tokens = 1, ub_n_seqs = 3, ub_token = Some [5, 6, 7], ub_embd = None,
     ub_pos = [0, 0, 1], ub_n_seq_id = [1, 1, 1], ub_seq_id = [[0], [1], [0]], ub_output = [1, 1, 1]\<rparr>"

definition ex_bidir :: llama_params where
  "ex_bidir = ex_params\<lparr>p_causal_attn := False, p_model_causal := False, p_embeddings := True, p_pooling_type := POOLING_MEAN\<rparr>"

lemma ex_two_seqs_ok: "ubatch_shape 1 ex_two_seqs" "ubatch_ok ex_two_seqs" "poolable ex_two_seqs"
  by (auto simp: ubatch_shape_def ubatch_ok_def poolable_def ex_two_seqs_def less_Suc_eq numeral_3_eq_3)

lemma ex_two_seqs_values:
  "ub_n_tokens ex_two_seqs = 3" "token_seq ex_two_seqs 0 = 0" "token_seq ex_two_seqs 1 = 1" "token_seq ex_two_seqs 2 = 0"
  "token_seqs ex_two_seqs 0 = {0}" "token_seqs ex_two_seqs 1 = {1}" "seq_tokens ex_two_seqs 3 0 = [0, 2]"
  by (simp_all add: ex_two_seqs_def token_seq_def token_seqs_def seq_tokens_def upt_rec)

theorem full_mask_exact_witness:
  "\<exists>inp' d. set_KQ_masks ex_bidir (lc_kv ex_ctx) False ex_two_seqs (build_inp_KQ_mask (ex_spec True) 4 3 False no_inputs) = Inr inp'
     \<and> map_option tn_data (inp_KQ_mask inp') = Some d \<and> d ! 6 = Some (Bias 0) \<and> d ! 7 = Some NegInf"
proof -
  let ?inp = "build_inp_KQ_mask (ex_spec True) 4 3 False no_inputs"
  let ?t = "the (inp_KQ_mask ?inp)"
  have pad: "GGML_PAD 3 GGML_KQ_MASK_PAD = 64" by code_simp
  have t: "inp_KQ_mask ?inp = Some ?t" "tn_host ?t" "length (tn_data ?t) = 192"
    by (simp_all add: build_inp_KQ_mask_def new_tensor_def ex_spec_def pad)
  have c: "\<not> (p_causal_attn ex_bidir \<and> \<not> False)" "3 = (if p_model_causal ex_bidir \<and> \<not> False then kv_n (lc_kv ex_ctx) else ub_n_tokens ex_two_seqs)"
    by (simp_all add: ex_bidir_def ex_two_seqs_values)
  have n: "ub_n_tokens ex_two_seqs \<le> 3" "ub_n_tokens ex_two_seqs * 3 \<le> length (tn_data ?t)" using t(3) by (simp_all add: ex_two_seqs_values)
  obtain inp' d where q: "set_KQ_masks ex_bidir (lc_kv ex_ctx) False ex_two_seqs ?inp = Inr inp'" "map_option tn_data (inp_KQ_mask inp') = Some d"
    and a: "\<forall>tj < ub_n_tokens ex_two_seqs. \<forall>ti < 3. d ! (tj * 3 + ti) = Some
         (if ti < ub_n_tokens ex_two_seqs \<and> token_seq ex_two_seqs tj \<in> token_seqs ex_two_seqs ti
          then Bias (if p_use_alibi ex_bidir then - \<bar>ub_pos ex_two_seqs ! ti - ub_pos ex_two_seqs ! tj\<bar> else 0) else NegInf)"
    using full_mask_exact[OF ex_two_seqs_ok(1) c(1) t(1,2) c(2) n] by blast
  have "d ! (2 * 3 + 0) = Some (Bias 0)" "d ! (2 * 3 + 1) = Some NegInf"
    using a[rule_format, of 2 0] a[rule_format, of 2 1] by (simp_all add: ex_two_seqs_values ex_two_seqs_values(6)[unfolded One_nat_def] ex_bidir_def ex_params_def)
  then show ?thesis using q by (intro exI[of _ inp'] exI[of _ d]) simp
qed

theorem pooling_inputs_exact_witness:
  "(\<exists>inp' d. set_mean ex_bidir ex_two_seqs (build_inp_mean (ex_spec True) 3 no_inputs) = Inr inp' \<and> map_option tn_data (inp_mean inp') = Some d
     \<and> d ! 0 = Some (Recip 2) \<and> d ! 1 = Some NoWeight \<and> d ! 2 = Some (Recip 2))
   \<and> (\<exists>inp' d. set_cls (ex_bidir\<lparr>p_pooling_type := POOLING_LAST\<rparr>) ex_two_seqs (build_inp_cls (ex_spec True) 3 no_inputs) = Inr inp'
     \<and> map_option tn_data (inp_cls inp') = Some d \<and> d ! 0 = Some 2)"
proof
  have p: "p_embeddings ex_bidir" "g_host (ex_spec True)" "3 = ub_n_tokens ex_two_seqs" by (simp_all add: ex_bidir_def ex_spec_def ex_two_seqs_def)
  have "p_pooling_type ex_bidir = POOLING_MEAN" by (simp add: ex_bidir_def)
  then obtain inp' d where q: "set_mean ex_bidir ex_two_seqs (build_inp_mean (ex_spec True) 3 no_inputs) = Inr inp'" "map_option tn_data (inp_mean inp') = Some d"
    and a: "\<forall>q < 3. \<forall>t < 3. d ! (q * 3 + t) = Some (if token_seq ex_two_seqs t = int q then Recip (length (seq_tokens ex_two_seqs 3 q)) else NoWeight)"
    using pooling_inputs_exact[OF ex_two_seqs_ok p, of no_inputs] by blast
  show "\<exists>inp' d. set_mean ex_bidir ex_two_seqs (build_inp_mean (ex_spec True) 3 no_inputs) = Inr inp' \<and> map_option tn_data (inp_mean inp') = Some d
      \<and> d ! 0 = Some (Recip 2) \<and> d ! 1 = Some NoWeight \<and> d ! 2 = Some (Recip 2)"
    using q a[rule_format, of 0 0] a[rule_format, of 0 1] a[rule_format, of 0 2]
    by (intro exI[of _ inp'] exI[of _ d]) (simp add: ex_two_seqs_values ex_two_seqs_values(3)[unfolded One_nat_def] ex_two_seqs_values(4)[unfolded numeral_2_eq_2] numeral_2_eq_2)
next
  let ?p = "ex_bidir\<lparr>p_pooling_type := POOLING_LAST\<rparr>"
  have p: "p_embeddings ?p" "g_host (ex_spec True)" "3 = ub_n_tokens ex_two_seqs" by (simp_all add: ex_bidir_def ex_spec_def ex_two_seqs_def)
  have "p_pooling_type ?p = POOLING_LAST" by simp
  then obtain inp' d where q: "set_cls ?p ex_two_seqs (build_inp_cls (ex_spec True) 3 no_inputs) = Inr inp'" "map_option tn_data (inp_cls inp') = Some d"
    and a: "\<forall>q < 3. if \<exists>t < 3. token_seq ex_two_seqs t = int q then \<exists>t. last_token ex_two_seqs 3 q t \<and> d ! q = Some (int t) else d ! q = Some 0"
    using pooling_inputs_exact[OF ex_two_seqs_ok p, of no_inputs] by blast
  have "\<exists>t < (3 :: nat). token_seq ex_two_seqs t = int 0" using ex_two_seqs_values(2) by (intro exI[of _ 0]) simp
  then obtain t where t: "last_token ex_two_seqs 3 0 t" "d ! 0 = Some (int t)" using a by (metis zero_less_numeral)
  have "ub_pos ex_two_seqs ! 2 < ub_pos ex_two_seqs ! t \<or> ub_pos ex_two_seqs ! 2 = ub_pos ex_two_seqs ! t \<and> 2 \<le> t" "t < 3"
    using t(1) ex_two_seqs_values(4) by (simp_all add: last_token_def)
  then have "t = 2" by (auto simp: ex_two_seqs_def less_Suc_eq numeral_3_eq_3)
  then show "\<exists>inp' d. set_cls ?p ex_two_seqs (build_inp_cls (ex_spec True) 3 no_inputs) = Inr inp'
      \<and> map_option tn_data (inp_cls inp') = Some d \<and> d ! 0 = Some 2"
    using q t(2) by (intro exI[of _ inp'] exI[of _ d]) simp
qed

section \<open>The sliding window without causal attention\<close>

lemma keeps_masks:
  "set_tokens ub inp = Inr inp' \<Longrightarrow> inp_KQ_mask inp' = inp_KQ_mask inp \<and> inp_KQ_mask_swa inp' = inp_KQ_mask_swa inp"
  "set_embd p ub inp = Inr inp' \<Longrightarrow> inp_KQ_mask inp' = inp_KQ_mask inp \<and> inp_KQ_mask_swa inp' = inp_KQ_mask_swa inp"
  "set_pos p ub inp = Inr inp' \<Longrightarrow> inp_KQ_mask inp' = inp_KQ_mask inp \<and> inp_KQ_mask_swa inp' = inp_KQ_mask_swa inp"
  "set_out_ids p k ub inp = Inr inp' \<Longrightarrow> inp_KQ_mask inp' = inp_KQ_mask inp \<and> inp_KQ_mask_swa inp' = inp_KQ_mask_swa inp"
  "set_mean p ub inp = Inr inp' \<Longrightarrow> inp_KQ_mask_swa inp' = inp_KQ_mask_swa inp"
  "set_cls p ub inp = Inr inp' \<Longrightarrow> inp_KQ_mask_swa inp' = inp_KQ_mask_swa inp"
  "set_s_mask (kv, inp) = Inr (kv', inp') \<Longrightarrow> inp_KQ_mask_swa inp' = inp_KQ_mask_swa inp"
  "set_s_copy (kv, inp) = Inr (kv', inp') \<Longrightarrow> inp_KQ_mask_swa inp' = inp_KQ_mask_swa inp"
  "set_pos_bucket large p kv enc ub inp = Inr inp' \<Longrightarrow> inp_KQ_mask_swa inp' = inp_KQ_mask_swa inp"
  "set_embd_enc enc es inp = Inr inp' \<Longrightarrow> inp_KQ_mask_swa inp' = inp_KQ_mask_swa inp"
  "set_KQ_mask_cross p enc es sq ub inp = Inr inp' \<Longrightarrow> inp_KQ_mask_swa inp' = inp_KQ_mask_swa inp"
  by (auto simp: set_tokens_def set_embd_def set_pos_def set_out_ids_def set_mean_def set_cls_def set_s_mask_def set_s_copy_def
      set_pos_bucket_def set_embd_enc_def set_KQ_mask_cross_def Let_def split: option.splits if_splits prod.splits)

text \<open>A model with a sliding window run without causal attention (to get embeddings, say). The branch of \<open>llama_set_inputs\<close> for
  bidirectional attention fills only \<open>inp_KQ_mask\<close>. A graph that has both masks is computed with an \<open>inp_KQ_mask_swa\<close> of which
  no entry was written, and a graph that has only the second one is never computed: the null \<open>inp_KQ_mask\<close> is read.\<close>

theorem noncausal_window_unset:
  assumes "\<not> (p_causal_attn p \<and> \<not> lc_is_encoding lc)" "llama_set_inputs large p ub lc = Inr lc'"
  shows "inp_KQ_mask_swa (lc_inputs lc') = inp_KQ_mask_swa (lc_inputs lc)
    \<and> (inp_KQ_mask_swa (lc_inputs lc) \<noteq> None \<longrightarrow> inp_KQ_mask (lc_inputs lc) \<noteq> None)"
proof -
  have masks: "inp_KQ_mask_swa i5 = inp_KQ_mask_swa i4 \<and> (inp_KQ_mask_swa i4 \<noteq> None \<longrightarrow> inp_KQ_mask i4 \<noteq> None)"
    if "set_KQ_masks p kv (lc_is_encoding lc) ub i4 = Inr i5" for kv i4 i5
    using that assms(1) by (auto simp: set_KQ_masks_def set_full_mask_def Let_def deref_def split: if_splits option.splits)
  have states: "inp_KQ_mask_swa i8 = inp_KQ_mask_swa i7"
    if "(if b then bind_res (set_s_mask (kv, i7)) set_s_copy else Inr (kv, i7)) = Inr (kv', i8)" for b kv kv' i7 i8
    using that keeps_masks(7,8) by (auto split: if_splits)
  obtain i1 i2 i3 i4 i5 i6 i7 kv' i8 i9 i10 i11 where
    "set_tokens ub (lc_inputs lc) = Inr i1" "set_embd p ub i1 = Inr i2" "set_pos p ub i2 = Inr i3"
    "set_out_ids p (lc_n_outputs lc) ub i3 = Inr i4" "set_KQ_masks p (lc_kv lc) (lc_is_encoding lc) ub i4 = Inr i5"
    "set_mean p ub i5 = Inr i6" "set_cls p ub i6 = Inr i7"
    "(if kv_recurrent (lc_kv lc) then bind_res (set_s_mask (lc_kv lc, i7)) set_s_copy else Inr (lc_kv lc, i7)) = Inr (kv', i8)"
    "set_pos_bucket large p kv' (lc_is_encoding lc) ub i8 = Inr i9" "set_embd_enc (lc_is_encoding lc) (lc_embd_enc lc) i9 = Inr i10"
    "set_KQ_mask_cross p (lc_is_encoding lc) (lc_embd_enc lc) (lc_seq_ids_enc lc) ub i10 = Inr i11" "lc_inputs lc' = i11"
    using assms(2) unfolding llama_set_inputs_def Let_def by (auto simp del: split_paired_Ex)
  note s = this
  show ?thesis using keeps_masks(1)[OF s(1)] keeps_masks(2)[OF s(2)] keeps_masks(3)[OF s(3)] keeps_masks(4)[OF s(4)] masks[OF s(5)]
      keeps_masks(5)[OF s(6)] keeps_masks(6)[OF s(7)] states[OF s(8)] keeps_masks(9)[OF s(9)] keeps_masks(10)[OF s(10)] keeps_masks(11)[OF s(11)] s(12)
    by simp
qed

text \<open>A graph with both masks and one with only the mask of the window, on a cache with one token.\<close>

definition ex_noncausal :: llama_params where
  "ex_noncausal = ex_params\<lparr>p_causal_attn := False, p_n_swa := 2\<rparr>"

definition ex_swa_ctx :: "bool \<Rightarrow> nat llama_context" where
  "ex_swa_ctx both = ex_ctx\<lparr>lc_kv := (lc_kv ex_ctx)\<lparr>kv_n := 4\<rparr>, lc_n_outputs := 1,
     lc_inputs := (case llama_build_inputs ((ex_spec False)\<lparr>g_KQ_mask := (if both then Some True else None), g_KQ_mask_swa := Some True\<rparr>)
       ex_noncausal (ex_ctx\<lparr>lc_kv := (lc_kv ex_ctx)\<lparr>kv_n := 4\<rparr>, lc_n_outputs := 1\<rparr>) ex_ub of Inl _ \<Rightarrow> no_inputs | Inr inp \<Rightarrow> inp)\<rparr>"

lemma ex_swa_runs:
  "case llama_set_inputs (\<lambda>_ _ _. 0) ex_noncausal ex_ub (ex_swa_ctx True) of Inl _ \<Rightarrow> False | Inr _ \<Rightarrow> True"
  "case llama_set_inputs (\<lambda>_ _ _. 0) ex_noncausal ex_ub (ex_swa_ctx False) of Inl e \<Rightarrow> e = Undef | Inr _ \<Rightarrow> False"
  "case inp_KQ_mask_swa (lc_inputs (ex_swa_ctx True)) of None \<Rightarrow> False | Some t \<Rightarrow> list_all (\<lambda>x. x = None) (tn_data t) \<and> length (tn_data t) = 256"
  by code_simp+

theorem noncausal_window_unset_witness:
  "\<exists>lc' t. llama_set_inputs (\<lambda>_ _ _. 0) ex_noncausal ex_ub (ex_swa_ctx True) = Inr lc' \<and> inp_KQ_mask_swa (lc_inputs lc') = Some t
     \<and> list_all (\<lambda>x. x = None) (tn_data t) \<and> length (tn_data t) = 256
     \<and> llama_set_inputs (\<lambda>_ _ _. 0) ex_noncausal ex_ub (ex_swa_ctx False) = Inl Undef"
proof -
  obtain lc' where r: "llama_set_inputs (\<lambda>_ _ _. 0) ex_noncausal ex_ub (ex_swa_ctx True) = Inr lc'"
    using ex_swa_runs(1) by (auto split: sum.splits)
  have "\<not> (p_causal_attn ex_noncausal \<and> \<not> lc_is_encoding (ex_swa_ctx True))" by (simp add: ex_noncausal_def)
  from noncausal_window_unset[OF this r] have "inp_KQ_mask_swa (lc_inputs lc') = inp_KQ_mask_swa (lc_inputs (ex_swa_ctx True))" by simp
  then show ?thesis using r ex_swa_runs(2,3) by (auto split: option.splits sum.splits)
qed

end
