(* ===== verification/Utf8.thy ===== *)
theory Utf8
  imports Prelude
begin

text \<open>
  UTF-8 in the program: the encoder and decoder of \<open>unicode.cpp\<close> and the two decoders of
  \<open>llama-grammar.cpp\<close>, one for a character of the grammar text, one that decodes the pieces of
  a token stream and carries an incomplete sequence from one piece to the next. Strings are
  lists of bytes; a \<open>c_str\<close> ends at its first 0 byte.
\<close>

section \<open>The codec of unicode.cpp\<close>

definition utf8_lookup :: "nat list" where
  "utf8_lookup = [1, 1, 1, 1, 1, 1, 1, 1, 1, 1, 1, 1, 2, 2, 3, 4]"

definition unicode_len_utf8 :: "u8 \<Rightarrow> nat" where
  "unicode_len_utf8 src = utf8_lookup ! unat (drop_bit 4 src)"

definition unicode_cpt_to_utf8 :: "u32 \<Rightarrow> u8 list res" where
  "unicode_cpt_to_utf8 cpt =
     (if cpt \<le> 0x7f then Inr [ucast cpt]
      else if 0x80 \<le> cpt \<and> cpt \<le> 0x7ff then
        Inr [ucast (0xc0 OR (drop_bit 6 cpt AND 0x1f)), ucast (0x80 OR (cpt AND 0x3f))]
      else if 0x800 \<le> cpt \<and> cpt \<le> 0xffff then
        Inr [ucast (0xe0 OR (drop_bit 12 cpt AND 0x0f)), ucast (0x80 OR (drop_bit 6 cpt AND 0x3f)),
             ucast (0x80 OR (cpt AND 0x3f))]
      else if 0x10000 \<le> cpt \<and> cpt \<le> 0x10ffff then
        Inr [ucast (0xf0 OR (drop_bit 18 cpt AND 0x07)), ucast (0x80 OR (drop_bit 12 cpt AND 0x3f)),
             ucast (0x80 OR (drop_bit 6 cpt AND 0x3f)), ucast (0x80 OR (cpt AND 0x3f))]
      else Inl (Throw ''invalid codepoint''))"

definition unicode_cpts_to_utf8 :: "u32 list \<Rightarrow> u8 list res" where
  "unicode_cpts_to_utf8 cps = bind_res (map_res unicode_cpt_to_utf8 cps) (\<lambda>bss. Inr (concat bss))"

definition invalid_character :: failure where
  "invalid_character = Throw ''invalid character''"

definition is_cont :: "u8 list \<Rightarrow> nat \<Rightarrow> bool" where
  "is_cont utf8 i \<longleftrightarrow> (utf8 ! i) AND 0xc0 = 0x80"

definition unicode_cpt_from_utf8 :: "u8 list \<Rightarrow> nat \<Rightarrow> (u32 \<times> nat) res" where
  "unicode_cpt_from_utf8 utf8 offset =
     (if offset \<ge> length utf8 then Inl GgmlAbort
      else
       (let b0 = utf8 ! offset;
            bits = (\<lambda>i m. ucast ((utf8 ! (offset + i)) AND m) :: u32) in
        if b0 AND 0x80 = 0 then Inr (ucast b0, offset + 1)
        else if b0 AND 0x40 = 0 then Inl invalid_character
        else if b0 AND 0x20 = 0 then
          (if offset + 1 \<ge> length utf8 \<or> \<not> is_cont utf8 (offset + 1) then Inl invalid_character
           else Inr (push_bit 6 (bits 0 0x1f) OR bits 1 0x3f, offset + 2))
        else if b0 AND 0x10 = 0 then
          (if offset + 2 \<ge> length utf8 \<or> \<not> is_cont utf8 (offset + 1) \<or> \<not> is_cont utf8 (offset + 2)
           then Inl invalid_character
           else Inr (push_bit 12 (bits 0 0x0f) OR push_bit 6 (bits 1 0x3f) OR bits 2 0x3f, offset + 3))
        else if b0 AND 0x08 = 0 then
          (if offset + 3 \<ge> length utf8 \<or> \<not> is_cont utf8 (offset + 1) \<or> \<not> is_cont utf8 (offset + 2)
              \<or> \<not> is_cont utf8 (offset + 3)
           then Inl invalid_character
           else Inr (push_bit 18 (bits 0 0x07) OR push_bit 12 (bits 1 0x3f) OR push_bit 6 (bits 2 0x3f)
                     OR bits 3 0x3f, offset + 4))
        else Inl (Throw ''failed to convert utf8 to codepoint'')))"

lemma cpt_from_utf8_advances: "unicode_cpt_from_utf8 utf8 offset = Inr (c, offset') \<Longrightarrow> offset < offset'"
  by (auto simp: unicode_cpt_from_utf8_def Let_def split: if_splits)

function cpts_from_utf8_loop :: "u8 list \<Rightarrow> nat \<Rightarrow> u32 list \<Rightarrow> u32 list" where
  "cpts_from_utf8_loop utf8 offset result =
     (if offset < length utf8 then
        (case unicode_cpt_from_utf8 utf8 offset of
           Inr (c, offset') \<Rightarrow> cpts_from_utf8_loop utf8 offset' (result @ [c])
         | Inl _ \<Rightarrow> cpts_from_utf8_loop utf8 (offset + 1) (result @ [0xFFFD]))
      else result)"
  by pat_completeness auto
termination
  by (relation "measure (\<lambda>(utf8, offset, _). length utf8 - offset)")
     (auto dest!: sym[of "Inr _"] dest: cpt_from_utf8_advances)

declare cpts_from_utf8_loop.simps [simp del]

definition unicode_cpts_from_utf8 :: "u8 list \<Rightarrow> u32 list" where
  "unicode_cpts_from_utf8 utf8 = cpts_from_utf8_loop utf8 0 []"

section \<open>The decoders of llama-grammar.cpp\<close>

text \<open>\<open>decode_utf8(const char *)\<close>: one character of the grammar text and the rest of the text.\<close>

definition utf8_add :: "u32 \<Rightarrow> u8 \<Rightarrow> u32" where
  "utf8_add v b = push_bit 6 v + ucast (b AND 0x3f)"

definition low_mask :: "nat \<Rightarrow> u8" where
  "low_mask k = push_bit k 1 - 1"

fun decode_rest :: "u32 \<Rightarrow> nat \<Rightarrow> u8 list \<Rightarrow> u32 \<times> u8 list" where
  "decode_rest v 0 bs = (v, bs)"
| "decode_rest v n [] = (v, [])"
| "decode_rest v (Suc n) (b # bs) = (if b = 0 then (v, b # bs) else decode_rest (utf8_add v b) n bs)"

definition decode_utf8_char :: "u8 list \<Rightarrow> u32 \<times> u8 list" where
  "decode_utf8_char src =
     (case src of
        [] \<Rightarrow> (0, [])
      | b # bs \<Rightarrow>
          (let len = utf8_lookup ! unat (drop_bit 4 b)
           in decode_rest (ucast (b AND low_mask (8 - len))) (len - 1) bs))"

text \<open>\<open>decode_utf8(const std::string &, llama_partial_utf8)\<close>. A partial sequence is the bits so far and
  the number of bytes missing, negative after invalid input.\<close>

record llama_partial_utf8 =
  pu_value :: u32
  pu_n_remain :: int

definition stream_lookup :: "int list" where
  "stream_lookup = [1, 1, 1, 1, 1, 1, 1, 1, 0, 0, 0, 0, 2, 2, 3, 4]"

text \<open>The first loop, which checks that the bytes continue the sequence; \<open>None\<close> is the early return.\<close>

fun utf8_cont_checked :: "u32 \<Rightarrow> int \<Rightarrow> u8 list \<Rightarrow> (u32 \<times> int \<times> u8 list) option" where
  "utf8_cont_checked v n [] = Some (v, n, [])"
| "utf8_cont_checked v n (b # bs) =
     (if b = 0 \<or> n \<le> 0 then Some (v, n, b # bs)
      else if drop_bit 6 b \<noteq> 2 then None
      else utf8_cont_checked (utf8_add v b) (n - 1) bs)"

text \<open>The inner loop, which does not check.\<close>

fun utf8_cont :: "u32 \<Rightarrow> int \<Rightarrow> u8 list \<Rightarrow> u32 \<times> int \<times> u8 list" where
  "utf8_cont v n [] = (v, n, [])"
| "utf8_cont v n (b # bs) =
     (if b = 0 \<or> n \<le> 0 then (v, n, b # bs) else utf8_cont (utf8_add v b) (n - 1) bs)"

lemma utf8_cont_length: "utf8_cont v n bs = (v', n', bs') \<Longrightarrow> length bs' \<le> length bs"
  by (induction v n bs rule: utf8_cont.induct) (auto split: if_splits)

function utf8_stream :: "u32 \<Rightarrow> int \<Rightarrow> u8 list \<Rightarrow> u32 list \<Rightarrow> u32 list \<times> llama_partial_utf8" where
  "utf8_stream v n [] cps = (cps @ [0], \<lparr>pu_value = v, pu_n_remain = n\<rparr>)"
| "utf8_stream v n (b # bs) cps =
     (if b = 0 then (cps @ [0], \<lparr>pu_value = v, pu_n_remain = n\<rparr>)
      else
        (let n1 = stream_lookup ! unat (drop_bit 4 b) - 1 in
         if n1 < 0 then ([0], \<lparr>pu_value = 0, pu_n_remain = n1\<rparr>)
         else
           (case utf8_cont (ucast (b AND low_mask (nat (7 - n1)))) n1 bs of
              (v2, n2, bs2) \<Rightarrow> utf8_stream v2 n2 bs2 (if n2 = 0 then cps @ [v2] else cps))))"
  by pat_completeness auto
termination
  by (relation "measure (\<lambda>(_, _, bs, _). length bs)") (auto dest!: sym[of _ "utf8_cont _ _ _"] utf8_cont_length)

definition decode_utf8 :: "u8 list \<Rightarrow> llama_partial_utf8 \<Rightarrow> u32 list \<times> llama_partial_utf8" where
  "decode_utf8 src partial_start =
     (case utf8_cont_checked (pu_value partial_start) (pu_n_remain partial_start) src of
        None \<Rightarrow> ([0], \<lparr>pu_value = 0, pu_n_remain = -1\<rparr>)
      | Some (v, n, bs) \<Rightarrow>
          utf8_stream v n bs (if pu_n_remain partial_start > 0 \<and> n = 0 then [v] else []))"

section \<open>Round trip\<close>

lemma low_bits:
  fixes c :: "'a::len word"
  assumes "unat c < 2 ^ k" "bit c n" shows "n < k"
proof (rule ccontr)
  assume "\<not> n < k"
  then have "unat c < 2 ^ n" using assms(1) by (meson less_le_trans not_less one_le_numeral power_increasing)
  moreover have "bit (unat c) n" using assms(2) by (simp add: bit_unsigned_iff)
  ultimately show False by (simp add: bit_iff_odd)
qed

lemma byte_consts:
  "(0x3f :: 'a::len word) = mask 6" "(0x1f :: 'a word) = mask 5" "(0x0f :: 'a word) = mask 4" "(0x07 :: 'a word) = mask 3"
  "(0xc0 :: 'a word) = push_bit 6 (mask 2)" "(0xe0 :: 'a word) = push_bit 5 (mask 3)"
  "(0xf0 :: 'a word) = push_bit 4 (mask 4)"
  by (simp_all add: mask_eq_exp_minus_1 push_bit_eq_mult)

lemma bit_consts:
  "bit (0x80 :: int) n \<longleftrightarrow> n = 7" "bit (0x40 :: int) n \<longleftrightarrow> n = 6" "bit (0x20 :: int) n \<longleftrightarrow> n = 5"
  "bit (0x10 :: int) n \<longleftrightarrow> n = 4" "bit (0x08 :: int) n \<longleftrightarrow> n = 3"
  using bit_exp_iff[of 7 n, where 'a = int] bit_exp_iff[of 6 n, where 'a = int] bit_exp_iff[of 5 n, where 'a = int]
    bit_exp_iff[of 4 n, where 'a = int] bit_exp_iff[of 3 n, where 'a = int] by auto

text \<open>What the decoder reads back from a lead byte and from a continuation byte.\<close>

lemma lead_bytes:
  fixes x :: u32
  shows "ucast ((ucast (0xc0 OR (x AND 0x1f)) :: u8) AND 0x1f) = x AND 0x1f"
    and "ucast ((ucast (0xe0 OR (x AND 0x0f)) :: u8) AND 0x0f) = x AND 0x0f"
    and "ucast ((ucast (0xf0 OR (x AND 0x07)) :: u8) AND 0x07) = x AND 0x07"
    and "ucast ((ucast (0x80 OR (x AND 0x3f)) :: u8) AND 0x3f) = x AND 0x3f"
  unfolding byte_consts by (rule bit_word_eqI; auto simp: bit_simps bit_consts)+

lemma and_tests:
  fixes w :: u8
  shows "w AND 0x80 = 0 \<longleftrightarrow> \<not> bit w 7" "w AND 0x40 = 0 \<longleftrightarrow> \<not> bit w 6" "w AND 0x20 = 0 \<longleftrightarrow> \<not> bit w 5"
    "w AND 0x10 = 0 \<longleftrightarrow> \<not> bit w 4" "w AND 0x08 = 0 \<longleftrightarrow> \<not> bit w 3"
  using and_exp_eq_0_iff_not_bit[of w 7] and_exp_eq_0_iff_not_bit[of w 6] and_exp_eq_0_iff_not_bit[of w 5]
    and_exp_eq_0_iff_not_bit[of w 4] and_exp_eq_0_iff_not_bit[of w 3] by simp_all

lemma and_cont: "(w :: u8) AND 0xc0 = 0x80 \<longleftrightarrow> bit w 7 \<and> \<not> bit w 6"
proof
  assume "w AND 0xc0 = 0x80"
  then have "bit (w AND 0xc0) 7 = bit (0x80 :: u8) 7" "bit (w AND 0xc0) 6 = bit (0x80 :: u8) 6" by simp_all
  then show "bit w 7 \<and> \<not> bit w 6" by (simp add: bit_and_iff)
next
  assume w: "bit w 7 \<and> \<not> bit w 6"
  show "w AND 0xc0 = 0x80"
  proof (rule bit_word_eqI)
    fix n assume "n < LENGTH(8)"
    then consider "n < 6" | "n = 6" | "n = 7" by fastforce
    then show "bit (w AND 0xc0) n = bit (0x80 :: u8) n"
      unfolding byte_consts by cases (use w in \<open>auto simp: bit_simps bit_consts\<close>)
  qed
qed

lemma lead_tests:
  fixes x :: u32
  shows "(ucast (0xc0 OR (x AND 0x1f)) :: u8) AND 0x80 \<noteq> 0" "(ucast (0xc0 OR (x AND 0x1f)) :: u8) AND 0x40 \<noteq> 0"
    "(ucast (0xc0 OR (x AND 0x1f)) :: u8) AND 0x20 = 0"
    "(ucast (0xe0 OR (x AND 0x0f)) :: u8) AND 0x80 \<noteq> 0" "(ucast (0xe0 OR (x AND 0x0f)) :: u8) AND 0x40 \<noteq> 0"
    "(ucast (0xe0 OR (x AND 0x0f)) :: u8) AND 0x20 \<noteq> 0" "(ucast (0xe0 OR (x AND 0x0f)) :: u8) AND 0x10 = 0"
    "(ucast (0xf0 OR (x AND 0x07)) :: u8) AND 0x80 \<noteq> 0" "(ucast (0xf0 OR (x AND 0x07)) :: u8) AND 0x40 \<noteq> 0"
    "(ucast (0xf0 OR (x AND 0x07)) :: u8) AND 0x20 \<noteq> 0" "(ucast (0xf0 OR (x AND 0x07)) :: u8) AND 0x10 \<noteq> 0"
    "(ucast (0xf0 OR (x AND 0x07)) :: u8) AND 0x08 = 0"
    "(ucast (0x80 OR (x AND 0x3f)) :: u8) AND 0xc0 = 0x80"
  unfolding and_tests and_cont unfolding byte_consts by (simp_all add: bit_simps bit_consts)

lemma join_bytes:
  fixes c :: u32
  shows "c \<le> 0x7ff \<Longrightarrow> push_bit 6 (drop_bit 6 c AND 0x1f) OR (c AND 0x3f) = c"
    and "c \<le> 0xffff \<Longrightarrow> push_bit 12 (drop_bit 12 c AND 0x0f) OR push_bit 6 (drop_bit 6 c AND 0x3f) OR (c AND 0x3f) = c"
    and "c \<le> 0x10ffff \<Longrightarrow> push_bit 18 (drop_bit 18 c AND 0x07) OR push_bit 12 (drop_bit 12 c AND 0x3f)
           OR push_bit 6 (drop_bit 6 c AND 0x3f) OR (c AND 0x3f) = c"
proof -
  have 1: "c \<le> 0x7ff \<Longrightarrow> bit c n \<Longrightarrow> n < 11" for n by (rule low_bits) (simp_all add: word_le_nat_alt)
  have 2: "c \<le> 0xffff \<Longrightarrow> bit c n \<Longrightarrow> n < 16" for n by (rule low_bits) (simp_all add: word_le_nat_alt)
  have 3: "c \<le> 0x10ffff \<Longrightarrow> bit c n \<Longrightarrow> n < 21" for n by (rule low_bits) (simp_all add: word_le_nat_alt)
  show "c \<le> 0x7ff \<Longrightarrow> push_bit 6 (drop_bit 6 c AND 0x1f) OR (c AND 0x3f) = c"
    unfolding byte_consts by (rule bit_word_eqI) (auto simp: bit_simps dest: 1)
  show "c \<le> 0xffff \<Longrightarrow> push_bit 12 (drop_bit 12 c AND 0x0f) OR push_bit 6 (drop_bit 6 c AND 0x3f) OR (c AND 0x3f) = c"
    unfolding byte_consts by (rule bit_word_eqI) (auto simp: bit_simps dest: 2)
  show "c \<le> 0x10ffff \<Longrightarrow> push_bit 18 (drop_bit 18 c AND 0x07) OR push_bit 12 (drop_bit 12 c AND 0x3f)
           OR push_bit 6 (drop_bit 6 c AND 0x3f) OR (c AND 0x3f) = c"
    unfolding byte_consts by (rule bit_word_eqI) (auto simp: bit_simps dest: 3)
qed

lemma ascii_byte:
  fixes c :: u32
  assumes "c \<le> 0x7f"
  shows "(ucast c :: u8) AND 0x80 = 0" "ucast (ucast c :: u8) = c"
proof -
  have hb: "bit c n \<Longrightarrow> n < 7" for n using assms by (intro low_bits[of c 7]) (simp_all add: word_le_nat_alt)
  show "(ucast c :: u8) AND 0x80 = 0" unfolding and_tests by (auto simp: bit_simps dest: hb)
  show "ucast (ucast c :: u8) = c" by (rule bit_word_eqI) (auto simp: bit_simps dest: hb)
qed

lemma nth_after: "(pre @ bs @ post) ! (length pre + i) = bs ! i" if "i < length bs"
  using that by (simp add: nth_append)

lemma cpt_from_to_utf8:
  assumes "unicode_cpt_to_utf8 c = Inr bs"
  shows "unicode_cpt_from_utf8 (pre @ bs @ post) (length pre) = Inr (c, length pre + length bs)"
proof -
  consider "c \<le> 0x7f" "bs = [ucast c]"
    | "c \<le> 0x7ff" "bs = [ucast (0xc0 OR (drop_bit 6 c AND 0x1f)), ucast (0x80 OR (c AND 0x3f))]"
    | "c \<le> 0xffff" "bs = [ucast (0xe0 OR (drop_bit 12 c AND 0x0f)), ucast (0x80 OR (drop_bit 6 c AND 0x3f)),
        ucast (0x80 OR (c AND 0x3f))]"
    | "c \<le> 0x10ffff" "bs = [ucast (0xf0 OR (drop_bit 18 c AND 0x07)), ucast (0x80 OR (drop_bit 12 c AND 0x3f)),
        ucast (0x80 OR (drop_bit 6 c AND 0x3f)), ucast (0x80 OR (c AND 0x3f))]"
    using assms unfolding unicode_cpt_to_utf8_def by (auto split: if_splits)
  note cases = this
  have nth: "(pre @ bs @ post) ! (length pre + i) = bs ! i" if "i < length bs" for i
    using nth_after[OF that] .
  have nth0: "(pre @ bs @ post) ! length pre = bs ! 0" if "bs \<noteq> []" using nth[of 0] that by simp
  show ?thesis
  proof (cases rule: cases)
    case 1
    then show ?thesis using nth0 ascii_byte[OF 1(1)] by (simp add: unicode_cpt_from_utf8_def)
  next
    case 2
    then show ?thesis using nth0 nth[of 1]
      by (simp add: unicode_cpt_from_utf8_def is_cont_def lead_bytes lead_tests join_bytes del: push_bit_and)
  next
    case 3
    then show ?thesis using nth0 nth[of 1] nth[of 2]
      by (simp add: unicode_cpt_from_utf8_def is_cont_def lead_bytes lead_tests join_bytes del: push_bit_and)
  next
    case 4
    then show ?thesis using nth0 nth[of 1] nth[of 2] nth[of 3]
      by (simp add: unicode_cpt_from_utf8_def is_cont_def lead_bytes lead_tests join_bytes del: push_bit_and)
  qed
qed

lemma cpt_to_utf8_nonempty: "unicode_cpt_to_utf8 c = Inr bs \<Longrightarrow> bs \<noteq> []"
  by (auto simp: unicode_cpt_to_utf8_def split: if_splits)

lemma cpts_from_to_loop:
  "map_res unicode_cpt_to_utf8 cps = Inr bss
   \<Longrightarrow> cpts_from_utf8_loop (pre @ concat bss) (length pre) acc = acc @ cps"
proof (induction cps arbitrary: bss pre acc)
  case Nil
  then show ?case by (simp add: cpts_from_utf8_loop.simps)
next
  case (Cons c cps)
  then obtain bs bss' where b: "unicode_cpt_to_utf8 c = Inr bs" "map_res unicode_cpt_to_utf8 cps = Inr bss'"
      "bss = bs # bss'" by auto
  have "cpts_from_utf8_loop (pre @ bs @ concat bss') (length pre) acc
      = cpts_from_utf8_loop (pre @ bs @ concat bss') (length pre + length bs) (acc @ [c])"
    using cpt_from_to_utf8[OF b(1), of pre "concat bss'"] cpt_to_utf8_nonempty[OF b(1)]
    by (subst cpts_from_utf8_loop.simps) simp
  also have "\<dots> = acc @ c # cps" using Cons.IH[OF b(2), of "pre @ bs" "acc @ [c]"] by simp
  finally show ?case using b(3) by simp
qed

section \<open>The stream decoder\<close>

lemma utf8_add_or: "push_bit 6 v + (x AND 0x3f) = push_bit 6 v OR (x AND 0x3f)" for v x :: u32
  unfolding byte_consts by (rule disjunctive_add) (auto simp: bit_simps)

lemma utf8_add_cont:
  "utf8_add v (ucast (0x80 OR (x AND 0x3f))) = push_bit 6 v OR (x AND 0x3f)" for v x :: u32
  by (simp add: utf8_add_def lead_bytes utf8_add_or)

definition cont_byte :: "u8 \<Rightarrow> bool" where
  "cont_byte b \<longleftrightarrow> b \<noteq> 0 \<and> drop_bit 6 b = 2"

lemma cont_byte_enc: "cont_byte (ucast (0x80 OR (x AND 0x3f)))" for x :: u32
proof -
  let ?b = "ucast (0x80 OR (x AND 0x3f)) :: u8"
  have b7: "bit ?b 7" by (simp add: bit_simps bit_consts)
  then have "?b \<noteq> 0" by auto
  moreover have "drop_bit 6 ?b = 2"
  proof (rule bit_word_eqI)
    fix n assume "n < LENGTH(8)"
    have two: "bit (2 :: int) n \<longleftrightarrow> n = 1" using bit_exp_iff[of 1 n, where 'a = int] by auto
    show "bit (drop_bit 6 ?b) n = bit (2 :: u8) n"
      unfolding byte_consts by (auto simp: bit_simps bit_consts two)
  qed
  ultimately show ?thesis by (simp add: cont_byte_def)
qed

lemma lead_masks:
  fixes x :: u32
  shows "ucast ((ucast (0xc0 OR (x AND 0x1f)) :: u8) AND low_mask 6) = x AND 0x1f"
    and "ucast ((ucast (0xe0 OR (x AND 0x0f)) :: u8) AND low_mask 5) = x AND 0x0f"
    and "ucast ((ucast (0xf0 OR (x AND 0x07)) :: u8) AND low_mask 4) = x AND 0x07"
proof -
  have m: "low_mask 6 = mask 6" "low_mask 5 = mask 5" "low_mask 4 = mask 4"
    by (simp_all add: low_mask_def mask_eq_exp_minus_1 push_bit_eq_mult)
  show "ucast ((ucast (0xc0 OR (x AND 0x1f)) :: u8) AND low_mask 6) = x AND 0x1f"
    and "ucast ((ucast (0xe0 OR (x AND 0x0f)) :: u8) AND low_mask 5) = x AND 0x0f"
    and "ucast ((ucast (0xf0 OR (x AND 0x07)) :: u8) AND low_mask 4) = x AND 0x07"
    unfolding m byte_consts by (rule bit_word_eqI; auto simp: bit_simps bit_consts)+
qed

lemma highbits:
  fixes x :: u32
  shows "drop_bit 4 (ucast (0xc0 OR (x AND 0x1f)) :: u8) = (if bit x 4 then 13 else 12)"
    and "drop_bit 4 (ucast (0xe0 OR (x AND 0x0f)) :: u8) = 14"
    and "drop_bit 4 (ucast (0xf0 OR (x AND 0x07)) :: u8) = 15"
proof -
  have c: "(12 :: u8) = push_bit 2 (mask 2)" "(14 :: u8) = push_bit 2 (mask 2) OR 2" "(15 :: u8) = mask 4"
    "(13 :: u8) = push_bit 2 (mask 2) OR mask 1"
    by (simp_all add: mask_eq_exp_minus_1 push_bit_eq_mult)
  have two: "bit (2 :: int) n \<longleftrightarrow> n = 1" for n using bit_exp_iff[of 1 n, where 'a = int] by auto
  show "drop_bit 4 (ucast (0xe0 OR (x AND 0x0f)) :: u8) = 14" "drop_bit 4 (ucast (0xf0 OR (x AND 0x07)) :: u8) = 15"
    unfolding c byte_consts by (rule bit_word_eqI; auto simp: bit_simps bit_consts two)+
  show "drop_bit 4 (ucast (0xc0 OR (x AND 0x1f)) :: u8) = (if bit x 4 then 13 else 12)"
  proof (rule bit_word_eqI)
    fix n assume "n < LENGTH(8)"
    have "n = 0 \<or> n \<ge> 1" by linarith
    then show "bit (drop_bit 4 (ucast (0xc0 OR (x AND 0x1f)) :: u8)) n = bit (if bit x 4 then 13 else 12 :: u8) n"
      unfolding c byte_consts by (auto simp: bit_simps bit_consts)
  qed
qed

lemma ascii_highbits:
  fixes c :: u32
  assumes "c \<le> 0x7f"
  shows "unat (drop_bit 4 (ucast c :: u8)) < 8" "ucast ((ucast c :: u8) AND low_mask 7) = c"
proof -
  have u: "unat (ucast c :: u8) = unat c" using assms
    by (simp add: word_le_nat_alt unsigned_ucast_eq take_bit_nat_eq_self)
  have "drop_bit 4 (unat c) < 8" using assms by (simp add: drop_bit_eq_div word_le_nat_alt)
  then show "unat (drop_bit 4 (ucast c :: u8)) < 8" by (simp only: unat_drop_bit_eq u)
  have hb: "bit c n \<Longrightarrow> n < 7" for n using assms by (intro low_bits[of c 7]) (simp_all add: word_le_nat_alt)
  have m: "low_mask 7 = mask 7" by (simp add: low_mask_def mask_eq_exp_minus_1 push_bit_eq_mult)
  show "ucast ((ucast c :: u8) AND low_mask 7) = c"
    unfolding m by (rule bit_word_eqI) (auto simp: bit_simps dest: hb)
qed

text \<open>An encoded character as the stream decoder sees it: a lead byte that tells how many bytes
  follow, and continuation bytes that add up to the code point.\<close>

definition char_bytes :: "u32 \<Rightarrow> u8 \<Rightarrow> u8 list \<Rightarrow> bool" where
  "char_bytes c b ks \<longleftrightarrow> b \<noteq> 0 \<and> list_all cont_byte ks
     \<and> stream_lookup ! unat (drop_bit 4 b) = int (length ks) + 1
     \<and> foldl utf8_add (ucast (b AND low_mask (nat (7 - int (length ks))))) ks = c"

lemma push_join:
  fixes a b d e :: u32
  shows "push_bit 6 (push_bit 6 a OR b) OR d = push_bit 12 a OR push_bit 6 b OR d"
    and "push_bit 6 (push_bit 12 a OR push_bit 6 b OR d) OR e = push_bit 18 a OR push_bit 12 b OR push_bit 6 d OR e"
  by (rule bit_word_eqI; auto simp: bit_simps)+

lemma char_bytes_enc:
  assumes "unicode_cpt_to_utf8 c = Inr bs" "c \<noteq> 0"
  obtains b ks where "bs = b # ks" "char_bytes c b ks"
proof -
  consider "c \<le> 0x7f" "bs = [ucast c]"
    | "c \<le> 0x7ff" "bs = [ucast (0xc0 OR (drop_bit 6 c AND 0x1f)), ucast (0x80 OR (c AND 0x3f))]"
    | "c \<le> 0xffff" "bs = [ucast (0xe0 OR (drop_bit 12 c AND 0x0f)), ucast (0x80 OR (drop_bit 6 c AND 0x3f)),
        ucast (0x80 OR (c AND 0x3f))]"
    | "c \<le> 0x10ffff" "bs = [ucast (0xf0 OR (drop_bit 18 c AND 0x07)), ucast (0x80 OR (drop_bit 12 c AND 0x3f)),
        ucast (0x80 OR (drop_bit 6 c AND 0x3f)), ucast (0x80 OR (c AND 0x3f))]"
    using assms unfolding unicode_cpt_to_utf8_def by (auto split: if_splits)
  then show ?thesis
  proof cases
    case 1
    have "(ucast c :: u8) \<noteq> 0" using ascii_byte(2)[OF 1(1)] assms(2) by auto
    moreover have "unat (drop_bit 4 (ucast c :: u8)) \<in> {0, 1, 2, 3, 4, 5, 6, 7}"
      using ascii_highbits(1)[OF 1(1)] by auto
    ultimately show ?thesis using 1(2) ascii_highbits(2)[OF 1(1)]
      by (intro that[of "ucast c" "[]"]) (auto simp: char_bytes_def stream_lookup_def)
  next
    case 2
    have "(ucast (0xc0 OR (drop_bit 6 c AND 0x1f)) :: u8) \<noteq> 0" using lead_tests(1)[of "drop_bit 6 c"] by auto
    moreover have "stream_lookup ! unat (drop_bit 4 (ucast (0xc0 OR (drop_bit 6 c AND 0x1f)) :: u8)) = 2"
      unfolding highbits by (simp add: stream_lookup_def)
    ultimately have "char_bytes c (ucast (0xc0 OR (drop_bit 6 c AND 0x1f))) [ucast (0x80 OR (c AND 0x3f))]"
      using join_bytes(1)[OF 2(1)] cont_byte_enc
      unfolding char_bytes_def by (simp add: lead_masks utf8_add_cont del: push_bit_and)
    then show ?thesis using 2(2) that by blast
  next
    case 3
    have "(ucast (0xe0 OR (drop_bit 12 c AND 0x0f)) :: u8) \<noteq> 0" using lead_tests(4)[of "drop_bit 12 c"] by auto
    moreover have "stream_lookup ! unat (drop_bit 4 (ucast (0xe0 OR (drop_bit 12 c AND 0x0f)) :: u8)) = 3"
      unfolding highbits by (simp add: stream_lookup_def)
    ultimately have "char_bytes c (ucast (0xe0 OR (drop_bit 12 c AND 0x0f)))
        [ucast (0x80 OR (drop_bit 6 c AND 0x3f)), ucast (0x80 OR (c AND 0x3f))]"
      using join_bytes(2)[OF 3(1)] cont_byte_enc
      unfolding char_bytes_def by (simp add: lead_masks utf8_add_cont push_join del: push_bit_and push_bit_or)
    then show ?thesis using 3(2) that by blast
  next
    case 4
    have "(ucast (0xf0 OR (drop_bit 18 c AND 0x07)) :: u8) \<noteq> 0" using lead_tests(8)[of "drop_bit 18 c"] by auto
    moreover have "stream_lookup ! unat (drop_bit 4 (ucast (0xf0 OR (drop_bit 18 c AND 0x07)) :: u8)) = 4"
      unfolding highbits by (simp add: stream_lookup_def)
    ultimately have "char_bytes c (ucast (0xf0 OR (drop_bit 18 c AND 0x07)))
        [ucast (0x80 OR (drop_bit 12 c AND 0x3f)), ucast (0x80 OR (drop_bit 6 c AND 0x3f)), ucast (0x80 OR (c AND 0x3f))]"
      using join_bytes(3)[OF 4(1)] cont_byte_enc
      unfolding char_bytes_def by (simp add: lead_masks utf8_add_cont push_join del: push_bit_and push_bit_or)
    then show ?thesis using 4(2) that by blast
  qed
qed

text \<open>The two loops over continuation bytes.\<close>

lemma utf8_cont_run:
  "list_all cont_byte ks \<Longrightarrow> int (length ks) \<le> n \<Longrightarrow> n = int (length ks) \<or> rest = []
   \<Longrightarrow> utf8_cont v n (ks @ rest) = (foldl utf8_add v ks, n - int (length ks), rest)"
proof (induction ks arbitrary: v n)
  case Nil
  then show ?case by (cases rest) auto
next
  case (Cons k ks)
  then show ?case using Cons.IH[of "n - 1" "utf8_add v k"] by (auto simp: cont_byte_def)
qed

lemma utf8_cont_checked_run:
  "list_all cont_byte ks \<Longrightarrow> int (length ks) \<le> n \<Longrightarrow> n = int (length ks) \<or> rest = []
   \<Longrightarrow> utf8_cont_checked v n (ks @ rest) = Some (foldl utf8_add v ks, n - int (length ks), rest)"
proof (induction ks arbitrary: v n)
  case Nil
  then show ?case by (cases rest) auto
next
  case (Cons k ks)
  then show ?case using Cons.IH[of "n - 1" "utf8_add v k"] by (auto simp: cont_byte_def)
qed

text \<open>A whole character is one step of the stream; an incomplete one at the end is left in the
  partial sequence.\<close>

lemma utf8_stream_char:
  assumes "char_bytes c b ks"
  shows "utf8_stream v n (b # ks @ rest) cps = utf8_stream c 0 rest (cps @ [c])"
proof -
  have l: "stream_lookup ! unat (drop_bit 4 b) - 1 = int (length ks)" "b \<noteq> 0" "list_all cont_byte ks"
      "foldl utf8_add (ucast (b AND low_mask (nat (7 - int (length ks))))) ks = c"
    using assms by (auto simp: char_bytes_def)
  show ?thesis using l utf8_cont_run[OF l(3) order_refl, of rest] by (simp add: Let_def)
qed

lemma utf8_stream_prefix:
  assumes "char_bytes c b (k1 @ k2)" "k2 \<noteq> []"
  shows "utf8_stream v n (b # k1) cps =
    (cps @ [0], \<lparr>pu_value = foldl utf8_add (ucast (b AND low_mask (nat (7 - int (length (k1 @ k2)))))) k1,
                 pu_n_remain = int (length k2)\<rparr>)"
proof -
  have l: "stream_lookup ! unat (drop_bit 4 b) - 1 = int (length k1) + int (length k2)" "b \<noteq> 0" "list_all cont_byte k1"
    using assms by (auto simp: char_bytes_def)
  show ?thesis using l utf8_cont_run[OF l(3), of "int (length k1) + int (length k2)" "[]"] assms(2)
    by (simp add: Let_def)
qed

lemma cpts_to_utf8_simps [simp]:
  "unicode_cpts_to_utf8 [] = Inr bs \<longleftrightarrow> bs = []"
  "unicode_cpts_to_utf8 (c # cps) = Inr bs
     \<longleftrightarrow> (\<exists>b1 b2. unicode_cpt_to_utf8 c = Inr b1 \<and> unicode_cpts_to_utf8 cps = Inr b2 \<and> bs = b1 @ b2)"
  by (auto simp: unicode_cpts_to_utf8_def)

text \<open>The state between two pieces: the bytes still to come complete the pending character, if there
  is one, and encode the remaining code points.\<close>

inductive stream_state :: "llama_partial_utf8 \<Rightarrow> u32 list \<Rightarrow> u8 list \<Rightarrow> bool" where
  at_char: "pu_n_remain p = 0 \<Longrightarrow> unicode_cpts_to_utf8 cps = Inr bs \<Longrightarrow> stream_state p cps bs"
| in_char: "char_bytes c b (k1 @ k2) \<Longrightarrow> k2 \<noteq> [] \<Longrightarrow> pu_n_remain p = int (length k2)
    \<Longrightarrow> pu_value p = foldl utf8_add (ucast (b AND low_mask (nat (7 - int (length (k1 @ k2)))))) k1
    \<Longrightarrow> unicode_cpts_to_utf8 cps = Inr bs \<Longrightarrow> stream_state p (c # cps) (k2 @ bs)"

lemma append_split:
  assumes "xs @ ys = ks @ bs"
  obtains (inside) k2 where "ks = xs @ k2" "ys = k2 @ bs" "k2 \<noteq> []" | (beyond) us where "xs = ks @ us" "us @ ys = bs"
proof (cases "length xs < length ks")
  case True
  then have "xs = take (length xs) ks" "ys = drop (length xs) ks @ bs"
    using assms by (auto simp: append_eq_append_conv_if split: if_splits)
  moreover from this(1) have "ks = xs @ drop (length xs) ks" by (metis append_take_drop_id)
  ultimately show ?thesis using True by (intro inside) auto
next
  case False
  then have "ks = take (length ks) xs" "drop (length ks) xs @ ys = bs"
    using assms by (auto simp: append_eq_append_conv_if split: if_splits)
  moreover from this(1) have "xs = ks @ drop (length ks) xs" by (metis append_take_drop_id)
  ultimately show ?thesis by (intro beyond)
qed

lemma utf8_stream_split:
  "0 \<notin> set cps \<Longrightarrow> unicode_cpts_to_utf8 cps = Inr (xs @ ys) \<Longrightarrow>
   \<exists>c1 c2 p. utf8_stream v 0 xs acc = (acc @ c1 @ [0], p) \<and> cps = c1 @ c2 \<and> stream_state p c2 ys"
proof (induction cps arbitrary: xs v acc)
  case Nil
  then show ?case by (auto intro!: at_char)
next
  case (Cons c cps)
  show ?case
  proof (cases xs)
    case Nil
    then show ?thesis using Cons.prems by (intro exI[of _ "[]"] exI[of _ "c # cps"]) (auto intro!: at_char)
  next
    case (Cons x xs')
    obtain b1 b2 where b: "unicode_cpt_to_utf8 c = Inr b1" "unicode_cpts_to_utf8 cps = Inr b2" "xs @ ys = b1 @ b2"
      using Cons.prems by auto
    obtain k ks where k: "b1 = k # ks" "char_bytes c k ks"
      using char_bytes_enc[OF b(1)] Cons.prems(1) by auto
    have xs': "xs = k # xs'" "xs' @ ys = ks @ b2" using b(3) k(1) Cons by auto
    from xs'(2) show ?thesis
    proof (cases rule: append_split)
      case 1: (inside k2)
      have "stream_state \<lparr>pu_value = foldl utf8_add (ucast (k AND low_mask (nat (7 - int (length (xs' @ k2)))))) xs',
                 pu_n_remain = int (length k2)\<rparr> (c # cps) (k2 @ b2)"
        using 1 k(2) b(2) by (intro in_char) auto
      then show ?thesis using utf8_stream_prefix[of c k xs' k2 v 0 acc] 1 k(2) xs'(1)
        by (intro exI[of _ "[]"] exI[of _ "c # cps"]) auto
    next
      case 2: (beyond us)
      obtain c1 c2 p where "utf8_stream c 0 us (acc @ [c]) = ((acc @ [c]) @ c1 @ [0], p)" "cps = c1 @ c2"
          "stream_state p c2 ys"
        using Cons.IH[of us c "acc @ [c]"] Cons.prems(1) b(2) 2(2) by auto
      then show ?thesis using utf8_stream_char[OF k(2), of v 0 us acc] 2(1) xs'(1)
        by (intro exI[of _ "c # c1"] exI[of _ c2]) auto
    qed
  qed
qed

lemma decode_utf8_split:
  assumes "stream_state p cps (xs @ ys)" "0 \<notin> set cps"
  shows "\<exists>c1 c2 p'. decode_utf8 xs p = (c1 @ [0], p') \<and> cps = c1 @ c2 \<and> stream_state p' c2 ys"
  using assms(1)
proof cases
  case at_char
  then have "utf8_cont_checked (pu_value p) (pu_n_remain p) xs = Some (pu_value p, 0, xs)" by (cases xs) auto
  then show ?thesis using utf8_stream_split[OF assms(2) at_char(2), of "pu_value p" "[]"] at_char(1)
    by (auto simp: decode_utf8_def)
next
  case (in_char c b k1 k2 cps' bs)
  have cont: "list_all cont_byte k2" and c: "foldl utf8_add (pu_value p) k2 = c"
    using in_char(3,6) by (auto simp: char_bytes_def)
  from in_char(2) show ?thesis
  proof (cases rule: append_split)
    case 1: (inside k3)
    have "stream_state \<lparr>pu_value = foldl utf8_add (pu_value p) xs, pu_n_remain = int (length k3)\<rparr> (c # cps') (k3 @ bs)"
      using 1 in_char by (intro stream_state.in_char[of c b "k1 @ xs" k3]) auto
    moreover have "utf8_cont_checked (pu_value p) (pu_n_remain p) xs
        = Some (foldl utf8_add (pu_value p) xs, int (length k3), [])"
      using utf8_cont_checked_run[of xs "pu_n_remain p" "[]" "pu_value p"] cont 1(1) in_char(5) by simp
    ultimately show ?thesis using 1 in_char(1)
      by (intro exI[of _ "[]"] exI[of _ "c # cps'"]) (auto simp: decode_utf8_def)
  next
    case 2: (beyond us)
    have "utf8_cont_checked (pu_value p) (pu_n_remain p) xs = Some (c, 0, us)"
      using utf8_cont_checked_run[of k2 "pu_n_remain p" us "pu_value p"] cont c 2(1) in_char(5) by simp
    moreover obtain c1 c2 p' where "utf8_stream c 0 us [c] = ([c] @ c1 @ [0], p')" "cps' = c1 @ c2"
        "stream_state p' c2 ys"
      using utf8_stream_split[of cps' us ys c "[c]"] assms(2) in_char(1,7) 2(2) by auto
    ultimately show ?thesis using in_char(1,4,5)
      by (intro exI[of _ "c # c1"] exI[of _ c2] exI[of _ p']) (auto simp: decode_utf8_def)
  qed
qed

section \<open>Properties\<close>

text \<open>C29: Decoding what the encoder produced gives the code points back: no replacement character is
  introduced and no code point is lost.\<close>

theorem utf8_roundtrip:
  assumes "unicode_cpts_to_utf8 cps = Inr bs"
  shows "unicode_cpts_from_utf8 bs = cps"
proof -
  obtain bss where "map_res unicode_cpt_to_utf8 cps = Inr bss" "bs = concat bss"
    using assms by (auto simp: unicode_cpts_to_utf8_def)
  then show ?thesis using cpts_from_to_loop[of cps bss "[]" "[]"] by (simp add: unicode_cpts_from_utf8_def)
qed

theorem utf8_roundtrip_witness:
  "unicode_cpts_to_utf8 [0x24, 0xe9, 0x20ac, 0x1f600]
     = Inr [0x24, 0xc3, 0xa9, 0xe2, 0x82, 0xac, 0xf0, 0x9f, 0x98, 0x80]
   \<and> unicode_cpts_from_utf8 [0x24, 0xc3, 0xa9, 0xe2, 0x82, 0xac, 0xf0, 0x9f, 0x98, 0x80]
     = [0x24, 0xe9, 0x20ac, 0x1f600]"
proof -
  have "unicode_cpts_to_utf8 [0x24, 0xe9, 0x20ac, 0x1f600]
     = Inr [0x24, 0xc3, 0xa9, 0xe2, 0x82, 0xac, 0xf0, 0x9f, 0x98, 0x80]" by code_simp
  with utf8_roundtrip[OF this] show ?thesis by blast
qed

text \<open>The code points of a sequence of pieces, each decoded from where the previous one stopped; the
  terminating 0 of each piece is dropped, as \<open>llama_grammar_accept_str\<close> does.\<close>

fun decode_pieces :: "u8 list list \<Rightarrow> llama_partial_utf8 \<Rightarrow> u32 list \<times> llama_partial_utf8" where
  "decode_pieces [] p = ([], p)"
| "decode_pieces (x # xs) p =
     (case decode_utf8 x p of (cps, p1) \<Rightarrow>
        (case decode_pieces xs p1 of (cps', p2) \<Rightarrow> (butlast cps @ cps', p2)))"

lemma decode_pieces_state:
  "stream_state p cps (concat xs) \<Longrightarrow> 0 \<notin> set cps \<Longrightarrow>
   \<exists>p'. decode_pieces xs p = (cps, p') \<and> pu_n_remain p' = 0"
proof (induction xs arbitrary: p cps)
  case Nil
  from Nil(1) have "pu_n_remain p = 0 \<and> unicode_cpts_to_utf8 cps = Inr []" by cases auto
  moreover from this have "cps = []" by (cases cps) (auto dest: cpt_to_utf8_nonempty)
  ultimately show ?case by simp
next
  case (Cons x xs)
  obtain c1 c2 p1 where 1: "decode_utf8 x p = (c1 @ [0], p1)" "cps = c1 @ c2" "stream_state p1 c2 (concat xs)"
    using decode_utf8_split[of p cps x "concat xs"] Cons.prems by auto
  with Cons.IH[OF 1(3)] Cons.prems(2) show ?case by auto
qed

text \<open>C30: However a valid UTF-8 text without 0 is cut into pieces, even in the middle of characters,
  decoding the pieces one after the other gives exactly the code points of the text and
  leaves no incomplete sequence behind.\<close>

theorem decode_utf8_any_split:
  assumes "unicode_cpts_to_utf8 cps = Inr (concat pieces)" "0 \<notin> set cps"
  shows "\<exists>p'. decode_pieces pieces \<lparr>pu_value = 0, pu_n_remain = 0\<rparr> = (cps, p') \<and> pu_n_remain p' = 0"
  using assms by (intro decode_pieces_state) (auto intro!: at_char)

theorem decode_utf8_any_split_witness:
  "unicode_cpts_to_utf8 [0xe9, 0x1f600] = Inr (concat [[0xc3], [0xa9, 0xf0, 0x9f], [], [0x98, 0x80]])
   \<and> 0 \<notin> set [0xe9, 0x1f600 :: u32]
   \<and> (\<exists>p'. decode_pieces [[0xc3], [0xa9, 0xf0, 0x9f], [], [0x98, 0x80]] \<lparr>pu_value = 0, pu_n_remain = 0\<rparr>
        = ([0xe9, 0x1f600], p') \<and> pu_n_remain p' = 0)"
proof -
  have "unicode_cpts_to_utf8 [0xe9, 0x1f600] = Inr (concat [[0xc3], [0xa9, 0xf0, 0x9f], [], [0x98, 0x80]])"
    "0 \<notin> set [0xe9, 0x1f600 :: u32]" by code_simp+
  with decode_utf8_any_split[OF this] show ?thesis by blast
qed

end
