(* ===== verification/Grammar_Engine.thy ===== *)
theory Grammar_Engine
  imports Utf8
begin

text \<open>
  The grammar engine (\<open>src/llm/llama.cpp/src/llama-grammar.h\<close> and lines 598-904 of
  \<open>llama-grammar.cpp\<close>): a set of pushdown stacks over the compiled rules, advanced by code points.

  A pointer to an element is a pair (rule, offset); reading past the end of a rule, which the
  code never does on rules that end in \<open>END\<close>, gives an \<open>END\<close> element. A stack is a list whose head
  is the top (the source's \<open>back()\<close>). \<open>llama_grammar_advance_stack\<close> recurses without a bound, so its
  model takes fuel and returns \<open>Diverge\<close> when it runs out.
\<close>

section \<open>Elements, rules and stacks\<close>

datatype llama_gretype =
    GRE_END | GRE_ALT | GRE_RULE_REF | GRE_CHAR | GRE_CHAR_NOT | GRE_CHAR_RNG_UPPER | GRE_CHAR_ALT | GRE_CHAR_ANY

datatype llama_grammar_element = GE (ge_type: llama_gretype) (ge_value: u32)

type_synonym llama_grammar_rule = "llama_grammar_element list"
type_synonym llama_grammar_rules = "llama_grammar_rule list"
type_synonym gptr = "nat \<times> nat"
type_synonym llama_grammar_stack = "gptr list"
type_synonym llama_grammar_stacks = "llama_grammar_stack list"

definition gr_at :: "llama_grammar_rules \<Rightarrow> gptr \<Rightarrow> llama_grammar_element" where
  "gr_at rules p = (if fst p < length rules \<and> snd p < length (rules ! fst p)
                    then rules ! fst p ! snd p else GE GRE_END 0)"

definition gr_from :: "llama_grammar_rules \<Rightarrow> gptr \<Rightarrow> llama_grammar_element list" where
  "gr_from rules p = (if fst p < length rules then drop (snd p) (rules ! fst p) else [])"

fun gr_adv :: "gptr \<Rightarrow> nat \<Rightarrow> gptr" where
  "gr_adv (r, i) n = (r, i + n)"

definition is_end_type :: "llama_gretype \<Rightarrow> bool" where
  "is_end_type t \<longleftrightarrow> t = GRE_END \<or> t = GRE_ALT"

definition llama_grammar_is_end_of_sequence :: "llama_grammar_rules \<Rightarrow> gptr \<Rightarrow> bool" where
  "llama_grammar_is_end_of_sequence rules p = is_end_type (ge_type (gr_at rules p))"

section \<open>Matching a code point\<close>

text \<open>The loop of \<open>llama_grammar_match_char\<close> over the elements from \<open>pos\<close>: whether the code point was
  found, and how many elements the character class takes.\<close>

definition next_is :: "llama_gretype \<Rightarrow> llama_grammar_element list \<Rightarrow> bool" where
  "next_is t es = (case es of [] \<Rightarrow> False | e # _ \<Rightarrow> ge_type e = t)"

fun gr_scan :: "llama_grammar_element list \<Rightarrow> u32 \<Rightarrow> bool \<Rightarrow> bool \<times> nat" where
  "gr_scan [] chr found = (found, 0)"
| "gr_scan (e # es) chr found =
     (if next_is GRE_CHAR_RNG_UPPER es then
        (let found = (found \<or> (ge_value e \<le> chr \<and> chr \<le> ge_value (hd es))) in
         if next_is GRE_CHAR_ALT (tl es)
         then (case gr_scan (tl es) chr found of (f, n) \<Rightarrow> (f, n + 2))
         else (found, 2))
      else
        (let found = (if ge_type e = GRE_CHAR_ANY then True else found \<or> ge_value e = chr) in
         if next_is GRE_CHAR_ALT es
         then (case gr_scan es chr found of (f, n) \<Rightarrow> (f, n + 1))
         else (found, 1)))"

definition is_positive_char :: "llama_grammar_element \<Rightarrow> bool" where
  "is_positive_char e \<longleftrightarrow> ge_type e = GRE_CHAR \<or> ge_type e = GRE_CHAR_ANY"

definition llama_grammar_match_char ::
  "llama_grammar_rules \<Rightarrow> gptr \<Rightarrow> u32 \<Rightarrow> (bool \<times> gptr) res" where
  "llama_grammar_match_char rules pos chr =
     (let e = gr_at rules pos in
      if is_positive_char e \<or> ge_type e = GRE_CHAR_NOT then
        (case gr_scan (gr_from rules pos) chr False of
           (found, n) \<Rightarrow> Inr (found = is_positive_char e, gr_adv pos n))
      else Inl GgmlAbort)"

fun gr_scan_partial :: "llama_grammar_element list \<Rightarrow> u32 \<Rightarrow> u32 \<Rightarrow> bool \<Rightarrow> bool" where
  "gr_scan_partial [] low high pc = (\<not> pc)"
| "gr_scan_partial (e # es) low high pc =
     (if next_is GRE_CHAR_RNG_UPPER es then
        (if ge_value e \<le> high \<and> low \<le> ge_value (hd es) then pc
         else if next_is GRE_CHAR_ALT (tl es) then gr_scan_partial (tl es) low high pc
         else \<not> pc)
      else if ge_type e = GRE_CHAR_ANY then True
      else if low \<le> ge_value e \<and> ge_value e \<le> high then pc
      else if next_is GRE_CHAR_ALT es then gr_scan_partial es low high pc
      else \<not> pc)"

definition llama_grammar_match_partial_char ::
  "llama_grammar_rules \<Rightarrow> gptr \<Rightarrow> llama_partial_utf8 \<Rightarrow> bool res" where
  "llama_grammar_match_partial_char rules pos pu =
     (let e = gr_at rules pos in
      if is_positive_char e \<or> ge_type e = GRE_CHAR_NOT then
        (let partial_value = pu_value pu; n_remain = pu_n_remain pu in
         if n_remain < 0 \<or> (n_remain = 1 \<and> partial_value < 2) then Inr False
         else (let low = push_bit (nat n_remain * 6) partial_value;
                   high = low OR (push_bit (nat n_remain * 6) 1 - 1);
                   low = (if low = 0 then
                            (if n_remain = 2 then push_bit 11 1
                             else if n_remain = 3 then push_bit 16 1 else low)
                          else low)
               in Inr (gr_scan_partial (gr_from rules pos) low high (is_positive_char e))))
      else Inl GgmlAbort)"

section \<open>Advancing stacks\<close>

text \<open>The offsets at which the alternates of a rule start: the scan for the next \<open>ALT\<close>.\<close>

fun alt_starts_after :: "nat \<Rightarrow> llama_grammar_element list \<Rightarrow> nat list" where
  "alt_starts_after i [] = []"
| "alt_starts_after i (e # es) =
     (if ge_type e = GRE_ALT then Suc i # alt_starts_after (Suc i) es
      else if ge_type e = GRE_END then []
      else alt_starts_after (Suc i) es)"

definition alt_starts :: "llama_grammar_element list \<Rightarrow> nat list" where
  "alt_starts es = 0 # alt_starts_after 0 es"

definition add_stack :: "llama_grammar_stack \<Rightarrow> llama_grammar_stacks \<Rightarrow> llama_grammar_stacks" where
  "add_stack st new_stacks = (if st \<in> set new_stacks then new_stacks else new_stacks @ [st])"

definition push_unless_end :: "llama_grammar_rules \<Rightarrow> gptr \<Rightarrow> llama_grammar_stack \<Rightarrow> llama_grammar_stack" where
  "push_unless_end rules p st = (if llama_grammar_is_end_of_sequence rules p then st else p # st)"

fun llama_grammar_advance_stack ::
  "nat \<Rightarrow> llama_grammar_rules \<Rightarrow> llama_grammar_stack \<Rightarrow> llama_grammar_stacks \<Rightarrow> llama_grammar_stacks res" where
  "llama_grammar_advance_stack 0 rules stack new_stacks = Inl Diverge"
| "llama_grammar_advance_stack (Suc fuel) rules [] new_stacks = Inr (add_stack [] new_stacks)"
| "llama_grammar_advance_stack (Suc fuel) rules (pos # rest) new_stacks =
     (case ge_type (gr_at rules pos) of
        GRE_RULE_REF \<Rightarrow>
          (let rule_id = unat (ge_value (gr_at rules pos)) in
           if rule_id < length rules then
             fold_res (\<lambda>subpos. llama_grammar_advance_stack fuel rules
                 (push_unless_end rules (rule_id, subpos) (push_unless_end rules (gr_adv pos 1) rest)))
               (alt_starts (rules ! rule_id)) new_stacks
           else Inl Undef)
      | GRE_CHAR \<Rightarrow> Inr (add_stack (pos # rest) new_stacks)
      | GRE_CHAR_NOT \<Rightarrow> Inr (add_stack (pos # rest) new_stacks)
      | GRE_CHAR_ANY \<Rightarrow> Inr (add_stack (pos # rest) new_stacks)
      | _ \<Rightarrow> Inl GgmlAbort)"

text \<open>\<open>llama_grammar_accept\<close>: every stack whose top matches the code point is advanced.\<close>

definition accept_one ::
  "nat \<Rightarrow> llama_grammar_rules \<Rightarrow> u32 \<Rightarrow> llama_grammar_stack \<Rightarrow> llama_grammar_stacks \<Rightarrow> llama_grammar_stacks res" where
  "accept_one fuel rules chr stack stacks_new =
     (case stack of
        [] \<Rightarrow> Inr stacks_new
      | pos # rest \<Rightarrow>
          bind_res (llama_grammar_match_char rules pos chr) (\<lambda>(matched, pos').
            if matched
            then llama_grammar_advance_stack fuel rules (push_unless_end rules pos' rest) stacks_new
            else Inr stacks_new))"

definition llama_grammar_accept ::
  "nat \<Rightarrow> llama_grammar_rules \<Rightarrow> llama_grammar_stacks \<Rightarrow> u32 \<Rightarrow> llama_grammar_stacks res" where
  "llama_grammar_accept fuel rules stacks chr = fold_res (accept_one fuel rules chr) stacks []"

text \<open>The initial stacks: one per alternate of the start rule (lines 938-958 and 1034-1054).\<close>

definition init_stacks :: "nat \<Rightarrow> llama_grammar_rules \<Rightarrow> nat \<Rightarrow> llama_grammar_stacks res" where
  "init_stacks fuel rules start =
     fold_res (\<lambda>pos. llama_grammar_advance_stack fuel rules (push_unless_end rules (start, pos) []))
       (alt_starts (rules ! start)) []"

end
