(* ===== verification/Grammar_Lang.thy ===== *)
theory Grammar_Lang
  imports Grammar_Engine
begin

text \<open>
  What the grammar engine is meant to compute: the rules as a context-free grammar over code
  points, with leftmost derivations, and the proof that the engine's stacks after a string of
  code points hold the empty stack exactly when the grammar derives the string.
\<close>

section \<open>The grammar the rules denote\<close>

text \<open>A symbol is a rule or a character class: a list of inclusive ranges, negated or not.\<close>

datatype gsym = NT nat | T bool "(u32 \<times> u32) list"

definition class_in :: "bool \<Rightarrow> (u32 \<times> u32) list \<Rightarrow> u32 \<Rightarrow> bool" where
  "class_in pc rs c \<longleftrightarrow> ((\<exists>(lo, hi) \<in> set rs. lo \<le> c \<and> c \<le> hi) \<longleftrightarrow> pc)"

text \<open>One item of a class (a range, the dot, or a single code point) and the elements it takes.\<close>

definition class_item :: "llama_grammar_element list \<Rightarrow> (u32 \<times> u32) \<times> llama_grammar_element list" where
  "class_item es =
     (if next_is GRE_CHAR_RNG_UPPER (tl es) then ((ge_value (hd es), ge_value (hd (tl es))), tl (tl es))
      else if ge_type (hd es) = GRE_CHAR_ANY then ((0, -1), tl es)
      else ((ge_value (hd es), ge_value (hd es)), tl es))"

lemma class_item_shorter: "es \<noteq> [] \<Longrightarrow> length (snd (class_item es)) < length es"
  by (cases es) (auto simp: class_item_def)

function class_items :: "llama_grammar_element list \<Rightarrow> (u32 \<times> u32) list \<times> llama_grammar_element list" where
  "class_items es =
     (if es = [] then ([], [])
      else (let (r, rest) = class_item es in
            if next_is GRE_CHAR_ALT rest
            then (let (rs, rest') = class_items rest in (r # rs, rest'))
            else ([r], rest)))"
  by pat_completeness auto
termination
  by (relation "measure length") (simp_all, metis class_item_shorter snd_conv)

declare class_items.simps [simp del]

lemma class_items_alt:
  "es \<noteq> [] \<Longrightarrow> class_item es = (r, rest) \<Longrightarrow> next_is GRE_CHAR_ALT rest
   \<Longrightarrow> class_items es = (r # fst (class_items rest), snd (class_items rest))"
  by (subst class_items.simps) (simp add: case_prod_beta)

lemma class_items_last:
  "es \<noteq> [] \<Longrightarrow> class_item es = (r, rest) \<Longrightarrow> \<not> next_is GRE_CHAR_ALT rest \<Longrightarrow> class_items es = ([r], rest)"
  by (subst class_items.simps) simp

lemma class_items_shorter: "es \<noteq> [] \<Longrightarrow> length (snd (class_items es)) < length es"
proof (induction es rule: class_items.induct)
  case (1 es)
  obtain r rest where i: "class_item es = (r, rest)" by fastforce
  have lt: "length rest < length es" using class_item_shorter[OF 1(2)] i by simp
  show ?case
  proof (cases "next_is GRE_CHAR_ALT rest")
    case True
    then have "rest \<noteq> []" by (auto simp: next_is_def)
    with 1(1)[OF 1(2) i[symmetric] refl True] lt have "length (snd (class_items rest)) < length es" by simp
    then show ?thesis using class_items_alt[OF 1(2) i True] by simp
  next
    case False
    then show ?thesis using class_items_last[OF 1(2) i] lt by simp
  qed
qed

text \<open>The symbols of one alternate: the elements up to the next \<open>ALT\<close> or \<open>END\<close>.\<close>

function sym_seq :: "llama_grammar_element list \<Rightarrow> gsym list" where
  "sym_seq [] = []"
| "sym_seq (e # es) =
     (if is_end_type (ge_type e) then []
      else if ge_type e = GRE_RULE_REF then NT (unat (ge_value e)) # sym_seq es
      else (case class_items (e # es) of
              (rs, rest) \<Rightarrow> T (is_positive_char e) rs # sym_seq rest))"
  by pat_completeness auto
termination
proof (relation "measure length")
  fix e es rs rest
  assume "(rs, rest) = class_items (e # es)"
  then show "(rest, e # es) \<in> measure length"
    using class_items_shorter[of "e # es"] by (metis in_measure list.distinct(1) snd_conv)
qed simp_all

fun split_alts :: "llama_grammar_element list \<Rightarrow> llama_grammar_element list list" where
  "split_alts [] = [[]]"
| "split_alts (e # es) =
     (if ge_type e = GRE_END then [[]]
      else if ge_type e = GRE_ALT then [] # split_alts es
      else (case split_alts es of [] \<Rightarrow> [[e]] | a # as \<Rightarrow> (e # a) # as))"

definition alternatives :: "llama_grammar_rules \<Rightarrow> nat \<Rightarrow> gsym list list" where
  "alternatives rules r = map sym_seq (split_alts (rules ! r))"

inductive derives :: "llama_grammar_rules \<Rightarrow> gsym list \<Rightarrow> u32 list \<Rightarrow> bool" for rules where
  derives_Nil: "derives rules [] []"
| derives_T: "class_in pc rs c \<Longrightarrow> derives rules ss w \<Longrightarrow> derives rules (T pc rs # ss) (c # w)"
| derives_NT: "r < length rules \<Longrightarrow> a \<in> set (alternatives rules r) \<Longrightarrow> derives rules (a @ ss) w
    \<Longrightarrow> derives rules (NT r # ss) w"

inductive_simps derives_Nil_iff [simp]: "derives rules [] w"
inductive_simps derives_T_iff: "derives rules (T pc rs # ss) w"
inductive_simps derives_NT_iff: "derives rules (NT r # ss) w"

text \<open>Leftmost derivations compose as derivation trees do.\<close>

lemma derives_append:
  "derives rules ss w \<Longrightarrow> derives rules ts v \<Longrightarrow> derives rules (ss @ ts) (w @ v)"
proof (induction rule: derives.induct)
  case (derives_NT r a ss w)
  then show ?case using derives.derives_NT[of r rules a "ss @ ts" "w @ v"] by simp
qed (auto intro: derives.intros)

lemma derives_split:
  "derives rules xs w \<Longrightarrow> xs = ss @ ts \<Longrightarrow> \<exists>u v. w = u @ v \<and> derives rules ss u \<and> derives rules ts v"
proof (induction arbitrary: ss rule: derives.induct)
  case derives_Nil
  then show ?case by simp
next
  case (derives_T pc rs c ss' w)
  show ?case
  proof (cases ss)
    case Nil
    then show ?thesis using derives_T.prems derives_T.hyps
      by (intro exI[of _ "[]"] exI[of _ "c # w"]) (auto intro: derives.intros)
  next
    case (Cons s ss1)
    with derives_T obtain u v where "w = u @ v" "derives rules ss1 u" "derives rules ts v" by fastforce
    with Cons derives_T show ?thesis
      by (intro exI[of _ "c # u"] exI[of _ v]) (auto intro: derives.intros)
  qed
next
  case (derives_NT r a ss' w)
  show ?case
  proof (cases ss)
    case Nil
    then show ?thesis using derives_NT.prems derives_NT.hyps
      by (intro exI[of _ "[]"] exI[of _ w]) (auto intro: derives.intros)
  next
    case (Cons s ss1)
    with derives_NT have "a @ ss' = (a @ ss1) @ ts" by simp
    with derives_NT.IH obtain u v where "w = u @ v" "derives rules (a @ ss1) u" "derives rules ts v" by blast
    with Cons derives_NT show ?thesis
      by (intro exI[of _ u] exI[of _ v]) (auto intro: derives.intros)
  qed
qed

section \<open>Well-formed rules\<close>

text \<open>Every rule ends in \<open>END\<close>, refers to existing rules, and has range ends and further class items
  only inside a class. The state is 0 outside a class, 1 after a class item, 2 after a range end.\<close>

fun elems_ok :: "nat \<Rightarrow> nat \<Rightarrow> llama_grammar_element list \<Rightarrow> bool" where
  "elems_ok n st [] = False"
| "elems_ok n st (e # es) =
     (case ge_type e of
        GRE_END \<Rightarrow> es = []
      | GRE_ALT \<Rightarrow> elems_ok n 0 es
      | GRE_RULE_REF \<Rightarrow> unat (ge_value e) < n \<and> elems_ok n 0 es
      | GRE_CHAR \<Rightarrow> elems_ok n 1 es
      | GRE_CHAR_NOT \<Rightarrow> elems_ok n 1 es
      | GRE_CHAR_ANY \<Rightarrow> elems_ok n 1 es
      | GRE_CHAR_RNG_UPPER \<Rightarrow> st = 1 \<and> elems_ok n 2 es
      | GRE_CHAR_ALT \<Rightarrow> st \<noteq> 0 \<and> elems_ok n 1 es)"

definition rules_ok :: "llama_grammar_rules \<Rightarrow> bool" where
  "rules_ok rules \<longleftrightarrow> (\<forall>es \<in> set rules. elems_ok (length rules) 0 es)"


lemma elems_ok_weaken: "elems_ok n 2 es \<Longrightarrow> elems_ok n 1 es"
  by (cases es) (auto split: llama_gretype.splits)

lemma elems_ok_weaken0: "elems_ok n 0 es \<Longrightarrow> elems_ok n st es"
  by (cases es) (auto split: llama_gretype.splits)

lemma elems_ok_strengthen:
  "elems_ok n st es \<Longrightarrow> \<not> next_is GRE_CHAR_ALT es \<Longrightarrow> st = 2 \<or> \<not> next_is GRE_CHAR_RNG_UPPER es
   \<Longrightarrow> elems_ok n 0 es"
  by (cases es) (auto simp: next_is_def split: llama_gretype.splits)

definition starts_item :: "llama_gretype \<Rightarrow> bool" where
  "starts_item t \<longleftrightarrow> t = GRE_CHAR \<or> t = GRE_CHAR_NOT \<or> t = GRE_CHAR_ANY \<or> t = GRE_CHAR_ALT"

definition is_char_type :: "llama_gretype \<Rightarrow> bool" where
  "is_char_type t \<longleftrightarrow> t = GRE_CHAR \<or> t = GRE_CHAR_NOT \<or> t = GRE_CHAR_ANY"

lemma class_item_ok:
  assumes "elems_ok n st (e # es)" "starts_item (ge_type e)"
  shows "elems_ok n 1 (snd (class_item (e # es)))"
    and "\<not> next_is GRE_CHAR_RNG_UPPER (snd (class_item (e # es))) \<or> elems_ok n 2 (snd (class_item (e # es)))"
proof -
  have 1: "elems_ok n 1 es" using assms by (auto simp: starts_item_def)
  show "elems_ok n 1 (snd (class_item (e # es)))"
    and "\<not> next_is GRE_CHAR_RNG_UPPER (snd (class_item (e # es))) \<or> elems_ok n 2 (snd (class_item (e # es)))"
    using 1 elems_ok_weaken by (auto simp: class_item_def next_is_def split: list.splits)
qed

lemma class_items_ok:
  "elems_ok n st es \<Longrightarrow> starts_item (ge_type (hd es)) \<Longrightarrow> elems_ok n 0 (snd (class_items es))"
proof (induction es arbitrary: st rule: class_items.induct)
  case (1 es)
  then obtain e es' where es: "es = e # es'" by (cases es) auto
  obtain r rest where i: "class_item es = (r, rest)" by fastforce
  have ok: "elems_ok n 1 rest" "\<not> next_is GRE_CHAR_RNG_UPPER rest \<or> elems_ok n 2 rest"
    using class_item_ok[of n st e es'] 1(2,3) i es by auto
  show ?case
  proof (cases "next_is GRE_CHAR_ALT rest")
    case True
    then have "starts_item (ge_type (hd rest))" by (cases rest) (auto simp: next_is_def starts_item_def)
    then have "elems_ok n 0 (snd (class_items rest))"
      using 1(1)[OF _ i[symmetric] refl True ok(1)] es by simp
    then show ?thesis using class_items_alt[OF _ i True] es by simp
  next
    case False
    then have "elems_ok n 0 rest" using ok elems_ok_strengthen by blast
    then show ?thesis using class_items_last[OF _ i False] es by simp
  qed
qed

section \<open>Matching one code point\<close>

lemma gr_scan_items:
  "gr_scan es c found =
     (found \<or> (\<exists>(lo, hi) \<in> set (fst (class_items es)). lo \<le> c \<and> c \<le> hi),
      length es - length (snd (class_items es)))
   \<and> snd (class_items es) = drop (length es - length (snd (class_items es))) es"
proof (induction es c found rule: gr_scan.induct)
  case (2 e es c found)
  obtain r rest where i: "class_item (e # es) = (r, rest)" by fastforce
  show ?case
  proof (cases "next_is GRE_CHAR_RNG_UPPER es")
    case True
    then obtain u es' where es: "es = u # es'" by (cases es) (auto simp: next_is_def)
    have r: "r = (ge_value e, ge_value u)" "rest = es'" using i True es by (auto simp: class_item_def)
    show ?thesis
    proof (cases "next_is GRE_CHAR_ALT es'")
      case T2: True
      then have "es' \<noteq> []" by (auto simp: next_is_def)
      note lt = class_items_shorter[OF this]
      show ?thesis using 2(1)[OF True refl] T2 True es lt class_items_alt[OF _ i] r
        by (auto simp: Suc_diff_le less_imp_le)
    next
      case False
      then show ?thesis using True es class_items_last[OF _ i] r by auto
    qed
  next
    case F: False
    have r: "rest = es" and rv: "(fst r \<le> c \<and> c \<le> snd r) = (ge_type e = GRE_CHAR_ANY \<or> ge_value e = c)"
      using i F by (auto simp: class_item_def split: if_splits)
    show ?thesis
    proof (cases "next_is GRE_CHAR_ALT es")
      case True
      then have "es \<noteq> []" by (auto simp: next_is_def)
      note lt = class_items_shorter[OF this]
      show ?thesis using 2(2)[OF F refl] True F lt class_items_alt[OF _ i] r rv
        by (auto simp: Suc_diff_le less_imp_le case_prod_beta)
    next
      case False
      then show ?thesis using F class_items_last[OF _ i] r rv by (auto simp: case_prod_beta)
    qed
  qed
qed (simp add: class_items.simps)

lemma gr_from_adv [simp]: "gr_from rules (gr_adv p n) = drop n (gr_from rules p)"
  by (cases p) (simp add: gr_from_def add.commute)

lemma gr_at_from: "gr_at rules p = (case gr_from rules p of [] \<Rightarrow> GE GRE_END 0 | e # _ \<Rightarrow> e)"
  by (cases p) (auto simp: gr_at_def gr_from_def hd_drop_conv_nth split: list.splits
      dest: arg_cong[of _ _ length] arg_cong[of _ _ hd])

definition seq_at :: "llama_grammar_rules \<Rightarrow> gptr \<Rightarrow> gsym list" where
  "seq_at rules p = sym_seq (gr_from rules p)"

definition ptr_ok :: "llama_grammar_rules \<Rightarrow> gptr \<Rightarrow> bool" where
  "ptr_ok rules p \<longleftrightarrow> elems_ok (length rules) 0 (gr_from rules p)"

text \<open>On a class the engine's matching is membership in the class, and the pointer it returns is
  where the rest of the sequence starts.\<close>

lemma match_char_class:
  assumes "is_char_type (ge_type (gr_at rules p))" and "ptr_ok rules p"
  obtains pc rs p' where "seq_at rules p = T pc rs # seq_at rules p'" and "ptr_ok rules p'"
    and "\<And>c. llama_grammar_match_char rules p c = Inr (class_in pc rs c, p')"
proof -
  obtain e es where es: "gr_from rules p = e # es" "gr_at rules p = e"
    using assms(1) by (auto simp: gr_at_from is_char_type_def split: list.splits)
  define n where "n = length (e # es) - length (snd (class_items (e # es)))"
  have "seq_at rules p = T (is_positive_char e) (fst (class_items (e # es))) # seq_at rules (gr_adv p n)"
    using gr_scan_items[of "e # es" 0 False] assms(1) es
    by (auto simp: seq_at_def n_def is_char_type_def is_end_type_def case_prod_beta)
  moreover have "ptr_ok rules (gr_adv p n)"
    using class_items_ok[of "length rules" 0 "e # es"] gr_scan_items[of "e # es" 0 False] assms es
    by (auto simp: ptr_ok_def n_def is_char_type_def starts_item_def)
  moreover have "llama_grammar_match_char rules p c
      = Inr (class_in (is_positive_char e) (fst (class_items (e # es))) c, gr_adv p n)" for c
    using gr_scan_items[of "e # es" c False] assms(1) es
    by (auto simp: llama_grammar_match_char_def class_in_def n_def is_char_type_def is_positive_char_def)
  ultimately show ?thesis by (rule that)
qed

section \<open>The alternates of a rule\<close>

text \<open>The scan for the alternates visits the same sequences as splitting the rule at \<open>ALT\<close>.\<close>

definition upto_end :: "llama_grammar_element list \<Rightarrow> llama_grammar_element list" where
  "upto_end es = takeWhile (\<lambda>e. \<not> is_end_type (ge_type e)) es"

lemma upto_end_simps [simp]:
  "upto_end [] = []"
  "upto_end (e # es) = (if is_end_type (ge_type e) then [] else e # upto_end es)"
  by (auto simp: upto_end_def)

lemma next_is_upto [simp]: "\<not> is_end_type t \<Longrightarrow> next_is t (upto_end es) = next_is t es"
  by (cases es) (auto simp: next_is_def)

lemma not_end_types [simp]: "\<not> is_end_type GRE_CHAR_ALT" "\<not> is_end_type GRE_CHAR_RNG_UPPER"
  by (simp_all add: is_end_type_def)

lemma class_item_upto:
  assumes "\<not> is_end_type (ge_type e)" "class_item (e # es) = (r, rest)"
  shows "class_item (e # upto_end es) = (r, upto_end rest)"
  using assms by (cases es) (auto simp: class_item_def next_is_def split: if_splits)

lemma class_items_upto:
  "es \<noteq> [] \<Longrightarrow> \<not> is_end_type (ge_type (hd es))
   \<Longrightarrow> class_items (upto_end es) = (fst (class_items es), upto_end (snd (class_items es)))"
proof (induction es rule: class_items.induct)
  case (1 es)
  then obtain e es' where es: "es = e # es'" by (cases es) auto
  obtain r rest where i: "class_item (e # es') = (r, rest)" by fastforce
  have j: "class_item (e # upto_end es') = (r, upto_end rest)"
    using class_item_upto[OF _ i] 1(3) es by simp
  show ?case
  proof (cases "next_is GRE_CHAR_ALT rest")
    case True
    then have "rest \<noteq> []" "\<not> is_end_type (ge_type (hd rest))"
      by (auto simp: next_is_def split: list.splits)
    then have "class_items (upto_end rest) = (fst (class_items rest), upto_end (snd (class_items rest)))"
      using 1(1)[OF 1(2), of _ r rest] i es True by simp
    then show ?thesis using class_items_alt[OF _ i True] class_items_alt[OF _ j] True es 1(3) by simp
  next
    case False
    then show ?thesis using class_items_last[OF _ i False] class_items_last[OF _ j] es 1(3) by simp
  qed
qed

lemma sym_seq_upto: "sym_seq (upto_end es) = sym_seq es"
proof (induction es rule: sym_seq.induct)
  case (2 e es)
  obtain rs rest where c: "class_items (e # es) = (rs, rest)" by fastforce
  show ?case using 2 class_items_upto[of "e # es"] c by auto
qed simp

lemma alt_starts_after_gt: "j \<in> set (alt_starts_after k es) \<Longrightarrow> k < j"
  by (induction k es rule: alt_starts_after.induct) (auto split: if_splits)

lemma drop_shift: "k < j \<Longrightarrow> drop (j - k) (e # es) = drop (j - Suc k) es"
  by (simp add: drop_Cons')

lemma split_alts_alt_starts:
  "split_alts es = upto_end es # map (\<lambda>j. upto_end (drop (j - k) es)) (alt_starts_after k es)"
proof (induction k es rule: alt_starts_after.induct)
  case (2 k e es)
  have "map (\<lambda>j. upto_end (drop (j - k) (e # es))) (alt_starts_after (Suc k) es)
      = map (\<lambda>j. upto_end (drop (j - Suc k) es)) (alt_starts_after (Suc k) es)"
    by (rule map_cong[OF refl]) (simp add: drop_shift Suc_lessD[OF alt_starts_after_gt])
  then show ?case using 2
    by (cases "ge_type e = GRE_ALT"; cases "ge_type e = GRE_END") (simp_all add: is_end_type_def)
qed simp

lemma alternatives_starts:
  "r < length rules \<Longrightarrow> alternatives rules r = map (\<lambda>i. seq_at rules (r, i)) (alt_starts (rules ! r))"
  by (simp add: alternatives_def seq_at_def gr_from_def alt_starts_def sym_seq_upto
      split_alts_alt_starts[of "rules ! r" 0])

lemma alt_starts_ok:
  assumes "rules_ok rules" "r < length rules" "i \<in> set (alt_starts (rules ! r))"
  shows "ptr_ok rules (r, i)"
proof -
  have *: "elems_ok n st es \<Longrightarrow> j \<in> set (alt_starts_after k es) \<Longrightarrow> elems_ok n 0 (drop (j - k) es)" for n st es j k
  proof (induction k es arbitrary: st rule: alt_starts_after.induct)
    case (2 k e es)
    have "k < j" using 2(4) by (rule alt_starts_after_gt)
    then show ?case using 2
      by (auto simp: drop_shift split: if_splits llama_gretype.splits)
  qed simp
  have "elems_ok (length rules) 0 (rules ! r)" using assms by (simp add: rules_ok_def)
  with *[of "length rules" 0 "rules ! r" i 0] assms show ?thesis
    by (auto simp: ptr_ok_def gr_from_def alt_starts_def)
qed

section \<open>Stacks as sentential forms\<close>

definition stack_syms :: "llama_grammar_rules \<Rightarrow> llama_grammar_stack \<Rightarrow> gsym list" where
  "stack_syms rules st = concat (map (seq_at rules) st)"

definition lang :: "llama_grammar_rules \<Rightarrow> llama_grammar_stacks \<Rightarrow> u32 list \<Rightarrow> bool" where
  "lang rules stacks w \<longleftrightarrow> (\<exists>st \<in> set stacks. derives rules (stack_syms rules st) w)"

definition stack_ok :: "llama_grammar_rules \<Rightarrow> llama_grammar_stack \<Rightarrow> bool" where
  "stack_ok rules st \<longleftrightarrow> (\<forall>p \<in> set st. ptr_ok rules p \<and> \<not> llama_grammar_is_end_of_sequence rules p)"

text \<open>A settled stack is empty or has a character class on top.\<close>

definition settled :: "llama_grammar_rules \<Rightarrow> llama_grammar_stack \<Rightarrow> bool" where
  "settled rules st \<longleftrightarrow> stack_ok rules st \<and> (st = [] \<or> is_char_type (ge_type (gr_at rules (hd st))))"

definition all_settled :: "llama_grammar_rules \<Rightarrow> llama_grammar_stacks \<Rightarrow> bool" where
  "all_settled rules stacks \<longleftrightarrow> (\<forall>st \<in> set stacks. settled rules st)"

lemma stack_syms_simps [simp]:
  "stack_syms rules [] = []" "stack_syms rules (p # st) = seq_at rules p @ stack_syms rules st"
  by (simp_all add: stack_syms_def)

lemma seq_at_end: "llama_grammar_is_end_of_sequence rules p \<Longrightarrow> seq_at rules p = []"
  by (auto simp: llama_grammar_is_end_of_sequence_def gr_at_from seq_at_def split: list.splits)

lemma stack_syms_push [simp]:
  "stack_syms rules (push_unless_end rules p st) = seq_at rules p @ stack_syms rules st"
  by (simp add: push_unless_end_def seq_at_end)

lemma stack_ok_simps [simp]:
  "stack_ok rules []"
  "stack_ok rules (p # st) \<longleftrightarrow>
     ptr_ok rules p \<and> \<not> llama_grammar_is_end_of_sequence rules p \<and> stack_ok rules st"
  by (auto simp: stack_ok_def)

lemma stack_ok_push [intro]: "ptr_ok rules p \<Longrightarrow> stack_ok rules st \<Longrightarrow> stack_ok rules (push_unless_end rules p st)"
  by (simp add: push_unless_end_def)

lemma lang_add_stack [simp]:
  "lang rules (add_stack st acc) w \<longleftrightarrow> lang rules acc w \<or> derives rules (stack_syms rules st) w"
  by (auto simp: lang_def add_stack_def)

lemma all_settled_add_stack [simp]:
  "all_settled rules (add_stack st acc) \<longleftrightarrow> all_settled rules acc \<and> settled rules st"
  by (auto simp: all_settled_def add_stack_def)

lemma seq_at_ref:
  assumes "ge_type (gr_at rules p) = GRE_RULE_REF"
  shows "seq_at rules p = NT (unat (ge_value (gr_at rules p))) # seq_at rules (gr_adv p 1)"
  using assms by (auto simp: seq_at_def gr_at_from is_end_type_def split: list.splits)

lemma ptr_ok_ref:
  assumes "ge_type (gr_at rules p) = GRE_RULE_REF" "ptr_ok rules p"
  shows "unat (ge_value (gr_at rules p)) < length rules" "ptr_ok rules (gr_adv p 1)"
  using assms by (auto simp: ptr_ok_def gr_at_from split: list.splits)

text \<open>A loop that adds to the language of the collected stacks.\<close>

lemma fold_res_lang:
  assumes "\<And>x acc acc'. x \<in> set xs \<Longrightarrow> all_settled rules acc \<Longrightarrow> f x acc = Inr acc'
       \<Longrightarrow> all_settled rules acc' \<and> (\<forall>w. lang rules acc' w \<longleftrightarrow> lang rules acc w \<or> L x w)"
    and "all_settled rules acc" "fold_res f xs acc = Inr acc'"
  shows "all_settled rules acc' \<and> (\<forall>w. lang rules acc' w \<longleftrightarrow> lang rules acc w \<or> (\<exists>x \<in> set xs. L x w))"
  using assms
proof (induction xs arbitrary: acc)
  case (Cons x xs)
  then obtain acc1 where 1: "f x acc = Inr acc1" "fold_res f xs acc1 = Inr acc'" by auto
  with Cons.prems(1)[of x acc acc1] Cons.prems(2)
  have "all_settled rules acc1" "\<forall>w. lang rules acc1 w \<longleftrightarrow> lang rules acc w \<or> L x w" by auto
  moreover from this(1) have "all_settled rules acc' \<and>
      (\<forall>w. lang rules acc' w \<longleftrightarrow> lang rules acc1 w \<or> (\<exists>x \<in> set xs. L x w))"
    using Cons.prems(1)[OF list.set_intros(2)] Cons.IH[OF _ _ 1(2)] by blast
  ultimately show ?case by auto
qed simp

text \<open>Advancing a stack keeps its language: the stacks it adds are settled and derive together
  exactly what the stack derives.\<close>

lemma advance_stack_lang:
  "rules_ok rules \<Longrightarrow> stack_ok rules stack \<Longrightarrow> all_settled rules acc
   \<Longrightarrow> llama_grammar_advance_stack fuel rules stack acc = Inr acc'
   \<Longrightarrow> all_settled rules acc'
     \<and> (\<forall>w. lang rules acc' w \<longleftrightarrow> lang rules acc w \<or> derives rules (stack_syms rules stack) w)"
proof (induction fuel arbitrary: stack acc acc')
  case (Suc fuel)
  show ?case
  proof (cases stack)
    case Nil
    then show ?thesis using Suc.prems by (auto simp: settled_def)
  next
    case (Cons p rest)
    show ?thesis
    proof (cases "ge_type (gr_at rules p) = GRE_RULE_REF")
      case True
      define r where "r = unat (ge_value (gr_at rules p))"
      define K where "K = push_unless_end rules (gr_adv p 1) rest"
      have ok: "r < length rules" "stack_ok rules K"
        using ptr_ok_ref[OF True] Suc.prems(2) Cons by (auto simp: r_def K_def)
      have fr: "fold_res (\<lambda>i. llama_grammar_advance_stack fuel rules (push_unless_end rules (r, i) K))
          (alt_starts (rules ! r)) acc = Inr acc'"
        using Suc.prems(4) Cons True ok by (simp add: r_def K_def Let_def)
      have "all_settled rules acc' \<and> (\<forall>w. lang rules acc' w \<longleftrightarrow> lang rules acc w \<or>
          (\<exists>i \<in> set (alt_starts (rules ! r)). derives rules (seq_at rules (r, i) @ stack_syms rules K) w))"
      proof (rule fold_res_lang[OF _ Suc.prems(3) fr])
        fix i acc1 acc2
        assume i: "i \<in> set (alt_starts (rules ! r))" "all_settled rules acc1"
          "llama_grammar_advance_stack fuel rules (push_unless_end rules (r, i) K) acc1 = Inr acc2"
        have "stack_ok rules (push_unless_end rules (r, i) K)"
          using alt_starts_ok[OF Suc.prems(1) ok(1) i(1)] ok(2) by auto
        from Suc.IH[OF Suc.prems(1) this i(2,3)]
        show "all_settled rules acc2 \<and> (\<forall>w. lang rules acc2 w \<longleftrightarrow>
            lang rules acc1 w \<or> derives rules (seq_at rules (r, i) @ stack_syms rules K) w)" by simp
      qed
      then show ?thesis using Cons True ok
        by (simp add: seq_at_ref r_def[symmetric] derives_NT_iff alternatives_starts K_def)
    next
      case False
      then have "is_char_type (ge_type (gr_at rules p))" "acc' = add_stack stack acc"
        using Suc.prems(4) Cons by (auto simp: is_char_type_def split: llama_gretype.splits)
      then show ?thesis using Suc.prems(2,3) Cons by (simp add: settled_def)
    qed
  qed
qed simp

section \<open>Accepting code points\<close>

lemma accept_one_lang:
  assumes "rules_ok rules" "settled rules st" "all_settled rules acc"
    and "accept_one fuel rules c st acc = Inr acc'"
  shows "all_settled rules acc'
    \<and> (\<forall>w. lang rules acc' w \<longleftrightarrow> lang rules acc w \<or> derives rules (stack_syms rules st) (c # w))"
proof (cases st)
  case Nil
  then show ?thesis using assms by (simp add: accept_one_def)
next
  case (Cons p rest)
  then have "is_char_type (ge_type (gr_at rules p))" "ptr_ok rules p" "stack_ok rules rest"
    using assms(2) by (auto simp: settled_def)
  then obtain pc rs p' where m: "seq_at rules p = T pc rs # seq_at rules p'" "ptr_ok rules p'"
      "llama_grammar_match_char rules p c = Inr (class_in pc rs c, p')"
    by (elim match_char_class) blast+
  show ?thesis
  proof (cases "class_in pc rs c")
    case True
    have "llama_grammar_advance_stack fuel rules (push_unless_end rules p' rest) acc = Inr acc'"
      using assms(4) Cons m True by (simp add: accept_one_def)
    from advance_stack_lang[OF assms(1) _ assms(3) this] m \<open>stack_ok rules rest\<close>
    show ?thesis using Cons True by (auto simp: derives_T_iff)
  next
    case False
    then show ?thesis using assms(3,4) Cons m by (simp add: accept_one_def derives_T_iff)
  qed
qed

text \<open>Accepting a code point takes the derivative of the language of the stacks.\<close>

lemma accept_lang:
  assumes "rules_ok rules" "all_settled rules stacks" "llama_grammar_accept fuel rules stacks c = Inr stacks'"
  shows "all_settled rules stacks'" "lang rules stacks' w \<longleftrightarrow> lang rules stacks (c # w)"
proof -
  have "all_settled rules stacks' \<and> (\<forall>w. lang rules stacks' w \<longleftrightarrow> lang rules [] w \<or>
      (\<exists>st \<in> set stacks. derives rules (stack_syms rules st) (c # w)))"
  proof (rule fold_res_lang)
    show "all_settled rules []" by (simp add: all_settled_def)
    show "fold_res (accept_one fuel rules c) stacks [] = Inr stacks'"
      using assms(3) by (simp add: llama_grammar_accept_def)
    fix st acc acc'
    assume "st \<in> set stacks" "all_settled rules acc" "accept_one fuel rules c st acc = Inr acc'"
    with assms(1,2) accept_one_lang[of rules st acc fuel c acc']
    show "all_settled rules acc' \<and>
        (\<forall>w. lang rules acc' w \<longleftrightarrow> lang rules acc w \<or> derives rules (stack_syms rules st) (c # w))"
      by (simp add: all_settled_def)
  qed
  then show "all_settled rules stacks'" "lang rules stacks' w \<longleftrightarrow> lang rules stacks (c # w)"
    by (auto simp: lang_def)
qed

lemma settled_nullable:
  assumes "settled rules st" shows "derives rules (stack_syms rules st) [] \<longleftrightarrow> st = []"
proof (cases st)
  case (Cons p rest)
  then have "is_char_type (ge_type (gr_at rules p))" "ptr_ok rules p"
    using assms by (auto simp: settled_def)
  then obtain pc rs p' where "seq_at rules p = T pc rs # seq_at rules p'" by (elim match_char_class) blast+
  then show ?thesis using Cons by (simp add: derives_T_iff)
qed simp

lemma settled_lang_Nil: "all_settled rules stacks \<Longrightarrow> lang rules stacks [] \<longleftrightarrow> [] \<in> set stacks"
  using settled_nullable by (fastforce simp: lang_def all_settled_def)

text \<open>The contract of a recogniser that consumes its input symbol by symbol: a step takes the
  derivative of the state's language, and a final state is one whose language has the empty word.\<close>

locale recogniser =
  fixes step :: "'c \<Rightarrow> 'q \<Rightarrow> 'q res"
    and good :: "'q \<Rightarrow> bool"
    and final :: "'q \<Rightarrow> bool"
    and language :: "'q \<Rightarrow> 'c list \<Rightarrow> bool"
  assumes step_good: "good q \<Longrightarrow> step c q = Inr q' \<Longrightarrow> good q'"
    and step_language: "good q \<Longrightarrow> step c q = Inr q' \<Longrightarrow> language q' w \<longleftrightarrow> language q (c # w)"
    and final_language: "good q \<Longrightarrow> final q \<longleftrightarrow> language q []"
begin

lemma run_language:
  "good q \<Longrightarrow> fold_res step w q = Inr q' \<Longrightarrow> good q' \<and> (\<forall>v. language q' v \<longleftrightarrow> language q (w @ v))"
proof (induction w arbitrary: q)
  case (Cons c w)
  then obtain q1 where 1: "step c q = Inr q1" "fold_res step w q1 = Inr q'" by auto
  with Cons.IH[OF _ 1(2)] step_good[OF Cons.prems(1) 1(1)] step_language[OF Cons.prems(1) 1(1)]
  show ?case by simp
qed simp

lemma run_final: "good q \<Longrightarrow> fold_res step w q = Inr q' \<Longrightarrow> final q' \<longleftrightarrow> language q w"
  using run_language[of q w q'] final_language[of q'] by simp

end

interpretation engine: recogniser "\<lambda>c stacks. llama_grammar_accept fuel rules stacks c"
  "\<lambda>stacks. rules_ok rules \<and> all_settled rules stacks" "\<lambda>stacks. [] \<in> set stacks" "lang rules" for fuel rules
  by unfold_locales (auto simp: settled_lang_Nil intro: accept_lang dest: accept_lang(2))

lemma init_stacks_lang:
  assumes "rules_ok rules" "root < length rules" "init_stacks fuel rules root = Inr stacks"
  shows "all_settled rules stacks" "lang rules stacks w \<longleftrightarrow> derives rules [NT root] w"
proof -
  have "all_settled rules stacks \<and> (\<forall>w. lang rules stacks w \<longleftrightarrow> lang rules [] w \<or>
      (\<exists>i \<in> set (alt_starts (rules ! root)). derives rules (seq_at rules (root, i)) w))"
  proof (rule fold_res_lang[OF _ _ assms(3)[unfolded init_stacks_def]])
    fix i acc acc'
    assume i: "i \<in> set (alt_starts (rules ! root))" "all_settled rules acc"
      "llama_grammar_advance_stack fuel rules (push_unless_end rules (root, i) []) acc = Inr acc'"
    have "stack_ok rules (push_unless_end rules (root, i) [])" using alt_starts_ok[OF assms(1,2) i(1)] by auto
    from advance_stack_lang[OF assms(1) this i(2,3)]
    show "all_settled rules acc' \<and>
        (\<forall>w. lang rules acc' w \<longleftrightarrow> lang rules acc w \<or> derives rules (seq_at rules (root, i)) w)" by simp
  qed (simp add: all_settled_def)
  then show "all_settled rules stacks" "lang rules stacks w \<longleftrightarrow> derives rules [NT root] w"
    using assms(2) by (auto simp: lang_def derives_NT_iff alternatives_starts)
qed

end
