(* ===== verification/Grammar_Term.thy ===== *)
theory Grammar_Term
  imports Grammar_Lang
begin

text \<open>
  Left recursion (\<open>llama_grammar_detect_left_recursion\<close>, lines 765-816 of \<open>llama-grammar.cpp\<close>) and
  the termination of the engine: when the check passes and every rule that derives the empty
  string has a literally empty alternate, advancing a stack always returns. The check marks
  only literally empty alternates; a rule that is empty through another rule escapes it.
\<close>

section \<open>The check\<close>

record lr_state =
  rules_visited :: "bool list"
  rules_in_progress :: "bool list"
  rules_may_be_empty :: "bool list"

text \<open>The first loop: whether some alternate has no element.\<close>

fun has_empty_alt :: "bool \<Rightarrow> llama_grammar_element list \<Rightarrow> bool" where
  "has_empty_alt at_rule_start [] = False"
| "has_empty_alt at_rule_start (e # es) =
     (if is_end_type (ge_type e) then at_rule_start \<or> has_empty_alt True es else has_empty_alt False es)"

text \<open>The second loop, over the recursive call.\<close>

primrec lr_loop ::
  "(nat \<Rightarrow> lr_state \<Rightarrow> (lr_state \<times> bool) res) \<Rightarrow> llama_grammar_element list \<Rightarrow> bool \<Rightarrow> lr_state
     \<Rightarrow> (lr_state \<times> bool) res" where
  "lr_loop call [] recurse s = Inr (s, False)"
| "lr_loop call (e # es) recurse s =
     (if ge_type e = GRE_RULE_REF \<and> recurse then
        bind_res (call (unat (ge_value e)) s) (\<lambda>(s', found).
          if found then Inr (s', True)
          else lr_loop call es (rules_may_be_empty s' ! unat (ge_value e)) s')
      else lr_loop call es (is_end_type (ge_type e)) s)"

text \<open>What a call does before and after its loop over the references.\<close>

definition lr_enter :: "llama_grammar_rules \<Rightarrow> nat \<Rightarrow> lr_state \<Rightarrow> lr_state" where
  "lr_enter rules i s =
     s\<lparr>rules_in_progress := (rules_in_progress s)[i := True],
       rules_may_be_empty := (if has_empty_alt True (rules ! i) then (rules_may_be_empty s)[i := True]
                              else rules_may_be_empty s)\<rparr>"

definition lr_leave :: "nat \<Rightarrow> lr_state \<Rightarrow> lr_state" where
  "lr_leave i s = s\<lparr>rules_in_progress := (rules_in_progress s)[i := False],
                   rules_visited := (rules_visited s)[i := True]\<rparr>"

fun llama_grammar_detect_left_recursion ::
  "nat \<Rightarrow> llama_grammar_rules \<Rightarrow> nat \<Rightarrow> lr_state \<Rightarrow> (lr_state \<times> bool) res" where
  "llama_grammar_detect_left_recursion 0 rules i s = Inl Diverge"
| "llama_grammar_detect_left_recursion (Suc fuel) rules i s =
     (if i \<ge> length rules then Inl Undef
      else if rules_in_progress s ! i then Inr (s, True)
      else bind_res (lr_loop (llama_grammar_detect_left_recursion fuel rules) (rules ! i) True (lr_enter rules i s))
             (\<lambda>(s', found). if found then Inr (s', True) else Inr (lr_leave i s', False)))"

text \<open>The loop over all rules in \<open>llama_grammar_init_impl\<close>: \<open>True\<close> is the early \<open>return nullptr\<close>.\<close>

fun lr_check_from :: "nat \<Rightarrow> llama_grammar_rules \<Rightarrow> nat list \<Rightarrow> lr_state \<Rightarrow> bool res" where
  "lr_check_from fuel rules [] s = Inr False"
| "lr_check_from fuel rules (i # is) s =
     (if rules_visited s ! i then lr_check_from fuel rules is s
      else bind_res (llama_grammar_detect_left_recursion fuel rules i s) (\<lambda>(s', found).
             if found then Inr True else lr_check_from fuel rules is s'))"

definition lr_init :: "nat \<Rightarrow> lr_state" where
  "lr_init n = \<lparr>rules_visited = replicate n False, rules_in_progress = replicate n False,
               rules_may_be_empty = replicate n False\<rparr>"

text \<open>The depth of the recursion is at most the number of rules that are not in progress.\<close>

definition lr_check :: "llama_grammar_rules \<Rightarrow> bool res" where
  "lr_check rules = lr_check_from (Suc (length rules)) rules [0..<length rules] (lr_init (length rules))"

section \<open>The check always answers\<close>

definition lr_sized :: "llama_grammar_rules \<Rightarrow> lr_state \<Rightarrow> bool" where
  "lr_sized rules s \<longleftrightarrow> length (rules_visited s) = length rules \<and> length (rules_in_progress s) = length rules
     \<and> length (rules_may_be_empty s) = length rules"

definition refs_ok :: "nat \<Rightarrow> llama_grammar_element list \<Rightarrow> bool" where
  "refs_ok n es \<longleftrightarrow> (\<forall>e \<in> set es. ge_type e = GRE_RULE_REF \<longrightarrow> unat (ge_value e) < n)"

definition n_idle :: "lr_state \<Rightarrow> nat" where
  "n_idle s = length (filter Not (rules_in_progress s))"

lemma filter_upd_True:
  "i < length xs \<Longrightarrow> \<not> xs ! i \<Longrightarrow> Suc (length (filter Not (xs[i := True]))) = length (filter Not xs)"
  by (induction xs arbitrary: i) (auto split: nat.splits)

text \<open>A call that finds nothing leaves the in-progress marks as they were.\<close>

definition lr_returns ::
  "llama_grammar_rules \<Rightarrow> lr_state \<Rightarrow> (lr_state \<times> bool) res \<Rightarrow> bool" where
  "lr_returns rules s m \<longleftrightarrow> (\<exists>s' found. m = Inr (s', found) \<and> lr_sized rules s'
     \<and> (\<not> found \<longrightarrow> rules_in_progress s' = rules_in_progress s))"

lemma lr_loop_returns:
  assumes "\<And>j s. j < length rules \<Longrightarrow> lr_sized rules s \<Longrightarrow> rules_in_progress s = ip \<Longrightarrow> lr_returns rules s (call j s)"
  shows "refs_ok (length rules) es \<Longrightarrow> lr_sized rules s \<Longrightarrow> rules_in_progress s = ip
    \<Longrightarrow> lr_returns rules s (lr_loop call es b s)"
proof (induction es arbitrary: b s)
  case (Cons e es)
  show ?case
  proof (cases "ge_type e = GRE_RULE_REF \<and> b")
    case True
    then obtain s' found where c: "call (unat (ge_value e)) s = Inr (s', found)" "lr_sized rules s'"
        "\<not> found \<longrightarrow> rules_in_progress s' = rules_in_progress s"
      using assms[of "unat (ge_value e)" s] Cons.prems by (auto simp: lr_returns_def refs_ok_def)
    then show ?thesis using True Cons.IH[of s'] Cons.prems
      by (cases found) (auto simp: lr_returns_def refs_ok_def)
  next
    case False
    then show ?thesis using Cons by (auto simp: refs_ok_def)
  qed
qed (auto simp: lr_returns_def)

lemma detect_returns:
  "(\<forall>es \<in> set rules. refs_ok (length rules) es) \<Longrightarrow> lr_sized rules s \<Longrightarrow> i < length rules \<Longrightarrow> n_idle s < fuel
   \<Longrightarrow> lr_returns rules s (llama_grammar_detect_left_recursion fuel rules i s)"
proof (induction fuel arbitrary: i s)
  case (Suc fuel)
  show ?case
  proof (cases "rules_in_progress s ! i")
    case True
    then show ?thesis using Suc.prems by (auto simp: lr_returns_def)
  next
    case False
    define s2 where "s2 = lr_enter rules i s"
    have s2: "lr_sized rules s2" "rules_in_progress s2 = (rules_in_progress s)[i := True]"
      using Suc.prems by (auto simp: s2_def lr_sized_def lr_enter_def)
    have "n_idle t < fuel" if "rules_in_progress t = rules_in_progress s2" for t
      using filter_upd_True[of i "rules_in_progress s"] that s2(2) False Suc.prems
      by (simp add: n_idle_def lr_sized_def)
    then have "lr_returns rules s2 (lr_loop (llama_grammar_detect_left_recursion fuel rules) (rules ! i) True s2)"
      using Suc s2 by (intro lr_loop_returns[where ip = "rules_in_progress s2"]) auto
    then obtain s3 found where
      l: "lr_loop (llama_grammar_detect_left_recursion fuel rules) (rules ! i) True s2 = Inr (s3, found)"
      "lr_sized rules s3" "\<not> found \<longrightarrow> rules_in_progress s3 = rules_in_progress s2"
      by (auto simp: lr_returns_def)
    have "(rules_in_progress s)[i := True, i := False] = rules_in_progress s"
      using False by (metis (full_types) list_update_id list_update_overwrite)
    then have "lr_sized rules (lr_leave i s3)" "\<not> found \<longrightarrow> rules_in_progress (lr_leave i s3) = rules_in_progress s"
      using l s2 by (auto simp: lr_leave_def lr_sized_def)
    then show ?thesis using Suc.prems False l s2_def
      by (cases found) (auto simp: lr_returns_def)
  qed
qed simp

declare llama_grammar_detect_left_recursion.simps [simp del]

lemma lr_check_from_returns:
  "(\<forall>es \<in> set rules. refs_ok (length rules) es) \<Longrightarrow> lr_sized rules s \<Longrightarrow> (\<forall>i \<in> set is. i < length rules)
   \<Longrightarrow> \<exists>found. lr_check_from (Suc (length rules)) rules is s = Inr found"
proof (induction "is" arbitrary: s)
  case (Cons i "is")
  have "n_idle s \<le> length (rules_in_progress s)" by (simp add: n_idle_def)
  then have "n_idle s < Suc (length rules)" using Cons.prems(2) by (simp add: lr_sized_def)
  then have "lr_returns rules s (llama_grammar_detect_left_recursion (Suc (length rules)) rules i s)"
    using detect_returns[OF Cons.prems(1,2)] Cons.prems(3) by simp
  then obtain s' found where d: "llama_grammar_detect_left_recursion (Suc (length rules)) rules i s = Inr (s', found)"
      "lr_sized rules s'"
    unfolding lr_returns_def by blast
  have "\<exists>found. lr_check_from (Suc (length rules)) rules is t = Inr found" if "lr_sized rules t" for t
    using Cons.IH[OF Cons.prems(1) that] Cons.prems(3) by simp
  then show ?case using d Cons.prems(2) by (cases found) auto
qed auto

section \<open>What a passed check means\<close>

definition lit_empty :: "llama_grammar_rules \<Rightarrow> nat \<Rightarrow> bool" where
  "lit_empty rules r = has_empty_alt True (rules ! r)"

text \<open>The rules the check visits from a rule: the references that only literally empty rules precede.\<close>

fun lc_refs :: "llama_grammar_rules \<Rightarrow> llama_grammar_element list \<Rightarrow> bool \<Rightarrow> nat list" where
  "lc_refs rules [] recurse = []"
| "lc_refs rules (e # es) recurse =
     (if ge_type e = GRE_RULE_REF \<and> recurse
      then unat (ge_value e) # lc_refs rules es (lit_empty rules (unat (ge_value e)))
      else lc_refs rules es (is_end_type (ge_type e)))"

definition corner :: "llama_grammar_rules \<Rightarrow> nat \<Rightarrow> nat \<Rightarrow> bool" where
  "corner rules v r \<longleftrightarrow> r < length rules \<and> v \<in> set (lc_refs rules (rules ! r) True)"

definition no_cycle :: "llama_grammar_rules \<Rightarrow> nat \<Rightarrow> bool" where
  "no_cycle rules = Wellfounded.accp (corner rules)"

definition lr_inv :: "llama_grammar_rules \<Rightarrow> lr_state \<Rightarrow> bool" where
  "lr_inv rules s \<longleftrightarrow> lr_sized rules s \<and> (\<forall>j < length rules.
     (rules_may_be_empty s ! j \<longrightarrow> lit_empty rules j) \<and> (rules_visited s ! j \<longrightarrow> no_cycle rules j))"

lemma lr_loop_no_cycle:
  assumes "\<And>j s s'. lr_inv rules s \<Longrightarrow> call j s = Inr (s', False)
      \<Longrightarrow> lr_inv rules s' \<and> no_cycle rules j \<and> rules_may_be_empty s' ! j = lit_empty rules j"
  shows "lr_inv rules s \<Longrightarrow> lr_loop call es b s = Inr (s', False)
    \<Longrightarrow> lr_inv rules s' \<and> (\<forall>v \<in> set (lc_refs rules es b). no_cycle rules v)"
proof (induction es arbitrary: b s)
  case (Cons e es)
  show ?case
  proof (cases "ge_type e = GRE_RULE_REF \<and> b")
    case True
    then obtain s1 where c: "call (unat (ge_value e)) s = Inr (s1, False)"
        "lr_loop call es (rules_may_be_empty s1 ! unat (ge_value e)) s1 = Inr (s', False)"
      using Cons.prems(2) by (auto split: if_splits)
    from assms[OF Cons.prems(1) c(1)] Cons.IH[OF _ c(2)] True show ?thesis by auto
  next
    case False
    then show ?thesis using Cons by auto
  qed
qed simp

lemma lr_loop_keeps_empty:
  assumes "\<And>j s s'. call j s = Inr (s', False) \<Longrightarrow> rules_may_be_empty s ! i \<Longrightarrow> rules_may_be_empty s' ! i"
  shows "lr_loop call es b s = Inr (s', False) \<Longrightarrow> rules_may_be_empty s ! i \<Longrightarrow> rules_may_be_empty s' ! i"
proof (induction es arbitrary: b s)
  case (Cons e es)
  show ?case
  proof (cases "ge_type e = GRE_RULE_REF \<and> b")
    case True
    then obtain s1 where c: "call (unat (ge_value e)) s = Inr (s1, False)"
        "lr_loop call es (rules_may_be_empty s1 ! unat (ge_value e)) s1 = Inr (s', False)"
      using Cons.prems(1) by (auto split: if_splits)
    from Cons.IH[OF c(2)] assms[OF c(1)] Cons.prems(2) show ?thesis by simp
  next
    case False
    then show ?thesis using Cons by auto
  qed
qed simp

lemma detect_Suc:
  assumes "llama_grammar_detect_left_recursion (Suc fuel) rules i s = Inr (s', False)"
  obtains s1 where "i < length rules" "\<not> rules_in_progress s ! i"
    "lr_loop (llama_grammar_detect_left_recursion fuel rules) (rules ! i) True (lr_enter rules i s) = Inr (s1, False)"
    "s' = lr_leave i s1"
  using assms by (auto simp: llama_grammar_detect_left_recursion.simps not_le split: if_splits)

lemma detect_keeps_empty:
  "llama_grammar_detect_left_recursion fuel rules j s = Inr (s', False) \<Longrightarrow> rules_may_be_empty s ! i
   \<Longrightarrow> rules_may_be_empty s' ! i"
proof (induction fuel arbitrary: j s s')
  case (Suc fuel)
  from Suc.prems(1) obtain s1 where l: "j < length rules" "s' = lr_leave j s1"
    "lr_loop (llama_grammar_detect_left_recursion fuel rules) (rules ! j) True (lr_enter rules j s) = Inr (s1, False)"
    by (rule detect_Suc)
  have "rules_may_be_empty (lr_enter rules j s) ! i"
    using Suc.prems(2) by (cases "i = j"; cases "j < length (rules_may_be_empty s)") (auto simp: lr_enter_def list_update_beyond)
  from lr_loop_keeps_empty[of "llama_grammar_detect_left_recursion fuel rules" i, OF _ l(3) this]
  have "rules_may_be_empty s1 ! i" using Suc.IH by blast
  then show ?case using l by (simp add: lr_leave_def)
qed (simp add: llama_grammar_detect_left_recursion.simps)

lemma lr_inv_enter:
  assumes "lr_inv rules s" "i < length rules" shows "lr_inv rules (lr_enter rules i s)"
  using assms unfolding lr_inv_def lr_sized_def lr_enter_def lit_empty_def
  by (cases "has_empty_alt True (rules ! i)") (simp_all add: nth_list_update)

lemma lr_inv_leave:
  assumes "lr_inv rules s" "i < length rules" "no_cycle rules i" shows "lr_inv rules (lr_leave i s)"
  using assms unfolding lr_inv_def lr_sized_def lr_leave_def by (simp add: nth_list_update)

text \<open>The check finds nothing from a rule only when no cycle of references starts there.\<close>

lemma detect_no_cycle:
  "lr_inv rules s \<Longrightarrow> llama_grammar_detect_left_recursion fuel rules i s = Inr (s', False)
   \<Longrightarrow> lr_inv rules s' \<and> no_cycle rules i \<and> rules_may_be_empty s' ! i = lit_empty rules i"
proof (induction fuel arbitrary: i s s')
  case (Suc fuel)
  from Suc.prems(2) obtain s1 where l: "i < length rules" "s' = lr_leave i s1"
    "lr_loop (llama_grammar_detect_left_recursion fuel rules) (rules ! i) True (lr_enter rules i s) = Inr (s1, False)"
    by (rule detect_Suc)
  have "lr_inv rules s1 \<and> (\<forall>v \<in> set (lc_refs rules (rules ! i) True). no_cycle rules v)"
    by (rule lr_loop_no_cycle[of rules "llama_grammar_detect_left_recursion fuel rules",
          OF _ lr_inv_enter[OF Suc.prems(1) l(1)] l(3)]) (erule (1) Suc.IH)
  then have 1: "lr_inv rules s1" "\<forall>v \<in> set (lc_refs rules (rules ! i) True). no_cycle rules v" by auto
  then have nc: "no_cycle rules i" unfolding no_cycle_def by (metis accp.accI corner_def)
  have "rules_may_be_empty s1 ! i" if "lit_empty rules i"
  proof (rule lr_loop_keeps_empty[of "llama_grammar_detect_left_recursion fuel rules" i, OF _ l(3)])
    show "rules_may_be_empty (lr_enter rules i s) ! i"
      using that l(1) Suc.prems(1) by (simp add: lr_enter_def lit_empty_def lr_inv_def lr_sized_def)
  qed (erule (1) detect_keeps_empty)
  then have "rules_may_be_empty s1 ! i = lit_empty rules i" using 1(1) l(1) by (auto simp: lr_inv_def)
  then show ?case using lr_inv_leave[OF 1(1) l(1) nc] nc l(2) by (simp add: lr_leave_def)
qed (simp add: llama_grammar_detect_left_recursion.simps)

lemma lr_check_from_no_cycle:
  "lr_inv rules s \<Longrightarrow> lr_check_from fuel rules is s = Inr False \<Longrightarrow> \<forall>i \<in> set is. i < length rules \<Longrightarrow> i \<in> set is
   \<Longrightarrow> no_cycle rules i"
proof (induction "is" arbitrary: s)
  case (Cons k "is")
  show ?case
  proof (cases "rules_visited s ! k")
    case True
    then have "no_cycle rules k" using Cons.prems(1,3) by (simp add: lr_inv_def)
    with True Cons show ?thesis by auto
  next
    case False
    then obtain s' where d: "llama_grammar_detect_left_recursion fuel rules k s = Inr (s', False)"
        "lr_check_from fuel rules is s' = Inr False"
      using Cons.prems(2) by (auto split: if_splits)
    from detect_no_cycle[OF Cons.prems(1) d(1)] Cons.IH[OF _ d(2)] Cons.prems(3,4) show ?thesis by auto
  qed
qed simp

lemma lr_check_no_cycle: "lr_check rules = Inr False \<Longrightarrow> i < length rules \<Longrightarrow> no_cycle rules i"
  by (rule lr_check_from_no_cycle[of rules "lr_init (length rules)" "Suc (length rules)" "[0..<length rules]"])
     (simp_all add: lr_check_def lr_inv_def lr_init_def lr_sized_def)

text \<open>Conversely, what the check reports is a cycle: the rules in progress are those the current one
  is reached from.\<close>

lemma accp_acyclic: "Wellfounded.accp R x \<Longrightarrow> \<not> R\<^sup>+\<^sup>+ x x"
proof (induction rule: accp_induct_rule)
  case (1 x)
  show ?case
  proof
    assume "R\<^sup>+\<^sup>+ x x"
    then obtain y where "R y x" "R\<^sup>*\<^sup>* x y" by (metis tranclp.cases rtranclp.rtrancl_refl tranclp_into_rtranclp)
    then have "R\<^sup>+\<^sup>+ y y" by (metis rtranclp_into_tranclp2)
    with 1(2)[OF \<open>R y x\<close>] show False by simp
  qed
qed

lemma lr_loop_progress:
  assumes "\<And>j s s'. call j s = Inr (s', False) \<Longrightarrow> rules_in_progress s' = rules_in_progress s"
  shows "lr_loop call es b s = Inr (s', False) \<Longrightarrow> rules_in_progress s' = rules_in_progress s"
proof (induction es arbitrary: b s)
  case (Cons e es)
  show ?case
  proof (cases "ge_type e = GRE_RULE_REF \<and> b")
    case True
    then obtain s1 where c: "call (unat (ge_value e)) s = Inr (s1, False)"
        "lr_loop call es (rules_may_be_empty s1 ! unat (ge_value e)) s1 = Inr (s', False)"
      using Cons.prems(1) by (auto split: if_splits)
    from Cons.IH[OF c(2)] assms[OF c(1)] show ?thesis by simp
  next
    case False
    then show ?thesis using Cons by auto
  qed
qed simp

lemma detect_progress:
  "llama_grammar_detect_left_recursion fuel rules j s = Inr (s', False) \<Longrightarrow> rules_in_progress s' = rules_in_progress s"
proof (induction fuel arbitrary: j s s')
  case (Suc fuel)
  from Suc.prems(1) obtain s1 where l: "j < length rules" "\<not> rules_in_progress s ! j"
    "lr_loop (llama_grammar_detect_left_recursion fuel rules) (rules ! j) True (lr_enter rules j s) = Inr (s1, False)"
    "s' = lr_leave j s1"
    by (rule detect_Suc)
  have "rules_in_progress s1 = (rules_in_progress s)[j := True]"
    using lr_loop_progress[of "llama_grammar_detect_left_recursion fuel rules", OF _ l(3)] Suc.IH
    by (simp add: lr_enter_def)
  moreover have "(rules_in_progress s)[j := True, j := False] = rules_in_progress s"
    using l(2) by (metis (full_types) list_update_id list_update_overwrite)
  ultimately show ?case using l(4) by (simp add: lr_leave_def)
qed (simp add: llama_grammar_detect_left_recursion.simps)

lemma lr_loop_found:
  assumes "\<And>j s s'. lr_inv rules s \<Longrightarrow> call j s = Inr (s', False)
      \<Longrightarrow> lr_inv rules s' \<and> rules_may_be_empty s' ! j = lit_empty rules j \<and> rules_in_progress s' = rules_in_progress s"
  shows "lr_inv rules s \<Longrightarrow> lr_loop call es b s = Inr (s', True) \<Longrightarrow>
    \<exists>v t t'. v \<in> set (lc_refs rules es b) \<and> lr_inv rules t \<and> rules_in_progress t = rules_in_progress s
      \<and> call v t = Inr (t', True)"
proof (induction es arbitrary: b s)
  case (Cons e es)
  show ?case
  proof (cases "ge_type e = GRE_RULE_REF \<and> b")
    case True
    then obtain s1 found where c: "call (unat (ge_value e)) s = Inr (s1, found)"
      using Cons.prems(2) by auto
    show ?thesis
    proof (cases found)
      case found: True
      then show ?thesis using c True Cons.prems(1) by auto
    next
      case False
      then have "lr_loop call es (rules_may_be_empty s1 ! unat (ge_value e)) s1 = Inr (s', True)"
        using Cons.prems(2) c True by simp
      moreover have a: "lr_inv rules s1" "rules_in_progress s1 = rules_in_progress s"
          "rules_may_be_empty s1 ! unat (ge_value e) = lit_empty rules (unat (ge_value e))"
        using assms[OF Cons.prems(1), of "unat (ge_value e)" s1] c False by auto
      ultimately have "lr_loop call es (lit_empty rules (unat (ge_value e))) s1 = Inr (s', True)" by simp
      from Cons.IH[OF a(1) this] a(2) obtain v t t' where
          "v \<in> set (lc_refs rules es (lit_empty rules (unat (ge_value e))))"
          "lr_inv rules t" "rules_in_progress t = rules_in_progress s" "call v t = Inr (t', True)"
        by auto
      then show ?thesis using True by auto
    qed
  next
    case False
    then show ?thesis using Cons by auto
  qed
qed simp

lemma detect_found:
  "lr_inv rules s \<Longrightarrow> \<forall>j < length rules. rules_in_progress s ! j \<longrightarrow> (corner rules)\<^sup>+\<^sup>+ i j
   \<Longrightarrow> llama_grammar_detect_left_recursion fuel rules i s = Inr (s', True) \<Longrightarrow> \<exists>r. (corner rules)\<^sup>+\<^sup>+ r r"
proof (induction fuel arbitrary: i s s')
  case (Suc fuel)
  have i: "i < length rules"
    using Suc.prems(3) by (simp add: llama_grammar_detect_left_recursion.simps split: if_splits)
  show ?case
  proof (cases "rules_in_progress s ! i")
    case True
    then show ?thesis using Suc.prems(2) i by blast
  next
    case False
    then obtain s1 where
      l: "lr_loop (llama_grammar_detect_left_recursion fuel rules) (rules ! i) True (lr_enter rules i s) = Inr (s1, True)"
      using Suc.prems(3) i by (auto simp: llama_grammar_detect_left_recursion.simps split: if_splits)
    obtain v t t' where v: "corner rules v i" "lr_inv rules t"
        "rules_in_progress t = (rules_in_progress s)[i := True]"
        "llama_grammar_detect_left_recursion fuel rules v t = Inr (t', True)"
      using lr_loop_found[of rules "llama_grammar_detect_left_recursion fuel rules",
          OF _ lr_inv_enter[OF Suc.prems(1) i] l] detect_no_cycle detect_progress i
      by (auto simp: corner_def lr_enter_def)
    have "(corner rules)\<^sup>+\<^sup>+ v j" if "j < length rules" "rules_in_progress t ! j" for j
    proof (cases "j = i")
      case False
      then have "(corner rules)\<^sup>+\<^sup>+ i j" using that v(3) Suc.prems(2) by simp
      then show ?thesis using v(1) by (rule tranclp_into_tranclp2[rotated])
    qed (use v(1) in blast)
    then show ?thesis using Suc.IH[OF v(2) _ v(4)] by blast
  qed
qed (simp add: llama_grammar_detect_left_recursion.simps)

lemma lr_check_from_found:
  "lr_inv rules s \<Longrightarrow> \<forall>j < length rules. \<not> rules_in_progress s ! j \<Longrightarrow> lr_check_from fuel rules is s = Inr True
   \<Longrightarrow> \<exists>r. (corner rules)\<^sup>+\<^sup>+ r r"
proof (induction "is" arbitrary: s)
  case (Cons k "is")
  show ?case
  proof (cases "rules_visited s ! k")
    case True
    with Cons show ?thesis by auto
  next
    case False
    then obtain s' found where d: "llama_grammar_detect_left_recursion fuel rules k s = Inr (s', found)"
      using Cons.prems(3) by auto
    show ?thesis
    proof (cases found)
      case True
      then show ?thesis using detect_found[OF Cons.prems(1), of k fuel s'] Cons.prems(2) d by simp
    next
      case nf: False
      then have "lr_check_from fuel rules is s' = Inr True" using d False Cons.prems(3) by simp
      then show ?thesis using Cons.IH[of s'] detect_no_cycle[OF Cons.prems(1), of fuel k s']
          detect_progress[of fuel rules k s s'] d nf Cons.prems(2) by simp
    qed
  qed
qed simp

section \<open>Advancing a stack returns\<close>

definition nullable_literal :: "llama_grammar_rules \<Rightarrow> bool" where
  "nullable_literal rules \<longleftrightarrow> (\<forall>r < length rules. derives rules [NT r] [] \<longrightarrow> lit_empty rules r)"

definition halts :: "llama_grammar_rules \<Rightarrow> llama_grammar_stack \<Rightarrow> bool" where
  "halts rules st \<longleftrightarrow>
     (\<exists>F. \<forall>fuel \<ge> F. \<forall>acc. \<exists>acc'. llama_grammar_advance_stack fuel rules st acc = Inr acc')"

lemma uniform_bound:
  "(\<forall>x \<in> set xs. \<exists>F::nat. \<forall>f \<ge> F. P f x) \<Longrightarrow> \<exists>F. \<forall>f \<ge> F. \<forall>x \<in> set xs. P f x"
proof (induction xs)
  case (Cons x xs)
  then obtain F G where "\<forall>f \<ge> F. P f x" "\<forall>f \<ge> G. \<forall>x \<in> set xs. P f x" by auto
  then show ?case by (intro exI[of _ "max F G"]) auto
qed simp

lemma fold_res_total:
  "(\<And>x s. x \<in> set xs \<Longrightarrow> \<exists>s'. f x s = Inr s') \<Longrightarrow> \<exists>s'. fold_res f xs s = Inr s'"
proof (induction xs arbitrary: s)
  case (Cons x xs)
  obtain s1 where "f x s = Inr s1" using Cons.prems[of x s] by auto
  moreover have "\<exists>s'. fold_res f xs s1 = Inr s'" using Cons.prems by (intro Cons.IH) auto
  ultimately show ?case by simp
qed simp

lemma halts_Nil [simp]: "halts rules []"
proof -
  have "\<exists>acc'. llama_grammar_advance_stack fuel rules [] acc = Inr acc'" if "1 \<le> fuel" for fuel acc
    using that by (cases fuel) auto
  then show ?thesis unfolding halts_def by blast
qed

lemma halts_char:
  assumes "is_char_type (ge_type (gr_at rules p))" shows "halts rules (p # rest)"
proof -
  have "\<exists>acc'. llama_grammar_advance_stack fuel rules (p # rest) acc = Inr acc'" if "1 \<le> fuel" for fuel acc
    using that assms by (cases fuel) (auto simp: is_char_type_def split: llama_gretype.splits)
  then show ?thesis unfolding halts_def by blast
qed

lemma halts_ref:
  assumes "ge_type (gr_at rules p) = GRE_RULE_REF" "unat (ge_value (gr_at rules p)) = r" "r < length rules"
    and "\<And>i. i \<in> set (alt_starts (rules ! r))
      \<Longrightarrow> halts rules (push_unless_end rules (r, i) (push_unless_end rules (gr_adv p 1) rest))"
  shows "halts rules (p # rest)"
proof -
  let ?st = "\<lambda>i. push_unless_end rules (r, i) (push_unless_end rules (gr_adv p 1) rest)"
  have "\<forall>i \<in> set (alt_starts (rules ! r)).
      \<exists>F. \<forall>fuel \<ge> F. \<forall>acc. \<exists>acc'. llama_grammar_advance_stack fuel rules (?st i) acc = Inr acc'"
    using assms(4) unfolding halts_def by blast
  from uniform_bound[OF this] obtain F where F: "\<forall>fuel \<ge> F. \<forall>i \<in> set (alt_starts (rules ! r)).
      \<forall>acc. \<exists>acc'. llama_grammar_advance_stack fuel rules (?st i) acc = Inr acc'" by blast
  have "\<exists>acc'. llama_grammar_advance_stack fuel rules (p # rest) acc = Inr acc'" if le: "Suc F \<le> fuel" for fuel acc
  proof -
    obtain k where k: "fuel = Suc k" "F \<le> k" using Suc_le_D[OF le] le by auto
    then have "\<exists>acc'. fold_res (\<lambda>i. llama_grammar_advance_stack k rules (?st i)) (alt_starts (rules ! r)) acc = Inr acc'"
      using F by (intro fold_res_total) blast
    then show ?thesis using k assms(1-3) by (simp add: Let_def)
  qed
  then show ?thesis unfolding halts_def by blast
qed

lemma ptr_cases:
  assumes "ptr_ok rules p"
  obtains "llama_grammar_is_end_of_sequence rules p" | "is_char_type (ge_type (gr_at rules p))"
    | "ge_type (gr_at rules p) = GRE_RULE_REF"
proof (cases "gr_from rules p")
  case Nil
  then show ?thesis using assms by (simp add: ptr_ok_def)
next
  case (Cons e es)
  then have "gr_at rules p = e" "elems_ok (length rules) 0 (e # es)"
    using assms by (auto simp: gr_at_from ptr_ok_def)
  then show ?thesis using that
    by (cases "ge_type e") (auto simp: llama_grammar_is_end_of_sequence_def is_end_type_def is_char_type_def)
qed

lemma ref_shorter:
  assumes "ge_type (gr_at rules p) = GRE_RULE_REF"
  shows "length (gr_from rules (gr_adv p 1)) < length (gr_from rules p)"
  using assms by (auto simp: gr_at_from split: list.splits)

lemma lc_refs_ref:
  assumes "ge_type (gr_at rules p) = GRE_RULE_REF" "v = unat (ge_value (gr_at rules p))"
  shows "lc_refs rules (gr_from rules p) True = v # lc_refs rules (gr_from rules (gr_adv p 1)) (lit_empty rules v)"
  using assms by (auto simp: gr_at_from split: list.splits)

lemma lc_refs_alt:
  "j \<in> set (alt_starts_after k es) \<Longrightarrow> set (lc_refs rules (drop (j - k) es) True) \<subseteq> set (lc_refs rules es b)"
proof (induction k es arbitrary: b rule: alt_starts_after.induct)
  case (2 k e es)
  have "k < j" using 2(3) by (rule alt_starts_after_gt)
  then show ?case using 2
    by (auto simp: drop_shift is_end_type_def split: if_splits)
qed simp

lemma lc_refs_alt_start:
  "i \<in> set (alt_starts (rules ! r)) \<Longrightarrow> r < length rules
   \<Longrightarrow> v \<in> set (lc_refs rules (gr_from rules (r, i)) True) \<Longrightarrow> corner rules v r"
  using lc_refs_alt[of i 0 "rules ! r" rules True] by (auto simp: alt_starts_def gr_from_def corner_def)

text \<open>The alternates of a rule without a cycle halt on any continuation that halts if the rule can be empty.\<close>

lemma alternates_halt:
  assumes ok: "rules_ok rules" "nullable_literal rules" and r: "no_cycle rules r" "r < length rules"
  shows "(derives rules [NT r] [] \<longrightarrow> halts rules K) \<Longrightarrow> i \<in> set (alt_starts (rules ! r))
    \<Longrightarrow> halts rules (push_unless_end rules (r, i) K)"
  using r unfolding no_cycle_def
proof (induction r arbitrary: i K rule: accp_induct_rule)
  case (1 r)
  have seq: "halts rules (push_unless_end rules q K)"
    if "ptr_ok rules q" "\<forall>v \<in> set (lc_refs rules (gr_from rules q) True). corner rules v r"
      "derives rules (seq_at rules q) [] \<longrightarrow> halts rules K" for q
    using that
  proof (induction "length (gr_from rules q)" arbitrary: q rule: less_induct)
    case less
    show ?case
    proof (cases rule: ptr_cases[OF less.prems(1)])
      case 1
      then show ?thesis using less.prems(3) by (simp add: push_unless_end_def seq_at_end)
    next
      case 2
      then show ?thesis
        by (auto simp: push_unless_end_def halts_char llama_grammar_is_end_of_sequence_def is_end_type_def
            is_char_type_def)
    next
      case 3
      define v where "v = unat (ge_value (gr_at rules q))"
      note ref = ptr_ok_ref[OF 3 less.prems(1)] lc_refs_ref[OF 3 v_def] seq_at_ref[OF 3]
      have "halts rules (push_unless_end rules (gr_adv q 1) K)" if n: "derives rules [NT v] []"
      proof (rule less.hyps[OF ref_shorter[OF 3] ref(2)])
        have "lit_empty rules v" using n ok(2) ref(1) by (simp add: nullable_literal_def v_def)
        then show "\<forall>u \<in> set (lc_refs rules (gr_from rules (gr_adv q 1)) True). corner rules u r"
          using less.prems(2) ref(3) by auto
        show "derives rules (seq_at rules (gr_adv q 1)) [] \<longrightarrow> halts rules K"
          using less.prems(3) ref(4) derives_append[OF n] by (auto simp: v_def)
      qed
      then have "halts rules (q # K)"
        using 1(2)[of v] less.prems(2) ref(1,3) 3 by (intro halts_ref[of rules q v]) (auto simp: v_def)
      then show ?thesis using 3
        by (simp add: push_unless_end_def llama_grammar_is_end_of_sequence_def is_end_type_def)
    qed
  qed
  show ?case
  proof (rule seq)
    show "ptr_ok rules (r, i)" using alt_starts_ok[OF ok(1) 1(5,4)] .
    show "\<forall>v \<in> set (lc_refs rules (gr_from rules (r, i)) True). corner rules v r"
      using lc_refs_alt_start[OF 1(4,5)] by blast
    show "derives rules (seq_at rules (r, i)) [] \<longrightarrow> halts rules K"
      using 1(3,4,5) by (auto simp: derives_NT_iff alternatives_starts)
  qed
qed

lemma stack_halts:
  assumes ok: "rules_ok rules" "nullable_literal rules" "lr_check rules = Inr False"
  shows "stack_ok rules st \<Longrightarrow> halts rules st"
proof (induction st)
  case (Cons p K)
  have "halts rules (push_unless_end rules q K)" if "ptr_ok rules q" for q
    using that
  proof (induction "length (gr_from rules q)" arbitrary: q rule: less_induct)
    case less
    show ?case
    proof (cases rule: ptr_cases[OF less.prems])
      case 1
      then show ?thesis using Cons by (simp add: push_unless_end_def)
    next
      case 2
      then show ?thesis using Cons by (auto simp: push_unless_end_def halts_char)
    next
      case 3
      note ref = ptr_ok_ref[OF 3 less.prems]
      have "halts rules (push_unless_end rules (gr_adv q 1) K)"
        by (rule less.hyps[OF ref_shorter[OF 3] ref(2)])
      then have "halts rules (q # K)"
        using alternates_halt[OF ok(1,2) lr_check_no_cycle[OF ok(3) ref(1)] ref(1)] ref(1) 3
        by (intro halts_ref) auto
      then show ?thesis using Cons by (simp add: push_unless_end_def)
    qed
  qed
  then show ?case using Cons.prems by (metis push_unless_end_def stack_ok_simps(2))
qed simp

lemma fold_res_mono:
  "(\<And>x s s'. x \<in> set xs \<Longrightarrow> f x s = Inr s' \<Longrightarrow> g x s = Inr s') \<Longrightarrow> fold_res f xs s = Inr s' \<Longrightarrow> fold_res g xs s = Inr s'"
proof (induction xs arbitrary: s)
  case (Cons x xs)
  then obtain s1 where "f x s = Inr s1" "fold_res f xs s1 = Inr s'" by auto
  with Cons show ?case by simp
qed simp

lemma advance_mono:
  "llama_grammar_advance_stack f rules st acc = Inr acc' \<Longrightarrow> f \<le> g \<Longrightarrow> llama_grammar_advance_stack g rules st acc = Inr acc'"
proof (induction f arbitrary: g st acc acc')
  case (Suc f)
  then obtain g' where g: "g = Suc g'" "f \<le> g'" using Suc_le_D by blast
  show ?case
  proof (cases st)
    case Nil
    then show ?thesis using Suc.prems g by simp
  next
    case (Cons p rest)
    show ?thesis
    proof (cases "ge_type (gr_at rules p) = GRE_RULE_REF")
      case True
      then show ?thesis using Suc.prems(1) Cons g
        by (auto simp: Let_def split: if_splits elim!: fold_res_mono[rotated] intro: Suc.IH)
    next
      case False
      then show ?thesis using Suc.prems(1) Cons g by (auto split: llama_gretype.splits)
    qed
  qed
qed simp

lemma accept_one_mono:
  "accept_one f rules c st acc = Inr acc' \<Longrightarrow> f \<le> g \<Longrightarrow> accept_one g rules c st acc = Inr acc'"
  by (auto simp: accept_one_def split: list.splits if_splits prod.splits intro: advance_mono)

lemma accept_mono:
  "llama_grammar_accept f rules stacks c = Inr acc' \<Longrightarrow> f \<le> g \<Longrightarrow> llama_grammar_accept g rules stacks c = Inr acc'"
  unfolding llama_grammar_accept_def by (erule fold_res_mono[rotated]) (rule accept_one_mono)

lemma settled_step:
  assumes "settled rules (p # rest)"
  obtains pc rs p' where "stack_ok rules (push_unless_end rules p' rest)"
    "\<And>c. llama_grammar_match_char rules p c = Inr (class_in pc rs c, p')"
    "stack_syms rules (p # rest) = T pc rs # stack_syms rules (push_unless_end rules p' rest)"
proof -
  have "is_char_type (ge_type (gr_at rules p))" "ptr_ok rules p" "stack_ok rules rest"
    using assms by (auto simp: settled_def)
  then obtain pc rs p' where m: "ptr_ok rules p'" "\<And>c. llama_grammar_match_char rules p c = Inr (class_in pc rs c, p')"
      "seq_at rules p = T pc rs # seq_at rules p'"
    by (elim match_char_class) blast+
  then show ?thesis using \<open>stack_ok rules rest\<close> by (intro that[OF _ m(2)]) auto
qed

lemma accept_halts:
  assumes ok: "rules_ok rules" "nullable_literal rules" "lr_check rules = Inr False"
    and "all_settled rules stacks"
  shows "\<exists>F stacks'. \<forall>fuel \<ge> F. llama_grammar_accept fuel rules stacks c = Inr stacks'"
proof -
  have "\<forall>st \<in> set stacks. \<exists>F. \<forall>fuel \<ge> F. \<forall>acc. \<exists>acc'. accept_one fuel rules c st acc = Inr acc'"
  proof
    fix st assume "st \<in> set stacks"
    then have st: "settled rules st" using assms(4) by (simp add: all_settled_def)
    show "\<exists>F. \<forall>fuel \<ge> F. \<forall>acc. \<exists>acc'. accept_one fuel rules c st acc = Inr acc'"
    proof (cases st)
      case Nil
      then show ?thesis by (simp add: accept_one_def)
    next
      case (Cons p rest)
      obtain pc rs p' where m: "stack_ok rules (push_unless_end rules p' rest)"
          "\<And>c. llama_grammar_match_char rules p c = Inr (class_in pc rs c, p')"
        using settled_step[of rules p rest] st Cons by metis
      from stack_halts[OF ok m(1)] show ?thesis
        unfolding halts_def accept_one_def using Cons m(2) by (cases "class_in pc rs c") auto
    qed
  qed
  from uniform_bound[OF this] obtain F where
    F: "\<forall>fuel \<ge> F. \<forall>st \<in> set stacks. \<forall>acc. \<exists>acc'. accept_one fuel rules c st acc = Inr acc'" by blast
  then have "\<exists>stacks'. llama_grammar_accept F rules stacks c = Inr stacks'"
    unfolding llama_grammar_accept_def by (intro fold_res_total) blast
  then show ?thesis using accept_mono by blast
qed

lemma run_halts:
  assumes ok: "rules_ok rules" "nullable_literal rules" "lr_check rules = Inr False"
  shows "all_settled rules stacks \<Longrightarrow>
    \<exists>F stacks'. \<forall>fuel \<ge> F. fold_res (\<lambda>c q. llama_grammar_accept fuel rules q c) w stacks = Inr stacks'"
proof (induction w arbitrary: stacks)
  case (Cons c w)
  obtain F q where F: "\<forall>fuel \<ge> F. llama_grammar_accept fuel rules stacks c = Inr q"
    using accept_halts[OF ok Cons.prems] by blast
  then have "all_settled rules q" using accept_lang(1)[OF ok(1) Cons.prems] by blast
  from Cons.IH[OF this] obtain G q' where
    "\<forall>fuel \<ge> G. fold_res (\<lambda>c q. llama_grammar_accept fuel rules q c) w q = Inr q'" by blast
  with F show ?case by (intro exI[of _ "max F G"] exI[of _ q']) simp
qed simp

lemma init_halts:
  assumes ok: "rules_ok rules" "nullable_literal rules" "lr_check rules = Inr False" and "root < length rules"
  shows "\<exists>F stacks. \<forall>fuel \<ge> F. init_stacks fuel rules root = Inr stacks"
proof -
  have "\<forall>i \<in> set (alt_starts (rules ! root)). \<exists>F. \<forall>fuel \<ge> F. \<forall>acc. \<exists>acc'.
      llama_grammar_advance_stack fuel rules (push_unless_end rules (root, i) []) acc = Inr acc'"
  proof
    fix i assume "i \<in> set (alt_starts (rules ! root))"
    then have "stack_ok rules (push_unless_end rules (root, i) [])" using alt_starts_ok[OF ok(1) assms(4)] by auto
    from stack_halts[OF ok this] show "\<exists>F. \<forall>fuel \<ge> F. \<forall>acc. \<exists>acc'.
        llama_grammar_advance_stack fuel rules (push_unless_end rules (root, i) []) acc = Inr acc'"
      unfolding halts_def .
  qed
  from uniform_bound[OF this] obtain F where F: "\<forall>fuel \<ge> F. \<forall>i \<in> set (alt_starts (rules ! root)). \<forall>acc. \<exists>acc'.
      llama_grammar_advance_stack fuel rules (push_unless_end rules (root, i) []) acc = Inr acc'" by blast
  then have "\<exists>stacks. init_stacks F rules root = Inr stacks"
    unfolding init_stacks_def by (intro fold_res_total) blast
  then obtain stacks where s: "init_stacks F rules root = Inr stacks" by blast
  have "init_stacks fuel rules root = Inr stacks" if "F \<le> fuel" for fuel
    using s that unfolding init_stacks_def by (elim fold_res_mono[rotated]) (erule advance_mono)
  then show ?thesis by blast
qed

section \<open>Safety\<close>

lemma fold_res_Inl:
  "fold_res f xs s = Inl e \<Longrightarrow> \<exists>x \<in> set xs. \<exists>t. f x t = Inl e"
  by (induction xs arbitrary: s) (auto simp: bind_res_eq_Inl)

lemma advance_safe:
  "rules_ok rules \<Longrightarrow> stack_ok rules st \<Longrightarrow> llama_grammar_advance_stack fuel rules st acc = Inl e \<Longrightarrow> e = Diverge"
proof (induction fuel arbitrary: st acc)
  case (Suc fuel)
  show ?case
  proof (cases st)
    case (Cons p rest)
    then have p: "ptr_ok rules p" "\<not> llama_grammar_is_end_of_sequence rules p" "stack_ok rules rest"
      using Suc.prems(2) by auto
    show ?thesis
    proof (cases rule: ptr_cases[OF p(1)])
      case 3
      define r where "r = unat (ge_value (gr_at rules p))"
      note ref = ptr_ok_ref[OF 3 p(1), folded r_def]
      have "fold_res (\<lambda>i. llama_grammar_advance_stack fuel rules
          (push_unless_end rules (r, i) (push_unless_end rules (gr_adv p 1) rest))) (alt_starts (rules ! r)) acc = Inl e"
        using Suc.prems(3) Cons 3 ref by (simp add: Let_def r_def)
      then obtain i t where i: "i \<in> set (alt_starts (rules ! r))" "llama_grammar_advance_stack fuel rules
          (push_unless_end rules (r, i) (push_unless_end rules (gr_adv p 1) rest)) t = Inl e"
        by (auto dest: fold_res_Inl)
      show ?thesis
        using Suc.IH[OF Suc.prems(1) _ i(2)] alt_starts_ok[OF Suc.prems(1) ref(1) i(1)] ref(2) p(3) by auto
    qed (use p Cons Suc.prems(3) in \<open>auto simp: is_char_type_def\<close>)
  qed (use Suc.prems(3) in simp)
qed simp

lemma accept_safe:
  assumes "rules_ok rules" "all_settled rules stacks" "llama_grammar_accept fuel rules stacks c = Inl e"
  shows "e = Diverge"
proof -
  obtain st acc where st: "st \<in> set stacks" "accept_one fuel rules c st acc = Inl e"
    using fold_res_Inl[of "accept_one fuel rules c"] assms(3) unfolding llama_grammar_accept_def by blast
  have "st \<noteq> []" using st(2) by (auto simp: accept_one_def)
  then obtain p rest where c: "st = p # rest" by (auto simp: neq_Nil_conv)
  obtain pc rs p' where m: "stack_ok rules (push_unless_end rules p' rest)"
      "\<And>c. llama_grammar_match_char rules p c = Inr (class_in pc rs c, p')"
    using settled_step[of rules p rest] st assms(2) c unfolding all_settled_def by metis
  show ?thesis
    using st(2) c m(2) advance_safe[OF assms(1) m(1)] by (cases "class_in pc rs c") (auto simp: accept_one_def)
qed

lemma run_safe:
  "rules_ok rules \<Longrightarrow> all_settled rules stacks
   \<Longrightarrow> fold_res (\<lambda>c q. llama_grammar_accept fuel rules q c) w stacks = Inl e \<Longrightarrow> e = Diverge"
proof (induction w arbitrary: stacks)
  case (Cons c w)
  from Cons.prems(3) consider "llama_grammar_accept fuel rules stacks c = Inl e"
    | q where "llama_grammar_accept fuel rules stacks c = Inr q"
        "fold_res (\<lambda>c q. llama_grammar_accept fuel rules q c) w q = Inl e"
    by (auto simp: bind_res_eq_Inl)
  then show ?case
  proof cases
    case 1
    then show ?thesis by (rule accept_safe[OF Cons.prems(1,2)])
  next
    case 2
    show ?thesis by (rule Cons.IH[OF Cons.prems(1) accept_lang(1)[OF Cons.prems(1,2) 2(1)] 2(2)])
  qed
qed simp

lemma init_safe:
  assumes "rules_ok rules" "root < length rules" "init_stacks fuel rules root = Inl e" shows "e = Diverge"
proof -
  obtain i acc where i: "i \<in> set (alt_starts (rules ! root))"
      "llama_grammar_advance_stack fuel rules (push_unless_end rules (root, i) []) acc = Inl e"
    using assms(3) unfolding init_stacks_def by (auto dest: fold_res_Inl)
  have "stack_ok rules (push_unless_end rules (root, i) [])" using alt_starts_ok[OF assms(1,2) i(1)] by auto
  from advance_safe[OF assms(1) this i(2)] show ?thesis .
qed

section \<open>Properties\<close>

text \<open>The run of the engine over a string of code points.\<close>

definition engine_run :: "nat \<Rightarrow> llama_grammar_rules \<Rightarrow> nat \<Rightarrow> u32 list \<Rightarrow> llama_grammar_stacks res" where
  "engine_run fuel rules root w =
     bind_res (init_stacks fuel rules root) (fold_res (\<lambda>c q. llama_grammar_accept fuel rules q c) w)"

lemma engine_run_lang:
  assumes "rules_ok rules" "root < length rules" "engine_run fuel rules root w = Inr stacks"
  shows "([] \<in> set stacks \<longleftrightarrow> derives rules [NT root] w) \<and> ((\<exists>v. derives rules [NT root] (w @ v)) \<longrightarrow> stacks \<noteq> [])"
proof -
  obtain s0 where s: "init_stacks fuel rules root = Inr s0"
      "fold_res (\<lambda>c q. llama_grammar_accept fuel rules q c) w s0 = Inr stacks"
    using assms(3) by (auto simp: engine_run_def)
  note s0 = init_stacks_lang[OF assms(1,2) s(1)]
  have "[] \<in> set stacks \<longleftrightarrow> lang rules s0 w"
    using engine.run_final[of rules s0 fuel w stacks] assms(1) s0(1) s(2) by simp
  moreover have "\<forall>v. lang rules stacks v \<longleftrightarrow> lang rules s0 (w @ v)"
    using engine.run_language[of rules s0 fuel w stacks] assms(1) s0(1) s(2) by simp
  ultimately show ?thesis using s0(2) by (auto simp: lang_def)
qed

text \<open>C6: The grammar engine decides the grammar. On well-formed rules that pass the left-recursion check
  and whose empty rules are literally empty, the engine always returns on every string of code points, and
  the empty stack is among its stacks exactly when the start rule derives the string; it never
  loses all stacks on a prefix that can still be completed.\<close>

theorem grammar_engine_decides:
  assumes "rules_ok rules" "root < length rules" "lr_check rules = Inr False" "nullable_literal rules"
  shows "\<exists>F. \<forall>fuel \<ge> F. \<exists>stacks. engine_run fuel rules root w = Inr stacks
    \<and> ([] \<in> set stacks \<longleftrightarrow> derives rules [NT root] w)
    \<and> ((\<exists>v. derives rules [NT root] (w @ v)) \<longrightarrow> stacks \<noteq> [])"
proof -
  obtain F s0 where F: "\<forall>fuel \<ge> F. init_stacks fuel rules root = Inr s0"
    using init_halts[OF assms(1,4,3,2)] by blast
  then have "all_settled rules s0" using init_stacks_lang(1)[OF assms(1,2)] by blast
  from run_halts[OF assms(1,4,3) this] obtain G stacks where
    "\<forall>fuel \<ge> G. fold_res (\<lambda>c q. llama_grammar_accept fuel rules q c) w s0 = Inr stacks" by blast
  with F have "\<forall>fuel \<ge> max F G. engine_run fuel rules root w = Inr stacks" by (simp add: engine_run_def)
  then show ?thesis using engine_run_lang[OF assms(1,2)] by blast
qed

text \<open>A grammar with one rule: a non-empty string of decimal digits.\<close>

definition ex_digits :: llama_grammar_rules where
  "ex_digits = [[GE GRE_CHAR 48, GE GRE_CHAR_RNG_UPPER 57, GE GRE_RULE_REF 0, GE GRE_ALT 0,
                 GE GRE_CHAR 48, GE GRE_CHAR_RNG_UPPER 57, GE GRE_END 0]]"

lemma ex_digits_alternatives:
  "alternatives ex_digits 0 = [[T True [(48, 57)], NT 0], [T True [(48, 57)]]]"
  by (simp add: alternatives_def ex_digits_def class_items.simps class_item_def next_is_def is_end_type_def
      is_positive_char_def)

lemma ex_digits_ok:
  "rules_ok ex_digits" "length ex_digits = 1" "lr_check ex_digits = Inr False" "nullable_literal ex_digits"
proof -
  show "rules_ok ex_digits" "length ex_digits = 1" "lr_check ex_digits = Inr False" by code_simp+
  show "nullable_literal ex_digits"
    by (auto simp: nullable_literal_def derives_NT_iff derives_T_iff ex_digits_alternatives \<open>length ex_digits = 1\<close>)
qed

theorem grammar_engine_decides_witness:
  "(rules_ok ex_digits \<and> 0 < length ex_digits \<and> lr_check ex_digits = Inr False \<and> nullable_literal ex_digits) \<and>
   (\<exists>F. \<forall>fuel \<ge> F. \<exists>stacks. engine_run fuel ex_digits 0 [52, 50] = Inr stacks
    \<and> ([] \<in> set stacks \<longleftrightarrow> derives ex_digits [NT 0] [52, 50])
    \<and> ((\<exists>v. derives ex_digits [NT 0] ([52, 50] @ v)) \<longrightarrow> stacks \<noteq> []))"
  using grammar_engine_decides[of ex_digits 0 "[52, 50]"] ex_digits_ok by simp

text \<open>C26: On any well-formed rules, whatever the left-recursion check says, a run of the engine
  never aborts and never dereferences a missing rule: it returns stacks that decide the
  string, or it does not return.\<close>

theorem grammar_engine_safe:
  assumes "rules_ok rules" "root < length rules"
  shows "case engine_run fuel rules root w of
      Inl e \<Rightarrow> e = Diverge
    | Inr stacks \<Rightarrow> ([] \<in> set stacks \<longleftrightarrow> derives rules [NT root] w)"
proof (cases "engine_run fuel rules root w")
  case (Inl e)
  then consider "init_stacks fuel rules root = Inl e"
    | q where "init_stacks fuel rules root = Inr q"
        "fold_res (\<lambda>c q. llama_grammar_accept fuel rules q c) w q = Inl e"
    by (auto simp: engine_run_def bind_res_eq_Inl)
  then have "e = Diverge"
    by cases (rule init_safe[OF assms], assumption, rule run_safe[OF assms(1) init_stacks_lang(1)[OF assms]])
  with Inl show ?thesis by simp
next
  case (Inr stacks)
  with engine_run_lang[OF assms Inr] show ?thesis by simp
qed

theorem grammar_engine_safe_witness:
  "(rules_ok ex_digits \<and> 0 < length ex_digits) \<and>
   (case engine_run 10 ex_digits 0 [52] of
      Inl e \<Rightarrow> e = Diverge
    | Inr stacks \<Rightarrow> ([] \<in> set stacks \<longleftrightarrow> derives ex_digits [NT 0] [52]))"
  using grammar_engine_safe[of ex_digits 0 "[52]" 10] ex_digits_ok by simp

lemma elems_ok_refs: "elems_ok n st es \<Longrightarrow> refs_ok n es"
  by (induction es arbitrary: st) (auto simp: refs_ok_def split: llama_gretype.splits)

text \<open>C27: The left-recursion check answers on every well-formed rule set, and it answers yes exactly
  when the references it follows (through rules that have a literally empty alternate) form a cycle.\<close>

theorem left_recursion_check_exact:
  assumes "rules_ok rules"
  shows "\<exists>found. lr_check rules = Inr found \<and> (found \<longleftrightarrow> (\<exists>r. (corner rules)\<^sup>+\<^sup>+ r r))"
proof -
  have init: "lr_inv rules (lr_init (length rules))"
    by (simp add: lr_inv_def lr_init_def lr_sized_def)
  have "\<forall>es \<in> set rules. refs_ok (length rules) es" using assms elems_ok_refs by (auto simp: rules_ok_def)
  then obtain found where f: "lr_check rules = Inr found"
    using lr_check_from_returns[of rules "lr_init (length rules)" "[0..<length rules]"] init
    by (auto simp: lr_check_def lr_inv_def)
  have "\<exists>r. (corner rules)\<^sup>+\<^sup>+ r r" if found
    using lr_check_from_found[OF init] f that by (auto simp: lr_check_def lr_init_def)
  moreover have "\<not> (corner rules)\<^sup>+\<^sup>+ r r" if "\<not> found" for r
  proof
    assume c: "(corner rules)\<^sup>+\<^sup>+ r r"
    then have "r < length rules" by (auto simp: corner_def elim: tranclp.cases)
    then have "Wellfounded.accp (corner rules) r"
      using lr_check_no_cycle[of rules r] f that by (simp add: no_cycle_def)
    then show False using accp_acyclic c by fast
  qed
  ultimately show ?thesis using f by blast
qed

theorem left_recursion_check_exact_witness:
  "rules_ok ex_digits \<and>
   (\<exists>found. lr_check ex_digits = Inr found \<and> (found \<longleftrightarrow> (\<exists>r. (corner ex_digits)\<^sup>+\<^sup>+ r r)))"
  using left_recursion_check_exact[of ex_digits] ex_digits_ok(1) by simp

text \<open>The rules of \<^verbatim>\<open>root ::= ws root "x" | "y"\<close> with \<^verbatim>\<open>ws ::= [ ]*\<close>.\<close>

definition ex_hidden :: llama_grammar_rules where
  "ex_hidden = [[GE GRE_RULE_REF 1, GE GRE_RULE_REF 0, GE GRE_CHAR 120, GE GRE_ALT 0, GE GRE_CHAR 121, GE GRE_END 0],
                [GE GRE_RULE_REF 2, GE GRE_END 0],
                [GE GRE_CHAR 32, GE GRE_RULE_REF 2, GE GRE_ALT 0, GE GRE_END 0]]"

lemma ex_hidden_elems:
  "gr_at ex_hidden (0, 0) = GE GRE_RULE_REF 1" "gr_at ex_hidden (0, Suc 0) = GE GRE_RULE_REF 0"
  "gr_at ex_hidden (Suc 0, 0) = GE GRE_RULE_REF 2" "gr_at ex_hidden (2, 0) = GE GRE_CHAR 32"
  "length ex_hidden = 3" "alt_starts (ex_hidden ! 0) = [0, 4]" "alt_starts (ex_hidden ! Suc 0) = [0]"
  "alt_starts (ex_hidden ! 2) = [0, 3]"
  by code_simp+

lemma ex_hidden_push:
  "push_unless_end ex_hidden (0, 0) K = (0, 0) # K" "push_unless_end ex_hidden (0, Suc 0) K = (0, Suc 0) # K"
  "push_unless_end ex_hidden (0, Suc (Suc 0)) K = (0, Suc (Suc 0)) # K" "push_unless_end ex_hidden (Suc 0, 0) K = (Suc 0, 0) # K"
  "push_unless_end ex_hidden (Suc 0, Suc 0) K = K" "push_unless_end ex_hidden (2, 0) K = (2, 0) # K"
  "push_unless_end ex_hidden (2, 3) K = K"
  by (simp_all add: push_unless_end_def llama_grammar_is_end_of_sequence_def is_end_type_def gr_at_def ex_hidden_def)

lemma bind_res_Inr [simp]: "bind_res m Inr = m"
  by (cases m) simp_all

lemma fold_res_Nil_eta: "fold_res f [] = Inr"
  by (rule ext) simp

lemma fold_res_single_eta: "fold_res f [x] = f x"
  by (rule ext) (simp add: fold_res_Nil_eta)

lemma ex_hidden_steps:
  "llama_grammar_advance_stack (Suc f) ex_hidden ((0, 0) # K) acc
     = llama_grammar_advance_stack f ex_hidden ((Suc 0, 0) # (0, Suc 0) # K) acc"
  "llama_grammar_advance_stack (Suc f) ex_hidden ((Suc 0, 0) # K) acc
     = bind_res (llama_grammar_advance_stack f ex_hidden ((2, 0) # K) acc) (llama_grammar_advance_stack f ex_hidden K)"
  "llama_grammar_advance_stack (Suc f) ex_hidden ((2, 0) # K) acc = Inr (add_stack ((2, 0) # K) acc)"
  "llama_grammar_advance_stack f ex_hidden ((0, 0) # (0, Suc (Suc 0)) # K) acc = Inl Diverge
     \<Longrightarrow> llama_grammar_advance_stack (Suc f) ex_hidden ((0, Suc 0) # K) acc = Inl Diverge"
  by (simp_all add: ex_hidden_elems ex_hidden_push Let_def fold_res_Nil_eta fold_res_single_eta)

lemma ex_hidden_loops: "llama_grammar_advance_stack f ex_hidden ((0, 0) # K) acc = Inl Diverge"
proof (induction f arbitrary: K acc rule: less_induct)
  case (less f)
  consider "f = 0" | "f = 1" | "f = 2" | g where "f = Suc (Suc (Suc g))"
    by (metis One_nat_def Suc_1 not0_implies_Suc)
  then show ?case
  proof cases
    case 4
    then show ?thesis using less.IH[of g] by (simp add: ex_hidden_steps del: llama_grammar_advance_stack.simps(2,3))
  qed (simp_all add: ex_hidden_steps numeral_2_eq_2 del: llama_grammar_advance_stack.simps(2,3))
qed

text \<open>C28: The check misses rules that are empty through another rule: it accepts the grammar
  \<^verbatim>\<open>root ::= ws root "x" | "y"\<close>, \<^verbatim>\<open>ws ::= [ ]*\<close>, whose start rule is left-recursive once \<^verbatim>\<open>ws\<close> is empty,
  and building the initial stacks then recurses without end.\<close>

theorem left_recursion_missed:
  "rules_ok ex_hidden \<and> lr_check ex_hidden = Inr False \<and> (\<forall>fuel. init_stacks fuel ex_hidden 0 = Inl Diverge)"
proof -
  have "init_stacks fuel ex_hidden 0 = Inl Diverge" for fuel
    by (simp add: init_stacks_def ex_hidden_elems ex_hidden_push ex_hidden_loops
        del: llama_grammar_advance_stack.simps)
  moreover have "rules_ok ex_hidden" "lr_check ex_hidden = Inr False" by code_simp+
  ultimately show ?thesis by simp
qed

end
