(* ===== verification/Grammar_Sampler.thy ===== *)
theory Grammar_Sampler
  imports Grammar_Term
begin

text \<open>
  Constraining a sampler with a grammar (lines 746-763 and 851-1219 of \<open>llama-grammar.cpp\<close>): which
  candidate tokens the stacks reject, the grammar object with its lazy triggers, and
  accepting a sampled token. The vocabulary is code outside the grammar: \<open>token_to_piece\<close> and
  \<open>is_eog\<close> are arguments.
\<close>

section \<open>Rejecting candidates\<close>

text \<open>A candidate points into the decoded code points of its token, which end in 0.\<close>

record llama_grammar_candidate =
  gc_index :: nat
  gc_data :: "u32 list"
  gc_off :: nat
  gc_partial :: llama_partial_utf8

definition cand_at :: "llama_grammar_candidate \<Rightarrow> u32" where
  "cand_at tok = gc_data tok ! gc_off tok"

definition cand_next :: "llama_grammar_candidate \<Rightarrow> llama_grammar_candidate" where
  "cand_next tok = tok\<lparr>gc_off := gc_off tok + 1\<rparr>"

definition cand_prev :: "llama_grammar_candidate \<Rightarrow> llama_grammar_candidate" where
  "cand_prev tok = tok\<lparr>gc_off := gc_off tok - 1\<rparr>"

text \<open>The loop over the candidates at a stack whose top is \<open>stack_pos\<close>: rejected now, or continued.\<close>

definition reject_scan ::
  "llama_grammar_rules \<Rightarrow> gptr \<Rightarrow> llama_grammar_candidate
     \<Rightarrow> llama_grammar_candidate list \<times> llama_grammar_candidate list
     \<Rightarrow> (llama_grammar_candidate list \<times> llama_grammar_candidate list) res" where
  "reject_scan rules stack_pos tok acc =
     (case acc of (rejects, next_candidates) \<Rightarrow>
        if cand_at tok = 0 then
          (if pu_n_remain (gc_partial tok) \<noteq> 0 then
             bind_res (llama_grammar_match_partial_char rules stack_pos (gc_partial tok)) (\<lambda>ok.
               Inr (if ok then (rejects, next_candidates) else (rejects @ [tok], next_candidates)))
           else Inr (rejects, next_candidates))
        else
          bind_res (llama_grammar_match_char rules stack_pos (cand_at tok)) (\<lambda>(matched, _).
            Inr (if matched then (rejects, next_candidates @ [cand_next tok])
                 else (rejects @ [tok], next_candidates))))"

text \<open>\<open>llama_grammar_reject_candidates\<close>, over the call for one stack.\<close>

definition reject_each ::
  "(llama_grammar_stack \<Rightarrow> llama_grammar_candidate list \<Rightarrow> llama_grammar_candidate list res)
     \<Rightarrow> llama_grammar_stacks \<Rightarrow> llama_grammar_candidate list \<Rightarrow> llama_grammar_candidate list res" where
  "reject_each for_stack stacks candidates =
     (case stacks of
        [] \<Rightarrow> Inl GgmlAbort
      | st # sts \<Rightarrow>
          if candidates = [] then Inr []
          else bind_res (for_stack st candidates) (fold_res for_stack sts))"

text \<open>The recursion goes one code point deeper with every call; \<open>depth\<close> bounds it.\<close>

fun llama_grammar_reject_candidates_for_stack ::
  "nat \<Rightarrow> nat \<Rightarrow> llama_grammar_rules \<Rightarrow> llama_grammar_stack \<Rightarrow> llama_grammar_candidate list
     \<Rightarrow> llama_grammar_candidate list res" where
  "llama_grammar_reject_candidates_for_stack 0 fuel rules stack candidates = Inl Diverge"
| "llama_grammar_reject_candidates_for_stack (Suc depth) fuel rules stack candidates =
     (case stack of
        [] \<Rightarrow> Inr (filter (\<lambda>tok. cand_at tok \<noteq> 0 \<or> pu_n_remain (gc_partial tok) \<noteq> 0) candidates)
      | stack_pos # rest \<Rightarrow>
          bind_res (fold_res (reject_scan rules stack_pos) candidates ([], [])) (\<lambda>(rejects, next_candidates).
          bind_res (llama_grammar_match_char rules stack_pos 0) (\<lambda>(_, stack_pos_after).
          bind_res (llama_grammar_advance_stack fuel rules (push_unless_end rules stack_pos_after rest) [])
            (\<lambda>next_stacks.
          bind_res (reject_each (llama_grammar_reject_candidates_for_stack depth fuel rules) next_stacks next_candidates)
            (\<lambda>next_rejects. Inr (rejects @ map cand_prev next_rejects))))))"

definition llama_grammar_reject_candidates ::
  "nat \<Rightarrow> nat \<Rightarrow> llama_grammar_rules \<Rightarrow> llama_grammar_stacks \<Rightarrow> llama_grammar_candidate list
     \<Rightarrow> llama_grammar_candidate list res" where
  "llama_grammar_reject_candidates depth fuel rules =
     reject_each (llama_grammar_reject_candidates_for_stack depth fuel rules)"

section \<open>The grammar object\<close>

record llama_grammar =
  g_rules :: llama_grammar_rules
  g_stacks :: llama_grammar_stacks
  g_partial_utf8 :: llama_partial_utf8
  g_lazy :: bool
  g_awaiting_trigger :: bool
  g_trigger_buffer :: "u8 list"
  g_trigger_tokens :: "int list"
  g_trigger_words :: "u8 list list"

text \<open>The first \<open>llama_grammar_init_impl\<close>: rules are read up to their first \<open>END\<close> (lines 915-922); a rule
  without one is read past its end. \<open>Inr None\<close> is the null pointer for a left-recursive grammar.\<close>

definition copy_rule :: "llama_grammar_element list \<Rightarrow> llama_grammar_rule res" where
  "copy_rule es =
     (if \<exists>e \<in> set es. ge_type e = GRE_END
      then Inr (takeWhile (\<lambda>e. ge_type e \<noteq> GRE_END) es @ [GE GRE_END 0])
      else Inl Undef)"

definition llama_grammar_init_rules ::
  "nat \<Rightarrow> llama_grammar_rules \<Rightarrow> nat \<Rightarrow> bool \<Rightarrow> u8 list list \<Rightarrow> int list \<Rightarrow> llama_grammar option res" where
  "llama_grammar_init_rules fuel rules start lz trigger_words trigger_tokens =
     bind_res (map_res copy_rule rules) (\<lambda>vec_rules.
     bind_res (lr_check vec_rules) (\<lambda>left_recursive.
       if left_recursive then Inr None
       else if start \<ge> length vec_rules then Inl Undef
       else bind_res (init_stacks fuel vec_rules start) (\<lambda>stacks.
         Inr (Some \<lparr>g_rules = vec_rules, g_stacks = stacks,
                    g_partial_utf8 = \<lparr>pu_value = 0, pu_n_remain = 0\<rparr>,
                    g_lazy = lz, g_awaiting_trigger = lz, g_trigger_buffer = [],
                    g_trigger_tokens = trigger_tokens, g_trigger_words = trigger_words\<rparr>))))"

text \<open>\<open>llama_grammar_clone_impl\<close>: the stacks of the copy point into the copy of the rules at the same
  places. A pointer is a place here, so the loops that redirect it find it among the rules.\<close>

definition redirect :: "llama_grammar_rules \<Rightarrow> gptr \<Rightarrow> gptr" where
  "redirect rules p =
     fold (\<lambda>ir0 q. fold (\<lambda>ir1 q. if p = (ir0, ir1) then (ir0, ir1) else q) [0..<length (rules ! ir0)] q)
       [0..<length rules] p"

definition llama_grammar_clone_impl :: "llama_grammar \<Rightarrow> llama_grammar" where
  "llama_grammar_clone_impl g = g\<lparr>g_stacks := map (map (redirect (g_rules g))) (g_stacks g)\<rparr>"

text \<open>\<open>llama_grammar_accept_str\<close>: the decoded piece without its terminating 0.\<close>

definition llama_grammar_accept_str :: "nat \<Rightarrow> llama_grammar \<Rightarrow> u8 list \<Rightarrow> llama_grammar res" where
  "llama_grammar_accept_str fuel g piece =
     (case decode_utf8 piece (g_partial_utf8 g) of (code_points, partial) \<Rightarrow>
        bind_res (fold_res (\<lambda>c stacks. llama_grammar_accept fuel (g_rules g) stacks c)
                    (butlast code_points) (g_stacks g)) (\<lambda>stacks.
          if stacks = [] then Inl (Throw ''Unexpected empty grammar stack after accepting piece'')
          else Inr (g\<lparr>g_stacks := stacks, g_partial_utf8 := partial\<rparr>)))"

text \<open>\<open>std::string::find\<close>: the first position at which the word occurs.\<close>

definition str_find :: "u8 list \<Rightarrow> u8 list \<Rightarrow> nat option" where
  "str_find s w = find (\<lambda>i. take (length w) (drop i s) = w) [0..<length s + 1 - length w]"

text \<open>The first trigger word that occurs in the buffer, and where.\<close>

fun find_trigger :: "u8 list \<Rightarrow> u8 list list \<Rightarrow> nat option" where
  "find_trigger buf [] = None"
| "find_trigger buf (w # ws) = (case str_find buf w of Some i \<Rightarrow> Some i | None \<Rightarrow> find_trigger buf ws)"

definition llama_grammar_accept_impl ::
  "nat \<Rightarrow> (int \<Rightarrow> u8 list) \<Rightarrow> (int \<Rightarrow> bool) \<Rightarrow> llama_grammar \<Rightarrow> int \<Rightarrow> llama_grammar res" where
  "llama_grammar_accept_impl fuel token_to_piece is_eog g token =
     (let piece = token_to_piece token in
      if g_awaiting_trigger g then
        (if token \<in> set (g_trigger_tokens g) then
           llama_grammar_accept_str fuel (g\<lparr>g_awaiting_trigger := False, g_trigger_buffer := []\<rparr>) piece
         else
           (let buf = g_trigger_buffer g @ piece in
            case find_trigger buf (g_trigger_words g) of
              Some i \<Rightarrow> llama_grammar_accept_str fuel (g\<lparr>g_awaiting_trigger := False, g_trigger_buffer := []\<rparr>) (drop i buf)
            | None \<Rightarrow> Inr (g\<lparr>g_trigger_buffer := buf\<rparr>)))
      else if is_eog token then (if [] \<in> set (g_stacks g) then Inr g else Inl GgmlAbort)
      else llama_grammar_accept_str fuel g piece)"

text \<open>\<open>llama_grammar_apply_impl\<close>: the logits of the tokens the grammar forbids become minus infinity,
  here \<open>None\<close>. The array holds (token, logit) pairs.\<close>

definition apply_scan ::
  "(int \<Rightarrow> u8 list) \<Rightarrow> (int \<Rightarrow> bool) \<Rightarrow> llama_grammar \<Rightarrow> bool \<Rightarrow> nat \<times> int \<times> 'l option
     \<Rightarrow> (int \<times> 'l option) list \<times> llama_grammar_candidate list
     \<Rightarrow> (int \<times> 'l option) list \<times> llama_grammar_candidate list" where
  "apply_scan token_to_piece is_eog g allow_eog it acc =
     (case it of (i, tok, logit) \<Rightarrow> case acc of (out, cands) \<Rightarrow>
        let piece = token_to_piece tok in
        if is_eog tok then (out @ [(tok, if allow_eog then logit else None)], cands)
        else if piece = [] \<or> hd piece = 0 then (out @ [(tok, None)], cands)
        else (case decode_utf8 piece (g_partial_utf8 g) of (cps, partial) \<Rightarrow>
                (out @ [(tok, logit)],
                 cands @ [\<lparr>gc_index = i, gc_data = cps, gc_off = 0, gc_partial = partial\<rparr>])))"

definition llama_grammar_apply_impl ::
  "nat \<Rightarrow> nat \<Rightarrow> (int \<Rightarrow> u8 list) \<Rightarrow> (int \<Rightarrow> bool) \<Rightarrow> llama_grammar \<Rightarrow> (int \<times> 'l option) list
     \<Rightarrow> (int \<times> 'l option) list res" where
  "llama_grammar_apply_impl depth fuel token_to_piece is_eog g cur_p =
     (if g_awaiting_trigger g then Inr cur_p
      else
        (let allow_eog = ([] \<in> set (g_stacks g)) in
         case fold (apply_scan token_to_piece is_eog g allow_eog) (zip [0..<length cur_p] cur_p) ([], []) of
           (out, cands) \<Rightarrow>
             bind_res (llama_grammar_reject_candidates depth fuel (g_rules g) (g_stacks g) cands) (\<lambda>rejects.
               Inr (fold (\<lambda>r out. out[gc_index r := (fst (out ! gc_index r), None)]) rejects out))))"

section \<open>What a stack takes\<close>

text \<open>The stacks a result holds.\<close>

definition res_set :: "'a list res \<Rightarrow> 'a set" where
  "res_set m = (case m of Inl _ \<Rightarrow> {} | Inr xs \<Rightarrow> set xs)"

lemma res_set_simps [simp]: "res_set (Inl e) = {}" "res_set (Inr xs) = set xs"
  by (simp_all add: res_set_def)

lemma set_add_stack [simp]: "set (add_stack st acc) = insert st (set acc)"
  by (auto simp: add_stack_def)

text \<open>An operation that adds the same elements whatever was collected before, or always fails.\<close>

definition uniform :: "('a list \<Rightarrow> 'a list res) \<Rightarrow> bool" where
  "uniform f \<longleftrightarrow> (\<exists>N. \<forall>acc. \<exists>acc'. f acc = Inr acc' \<and> set acc' = set acc \<union> N) \<or> (\<forall>acc. \<exists>e. f acc = Inl e)"

lemma uniform_res:
  assumes "uniform f" "f acc = Inr acc'" shows "set acc' = set acc \<union> res_set (f [])"
proof -
  from assms obtain N where N: "\<And>acc. \<exists>acc'. f acc = Inr acc' \<and> set acc' = set acc \<union> N"
    unfolding uniform_def by (metis Inr_not_Inl)
  obtain e where "f [] = Inr e" "set e = N" using N[of "[]"] by auto
  moreover have "set acc' = set acc \<union> N" using N[of acc] assms(2) by auto
  ultimately show ?thesis by simp
qed

lemma uniform_add [simp]: "uniform (\<lambda>acc. Inr (add_stack st acc))"
  unfolding uniform_def by (intro disjI1 exI[of _ "{st}"]) auto

lemma uniform_Inr [simp]: "uniform Inr"
  unfolding uniform_def by (intro disjI1 exI[of _ "{}"]) auto

lemma uniform_Inl [simp]: "uniform (\<lambda>acc. Inl e)"
  by (simp add: uniform_def)

lemma uniform_fold: "(\<And>x. x \<in> set xs \<Longrightarrow> uniform (f x)) \<Longrightarrow> uniform (fold_res f xs)"
proof (induction xs)
  case Nil
  show ?case using uniform_Inr by (simp add: fold_res_Nil_eta)
next
  case (Cons x xs)
  have u: "uniform (f x)" "uniform (fold_res f xs)" using Cons by auto
  show ?case
  proof (cases "\<forall>acc. \<exists>e. f x acc = Inl e")
    case True
    have "\<exists>e. fold_res f (x # xs) acc = Inl e" for acc
    proof -
      obtain e where "f x acc = Inl e" using True by blast
      then show ?thesis by simp
    qed
    then show ?thesis unfolding uniform_def by blast
  next
    case False
    then obtain N where N: "\<forall>acc. \<exists>acc'. f x acc = Inr acc' \<and> set acc' = set acc \<union> N"
      using u(1) unfolding uniform_def by blast
    show ?thesis
    proof (cases "\<forall>acc. \<exists>e. fold_res f xs acc = Inl e")
      case True
      have "\<exists>e. fold_res f (x # xs) acc = Inl e" for acc
      proof -
        obtain acc' e where "f x acc = Inr acc'" "fold_res f xs acc' = Inl e" using N True by metis
        then show ?thesis by simp
      qed
      then show ?thesis unfolding uniform_def by blast
    next
      case False
      then obtain M where M: "\<forall>acc. \<exists>acc'. fold_res f xs acc = Inr acc' \<and> set acc' = set acc \<union> M"
        using u(2) unfolding uniform_def by blast
      have "\<exists>acc'. fold_res f (x # xs) acc = Inr acc' \<and> set acc' = set acc \<union> (N \<union> M)" for acc
      proof -
        obtain a1 where a1: "f x acc = Inr a1" "set a1 = set acc \<union> N" using N by blast
        obtain a2 where "fold_res f xs a1 = Inr a2" "set a2 = set a1 \<union> M" using M by blast
        then show ?thesis using a1 by auto
      qed
      then show ?thesis unfolding uniform_def by blast
    qed
  qed
qed

lemma fold_res_union:
  "(\<And>x. x \<in> set xs \<Longrightarrow> uniform (f x)) \<Longrightarrow> fold_res f xs acc = Inr acc'
   \<Longrightarrow> set acc' = set acc \<union> (\<Union>x \<in> set xs. res_set (f x []))"
proof (induction xs arbitrary: acc)
  case (Cons x xs)
  then obtain a1 where a: "f x acc = Inr a1" "fold_res f xs a1 = Inr acc'" by auto
  have "set a1 = set acc \<union> res_set (f x [])" using uniform_res[of "f x" acc a1] a(1) Cons.prems(1) by simp
  with Cons.IH[OF _ a(2)] Cons.prems(1) show ?case by auto
qed simp

lemma advance_uniform: "uniform (llama_grammar_advance_stack fuel rules st)"
proof (induction fuel arbitrary: st)
  case 0
  show ?case by (simp add: uniform_def)
next
  case (Suc fuel)
  show ?case
  proof (cases st)
    case Nil
    then show ?thesis using uniform_add[of "[]"] by (simp add: uniform_def)
  next
    case (Cons p rest)
    define r where "r = unat (ge_value (gr_at rules p))"
    have u: "uniform (fold_res (\<lambda>i. llama_grammar_advance_stack fuel rules
        (push_unless_end rules (r, i) (push_unless_end rules (gr_adv p 1) rest))) (alt_starts (rules ! r)))"
      by (rule uniform_fold) (rule Suc.IH)
    show ?thesis
    proof (cases "ge_type (gr_at rules p)")
      case GRE_RULE_REF
      then show ?thesis using u Cons by (simp add: uniform_def Let_def r_def[symmetric])
    qed (use Cons uniform_add[of st] in \<open>simp_all add: uniform_def\<close>)
  qed
qed

lemma accept_one_uniform: "uniform (accept_one fuel rules c st)"
proof (cases st)
  case (Cons p rest)
  show ?thesis
  proof (cases "llama_grammar_match_char rules p c")
    case (Inr r)
    have "accept_one fuel rules c st = (if fst r
        then llama_grammar_advance_stack fuel rules (push_unless_end rules (snd r) rest) else Inr)"
      by (rule ext) (simp add: accept_one_def Cons Inr case_prod_beta)
    then show ?thesis using advance_uniform by simp
  qed (simp add: accept_one_def uniform_def Cons)
qed (use uniform_Inr in \<open>simp add: accept_one_def uniform_def\<close>)

text \<open>The stacks a stack moves to on a code point, and whether it takes a token: the code points and
  then the incomplete sequence, if there is one.\<close>

definition next_set :: "nat \<Rightarrow> llama_grammar_rules \<Rightarrow> u32 \<Rightarrow> llama_grammar_stack \<Rightarrow> llama_grammar_stack set" where
  "next_set fuel rules c st = res_set (accept_one fuel rules c st [])"

definition tail_ok :: "llama_grammar_rules \<Rightarrow> llama_partial_utf8 \<Rightarrow> llama_grammar_stack \<Rightarrow> bool" where
  "tail_ok rules pu st \<longleftrightarrow> pu_n_remain pu = 0 \<or>
     (st \<noteq> [] \<and> llama_grammar_match_partial_char rules (hd st) pu = Inr True)"

primrec takes :: "nat \<Rightarrow> llama_grammar_rules \<Rightarrow> llama_partial_utf8 \<Rightarrow> u32 list \<Rightarrow> llama_grammar_stack \<Rightarrow> bool" where
  "takes fuel rules pu [] st \<longleftrightarrow> tail_ok rules pu st"
| "takes fuel rules pu (c # cs) st \<longleftrightarrow> (\<exists>st' \<in> next_set fuel rules c st. takes fuel rules pu cs st')"

lemma accept_union:
  "llama_grammar_accept fuel rules stacks c = Inr s' \<Longrightarrow> set s' = (\<Union>st \<in> set stacks. next_set fuel rules c st)"
  using fold_res_union[of stacks "accept_one fuel rules c" "[]" s'] accept_one_uniform
  by (simp add: llama_grammar_accept_def next_set_def)

lemma run_takes:
  "fold_res (\<lambda>c q. llama_grammar_accept fuel rules q c) cs stacks = Inr s'
   \<Longrightarrow> (\<exists>st \<in> set s'. tail_ok rules pu st) \<longleftrightarrow> (\<exists>st \<in> set stacks. takes fuel rules pu cs st)"
proof (induction cs arbitrary: stacks)
  case (Cons c cs)
  then obtain s1 where "llama_grammar_accept fuel rules stacks c = Inr s1"
      "fold_res (\<lambda>c q. llama_grammar_accept fuel rules q c) cs s1 = Inr s'" by auto
  with Cons.IH[of s1] accept_union show ?case by fastforce
qed simp

section \<open>Candidates\<close>

definition cand_ok :: "llama_grammar_candidate \<Rightarrow> bool" where
  "cand_ok tok \<longleftrightarrow> 0 \<in> set (drop (gc_off tok) (gc_data tok))"

definition cand_rem :: "llama_grammar_candidate \<Rightarrow> u32 list" where
  "cand_rem tok = takeWhile (\<lambda>c. c \<noteq> 0) (drop (gc_off tok) (gc_data tok))"

lemma cand_cases:
  assumes "cand_ok tok"
  shows "cand_at tok = 0 \<Longrightarrow> cand_rem tok = []"
    and "cand_at tok \<noteq> 0 \<Longrightarrow> cand_rem tok = cand_at tok # cand_rem (cand_next tok) \<and> cand_ok (cand_next tok)"
proof -
  have "gc_off tok < length (gc_data tok)" using assms by (auto simp: cand_ok_def intro: ccontr)
  then have d: "drop (gc_off tok) (gc_data tok) = cand_at tok # drop (Suc (gc_off tok)) (gc_data tok)"
    by (simp add: cand_at_def Cons_nth_drop_Suc)
  show "cand_at tok = 0 \<Longrightarrow> cand_rem tok = []" by (simp add: cand_rem_def d)
  show "cand_at tok \<noteq> 0 \<Longrightarrow> cand_rem tok = cand_at tok # cand_rem (cand_next tok) \<and> cand_ok (cand_next tok)"
    using assms by (simp add: cand_rem_def cand_ok_def cand_next_def d)
qed

lemma cand_prev_next [simp]: "cand_prev (cand_next tok) = tok"
  by (simp add: cand_prev_def cand_next_def)

lemma cand_next_partial [simp]: "gc_partial (cand_next tok) = gc_partial tok"
  by (simp add: cand_next_def)

lemma match_partial_char_type:
  "is_char_type (ge_type (gr_at rules p)) \<Longrightarrow> \<exists>b. llama_grammar_match_partial_char rules p pu = Inr b"
  by (auto simp: llama_grammar_match_partial_char_def is_char_type_def is_positive_char_def Let_def)

text \<open>The scan of the candidates at a settled stack.\<close>

lemma reject_scan_fold:
  assumes "\<And>c. llama_grammar_match_char rules p c = Inr (m c, p')"
    and "\<And>pu. \<exists>b. llama_grammar_match_partial_char rules p pu = Inr b"
  shows "fold_res (reject_scan rules p) cands (r0, n0) =
    Inr (r0 @ filter (\<lambda>t. if cand_at t = 0 then \<not> tail_ok rules (gc_partial t) (p # rest) else \<not> m (cand_at t)) cands,
         n0 @ map cand_next (filter (\<lambda>t. cand_at t \<noteq> 0 \<and> m (cand_at t)) cands))"
proof (induction cands arbitrary: r0 n0)
  case (Cons t cands)
  obtain b where "llama_grammar_match_partial_char rules p (gc_partial t) = Inr b" using assms(2) by blast
  then show ?case using assms(1) Cons by (simp add: reject_scan_def tail_ok_def)
qed simp

lemma reject_each_set:
  assumes "\<And>st cs. st \<in> set stacks \<Longrightarrow> set cs \<subseteq> set cands
      \<Longrightarrow> \<exists>rej. for_stack st cs = Inr rej \<and> set rej = {t \<in> set cs. \<not> P st t}"
    and "stacks \<noteq> []"
  shows "\<exists>rej. reject_each for_stack stacks cands = Inr rej \<and> set rej = {t \<in> set cands. \<forall>st \<in> set stacks. \<not> P st t}"
proof -
  obtain st sts where st: "stacks = st # sts" using assms(2) by (cases stacks) auto
  have "\<exists>rej. fold_res for_stack sts' r0 = Inr rej \<and> set rej = {t \<in> set r0. \<forall>st \<in> set sts'. \<not> P st t}"
    if "set sts' \<subseteq> set stacks" "set r0 \<subseteq> set cands" for sts' r0
    using that
  proof (induction sts' arbitrary: r0)
    case (Cons s sts')
    obtain r1 where r1: "for_stack s r0 = Inr r1" "set r1 = {t \<in> set r0. \<not> P s t}"
      using assms(1)[of s r0] Cons.prems by auto
    moreover have "\<exists>rej. fold_res for_stack sts' r1 = Inr rej \<and> set rej = {t \<in> set r1. \<forall>st \<in> set sts'. \<not> P st t}"
      using Cons.prems r1 by (intro Cons.IH) auto
    ultimately show ?case by auto
  qed simp
  moreover obtain r0 where "for_stack st cands = Inr r0" "set r0 = {t \<in> set cands. \<not> P st t}"
    using assms(1)[of st cands] st by auto
  ultimately obtain rej where "fold_res for_stack sts r0 = Inr rej" "set rej = {t \<in> set r0. \<forall>st \<in> set sts. \<not> P st t}"
    using st by (metis (no_types, lifting) mem_Collect_eq set_subset_Cons subsetI)
  with \<open>for_stack st cands = Inr r0\<close> \<open>set r0 = _\<close> st show ?thesis by (auto simp: reject_each_def)
qed

lemma advance_keeps: "llama_grammar_advance_stack fuel rules st acc = Inr acc' \<Longrightarrow> set acc \<subseteq> set acc'"
  using uniform_res[OF advance_uniform] by blast

lemma advance_nonempty: "llama_grammar_advance_stack fuel rules st acc = Inr acc' \<Longrightarrow> acc' \<noteq> []"
proof (induction fuel arbitrary: st acc acc')
  case (Suc fuel)
  show ?case
  proof (cases st)
    case Nil
    then show ?thesis using Suc.prems by (auto simp: add_stack_def split: if_splits)
  next
    case (Cons p rest)
    show ?thesis
    proof (cases "ge_type (gr_at rules p) = GRE_RULE_REF")
      case True
      let ?f = "\<lambda>i. llama_grammar_advance_stack fuel rules (push_unless_end rules
          (unat (ge_value (gr_at rules p)), i) (push_unless_end rules (gr_adv p 1) rest))"
      obtain a1 is' where a: "?f 0 acc = Inr a1" "fold_res ?f is' a1 = Inr acc'"
        using Suc.prems Cons True by (auto simp: Let_def alt_starts_def split: if_splits)
      have "set a1 \<subseteq> set acc'"
        using fold_res_union[OF _ a(2)] advance_uniform by blast
      then show ?thesis using Suc.IH[OF a(1)] by (cases a1) auto
    next
      case False
      then show ?thesis using Suc.prems Cons
        by (auto simp: add_stack_def split: llama_gretype.splits if_splits)
    qed
  qed
qed simp

lemma next_set_step:
  assumes "llama_grammar_match_char rules p c = Inr (m, p')"
  shows "next_set fuel rules c (p # rest) =
    (if m then res_set (llama_grammar_advance_stack fuel rules (push_unless_end rules p' rest) []) else {})"
  using assms by (simp add: next_set_def accept_one_def)

lemma takes_Nil_stack [simp]:
  "takes fuel rules pu cs [] \<longleftrightarrow> cs = [] \<and> pu_n_remain pu = 0"
  by (cases cs) (auto simp: next_set_def accept_one_def tail_ok_def)

text \<open>One level of the recursion: a settled stack rejects exactly the candidates it does not take.\<close>

lemma reject_stack_step:
  assumes st: "settled rules (p # rest)" "llama_grammar_advance_stack fuel rules (push_unless_end rules p' rest) [] = Inr nxt"
      "\<And>c. llama_grammar_match_char rules p c = Inr (class_in pc rs c, p')"
    and ok: "\<forall>t \<in> set cands. cand_ok t"
    and rec: "\<exists>rej. reject_each (llama_grammar_reject_candidates_for_stack depth fuel rules) nxt
          (map cand_next (filter (\<lambda>t. cand_at t \<noteq> 0 \<and> class_in pc rs (cand_at t)) cands)) = Inr rej
        \<and> set rej = {t. \<exists>u \<in> set cands. cand_at u \<noteq> 0 \<and> class_in pc rs (cand_at u) \<and> t = cand_next u
                       \<and> (\<forall>s \<in> set nxt. \<not> takes fuel rules (gc_partial t) (cand_rem t) s)}"
  shows "\<exists>rej. llama_grammar_reject_candidates_for_stack (Suc depth) fuel rules (p # rest) cands = Inr rej
    \<and> set rej = {t \<in> set cands. \<not> takes fuel rules (gc_partial t) (cand_rem t) (p # rest)}"
proof -
  have "\<exists>b. llama_grammar_match_partial_char rules p pu = Inr b" for pu
    using st(1) match_partial_char_type by (simp add: settled_def)
  note scan = reject_scan_fold[of rules p "class_in pc rs" p', OF st(3) this, of cands "[]" "[]" rest]
  obtain rej where rej: "reject_each (llama_grammar_reject_candidates_for_stack depth fuel rules) nxt
      (map cand_next (filter (\<lambda>t. cand_at t \<noteq> 0 \<and> class_in pc rs (cand_at t)) cands)) = Inr rej"
    "set rej = {t. \<exists>u \<in> set cands. cand_at u \<noteq> 0 \<and> class_in pc rs (cand_at u) \<and> t = cand_next u
                       \<and> (\<forall>s \<in> set nxt. \<not> takes fuel rules (gc_partial t) (cand_rem t) s)}"
    using rec by blast
  have takes: "takes fuel rules (gc_partial t) (cand_rem t) (p # rest) \<longleftrightarrow>
      (if cand_at t = 0 then tail_ok rules (gc_partial t) (p # rest)
       else class_in pc rs (cand_at t) \<and> (\<exists>s \<in> set nxt. takes fuel rules (gc_partial t) (cand_rem (cand_next t)) s))"
    if "t \<in> set cands" for t
    using cand_cases[of t] ok that st(2) next_set_step[OF st(3)] by simp
  have "set (map cand_prev rej) = {t \<in> set cands. cand_at t \<noteq> 0 \<and> class_in pc rs (cand_at t)
      \<and> (\<forall>s \<in> set nxt. \<not> takes fuel rules (gc_partial t) (cand_rem (cand_next t)) s)}"
    unfolding set_map rej(2) by (auto simp: image_iff) (metis cand_next_partial cand_prev_next)
  then show ?thesis using scan st(2,3) rej(1) takes by (auto split: if_splits)
qed

definition rejects_right :: "nat \<Rightarrow> nat \<Rightarrow> llama_grammar_rules \<Rightarrow> llama_grammar_stack \<Rightarrow> bool" where
  "rejects_right depth fuel rules st \<longleftrightarrow>
     (\<forall>cands. 0 < depth \<longrightarrow> (\<forall>t \<in> set cands. cand_ok t \<and> length (cand_rem t) < depth) \<longrightarrow>
       (\<exists>rej. llama_grammar_reject_candidates_for_stack depth fuel rules st cands = Inr rej
          \<and> set rej = {t \<in> set cands. \<not> takes fuel rules (gc_partial t) (cand_rem t) st}))"

lemma reject_next:
  assumes nxt: "nxt \<noteq> []" "\<forall>s \<in> set nxt. rejects_right depth fuel rules s"
    and ok: "\<forall>t \<in> set cands. cand_ok t \<and> length (cand_rem t) < Suc depth"
  shows "\<exists>rej. reject_each (llama_grammar_reject_candidates_for_stack depth fuel rules) nxt
          (map cand_next (filter (\<lambda>t. cand_at t \<noteq> 0 \<and> m (cand_at t)) cands)) = Inr rej
        \<and> set rej = {t. \<exists>u \<in> set cands. cand_at u \<noteq> 0 \<and> m (cand_at u) \<and> t = cand_next u
                       \<and> (\<forall>s \<in> set nxt. \<not> takes fuel rules (gc_partial t) (cand_rem t) s)}"
proof (cases "filter (\<lambda>t. cand_at t \<noteq> 0 \<and> m (cand_at t)) cands = []")
  case True
  then show ?thesis using nxt(1) by (auto simp: reject_each_def filter_empty_conv split: list.splits)
next
  case False
  let ?next = "map cand_next (filter (\<lambda>t. cand_at t \<noteq> 0 \<and> m (cand_at t)) cands)"
  have len: "cand_ok t \<and> length (cand_rem t) < depth" if t: "t \<in> set ?next" for t
  proof -
    obtain u where u: "u \<in> set cands" "cand_at u \<noteq> 0" "t = cand_next u" using t by auto
    then show ?thesis using cand_cases(2)[of u] ok by fastforce
  qed
  have "0 < depth" using False len by (cases ?next) fastforce+
  then have "\<exists>rej. llama_grammar_reject_candidates_for_stack depth fuel rules st cs = Inr rej
      \<and> set rej = {t \<in> set cs. \<not> takes fuel rules (gc_partial t) (cand_rem t) st}"
    if "st \<in> set nxt" "set cs \<subseteq> set ?next" for st cs
    using nxt(2) that len unfolding rejects_right_def by (meson subsetD)
  from reject_each_set[of nxt ?next _ "\<lambda>st t. takes fuel rules (gc_partial t) (cand_rem t) st", OF this nxt(1)]
  obtain rej where "reject_each (llama_grammar_reject_candidates_for_stack depth fuel rules) nxt ?next = Inr rej"
    "set rej = {t \<in> set ?next. \<forall>st \<in> set nxt. \<not> takes fuel rules (gc_partial t) (cand_rem t) st}" by blast
  then show ?thesis by (intro exI[of _ rej]) auto
qed

lemma reject_stack_correct:
  assumes ok: "rules_ok rules" "nullable_literal rules" "lr_check rules = Inr False"
  shows "settled rules st \<Longrightarrow> \<exists>F. \<forall>fuel \<ge> F. rejects_right depth fuel rules st"
proof (induction depth arbitrary: st)
  case 0
  show ?case by (simp add: rejects_right_def)
next
  case (Suc depth)
  show ?case
  proof (cases st)
    case Nil
    have "rejects_right (Suc depth) fuel rules []" for fuel
      unfolding rejects_right_def using cand_cases by fastforce
    then show ?thesis using Nil by blast
  next
    case (Cons p rest)
    obtain pc rs p' where m: "stack_ok rules (push_unless_end rules p' rest)"
        "\<And>c. llama_grammar_match_char rules p c = Inr (class_in pc rs c, p')"
      using settled_step[of rules p rest] Suc.prems Cons by metis
    let ?st = "push_unless_end rules p' rest"
    obtain F0 where "\<forall>fuel \<ge> F0. \<forall>acc. \<exists>acc'. llama_grammar_advance_stack fuel rules ?st acc = Inr acc'"
      using stack_halts[OF ok m(1)] unfolding halts_def by blast
    then obtain nxt where F0: "llama_grammar_advance_stack F0 rules ?st [] = Inr nxt" by blast
    then have adv: "llama_grammar_advance_stack fuel rules ?st [] = Inr nxt" if "fuel \<ge> F0" for fuel
      using advance_mono that by blast
    have "all_settled rules nxt" using advance_stack_lang[OF ok(1) m(1) _ F0] by (simp add: all_settled_def)
    then have "\<forall>s \<in> set nxt. \<exists>F. \<forall>fuel \<ge> F. rejects_right depth fuel rules s"
      using Suc.IH by (simp add: all_settled_def)
    from uniform_bound[OF this] obtain F1 where F1: "\<forall>fuel \<ge> F1. \<forall>s \<in> set nxt. rejects_right depth fuel rules s" by blast
    have "rejects_right (Suc depth) fuel rules (p # rest)" if fuel: "fuel \<ge> max F0 F1" for fuel
      unfolding rejects_right_def
    proof (intro allI impI)
      fix cands assume c: "\<forall>t \<in> set cands. cand_ok t \<and> length (cand_rem t) < Suc depth"
      show "\<exists>rej. llama_grammar_reject_candidates_for_stack (Suc depth) fuel rules (p # rest) cands = Inr rej
          \<and> set rej = {t \<in> set cands. \<not> takes fuel rules (gc_partial t) (cand_rem t) (p # rest)}"
        using Suc.prems Cons adv fuel m(2) c F1 advance_nonempty[OF F0]
        by (intro reject_stack_step[of rules p rest fuel p' nxt pc rs cands depth] reject_next) auto
    qed
    then show ?thesis using Cons by blast
  qed
qed

section \<open>Masking and accepting agree\<close>

lemma utf8_stream_last: "\<exists>cs. fst (utf8_stream v n bs cps) = cs @ [0]"
proof (induction v n bs cps rule: utf8_stream.induct)
  case (2 v n b bs cps)
  then show ?case by (auto simp: Let_def split: prod.splits)
qed simp

lemma decode_utf8_last: "\<exists>cs. fst (decode_utf8 bs p) = cs @ [0]"
  using utf8_stream_last by (auto simp: decode_utf8_def split: option.splits prod.splits)

lemma reject_candidates_exact:
  assumes ok: "rules_ok rules" "nullable_literal rules" "lr_check rules = Inr False"
    and st: "all_settled rules stacks" "stacks \<noteq> []" and depth: "0 < depth"
  shows "\<exists>F. \<forall>fuel \<ge> F. \<forall>cands. (\<forall>t \<in> set cands. cand_ok t \<and> length (cand_rem t) < depth) \<longrightarrow>
    (\<exists>rej. llama_grammar_reject_candidates depth fuel rules stacks cands = Inr rej
      \<and> set rej = {t \<in> set cands. \<forall>s \<in> set stacks. \<not> takes fuel rules (gc_partial t) (cand_rem t) s})"
proof -
  have "\<forall>s \<in> set stacks. \<exists>F. \<forall>fuel \<ge> F. rejects_right depth fuel rules s"
    using reject_stack_correct[OF ok] st(1) by (simp add: all_settled_def)
  from uniform_bound[OF this] obtain F where F: "\<forall>fuel \<ge> F. \<forall>s \<in> set stacks. rejects_right depth fuel rules s" by blast
  have "\<exists>rej. llama_grammar_reject_candidates depth fuel rules stacks cands = Inr rej
      \<and> set rej = {t \<in> set cands. \<forall>s \<in> set stacks. \<not> takes fuel rules (gc_partial t) (cand_rem t) s}"
    if fuel: "fuel \<ge> F" and c: "\<forall>t \<in> set cands. cand_ok t \<and> length (cand_rem t) < depth" for fuel cands
    unfolding llama_grammar_reject_candidates_def
  proof (rule reject_each_set[OF _ st(2)])
    fix s cs assume "s \<in> set stacks" "set cs \<subseteq> set cands"
    then show "\<exists>rej. llama_grammar_reject_candidates_for_stack depth fuel rules s cs = Inr rej
        \<and> set rej = {t \<in> set cs. \<not> takes fuel rules (gc_partial t) (cand_rem t) s}"
      using F fuel c depth unfolding rejects_right_def by (meson subsetD)
  qed
  then show ?thesis by blast
qed

text \<open>The pass over the token array as a map and a filter.\<close>

definition scan_out :: "(int \<Rightarrow> u8 list) \<Rightarrow> (int \<Rightarrow> bool) \<Rightarrow> bool \<Rightarrow> int \<times> 'l option \<Rightarrow> int \<times> 'l option" where
  "scan_out ttp eog allow it = (fst it, if eog (fst it) then (if allow then snd it else None)
     else if ttp (fst it) = [] \<or> hd (ttp (fst it)) = 0 then None else snd it)"

definition scan_keep :: "(int \<Rightarrow> u8 list) \<Rightarrow> (int \<Rightarrow> bool) \<Rightarrow> int \<Rightarrow> bool" where
  "scan_keep ttp eog tok \<longleftrightarrow> \<not> eog tok \<and> \<not> (ttp tok = [] \<or> hd (ttp tok) = 0)"

definition scan_cand :: "(int \<Rightarrow> u8 list) \<Rightarrow> llama_grammar \<Rightarrow> nat \<Rightarrow> int \<Rightarrow> llama_grammar_candidate" where
  "scan_cand ttp g i tok = (case decode_utf8 (ttp tok) (g_partial_utf8 g) of (cps, partial) \<Rightarrow>
     \<lparr>gc_index = i, gc_data = cps, gc_off = 0, gc_partial = partial\<rparr>)"

lemma apply_scan_fold:
  "fold (apply_scan ttp eog g allow) its (out, cands) =
     (out @ map (\<lambda>(i, it). scan_out ttp eog allow it) its,
      cands @ map (\<lambda>(i, tok, l). scan_cand ttp g i tok) (filter (\<lambda>(i, tok, l). scan_keep ttp eog tok) its))"
  by (induction its arbitrary: out cands)
     (auto simp: apply_scan_def scan_out_def scan_keep_def scan_cand_def Let_def split: prod.splits)

lemma fold_mask:
  "i < length out \<Longrightarrow> length (fold (\<lambda>r out. out[gc_index r := (fst (out ! gc_index r), None)]) rs out) = length out \<and>
   fold (\<lambda>r out. out[gc_index r := (fst (out ! gc_index r), None)]) rs out ! i
     = (fst (out ! i), if \<exists>r \<in> set rs. gc_index r = i then None else snd (out ! i))"
proof (induction rs arbitrary: out)
  case (Cons r rs)
  show ?case using Cons.prems Cons.IH[of "out[gc_index r := (fst (out ! gc_index r), None)]"]
    by (cases "gc_index r = i") auto
qed simp

definition grammar_ready :: "llama_grammar \<Rightarrow> bool" where
  "grammar_ready g \<longleftrightarrow> rules_ok (g_rules g) \<and> lr_check (g_rules g) = Inr False \<and> nullable_literal (g_rules g)
     \<and> all_settled (g_rules g) (g_stacks g) \<and> g_stacks g \<noteq> [] \<and> \<not> g_awaiting_trigger g"

definition piece_ok :: "nat \<Rightarrow> (int \<Rightarrow> u8 list) \<Rightarrow> llama_grammar \<Rightarrow> int \<Rightarrow> bool" where
  "piece_ok depth ttp g tok \<longleftrightarrow> (let cps = fst (decode_utf8 (ttp tok) (g_partial_utf8 g))
     in 0 \<notin> set (butlast cps) \<and> length cps \<le> depth)"

lemma scan_cand_props:
  assumes "piece_ok depth ttp g tok"
  shows "cand_ok (scan_cand ttp g i tok)" "length (cand_rem (scan_cand ttp g i tok)) < depth"
    "cand_rem (scan_cand ttp g i tok) = butlast (fst (decode_utf8 (ttp tok) (g_partial_utf8 g)))"
    "gc_partial (scan_cand ttp g i tok) = snd (decode_utf8 (ttp tok) (g_partial_utf8 g))"
    "gc_index (scan_cand ttp g i tok) = i"
proof -
  obtain cs pu where d: "decode_utf8 (ttp tok) (g_partial_utf8 g) = (cs @ [0], pu)"
    using decode_utf8_last[of "ttp tok" "g_partial_utf8 g"] by (metis prod.collapse)
  have "takeWhile (\<lambda>c. c \<noteq> 0) (cs @ [0]) = cs"
    using assms by (subst takeWhile_append2) (auto simp: piece_ok_def d)
  then show "cand_ok (scan_cand ttp g i tok)" "length (cand_rem (scan_cand ttp g i tok)) < depth"
    "cand_rem (scan_cand ttp g i tok) = butlast (fst (decode_utf8 (ttp tok) (g_partial_utf8 g)))"
    "gc_partial (scan_cand ttp g i tok) = snd (decode_utf8 (ttp tok) (g_partial_utf8 g))"
    "gc_index (scan_cand ttp g i tok) = i"
    using assms by (auto simp: scan_cand_def d cand_ok_def cand_rem_def piece_ok_def)
qed

lemma scan_cand_index: "gc_index (scan_cand ttp g i tok) = i"
  by (simp add: scan_cand_def case_prod_beta)

lemma in_zip_upt: "(j, x) \<in> set (zip [0..<length xs] xs) \<longleftrightarrow> j < length xs \<and> xs ! j = x"
proof
  assume "j < length xs \<and> xs ! j = x"
  then show "(j, x) \<in> set (zip [0..<length xs] xs)" by (auto simp: in_set_zip intro!: exI[of _ j])
qed (auto simp: in_set_zip)

lemma scan_cands_mem:
  assumes "i < length cur_p" "cur_p ! i = (tok, l)"
  shows "(\<exists>r \<in> set (map (\<lambda>(i, tok, l). scan_cand ttp g i tok)
        (filter (\<lambda>(i, tok, l). scan_keep ttp eog tok) (zip [0..<length cur_p] cur_p))). gc_index r = i \<and> Q r)
    \<longleftrightarrow> scan_keep ttp eog tok \<and> Q (scan_cand ttp g i tok)"
  using assms by (auto simp: in_zip_upt scan_cand_index intro!: bexI[of _ "(i, tok, l)"])

lemma apply_result:
  assumes "\<not> g_awaiting_trigger g"
    and "llama_grammar_reject_candidates depth fuel (g_rules g) (g_stacks g)
        (map (\<lambda>(i, tok, l). scan_cand ttp g i tok)
          (filter (\<lambda>(i, tok, l). scan_keep ttp eog tok) (zip [0..<length cur_p] cur_p))) = Inr rej"
  shows "\<exists>out. llama_grammar_apply_impl depth fuel ttp eog g cur_p = Inr out \<and> length out = length cur_p \<and>
    (\<forall>i < length cur_p. out ! i = (fst (cur_p ! i),
       if \<exists>r \<in> set rej. gc_index r = i then None
       else snd (scan_out ttp eog ([] \<in> set (g_stacks g)) (cur_p ! i))))"
proof -
  let ?out = "map (\<lambda>(i, it). scan_out ttp eog ([] \<in> set (g_stacks g)) it) (zip [0..<length cur_p] cur_p)"
  let ?m = "fold (\<lambda>r out. out[gc_index r := (fst (out ! gc_index r), None)]) rej ?out"
  have res: "llama_grammar_apply_impl depth fuel ttp eog g cur_p = Inr ?m"
    using assms by (simp add: llama_grammar_apply_impl_def Let_def apply_scan_fold)
  have "length ?m = length cur_p \<and> ?m ! i = (fst (cur_p ! i), if \<exists>r \<in> set rej. gc_index r = i then None
       else snd (scan_out ttp eog ([] \<in> set (g_stacks g)) (cur_p ! i)))" if "i < length cur_p" for i
    using fold_mask[of i ?out rej] that by (simp add: scan_out_def)
  moreover have "length ?m = length cur_p"
  proof (cases "cur_p = []")
    case True
    have "length (fold (\<lambda>r out. out[gc_index r := (fst (out ! gc_index r), None)]) rs out) = length out"
      for rs :: "llama_grammar_candidate list" and out :: "(int \<times> 'a option) list"
      by (induction rs arbitrary: out) auto
    then show ?thesis using True by simp
  qed (use calculation in blast)
  ultimately show ?thesis using res by blast
qed

lemma accept_str_result:
  assumes "fold_res (\<lambda>c q. llama_grammar_accept fuel (g_rules g) q c)
      (butlast (fst (decode_utf8 (ttp tok) (g_partial_utf8 g)))) (g_stacks g) = Inr s'"
  shows "llama_grammar_accept_str fuel g (ttp tok) = (if s' = []
     then Inl (Throw ''Unexpected empty grammar stack after accepting piece'')
     else Inr (g\<lparr>g_stacks := s', g_partial_utf8 := snd (decode_utf8 (ttp tok) (g_partial_utf8 g))\<rparr>))"
  using assms by (simp add: llama_grammar_accept_str_def case_prod_beta)

text \<open>One token: whether it is masked, against what accepting it does.\<close>

lemma mask_one_token:
  assumes g: "\<not> g_awaiting_trigger g"
    and run: "fold_res (\<lambda>c q. llama_grammar_accept fuel (g_rules g) q c)
      (butlast (fst (decode_utf8 (ttp tok) (g_partial_utf8 g)))) (g_stacks g) = Inr s'"
    and rejected: "rejected \<longleftrightarrow> scan_keep ttp eog tok \<and>
        \<not> (\<exists>st \<in> set s'. tail_ok (g_rules g) (snd (decode_utf8 (ttp tok) (g_partial_utf8 g))) st)"
    and logit: "logit = (if rejected then None else snd (scan_out ttp eog ([] \<in> set (g_stacks g)) (tok, l)))"
  shows "logit \<noteq> None \<longrightarrow> (\<exists>g'. llama_grammar_accept_impl fuel ttp eog g tok = Inr g')"
    and "logit = None \<and> l \<noteq> None \<and> (eog tok \<or> scan_keep ttp eog tok
        \<and> pu_n_remain (snd (decode_utf8 (ttp tok) (g_partial_utf8 g))) = 0)
      \<longrightarrow> (\<exists>e. llama_grammar_accept_impl fuel ttp eog g tok = Inl e)"
proof -
  have a: "llama_grammar_accept_impl fuel ttp eog g tok =
      (if eog tok then (if [] \<in> set (g_stacks g) then Inr g else Inl GgmlAbort)
       else llama_grammar_accept_str fuel g (ttp tok))"
    using g by (simp add: llama_grammar_accept_impl_def Let_def)
  show "logit \<noteq> None \<longrightarrow> (\<exists>g'. llama_grammar_accept_impl fuel ttp eog g tok = Inr g')"
    using logit rejected a accept_str_result[of fuel g ttp tok s', OF run]
    by (auto simp: scan_out_def scan_keep_def split: if_splits)
  show "logit = None \<and> l \<noteq> None \<and> (eog tok \<or> scan_keep ttp eog tok
        \<and> pu_n_remain (snd (decode_utf8 (ttp tok) (g_partial_utf8 g))) = 0)
      \<longrightarrow> (\<exists>e. llama_grammar_accept_impl fuel ttp eog g tok = Inl e)"
    using logit rejected a accept_str_result[of fuel g ttp tok s', OF run]
    by (auto simp: scan_out_def scan_keep_def tail_ok_def split: if_splits)
qed

text \<open>C5: The mask a grammar puts on the candidate tokens agrees with what accepting a token does.
  After \<open>llama_grammar_apply_impl\<close>, accepting any token whose logit is left finite returns and
  leaves a usable grammar; and a token that was masked, if its piece ends on a character boundary,
  is one whose acceptance fails. The engine's calls return for all large enough fuel.\<close>

theorem masked_sampling_exact:
  fixes cur_p :: "(int \<times> 'l option) list"
  assumes "grammar_ready g" "\<forall>it \<in> set cur_p. piece_ok depth ttp g (fst it)" "0 < depth"
  shows "\<exists>F. \<forall>fuel \<ge> F. \<exists>out. llama_grammar_apply_impl depth fuel ttp eog g cur_p = Inr out
    \<and> length out = length cur_p
    \<and> (\<forall>i < length cur_p. fst (out ! i) = fst (cur_p ! i)
        \<and> (snd (out ! i) \<noteq> None \<longrightarrow> (\<exists>g'. llama_grammar_accept_impl fuel ttp eog g (fst (cur_p ! i)) = Inr g'))
        \<and> (snd (out ! i) = None \<and> snd (cur_p ! i) \<noteq> None
             \<and> (eog (fst (cur_p ! i)) \<or> scan_keep ttp eog (fst (cur_p ! i))
                  \<and> pu_n_remain (snd (decode_utf8 (ttp (fst (cur_p ! i))) (g_partial_utf8 g))) = 0)
             \<longrightarrow> (\<exists>e. llama_grammar_accept_impl fuel ttp eog g (fst (cur_p ! i)) = Inl e)))"
proof -
  note g = assms(1)[unfolded grammar_ready_def]
  let ?R = "g_rules g" and ?S = "g_stacks g"
  let ?cps = "\<lambda>tok. butlast (fst (decode_utf8 (ttp tok) (g_partial_utf8 g)))"
  let ?pu = "\<lambda>tok. snd (decode_utf8 (ttp tok) (g_partial_utf8 g))"
  let ?cands = "map (\<lambda>(i, tok, l). scan_cand ttp g i tok)
      (filter (\<lambda>(i, tok, l). scan_keep ttp eog tok) (zip [0..<length cur_p] cur_p))"
  obtain F0 where F0: "\<forall>fuel \<ge> F0. \<forall>cands. (\<forall>t \<in> set cands. cand_ok t \<and> length (cand_rem t) < depth) \<longrightarrow>
      (\<exists>rej. llama_grammar_reject_candidates depth fuel ?R ?S cands = Inr rej
        \<and> set rej = {t \<in> set cands. \<forall>s \<in> set ?S. \<not> takes fuel ?R (gc_partial t) (cand_rem t) s})"
    using reject_candidates_exact[of ?R ?S depth] g assms(3) by blast
  have "\<forall>it \<in> set cur_p. \<exists>F. \<forall>fuel \<ge> F. \<exists>s'. fold_res (\<lambda>c q. llama_grammar_accept fuel ?R q c) (?cps (fst it)) ?S = Inr s'"
    using run_halts[of ?R ?S] g by blast
  from uniform_bound[OF this] obtain F1 where F1: "\<forall>fuel \<ge> F1. \<forall>it \<in> set cur_p. \<exists>s'.
      fold_res (\<lambda>c q. llama_grammar_accept fuel ?R q c) (?cps (fst it)) ?S = Inr s'" by blast
  show ?thesis
  proof (intro exI[of _ "max F0 F1"] allI impI)
    fix fuel assume fuel: "max F0 F1 \<le> fuel"
    have "cand_ok t \<and> length (cand_rem t) < depth" if t: "t \<in> set ?cands" for t
    proof -
      obtain i tok l where "(i, tok, l) \<in> set (zip [0..<length cur_p] cur_p)" "t = scan_cand ttp g i tok" using t by auto
      then show ?thesis using scan_cand_props[of depth ttp g tok i] assms(2) by (auto dest!: set_zip_rightD)
    qed
    then obtain rej where rej: "llama_grammar_reject_candidates depth fuel ?R ?S ?cands = Inr rej"
      "set rej = {t \<in> set ?cands. \<forall>s \<in> set ?S. \<not> takes fuel ?R (gc_partial t) (cand_rem t) s}"
      using F0[rule_format, of fuel ?cands] fuel by auto
    obtain out where out: "llama_grammar_apply_impl depth fuel ttp eog g cur_p = Inr out" "length out = length cur_p"
        "\<forall>i < length cur_p. out ! i = (fst (cur_p ! i), if \<exists>r \<in> set rej. gc_index r = i then None
           else snd (scan_out ttp eog ([] \<in> set ?S) (cur_p ! i)))"
      using apply_result[OF _ rej(1)] g by blast
    have "fst (out ! i) = fst (cur_p ! i)
        \<and> (snd (out ! i) \<noteq> None \<longrightarrow> (\<exists>g'. llama_grammar_accept_impl fuel ttp eog g (fst (cur_p ! i)) = Inr g'))
        \<and> (snd (out ! i) = None \<and> snd (cur_p ! i) \<noteq> None
             \<and> (eog (fst (cur_p ! i)) \<or> scan_keep ttp eog (fst (cur_p ! i)) \<and> pu_n_remain (?pu (fst (cur_p ! i))) = 0)
             \<longrightarrow> (\<exists>e. llama_grammar_accept_impl fuel ttp eog g (fst (cur_p ! i)) = Inl e))" if i: "i < length cur_p" for i
    proof -
      obtain tok l where c: "cur_p ! i = (tok, l)" by fastforce
      have in_p: "(tok, l) \<in> set cur_p" using i c by (metis nth_mem)
      then have pok: "piece_ok depth ttp g tok" using assms(2) by fastforce
      obtain s' where run: "fold_res (\<lambda>c q. llama_grammar_accept fuel ?R q c) (?cps tok) ?S = Inr s'"
        using F1 fuel in_p by fastforce
      have mem: "(\<exists>r \<in> set ?cands. gc_index r = i \<and> Q r) \<longleftrightarrow> scan_keep ttp eog tok \<and> Q (scan_cand ttp g i tok)" for Q
        by (rule scan_cands_mem[OF i c])
      have "(\<exists>r \<in> set rej. gc_index r = i) \<longleftrightarrow>
          (\<exists>r \<in> set ?cands. gc_index r = i \<and> (\<forall>s \<in> set ?S. \<not> takes fuel ?R (gc_partial r) (cand_rem r) s))"
        unfolding rej(2) by blast
      also have "\<dots> \<longleftrightarrow> scan_keep ttp eog tok \<and> (\<forall>s \<in> set ?S. \<not> takes fuel ?R (?pu tok) (?cps tok) s)"
        unfolding mem by (simp only: scan_cand_props(3,4)[OF pok])
      finally have "(\<exists>r \<in> set rej. gc_index r = i) \<longleftrightarrow>
          scan_keep ttp eog tok \<and> \<not> (\<exists>st \<in> set s'. tail_ok ?R (?pu tok) st)"
        using run_takes[OF run] by blast
      from mask_one_token[OF _ run this refl, of l] g out(3) i c show ?thesis by simp
    qed
    then show "\<exists>out. llama_grammar_apply_impl depth fuel ttp eog g cur_p = Inr out
        \<and> length out = length cur_p
        \<and> (\<forall>i < length cur_p. fst (out ! i) = fst (cur_p ! i)
        \<and> (snd (out ! i) \<noteq> None \<longrightarrow> (\<exists>g'. llama_grammar_accept_impl fuel ttp eog g (fst (cur_p ! i)) = Inr g'))
        \<and> (snd (out ! i) = None \<and> snd (cur_p ! i) \<noteq> None
             \<and> (eog (fst (cur_p ! i)) \<or> scan_keep ttp eog (fst (cur_p ! i)) \<and> pu_n_remain (?pu (fst (cur_p ! i))) = 0)
             \<longrightarrow> (\<exists>e. llama_grammar_accept_impl fuel ttp eog g (fst (cur_p ! i)) = Inl e)))"
      using out by blast
  qed
qed

text \<open>A grammar of digits, a vocabulary of three tokens (end of generation, \<^verbatim>\<open>4\<close> and \<^verbatim>\<open>a\<close>).\<close>

definition ex_grammar :: llama_grammar where
  "ex_grammar = \<lparr>g_rules = ex_digits, g_stacks = [[(0, 0)], [(0, 4)]],
     g_partial_utf8 = \<lparr>pu_value = 0, pu_n_remain = 0\<rparr>, g_lazy = False, g_awaiting_trigger = False,
     g_trigger_buffer = [], g_trigger_tokens = [], g_trigger_words = []\<rparr>"

definition ex_piece :: "int \<Rightarrow> u8 list" where
  "ex_piece tok = (if tok = 1 then [0x34] else if tok = 2 then [0x61] else [])"

lemma ex_grammar_ready: "grammar_ready ex_grammar"
proof -
  have "all_settled ex_digits [[(0, 0)], [(0, 4)]]" by code_simp
  then show ?thesis using ex_digits_ok by (simp add: grammar_ready_def ex_grammar_def)
qed

definition ex_tokens :: "(int \<times> bool option) list" where
  "ex_tokens = [(0, Some True), (1, Some True), (2, Some True)]"

theorem masked_sampling_exact_witness:
  "(grammar_ready ex_grammar \<and> list_all (\<lambda>it. piece_ok 4 ex_piece ex_grammar (fst it)) ex_tokens \<and> 0 < (4 :: nat)) \<and>
   (\<exists>F. \<forall>fuel \<ge> F. \<exists>out. llama_grammar_apply_impl 4 fuel ex_piece (\<lambda>tok. tok = 0) ex_grammar ex_tokens = Inr out
    \<and> length out = length ex_tokens
    \<and> (\<forall>i < length ex_tokens. fst (out ! i) = fst (ex_tokens ! i)
        \<and> (snd (out ! i) \<noteq> None \<longrightarrow>
            (\<exists>g'. llama_grammar_accept_impl fuel ex_piece (\<lambda>tok. tok = 0) ex_grammar (fst (ex_tokens ! i)) = Inr g'))
        \<and> (snd (out ! i) = None \<and> snd (ex_tokens ! i) \<noteq> None
             \<and> (fst (ex_tokens ! i) = 0 \<or> scan_keep ex_piece (\<lambda>tok. tok = 0) (fst (ex_tokens ! i))
                  \<and> pu_n_remain (snd (decode_utf8 (ex_piece (fst (ex_tokens ! i))) (g_partial_utf8 ex_grammar))) = 0)
             \<longrightarrow> (\<exists>e. llama_grammar_accept_impl fuel ex_piece (\<lambda>tok. tok = 0) ex_grammar (fst (ex_tokens ! i)) = Inl e))))"
proof -
  have p: "\<forall>it \<in> set ex_tokens. piece_ok 4 ex_piece ex_grammar (fst it)" by code_simp
  have d: "0 < (4 :: nat)" by simp
  from masked_sampling_exact[OF ex_grammar_ready p d, of "\<lambda>tok. tok = 0"] p d ex_grammar_ready
  show ?thesis unfolding list_all_iff by blast
qed

section \<open>Incomplete characters\<close>

text \<open>The code points an incomplete sequence can still become: \<open>n\<close> more bytes of six bits, without
  the overlong encodings.\<close>

definition completes :: "llama_partial_utf8 \<Rightarrow> u32 \<Rightarrow> bool" where
  "completes pu c \<longleftrightarrow> drop_bit (6 * nat (pu_n_remain pu)) c = pu_value pu
     \<and> (pu_n_remain pu = 1 \<longrightarrow> 2 \<le> pu_value pu)
     \<and> (pu_n_remain pu = 2 \<and> pu_value pu = 0 \<longrightarrow> 0x800 \<le> c)
     \<and> (pu_n_remain pu = 3 \<and> pu_value pu = 0 \<longrightarrow> 0x10000 \<le> c)"

lemma gr_scan_partial_items:
  "es \<noteq> [] \<Longrightarrow> gr_scan_partial es low high True \<longleftrightarrow> (\<exists>(lo, hi) \<in> set (fst (class_items es)). lo \<le> high \<and> low \<le> hi)"
proof (induction es low high True rule: gr_scan_partial.induct)
  case (2 e es low high)
  obtain r rest where i: "class_item (e # es) = (r, rest)" by fastforce
  show ?case
  proof (cases "next_is GRE_CHAR_RNG_UPPER es")
    case True
    then obtain u es' where es: "es = u # es'" by (cases es) (auto simp: next_is_def)
    have r: "r = (ge_value e, ge_value u)" "rest = es'" using i True es by (auto simp: class_item_def)
    show ?thesis
    proof (cases "next_is GRE_CHAR_ALT es'")
      case T2: True
      then have "es' \<noteq> []" by (auto simp: next_is_def)
      then show ?thesis using 2(1)[OF True] T2 True es class_items_alt[OF _ i] r by auto
    next
      case False
      then show ?thesis using True es class_items_last[OF _ i] r by auto
    qed
  next
    case F: False
    have r: "rest = es" and rv: "(fst r \<le> high \<and> low \<le> snd r) = (ge_type e = GRE_CHAR_ANY \<or> low \<le> ge_value e \<and> ge_value e \<le> high)"
      using i F by (auto simp: class_item_def split: if_splits)
    show ?thesis
    proof (cases "next_is GRE_CHAR_ALT es")
      case True
      then have "es \<noteq> []" by (auto simp: next_is_def)
      then show ?thesis using 2(2)[OF F] True F class_items_alt[OF _ i] r rv by (auto simp: case_prod_beta)
    next
      case False
      then show ?thesis using F class_items_last[OF _ i] r rv by (auto simp: case_prod_beta)
    qed
  qed
qed simp

lemma nat_div_iff:
  fixes c d v :: nat
  assumes "0 < d" shows "c div d = v \<longleftrightarrow> v * d \<le> c \<and> c \<le> v * d + (d - 1)"
proof
  assume "c div d = v"
  then have "c = v * d + c mod d" by auto
  moreover have "c mod d < d" using assms by simp
  ultimately show "v * d \<le> c \<and> c \<le> v * d + (d - 1)" by linarith
next
  assume "v * d \<le> c \<and> c \<le> v * d + (d - 1)"
  then show "c div d = v" using assms by (intro div_nat_eqI) (auto simp: mult.commute)
qed

lemma word_le_or: "x \<le> x OR y" for x y :: u32
  by (simp add: word_le_def unsigned_or_eq or_greater_eq)

lemma partial_interval:
  fixes v c :: u32
  assumes "k \<le> 32" "unat v < 2 ^ (32 - k)"
  shows "drop_bit k c = v \<longleftrightarrow> push_bit k v \<le> c \<and> c \<le> push_bit k v OR (push_bit k 1 - 1)"
proof -
  have prod: "(2::nat) ^ (32 - k) * 2 ^ k = 2 ^ 32" using assms(1) by (simp flip: power_add)
  have lt: "unat v * 2 ^ k + (2 ^ k - 1) < 2 ^ 32"
  proof -
    have "Suc (unat v) * 2 ^ k \<le> 2 ^ (32 - k) * 2 ^ k" using assms(2) by (intro mult_le_mono1) simp
    then have "unat v * 2 ^ k + 2 ^ k \<le> 2 ^ 32" unfolding prod by (simp add: add.commute)
    moreover have "(0::nat) < 2 ^ k" by simp
    ultimately show ?thesis by linarith
  qed
  have low: "unat (push_bit k v) = unat v * 2 ^ k"
  proof -
    have "unat v * 2 ^ k < 2 ^ 32" using lt by linarith
    then show ?thesis by (simp only: unsigned_push_bit_eq) (simp add: push_bit_eq_mult take_bit_nat_eq_self)
  qed
  have m: "push_bit k 1 - 1 = (mask k :: u32)" by (simp add: mask_eq_exp_minus_1 push_bit_eq_mult)
  have "push_bit k v OR (push_bit k 1 - 1) = push_bit k v + mask k"
    unfolding m by (rule disjunctive_add[symmetric]) (auto simp: bit_simps)
  moreover have "unat (mask k :: u32) = 2 ^ k - 1" 
  proof -
    have "unat (mask k :: u32) = mask k" using assms(1) by (intro bit_eqI) (auto simp: bit_simps)
    then show ?thesis by (simp add: mask_eq_exp_minus_1)
  qed
  ultimately have high: "unat (push_bit k v OR (push_bit k 1 - 1)) = unat v * 2 ^ k + (2 ^ k - 1)"
    using lt low by (simp add: unat_word_ariths mod_less)
  have "drop_bit k c = v \<longleftrightarrow> unat c div 2 ^ k = unat v"
    by (simp only: word_unat_eq_iff unat_drop_bit_eq) (simp add: drop_bit_eq_div)
  also have "\<dots> \<longleftrightarrow> unat v * 2 ^ k \<le> unat c \<and> unat c \<le> unat v * 2 ^ k + (2 ^ k - 1)"
    by (rule nat_div_iff) simp
  finally show ?thesis by (simp only: word_le_nat_alt low high)
qed

text \<open>A negated class refuses an incomplete character as soon as one of its completions is excluded.
  With a class that excludes only U+00E9 on top of the stack, the first byte of U+00EA is refused, although the character
  it starts matches: the check does not do what its comment says (true iff some continuation
  could satisfy the class).\<close>

theorem partial_negated_class_refused:
  "llama_grammar_match_partial_char [[GE GRE_CHAR_NOT 0xe9, GE GRE_END 0]] (0, 0) \<lparr>pu_value = 3, pu_n_remain = 1\<rparr>
     = Inr False
   \<and> completes \<lparr>pu_value = 3, pu_n_remain = 1\<rparr> 0xea
   \<and> (\<exists>p. llama_grammar_match_char [[GE GRE_CHAR_NOT 0xe9, GE GRE_END 0]] (0, 0) 0xea = Inr (True, p))"
proof -
  have "llama_grammar_match_partial_char [[GE GRE_CHAR_NOT 0xe9, GE GRE_END 0]] (0, 0) \<lparr>pu_value = 3, pu_n_remain = 1\<rparr>
     = Inr False" by code_simp
  moreover have "completes \<lparr>pu_value = 3, pu_n_remain = 1\<rparr> 0xea" by code_simp
  moreover have "llama_grammar_match_char [[GE GRE_CHAR_NOT 0xe9, GE GRE_END 0]] (0, 0) 0xea = Inr (True, (0, 1))" by code_simp
  ultimately show ?thesis by blast
qed

text \<open>The interval of completions, with the bounds the code computes.\<close>

definition partial_high :: "llama_partial_utf8 \<Rightarrow> u32" where
  "partial_high pu = push_bit (6 * nat (pu_n_remain pu)) (pu_value pu) OR (push_bit (6 * nat (pu_n_remain pu)) 1 - 1)"

definition partial_low :: "llama_partial_utf8 \<Rightarrow> u32" where
  "partial_low pu = (let low = push_bit (6 * nat (pu_n_remain pu)) (pu_value pu) in
     if low = 0 then (if pu_n_remain pu = 2 then push_bit 11 1 else if pu_n_remain pu = 3 then push_bit 16 1 else low)
     else low)"

definition partial_ok :: "llama_partial_utf8 \<Rightarrow> bool" where
  "partial_ok pu \<longleftrightarrow> pu_n_remain pu \<in> {1, 2, 3} \<and> unat (pu_value pu) < 2 ^ (32 - 6 * nat (pu_n_remain pu))"

lemma completes_interval:
  assumes "partial_ok pu" "\<not> (pu_n_remain pu = 1 \<and> pu_value pu < 2)"
  shows "completes pu c \<longleftrightarrow> partial_low pu \<le> c \<and> c \<le> partial_high pu" "partial_low pu \<le> partial_high pu"
proof -
  define v k where vk: "v = pu_value pu" "k = 6 * nat (pu_n_remain pu)"
  have k: "k \<le> 32" "unat v < 2 ^ (32 - k)" using assms(1) vk by (auto simp: partial_ok_def)
  have iv: "drop_bit k c = v \<longleftrightarrow> push_bit k v \<le> c \<and> c \<le> partial_high pu" for c
    using partial_interval[OF k] by (simp add: partial_high_def vk)
  have le: "push_bit k v \<le> partial_high pu" using word_le_or by (simp add: partial_high_def vk)
  have v0: "push_bit k v = 0 \<longleftrightarrow> v = 0" using iv[of 0] le by auto
  consider "v \<noteq> 0" | "v = 0" "pu_n_remain pu = 2" "k = 12" | "v = 0" "pu_n_remain pu = 3" "k = 18"
    using assms vk by (cases "v = 0") (auto simp: partial_ok_def)
  note cases = this
  have low: "partial_low pu = (if v = 0 then (if pu_n_remain pu = 2 then 0x800 else 0x10000) else push_bit k v)"
    using cases v0 by (cases rule: cases) (simp_all add: partial_low_def vk Let_def)
  show "completes pu c \<longleftrightarrow> partial_low pu \<le> c \<and> c \<le> partial_high pu"
    unfolding completes_def vk[symmetric] low using iv[of c] assms(2) vk(1)
    by (cases rule: cases) (auto simp: not_less)
  show "partial_low pu \<le> partial_high pu"
    using le low by (cases rule: cases) (simp_all add: partial_high_def vk[symmetric])
qed

lemma overlap_iff:
  fixes low high :: u32
  assumes "\<forall>(lo, hi) \<in> set rs. lo \<le> hi" "low \<le> high"
  shows "(\<exists>(lo, hi) \<in> set rs. lo \<le> high \<and> low \<le> hi) \<longleftrightarrow> (\<exists>c. low \<le> c \<and> c \<le> high \<and> class_in True rs c)"
proof
  assume "\<exists>(lo, hi) \<in> set rs. lo \<le> high \<and> low \<le> hi"
  then obtain lo hi where r: "(lo, hi) \<in> set rs" "lo \<le> high" "low \<le> hi" by auto
  then have "lo \<le> hi" using assms(1) by auto
  then have "class_in True rs (max low lo)" using r by (auto simp: class_in_def intro!: bexI[of _ "(lo, hi)"])
  then show "\<exists>c. low \<le> c \<and> c \<le> high \<and> class_in True rs c" using r assms(2) by (intro exI[of _ "max low lo"]) simp
next
  assume "\<exists>c. low \<le> c \<and> c \<le> high \<and> class_in True rs c"
  then obtain c lo hi where "low \<le> c" "c \<le> high" "(lo, hi) \<in> set rs" "lo \<le> c" "c \<le> hi" by (auto simp: class_in_def)
  then show "\<exists>(lo, hi) \<in> set rs. lo \<le> high \<and> low \<le> hi" by (intro bexI[of _ "(lo, hi)"]) auto
qed

text \<open>For a class that is not negated the check of an incomplete character is exact: it answers
  yes precisely when some code point the sequence can still become is in the class.\<close>

theorem partial_positive_class_exact:
  assumes "ptr_ok rules p" "is_positive_char (gr_at rules p)" "seq_at rules p = T True rs # ss"
    "\<forall>(lo, hi) \<in> set rs. lo \<le> hi" "partial_ok pu"
  shows "llama_grammar_match_partial_char rules p pu = Inr (\<exists>c. completes pu c \<and> class_in True rs c)"
proof -
  obtain e es where es: "gr_from rules p = e # es" "gr_at rules p = e"
    using assms(2) by (auto simp: gr_at_from is_positive_char_def split: list.splits)
  have rs: "rs = fst (class_items (e # es))"
    using assms(2,3) es by (auto simp: seq_at_def is_positive_char_def is_end_type_def split: if_splits prod.splits)
  show ?thesis
  proof (cases "pu_n_remain pu = 1 \<and> pu_value pu < 2")
    case True
    then have "llama_grammar_match_partial_char rules p pu = Inr False"
      using assms(2) by (simp add: llama_grammar_match_partial_char_def)
    moreover have "\<not> completes pu c" for c using True by (auto simp: completes_def)
    ultimately show ?thesis by simp
  next
    case False
    note iv = completes_interval[OF assms(5) False]
    have "\<not> (pu_n_remain pu < 0 \<or> pu_n_remain pu = 1 \<and> pu_value pu < 2)" using assms(5) False by (auto simp: partial_ok_def)
    then have "llama_grammar_match_partial_char rules p pu
        = Inr (gr_scan_partial (e # es) (partial_low pu) (partial_high pu) True)"
      using assms(2) es
      by (simp only: llama_grammar_match_partial_char_def Let_def partial_low_def partial_high_def mult.commute) simp
    then show ?thesis
      using gr_scan_partial_items[of "e # es"] overlap_iff[OF assms(4) iv(2)] rs by (simp add: iv(1))
  qed
qed

theorem partial_positive_class_exact_witness:
  "(ptr_ok ex_digits (0, 0) \<and> is_positive_char (gr_at ex_digits (0, 0))
    \<and> seq_at ex_digits (0, 0) = T True [(48, 57)] # [NT 0] \<and> list_all (\<lambda>(lo, hi). lo \<le> hi) [(48, 57 :: u32)]
    \<and> partial_ok \<lparr>pu_value = 3, pu_n_remain = 1\<rparr>)
   \<and> llama_grammar_match_partial_char ex_digits (0, 0) \<lparr>pu_value = 3, pu_n_remain = 1\<rparr>
     = Inr (\<exists>c. completes \<lparr>pu_value = 3, pu_n_remain = 1\<rparr> c \<and> class_in True [(48, 57)] c)"
proof -
  have h: "ptr_ok ex_digits (0, 0)" "is_positive_char (gr_at ex_digits (0, 0))"
    "\<forall>(lo, hi) \<in> set [(48, 57 :: u32)]. lo \<le> hi"
    by code_simp+
  have k: "partial_ok \<lparr>pu_value = 3, pu_n_remain = 1\<rparr>" by (simp add: partial_ok_def)
  have s: "seq_at ex_digits (0, 0) = T True [(48, 57)] # [NT 0]" by code_simp
  note r = partial_positive_class_exact[OF h(1,2) s h(3) k]
  show ?thesis unfolding list_all_iff by (intro conjI h s k r)
qed

section \<open>Lazy grammars\<close>

lemma str_find_None_iff: "str_find s w = None \<longleftrightarrow> (\<forall>i. i + length w \<le> length s \<longrightarrow> take (length w) (drop i s) \<noteq> w)"
  by (auto simp: str_find_def find_None_iff)

lemma str_find_prefix:
  assumes "str_find (a @ b) w = None" shows "str_find a w = None"
  unfolding str_find_None_iff
proof (intro allI impI notI)
  fix i assume i: "i + length w \<le> length a" "take (length w) (drop i a) = w"
  then have "take (length w) (drop i (a @ b)) = w" by simp
  moreover have "i + length w \<le> length (a @ b)" using i(1) by simp
  ultimately show False using assms unfolding str_find_None_iff by blast
qed

lemma find_trigger_None: "find_trigger buf ws = None \<longleftrightarrow> (\<forall>w \<in> set ws. str_find buf w = None)"
  by (induction ws) (auto split: option.splits)

text \<open>A lazy grammar that awaits its trigger lets every token pass: as long as no trigger
  token comes and no trigger word occurs in the text so far, accepting tokens only extends the
  trigger buffer by their pieces, and the stacks and the mask are untouched.\<close>

theorem lazy_grammar_waits:
  assumes "g_awaiting_trigger g" "\<forall>tok \<in> set toks. tok \<notin> set (g_trigger_tokens g)"
    "find_trigger (g_trigger_buffer g @ concat (map ttp toks)) (g_trigger_words g) = None"
  shows "fold_res (\<lambda>tok g. llama_grammar_accept_impl fuel ttp eog g tok) toks g
       = Inr (g\<lparr>g_trigger_buffer := g_trigger_buffer g @ concat (map ttp toks)\<rparr>)
    \<and> llama_grammar_apply_impl depth fuel ttp eog g cur_p = Inr cur_p"
proof -
  have "fold_res (\<lambda>tok g. llama_grammar_accept_impl fuel ttp eog g tok) toks g
       = Inr (g\<lparr>g_trigger_buffer := g_trigger_buffer g @ concat (map ttp toks)\<rparr>)"
    using assms
  proof (induction toks arbitrary: g)
    case (Cons tok toks)
    let ?g = "g\<lparr>g_trigger_buffer := g_trigger_buffer g @ ttp tok\<rparr>"
    have "find_trigger (g_trigger_buffer g @ ttp tok) (g_trigger_words g) = None"
      using Cons.prems(3) str_find_prefix[of "g_trigger_buffer g @ ttp tok" "concat (map ttp toks)"]
      by (auto simp: find_trigger_None)
    then have "llama_grammar_accept_impl fuel ttp eog g tok = Inr ?g"
      using Cons.prems by (simp add: llama_grammar_accept_impl_def Let_def)
    moreover have "fold_res (\<lambda>tok g. llama_grammar_accept_impl fuel ttp eog g tok) toks ?g
        = Inr (?g\<lparr>g_trigger_buffer := g_trigger_buffer ?g @ concat (map ttp toks)\<rparr>)"
      using Cons.prems by (intro Cons.IH) auto
    ultimately show ?case by simp
  qed simp
  then show ?thesis using assms(1) by (simp add: llama_grammar_apply_impl_def)
qed

definition ex_lazy :: llama_grammar where
  "ex_lazy = ex_grammar\<lparr>g_lazy := True, g_awaiting_trigger := True, g_trigger_tokens := [7], g_trigger_words := [[0x61, 0x34]]\<rparr>"

theorem lazy_grammar_waits_witness:
  "(g_awaiting_trigger ex_lazy \<and> list_all (\<lambda>tok. tok \<notin> set (g_trigger_tokens ex_lazy)) [1, 2 :: int]
    \<and> find_trigger (g_trigger_buffer ex_lazy @ concat (map ex_piece [1, 2])) (g_trigger_words ex_lazy) = None)
   \<and> fold_res (\<lambda>tok g. llama_grammar_accept_impl 5 ex_piece (\<lambda>tok. tok = 0) g tok) [1, 2] ex_lazy
       = Inr (ex_lazy\<lparr>g_trigger_buffer := g_trigger_buffer ex_lazy @ concat (map ex_piece [1, 2])\<rparr>)
   \<and> llama_grammar_apply_impl 4 5 ex_piece (\<lambda>tok. tok = 0) ex_lazy ex_tokens = Inr ex_tokens"
proof -
  have h: "g_awaiting_trigger ex_lazy" "\<forall>tok \<in> set [1, 2 :: int]. tok \<notin> set (g_trigger_tokens ex_lazy)"
    "find_trigger (g_trigger_buffer ex_lazy @ concat (map ex_piece [1, 2])) (g_trigger_words ex_lazy) = None"
    by code_simp+
  from lazy_grammar_waits[OF h, of 5 "\<lambda>tok. tok = 0" 4 ex_tokens] h show ?thesis unfolding list_all_iff by blast
qed

section \<open>Copies\<close>

lemma redirect_id: "redirect rules p = p"
proof -
  have "fold (\<lambda>ir1 q. if p = (i, ir1) then (i, ir1) else q) ks p = p" for i ks
    by (induction ks) auto
  then have "fold (\<lambda>ir0 q. fold (\<lambda>ir1 q. if p = (ir0, ir1) then (ir0, ir1) else q) [0..<length (rules ! ir0)] q) ns p = p" for ns
    by (induction ns) auto
  then show ?thesis by (simp add: redirect_def)
qed

lemma clone_same: "llama_grammar_clone_impl g = g"
  by (simp add: llama_grammar_clone_impl_def redirect_id map_idI)

end
