(* ===== verification/Grammar_Parser.thy ===== *)
theory Grammar_Parser
  imports Grammar_Sampler
begin

text \<open>
  The parser of GBNF grammar text (lines 91-180 and 300-595 of \<open>llama-grammar.cpp\<close>) and the
  construction of a grammar object from text. A position in the text is the list of the bytes
  from there on; reading at the end gives 0, the terminator. The messages of the exceptions are
  kept without the quotation of the text, which the caller prints and discards.

  The recursion of \<open>parse_sequence\<close> and \<open>parse_alternates\<close> takes fuel, one unit per byte, which is
  proved to be enough.
\<close>

section \<open>Lexical helpers\<close>

definition peek :: "u8 list \<Rightarrow> u8" where
  "peek bs = (case bs of [] \<Rightarrow> 0 | b # _ \<Rightarrow> b)"

definition is_digit_char :: "u8 \<Rightarrow> bool" where
  "is_digit_char c \<longleftrightarrow> 0x30 \<le> c \<and> c \<le> 0x39"

definition is_word_char :: "u8 \<Rightarrow> bool" where
  "is_word_char c \<longleftrightarrow> (0x61 \<le> c \<and> c \<le> 0x7a) \<or> (0x41 \<le> c \<and> c \<le> 0x5a) \<or> c = 0x2d \<or> is_digit_char c"

definition hex_value :: "u8 \<Rightarrow> u32 option" where
  "hex_value c =
     (if 0x61 \<le> c \<and> c \<le> 0x66 then Some (ucast c - 0x61 + 10)
      else if 0x41 \<le> c \<and> c \<le> 0x46 then Some (ucast c - 0x41 + 10)
      else if 0x30 \<le> c \<and> c \<le> 0x39 then Some (ucast c - 0x30)
      else None)"

fun parse_hex :: "u8 list \<Rightarrow> nat \<Rightarrow> u32 \<Rightarrow> (u32 \<times> u8 list) res" where
  "parse_hex bs 0 v = Inr (v, bs)"
| "parse_hex [] (Suc n) v = Inl (Throw ''expecting hex chars'')"
| "parse_hex (b # bs) (Suc n) v =
     (case hex_value b of
        None \<Rightarrow> Inl (Throw ''expecting hex chars'')
      | Some d \<Rightarrow> parse_hex bs n (push_bit 4 v + d))"

fun skip_comment :: "u8 list \<Rightarrow> u8 list" where
  "skip_comment [] = []"
| "skip_comment (b # bs) = (if b = 0 \<or> b = 0x0d \<or> b = 0x0a then b # bs else skip_comment bs)"

lemma skip_comment_length: "length (skip_comment bs) \<le> length bs"
  by (induction bs) auto

function parse_space :: "u8 list \<Rightarrow> bool \<Rightarrow> u8 list" where
  "parse_space [] newline_ok = []"
| "parse_space (b # bs) newline_ok =
     (if b = 0x23 then parse_space (skip_comment bs) newline_ok
      else if b = 0x20 \<or> b = 0x09 \<or> newline_ok \<and> (b = 0x0d \<or> b = 0x0a) then parse_space bs newline_ok
      else b # bs)"
  by pat_completeness auto
termination
  by (relation "measure (\<lambda>(bs, _). length bs)") (auto simp: less_Suc_eq_le skip_comment_length)

definition parse_name :: "u8 list \<Rightarrow> (u8 list \<times> u8 list) res" where
  "parse_name src = (if is_word_char (peek src) then Inr (takeWhile is_word_char src, dropWhile is_word_char src)
                     else Inl (Throw ''expecting name''))"

definition parse_int :: "u8 list \<Rightarrow> (u8 list \<times> u8 list) res" where
  "parse_int src = (if is_digit_char (peek src) then Inr (takeWhile is_digit_char src, dropWhile is_digit_char src)
                    else Inl (Throw ''expecting integer''))"

definition parse_char :: "u8 list \<Rightarrow> (u32 \<times> u8 list) res" where
  "parse_char src =
     (if peek src = 0x5c then
        (let c = peek (tl src); rest = tl (tl src) in
         if c = 0x78 then parse_hex rest 2 0
         else if c = 0x75 then parse_hex rest 4 0
         else if c = 0x55 then parse_hex rest 8 0
         else if c = 0x74 then Inr (0x09, rest)
         else if c = 0x72 then Inr (0x0d, rest)
         else if c = 0x6e then Inr (0x0a, rest)
         else if c = 0x5c \<or> c = 0x22 \<or> c = 0x5b \<or> c = 0x5d then Inr (ucast c, rest)
         else Inl (Throw ''unknown escape''))
      else if peek src \<noteq> 0 then Inr (decode_utf8_char src)
      else Inl (Throw ''unexpected end of input''))"

text \<open>\<open>std::stoul\<close> on decimal digits (an exception beyond 64 bits) and its conversion to \<open>int\<close>.\<close>

definition digits_value :: "u8 list \<Rightarrow> int" where
  "digits_value ds = foldl (\<lambda>v d. 10 * v + (uint d - 0x30)) 0 ds"

definition stoul_int :: "u8 list \<Rightarrow> int res" where
  "stoul_int ds = (if digits_value ds < 2 ^ 64 then Inr (sint (of_int (digits_value ds) :: u32))
                   else Inl (Throw ''stoul''))"

text \<open>\<open>std::to_string\<close>.\<close>

fun dec_digits :: "nat \<Rightarrow> u8 list" where
  "dec_digits n = (if n < 10 then [of_nat (0x30 + n)] else dec_digits (n div 10) @ [of_nat (0x30 + n mod 10)])"

declare dec_digits.simps [simp del]

section \<open>Symbols and rules\<close>

record llama_grammar_parser =
  symbol_ids :: "(u8 list \<times> u32) list"
  p_rules :: llama_grammar_rules

definition get_symbol_id :: "u8 list \<Rightarrow> llama_grammar_parser \<Rightarrow> u32 \<times> llama_grammar_parser" where
  "get_symbol_id name st =
     (case map_of (symbol_ids st) name of
        Some i \<Rightarrow> (i, st)
      | None \<Rightarrow> (of_nat (length (symbol_ids st)),
                 st\<lparr>symbol_ids := symbol_ids st @ [(name, of_nat (length (symbol_ids st)))]\<rparr>))"

definition symbol_set :: "u8 list \<Rightarrow> u32 \<Rightarrow> (u8 list \<times> u32) list \<Rightarrow> (u8 list \<times> u32) list" where
  "symbol_set name i ids =
     (if map_of ids name = None then ids @ [(name, i)]
      else map (\<lambda>(k, v). if k = name then (k, i) else (k, v)) ids)"

definition generate_symbol_id :: "u8 list \<Rightarrow> llama_grammar_parser \<Rightarrow> u32 \<times> llama_grammar_parser" where
  "generate_symbol_id base_name st =
     (let next_id = of_nat (length (symbol_ids st)) :: u32 in
      (next_id, st\<lparr>symbol_ids := symbol_set (base_name @ [0x5f] @ dec_digits (unat next_id)) next_id (symbol_ids st)\<rparr>))"

definition add_rule :: "u32 \<Rightarrow> llama_grammar_rule \<Rightarrow> llama_grammar_parser \<Rightarrow> llama_grammar_parser" where
  "add_rule rule_id rule st =
     (let rules = p_rules st;
          rules' = (if length rules \<le> unat rule_id then rules @ replicate (unat rule_id + 1 - length rules) [] else rules)
      in st\<lparr>p_rules := rules'[unat rule_id := rule]\<rparr>)"

section \<open>Repetitions\<close>

text \<open>The loop that creates the \<open>S'\<close> rules; its state is the parser and \<open>last_rec_rule_id\<close>.\<close>

definition rec_step ::
  "u8 list \<Rightarrow> llama_grammar_rule \<Rightarrow> int \<Rightarrow> nat \<Rightarrow> llama_grammar_parser \<times> u32 \<Rightarrow> llama_grammar_parser \<times> u32" where
  "rec_step rule_name prev_rule max_times i s =
     (case s of (st, last_rec_rule_id) \<Rightarrow>
        case generate_symbol_id rule_name st of (rec_rule_id, st1) \<Rightarrow>
          (add_rule rec_rule_id
             (prev_rule
              @ (if i > 0 \<or> max_times < 0
                 then [GE GRE_RULE_REF (if max_times < 0 then rec_rule_id else last_rec_rule_id)] else [])
              @ [GE GRE_ALT 0, GE GRE_END 0]) st1,
           rec_rule_id))"

definition handle_repetitions ::
  "u8 list \<Rightarrow> int \<Rightarrow> int \<Rightarrow> nat \<Rightarrow> llama_grammar_rule \<Rightarrow> llama_grammar_parser
     \<Rightarrow> (llama_grammar_rule \<times> llama_grammar_parser) res" where
  "handle_repetitions rule_name min_times max_times last_sym_start rule st =
     (if last_sym_start = length rule then Inl (Throw ''expecting preceding item to */+/?/{'')
      else
        (let prev_rule = drop last_sym_start rule;
             rule1 = (if min_times = 0 then take last_sym_start rule
                      else rule @ concat (replicate (nat (min_times - 1)) prev_rule));
             n_opt = (if max_times < 0 then 1 else max_times - min_times);
             (st1, last_rec_rule_id) = fold (rec_step rule_name prev_rule max_times) [0..<nat n_opt] (st, 0)
         in Inr (if n_opt > 0 then rule1 @ [GE GRE_RULE_REF last_rec_rule_id] else rule1, st1)))"

section \<open>Literals and character classes\<close>

text \<open>The two inner loops consume at least one byte each time round; they take the length as fuel.\<close>

fun parse_literal :: "nat \<Rightarrow> u8 list \<Rightarrow> llama_grammar_rule \<Rightarrow> (llama_grammar_rule \<times> u8 list) res" where
  "parse_literal 0 pos rule = Inl Diverge"
| "parse_literal (Suc n) pos rule =
     (if peek pos = 0x22 then Inr (rule, tl pos)
      else if peek pos = 0 then Inl (Throw ''unexpected end of input'')
      else bind_res (parse_char pos) (\<lambda>(c, pos'). parse_literal n pos' (rule @ [GE GRE_CHAR c])))"

fun parse_class ::
  "nat \<Rightarrow> llama_gretype \<Rightarrow> nat \<Rightarrow> u8 list \<Rightarrow> llama_grammar_rule \<Rightarrow> (llama_grammar_rule \<times> u8 list) res" where
  "parse_class 0 start_type last_sym_start pos rule = Inl Diverge"
| "parse_class (Suc n) start_type last_sym_start pos rule =
     (if peek pos = 0x5d then Inr (rule, tl pos)
      else if peek pos = 0 then Inl (Throw ''unexpected end of input'')
      else bind_res (parse_char pos) (\<lambda>(c, pos1).
        let rule1 = rule @ [GE (if last_sym_start < length rule then GRE_CHAR_ALT else start_type) c] in
        if peek pos1 = 0x2d \<and> peek (tl pos1) \<noteq> 0x5d then
          (if peek (tl pos1) = 0 then Inl (Throw ''unexpected end of input'')
           else bind_res (parse_char (tl pos1)) (\<lambda>(c2, pos2).
                  parse_class n start_type last_sym_start pos2 (rule1 @ [GE GRE_CHAR_RNG_UPPER c2])))
        else parse_class n start_type last_sym_start pos1 rule1))"

text \<open>The braces of \<open>S{m,n}\<close>: the two counts and the position after the closing brace.\<close>

definition parse_braces :: "bool \<Rightarrow> u8 list \<Rightarrow> (int \<times> int \<times> u8 list) res" where
  "parse_braces nested pos =
     (if \<not> is_digit_char (peek pos) then Inl (Throw ''expecting an int'')
      else
        bind_res (parse_int pos) (\<lambda>(ds, int_end).
        bind_res (stoul_int ds) (\<lambda>min_times.
          let pos1 = parse_space int_end nested in
          if peek pos1 = 0x7d then Inr (min_times, min_times, parse_space (tl pos1) nested)
          else if peek pos1 = 0x2c then
            (let pos2 = parse_space (tl pos1) nested in
             bind_res (if is_digit_char (peek pos2) then
                         bind_res (parse_int pos2) (\<lambda>(ds2, int_end2).
                         bind_res (stoul_int ds2) (\<lambda>max_times. Inr (max_times, parse_space int_end2 nested)))
                       else Inr (-1, pos2)) (\<lambda>(max_times, pos3).
               if peek pos3 \<noteq> 0x7d then Inl (Throw ''expecting closing brace'')
               else Inr (min_times, max_times, parse_space (tl pos3) nested)))
          else Inl (Throw ''expecting comma''))))"

section \<open>Sequences, alternates and rules\<close>

text \<open>One turn of the loop of \<open>parse_sequence\<close> that does not recurse: what the next byte selects.
  \<open>None\<close> is the final \<open>break\<close>; the components are the position, \<open>rule\<close>, \<open>last_sym_start\<close> and the parser.\<close>

type_synonym seq_state = "u8 list \<times> llama_grammar_rule \<times> nat \<times> llama_grammar_parser"

definition repeat_with ::
  "u8 list \<Rightarrow> int \<Rightarrow> int \<Rightarrow> u8 list \<Rightarrow> llama_grammar_rule \<Rightarrow> nat \<Rightarrow> llama_grammar_parser \<Rightarrow> seq_state option res" where
  "repeat_with rule_name min_times max_times pos rule last_sym st =
     bind_res (handle_repetitions rule_name min_times max_times last_sym rule st)
       (\<lambda>(rule', st'). Inr (Some (pos, rule', last_sym, st')))"

definition parse_item ::
  "u8 list \<Rightarrow> bool \<Rightarrow> u8 list \<Rightarrow> llama_grammar_rule \<Rightarrow> nat \<Rightarrow> llama_grammar_parser \<Rightarrow> seq_state option res" where
  "parse_item rule_name nested pos rule last_sym st =
     (let c = peek pos; next_pos = parse_space (tl pos) nested in
      if c = 0x22 then
        bind_res (parse_literal (length pos) (tl pos) rule) (\<lambda>(rule', pos').
          Inr (Some (parse_space pos' nested, rule', length rule, st)))
      else if c = 0x5b then
        (let negated = (peek (tl pos) = 0x5e) in
         bind_res (parse_class (length pos) (if negated then GRE_CHAR_NOT else GRE_CHAR) (length rule)
                     (if negated then tl (tl pos) else tl pos) rule) (\<lambda>(rule', pos').
           Inr (Some (parse_space pos' nested, rule', length rule, st))))
      else if is_word_char c then
        bind_res (parse_name pos) (\<lambda>(name, name_end).
          case get_symbol_id name st of (ref_rule_id, st') \<Rightarrow>
            Inr (Some (parse_space name_end nested, rule @ [GE GRE_RULE_REF ref_rule_id], length rule, st')))
      else if c = 0x2e then Inr (Some (next_pos, rule @ [GE GRE_CHAR_ANY 0], length rule, st))
      else if c = 0x2a then repeat_with rule_name 0 (-1) next_pos rule last_sym st
      else if c = 0x2b then repeat_with rule_name 1 (-1) next_pos rule last_sym st
      else if c = 0x3f then repeat_with rule_name 0 1 next_pos rule last_sym st
      else if c = 0x7b then
        bind_res (parse_braces nested next_pos) (\<lambda>(min_times, max_times, pos').
          repeat_with rule_name min_times max_times pos' rule last_sym st)
      else Inr None)"

text \<open>\<open>parse_alternates\<close>, with the parser of one sequence as an argument; its loop takes a \<open>|\<close> each time
  round, so the length of the text is enough fuel.\<close>

type_synonym seq_parser =
  "u8 list \<Rightarrow> llama_grammar_rule \<Rightarrow> llama_grammar_parser \<Rightarrow> (u8 list \<times> llama_grammar_rule \<times> llama_grammar_parser) res"

primrec alternates_loop ::
  "nat \<Rightarrow> seq_parser \<Rightarrow> u32 \<Rightarrow> u8 list \<Rightarrow> llama_grammar_rule \<Rightarrow> llama_grammar_parser
     \<Rightarrow> (u8 list \<times> llama_grammar_parser) res" where
  "alternates_loop 0 seq rule_id pos rule st = Inl Diverge"
| "alternates_loop (Suc n) seq rule_id pos rule st =
     (if peek pos = 0x7c then
        bind_res (seq (parse_space (tl pos) True) (rule @ [GE GRE_ALT 0]) st) (\<lambda>(pos', rule', st').
          alternates_loop n seq rule_id pos' rule' st')
      else Inr (pos, add_rule rule_id (rule @ [GE GRE_END 0]) st))"

definition alternates_with ::
  "seq_parser \<Rightarrow> u32 \<Rightarrow> u8 list \<Rightarrow> llama_grammar_parser \<Rightarrow> (u8 list \<times> llama_grammar_parser) res" where
  "alternates_with seq rule_id src st =
     bind_res (seq src [] st) (\<lambda>(pos, rule, st'). alternates_loop (length src + 1) seq rule_id pos rule st')"

text \<open>The loop of \<open>parse_sequence\<close>; every turn and every nested call starts further on, so the length of
  the text is enough fuel here too.\<close>

primrec sequence_loop ::
  "nat \<Rightarrow> u8 list \<Rightarrow> bool \<Rightarrow> u8 list \<Rightarrow> llama_grammar_rule \<Rightarrow> nat \<Rightarrow> llama_grammar_parser
     \<Rightarrow> (u8 list \<times> llama_grammar_rule \<times> llama_grammar_parser) res" where
  "sequence_loop 0 rule_name nested pos rule last_sym st = Inl Diverge"
| "sequence_loop (Suc fuel) rule_name nested pos rule last_sym st =
     (if peek pos = 0 then Inr (pos, rule, st)
      else if peek pos = 0x28 then
        (case generate_symbol_id rule_name st of (sub_rule_id, st1) \<Rightarrow>
           bind_res (alternates_with (\<lambda>p r s. sequence_loop fuel rule_name True p r (length r) s)
                       sub_rule_id (parse_space (tl pos) True) st1) (\<lambda>(pos1, st2).
             if peek pos1 \<noteq> 0x29 then Inl (Throw ''expecting closing parenthesis'')
             else sequence_loop fuel rule_name nested (parse_space (tl pos1) nested)
                    (rule @ [GE GRE_RULE_REF sub_rule_id]) (length rule) st2))
      else
        bind_res (parse_item rule_name nested pos rule last_sym st) (\<lambda>r.
          case r of
            None \<Rightarrow> Inr (pos, rule, st)
          | Some (pos', rule', last_sym', st') \<Rightarrow>
              sequence_loop fuel rule_name nested pos' rule' last_sym' st'))"

definition parse_sequence :: "u8 list \<Rightarrow> bool \<Rightarrow> seq_parser" where
  "parse_sequence rule_name nested src rule st =
     sequence_loop (length src + 1) rule_name nested src rule (length rule) st"

definition parse_alternates ::
  "u8 list \<Rightarrow> u32 \<Rightarrow> bool \<Rightarrow> u8 list \<Rightarrow> llama_grammar_parser \<Rightarrow> (u8 list \<times> llama_grammar_parser) res" where
  "parse_alternates rule_name rule_id nested src st = alternates_with (parse_sequence rule_name nested) rule_id src st"

definition parse_rule :: "u8 list \<Rightarrow> llama_grammar_parser \<Rightarrow> (u8 list \<times> llama_grammar_parser) res" where
  "parse_rule src st =
     bind_res (parse_name src) (\<lambda>(name, name_end).
       let pos = parse_space name_end False in
       case get_symbol_id name st of (rule_id, st1) \<Rightarrow>
         if \<not> (peek pos = 0x3a \<and> peek (tl pos) = 0x3a \<and> peek (tl (tl pos)) = 0x3d)
         then Inl (Throw ''expecting ::='')
         else
           bind_res (parse_alternates name rule_id False (parse_space (tl (tl (tl pos))) True) st1) (\<lambda>(pos1, st2).
             if peek pos1 = 0x0d then
               Inr (parse_space (if peek (tl pos1) = 0x0a then tl (tl pos1) else tl pos1) True, st2)
             else if peek pos1 = 0x0a then Inr (parse_space (tl pos1) True, st2)
             else if peek pos1 \<noteq> 0 then Inl (Throw ''expecting newline or end'')
             else Inr (parse_space pos1 True, st2)))"

fun parse_rules :: "nat \<Rightarrow> u8 list \<Rightarrow> llama_grammar_parser \<Rightarrow> llama_grammar_parser res" where
  "parse_rules 0 pos st = Inl Diverge"
| "parse_rules (Suc fuel) pos st =
     (if peek pos = 0 then Inr st
      else bind_res (parse_rule pos st) (\<lambda>(pos', st'). parse_rules fuel pos' st'))"

text \<open>The validation: every rule is defined, and so is every rule it refers to. A reference to a
  missing rule is an error only when a symbol has its id.\<close>

definition missing_ref :: "llama_grammar_parser \<Rightarrow> llama_grammar_element \<Rightarrow> bool" where
  "missing_ref st e \<longleftrightarrow> ge_type e = GRE_RULE_REF
     \<and> (unat (ge_value e) \<ge> length (p_rules st) \<or> p_rules st ! unat (ge_value e) = [])
     \<and> ge_value e \<in> snd ` set (symbol_ids st)"

definition validate_rules :: "llama_grammar_parser \<Rightarrow> unit res" where
  "validate_rules st =
     (if \<exists>rule \<in> set (p_rules st). rule = [] \<or> (\<exists>e \<in> set rule. missing_ref st e)
      then Inl (Throw ''Undefined rule'') else Inr ())"

text \<open>\<open>llama_grammar_parser::parse\<close>. An exception clears the rules and gives false: here \<open>None\<close>, as the
  callers drop the parser then.\<close>

definition parser_init :: llama_grammar_parser where
  "parser_init = \<lparr>symbol_ids = [], p_rules = []\<rparr>"

definition parser_parse :: "u8 list \<Rightarrow> llama_grammar_parser option res" where
  "parser_parse src =
     (case bind_res (parse_rules (length src + 1) (parse_space src True) parser_init)
             (\<lambda>st. bind_res (validate_rules st) (\<lambda>_. Inr st)) of
        Inr st \<Rightarrow> Inr (Some st)
      | Inl (Throw msg) \<Rightarrow> Inr None
      | Inl e \<Rightarrow> Inl e)"

text \<open>The second \<open>llama_grammar_init_impl\<close>: from grammar text and the name of the start rule.\<close>

definition str_root :: "u8 list" where
  "str_root = [0x72, 0x6f, 0x6f, 0x74]"

definition llama_grammar_init_impl ::
  "nat \<Rightarrow> u8 list \<Rightarrow> u8 list \<Rightarrow> bool \<Rightarrow> u8 list list \<Rightarrow> int list \<Rightarrow> llama_grammar option res" where
  "llama_grammar_init_impl fuel grammar_str grammar_root lz trigger_words trigger_tokens =
     bind_res (parser_parse grammar_str) (\<lambda>r.
       case r of
         None \<Rightarrow> Inr None
       | Some parser \<Rightarrow>
           if p_rules parser = [] then Inr None
           else if map_of (symbol_ids parser) str_root = None then Inr None
           else
             (case map_of (symbol_ids parser) grammar_root of
                None \<Rightarrow> Inl (Throw ''map::at'')
              | Some start \<Rightarrow> llama_grammar_init_rules fuel (p_rules parser) (unat start) lz trigger_words trigger_tokens))"

end
