(* ===== verification/Grammar_Text.thy ===== *)
theory Grammar_Text
  imports Grammar_Parser
begin

text \<open>
  The GBNF parser is total, and the rules it accepts are the well-formed rules the engine's
  theorems ask for. The fuel of every loop of \<open>Grammar_Parser\<close> is enough because a turn of the loop
  leaves a shorter text; the rules are well formed because the elements a sequence adds always form
  whole symbols, and because an id that is used has a name, which the validation looks up.
\<close>

section \<open>Every loop reads on\<close>

named_theorems reads_on

lemma parse_space_length [reads_on]: "length (parse_space bs nl) \<le> length bs"
  by (induction bs nl rule: parse_space.induct) (auto intro: order_trans[OF _ skip_comment_length] le_SucI)

lemma peek_nonzero: "peek bs \<noteq> 0 \<Longrightarrow> \<exists>b bs'. bs = b # bs' \<and> peek bs = b"
  by (cases bs) (auto simp: peek_def)

lemma peek_shorter: "peek bs \<noteq> 0 \<Longrightarrow> Suc (length (tl bs)) = length bs"
  by (cases bs) (auto simp: peek_def)

lemma dropWhile_shorter: "P (hd bs) \<Longrightarrow> bs \<noteq> [] \<Longrightarrow> length (dropWhile P bs) < length bs"
  by (cases bs) (auto simp: le_imp_less_Suc length_dropWhile_le)

lemma word_char_nonzero: "is_word_char c \<Longrightarrow> c \<noteq> 0" "is_digit_char c \<Longrightarrow> c \<noteq> 0"
  by (auto simp: is_word_char_def is_digit_char_def)

lemma parse_name_shorter: "parse_name bs = Inr (n, e) \<Longrightarrow> length e < length bs"
  by (cases bs) (auto simp: parse_name_def peek_def word_char_nonzero length_dropWhile_le le_imp_less_Suc
      split: if_splits dest: word_char_nonzero)

lemma parse_int_shorter: "parse_int bs = Inr (n, e) \<Longrightarrow> length e < length bs"
  by (cases bs) (auto simp: parse_int_def peek_def word_char_nonzero length_dropWhile_le le_imp_less_Suc
      split: if_splits dest: word_char_nonzero)

lemma parse_hex_length: "parse_hex bs n v = Inr (w, e) \<Longrightarrow> length e \<le> length bs"
  by (induction bs n v rule: parse_hex.induct) (auto split: option.splits)

text \<open>A parser fails with an exception only.\<close>

definition is_throw :: "failure \<Rightarrow> bool" where
  "is_throw e = (case e of Throw m \<Rightarrow> True | _ \<Rightarrow> False)"

lemma is_throw_simps [simp]:
  "is_throw (Throw m)" "\<not> is_throw Diverge" "\<not> is_throw Undef" "\<not> is_throw GgmlAbort"
  by (simp_all add: is_throw_def)

definition only_throws :: "'a res \<Rightarrow> bool" where
  "only_throws r = (case r of Inl e \<Rightarrow> is_throw e | Inr _ \<Rightarrow> True)"

lemma only_throws_simps [simp]: "only_throws (Inr x)" "only_throws (Inl e) \<longleftrightarrow> is_throw e"
  by (simp_all add: only_throws_def)

lemma only_throws_bind [intro!]:
  "only_throws m \<Longrightarrow> (\<And>x. m = Inr x \<Longrightarrow> only_throws (f x)) \<Longrightarrow> only_throws (bind_res m f)"
  by (cases m) auto

lemma parse_hex_no_diverge: "only_throws (parse_hex bs n v)"
  by (induction bs n v rule: parse_hex.induct) (auto split: option.splits)

lemma decode_rest_length: "length (snd (decode_rest v n bs)) \<le> length bs"
  by (induction v n bs rule: decode_rest.induct) auto

lemma decode_utf8_char_shorter: "bs \<noteq> [] \<Longrightarrow> length (snd (decode_utf8_char bs)) < length bs"
  by (cases bs) (auto simp: decode_utf8_char_def Let_def less_Suc_eq_le decode_rest_length)

lemma parse_char_shorter:
  assumes "parse_char bs = Inr (c, e)"
  shows "length e < length bs"
proof (cases "peek bs = 0x5c")
  case True
  then have "bs \<noteq> []" by (auto simp: peek_def)
  then have "length (tl (tl bs)) < length bs" by (cases bs) auto
  with assms True show ?thesis
    by (auto simp: parse_char_def Let_def split: if_splits dest!: parse_hex_length)
next
  case False
  with assms show ?thesis
    using decode_utf8_char_shorter[of bs] by (cases bs) (auto simp: parse_char_def peek_def split: if_splits)
qed

lemma parse_char_no_diverge: "only_throws (parse_char bs)"
  by (simp add: parse_char_def Let_def parse_hex_no_diverge)

text \<open>What the lemmas on the loops say: with the given fuel, the loop answers without divergence
  and the rest of the text is not longer than before.\<close>

definition reads :: "nat \<Rightarrow> ('a \<Rightarrow> u8 list) \<Rightarrow> 'a res \<Rightarrow> bool" where
  "reads n rest r = (case r of Inl e \<Rightarrow> only_throws r | Inr x \<Rightarrow> length (rest x) \<le> n)"

lemma reads_simps [simp]:
  "reads n rest (Inl e) \<longleftrightarrow> is_throw e" "reads n rest (Inr x) \<longleftrightarrow> length (rest x) \<le> n"
  by (simp_all add: reads_def)

lemma reads_bind:
  assumes "only_throws (m)" "\<And>x. m = Inr x \<Longrightarrow> reads n rest (f x)"
  shows "reads n rest (bind_res m f)"
  using assms by (cases m) auto

lemma reads_then:
  assumes "reads k rest' m" "\<And>x. m = Inr x \<Longrightarrow> length (rest' x) \<le> k \<Longrightarrow> reads n rest (f x)"
  shows "reads n rest (bind_res m f)"
  using assms by (cases m) auto

lemma reads_mono: "reads n rest r \<Longrightarrow> n \<le> n' \<Longrightarrow> reads n' rest r"
  by (cases r) auto

lemma reads_no_diverge: "reads n rest r \<Longrightarrow> only_throws r"
  by (cases r) auto

lemma reads_Inr: "reads n rest r \<Longrightarrow> r = Inr x \<Longrightarrow> length (rest x) \<le> n"
  by simp

lemma parse_literal_reads:
  "length pos < n \<Longrightarrow> reads (length pos) snd (parse_literal n pos rule)"
proof (induction n arbitrary: pos rule)
  case (Suc n)
  have "reads (length pos) snd (bind_res (parse_char pos) (\<lambda>(c, pos'). parse_literal n pos' (rule @ [GE GRE_CHAR c])))"
  proof (rule reads_bind)
    fix x assume x: "parse_char pos = Inr x"
    obtain c pos' where [simp]: "x = (c, pos')" by fastforce
    have "length pos' < length pos" using x parse_char_shorter by simp
    then show "reads (length pos) snd (case x of (c, pos') \<Rightarrow> parse_literal n pos' (rule @ [GE GRE_CHAR c]))"
      using Suc.IH[of pos'] Suc.prems by (auto intro: reads_mono[of "length pos'"])
  qed (rule parse_char_no_diverge)
  then show ?case by simp
qed simp

lemma parse_class_reads:
  "length pos < n \<Longrightarrow> reads (length pos) snd (parse_class n t k pos rule)"
proof (induction n arbitrary: pos rule)
  case (Suc n)
  have step: "reads (length pos) snd (parse_class n t k pos' rule')" if "length pos' < length pos" for pos' rule'
    using Suc.IH[of pos' rule'] Suc.prems that by (auto intro: reads_mono[of "length pos'"])
  have "length (tl p) \<le> length p" for p :: "u8 list" by simp
  then have "parse_char p = Inr (c, p') \<Longrightarrow> parse_char (tl p') = Inr (c2, p'') \<Longrightarrow> length p'' < length p" for p c c2 p' p''
    by (meson parse_char_shorter less_le_trans less_trans)
  then show ?case
    by (auto simp: Let_def parse_char_no_diverge intro!: reads_bind step dest: parse_char_shorter)
qed simp

lemma parse_space_le: "length p \<le> n \<Longrightarrow> length (parse_space p nl) \<le> n"
  using parse_space_length order_trans by blast

lemma tl_le: "length p \<le> n \<Longrightarrow> length (tl p) \<le> n"
  by simp

lemma parse_int_le: "parse_int p = Inr (d, e) \<Longrightarrow> length p \<le> n \<Longrightarrow> length e \<le> n"
  using parse_int_shorter by fastforce

lemma parse_name_le: "parse_name p = Inr (d, e) \<Longrightarrow> length p \<le> n \<Longrightarrow> length e \<le> n"
  using parse_name_shorter by fastforce

lemma parse_int_no_diverge: "only_throws (parse_int p)" "only_throws (parse_name p)" "only_throws (stoul_int ds)"
  by (auto simp: parse_int_def parse_name_def stoul_int_def)

lemma parse_braces_reads: "length pos \<le> n \<Longrightarrow> reads n (\<lambda>(_, _, e). e) (parse_braces nested pos)"
  unfolding parse_braces_def Let_def
  by (auto simp: parse_int_no_diverge bind_res_eq_Inl split: if_splits
      intro!: reads_bind tl_le parse_space_le elim!: parse_int_le)

lemma handle_repetitions_no_diverge: "only_throws (handle_repetitions name m n k rule st)"
  by (simp add: handle_repetitions_def Let_def split: prod.splits)

lemma repeat_with_reads: "length pos \<le> n \<Longrightarrow> reads n (case_option [] fst) (repeat_with name a b pos rule k st)"
  unfolding repeat_with_def by (rule reads_bind) (auto simp: handle_repetitions_no_diverge)

lemma parse_item_reads:
  assumes "peek pos \<noteq> 0" and "length pos = Suc n"
  shows "reads n (case_option [] fst) (parse_item name nested pos rule k st)"
proof -
  have t: "length (tl pos) \<le> n" "length (tl (tl pos)) \<le> n" using assms(2) by auto
  have lit: "reads n (case_option [] fst) (bind_res (parse_literal (length pos) (tl pos) rule) (\<lambda>(rule', pos').
          Inr (Some (parse_space pos' nested, rule', length rule, st))))"
    using parse_literal_reads[of "tl pos" "length pos" rule] assms(2) t
    by (intro reads_then[of _ snd]) (auto intro!: parse_space_le)
  have cls: "reads n (case_option [] fst) (bind_res (parse_class (length pos) ty k p rule) (\<lambda>(rule', pos').
          Inr (Some (parse_space pos' nested, rule', length rule, st))))" if "length p \<le> n" for ty k p
    using parse_class_reads[of p "length pos" ty k rule] assms(2) that
    by (intro reads_then[of _ snd]) (auto intro!: parse_space_le)
  have nm: "reads n (case_option [] fst) (bind_res (parse_name pos) (\<lambda>(nm, name_end).
          case get_symbol_id nm st of (ref_rule_id, st') \<Rightarrow>
            Inr (Some (parse_space name_end nested, rule @ [GE GRE_RULE_REF ref_rule_id], length rule, st'))))"
    using assms(2) by (auto simp: parse_int_no_diverge intro!: reads_bind parse_space_le
        split: prod.splits dest!: parse_name_shorter)
  have br: "reads n (case_option [] fst) (bind_res (parse_braces nested (parse_space (tl pos) nested))
       (\<lambda>(min_times, max_times, pos'). repeat_with name min_times max_times pos' rule k st))"
    by (rule reads_then, rule parse_braces_reads[OF parse_space_le[OF t(1)]]) (auto intro!: repeat_with_reads)
  note rp = repeat_with_reads[OF parse_space_le[OF t(1)]]
  show ?thesis unfolding parse_item_def Let_def
    using lit cls[OF t(1)] cls[OF t(2)] nm br rp t by (simp add: parse_space_le)
qed

text \<open>The two mutually recursive parsers: the sequence parser is good for texts shorter than its fuel.\<close>

definition seq_reads :: "nat \<Rightarrow> seq_parser \<Rightarrow> bool" where
  "seq_reads n seq \<longleftrightarrow> (\<forall>pos rule st. length pos \<le> n \<longrightarrow> reads (length pos) fst (seq pos rule st))"

lemma alternates_loop_reads:
  "seq_reads n seq \<Longrightarrow> length pos \<le> n \<Longrightarrow> length pos < k
   \<Longrightarrow> reads (length pos) fst (alternates_loop k seq rule_id pos rule st)"
proof (induction k arbitrary: pos rule st)
  case (Suc k)
  show ?case
  proof (cases "peek pos = 0x7c")
    case True
    then have "Suc (length (tl pos)) = length pos" by (intro peek_shorter) simp
    then have lt: "Suc (length (parse_space (tl pos) True)) \<le> length pos"
      by (metis Suc_le_mono parse_space_length)
    then have s: "reads (length (parse_space (tl pos) True)) fst (seq (parse_space (tl pos) True) r st)" for r
      using Suc.prems by (auto simp: seq_reads_def)
    have "reads (length pos) fst (case x of (pos', rule', st') \<Rightarrow> alternates_loop k seq rule_id pos' rule' st')"
      if "seq (parse_space (tl pos) True) (rule @ [GE GRE_ALT 0]) st = Inr x" for x
    proof -
      obtain p r t where [simp]: "x = (p, r, t)" by (metis prod_cases3)
      have "length p \<le> length (parse_space (tl pos) True)" using reads_Inr[OF s that] by simp
      then have "length p < length pos" using lt by simp
      then show ?thesis using Suc.IH[of p r t] Suc.prems by (auto intro: reads_mono[of "length p"])
    qed
    then show ?thesis using True by (auto intro!: reads_then[OF s])
  qed simp
qed simp

lemma alternates_with_reads:
  assumes "seq_reads n seq" "length src \<le> n"
  shows "reads (length src) fst (alternates_with seq rule_id src st)"
  unfolding alternates_with_def
proof (rule reads_bind)
  have s: "reads (length src) fst (seq src [] st)" using assms by (simp add: seq_reads_def)
  then show "only_throws (seq src [] st)" by (rule reads_no_diverge)
  fix x assume x: "seq src [] st = Inr x"
  obtain p r t where [simp]: "x = (p, r, t)" by (metis prod_cases3)
  have p: "length p \<le> length src" using s x by simp
  then have "reads (length p) fst (alternates_loop (length src + 1) seq rule_id p r t)"
    using assms(2) by (intro alternates_loop_reads[OF assms(1)]) simp_all
  then show "reads (length src) fst (case x of (pos, rule, st') \<Rightarrow> alternates_loop (length src + 1) seq rule_id pos rule st')"
    using p by (auto intro: reads_mono[of "length p"])
qed

lemma sequence_loop_reads:
  "length pos < fuel \<Longrightarrow> reads (length pos) fst (sequence_loop fuel name nested pos rule k st)"
proof (induction fuel arbitrary: nested pos rule k st)
  case (Suc fuel)
  have IH: "reads (length pos) fst (sequence_loop fuel name nested p r l s)" if "length p < length pos" for nested p r l s
    using Suc.IH[of p] Suc.prems that by (auto intro: reads_mono[of "length p"])
  have seq: "seq_reads (length (tl pos)) (\<lambda>p r s. sequence_loop fuel name True p r (length r) s)" if "peek pos \<noteq> 0"
    using Suc peek_shorter[OF that] by (simp add: seq_reads_def)
  have alt: "reads (length (tl pos)) fst (alternates_with (\<lambda>p r s. sequence_loop fuel name True p r (length r) s)
      i (parse_space (tl pos) True) s)" if "peek pos \<noteq> 0" for i s
    using alternates_with_reads[OF seq[OF that] parse_space_length] by (rule reads_mono) (rule parse_space_length)
  consider "peek pos = 0" | "peek pos = 0x28" | "peek pos \<noteq> 0" "peek pos \<noteq> 0x28" by blast
  then show ?case
  proof cases
    case 2
    then have ne: "peek pos \<noteq> 0" by simp
    have "length (parse_space (tl p) b) < length pos" if "length p \<le> length (tl pos)" for p b
      using that peek_shorter[OF ne] parse_space_length[of "tl p" b] by simp
    then show ?thesis using 2 by (auto split: prod.splits intro!: reads_then[OF alt[OF ne]] IH)
  next
    case 3
    then have it: "reads (length (tl pos)) (case_option [] fst) (parse_item name nested pos rule k st)"
      using parse_item_reads peek_shorter by metis
    show ?thesis using 3 peek_shorter[OF 3(1)]
      by (auto split: option.splits intro!: reads_then[OF it] IH)
  qed simp
qed simp

lemma parse_alternates_reads: "length src \<le> n \<Longrightarrow> reads n fst (parse_alternates name i nested src st)"
  unfolding parse_alternates_def
  by (rule reads_mono, rule alternates_with_reads[of "length src"])
    (simp_all add: seq_reads_def parse_sequence_def sequence_loop_reads del: sequence_loop.simps)

lemma parse_rule_reads:
  assumes "Suc n = length pos"
  shows "reads n fst (parse_rule pos st)"
proof -
  have alt: "reads n fst (parse_alternates name i False (parse_space (tl (tl (tl (parse_space e False)))) True) st')"
    if "parse_name pos = Inr (name, e)" for name e i st'
    using parse_name_shorter[OF that] assms by (intro parse_alternates_reads parse_space_le tl_le) simp
  show ?thesis unfolding parse_rule_def Let_def
    by (auto simp: parse_int_no_diverge split: prod.splits
        intro!: reads_bind[of "parse_name pos"] reads_then[OF alt] parse_space_le tl_le simp del: length_tl)
qed

lemma parse_rules_reads: "length pos < n \<Longrightarrow> only_throws (parse_rules n pos st)"
proof (induction n arbitrary: pos st)
  case (Suc n)
  show ?case
  proof (cases "peek pos = 0")
    case False
    then have "Suc (length (tl pos)) = length pos" by (rule peek_shorter)
    with parse_rule_reads[OF this, of st] Suc show ?thesis
      using False by (auto intro: reads_no_diverge dest: reads_Inr)
  qed simp
qed simp

text \<open>C33: The GBNF parser always returns, on every text: with a parser whose rules it accepted, or with
  nothing after an exception.\<close>

theorem gbnf_parser_terminates: "\<exists>r. parser_parse src = Inr r"
proof -
  have "only_throws (parse_rules (length src + 1) (parse_space src True) parser_init)"
    by (rule parse_rules_reads) (simp add: parse_space_length less_Suc_eq_le)
  then show ?thesis
    by (cases "parse_rules (length src + 1) (parse_space src True) parser_init")
      (auto simp: parser_parse_def validate_rules_def is_throw_def simp del: parse_rules.simps split: failure.splits)
qed

section \<open>Fragments of rules\<close>

text \<open>The states of \<open>elems_ok\<close> as an automaton on elements; a fragment of a rule is a list of elements
  it can run through from the state outside every class.\<close>

definition elem_step :: "nat \<Rightarrow> llama_grammar_element \<Rightarrow> nat option" where
  "elem_step s e =
     (case ge_type e of
        GRE_END \<Rightarrow> None
      | GRE_ALT \<Rightarrow> Some 0
      | GRE_RULE_REF \<Rightarrow> Some 0
      | GRE_CHAR_RNG_UPPER \<Rightarrow> (if s = 1 then Some 2 else None)
      | GRE_CHAR_ALT \<Rightarrow> (if s \<noteq> 0 then Some 1 else None)
      | _ \<Rightarrow> Some 1)"

primrec elem_run :: "nat \<Rightarrow> llama_grammar_element list \<Rightarrow> nat option" where
  "elem_run s [] = Some s"
| "elem_run s (e # es) = Option.bind (elem_step s e) (\<lambda>s'. elem_run s' es)"

definition frag :: "llama_grammar_element list \<Rightarrow> bool" where
  "frag es \<longleftrightarrow> elem_run 0 es \<noteq> None"

lemma elem_run_append: "elem_run s (xs @ ys) = Option.bind (elem_run s xs) (\<lambda>s'. elem_run s' ys)"
  by (induction xs arbitrary: s) (auto split: bind_splits)

lemma elem_run_from: "elem_run 0 es = Some t \<Longrightarrow> \<exists>t'. elem_run s es = Some t'"
  by (cases es) (auto simp: elem_step_def split: llama_gretype.splits if_splits)

lemma frag_Nil [simp]: "frag []"
  by (simp add: frag_def)

lemma frag_append: "frag xs \<Longrightarrow> frag ys \<Longrightarrow> frag (xs @ ys)"
  by (auto simp: frag_def elem_run_append intro: elem_run_from)

lemma frag_single: "frag [e] \<longleftrightarrow> ge_type e \<in> {GRE_ALT, GRE_RULE_REF, GRE_CHAR, GRE_CHAR_NOT, GRE_CHAR_ANY}"
  by (auto simp: frag_def elem_step_def split: llama_gretype.splits)

lemma frag_concat: "(\<And>x. x \<in> set xs \<Longrightarrow> frag x) \<Longrightarrow> frag (concat xs)"
  by (induction xs) (auto intro: frag_append)

definition refs :: "llama_grammar_element list \<Rightarrow> u32 set" where
  "refs es = {ge_value e | e. e \<in> set es \<and> ge_type e = GRE_RULE_REF}"

lemma refs_simps [simp]:
  "refs [] = {}" "refs (xs @ ys) = refs xs \<union> refs ys"
  "refs (e # es) = (if ge_type e = GRE_RULE_REF then insert (ge_value e) (refs es) else refs es)"
  by (auto simp: refs_def)

lemma refs_concat: "refs (concat xs) = (\<Union>x \<in> set xs. refs x)"
  by (induction xs) auto

lemma refs_take_drop: "refs (take k es) \<subseteq> refs es" "refs (drop k es) \<subseteq> refs es"
  by (auto simp: refs_def dest: in_set_takeD in_set_dropD)

lemma elems_ok_run:
  "elem_run s f \<noteq> None \<Longrightarrow> \<forall>v \<in> refs f. unat v < n \<Longrightarrow> elems_ok n s (f @ [GE GRE_END 0])"
  by (induction f arbitrary: s) (auto simp: elem_step_def split: llama_gretype.splits if_splits)

section \<open>Symbols\<close>

text \<open>Names from the text have no underscore; a generated name ends in one followed by its id. So
  giving a name that exists already a new id gives it the id it has: an id in use keeps a name.\<close>

definition ids :: "llama_grammar_parser \<Rightarrow> u32 set" where
  "ids st = snd ` set (symbol_ids st)"

definition plain_name :: "u8 list \<Rightarrow> bool" where
  "plain_name k \<longleftrightarrow> 0x5f \<notin> set k"

definition symbol_ok :: "u8 list \<times> u32 \<Rightarrow> bool" where
  "symbol_ok kv \<longleftrightarrow> plain_name (fst kv) \<or> (\<exists>b. plain_name b \<and> fst kv = b @ 0x5f # dec_digits (unat (snd kv)))"

definition rule_good :: "u32 set \<Rightarrow> llama_grammar_rule \<Rightarrow> bool" where
  "rule_good I r \<longleftrightarrow> r = [] \<or> (\<exists>f. r = f @ [GE GRE_END 0] \<and> frag f \<and> refs f \<subseteq> I)"

definition parser_ok :: "llama_grammar_parser \<Rightarrow> bool" where
  "parser_ok st \<longleftrightarrow> (\<forall>kv \<in> set (symbol_ids st). symbol_ok kv) \<and> (\<forall>r \<in> set (p_rules st). rule_good (ids st) r)"

text \<open>A step of the parser keeps the state good and keeps the ids.\<close>

definition grows :: "llama_grammar_parser \<Rightarrow> llama_grammar_parser \<Rightarrow> bool" where
  "grows st st' \<longleftrightarrow> parser_ok st' \<and> ids st \<subseteq> ids st'"

lemma grows_trans: "grows a b \<Longrightarrow> grows b c \<Longrightarrow> grows a c"
  by (auto simp: grows_def)

lemma grows_refl: "parser_ok st \<Longrightarrow> grows st st"
  by (simp add: grows_def)

lemma digit_char: "d < 10 \<Longrightarrow> unat (of_nat (0x30 + d) :: u8) = 0x30 + d"
  by (simp only: unat_of_nat) simp

lemma dec_digits_chars: "c \<in> set (dec_digits n) \<Longrightarrow> 0x30 \<le> unat c \<and> unat c < 0x3a"
proof (induction n rule: dec_digits.induct)
  case (1 n)
  have "unat (of_nat (0x30 + n mod 10) :: u8) = 0x30 + n mod 10" by (rule digit_char) simp
  then show ?case using 1 digit_char[of n] by (subst (asm) (2) dec_digits.simps) (auto split: if_splits)
qed

lemma dec_digits_plain: "0x5f \<notin> set (dec_digits n)"
  using dec_digits_chars[of "0x5f" n] by auto

lemma digits_value_dec: "digits_value (dec_digits n) = int n"
proof (induction n rule: dec_digits.induct)
  case (1 n)
  have d: "uint (of_nat (0x30 + d) :: u8) = 0x30 + int d" if "d < 10" for d
    using digit_char[OF that] by (simp only: uint_nat of_nat_add of_nat_numeral)
  show ?case
  proof (cases "n < 10")
    case True
    then have "dec_digits n = [of_nat (0x30 + n)]" by (simp add: dec_digits.simps)
    then show ?thesis using d[OF True] by (simp only: digits_value_def foldl.simps)
  next
    case False
    then have "digits_value (dec_digits n)
        = 10 * digits_value (dec_digits (n div 10)) + (uint (of_nat (0x30 + n mod 10) :: u8) - 0x30)"
      by (subst dec_digits.simps) (simp only: digits_value_def foldl_append foldl.simps if_False)
    also have "\<dots> = 10 * int (n div 10) + int (n mod 10)" using 1[OF False] d[of "n mod 10"] by simp
    also have "\<dots> = int n" by (metis mult_div_mod_eq of_nat_add of_nat_mult of_nat_numeral)
    finally show ?thesis .
  qed
qed

lemma dec_digits_inj: "dec_digits m = dec_digits n \<longleftrightarrow> m = n"
  using digits_value_dec by (metis of_nat_eq_iff)

lemma generated_name_inj:
  assumes "plain_name b" "plain_name b'" "b @ 0x5f # dec_digits m = b' @ 0x5f # dec_digits n"
  shows "m = n"
proof -
  have "b = takeWhile (\<lambda>c. c \<noteq> 0x5f) (b @ 0x5f # dec_digits m)" if "plain_name b" for b m
    using that by (subst takeWhile_append2) (auto simp: plain_name_def)
  then have "b = b'" using assms by metis
  then show ?thesis using assms(3) dec_digits_inj by simp
qed

lemma rule_good_mono: "rule_good I r \<Longrightarrow> I \<subseteq> J \<Longrightarrow> rule_good J r"
  by (auto simp: rule_good_def)

lemma parser_ok_symbols:
  assumes "parser_ok st" "\<forall>kv \<in> set l. symbol_ok kv" "ids st \<subseteq> snd ` set l"
  shows "grows st (st\<lparr>symbol_ids := l\<rparr>)"
  using assms by (auto simp: grows_def parser_ok_def ids_def intro: rule_good_mono[of "snd ` set (symbol_ids st)"])

lemma get_symbol_id_ok:
  assumes "parser_ok st" "plain_name name" "get_symbol_id name st = (i, st')"
  shows "grows st st'" "i \<in> ids st'" "p_rules st' = p_rules st"
proof -
  show "grows st st'"
  proof (cases "map_of (symbol_ids st) name")
    case None
    then have "st' = st\<lparr>symbol_ids := symbol_ids st @ [(name, of_nat (length (symbol_ids st)))]\<rparr>"
      using assms(3) by (auto simp: get_symbol_id_def)
    then show ?thesis using assms(1,2)
      by (auto intro!: parser_ok_symbols simp: ids_def symbol_ok_def) (auto simp: parser_ok_def symbol_ok_def)
  qed (use assms in \<open>simp add: get_symbol_id_def grows_refl\<close>)
  show "i \<in> ids st'" "p_rules st' = p_rules st" using assms(3)
    by (force simp: get_symbol_id_def ids_def split: option.splits dest: map_of_SomeD)+
qed

lemma symbol_set_mem: "kv \<in> set (symbol_set name i l) \<Longrightarrow> kv \<in> set l \<or> kv = (name, i)"
  by (auto simp: symbol_set_def split: if_splits)

lemma symbol_set_ids:
  assumes "\<And>v. (name, v) \<in> set l \<Longrightarrow> v = i"
  shows "snd ` set (symbol_set name i l) = insert i (snd ` set l)"
proof (cases "map_of l name")
  case None
  then show ?thesis by (simp add: symbol_set_def)
next
  case (Some v)
  then have v: "(name, v) \<in> set l" by (rule map_of_SomeD)
  then have "v = i" using assms by blast
  then have "i \<in> snd ` set l" using v by force
  moreover have "map (\<lambda>(k, v). if k = name then (k, i) else (k, v)) l = l"
    using assms by (intro map_idI) auto
  ultimately show ?thesis using Some by (auto simp: symbol_set_def)
qed

lemma generate_symbol_id_ok:
  assumes "parser_ok st" "plain_name b" "generate_symbol_id b st = (i, st')"
  shows "grows st st'" "i \<in> ids st'" "p_rules st' = p_rules st"
proof -
  let ?n = "b @ 0x5f # dec_digits (unat i)"
  have st': "st' = st\<lparr>symbol_ids := symbol_set ?n i (symbol_ids st)\<rparr>"
    using assms(3) by (auto simp: generate_symbol_id_def Let_def)
  have same: "v = i" if "(?n, v) \<in> set (symbol_ids st)" for v
  proof -
    from that assms(1) have "symbol_ok (?n, v)" by (auto simp: parser_ok_def)
    then have "unat i = unat v"
      using generated_name_inj[OF assms(2)] by (auto simp: symbol_ok_def plain_name_def)
    then show ?thesis by (metis word_unat_eq_iff)
  qed
  note ids = symbol_set_ids[of ?n "symbol_ids st" i, OF same]
  show "grows st st'" unfolding st' using assms(1,2) ids
    by (intro parser_ok_symbols) (auto simp: ids_def symbol_ok_def parser_ok_def dest!: symbol_set_mem)
  show "i \<in> ids st'" using ids by (simp add: st' ids_def)
  show "p_rules st' = p_rules st" by (simp add: st')
qed

lemma add_rule_ok:
  assumes "parser_ok st" "rule_good (ids st) r"
  shows "grows st (add_rule i r st)" "ids (add_rule i r st) = ids st"
proof -
  have "rule_good (ids st) []" by (simp add: rule_good_def)
  then show "grows st (add_rule i r st)" using assms
    by (auto simp: grows_def parser_ok_def add_rule_def Let_def ids_def dest!: set_update_subset_insert[THEN subsetD]
        split: if_splits)
  show "ids (add_rule i r st) = ids st" by (simp add: add_rule_def Let_def ids_def)
qed

section \<open>Sequences keep the rules well formed\<close>

text \<open>The rule under construction, cut where its last symbol starts: both parts are fragments and
  what they refer to has an id.\<close>

definition partial_rule :: "llama_grammar_parser \<Rightarrow> nat \<Rightarrow> llama_grammar_rule \<Rightarrow> bool" where
  "partial_rule st k rule \<longleftrightarrow> k \<le> length rule \<and> frag (take k rule) \<and> frag (drop k rule) \<and> refs rule \<subseteq> ids st"

lemma partial_rule_frag: "partial_rule st k rule \<Longrightarrow> frag rule"
  using frag_append[of "take k rule" "drop k rule"] by (simp add: partial_rule_def)

lemma partial_rule_snoc:
  "frag rule \<Longrightarrow> frag es \<Longrightarrow> refs rule \<subseteq> ids st \<Longrightarrow> refs es \<subseteq> ids st \<Longrightarrow> partial_rule st (length rule) (rule @ es)"
  by (simp add: partial_rule_def)

lemma partial_rule_grows: "partial_rule st k rule \<Longrightarrow> grows st st' \<Longrightarrow> partial_rule st' k rule"
  by (auto simp: partial_rule_def grows_def)

lemma rule_good_end: "frag f \<Longrightarrow> refs f \<subseteq> I \<Longrightarrow> rule_good I (f @ [GE GRE_END 0])"
  by (auto simp: rule_good_def)

lemma rec_step_ok:
  assumes "parser_ok st" "plain_name name" "frag prev" "refs prev \<subseteq> ids st" "i = 0 \<or> r \<in> ids st"
    and "rec_step name prev mx i (st, r) = (st', r')"
  shows "grows st st'" "r' \<in> ids st'"
proof -
  obtain st1 where g: "generate_symbol_id name st = (r', st1)"
    and st': "st' = add_rule r' ((prev @ (if i > 0 \<or> mx < 0
                 then [GE GRE_RULE_REF (if mx < 0 then r' else r)] else []) @ [GE GRE_ALT 0]) @ [GE GRE_END 0]) st1"
    using assms(6) by (auto simp: rec_step_def split: prod.splits)
  note gen = generate_symbol_id_ok[OF assms(1,2) g]
  have sub: "refs prev \<subseteq> ids st1" "i = 0 \<or> r \<in> ids st1" using gen(1) assms(4,5) by (auto simp: grows_def)
  have "rule_good (ids st1) ((prev @ (if i > 0 \<or> mx < 0
                 then [GE GRE_RULE_REF (if mx < 0 then r' else r)] else []) @ [GE GRE_ALT 0]) @ [GE GRE_END 0])"
    using sub gen(2) assms(3) by (intro rule_good_end frag_append) (auto simp: frag_single)
  note add = add_rule_ok[OF _ this, of r']
  have ok: "parser_ok st1" using gen(1) by (simp add: grows_def)
  show "grows st st'" unfolding st' by (rule grows_trans[OF gen(1) add(1)[OF ok]])
  show "r' \<in> ids st'" unfolding st' add(2)[OF ok] by (rule gen(2))
qed

lemma rec_fold_ok:
  assumes "parser_ok st" "plain_name name" "frag prev" "refs prev \<subseteq> ids st"
  shows "fold (rec_step name prev mx) [0..<n] (st, 0) = (st', r') \<Longrightarrow> grows st st' \<and> (n = 0 \<or> r' \<in> ids st')"
proof (induction n arbitrary: st' r')
  case 0
  then show ?case using assms(1) by (simp add: grows_refl)
next
  case (Suc n)
  obtain st1 r1 where f: "fold (rec_step name prev mx) [0..<n] (st, 0) = (st1, r1)" by fastforce
  with Suc.prems have s: "rec_step name prev mx n (st1, r1) = (st', r')" by simp
  from Suc.IH[OF f] have 1: "grows st st1" "n = 0 \<or> r1 \<in> ids st1" by auto
  then have "parser_ok st1" "refs prev \<subseteq> ids st1" using assms(4) by (auto simp: grows_def)
  from rec_step_ok[OF this(1) assms(2,3) this(2) 1(2) s] show ?case using 1(1) grows_trans by blast
qed

lemma handle_repetitions_ok:
  assumes "parser_ok st" "plain_name name" "partial_rule st k rule"
    and "handle_repetitions name m n k rule st = Inr (rule', st')"
  shows "grows st st'" "partial_rule st' k rule'"
proof -
  let ?prev = "drop k rule" and ?n_opt = "if n < 0 then 1 else n - m"
  have pr: "k \<le> length rule" "frag ?prev" "frag (take k rule)" "refs ?prev \<subseteq> ids st" "refs (take k rule) \<subseteq> ids st"
    using assms(3) refs_take_drop[where es = rule and k = k] by (auto simp: partial_rule_def)
  obtain r1 where f: "fold (rec_step name ?prev n) [0..<nat ?n_opt] (st, 0) = (st', r1)"
    and rule': "rule' = take k rule @ ((if m = 0 then [] else ?prev @ concat (replicate (nat (m - 1)) ?prev))
                          @ (if ?n_opt > 0 then [GE GRE_RULE_REF r1] else []))"
    using assms(4) by (auto simp: handle_repetitions_def Let_def split: prod.splits if_splits)
  from rec_fold_ok[OF assms(1,2) pr(2,4) f] have 1: "grows st st'" "nat ?n_opt = 0 \<or> r1 \<in> ids st'" by auto
  show "grows st st'" by (rule 1)
  have sub: "refs ?prev \<subseteq> ids st'" "refs (take k rule) \<subseteq> ids st'" using pr(4,5) 1(1) by (auto simp: grows_def)
  have "frag ((if m = 0 then [] else ?prev @ concat (replicate (nat (m - 1)) ?prev))
                          @ (if ?n_opt > 0 then [GE GRE_RULE_REF r1] else []))"
    using pr(2) by (intro frag_append) (auto intro!: frag_append frag_concat simp: frag_single)
  moreover have "refs (concat (replicate j ?prev)) \<subseteq> ids st'" for j
    using sub(1) by (induction j) auto
  ultimately have "partial_rule st' (length (take k rule)) rule'"
    unfolding rule' using pr(3) sub 1(2) by (intro partial_rule_snoc) auto
  then show "partial_rule st' k rule'" using pr(1) by (simp add: min_absorb2)
qed

lemma parse_literal_ok:
  "parse_literal n pos rule = Inr (rule', pos') \<Longrightarrow> \<exists>es. rule' = rule @ es \<and> frag es \<and> refs es = {}"
proof (induction n arbitrary: pos rule)
  case (Suc n)
  show ?case
  proof (cases "peek pos = 0x22")
    case True
    with Suc.prems show ?thesis by auto
  next
    case False
    with Suc.prems obtain c p where "parse_literal n p (rule @ [GE GRE_CHAR c]) = Inr (rule', pos')"
      by (auto split: if_splits)
    from Suc.IH[OF this] obtain es where "rule' = rule @ [GE GRE_CHAR c] @ es" "frag es" "refs es = {}" by auto
    then show ?thesis using frag_append[of "[GE GRE_CHAR c]" es] by (auto simp: frag_single)
  qed
qed simp

text \<open>Inside a class the elements so far end in the state after an item or a range end.\<close>

definition class_part :: "llama_grammar_element list \<Rightarrow> bool" where
  "class_part es \<longleftrightarrow> refs es = {} \<and> (es = [] \<or> (\<exists>s. elem_run 0 es = Some s \<and> s \<noteq> 0))"

lemma class_part_snoc:
  assumes "class_part es" "t = GRE_CHAR \<or> t = GRE_CHAR_NOT"
  shows "class_part (es @ [GE (if es \<noteq> [] then GRE_CHAR_ALT else t) c])"
    and "class_part (es @ [GE (if es \<noteq> [] then GRE_CHAR_ALT else t) c, GE GRE_CHAR_RNG_UPPER c2])"
  using assms by (auto simp: class_part_def elem_run_append elem_step_def)

lemma parse_class_ok:
  assumes "t = GRE_CHAR \<or> t = GRE_CHAR_NOT"
  shows "class_part es \<Longrightarrow> parse_class n t (length rule) pos (rule @ es) = Inr (rule', pos')
    \<Longrightarrow> \<exists>es'. rule' = rule @ es' \<and> class_part es'"
proof (induction n arbitrary: pos es)
  case (Suc n)
  show ?case
  proof (cases "peek pos = 0x5d")
    case True
    with Suc.prems show ?thesis by auto
  next
    case False
    with Suc.prems(2) obtain c p where c: "parse_class n t (length rule) p
          (rule @ (es @ [GE (if es \<noteq> [] then GRE_CHAR_ALT else t) c])) = Inr (rule', pos')
        \<or> (\<exists>c2. parse_class n t (length rule) p
          (rule @ (es @ [GE (if es \<noteq> [] then GRE_CHAR_ALT else t) c, GE GRE_CHAR_RNG_UPPER c2])) = Inr (rule', pos'))"
      by (auto simp: Let_def split: if_splits)
    then show ?thesis using Suc.IH class_part_snoc[OF Suc.prems(1) assms] by metis
  qed
qed simp

lemma class_part_frag: "class_part es \<Longrightarrow> frag es \<and> refs es = {}"
  by (auto simp: class_part_def frag_def)

lemma parse_name_plain:
  assumes "parse_name p = Inr (n, e)"
  shows "plain_name n"
proof -
  have n: "n = takeWhile is_word_char p" using assms by (auto simp: parse_name_def split: if_splits)
  have "\<not> is_word_char 0x5f" by (simp add: is_word_char_def is_digit_char_def)
  then show ?thesis unfolding n plain_name_def by (metis set_takeWhileD)
qed

lemma repeat_with_ok:
  assumes "parser_ok st" "plain_name name" "partial_rule st k rule"
    and "repeat_with name m n pos rule k st = Inr (Some (pos', rule', k', st'))"
  shows "grows st st'" "partial_rule st' k' rule'"
  using assms handle_repetitions_ok[OF assms(1,2,3)] by (auto simp: repeat_with_def)

lemma parse_item_ok:
  assumes ok: "parser_ok st" "plain_name name" "partial_rule st k rule"
    and r: "parse_item name nested pos rule k st = Inr (Some (pos', rule', k', st'))"
  shows "grows st st' \<and> partial_rule st' k' rule'"
proof -
  have new: "grows st st' \<and> partial_rule st' k' rule'"
    if "rule' = rule @ es" "frag es" "refs es \<subseteq> ids st'" "k' = length rule" "grows st st'" for es
    using that partial_rule_frag[OF ok(3)] ok(3)
    by (auto intro!: partial_rule_snoc simp: grows_def partial_rule_def)
  note rep = repeat_with_ok[OF ok]
  consider (lit) "peek pos = 0x22" | (cls) "peek pos = 0x5b" | (nm) "is_word_char (peek pos)"
    | (any) "peek pos = 0x2e" | (brace) "peek pos = 0x7b" | (rpt) "peek pos = 0x2a \<or> peek pos = 0x2b \<or> peek pos = 0x3f"
    using r by (auto simp: parse_item_def Let_def split: if_splits)
  then show ?thesis
  proof cases
    case lit
    then obtain p where "parse_literal (length pos) (tl pos) rule = Inr (rule', p)" and e: "k' = length rule" "st' = st"
      using r by (auto simp: parse_item_def)
    then show ?thesis using parse_literal_ok new ok(1) by (fastforce simp: grows_refl)
  next
    case cls
    let ?t = "if peek (tl pos) = 0x5e then GRE_CHAR_NOT else GRE_CHAR"
    from cls obtain p q where c: "parse_class (length pos) ?t (length rule) q (rule @ []) = Inr (rule', p)"
      and e: "k' = length rule" "st' = st"
      using r by (auto simp: parse_item_def Let_def)
    have "class_part []" by (simp add: class_part_def)
    moreover have "?t = GRE_CHAR \<or> ?t = GRE_CHAR_NOT" by simp
    ultimately obtain es where "rule' = rule @ es" "class_part es" using parse_class_ok c by blast
    with e show ?thesis using class_part_frag[of es] new ok(1) by (auto simp: grows_refl)
  next
    case nm
    then have c: "peek pos \<noteq> 0x22" "peek pos \<noteq> 0x5b" by (auto simp: is_word_char_def is_digit_char_def)
    with nm r obtain nm e where n: "parse_name pos = Inr (nm, e)" by (auto simp: parse_item_def)
    obtain i s where "get_symbol_id nm st = (i, s)" by fastforce
    with nm c r n have g: "get_symbol_id nm st = (i, st')" and e: "rule' = rule @ [GE GRE_RULE_REF i]" "k' = length rule"
      by (auto simp: parse_item_def)
    note gi = get_symbol_id_ok[OF ok(1) parse_name_plain[OF n] g]
    show ?thesis using new[OF e(1) _ _ e(2) gi(1)] gi(2) by (simp add: frag_single)
  next
    case any
    then have "rule' = rule @ [GE GRE_CHAR_ANY 0]" "k' = length rule" "st' = st"
      using r by (auto simp: parse_item_def Let_def is_word_char_def is_digit_char_def)
    then show ?thesis using new ok(1) by (auto simp: frag_single grows_refl)
  next
    case brace
    then show ?thesis using r rep by (auto simp: parse_item_def Let_def is_word_char_def is_digit_char_def)
  next
    case rpt
    then show ?thesis using r rep by (auto simp: parse_item_def Let_def is_word_char_def is_digit_char_def)
  qed
qed

definition seq_keeps :: "seq_parser \<Rightarrow> bool" where
  "seq_keeps seq \<longleftrightarrow> (\<forall>pos rule st pos' rule' st'. parser_ok st \<longrightarrow> frag rule \<longrightarrow> refs rule \<subseteq> ids st
     \<longrightarrow> seq pos rule st = Inr (pos', rule', st') \<longrightarrow> grows st st' \<and> frag rule' \<and> refs rule' \<subseteq> ids st')"

lemma seq_keepsD:
  assumes "seq_keeps seq" "parser_ok st" "frag rule" "refs rule \<subseteq> ids st" "seq pos rule st = Inr (pos', rule', st')"
  shows "grows st st'" "frag rule'" "refs rule' \<subseteq> ids st'" "parser_ok st'"
  using assms unfolding seq_keeps_def grows_def by blast+

lemma alternates_loop_ok:
  assumes "seq_keeps seq"
  shows "parser_ok st \<Longrightarrow> frag rule \<Longrightarrow> refs rule \<subseteq> ids st
    \<Longrightarrow> alternates_loop n seq i pos rule st = Inr (pos', st') \<Longrightarrow> grows st st'"
proof (induction n arbitrary: pos rule st)
  case (Suc n)
  show ?case
  proof (cases "peek pos = 0x7c")
    case True
    with Suc.prems(4) obtain p r s where
      s: "seq (parse_space (tl pos) True) (rule @ [GE GRE_ALT 0]) st = Inr (p, r, s)"
      and l: "alternates_loop n seq i p r s = Inr (pos', st')" by auto
    have "frag (rule @ [GE GRE_ALT 0])" "refs (rule @ [GE GRE_ALT 0]) \<subseteq> ids st"
      using Suc.prems by (auto intro: frag_append simp: frag_single)
    note k = seq_keepsD[OF assms Suc.prems(1) this s]
    show ?thesis by (rule grows_trans[OF k(1) Suc.IH[OF k(4,2,3) l]])
  next
    case False
    with Suc.prems show ?thesis by (auto intro!: add_rule_ok rule_good_end)
  qed
qed simp

lemma alternates_with_ok:
  assumes "seq_keeps seq" "parser_ok st" "alternates_with seq i src st = Inr (pos', st')"
  shows "grows st st'"
proof -
  from assms(3) obtain p r s where s: "seq src [] st = Inr (p, r, s)"
    and l: "alternates_loop (length src + 1) seq i p r s = Inr (pos', st')"
    unfolding alternates_with_def bind_res_eq_Inr by auto
  note k = seq_keepsD[OF assms(1,2) _ _ s]
  show ?thesis using grows_trans[OF k(1) alternates_loop_ok[OF assms(1) k(4,2,3) l]] by simp
qed

lemma sequence_loop_group:
  assumes "sequence_loop (Suc fuel) name nested pos rule k st = Inr r" "peek pos = 0x28"
  obtains i st1 p1 st2 where "generate_symbol_id name st = (i, st1)"
    and "alternates_with (\<lambda>p r s. sequence_loop fuel name True p r (length r) s) i (parse_space (tl pos) True) st1
        = Inr (p1, st2)"
    and "sequence_loop fuel name nested (parse_space (tl p1) nested) (rule @ [GE GRE_RULE_REF i]) (length rule) st2 = Inr r"
proof -
  obtain i st1 where g: "generate_symbol_id name st = (i, st1)" by fastforce
  let ?next = "\<lambda>(pos1, st2). if peek pos1 \<noteq> 0x29 then Inl (Throw ''expecting closing parenthesis'')
             else sequence_loop fuel name nested (parse_space (tl pos1) nested)
                    (rule @ [GE GRE_RULE_REF i]) (length rule) st2"
  have "sequence_loop (Suc fuel) name nested pos rule k st
     = bind_res (alternates_with (\<lambda>p r s. sequence_loop fuel name True p r (length r) s) i (parse_space (tl pos) True) st1) ?next"
    by (simp add: assms(2) g)
  then have "bind_res (alternates_with (\<lambda>p r s. sequence_loop fuel name True p r (length r) s) i (parse_space (tl pos) True) st1) ?next
      = Inr r" by (simp only: assms(1))
  then obtain x where
    x: "alternates_with (\<lambda>p r s. sequence_loop fuel name True p r (length r) s) i (parse_space (tl pos) True) st1 = Inr x"
    and n: "?next x = Inr r"
    by (simp only: bind_res_eq_Inr) (elim exE conjE, assumption)
  obtain p1 st2 where [simp]: "x = (p1, st2)" by fastforce
  have "peek p1 = 0x29" using n by (simp split: if_splits)
  then show ?thesis using n x by (intro that[OF g]) simp_all
qed

lemma sequence_loop_item:
  assumes "sequence_loop (Suc fuel) name nested pos rule k st = Inr r" "peek pos \<noteq> 0" "peek pos \<noteq> 0x28"
  obtains "parse_item name nested pos rule k st = Inr None" "r = (pos, rule, st)"
  | p r' k' s where "parse_item name nested pos rule k st = Inr (Some (p, r', k', s))"
      "sequence_loop fuel name nested p r' k' s = Inr r"
proof -
  from assms obtain x where x: "parse_item name nested pos rule k st = Inr x"
    and l: "(case x of None \<Rightarrow> Inr (pos, rule, st) | Some (pos', rule', last_sym', st') \<Rightarrow>
              sequence_loop fuel name nested pos' rule' last_sym' st') = Inr r"
    by (auto simp only: sequence_loop.simps bind_res_eq_Inr if_False)
  show ?thesis
  proof (cases x)
    case None
    then show ?thesis using that(1) x l by simp
  next
    case (Some y)
    then show ?thesis using that(2) x l by (cases y) simp
  qed
qed

declare sequence_loop.simps [simp del] alternates_loop.simps [simp del]

lemma sequence_loop_ok:
  "plain_name name \<Longrightarrow> parser_ok st \<Longrightarrow> partial_rule st k rule
   \<Longrightarrow> sequence_loop fuel name nested pos rule k st = Inr (pos', rule', st')
   \<Longrightarrow> grows st st' \<and> frag rule' \<and> refs rule' \<subseteq> ids st'"
proof (induction fuel arbitrary: nested pos rule k st pos' rule' st')
  case (Suc fuel)
  have IH: "grows st st' \<and> frag rule' \<and> refs rule' \<subseteq> ids st'"
    if "grows st s" "partial_rule s k r" "sequence_loop fuel name nested p r k s = Inr (pos', rule', st')" for s k r p
  proof -
    have "parser_ok s" using that(1) by (simp add: grows_def)
    note r = Suc.IH[OF Suc.prems(1) this that(2,3)]
    show ?thesis by (rule conjI[OF grows_trans[OF that(1) conjunct1[OF r]] conjunct2[OF r]])
  qed
  have keeps: "seq_keeps (\<lambda>p r s. sequence_loop fuel name True p r (length r) s)"
    unfolding seq_keeps_def
  proof (intro allI impI)
    fix p r s p' r' s'
    assume "parser_ok s" "frag r" "refs r \<subseteq> ids s" "sequence_loop fuel name True p r (length r) s = Inr (p', r', s')"
    then show "grows s s' \<and> frag r' \<and> refs r' \<subseteq> ids s'"
      using Suc.IH[OF Suc.prems(1), of s "length r" r] by (simp add: partial_rule_def)
  qed
  have fr: "frag rule" "refs rule \<subseteq> ids st"
    using Suc.prems(3) by (rule partial_rule_frag) (use Suc.prems(3) in \<open>simp add: partial_rule_def\<close>)
  consider "peek pos = 0" | "peek pos = 0x28" | "peek pos \<noteq> 0" "peek pos \<noteq> 0x28" by blast
  then show ?case
  proof cases
    case 1
    with Suc.prems fr show ?thesis by (simp add: grows_refl sequence_loop.simps)
  next
    case 2
    from Suc.prems(4) 2 obtain i st1 p1 st2 where g: "generate_symbol_id name st = (i, st1)"
      and a: "alternates_with (\<lambda>p r s. sequence_loop fuel name True p r (length r) s) i (parse_space (tl pos) True) st1
        = Inr (p1, st2)"
      and l: "sequence_loop fuel name nested (parse_space (tl p1) nested) (rule @ [GE GRE_RULE_REF i]) (length rule) st2
        = Inr (pos', rule', st')"
      by (rule sequence_loop_group)
    note gi = generate_symbol_id_ok[OF Suc.prems(2,1) g]
    have g12: "grows st1 st2" using alternates_with_ok[OF keeps _ a] gi(1) by (simp add: grows_def)
    have g02: "grows st st2" by (rule grows_trans[OF gi(1) g12])
    have "partial_rule st2 (length rule) (rule @ [GE GRE_RULE_REF i])"
      using fr gi(2) g12 g02 by (intro partial_rule_snoc) (auto simp: frag_single grows_def)
    from IH[OF g02 this l] show ?thesis .
  next
    case 3
    from Suc.prems(4) 3 show ?thesis
    proof (rule sequence_loop_item)
      assume "parse_item name nested pos rule k st = Inr None" "(pos', rule', st') = (pos, rule, st)"
      with fr Suc.prems(2) show ?thesis by (simp add: grows_refl)
    next
      fix p r k' s
      assume "parse_item name nested pos rule k st = Inr (Some (p, r, k', s))"
        "sequence_loop fuel name nested p r k' s = Inr (pos', rule', st')"
      note it = parse_item_ok[OF Suc.prems(2,1,3) this(1)]
      show ?thesis by (rule IH[OF conjunct1[OF it] conjunct2[OF it]]) fact
    qed
  qed
qed (simp add: sequence_loop.simps)

lemma parse_rule_ok:
  assumes "parser_ok st" "parse_rule src st = Inr (pos', st')"
  shows "grows st st'"
proof -
  obtain name e where n: "parse_name src = Inr (name, e)" using assms(2) by (auto simp: parse_rule_def)
  obtain i st1 where g: "get_symbol_id name st = (i, st1)" by fastforce
  from assms(2) n g obtain p1 where
    a: "parse_alternates name i False (parse_space (tl (tl (tl (parse_space e False)))) True) st1 = Inr (p1, st')"
    by (auto simp: parse_rule_def Let_def split: if_splits)
  note gi = get_symbol_id_ok[OF assms(1) parse_name_plain[OF n] g]
  have "seq_keeps (parse_sequence name False)"
    unfolding seq_keeps_def
  proof (intro allI impI)
    fix p r s p' r' s'
    assume "parser_ok s" "frag r" "refs r \<subseteq> ids s" "parse_sequence name False p r s = Inr (p', r', s')"
    then show "grows s s' \<and> frag r' \<and> refs r' \<subseteq> ids s'"
      using sequence_loop_ok[OF parse_name_plain[OF n], of s "length r" r] by (simp add: partial_rule_def parse_sequence_def)
  qed
  then have "grows st1 st'" using a gi(1) alternates_with_ok unfolding parse_alternates_def grows_def by blast
  then show ?thesis using gi(1) grows_trans by blast
qed

lemma parse_rules_ok: "parser_ok st \<Longrightarrow> parse_rules n pos st = Inr st' \<Longrightarrow> parser_ok st'"
proof (induction n arbitrary: pos st)
  case (Suc n)
  then show ?case using parse_rule_ok by (fastforce simp: grows_def split: if_splits)
qed simp

lemma validated_rules_ok:
  assumes "parser_ok st" "validate_rules st = Inr ()"
  shows "rules_ok (p_rules st)"
  unfolding rules_ok_def
proof
  fix r assume r: "r \<in> set (p_rules st)"
  then have ne: "r \<noteq> []" "\<forall>e \<in> set r. \<not> missing_ref st e"
    using assms(2) by (auto simp: validate_rules_def split: if_splits)
  then obtain f where f: "r = f @ [GE GRE_END 0]" "frag f" "refs f \<subseteq> ids st"
    using assms(1) r by (auto simp: parser_ok_def rule_good_def)
  have "\<forall>v \<in> refs f. unat v < length (p_rules st)"
    using f(1,3) ne(2) by (force simp: refs_def missing_ref_def ids_def)
  then show "elems_ok (length (p_rules st)) 0 r" using f by (simp add: elems_ok_run frag_def)
qed

lemma parser_parse_ok:
  assumes "parser_parse src = Inr (Some st)"
  shows "parser_ok st" "validate_rules st = Inr ()"
proof -
  have "parser_ok parser_init" by (simp add: parser_ok_def parser_init_def)
  moreover have p: "parse_rules (length src + 1) (parse_space src True) parser_init = Inr st" "validate_rules st = Inr ()"
    using assms by (auto simp: parser_parse_def simp del: parse_rules.simps split: sum.splits failure.splits)
  ultimately show "parser_ok st" using parse_rules_ok by blast
  show "validate_rules st = Inr ()" by (rule p)
qed

text \<open>C31: The rules of every grammar text the parser accepts are well formed: each ends in its only
  \<open>END\<close>, has range ends and further class items only inside a character class, and refers to rules that exist.\<close>

theorem gbnf_rules_well_formed:
  assumes "parser_parse src = Inr (Some st)"
  shows "rules_ok (p_rules st)"
  using validated_rules_ok[OF parser_parse_ok[OF assms]] .

text \<open>The text \<^verbatim>\<open>root ::= [0-9]+\<close> and what the parser makes of it.\<close>

definition ex_text :: "u8 list" where
  "ex_text = map of_char ''root ::= [0-9]+''"

definition ex_parser :: llama_grammar_parser where
  "ex_parser = \<lparr>symbol_ids = [(str_root, 0), (map of_char ''root_1'', 1)],
     p_rules = [[GE GRE_CHAR 48, GE GRE_CHAR_RNG_UPPER 57, GE GRE_RULE_REF 1, GE GRE_END 0],
                [GE GRE_CHAR 48, GE GRE_CHAR_RNG_UPPER 57, GE GRE_RULE_REF 1, GE GRE_ALT 0, GE GRE_END 0]]\<rparr>"

lemma ex_text_parsed: "parser_parse ex_text = Inr (Some ex_parser)"
  by code_simp

theorem gbnf_rules_well_formed_witness: "parser_parse ex_text = Inr (Some ex_parser) \<and> rules_ok (p_rules ex_parser)"
  using gbnf_rules_well_formed[OF ex_text_parsed] ex_text_parsed by simp

section \<open>From text to a running grammar\<close>

lemma copy_rule_good: "rule_good I r \<Longrightarrow> r \<noteq> [] \<Longrightarrow> copy_rule r = Inr r"
proof -
  assume "rule_good I r" "r \<noteq> []"
  then obtain f where f: "r = f @ [GE GRE_END 0]" "frag f" by (auto simp: rule_good_def)
  have "elem_run s f \<noteq> None \<Longrightarrow> \<forall>e \<in> set f. ge_type e \<noteq> GRE_END" for s
    by (induction f arbitrary: s) (auto simp: elem_step_def split: llama_gretype.splits if_splits)
  then have "\<forall>e \<in> set f. ge_type e \<noteq> GRE_END" using f(2) by (simp add: frag_def)
  then show ?thesis using f(1) by (simp add: copy_rule_def takeWhile_append2)
qed

lemma map_res_id: "(\<And>x. x \<in> set xs \<Longrightarrow> f x = Inr x) \<Longrightarrow> map_res f xs = Inr xs"
  by (induction xs) auto

lemma init_rules_parsed:
  assumes "parser_parse src = Inr (Some st)"
  shows "map_res copy_rule (p_rules st) = Inr (p_rules st)"
proof (rule map_res_id, rule copy_rule_good)
  fix r assume "r \<in> set (p_rules st)"
  then show "rule_good (ids st) r" "r \<noteq> []"
    using parser_parse_ok[OF assms] by (auto simp: parser_ok_def validate_rules_def split: if_splits)
qed

lemma init_stacks_nonempty:
  assumes "init_stacks fuel rules root = Inr stacks"
  shows "stacks \<noteq> []"
proof -
  obtain js where "alt_starts (rules ! root) = 0 # js" by (simp add: alt_starts_def)
  with assms obtain s1 where s: "llama_grammar_advance_stack fuel rules (push_unless_end rules (root, 0) []) [] = Inr s1"
    "fold_res (\<lambda>pos. llama_grammar_advance_stack fuel rules (push_unless_end rules (root, pos) [])) js s1 = Inr stacks"
    by (auto simp: init_stacks_def)
  have "set s1 \<subseteq> set stacks" using s(2)
  proof (induction js arbitrary: s1)
    case (Cons i js)
    then show ?case using advance_keeps by fastforce
  qed simp
  then show ?thesis using advance_nonempty[OF s(1)] by auto
qed

text \<open>C13: From grammar text to constrained decoding. When the text parses, its start symbol has a rule,
  and the rules pass the left-recursion check with only literally empty rules nullable, the
  constructor returns a grammar whose rules are the parsed ones; a grammar that is not lazy is ready for
  masking, and running its stacks over any string decides whether the start rule derives it.\<close>

theorem gbnf_text_decides:
  assumes "parser_parse src = Inr (Some st)" "map_of (symbol_ids st) str_root \<noteq> None"
    and "map_of (symbol_ids st) start = Some i" "unat i < length (p_rules st)"
    and "lr_check (p_rules st) = Inr False" "nullable_literal (p_rules st)"
  shows "\<exists>F. \<forall>fuel \<ge> F. \<exists>g stacks. llama_grammar_init_impl fuel src start lz words toks = Inr (Some g)
    \<and> g_rules g = p_rules st \<and> (\<not> lz \<longrightarrow> grammar_ready g)
    \<and> fold_res (\<lambda>c q. llama_grammar_accept fuel (g_rules g) q c) w (g_stacks g) = Inr stacks
    \<and> ([] \<in> set stacks \<longleftrightarrow> derives (p_rules st) [NT (unat i)] w)"
proof -
  let ?R = "p_rules st"
  have ok: "rules_ok ?R" using validated_rules_ok[OF parser_parse_ok[OF assms(1)]] .
  obtain F s0 where F: "\<forall>fuel \<ge> F. init_stacks fuel ?R (unat i) = Inr s0"
    using init_halts[OF ok assms(6,5,4)] by blast
  have s0: "all_settled ?R s0" "s0 \<noteq> []"
    using init_stacks_lang(1)[OF ok assms(4)] init_stacks_nonempty F by blast+
  obtain G stacks where G: "\<forall>fuel \<ge> G. fold_res (\<lambda>c q. llama_grammar_accept fuel ?R q c) w s0 = Inr stacks"
    using run_halts[OF ok assms(6,5) s0(1)] by blast
  have "\<exists>g stacks. llama_grammar_init_impl fuel src start lz words toks = Inr (Some g)
    \<and> g_rules g = ?R \<and> (\<not> lz \<longrightarrow> grammar_ready g)
    \<and> fold_res (\<lambda>c q. llama_grammar_accept fuel (g_rules g) q c) w (g_stacks g) = Inr stacks
    \<and> ([] \<in> set stacks \<longleftrightarrow> derives ?R [NT (unat i)] w)" if f: "fuel \<ge> max F G" for fuel
  proof -
    let ?g = "\<lparr>g_rules = ?R, g_stacks = s0, g_partial_utf8 = \<lparr>pu_value = 0, pu_n_remain = 0\<rparr>,
                    g_lazy = lz, g_awaiting_trigger = lz, g_trigger_buffer = [],
                    g_trigger_tokens = toks, g_trigger_words = words\<rparr>"
    have ne: "?R \<noteq> []" using assms(4) by auto
    have "llama_grammar_init_impl fuel src start lz words toks = Inr (Some ?g)"
      using assms init_rules_parsed[OF assms(1)] F f ne
      by (auto simp: llama_grammar_init_impl_def llama_grammar_init_rules_def)
    moreover have "\<not> lz \<longrightarrow> grammar_ready ?g" using ok assms(5,6) s0 by (simp add: grammar_ready_def)
    moreover have "engine_run fuel ?R (unat i) w = Inr stacks" using F G f by (simp add: engine_run_def)
    then have "[] \<in> set stacks \<longleftrightarrow> derives ?R [NT (unat i)] w" using engine_run_lang[OF ok assms(4)] by blast
    ultimately show ?thesis using G f by (intro exI[of _ ?g] exI[of _ stacks]) simp
  qed
  then show ?thesis by blast
qed

lemma ex_parser_alternatives:
  "alternatives (p_rules ex_parser) 0 = [[T True [(48, 57)], NT 1]]"
  "alternatives (p_rules ex_parser) (Suc 0) = [[T True [(48, 57)], NT 1], []]"
  by (simp_all add: alternatives_def ex_parser_def class_items.simps class_item_def next_is_def is_end_type_def
      is_positive_char_def)

lemma ex_parser_ok: "lr_check (p_rules ex_parser) = Inr False" "nullable_literal (p_rules ex_parser)"
  "map_of (symbol_ids ex_parser) str_root = Some 0" "length (p_rules ex_parser) = 2"
proof -
  show "lr_check (p_rules ex_parser) = Inr False" "map_of (symbol_ids ex_parser) str_root = Some 0"
    "length (p_rules ex_parser) = 2" by code_simp+
  have "lit_empty (p_rules ex_parser) 1" by code_simp
  then show "nullable_literal (p_rules ex_parser)"
    by (auto simp: nullable_literal_def derives_NT_iff derives_T_iff ex_parser_alternatives
        \<open>length (p_rules ex_parser) = 2\<close> less_2_cases_iff)
qed

theorem gbnf_text_decides_witness:
  "(parser_parse ex_text = Inr (Some ex_parser) \<and> map_of (symbol_ids ex_parser) str_root \<noteq> None
     \<and> map_of (symbol_ids ex_parser) str_root = Some 0 \<and> unat (0 :: u32) < length (p_rules ex_parser)
     \<and> lr_check (p_rules ex_parser) = Inr False \<and> nullable_literal (p_rules ex_parser))
   \<and> (\<exists>F. \<forall>fuel \<ge> F. \<exists>g stacks. llama_grammar_init_impl fuel ex_text str_root False [] [] = Inr (Some g)
    \<and> g_rules g = p_rules ex_parser \<and> (\<not> False \<longrightarrow> grammar_ready g)
    \<and> fold_res (\<lambda>c q. llama_grammar_accept fuel (g_rules g) q c) [52, 50] (g_stacks g) = Inr stacks
    \<and> ([] \<in> set stacks \<longleftrightarrow> derives (p_rules ex_parser) [NT (unat (0 :: u32))] [52, 50]))"
  using gbnf_text_decides[of ex_text ex_parser str_root 0 False "[]" "[]" "[52, 50]"] ex_text_parsed ex_parser_ok
  by simp

text \<open>A symbol can have an id and no rule: \<^verbatim>\<open>root{0}\<close> drops its reference, so the validation sees nothing
  missing. Building a grammar from the text \<^verbatim>\<open>x ::= root{0}\<close> parses, finds the symbol \<open>root\<close>, and then reads
  the rules out of bounds.\<close>

theorem undefined_root_out_of_bounds:
  "llama_grammar_init_impl fuel (map of_char ''x ::= root{0}'') str_root lz words toks = Inl Undef"
proof -
  let ?st = "\<lparr>symbol_ids = [(map of_char ''x'', 0), (str_root, 1)], p_rules = [[GE GRE_END 0]]\<rparr>"
  have "parser_parse (map of_char ''x ::= root{0}'') = Inr (Some ?st)" by code_simp
  moreover have "map_of (symbol_ids ?st) str_root = Some 1" by code_simp
  moreover have "map_res copy_rule [[GE GRE_END 0]] = Inr [[GE GRE_END 0]]" "lr_check [[GE GRE_END 0]] = Inr False"
    by code_simp+
  ultimately show ?thesis by (simp add: llama_grammar_init_impl_def llama_grammar_init_rules_def)
qed

end
