(* ===== verification/Grammar_Repeat.thy ===== *)
theory Grammar_Repeat
  imports Grammar_Text
begin

text \<open>
  What the repetition operators of GBNF mean. \<open>handle_repetitions\<close> rewrites the last symbol \<open>S\<close> of a
  sequence into copies of it and a chain of synthesised rules; the rewriting denotes from \<open>m\<close> to \<open>n\<close>
  repetitions of \<open>S\<close>.
\<close>

section \<open>Symbols of concatenated fragments\<close>

definition starts_fresh :: "llama_grammar_element list \<Rightarrow> bool" where
  "starts_fresh ys \<longleftrightarrow> \<not> next_is GRE_CHAR_ALT ys \<and> \<not> next_is GRE_CHAR_RNG_UPPER ys"

lemma frag_starts_fresh: "frag ys \<Longrightarrow> starts_fresh ys"
  by (cases ys) (auto simp: frag_def starts_fresh_def next_is_def elem_step_def)

lemma class_item_append:
  assumes "starts_fresh ys" "xs \<noteq> []"
  shows "class_item (xs @ ys) = (fst (class_item xs), snd (class_item xs) @ ys)"
  using assms by (cases xs; cases "tl xs"; cases ys) (auto simp: class_item_def next_is_def starts_fresh_def)

lemma class_items_append:
  "starts_fresh ys \<Longrightarrow> xs \<noteq> [] \<Longrightarrow> class_items (xs @ ys) = (fst (class_items xs), snd (class_items xs) @ ys)"
proof (induction xs rule: class_items.induct)
  case (1 xs)
  obtain r rest where i: "class_item xs = (r, rest)" by fastforce
  have i2: "class_item (xs @ ys) = (r, rest @ ys)" using class_item_append[OF 1(2,3)] i by simp
  show ?case
  proof (cases "next_is GRE_CHAR_ALT rest")
    case True
    then have ne: "rest \<noteq> []" by (auto simp: next_is_def)
    then have "next_is GRE_CHAR_ALT (rest @ ys)" using True by (cases rest) (auto simp: next_is_def)
    then show ?thesis
      using class_items_alt[OF 1(3) i True] class_items_alt[OF _ i2] 1(1)[OF 1(3) i[symmetric] refl True 1(2) ne] 1(3) by simp
  next
    case False
    then have "\<not> next_is GRE_CHAR_ALT (rest @ ys)" using 1(2) by (cases rest) (auto simp: next_is_def starts_fresh_def)
    then show ?thesis using class_items_last[OF 1(3) i False] class_items_last[OF _ i2] 1(3) by simp
  qed
qed

definition no_ends :: "llama_grammar_element list \<Rightarrow> bool" where
  "no_ends es \<longleftrightarrow> (\<forall>e \<in> set es. \<not> is_end_type (ge_type e))"

lemma no_ends_simps [simp]:
  "no_ends []" "no_ends (e # es) \<longleftrightarrow> \<not> is_end_type (ge_type e) \<and> no_ends es"
  "no_ends (xs @ ys) \<longleftrightarrow> no_ends xs \<and> no_ends ys"
  by (auto simp: no_ends_def)

lemma class_items_rest: "\<exists>zs. xs = zs @ snd (class_items xs)"
  using gr_scan_items[of xs 0 False] by (metis append_take_drop_id)

lemma sym_seq_append:
  "starts_fresh ys \<Longrightarrow> no_ends xs \<Longrightarrow> sym_seq (xs @ ys) = sym_seq xs @ sym_seq ys"
proof (induction xs rule: sym_seq.induct)
  case (2 e es)
  show ?case
  proof (cases "ge_type e = GRE_RULE_REF")
    case True
    then show ?thesis using 2 by simp
  next
    case False
    obtain rs rest where c: "class_items (e # es) = (rs, rest)" by fastforce
    have "no_ends rest" using class_items_rest[of "e # es"] c 2(4) by (metis no_ends_simps(3) snd_conv)
    then have "sym_seq (rest @ ys) = sym_seq rest @ sym_seq ys" using 2(2)[OF _ False c[symmetric]] 2(3,4) by simp
    moreover have "class_items (e # es @ ys) = (rs, rest @ ys)" using class_items_append[OF 2(3), of "e # es"] c by simp
    ultimately show ?thesis using 2(4) False c by simp
  qed
qed simp

lemma sym_seq_concat:
  "frag p \<Longrightarrow> no_ends p \<Longrightarrow> sym_seq (concat (replicate j p)) = concat (replicate j (sym_seq p))
     \<and> frag (concat (replicate j p)) \<and> no_ends (concat (replicate j p))"
  by (induction j) (auto simp: sym_seq_append frag_starts_fresh intro: frag_append)

lemma split_alts_no_ends: "no_ends es \<Longrightarrow> split_alts (es @ [GE GRE_ALT 0, GE GRE_END 0]) = [es, []]"
  by (induction es) (auto simp: is_end_type_def)

section \<open>The synthesised rules\<close>

text \<open>\<open>S' ::= S S' |\<close> derives every number of copies of \<open>S\<close>.\<close>

lemma star_sound:
  "derives rules xs w \<Longrightarrow> alternatives rules r = [S @ [NT r], []] \<Longrightarrow> xs = ss @ [NT r]
   \<Longrightarrow> \<exists>j. derives rules (ss @ concat (replicate j S)) w"
proof (induction arbitrary: ss rule: derives.induct)
  case (derives_T pc rs c ss' w)
  then obtain ss1 where "ss = T pc rs # ss1" "ss' = ss1 @ [NT r]" by (cases ss) auto
  with derives_T show ?case by (metis append_Cons derives.derives_T)
next
  case (derives_NT q a ss' w)
  show ?case
  proof (cases ss)
    case Nil
    with derives_NT have q: "q = r" "ss' = []" by auto
    then consider "a = S @ [NT r]" | "a = []" using derives_NT by auto
    then show ?thesis
    proof cases
      case 1
      with derives_NT.IH[OF derives_NT.prems(1), of S] q obtain j where "derives rules (S @ concat (replicate j S)) w" by auto
      then show ?thesis using Nil by (intro exI[of _ "Suc j"]) simp
    next
      case 2
      then show ?thesis using derives_NT q Nil by (intro exI[of _ 0]) simp
    qed
  next
    case (Cons s ss1)
    with derives_NT have "s = NT q" "a @ ss' = (a @ ss1) @ [NT r]" by auto
    with derives_NT.IH[OF derives_NT.prems(1)] obtain j where "derives rules ((a @ ss1) @ concat (replicate j S)) w" by blast
    then show ?thesis using Cons derives_NT \<open>s = NT q\<close> by (intro exI[of _ j]) (auto intro: derives.derives_NT)
  qed
qed simp

lemma star_complete:
  assumes "alternatives rules r = [S @ [NT r], []]" "r < length rules"
  shows "derives rules (concat (replicate j S)) w \<Longrightarrow> derives rules [NT r] w"
proof (induction j arbitrary: w)
  case 0
  then show ?case using derives_NT[OF assms(2), of "[]" "[]" "[]"] assms(1) by (simp add: derives_Nil)
next
  case (Suc j)
  then obtain u v where uv: "w = u @ v" "derives rules S u" "derives rules (concat (replicate j S)) v"
    using derives_split[of rules "S @ concat (replicate j S)" w S "concat (replicate j S)"] by auto
  then have "derives rules (S @ [NT r]) w" using Suc.IH derives_append by metis
  then show ?case using derives_NT[OF assms(2), of "S @ [NT r]" "[]"] assms(1) by simp
qed

lemma star_rule:
  assumes "alternatives rules r = [S @ [NT r], []]" "r < length rules"
  shows "derives rules [NT r] w \<longleftrightarrow> (\<exists>j. derives rules (concat (replicate j S)) w)"
  using star_sound[of rules "[NT r]" w r S "[]"] star_complete[OF assms] assms(1) by auto

text \<open>The chain \<open>S'(1) ::= S |\<close>, \<open>S'(x) ::= S S'(x-1) |\<close> derives up to \<open>x\<close> copies.\<close>

lemma chain_rule:
  assumes "\<And>i. i < n \<Longrightarrow> b + i < length rules"
    and "\<And>i. i < n \<Longrightarrow> alternatives rules (b + i) = [S @ (if i > 0 then [NT (b + i - 1)] else []), []]"
  shows "i < n \<Longrightarrow> derives rules [NT (b + i)] w \<longleftrightarrow> (\<exists>j \<le> Suc i. derives rules (concat (replicate j S)) w)"
proof (induction i arbitrary: w)
  case 0
  then have "derives rules [NT b] w \<longleftrightarrow> derives rules S w \<or> w = []"
    using assms(1,2)[of 0] by (auto simp: derives_NT_iff)
  also have "\<dots> \<longleftrightarrow> (\<exists>j \<le> Suc 0. derives rules (concat (replicate j S)) w)"
    by (auto simp: le_Suc_eq)
  finally show ?case by simp
next
  case (Suc i)
  then have "derives rules [NT (b + Suc i)] w \<longleftrightarrow> derives rules (S @ [NT (b + i)]) w \<or> w = []"
    using assms(1,2)[of "Suc i"] by (auto simp: derives_NT_iff)
  also have "\<dots> \<longleftrightarrow> (\<exists>u v. w = u @ v \<and> derives rules S u \<and> derives rules [NT (b + i)] v) \<or> w = []"
    using derives_split derives_append by metis
  also have "\<dots> \<longleftrightarrow> (\<exists>j \<le> Suc i. \<exists>u v. w = u @ v \<and> derives rules S u \<and> derives rules (concat (replicate j S)) v) \<or> w = []"
    using Suc by auto
  also have "\<dots> \<longleftrightarrow> (\<exists>j \<le> Suc i. derives rules (S @ concat (replicate j S)) w) \<or> w = []"
    using derives_split derives_append by metis
  also have "\<dots> \<longleftrightarrow> (\<exists>j \<le> Suc (Suc i). derives rules (concat (replicate j S)) w)"
  proof
    assume "(\<exists>j \<le> Suc i. derives rules (S @ concat (replicate j S)) w) \<or> w = []"
    then show "\<exists>j \<le> Suc (Suc i). derives rules (concat (replicate j S)) w"
      by (metis Suc_le_mono concat.simps(1,2) derives_Nil replicate.simps zero_le)
  next
    assume "\<exists>j \<le> Suc (Suc i). derives rules (concat (replicate j S)) w"
    then obtain j where "j \<le> Suc (Suc i)" "derives rules (concat (replicate j S)) w" by blast
    then show "(\<exists>j \<le> Suc i. derives rules (S @ concat (replicate j S)) w) \<or> w = []" by (cases j) auto
  qed
  finally show ?case .
qed

text \<open>The ids of the symbols are below their number, so that a generated name is new.\<close>

definition numbered :: "llama_grammar_parser \<Rightarrow> bool" where
  "numbered st \<longleftrightarrow> (\<forall>kv \<in> set (symbol_ids st). symbol_ok kv \<and> unat (snd kv) < length (symbol_ids st))"

lemma unat_u32: "n < 2 ^ 32 \<Longrightarrow> unat (of_nat n :: u32) = n"
  by (simp only: unat_of_nat) simp

lemma generate_fresh:
  assumes "numbered st" "plain_name b" "length (symbol_ids st) < 2 ^ 32"
  shows "generate_symbol_id b st = (of_nat (length (symbol_ids st)),
     st\<lparr>symbol_ids := symbol_ids st @ [(b @ 0x5f # dec_digits (length (symbol_ids st)), of_nat (length (symbol_ids st)))]\<rparr>)"
proof -
  let ?l = "length (symbol_ids st)"
  note u = unat_u32[OF assms(3)]
  have "map_of (symbol_ids st) (b @ 0x5f # dec_digits ?l) = None"
  proof (rule ccontr)
    assume "\<not> ?thesis"
    then obtain v where v: "(b @ 0x5f # dec_digits ?l, v) \<in> set (symbol_ids st)" by (auto dest: map_of_SomeD)
    then have "symbol_ok (b @ 0x5f # dec_digits ?l, v)" "unat v < ?l" using assms(1) by (auto simp: numbered_def)
    moreover have "\<not> plain_name (b @ 0x5f # dec_digits ?l)" by (simp add: plain_name_def)
    ultimately obtain b' where "plain_name b'" "b @ 0x5f # dec_digits ?l = b' @ 0x5f # dec_digits (unat v)"
      unfolding symbol_ok_def fst_conv snd_conv by blast
    from generated_name_inj[OF assms(2) this] \<open>unat v < ?l\<close> show False by simp
  qed
  then show ?thesis unfolding generate_symbol_id_def Let_def symbol_set_def u by simp
qed

lemma add_rule_nth:
  "unat i < length (p_rules (add_rule i r st))" "p_rules (add_rule i r st) ! unat i = r"
  "j \<noteq> unat i \<Longrightarrow> j < length (p_rules st) \<Longrightarrow> p_rules (add_rule i r st) ! j = p_rules st ! j"
  "length (p_rules st) \<le> length (p_rules (add_rule i r st))" "symbol_ids (add_rule i r st) = symbol_ids st"
  by (auto simp: add_rule_def Let_def nth_append)

definition rec_rule :: "nat \<Rightarrow> llama_grammar_rule \<Rightarrow> int \<Rightarrow> nat \<Rightarrow> llama_grammar_rule" where
  "rec_rule b prev mx i =
     (prev @ (if mx < 0 then [GE GRE_RULE_REF (of_nat (b + i))]
              else if i > 0 then [GE GRE_RULE_REF (of_nat (b + i - 1))] else [])) @ [GE GRE_ALT 0, GE GRE_END 0]"

lemma rec_fold_rules:
  assumes "numbered st" "plain_name name" "b = length (symbol_ids st)" "b + n \<le> 2 ^ 32"
  shows "\<exists>st'. fold (rec_step name prev mx) [0..<n] (st, 0) = (st', if n = 0 then 0 else of_nat (b + n - 1))
    \<and> numbered st' \<and> length (symbol_ids st') = b + n
    \<and> (\<forall>i < n. b + i < length (p_rules st') \<and> p_rules st' ! (b + i) = rec_rule b prev mx i)"
  using assms(4)
proof (induction n)
  case 0
  then show ?case using assms(1,3) by simp
next
  case (Suc n)
  then obtain st1 where st1: "fold (rec_step name prev mx) [0..<n] (st, 0) = (st1, if n = 0 then 0 else of_nat (b + n - 1))"
    "numbered st1" "length (symbol_ids st1) = b + n"
    "\<forall>i < n. b + i < length (p_rules st1) \<and> p_rules st1 ! (b + i) = rec_rule b prev mx i" by auto
  let ?st2 = "st1\<lparr>symbol_ids := symbol_ids st1 @ [(name @ 0x5f # dec_digits (b + n), of_nat (b + n))]\<rparr>"
  let ?st3 = "add_rule (of_nat (b + n)) (rec_rule b prev mx n) ?st2"
  have lt: "b + n < 2 ^ 32" using Suc.prems by linarith
  note u = unat_u32[OF lt]
  have g: "generate_symbol_id name st1 = (of_nat (b + n), ?st2)"
    using generate_fresh[OF st1(2) assms(2)] lt unfolding st1(3) by blast
  have "rec_step name prev mx n (st1, if n = 0 then 0 else of_nat (b + n - 1)) = (?st3, of_nat (b + n))"
  proof -
    have "rec_rule b prev mx n = prev
              @ (if n > 0 \<or> mx < 0
                 then [GE GRE_RULE_REF (if mx < 0 then of_nat (b + n) else if n = 0 then 0 else of_nat (b + n - 1))] else [])
              @ [GE GRE_ALT 0, GE GRE_END 0]"
      unfolding rec_rule_def by (simp only: append_assoc split: if_splits) auto
    then show ?thesis unfolding rec_step_def prod.case g by (simp only: prod.case)
  qed
  moreover have "numbered ?st3"
    unfolding numbered_def add_rule_nth(5)
  proof
    fix kv assume "kv \<in> set (symbol_ids ?st2)"
    then consider "kv \<in> set (symbol_ids st1)" | "kv = (name @ 0x5f # dec_digits (b + n), of_nat (b + n))"
      by auto
    then show "symbol_ok kv \<and> unat (snd kv) < length (symbol_ids ?st2)"
    proof cases
      case 1
      then show ?thesis using st1(2) by (auto simp: numbered_def)
    next
      case 2
      have "symbol_ok kv" unfolding symbol_ok_def 2 fst_conv snd_conv u using assms(2) by blast
      moreover have "unat (snd kv) = b + n" unfolding 2 snd_conv by (rule u)
      ultimately show ?thesis using st1(3) by simp
    qed
  qed
  moreover have "\<forall>i < Suc n. b + i < length (p_rules ?st3) \<and> p_rules ?st3 ! (b + i) = rec_rule b prev mx i"
  proof (intro allI impI)
    fix i assume that: "i < Suc n"
    show "b + i < length (p_rules ?st3) \<and> p_rules ?st3 ! (b + i) = rec_rule b prev mx i"
  proof (cases "i = n")
    case True
    then show ?thesis using add_rule_nth(1,2)[of "of_nat (b + n)"] u by metis
  next
    case False
    then have i: "b + i < length (p_rules ?st2)" "p_rules ?st2 ! (b + i) = rec_rule b prev mx i" "b + i \<noteq> unat (of_nat (b + n) :: u32)"
      using st1(4) that u by auto
    have "b + i < length (p_rules ?st3)" using i(1) add_rule_nth(4) by (rule order_less_le_trans)
    moreover have "p_rules ?st3 ! (b + i) = rec_rule b prev mx i" using add_rule_nth(3)[OF i(3,1)] i(2) by (simp only:)
    ultimately show ?thesis by (rule conjI)
  qed
  qed
  moreover have "length (symbol_ids ?st3) = b + Suc n" using st1(3) by (simp add: add_rule_nth)
  moreover have "fold (rec_step name prev mx) [0..<Suc n] (st, 0)
      = rec_step name prev mx n (st1, if n = 0 then 0 else of_nat (b + n - 1))"
    unfolding upt_Suc_append[OF le0] fold_append o_apply st1(1) by simp
  moreover have "(if Suc n = 0 then 0 else of_nat (b + Suc n - 1)) = (of_nat (b + n) :: u32)" by simp
  ultimately show ?case by (intro exI[of _ ?st3] conjI) (simp only:)
qed

lemma rec_rule_alternatives:
  assumes "frag prev" "no_ends prev" "b + i < 2 ^ 32" "rules ! (b + i) = rec_rule b prev mx i"
  shows "alternatives rules (b + i) = [sym_seq prev @ (if mx < 0 then [NT (b + i)]
              else if i > 0 then [NT (b + i - 1)] else []), []]"
proof -
  let ?t = "if mx < 0 then [GE GRE_RULE_REF (of_nat (b + i))]
              else if i > 0 then [GE GRE_RULE_REF (of_nat (b + i - 1))] else []"
  have u: "unat (of_nat j :: u32) = j" if "j \<le> b + i" for j using assms(3) that by (intro unat_u32) linarith
  have "starts_fresh [GE GRE_RULE_REF v]" for v by (simp add: starts_fresh_def next_is_def)
  then have fresh: "starts_fresh ?t" by (auto simp: starts_fresh_def next_is_def)
  have "sym_seq [GE GRE_RULE_REF v] = [NT (unat v)]" for v by (simp add: is_end_type_def)
  then have t: "sym_seq ?t = (if mx < 0 then [NT (b + i)] else if i > 0 then [NT (b + i - 1)] else [])"
    using u[of "b + i"] u[of "b + i - 1"] by (simp only: sym_seq.simps(1) if_distrib[of sym_seq])
  have "no_ends (prev @ ?t)" using assms(2) by (simp add: is_end_type_def)
  then have "split_alts (rules ! (b + i)) = [prev @ ?t, []]"
    unfolding assms(4) rec_rule_def by (rule split_alts_no_ends)
  then show ?thesis unfolding alternatives_def using sym_seq_append[OF fresh assms(2)] t by simp
qed

section \<open>Repetitions\<close>

text \<open>The rules the parser ends up with keep the synthesised rules of a repetition: they are the ones at
  the ids generated by it.\<close>

definition keeps_rules :: "llama_grammar_parser \<Rightarrow> llama_grammar_parser \<Rightarrow> llama_grammar_rules \<Rightarrow> bool" where
  "keeps_rules st st' rules \<longleftrightarrow> (\<forall>i. length (symbol_ids st) \<le> i \<and> i < length (symbol_ids st')
     \<longrightarrow> i < length rules \<and> rules ! i = p_rules st' ! i)"

definition times_ok :: "int \<Rightarrow> int \<Rightarrow> nat \<Rightarrow> bool" where
  "times_ok m n j \<longleftrightarrow> m \<le> int j \<and> (n < 0 \<or> int j \<le> n)"

lemma derives_prefix:
  "derives rules (xs @ ys) w \<longleftrightarrow> (\<exists>u v. w = u @ v \<and> derives rules xs u \<and> derives rules ys v)"
  using derives_split derives_append by metis

lemma handle_repetitions_result:
  assumes "handle_repetitions name m n k rule st = Inr (rule', st')" "0 \<le> m" "k \<le> length rule"
    and "fold (rec_step name (drop k rule) n) [0..<N] (st, 0) = (s, if N = 0 then 0 else v)"
    and "N = (if n < 0 then 1 else nat (n - m))"
  shows "st' = s"
    and "drop k rule' = concat (replicate (nat m) (drop k rule)) @ (if N = 0 then [] else [GE GRE_RULE_REF v])"
proof -
  have N: "nat (if n < 0 then 1 else n - m) = N" "(0 :: int) < (if n < 0 then 1 else n - m) \<longleftrightarrow> N \<noteq> 0"
    using assms(5) by auto
  have copies: "(if m = 0 then take k rule else rule @ concat (replicate (nat (m - 1)) (drop k rule)))
      = take k rule @ concat (replicate (nat m) (drop k rule))"
  proof (cases "m = 0")
    case False
    with assms(2) have "nat m = Suc (nat (m - 1))" by simp
    then show ?thesis using False by (simp only: replicate.simps concat.simps if_False append_assoc[symmetric] append_take_drop_id)
  qed simp
  have "rule' = (take k rule @ concat (replicate (nat m) (drop k rule))) @ (if N = 0 then [] else [GE GRE_RULE_REF v])
      \<and> st' = s"
    using assms(1) unfolding handle_repetitions_def Let_def copies N assms(4) prod.case
    by (auto split: if_splits)
  then show "st' = s" "drop k rule' = concat (replicate (nat m) (drop k rule)) @ (if N = 0 then [] else [GE GRE_RULE_REF v])"
    using assms(3) by simp_all
qed

lemma synthesised_language:
  assumes "\<forall>i < N. b + i < length rules \<and> rules ! (b + i) = rec_rule b prev n i"
    and "frag prev" "no_ends prev" "b + N \<le> 2 ^ 32" "0 < N" "n < 0 \<longrightarrow> N = 1"
  shows "derives rules [NT (b + N - 1)] w \<longleftrightarrow> (\<exists>j. (n < 0 \<or> j \<le> N) \<and> derives rules (concat (replicate j (sym_seq prev))) w)"
proof -
  have alt: "alternatives rules (b + i) = [sym_seq prev @ (if n < 0 then [NT (b + i)]
              else if i > 0 then [NT (b + i - 1)] else []), []]" if "i < N" for i
    using rec_rule_alternatives[OF assms(2,3), of b i] assms(1,4) that by simp
  show ?thesis
  proof (cases "n < 0")
    case True
    then show ?thesis using star_rule[of rules b "sym_seq prev" w] alt[of 0] assms(1,5,6) by simp
  next
    case False
    then show ?thesis using chain_rule[of N b rules "sym_seq prev" "N - 1" w] alt assms(1,5) by simp
  qed
qed

text \<open>C32: A repetition means what it says. When \<open>S{m,n}\<close> (or \<open>S*\<close>, \<open>S+\<close>, \<open>S?\<close>) is parsed with \<open>m \<le> n\<close>, the elements
  that replace the symbol derive exactly the strings that some number of copies of \<open>S\<close> between \<open>m\<close> and \<open>n\<close>
  derives, in every set of rules that keeps the synthesised ones.\<close>

theorem repetition_language:
  assumes "handle_repetitions name m n k rule st = Inr (rule', st')"
    and "numbered st" "plain_name name" "frag (drop k rule)" "no_ends (drop k rule)" "k \<le> length rule"
    and "0 \<le> m" "n < 0 \<or> m \<le> n" "length (symbol_ids st) + (if n < 0 then 1 else nat (n - m)) \<le> 2 ^ 32"
    and "keeps_rules st st' rules"
  shows "derives rules (sym_seq (drop k rule')) w
    \<longleftrightarrow> (\<exists>j. times_ok m n j \<and> derives rules (concat (replicate j (sym_seq (drop k rule)))) w)"
proof -
  let ?prev = "drop k rule" and ?b = "length (symbol_ids st)" and ?N = "if n < 0 then 1 else nat (n - m)"
  let ?S = "sym_seq ?prev" and ?id = "?b + ?N - 1"
  let ?pow = "\<lambda>j. concat (replicate j ?S)"
  obtain s where f: "fold (rec_step name ?prev n) [0..<?N] (st, 0) = (s, if ?N = 0 then 0 else of_nat ?id)"
    and s: "length (symbol_ids s) = ?b + ?N"
    and rl: "\<forall>i < ?N. ?b + i < length (p_rules s) \<and> p_rules s ! (?b + i) = rec_rule ?b ?prev n i"
    using rec_fold_rules[OF assms(2,3) refl assms(9)] by blast
  note res = handle_repetitions_result[OF assms(1,7,6) f refl]
  have rules: "\<forall>i < ?N. ?b + i < length rules \<and> rules ! (?b + i) = rec_rule ?b ?prev n i"
    using rl assms(10) s res(1) by (auto simp: keeps_rules_def)
  note copies = sym_seq_concat[OF assms(4,5), of "nat m"]
  have pow_add: "?pow i @ ?pow j = ?pow (i + j)" for i j by (simp add: replicate_add)
  show ?thesis
  proof (cases "?N = 0")
    case True
    then have "n = m" using assms(7,8) by (auto split: if_splits)
    then have "times_ok m n j \<longleftrightarrow> j = nat m" for j using assms(7) by (auto simp: times_ok_def)
    then show ?thesis using res(2) True copies by simp
  next
    case False
    have "?id < 2 ^ 32" using assms(9) False by linarith
    then have "sym_seq [GE GRE_RULE_REF (of_nat ?id)] = [NT ?id]"
      using unat_u32[of ?id] by (simp only: sym_seq.simps llama_grammar_element.sel is_end_type_def) simp
    moreover have "starts_fresh [GE GRE_RULE_REF v]" for v by (simp add: starts_fresh_def next_is_def)
    ultimately have "sym_seq (drop k rule') = ?pow (nat m) @ [NT ?id]"
      using res(2) False copies by (simp only: sym_seq_append if_False)
    then have "derives rules (sym_seq (drop k rule')) w
       \<longleftrightarrow> (\<exists>u v. w = u @ v \<and> derives rules (?pow (nat m)) u \<and> (\<exists>j. (n < 0 \<or> j \<le> ?N) \<and> derives rules (?pow j) v))"
      using synthesised_language[OF rules assms(4,5,9)] False by (simp only: derives_prefix) simp
    also have "\<dots> \<longleftrightarrow> (\<exists>j. (n < 0 \<or> j \<le> ?N) \<and> derives rules (?pow (nat m + j)) w)"
      unfolding pow_add[symmetric] derives_prefix by blast
    also have "\<dots> \<longleftrightarrow> (\<exists>j. times_ok m n j \<and> derives rules (?pow j) w)"
    proof -
      have "times_ok m n j \<longleftrightarrow> (\<exists>i. (n < 0 \<or> i \<le> ?N) \<and> j = nat m + i)" for j
        using assms(7,8) by (auto simp: times_ok_def intro!: exI[of _ "j - nat m"])
      then show ?thesis by metis
    qed
    finally show ?thesis .
  qed
qed

text \<open>The optional literal \<^verbatim>\<open>"a"?\<close> in a rule named \<open>r\<close>.\<close>

definition ex_before :: llama_grammar_parser where
  "ex_before = \<lparr>symbol_ids = [([0x72], 0)], p_rules = []\<rparr>"

definition ex_after :: llama_grammar_parser where
  "ex_after = \<lparr>symbol_ids = [([0x72], 0), ([0x72, 0x5f, 0x31], 1)],
     p_rules = [[], [GE GRE_CHAR 97, GE GRE_ALT 0, GE GRE_END 0]]\<rparr>"

lemma ex_repetition:
  "handle_repetitions [0x72] 0 1 0 [GE GRE_CHAR 97] ex_before = Inr ([GE GRE_RULE_REF 1], ex_after)"
  "numbered ex_before" "plain_name [0x72]" "frag (drop 0 [GE GRE_CHAR 97])" "no_ends (drop 0 [GE GRE_CHAR 97])"
  "length (symbol_ids ex_before) + (if (1 :: int) < 0 then 1 else nat (1 - 0)) \<le> 2 ^ 32"
  "keeps_rules ex_before ex_after (p_rules ex_after)"
proof -
  show "handle_repetitions [0x72] 0 1 0 [GE GRE_CHAR 97] ex_before = Inr ([GE GRE_RULE_REF 1], ex_after)" by code_simp
  show "plain_name [0x72]" "frag (drop 0 [GE GRE_CHAR 97])" "no_ends (drop 0 [GE GRE_CHAR 97])" by code_simp+
  show "numbered ex_before" by (simp add: numbered_def ex_before_def symbol_ok_def plain_name_def)
  show "length (symbol_ids ex_before) + (if (1 :: int) < 0 then 1 else nat (1 - 0)) \<le> 2 ^ 32" by (simp add: ex_before_def)
  show "keeps_rules ex_before ex_after (p_rules ex_after)" by (simp add: keeps_rules_def ex_before_def ex_after_def)
qed

theorem repetition_language_witness:
  "(handle_repetitions [0x72] 0 1 0 [GE GRE_CHAR 97] ex_before = Inr ([GE GRE_RULE_REF 1], ex_after)
    \<and> numbered ex_before \<and> plain_name [0x72] \<and> frag (drop 0 [GE GRE_CHAR 97]) \<and> no_ends (drop 0 [GE GRE_CHAR 97])
    \<and> 0 \<le> length [GE GRE_CHAR 97] \<and> (0 :: int) \<le> 0 \<and> ((1 :: int) < 0 \<or> (0 :: int) \<le> 1)
    \<and> length (symbol_ids ex_before) + (if (1 :: int) < 0 then 1 else nat (1 - 0)) \<le> 2 ^ 32
    \<and> keeps_rules ex_before ex_after (p_rules ex_after))
   \<and> (derives (p_rules ex_after) (sym_seq (drop 0 [GE GRE_RULE_REF 1])) [97]
      \<longleftrightarrow> (\<exists>j. times_ok 0 1 j \<and> derives (p_rules ex_after) (concat (replicate j (sym_seq (drop 0 [GE GRE_CHAR 97])))) [97]))"
  by (intro conjI ex_repetition repetition_language[OF ex_repetition(1-5) _ _ _ ex_repetition(6,7)]) simp_all

end
