(* ===== verification/Vocab.thy ===== *)
theory Vocab
  imports Utf8
begin

text \<open>
  The vocabulary of \<open>src/llama-vocab.h\<close> and \<open>.cpp\<close> as far as the tokenizers use it: the tokens with their
  texts, scores and attributes, the special tokens and flags, and the lookups between texts, bytes and ids.
  Scores are floats, of which the tokenizers use the order and the addition; their type is a parameter \<open>'f\<close>.
  Texts are lists of bytes; \<open>std::vector::at\<close> and \<open>std::unordered_map::at\<close> throw.
\<close>

section \<open>Tokens and their attributes\<close>

type_synonym bytes = "u8 list"
type_synonym llama_token = int

definition LLAMA_TOKEN_NULL :: llama_token where
  "LLAMA_TOKEN_NULL = -1"

datatype llama_vocab_type =
    LLAMA_VOCAB_TYPE_NONE | LLAMA_VOCAB_TYPE_SPM | LLAMA_VOCAB_TYPE_BPE
  | LLAMA_VOCAB_TYPE_WPM | LLAMA_VOCAB_TYPE_UGM | LLAMA_VOCAB_TYPE_RWKV

datatype llama_token_attr =
    ATTR_UNKNOWN | ATTR_UNUSED | ATTR_NORMAL | ATTR_CONTROL | ATTR_USER_DEFINED | ATTR_BYTE
  | ATTR_NORMALIZED | ATTR_LSTRIP | ATTR_RSTRIP | ATTR_SINGLE_WORD

fun attr_bit :: "llama_token_attr \<Rightarrow> u32" where
  "attr_bit ATTR_UNKNOWN = 1"
| "attr_bit ATTR_UNUSED = 2"
| "attr_bit ATTR_NORMAL = 4"
| "attr_bit ATTR_CONTROL = 8"
| "attr_bit ATTR_USER_DEFINED = 16"
| "attr_bit ATTR_BYTE = 32"
| "attr_bit ATTR_NORMALIZED = 64"
| "attr_bit ATTR_LSTRIP = 128"
| "attr_bit ATTR_RSTRIP = 256"
| "attr_bit ATTR_SINGLE_WORD = 512"

text \<open>\<open>attr & (a | b | ...)\<close> as a truth value.\<close>

definition has_attr :: "u32 \<Rightarrow> llama_token_attr list \<Rightarrow> bool" where
  "has_attr attr as \<longleftrightarrow> attr AND foldr (\<lambda>a m. attr_bit a OR m) as 0 \<noteq> 0"

record 'f token_data =
  td_text :: bytes
  td_score :: 'f
  td_attr :: u32

record 'f llama_vocab =
  v_type :: llama_vocab_type
  v_max_token_len :: int
  special_bos_id :: llama_token
  special_eos_id :: llama_token
  special_unk_id :: llama_token
  special_sep_id :: llama_token
  add_space_prefix :: bool
  add_bos :: bool
  add_eos :: bool
  ignore_merges :: bool
  clean_spaces :: bool
  remove_extra_whitespaces :: bool
  escape_whitespaces :: bool
  treat_whitespace_as_suffix :: bool
  token_to_id :: "bytes \<rightharpoonup> llama_token"
  id_to_token :: "'f token_data list"
  cache_special_tokens :: "llama_token list"
  cache_token_to_piece :: "bytes list"
  bpe_ranks :: "bytes \<times> bytes \<rightharpoonup> int"

section \<open>Lookups\<close>

definition out_of_range :: failure where
  "out_of_range = Throw ''out_of_range''"

text \<open>\<open>std::vector::at\<close> with an index that is converted from a signed id.\<close>

definition vec_at :: "'a list \<Rightarrow> int \<Rightarrow> 'a res" where
  "vec_at xs i = (if 0 \<le> i \<and> nat i < length xs then Inr (xs ! nat i) else Inl out_of_range)"

text \<open>\<open>xs[i]\<close>, where an index out of range is undefined behaviour.\<close>

definition vec_get :: "'a list \<Rightarrow> int \<Rightarrow> 'a res" where
  "vec_get xs i = (if 0 \<le> i \<and> nat i < length xs then Inr (xs ! nat i) else Inl Undef)"

definition map_at :: "('k \<rightharpoonup> 'v) \<Rightarrow> 'k \<Rightarrow> 'v res" where
  "map_at m k = (case m k of None \<Rightarrow> Inl out_of_range | Some x \<Rightarrow> Inr x)"

definition n_tokens :: "'f llama_vocab \<Rightarrow> nat" where
  "n_tokens v = length (id_to_token v)"

definition text_to_token :: "'f llama_vocab \<Rightarrow> bytes \<Rightarrow> llama_token res" where
  "text_to_token v text =
     bind_res (ggml_assert (v_type v \<noteq> LLAMA_VOCAB_TYPE_NONE)) (\<lambda>_.
       Inr (case token_to_id v text of Some t \<Rightarrow> t | None \<Rightarrow> LLAMA_TOKEN_NULL))"

definition get_token_data :: "'f llama_vocab \<Rightarrow> llama_token \<Rightarrow> 'f token_data res" where
  "get_token_data v tid =
     bind_res (ggml_assert (v_type v \<noteq> LLAMA_VOCAB_TYPE_NONE)) (\<lambda>_. vec_at (id_to_token v) tid)"

definition token_get_attr :: "'f llama_vocab \<Rightarrow> llama_token \<Rightarrow> u32 res" where
  "token_get_attr v tid =
     bind_res (ggml_assert (v_type v \<noteq> LLAMA_VOCAB_TYPE_NONE)) (\<lambda>_.
       bind_res (vec_at (id_to_token v) tid) (\<lambda>d. Inr (td_attr d)))"

text \<open>\<open>is_normal\<close>, \<open>is_byte\<close>, \<open>is_user_defined\<close>, \<open>is_unused\<close>: they index without a check.\<close>

definition id_has_attr :: "llama_token_attr \<Rightarrow> 'f llama_vocab \<Rightarrow> llama_token \<Rightarrow> bool res" where
  "id_has_attr a v tid =
     bind_res (ggml_assert (v_type v \<noteq> LLAMA_VOCAB_TYPE_NONE)) (\<lambda>_.
       bind_res (vec_get (id_to_token v) tid) (\<lambda>d. Inr (has_attr (td_attr d) [a])))"

definition is_normal :: "'f llama_vocab \<Rightarrow> llama_token \<Rightarrow> bool res" where
  "is_normal = id_has_attr ATTR_NORMAL"

definition is_byte :: "'f llama_vocab \<Rightarrow> llama_token \<Rightarrow> bool res" where
  "is_byte = id_has_attr ATTR_BYTE"

definition is_user_defined :: "'f llama_vocab \<Rightarrow> llama_token \<Rightarrow> bool res" where
  "is_user_defined = id_has_attr ATTR_USER_DEFINED"

definition is_unused :: "'f llama_vocab \<Rightarrow> llama_token \<Rightarrow> bool res" where
  "is_unused = id_has_attr ATTR_UNUSED"

section \<open>Bytes of a text as tokens\<close>

text \<open>\<open>unicode_byte_to_utf8_map\<close>: printable Latin-1 bytes stand for themselves, the others are numbered from
  256 on in their order. Since no code point here is above 0x7ff, the encoder cannot throw.\<close>

definition cpt_utf8 :: "nat \<Rightarrow> bytes" where
  "cpt_utf8 c = (case unicode_cpt_to_utf8 (word_of_nat c) of Inr bs \<Rightarrow> bs | Inl _ \<Rightarrow> [])"

definition byte_ranges :: "nat list" where
  "byte_ranges = [0x21..<0x7F] @ [0xA1..<0xAD] @ [0xAE..<0x100]"

definition unicode_byte_to_utf8_map :: "nat \<rightharpoonup> bytes" where
  "unicode_byte_to_utf8_map =
     (let m0 = fold (\<lambda>ch m. m(ch \<mapsto> cpt_utf8 ch)) byte_ranges Map.empty
      in fst (fold (\<lambda>ch (m, n). if m ch = None then (m(ch \<mapsto> cpt_utf8 (256 + n)), n + 1) else (m, n))
                [0..<256] (m0, 0)))"

definition unicode_utf8_to_byte_map :: "bytes \<rightharpoonup> nat" where
  "unicode_utf8_to_byte_map =
     (let m0 = fold (\<lambda>ch m. m(cpt_utf8 ch \<mapsto> ch)) byte_ranges Map.empty
      in fst (fold (\<lambda>ch (m, n). if m (cpt_utf8 ch) = None then (m(cpt_utf8 (256 + n) \<mapsto> ch), n + 1) else (m, n))
                [0..<256] (m0, 0)))"

definition unicode_byte_to_utf8 :: "u8 \<Rightarrow> bytes res" where
  "unicode_byte_to_utf8 byte = map_at unicode_byte_to_utf8_map (unat byte)"

definition unicode_utf8_to_byte :: "bytes \<Rightarrow> u8 res" where
  "unicode_utf8_to_byte utf8 = bind_res (map_at unicode_utf8_to_byte_map utf8) (\<lambda>n. Inr (word_of_nat n))"

text \<open>The text \<^verbatim>\<open><0xHH>\<close> of a byte token.\<close>

definition hex_digit :: "nat \<Rightarrow> u8" where
  "hex_digit d = (if d < 10 then word_of_nat (48 + d) else word_of_nat (55 + d))"

definition byte_text :: "u8 \<Rightarrow> bytes" where
  "byte_text ch = [60, 48, 120, hex_digit (unat (drop_bit 4 ch)), hex_digit (unat (ch AND 15)), 62]"

text \<open>A \<open>const char *\<close> given to the map's lookup ends at its first 0.\<close>

definition c_str :: "bytes \<Rightarrow> bytes" where
  "c_str bs = takeWhile (\<lambda>b. b \<noteq> 0) bs"

definition byte_to_token :: "'f llama_vocab \<Rightarrow> u8 \<Rightarrow> llama_token res" where
  "byte_to_token v ch =
     (case v_type v of
        LLAMA_VOCAB_TYPE_NONE \<Rightarrow> Inl GgmlAbort
      | LLAMA_VOCAB_TYPE_RWKV \<Rightarrow> Inl GgmlAbort
      | LLAMA_VOCAB_TYPE_SPM \<Rightarrow>
          (case token_to_id v (byte_text ch) of
             Some t \<Rightarrow> Inr t | None \<Rightarrow> map_at (token_to_id v) (c_str [ch, 0]))
      | LLAMA_VOCAB_TYPE_UGM \<Rightarrow>
          (case token_to_id v (byte_text ch) of
             Some t \<Rightarrow> Inr t | None \<Rightarrow> map_at (token_to_id v) (c_str [ch, 0]))
      | _ \<Rightarrow> bind_res (unicode_byte_to_utf8 ch) (map_at (token_to_id v)))"

text \<open>\<open>strtol(s, NULL, 16)\<close>: white space, a sign, then hexadecimal digits up to the first other character. (A prefix
  \<^verbatim>\<open>0x\<close> needs three characters; it is given two.)\<close>

definition is_space :: "u8 \<Rightarrow> bool" where
  "is_space c \<longleftrightarrow> c = 32 \<or> (9 \<le> c \<and> c \<le> 13)"

definition hex_value :: "u8 \<Rightarrow> int option" where
  "hex_value c =
     (if 48 \<le> c \<and> c \<le> 57 then Some (uint c - 48)
      else if 65 \<le> c \<and> c \<le> 70 then Some (uint c - 55)
      else if 97 \<le> c \<and> c \<le> 102 then Some (uint c - 87) else None)"

fun hex_number :: "int \<Rightarrow> bytes \<Rightarrow> int" where
  "hex_number acc [] = acc"
| "hex_number acc (c # cs) = (case hex_value c of None \<Rightarrow> acc | Some d \<Rightarrow> hex_number (16 * acc + d) cs)"

definition strtol16 :: "bytes \<Rightarrow> int" where
  "strtol16 s =
     (case dropWhile is_space s of
        [] \<Rightarrow> 0
      | c # cs \<Rightarrow> if c = 45 then - hex_number 0 cs else if c = 43 then hex_number 0 cs else hex_number 0 (c # cs))"

text \<open>\<open>substr(pos, n)\<close> throws when the string is shorter than \<open>pos\<close>.\<close>

definition substr :: "bytes \<Rightarrow> nat \<Rightarrow> nat \<Rightarrow> bytes res" where
  "substr s pos n = (if pos \<le> length s then Inr (take n (drop pos s)) else Inl out_of_range)"

definition token_to_byte :: "'f llama_vocab \<Rightarrow> llama_token \<Rightarrow> u8 res" where
  "token_to_byte v tid =
     bind_res (ggml_assert (v_type v \<noteq> LLAMA_VOCAB_TYPE_NONE)) (\<lambda>_.
     bind_res (is_byte v tid) (\<lambda>b.
     bind_res (ggml_assert b) (\<lambda>_.
     bind_res (vec_at (id_to_token v) tid) (\<lambda>d.
       if v_type v = LLAMA_VOCAB_TYPE_SPM \<or> v_type v = LLAMA_VOCAB_TYPE_UGM then
         bind_res (substr (td_text d) 3 2) (\<lambda>buf. Inr (word_of_int (strtol16 (c_str buf))))
       else Inl GgmlAbort))))"

text \<open>\<open>find_bpe_rank\<close>: -1 when the pair is no merge.\<close>

definition find_bpe_rank :: "'f llama_vocab \<Rightarrow> bytes \<Rightarrow> bytes \<Rightarrow> int res" where
  "find_bpe_rank v token_left token_right =
     bind_res (ggml_assert (32 \<notin> set token_left \<and> 10 \<notin> set token_left \<and> 32 \<notin> set token_right \<and> 10 \<notin> set token_right)) (\<lambda>_.
       Inr (case bpe_ranks v (token_left, token_right) of None \<Rightarrow> -1 | Some r \<Rightarrow> r))"

section \<open>Lookups that succeed\<close>

lemma text_to_token_simp [simp]:
  "v_type v \<noteq> LLAMA_VOCAB_TYPE_NONE \<Longrightarrow>
   text_to_token v s = Inr (case token_to_id v s of Some t \<Rightarrow> t | None \<Rightarrow> LLAMA_TOKEN_NULL)"
  by (simp add: text_to_token_def)

lemma vec_get_Inr [simp]: "i < length xs \<Longrightarrow> vec_get xs (int i) = Inr (xs ! i)"
  by (simp add: vec_get_def)

lemma vec_at_Inr [simp]: "i < length xs \<Longrightarrow> vec_at xs (int i) = Inr (xs ! i)"
  by (simp add: vec_at_def)

lemma map_at_Some [simp]: "m k = Some x \<Longrightarrow> map_at m k = Inr x"
  by (simp add: map_at_def)

end
