(* ===== verification/Tok_Merge.thy ===== *)
theory Tok_Merge
  imports Vocab
begin

text \<open>
  The two tokenizers that merge neighbouring symbols, \<open>llm_tokenizer_spm_session\<close> and \<open>llm_tokenizer_bpe_session\<close>
  of \<open>src/llama-vocab.cpp\<close>. The text is cut into UTF-8 characters, kept as a doubly linked list in a vector;
  candidate merges wait in a \<open>std::priority_queue\<close>, where entries that were overtaken by another merge stay until they
  are taken out and skipped. A pointer into a text is the rest of the text from there on.

  The queue is its bag of entries; which entry is on top, among those that no other entry precedes, is a
  parameter (the standard leaves it open among equivalent entries).
\<close>

section \<open>Symbols\<close>

record llm_symbol =
  s_prev :: int
  s_next :: int
  s_text :: bytes
  s_n :: nat

text \<open>\<open>std::string(text, n)\<close>; reading past the end of the text is undefined.\<close>

definition read_str :: "bytes \<Rightarrow> nat \<Rightarrow> bytes res" where
  "read_str text n = (if n \<le> length text then Inr (take n text) else Inl Undef)"

lemma unicode_len_utf8_pos: "0 < unicode_len_utf8 b"
proof -
  have "unat b div 2 ^ 4 < 16" using unsigned_less[of b, where ?'a = nat] by simp
  then have "unat (drop_bit 4 b) < 16" by (simp add: drop_bit_eq_div unat_div_distrib)
  then have "unat (drop_bit 4 b) \<in> set [0..<16]" by simp
  then show ?thesis unfolding unicode_len_utf8_def utf8_lookup_def
    by (simp add: upt_rec) (elim disjE; simp)
qed

function split_symbols :: "bytes \<Rightarrow> int \<Rightarrow> llm_symbol list" where
  "split_symbols rest index =
     (if rest = [] then []
      else
       (let n = min (unicode_len_utf8 (hd rest)) (length rest)
        in \<lparr>s_prev = index - 1, s_next = (if n = length rest then -1 else index + 1), s_text = rest, s_n = n\<rparr>
           # split_symbols (drop n rest) (index + 1)))"
  by pat_completeness auto
termination
  by (relation "measure (\<lambda>(rest, _). length rest)") (auto simp: unicode_len_utf8_pos)

declare split_symbols.simps [simp del]

text \<open>Merging the right symbol into the left one and taking it out of the chain.\<close>

definition merge_symbols :: "llm_symbol list \<Rightarrow> int \<Rightarrow> int \<Rightarrow> llm_symbol list res" where
  "merge_symbols syms left right =
     bind_res (vec_get syms left) (\<lambda>left_sym.
     bind_res (vec_get syms right) (\<lambda>right_sym.
       let syms = syms[nat left := left_sym\<lparr>s_n := s_n left_sym + s_n right_sym\<rparr>];
           syms = syms[nat right := (syms ! nat right)\<lparr>s_n := 0\<rparr>];
           right_next = s_next (syms ! nat right);
           syms = syms[nat left := (syms ! nat left)\<lparr>s_next := right_next\<rparr>]
       in if right_next \<ge> 0 then
            bind_res (vec_get syms right_next) (\<lambda>s. Inr (syms[nat right_next := s\<lparr>s_prev := left\<rparr>]))
          else Inr syms))"

section \<open>The priority queue\<close>

text \<open>\<open>pick q\<close> is the position of the entry that \<open>std::priority_queue::top\<close> returns; \<open>cmp l r\<close> is the comparator,
  true when \<open>l\<close> comes after \<open>r\<close>.\<close>

type_synonym 'b pq = "'b list \<Rightarrow> nat"

definition pq_ok :: "('b \<Rightarrow> 'b \<Rightarrow> bool) \<Rightarrow> 'b pq \<Rightarrow> bool" where
  "pq_ok cmp pick \<longleftrightarrow> (\<forall>q. q \<noteq> [] \<longrightarrow> pick q < length q \<and> (\<forall>b \<in> set q. \<not> cmp (q ! pick q) b))"

definition remove_nth :: "nat \<Rightarrow> 'a list \<Rightarrow> 'a list" where
  "remove_nth i xs = take i xs @ drop (Suc i) xs"

text \<open>A loop \<open>while (c)\<close> with at most \<open>n\<close> rounds.\<close>

fun while_res :: "('s \<Rightarrow> bool) \<Rightarrow> ('s \<Rightarrow> 's res) \<Rightarrow> nat \<Rightarrow> 's \<Rightarrow> 's res" where
  "while_res c body 0 s = (if c s then Inl Diverge else Inr s)"
| "while_res c body (Suc n) s = (if c s then bind_res (body s) (while_res c body n) else Inr s)"

section \<open>SPM\<close>

record 'f llm_bigram_spm =
  bs_left :: int
  bs_right :: int
  bs_score :: 'f
  bs_size :: nat

definition spm_cmp :: "'f::linorder llm_bigram_spm \<Rightarrow> 'f llm_bigram_spm \<Rightarrow> bool" where
  "spm_cmp l r \<longleftrightarrow> bs_score l < bs_score r \<or> (bs_score l = bs_score r \<and> bs_left l > bs_left r)"

record 'f spm_session =
  spm_symbols :: "llm_symbol list"
  spm_queue :: "'f llm_bigram_spm list"
  rev_merge :: "bytes \<rightharpoonup> int \<times> int"

definition try_add_bigram :: "'f llama_vocab \<Rightarrow> int \<Rightarrow> int \<Rightarrow> 'f spm_session \<Rightarrow> 'f spm_session res" where
  "try_add_bigram v left right s =
     (if left = -1 \<or> right = -1 then Inr s
      else
       bind_res (vec_get (spm_symbols s) left) (\<lambda>left_sym.
       bind_res (vec_get (spm_symbols s) right) (\<lambda>right_sym.
       bind_res (read_str (s_text left_sym) (s_n left_sym + s_n right_sym)) (\<lambda>text.
       bind_res (text_to_token v text) (\<lambda>token.
         if token = LLAMA_TOKEN_NULL then Inr s
         else if token mod 2 ^ 32 \<ge> int (n_tokens v) then Inr s
         else
          bind_res (get_token_data v token) (\<lambda>tok_data.
            Inr (s\<lparr>spm_queue := spm_queue s @
                     [\<lparr>bs_left = left, bs_right = right, bs_score = td_score tok_data, bs_size = length text\<rparr>],
                   rev_merge := (rev_merge s)(text \<mapsto> (left, right))\<rparr>)))))))"

text \<open>One round of the loop over the queue.\<close>

definition spm_round :: "'f llama_vocab \<Rightarrow> 'f llm_bigram_spm pq \<Rightarrow> 'f spm_session \<Rightarrow> 'f spm_session res" where
  "spm_round v pick s =
     (let bigram = spm_queue s ! pick (spm_queue s);
          s = s\<lparr>spm_queue := remove_nth (pick (spm_queue s)) (spm_queue s)\<rparr>
      in
       bind_res (vec_get (spm_symbols s) (bs_left bigram)) (\<lambda>left_sym.
       bind_res (vec_get (spm_symbols s) (bs_right bigram)) (\<lambda>right_sym.
         if s_n left_sym = 0 \<or> s_n right_sym = 0 \<or> s_n left_sym + s_n right_sym \<noteq> bs_size bigram then Inr s
         else
          bind_res (merge_symbols (spm_symbols s) (bs_left bigram) (bs_right bigram)) (\<lambda>syms.
          bind_res (vec_get syms (bs_left bigram)) (\<lambda>left_sym.
          bind_res (try_add_bigram v (s_prev left_sym) (bs_left bigram) (s\<lparr>spm_symbols := syms\<rparr>))
                   (try_add_bigram v (bs_left bigram) (s_next left_sym)))))))"

text \<open>\<open>resegment\<close>: the fuel bounds the depth of the recursion.\<close>

fun resegment :: "'f llama_vocab \<Rightarrow> 'f spm_session \<Rightarrow> nat \<Rightarrow> llm_symbol \<Rightarrow> llama_token list \<Rightarrow> llama_token list res" where
  "resegment v s 0 symbol output = Inl Diverge"
| "resegment v s (Suc n) symbol output =
     bind_res (read_str (s_text symbol) (s_n symbol)) (\<lambda>text.
     bind_res (text_to_token v text) (\<lambda>token.
       if token \<noteq> LLAMA_TOKEN_NULL then Inr (output @ [token])
       else
        (case rev_merge s text of
           None \<Rightarrow> fold_res (\<lambda>b output. bind_res (byte_to_token v b) (\<lambda>tid. Inr (output @ [tid]))) text output
         | Some (l, r) \<Rightarrow>
             bind_res (vec_get (spm_symbols s) l) (\<lambda>lsym.
             bind_res (resegment v s n lsym output) (\<lambda>output.
             bind_res (vec_get (spm_symbols s) r) (\<lambda>rsym. resegment v s n rsym output))))))"

text \<open>\<open>for (int i = 0; i != -1; i = symbols[i].next)\<close>, with a bound on the rounds.\<close>

fun walk_symbols :: "llm_symbol list \<Rightarrow> (llm_symbol \<Rightarrow> 'o \<Rightarrow> 'o res) \<Rightarrow> nat \<Rightarrow> int \<Rightarrow> 'o \<Rightarrow> 'o res" where
  "walk_symbols syms f 0 i output = (if i = -1 then Inr output else Inl Diverge)"
| "walk_symbols syms f (Suc n) i output =
     (if i = -1 then Inr output
      else
       bind_res (vec_get syms i) (\<lambda>symbol.
       bind_res (f symbol output) (walk_symbols syms f n (s_next symbol))))"

definition spm_tokenize ::
    "'f llama_vocab \<Rightarrow> 'f llm_bigram_spm pq \<Rightarrow> bytes \<Rightarrow> llama_token list \<Rightarrow> llama_token list res" where
  "spm_tokenize v pick text output =
     (let syms = split_symbols text 0;
          s = \<lparr>spm_symbols = syms, spm_queue = [], rev_merge = Map.empty\<rparr>
      in
       bind_res (fold_res (\<lambda>i. try_add_bigram v (int i - 1) (int i)) [1..<length syms] s) (\<lambda>s.
       bind_res (while_res (\<lambda>s. spm_queue s \<noteq> []) (spm_round v pick) (3 * length syms) s) (\<lambda>s.
         walk_symbols (spm_symbols s) (resegment v s (Suc (length text))) (length syms) 0 output)))"

section \<open>BPE\<close>

record llm_bigram_bpe =
  bb_left :: int
  bb_right :: int
  bb_text :: bytes
  bb_rank :: int
  bb_size :: nat

definition bpe_cmp :: "llm_bigram_bpe \<Rightarrow> llm_bigram_bpe \<Rightarrow> bool" where
  "bpe_cmp l r \<longleftrightarrow> bb_rank l > bb_rank r \<or> (bb_rank l = bb_rank r \<and> bb_left l > bb_left r)"

record bpe_session =
  bpe_symbols :: "llm_symbol list"
  bpe_queue :: "llm_bigram_bpe list"

definition sym_str :: "llm_symbol \<Rightarrow> bytes res" where
  "sym_str s = read_str (s_text s) (s_n s)"

definition add_new_bigram :: "'f llama_vocab \<Rightarrow> int \<Rightarrow> int \<Rightarrow> bpe_session \<Rightarrow> bpe_session res" where
  "add_new_bigram v left right s =
     (if left = -1 \<or> right = -1 then Inr s
      else
       bind_res (vec_get (bpe_symbols s) left) (\<lambda>left_sym.
       bind_res (sym_str left_sym) (\<lambda>left_token.
       bind_res (vec_get (bpe_symbols s) right) (\<lambda>right_sym.
       bind_res (sym_str right_sym) (\<lambda>right_token.
       bind_res (find_bpe_rank v left_token right_token) (\<lambda>rank_found.
         if rank_found < 0 then Inr s
         else
          Inr (s\<lparr>bpe_queue := bpe_queue s @
                   [\<lparr>bb_left = left, bb_right = right, bb_text = left_token @ right_token, bb_rank = rank_found,
                     bb_size = length left_token + length right_token\<rparr>]\<rparr>)))))))"

definition bpe_round :: "'f llama_vocab \<Rightarrow> llm_bigram_bpe pq \<Rightarrow> bpe_session \<Rightarrow> bpe_session res" where
  "bpe_round v pick s =
     (let bigram = bpe_queue s ! pick (bpe_queue s);
          s = s\<lparr>bpe_queue := remove_nth (pick (bpe_queue s)) (bpe_queue s)\<rparr>
      in
       bind_res (vec_get (bpe_symbols s) (bb_left bigram)) (\<lambda>left_symbol.
       bind_res (vec_get (bpe_symbols s) (bb_right bigram)) (\<lambda>right_symbol.
         if s_n left_symbol = 0 \<or> s_n right_symbol = 0 then Inr s
         else
          bind_res (sym_str left_symbol) (\<lambda>left_token.
          bind_res (sym_str right_symbol) (\<lambda>right_token.
            if left_token @ right_token \<noteq> bb_text bigram then Inr s
            else
             bind_res (merge_symbols (bpe_symbols s) (bb_left bigram) (bb_right bigram)) (\<lambda>syms.
             bind_res (vec_get syms (bb_left bigram)) (\<lambda>left_symbol.
             bind_res (add_new_bigram v (s_prev left_symbol) (bb_left bigram) (s\<lparr>bpe_symbols := syms\<rparr>))
                      (add_new_bigram v (bb_left bigram) (s_next left_symbol)))))))))"

text \<open>The symbols of one word after all merges.\<close>

definition bpe_word :: "'f llama_vocab \<Rightarrow> llm_bigram_bpe pq \<Rightarrow> bytes \<Rightarrow> llm_symbol list res" where
  "bpe_word v pick word =
     bind_res (if ignore_merges v then bind_res (text_to_token v word) (\<lambda>t. Inr (t \<noteq> LLAMA_TOKEN_NULL)) else Inr False) (\<lambda>whole.
       let syms = (if whole then [\<lparr>s_prev = -1, s_next = -1, s_text = word, s_n = length word\<rparr>]
                   else split_symbols word 0)
       in
        bind_res (fold_res (\<lambda>i. add_new_bigram v (int i - 1) (int i)) [1..<length syms]
                    \<lparr>bpe_symbols = syms, bpe_queue = []\<rparr>) (\<lambda>s.
        bind_res (while_res (\<lambda>s. bpe_queue s \<noteq> []) (bpe_round v pick) (3 * length syms) s) (\<lambda>s.
          Inr (bpe_symbols s))))"

text \<open>Appending the symbols of a word to the final list.\<close>

definition append_symbol :: "llm_symbol \<Rightarrow> llm_symbol list \<times> int \<Rightarrow> llm_symbol list \<times> int" where
  "append_symbol sm = (\<lambda>(symbols_final, final_prev_index).
     if s_n sm > 0 then
       (let symbols_final = (if final_prev_index \<noteq> -1 then
              symbols_final[nat final_prev_index := (symbols_final ! nat final_prev_index)\<lparr>s_next := int (length symbols_final)\<rparr>]
            else symbols_final)
        in (symbols_final @ [sm\<lparr>s_prev := final_prev_index, s_next := -1\<rparr>], int (length symbols_final)))
     else (symbols_final, final_prev_index))"

definition bpe_emit :: "'f llama_vocab \<Rightarrow> llm_symbol \<Rightarrow> llama_token list \<Rightarrow> llama_token list res" where
  "bpe_emit v symbol output =
     (if s_n symbol = 0 then Inr output
      else
       bind_res (sym_str symbol) (\<lambda>str.
       bind_res (text_to_token v str) (\<lambda>token.
         if token = LLAMA_TOKEN_NULL then
           fold_res (\<lambda>b output. bind_res (text_to_token v [b]) (\<lambda>t.
              Inr (if t \<noteq> LLAMA_TOKEN_NULL then output @ [t] else output))) str output
         else Inr (output @ [token]))))"

text \<open>\<open>word_collection\<close> is the result of \<open>unicode_regex_split\<close>.\<close>

definition bpe_tokenize ::
    "'f llama_vocab \<Rightarrow> llm_bigram_bpe pq \<Rightarrow> bytes list \<Rightarrow> llama_token list \<Rightarrow> llama_token list res" where
  "bpe_tokenize v pick word_collection output =
     bind_res (fold_res (\<lambda>word fin. bind_res (bpe_word v pick word) (\<lambda>syms. Inr (fold append_symbol syms fin)))
                 word_collection ([], -1)) (\<lambda>(symbols_final, _).
       if symbols_final \<noteq> [] then
         walk_symbols symbols_final (bpe_emit v) (length symbols_final) 0 output
       else Inr output)"

end
