(* ===== verification/Tok_Greedy.thy ===== *)
theory Tok_Greedy
  imports Tok_Merge
begin

text \<open>
  What the merging tokenizers compute: the reference algorithm on a list of strings that merges the best pair
  of neighbours, the leftmost one among equals, until no pair can be merged. The locale \<open>merging_session\<close> is what the
  two sessions have in common; its lemma is that the work queue with its outdated entries implements the reference.
\<close>

section \<open>The reference\<close>

fun best_pair :: "(bytes \<Rightarrow> bytes \<Rightarrow> 'p::linorder option) \<Rightarrow> bytes list \<Rightarrow> (nat \<times> 'p) option" where
  "best_pair prio (a # b # xs) =
     (let rest = map_option (\<lambda>(i, p). (Suc i, p)) (best_pair prio (b # xs))
      in case prio a b of
           None \<Rightarrow> rest
         | Some p \<Rightarrow> (case rest of Some (i, q) \<Rightarrow> if p < q then rest else Some (0, p) | None \<Rightarrow> Some (0, p)))"
| "best_pair prio [x] = None"
| "best_pair prio [] = None"

definition merge_at :: "nat \<Rightarrow> bytes list \<Rightarrow> bytes list" where
  "merge_at i xs = take i xs @ (xs ! i @ xs ! Suc i) # drop (Suc (Suc i)) xs"

lemma best_pair_None:
  "best_pair prio xs = None \<Longrightarrow> Suc j < length xs \<Longrightarrow> prio (xs ! j) (xs ! Suc j) = None"
proof (induction prio xs arbitrary: j rule: best_pair.induct)
  case (1 prio a b xs)
  then show ?case by (cases j) (auto simp: Let_def split: option.splits if_splits)
qed auto

lemma best_pair_Some:
  "best_pair prio xs = Some (i, p) \<Longrightarrow>
   Suc i < length xs \<and> prio (xs ! i) (xs ! Suc i) = Some p \<and>
   (\<forall>j q. Suc j < length xs \<longrightarrow> prio (xs ! j) (xs ! Suc j) = Some q \<longrightarrow> q \<le> p \<and> (j < i \<longrightarrow> q < p))"
proof (induction prio xs arbitrary: i p rule: best_pair.induct)
  case (1 prio a b xs)
  show ?case
  proof (cases "best_pair prio (b # xs)")
    case None
    then have "i = 0" "prio a b = Some p" using "1.prems" by (auto simp: Let_def split: option.splits)
    then show ?thesis using best_pair_None[OF None] by (auto simp: nth_Cons split: nat.splits)
  next
    case (Some iq)
    obtain k q where kq: "iq = (k, q)" by fastforce
    note IH = "1.IH"[OF Some[unfolded kq]]
    show ?thesis
    proof (cases "\<exists>r. prio a b = Some r \<and> \<not> r < q")
      case True
      then have "i = 0" "prio a b = Some p" "q \<le> p" using "1.prems" Some kq by (auto simp: Let_def)
      moreover have "r \<le> p" if "Suc j < length (a # b # xs)" "prio ((a # b # xs) ! j) ((a # b # xs) ! Suc j) = Some r" for j r
        using that IH \<open>q \<le> p\<close> \<open>prio a b = Some p\<close> by (cases j) (auto, meson order_trans)
      ultimately show ?thesis by auto
    next
      case False
      then have *: "i = Suc k" "p = q" "\<And>r. prio a b = Some r \<Longrightarrow> r < q"
        using "1.prems" Some kq by (auto simp: Let_def split: option.splits if_splits)
      then show ?thesis using IH by (auto simp: nth_Cons less_imp_le split: nat.splits)
    qed
  qed
qed auto

lemma best_pairI:
  assumes "Suc i < length xs" "prio (xs ! i) (xs ! Suc i) = Some p"
    and "\<And>j q. Suc j < length xs \<Longrightarrow> prio (xs ! j) (xs ! Suc j) = Some q \<Longrightarrow> q < p \<or> (q = p \<and> i \<le> j)"
  shows "best_pair prio xs = Some (i, p)"
proof (cases "best_pair prio xs")
  case None
  then show ?thesis using best_pair_None[OF None assms(1)] assms(2) by simp
next
  case (Some kq)
  obtain k q where kq: "kq = (k, q)" by fastforce
  note * = best_pair_Some[OF Some[unfolded kq]]
  have "p \<le> q" "k < i \<or> k = i \<or> p < q" using * assms(1,2) by (auto intro: linorder_neqE_nat)
  moreover have "q < p \<or> (q = p \<and> i \<le> k)" using * assms(3)[of k q] by simp
  ultimately have "i = k" "p = q" by auto
  then show ?thesis using Some kq by simp
qed

lemma length_merge_at: "Suc i < length xs \<Longrightarrow> Suc (length (merge_at i xs)) = length xs"
  by (simp add: merge_at_def)

lemma concat_merge_at: "Suc i < length xs \<Longrightarrow> concat (merge_at i xs) = concat xs"
proof -
  assume "Suc i < length xs"
  then have "xs = take i xs @ xs ! i # xs ! Suc i # drop (Suc (Suc i)) xs"
    by (metis Cons_nth_drop_Suc Suc_lessD append_take_drop_id)
  then have "concat xs = concat (take i xs @ xs ! i # xs ! Suc i # drop (Suc (Suc i)) xs)" by simp
  then show ?thesis by (simp add: merge_at_def)
qed

function greedy_merge :: "(bytes \<Rightarrow> bytes \<Rightarrow> 'p::linorder option) \<Rightarrow> bytes list \<Rightarrow> bytes list" where
  "greedy_merge prio xs =
     (case best_pair prio xs of None \<Rightarrow> xs | Some (i, _) \<Rightarrow> greedy_merge prio (merge_at i xs))"
  by pat_completeness auto
termination
  by (relation "measure (\<lambda>(_, xs). length xs)") (auto dest!: best_pair_Some length_merge_at)

declare greedy_merge.simps [simp del]

section \<open>The chain of symbols\<close>

definition live :: "llm_symbol list \<Rightarrow> nat list" where
  "live syms = filter (\<lambda>i. s_n (syms ! i) > 0) [0..<length syms]"

definition seg :: "llm_symbol list \<Rightarrow> nat \<Rightarrow> bytes" where
  "seg syms i = take (s_n (syms ! i)) (s_text (syms ! i))"

definition segs :: "llm_symbol list \<Rightarrow> bytes list" where
  "segs syms = map (seg syms) (live syms)"

text \<open>The links agree with the order of the live symbols, and each text goes on where the one before ends.\<close>

definition chain :: "llm_symbol list \<Rightarrow> bool" where
  "chain syms \<longleftrightarrow>
     (\<forall>i < length syms. s_n (syms ! i) \<le> length (s_text (syms ! i))) \<and>
     (\<forall>k < length (live syms).
        s_next (syms ! (live syms ! k)) = (if Suc k < length (live syms) then int (live syms ! Suc k) else -1) \<and>
        s_prev (syms ! (live syms ! k)) = (if k = 0 then -1 else int (live syms ! (k - 1))) \<and>
        s_text (syms ! (live syms ! k)) = concat (map (seg syms) (drop k (live syms))))"

lemma live_less: "i \<in> set (live syms) \<Longrightarrow> i < length syms"
  by (simp add: live_def)

lemma live_nth_less: "k < length (live syms) \<Longrightarrow> live syms ! k < length syms"
  by (rule live_less) simp

lemma live_pos: "k < length (live syms) \<Longrightarrow> 0 < s_n (syms ! (live syms ! k))"
  using nth_mem[of k "live syms"] by (auto simp: live_def)

lemma distinct_live [simp]: "distinct (live syms)"
  by (simp add: live_def)

lemma sorted_live: "sorted (live syms)"
  by (simp add: live_def sorted_wrt_filter)

lemma live_less_iff:
  "j < length (live syms) \<Longrightarrow> k < length (live syms) \<Longrightarrow> live syms ! j < live syms ! k \<longleftrightarrow> j < k"
  by (metis distinct_live linorder_not_less nth_eq_iff_index_eq order_le_less sorted_live sorted_nth_mono)

lemma length_seg: "chain syms \<Longrightarrow> i < length syms \<Longrightarrow> length (seg syms i) = s_n (syms ! i)"
  by (simp add: chain_def seg_def)

lemma chain_text:
  assumes "chain syms" "Suc k < length (live syms)"
  shows "s_text (syms ! (live syms ! k)) = seg syms (live syms ! k) @ seg syms (live syms ! Suc k)
           @ concat (map (seg syms) (drop (Suc (Suc k)) (live syms)))"
  using assms by (simp add: chain_def flip: Cons_nth_drop_Suc)

lemma merge_symbols_result:
  assumes "l < length syms" "r < length syms" "l \<noteq> r" "s_next (syms ! r) < int (length syms)" "s_next (syms ! r) \<noteq> int r"
  obtains syms' where "merge_symbols syms (int l) (int r) = Inr syms'" "length syms' = length syms"
    "\<And>i. i < length syms \<Longrightarrow> syms' ! i =
       (if i = l then (syms ! l)\<lparr>s_n := s_n (syms ! l) + s_n (syms ! r), s_next := s_next (syms ! r)\<rparr>
        else if i = r then (syms ! r)\<lparr>s_n := 0\<rparr> else syms ! i)
       \<lparr>s_prev := if s_next (syms ! r) = int i then int l else s_prev (syms ! i)\<rparr>"
proof -
  let ?syms = "syms[l := (syms ! l)\<lparr>s_n := s_n (syms ! l) + s_n (syms ! r), s_next := s_next (syms ! r)\<rparr>,
                    r := (syms ! r)\<lparr>s_n := 0\<rparr>]"
  let ?nx = "s_next (syms ! r)"
  let ?syms' = "if ?nx \<ge> 0 then ?syms[nat ?nx := (?syms ! nat ?nx)\<lparr>s_prev := int l\<rparr>] else ?syms"
  have "merge_symbols syms (int l) (int r) = Inr ?syms'"
    using assms by (auto simp: merge_symbols_def Let_def vec_get_def list_update_swap nth_list_update)
  moreover have "?syms' ! i =
      (if i = l then (syms ! l)\<lparr>s_n := s_n (syms ! l) + s_n (syms ! r), s_next := s_next (syms ! r)\<rparr>
        else if i = r then (syms ! r)\<lparr>s_n := 0\<rparr> else syms ! i)
       \<lparr>s_prev := if ?nx = int i then int l else s_prev (syms ! i)\<rparr>" if "i < length syms" for i
    using assms that by (auto simp: nth_list_update)
  ultimately show ?thesis using that[of ?syms'] by simp
qed

lemma filter_neq_nth: "distinct xs \<Longrightarrow> m < length xs \<Longrightarrow> filter (\<lambda>x. x \<noteq> xs ! m) xs = take m xs @ drop (Suc m) xs"
proof (induction xs arbitrary: m)
  case (Cons x xs)
  then show ?case by (cases m) (auto simp: filter_id_conv)
qed simp

lemma drop_merge_at:
  assumes "Suc k < length xs" "j < length (merge_at k xs)"
  shows "concat (drop j (merge_at k xs)) = concat (drop (if j \<le> k then j else Suc j) xs)"
proof (cases "j \<le> k")
  case True
  then have "drop j (merge_at k xs) = merge_at (k - j) (drop j xs)"
    using assms by (simp add: merge_at_def drop_take)
  then show ?thesis using True assms concat_merge_at[of "k - j" "drop j xs"] by simp
next
  case False
  then have "drop j (merge_at k xs) = drop (Suc j) xs"
    using assms by (simp add: merge_at_def drop_Cons' numeral_2_eq_2)
  then show ?thesis using False by simp
qed

lemma nth_merge_list:
  "Suc k < length xs \<Longrightarrow> j < length xs - 1 \<Longrightarrow>
   (take (Suc k) xs @ drop (Suc (Suc k)) xs) ! j = (if j \<le> k then xs ! j else xs ! Suc j)"
  by (auto simp: nth_append min_def)

lemma merge_chain:
  assumes ch: "chain syms" and k: "Suc k < length (live syms)"
  defines "l \<equiv> live syms ! k" and "r \<equiv> live syms ! Suc k"
  obtains syms' where "merge_symbols syms (int l) (int r) = Inr syms'" "length syms' = length syms" "chain syms'"
    "live syms' = take (Suc k) (live syms) @ drop (Suc (Suc k)) (live syms)" "segs syms' = merge_at k (segs syms)"
    "s_n (syms' ! l) = s_n (syms ! l) + s_n (syms ! r)" "s_n (syms' ! r) = 0"
    "\<And>i. i < length syms \<Longrightarrow> i \<noteq> l \<Longrightarrow> i \<noteq> r \<Longrightarrow>
       s_n (syms' ! i) = s_n (syms ! i) \<and> seg syms' i = seg syms i \<and> s_next (syms' ! i) = s_next (syms ! i)"
proof -
  let ?L = "live syms" and ?nx = "s_next (syms ! r)"
  have nx: "?nx = (if Suc (Suc k) < length ?L then int (?L ! Suc (Suc k)) else -1)"
    using ch k by (simp add: chain_def r_def)
  have lr: "l < length syms" "r < length syms" "l \<noteq> r"
    using k by (auto simp: l_def r_def live_nth_less nth_eq_iff_index_eq)
  have "?nx < int (length syms)" "?nx \<noteq> int r"
    unfolding nx using k by (auto simp: live_nth_less r_def nth_eq_iff_index_eq)
  then obtain syms' where m: "merge_symbols syms (int l) (int r) = Inr syms'" "length syms' = length syms"
    and nth: "\<And>i. i < length syms \<Longrightarrow> syms' ! i =
       (if i = l then (syms ! l)\<lparr>s_n := s_n (syms ! l) + s_n (syms ! r), s_next := ?nx\<rparr>
        else if i = r then (syms ! r)\<lparr>s_n := 0\<rparr> else syms ! i)
       \<lparr>s_prev := if ?nx = int i then int l else s_prev (syms ! i)\<rparr>"
    using merge_symbols_result[OF lr] by metis
  have links: "s_next (syms ! (?L ! j)) = (if Suc j < length ?L then int (?L ! Suc j) else -1)"
    "s_prev (syms ! (?L ! j)) = (if j = 0 then -1 else int (?L ! (j - 1)))" if "j < length ?L" for j
    using ch that by (simp_all add: chain_def)
  have pos: "0 < s_n (syms ! l)" using k by (simp add: l_def live_pos)
  have L: "live syms' = take (Suc k) ?L @ drop (Suc (Suc k)) ?L"
  proof -
    have "live syms' = filter (\<lambda>i. i \<noteq> r) ?L"
      unfolding live_def m(2) filter_filter using pos lr by (intro filter_cong) (auto simp: nth)
    then show ?thesis using filter_neq_nth[of ?L "Suc k"] k by (simp add: r_def)
  qed
  note text_l = chain_text[OF ch k, folded l_def r_def]
  have seg: "seg syms' i = (if i = l then seg syms l @ seg syms r else if i = r then [] else seg syms i)" if "i < length syms" for i
    using that text_l lr length_seg[OF ch] by (auto simp: seg_def[of syms'] nth) (simp add: seg_def)
  have S: "segs syms' = merge_at k (segs syms)"
  proof -
    have L': "live syms' = take k ?L @ l # drop (Suc (Suc k)) ?L" using k by (simp add: L take_Suc_conv_app_nth l_def)
    have "l \<notin> set (take k ?L)" "r \<notin> set (take k ?L)" "l \<notin> set (drop (Suc (Suc k)) ?L)" "r \<notin> set (drop (Suc (Suc k)) ?L)"
      using k by (auto simp: l_def r_def in_set_conv_nth nth_eq_iff_index_eq)
    moreover have "i < length syms" if "i \<in> set (take k ?L) \<or> i \<in> set (drop (Suc (Suc k)) ?L)" for i
      using that by (auto intro: live_less dest: in_set_takeD in_set_dropD)
    ultimately have "map (seg syms') (take k ?L) = map (seg syms) (take k ?L)"
      "map (seg syms') (drop (Suc (Suc k)) ?L) = map (seg syms) (drop (Suc (Suc k)) ?L)"
      by (auto simp: seg)
    with L' show ?thesis using k lr by (simp add: segs_def merge_at_def take_map drop_map seg l_def[symmetric] r_def[symmetric])
  qed
  have "chain syms'"
    unfolding chain_def m(2)
  proof (intro conjI allI impI)
    fix i assume "i < length syms"
    then show "s_n (syms' ! i) \<le> length (s_text (syms' ! i))"
      using ch text_l lr length_seg[OF ch] by (auto simp: nth chain_def)
  next
    fix j assume "j < length (live syms')"
    then have j: "j < length ?L - 1" and ne: "?L \<noteq> []" using k by (auto simp: L)
    let ?i = "live syms' ! j"
    have i: "?i = (if j \<le> k then ?L ! j else ?L ! Suc j)" using j k by (simp add: L nth_merge_list)
    have i_less: "?i < length syms" using j by (simp add: i live_nth_less)
    have i_l: "?i = l \<longleftrightarrow> j = k" and i_r: "?i \<noteq> r" and i_nx: "?nx = int ?i \<longleftrightarrow> j = Suc k"
      unfolding nx using j k by (auto simp: i l_def r_def nth_eq_iff_index_eq)
    have "s_next (syms' ! ?i) = (if j = k then ?nx else s_next (syms ! ?i))"
      using i_l i_r by (simp add: nth[OF i_less])
    also have "\<dots> = (if Suc j < length ?L - 1 then int (if Suc j \<le> k then ?L ! Suc j else ?L ! Suc (Suc j)) else -1)"
      using links[of j] links[of "Suc j"] j k by (auto simp: i nx)
    finally show "s_next (syms' ! ?i) = (if Suc j < length (live syms') then int (live syms' ! Suc j) else -1)"
      using j k by (simp add: L nth_merge_list) arith
    have "s_prev (syms' ! ?i) = (if j = Suc k then int l else s_prev (syms ! ?i))"
      using i_l i_r i_nx by (simp add: nth[OF i_less])
    also have "\<dots> = (if j = 0 then -1 else int (if j - 1 \<le> k then ?L ! (j - 1) else ?L ! j))"
      unfolding i using links(2)[of j] links(2)[of "Suc j"] j k ne by (cases "j = 0") (auto simp: l_def)
    finally show "s_prev (syms' ! ?i) = (if j = 0 then -1 else int (live syms' ! (j - 1)))"
      using j k by (auto simp: L nth_merge_list)
    have "concat (map (seg syms') (drop j (live syms'))) = concat (drop j (merge_at k (segs syms)))"
      unfolding S[symmetric] by (simp add: segs_def drop_map)
    also have "\<dots> = concat (drop (if j \<le> k then j else Suc j) (segs syms))"
      using k j length_merge_at[of k "segs syms"] by (intro drop_merge_at) (simp_all add: segs_def)
    also have "\<dots> = s_text (syms ! ?i)"
      using ch j by (auto simp: i chain_def segs_def drop_map)
    finally show "s_text (syms' ! ?i) = concat (map (seg syms') (drop j (live syms')))"
      using i_r by (simp add: nth[OF i_less])
  qed
  then show ?thesis
    by (rule that[OF m _ L S]) (use lr in \<open>auto simp: nth seg\<close>)
qed

text \<open>The characters of a text.\<close>

function utf8_chars :: "bytes \<Rightarrow> bytes list" where
  "utf8_chars rest =
     (if rest = [] then [] else take (unicode_len_utf8 (hd rest)) rest # utf8_chars (drop (unicode_len_utf8 (hd rest)) rest))"
  by pat_completeness auto
termination
  by (relation "measure length") (auto simp: unicode_len_utf8_pos)

declare utf8_chars.simps [simp del]

lemma unicode_len_utf8_neq_0 [simp]: "unicode_len_utf8 b \<noteq> 0"
  using unicode_len_utf8_pos[of b] by simp

lemma utf8_chars_Nil [simp]: "utf8_chars [] = []"
  by (simp add: utf8_chars.simps)

lemma concat_utf8_chars [simp]: "concat (utf8_chars rest) = rest"
  by (induction rest rule: utf8_chars.induct) (subst utf8_chars.simps, simp)

lemma utf8_chars_nonempty: "c \<in> set (utf8_chars rest) \<Longrightarrow> c \<noteq> []"
proof (induction rest rule: utf8_chars.induct)
  case (1 rest)
  then show ?case by (subst (asm) (2) utf8_chars.simps) (auto split: if_splits)
qed

lemma utf8_chars_eq_Nil [simp]: "utf8_chars rest = [] \<longleftrightarrow> rest = []"
  by (subst utf8_chars.simps) simp

lemma split_symbols_nth:
  "length (split_symbols rest index) = length (utf8_chars rest) \<and>
   (\<forall>k < length (utf8_chars rest). split_symbols rest index ! k =
     \<lparr>s_prev = index + int k - 1, s_next = (if Suc k = length (utf8_chars rest) then -1 else index + int k + 1),
      s_text = concat (drop k (utf8_chars rest)), s_n = length (utf8_chars rest ! k)\<rparr>)"
proof (induction rest index rule: split_symbols.induct)
  case (1 rest index)
  show ?case
  proof (cases "rest = []")
    case True
    then show ?thesis by (simp add: split_symbols.simps)
  next
    case False
    let ?n = "min (unicode_len_utf8 (hd rest)) (length rest)"
    have d: "drop ?n rest = drop (unicode_len_utf8 (hd rest)) rest" by (simp add: min_def)
    note IH = "1.IH"[OF False refl, unfolded d]
    have u: "utf8_chars rest = take (unicode_len_utf8 (hd rest)) rest # utf8_chars (drop (unicode_len_utf8 (hd rest)) rest)"
      using False by (subst utf8_chars.simps) simp
    have sp: "split_symbols rest index =
        \<lparr>s_prev = index - 1, s_next = (if ?n = length rest then -1 else index + 1), s_text = rest, s_n = ?n\<rparr>
        # split_symbols (drop (unicode_len_utf8 (hd rest)) rest) (index + 1)"
      using False by (subst split_symbols.simps) (simp add: Let_def d)
    show ?thesis using IH by (auto simp: u sp nth_Cons min_def split: nat.splits)
  qed
qed

lemma split_symbols_chain:
  "chain (split_symbols text 0)" "live (split_symbols text 0) = [0..<length (split_symbols text 0)]"
  "segs (split_symbols text 0) = utf8_chars text" "length (split_symbols text 0) = length (utf8_chars text)"
proof -
  let ?S = "split_symbols text 0" and ?c = "utf8_chars text"
  have len: "length ?S = length ?c" and nth: "\<And>k. k < length ?c \<Longrightarrow> ?S ! k =
     \<lparr>s_prev = int k - 1, s_next = (if Suc k = length ?c then -1 else int k + 1),
      s_text = concat (drop k ?c), s_n = length (?c ! k)\<rparr>"
    using split_symbols_nth[of "text" 0] by auto
  have ne: "?c ! k \<noteq> []" if "k < length ?c" for k using that nth_mem utf8_chars_nonempty by blast
  have live_S: "live ?S = [0..<length ?S]"
    using ne by (auto simp: live_def len nth intro: filter_True)
  have seg: "seg ?S k = ?c ! k" if "k < length ?c" for k
    using that by (simp add: seg_def nth flip: Cons_nth_drop_Suc)
  have segs: "segs ?S = ?c"
    unfolding segs_def live_S by (rule nth_equalityI) (simp_all add: len seg)
  have "map (seg ?S) (drop k [0..<length ?S]) = drop k ?c" for k
    by (simp add: drop_map[symmetric] del: drop_upt) (simp add: segs[unfolded segs_def live_S])
  then show "chain ?S"
    unfolding chain_def live_S by (auto simp: len nth simp flip: Cons_nth_drop_Suc)
      (metis Suc_lessI length_greater_0_conv utf8_chars_eq_Nil)
  show "live ?S = [0..<length ?S]" "segs ?S = ?c" "length ?S = length ?c" using live_S segs len .
qed

end
