(* ===== verification/Tok_Session.thy ===== *)
theory Tok_Session
  imports Tok_Greedy
begin

text \<open>
  The contract of a session that merges neighbouring symbols through a work queue, with the lemma that a session
  started with all mergeable pairs in the queue ends and leaves what the reference computes; its instances for SPM and BPE.
\<close>

lemma set_remove_nth: "set (remove_nth i xs) \<subseteq> set xs"
  by (auto simp: remove_nth_def dest: in_set_takeD in_set_dropD)

lemma in_remove_nth: "x \<in> set xs \<Longrightarrow> x \<noteq> xs ! i \<Longrightarrow> x \<in> set (remove_nth i xs)"
proof (cases "i < length xs")
  case True
  moreover assume "x \<in> set xs" "x \<noteq> xs ! i"
  ultimately show ?thesis by (subst (asm) id_take_nth_drop[OF True]) (auto simp: remove_nth_def)
qed (auto simp: remove_nth_def)

lemma length_remove_nth: "i < length xs \<Longrightarrow> Suc (length (remove_nth i xs)) = length xs"
  by (simp add: remove_nth_def)

lemma ok_seg:
  assumes "\<And>a b c. ok_text (a @ b @ c) \<Longrightarrow> ok_text b" "ok_text (concat (segs sy))" "k < length (live sy)"
  shows "ok_text (seg sy (live sy ! k))"
proof -
  have "concat (segs sy) = concat (take k (segs sy)) @ segs sy ! k @ concat (drop (Suc k) (segs sy))"
    using assms(3) id_take_nth_drop[of k "segs sy"] by (metis concat.simps(2) concat_append length_map segs_def)
  then show ?thesis using assms by (metis nth_map segs_def)
qed

lemma merge_chainD:
  assumes "chain sy" "Suc k < length (live sy)" "merge_symbols sy (int (live sy ! k)) (int (live sy ! Suc k)) = Inr sy'"
  shows "length sy' = length sy" "chain sy'" "live sy' = take (Suc k) (live sy) @ drop (Suc (Suc k)) (live sy)"
    "segs sy' = merge_at k (segs sy)"
    "i < length sy \<Longrightarrow> s_n (sy' ! i) =
       (if i = live sy ! k then s_n (sy ! i) + s_n (sy ! (live sy ! Suc k)) else if i = live sy ! Suc k then 0 else s_n (sy ! i))"
    "i < length sy \<Longrightarrow> i \<noteq> live sy ! k \<Longrightarrow> i \<noteq> live sy ! Suc k \<Longrightarrow> seg sy' i = seg sy i"
  by (rule merge_chain[OF assms(1,2)]; use assms(3) in auto)+

section \<open>The contract\<close>

locale merging_session =
  fixes good :: "'e \<Rightarrow> bool"
    and ok_text :: "bytes \<Rightarrow> bool"
    and prio :: "'e \<Rightarrow> bytes \<Rightarrow> bytes \<Rightarrow> 'p::linorder option"
    and syms :: "'s \<Rightarrow> llm_symbol list"
    and queue :: "'s \<Rightarrow> 'b list"
    and with_syms :: "llm_symbol list \<Rightarrow> 's \<Rightarrow> 's"
    and add :: "'e \<Rightarrow> int \<Rightarrow> int \<Rightarrow> 's \<Rightarrow> 's res"
    and round :: "'e \<Rightarrow> 's \<Rightarrow> 's res"
    and eleft :: "'b \<Rightarrow> int"
    and eright :: "'b \<Rightarrow> int"
    and eprio :: "'b \<Rightarrow> 'p"
    and esize :: "'b \<Rightarrow> nat"
    and fits :: "'b \<Rightarrow> bytes \<Rightarrow> bytes \<Rightarrow> bool"
  assumes ok_text_sub: "ok_text (x @ y @ z) \<Longrightarrow> ok_text y"
    and fits_size: "fits b x y \<Longrightarrow> length x + length y = esize b"
    and syms_with [simp]: "syms (with_syms sy s) = sy"
    and queue_with [simp]: "queue (with_syms sy s) = queue s"
    and add_none: "left = -1 \<or> right = -1 \<Longrightarrow> add e left right s = Inr s"
    and add_pair: "good e \<Longrightarrow> chain (syms s) \<Longrightarrow> ok_text (concat (segs (syms s))) \<Longrightarrow> Suc k < length (live (syms s)) \<Longrightarrow>
      i = live (syms s) ! k \<Longrightarrow> j = live (syms s) ! Suc k \<Longrightarrow>
      \<exists>s' bs. add e (int i) (int j) s = Inr s' \<and> syms s' = syms s \<and> queue s' = queue s @ bs \<and> length bs \<le> 1 \<and>
        (\<forall>p. prio e (seg (syms s) i) (seg (syms s) j) = Some p \<longrightarrow> bs \<noteq> []) \<and>
        (\<forall>b \<in> set bs. eleft b = int i \<and> eright b = int j \<and> prio e (seg (syms s) i) (seg (syms s) j) = Some (eprio b)
            \<and> fits b (seg (syms s) i) (seg (syms s) j))"
    and round_law: "good e \<Longrightarrow> chain (syms s) \<Longrightarrow> queue s \<noteq> [] \<Longrightarrow>
      (\<And>b. b \<in> set (queue s) \<Longrightarrow> \<exists>i < length (syms s). \<exists>j < length (syms s). eleft b = int i \<and> eright b = int j) \<Longrightarrow>
      \<exists>n s0 i j. n < length (queue s) \<and> syms s0 = syms s \<and> queue s0 = remove_nth n (queue s) \<and>
        eleft (queue s ! n) = int i \<and> eright (queue s ! n) = int j \<and>
        (\<forall>b \<in> set (queue s). eprio b < eprio (queue s ! n) \<or> (eprio b = eprio (queue s ! n) \<and> int i \<le> eleft b)) \<and>
        round e s =
          (if s_n (syms s ! i) = 0 \<or> s_n (syms s ! j) = 0 \<or> \<not> fits (queue s ! n) (seg (syms s) i) (seg (syms s) j) then Inr s0
           else bind_res (merge_symbols (syms s) (int i) (int j)) (\<lambda>sy.
                bind_res (vec_get sy (int i)) (\<lambda>ls.
                bind_res (add e (s_prev ls) (int i) (with_syms sy s0)) (add e (int i) (s_next ls)))))"
begin

definition stale :: "llm_symbol list \<Rightarrow> 'b \<Rightarrow> nat \<Rightarrow> nat \<Rightarrow> bool" where
  "stale sy b i j \<longleftrightarrow> s_n (sy ! i) = 0 \<or> s_n (sy ! j) = 0 \<or> esize b < s_n (sy ! i) + s_n (sy ! j)"

definition fresh :: "'e \<Rightarrow> llm_symbol list \<Rightarrow> 'b \<Rightarrow> nat \<Rightarrow> nat \<Rightarrow> nat \<Rightarrow> bool" where
  "fresh e sy b i j k \<longleftrightarrow> Suc k < length (live sy) \<and> i = live sy ! k \<and> j = live sy ! Suc k \<and>
     fits b (seg sy i) (seg sy j) \<and> prio e (seg sy i) (seg sy j) = Some (eprio b)"

definition entry_ok :: "'e \<Rightarrow> llm_symbol list \<Rightarrow> 'b \<Rightarrow> bool" where
  "entry_ok e sy b \<longleftrightarrow> (\<exists>i < length sy. \<exists>j < length sy. eleft b = int i \<and> eright b = int j \<and>
     (stale sy b i j \<or> (\<exists>k. fresh e sy b i j k)))"

definition covered :: "'e \<Rightarrow> llm_symbol list \<Rightarrow> 'b set \<Rightarrow> nat \<Rightarrow> bool" where
  "covered e sy B k \<longleftrightarrow> (Suc k < length (live sy) \<longrightarrow> prio e (seg sy (live sy ! k)) (seg sy (live sy ! Suc k)) \<noteq> None \<longrightarrow>
     (\<exists>b \<in> B. eleft b = int (live sy ! k) \<and> eright b = int (live sy ! Suc k) \<and> fresh e sy b (live sy ! k) (live sy ! Suc k) k))"

definition inv :: "'e \<Rightarrow> 's \<Rightarrow> bool" where
  "inv e s \<longleftrightarrow> chain (syms s) \<and> (live (syms s) \<noteq> [] \<longrightarrow> live (syms s) ! 0 = 0) \<and> ok_text (concat (segs (syms s))) \<and>
     (\<forall>b \<in> set (queue s). entry_ok e (syms s) b) \<and> (\<forall>k. covered e (syms s) (set (queue s)) k)"

definition potential :: "'s \<Rightarrow> nat" where
  "potential s = length (queue s) + 2 * length (live (syms s))"

lemma covered_mono: "covered e sy B k \<Longrightarrow> B \<subseteq> B' \<Longrightarrow> covered e sy B' k"
  unfolding covered_def by (meson subsetD)

lemma not_both:
  assumes "chain sy" "fresh e sy b i j k"
  shows "\<not> stale sy b i j"
proof -
  have "i < length sy" "j < length sy" "0 < s_n (sy ! i)" "0 < s_n (sy ! j)"
    using assms(2) by (auto simp: fresh_def live_nth_less live_pos)
  moreover have "s_n (sy ! i) + s_n (sy ! j) = esize b"
    using fits_size[of b "seg sy i" "seg sy j"] assms calculation by (auto simp: fresh_def length_seg)
  ultimately show ?thesis by (simp add: stale_def)
qed

text \<open>The entry of an adjacent pair, added.\<close>

lemma add_covers:
  assumes "good e" "chain (syms s)" "ok_text (concat (segs (syms s)))" "\<forall>b \<in> set (queue s). entry_ok e (syms s) b"
    and "i = -1 \<or> j = -1 \<or> (Suc k < length (live (syms s)) \<and> i = int (live (syms s) ! k) \<and> j = int (live (syms s) ! Suc k))"
  obtains s' where "add e i j s = Inr s'" "syms s' = syms s" "set (queue s) \<subseteq> set (queue s')"
    "length (queue s') \<le> Suc (length (queue s))"
    "\<forall>b \<in> set (queue s'). entry_ok e (syms s) b" "i \<noteq> -1 \<Longrightarrow> j \<noteq> -1 \<Longrightarrow> covered e (syms s) (set (queue s')) k"
proof (cases "i = -1 \<or> j = -1")
  case True
  then show ?thesis using that[of s] assms add_none by auto
next
  case False
  let ?i = "live (syms s) ! k" and ?j = "live (syms s) ! Suc k"
  have k: "Suc k < length (live (syms s))" "i = int ?i" "j = int ?j" using False assms(5) by auto
  obtain s' bs where s': "add e i j s = Inr s'" "syms s' = syms s" "queue s' = queue s @ bs" "length bs \<le> 1"
    and cov: "\<And>p. prio e (seg (syms s) ?i) (seg (syms s) ?j) = Some p \<Longrightarrow> bs \<noteq> []"
    and bs: "\<And>b. b \<in> set bs \<Longrightarrow> eleft b = i \<and> eright b = j \<and> fresh e (syms s) b ?i ?j k"
    using add_pair[OF assms(1-3) k(1) refl refl] k by (auto simp: fresh_def)
  have "entry_ok e (syms s) b" if "b \<in> set bs" for b
    using bs[OF that] k live_nth_less[of k] live_nth_less[of "Suc k"] by (auto simp: entry_ok_def)
  moreover have "covered e (syms s) (set (queue s')) k"
    unfolding covered_def using cov bs k s'(3) by (cases bs) auto
  ultimately show ?thesis using that[OF s'(1,2)] assms(4) s'(3,4) by auto
qed

text \<open>What a merge does to the other entries and to the pairs that stay.\<close>

lemma fresh_after_merge:
  assumes ch: "chain sy" and k: "Suc k < length (live sy)"
    and m: "merge_symbols sy (int (live sy ! k)) (int (live sy ! Suc k)) = Inr sy'"
    and q: "fresh e sy b i j q" "q \<noteq> k" "Suc q \<noteq> k" "q \<noteq> Suc k"
  shows "fresh e sy' b i j (if q < k then q else q - 1)"
proof -
  have "i < length sy" "j < length sy" "i \<noteq> live sy ! k" "i \<noteq> live sy ! Suc k" "j \<noteq> live sy ! k" "j \<noteq> live sy ! Suc k"
    using q k by (auto simp: fresh_def live_nth_less nth_eq_iff_index_eq)
  then have "seg sy' i = seg sy i" "seg sy' j = seg sy j" using merge_chainD(6)[OF ch k m] by auto
  moreover have "\<not> q < k \<Longrightarrow> Suc (Suc (q - 2)) = q" using q by linarith
  ultimately show ?thesis
    using q k by (auto simp: fresh_def merge_chainD(3)[OF ch k m] nth_append min_def not_less Suc_diff_Suc)
qed

lemma entry_after_merge:
  assumes ch: "chain sy" and k: "Suc k < length (live sy)" and ok: "entry_ok e sy b"
    and m: "merge_symbols sy (int (live sy ! k)) (int (live sy ! Suc k)) = Inr sy'"
  shows "entry_ok e sy' b"
proof -
  let ?l = "live sy ! k" and ?r = "live sy ! Suc k"
  note n = merge_chainD(5)[OF ch k m]
  have pos: "0 < s_n (sy ! ?l)" "0 < s_n (sy ! ?r)" and lr: "?l \<noteq> ?r" using k by (simp_all add: live_pos nth_eq_iff_index_eq)
  obtain i j where ij: "i < length sy" "j < length sy" "eleft b = int i" "eright b = int j"
    and d: "stale sy b i j \<or> (\<exists>q. fresh e sy b i j q)"
    using ok by (auto simp: entry_ok_def)
  have "stale sy' b i j \<or> (\<exists>q. fresh e sy' b i j q)"
  proof (cases "stale sy b i j")
    case True
    then show ?thesis using ij pos by (auto simp: stale_def n)
  next
    case False
    then obtain q where q: "fresh e sy b i j q" using d by blast
    have size: "s_n (sy ! i) + s_n (sy ! j) = esize b"
      using q fits_size[of b "seg sy i" "seg sy j"] ij ch by (auto simp: fresh_def length_seg)
    show ?thesis
    proof (cases "q = k \<or> Suc q = k \<or> q = Suc k")
      case True
      then show ?thesis using q k pos ij size lr by (auto simp: stale_def n fresh_def)
    next
      case False
      then show ?thesis using fresh_after_merge[OF ch k m q] by blast
    qed
  qed
  then show ?thesis using ij by (auto simp: entry_ok_def merge_chainD(1)[OF ch k m])
qed

lemma covered_after_merge:
  assumes ch: "chain sy" and k: "Suc k < length (live sy)" and cov: "\<And>q. covered e sy B q"
    and m: "merge_symbols sy (int (live sy ! k)) (int (live sy ! Suc k)) = Inr sy'"
    and q: "q \<noteq> k" "Suc q \<noteq> k" and B': "\<And>b. b \<in> B \<Longrightarrow> eleft b \<noteq> int (live sy ! k) \<Longrightarrow> b \<in> B'"
  shows "covered e sy' B' q"
  unfolding covered_def
proof (intro impI)
  note L = merge_chainD(3)[OF ch k m]
  assume q1: "Suc q < length (live sy')"
    and p: "prio e (seg sy' (live sy' ! q)) (seg sy' (live sy' ! Suc q)) \<noteq> None"
  let ?q = "if q < k then q else Suc q"
  have q': "Suc ?q < length (live sy)" "?q \<noteq> k" "Suc ?q \<noteq> k" "?q \<noteq> Suc k" using q q1 k by (auto simp: L)
  have nth: "live sy' ! q = live sy ! ?q" "live sy' ! Suc q = live sy ! Suc ?q"
    using q q1 k by (auto simp: L nth_merge_list)
  have "seg sy' (live sy ! ?q) = seg sy (live sy ! ?q)" "seg sy' (live sy ! Suc ?q) = seg sy (live sy ! Suc ?q)"
    using q' k by (intro merge_chainD(6)[OF ch k m]; auto simp: live_nth_less nth_eq_iff_index_eq)+
  then obtain b where b: "b \<in> B" "eleft b = int (live sy ! ?q)" "eright b = int (live sy ! Suc ?q)"
    "fresh e sy b (live sy ! ?q) (live sy ! Suc ?q) ?q"
    using cov[of ?q] p q' nth by (auto simp: covered_def)
  have "b \<in> B'" using b(1,2) q' k by (intro B') (auto simp: nth_eq_iff_index_eq)
  moreover have "fresh e sy' b (live sy ! ?q) (live sy ! Suc ?q) q"
    using fresh_after_merge[OF ch k m b(4) q'(2-4)] by (simp split: if_splits)
  ultimately show "\<exists>b \<in> B'. eleft b = int (live sy' ! q) \<and> eright b = int (live sy' ! Suc q) \<and>
      fresh e sy' b (live sy' ! q) (live sy' ! Suc q) q"
    using b(2,3) nth by auto
qed

text \<open>One round: an outdated entry is dropped, a current one is the best pair and is merged.\<close>

lemma skip_keeps:
  assumes "inv e s" "n < length (queue s)" "eleft (queue s ! n) = int i" "eright (queue s ! n) = int j"
    and "s_n (syms s ! i) = 0 \<or> s_n (syms s ! j) = 0 \<or> \<not> fits (queue s ! n) (seg (syms s) i) (seg (syms s) j)"
    and s0: "syms s0 = syms s" "queue s0 = remove_nth n (queue s)"
  shows "inv e s0"
proof -
  have "covered e (syms s) (set (remove_nth n (queue s))) k" for k
    unfolding covered_def
  proof (intro impI)
    let ?l = "live (syms s) ! k" and ?r = "live (syms s) ! Suc k"
    assume k: "Suc k < length (live (syms s))" and "prio e (seg (syms s) ?l) (seg (syms s) ?r) \<noteq> None"
    then obtain b where b: "b \<in> set (queue s)" "eleft b = int ?l" "eright b = int ?r" "fresh e (syms s) b ?l ?r k"
      using assms(1) by (auto simp: inv_def covered_def)
    have "b \<noteq> queue s ! n"
    proof
      assume "b = queue s ! n"
      then have "i = ?l" "j = ?r" using b assms(3,4) by auto
      then show False using assms(5) b \<open>b = queue s ! n\<close> k live_pos[of k "syms s"] live_pos[of "Suc k" "syms s"]
        by (auto simp: fresh_def)
    qed
    then show "\<exists>b \<in> set (remove_nth n (queue s)). eleft b = int ?l \<and> eright b = int ?r \<and> fresh e (syms s) b ?l ?r k"
      using in_remove_nth[OF b(1)] b by blast
  qed
  then show ?thesis using assms(1) set_remove_nth[of n "queue s"] by (auto simp: inv_def s0)
qed

lemma best_is_best:
  assumes "inv e s" "b \<in> set (queue s)" "fresh e (syms s) b i j q"
    and best: "\<And>b'. b' \<in> set (queue s) \<Longrightarrow> eprio b' < eprio b \<or> (eprio b' = eprio b \<and> int i \<le> eleft b')"
  shows "best_pair (prio e) (segs (syms s)) = Some (q, eprio b)"
proof (rule best_pairI)
  let ?L = "live (syms s)"
  show "Suc q < length (segs (syms s))" "prio e (segs (syms s) ! q) (segs (syms s) ! Suc q) = Some (eprio b)"
    using assms(3) by (auto simp: fresh_def segs_def)
  fix k p assume k: "Suc k < length (segs (syms s))" "prio e (segs (syms s) ! k) (segs (syms s) ! Suc k) = Some p"
  then obtain b' where b': "b' \<in> set (queue s)" "eleft b' = int (?L ! k)" "fresh e (syms s) b' (?L ! k) (?L ! Suc k) k"
    using assms(1) by (auto simp: inv_def covered_def segs_def)
  then have "eprio b' = p" using k by (simp add: fresh_def segs_def)
  moreover have "q \<le> k" if "i \<le> ?L ! k"
    using that assms(3) k live_less_iff[of k "syms s" q] by (simp add: fresh_def segs_def not_less[symmetric])
  ultimately show "p < eprio b \<or> (p = eprio b \<and> q \<le> k)" using best[OF b'(1)] b'(2) by auto
qed

lemma merge_round:
  assumes "good e" and I: "inv e s" and n: "n < length (queue s)" and el: "eleft (queue s ! n) = int i"
    and f: "fresh e (syms s) (queue s ! n) i j q"
    and s0: "syms s0 = syms s" "queue s0 = remove_nth n (queue s)"
    and r: "round e s = bind_res (merge_symbols (syms s) (int i) (int j)) (\<lambda>sy. bind_res (vec_get sy (int i)) (\<lambda>ls.
       bind_res (add e (s_prev ls) (int i) (with_syms sy s0)) (add e (int i) (s_next ls))))"
  obtains s' where "round e s = Inr s'" "inv e s'" "potential s' < potential s" "segs (syms s') = merge_at q (segs (syms s))"
proof -
  let ?L = "live (syms s)"
  have ch: "chain (syms s)" and q: "Suc q < length ?L" and ij: "i = ?L ! q" "j = ?L ! Suc q"
    using I f by (auto simp: inv_def fresh_def)
  obtain sy where m: "merge_symbols (syms s) (int (?L ! q)) (int (?L ! Suc q)) = Inr sy"
    by (rule merge_chain[OF ch q]) blast
  note D = merge_chainD[OF ch q m]
  have i: "live sy ! q = i" "q < length (live sy)" using q by (auto simp: D(3) ij nth_append)
  have i_len: "i < length sy" using live_nth_less[OF i(2)] i(1) by simp
  have links: "s_prev (sy ! i) = (if q = 0 then -1 else int (live sy ! (q - 1)))"
    "s_next (sy ! i) = (if Suc q < length (live sy) then int (live sy ! Suc q) else -1)"
    using D(2) i by (auto simp: chain_def)
  have okc: "ok_text (concat (segs sy))"
    unfolding D(4) using I q by (subst concat_merge_at) (simp_all add: inv_def segs_def)
  have ent: "\<forall>b \<in> set (queue s0). entry_ok e sy b"
    using I set_remove_nth[of n "queue s"] entry_after_merge[OF ch q _ m] by (auto simp: inv_def s0)
  let ?s0 = "with_syms sy s0"
  obtain s1 where s1: "add e (s_prev (sy ! i)) (int i) ?s0 = Inr s1" "syms s1 = sy" "set (queue s0) \<subseteq> set (queue s1)"
    "length (queue s1) \<le> Suc (length (queue s0))" "\<forall>b \<in> set (queue s1). entry_ok e sy b"
    "s_prev (sy ! i) \<noteq> -1 \<Longrightarrow> int i \<noteq> -1 \<Longrightarrow> covered e sy (set (queue s1)) (q - 1)"
    by (rule add_covers[of e ?s0 "s_prev (sy ! i)" "int i" "q - 1"]) (use assms(1) D(2) okc ent links i in auto)
  obtain s2 where s2: "add e (int i) (s_next (sy ! i)) s1 = Inr s2" "syms s2 = sy" "set (queue s1) \<subseteq> set (queue s2)"
    "length (queue s2) \<le> Suc (length (queue s1))" "\<forall>b \<in> set (queue s2). entry_ok e sy b"
    "int i \<noteq> -1 \<Longrightarrow> s_next (sy ! i) \<noteq> -1 \<Longrightarrow> covered e sy (set (queue s2)) q"
    by (rule add_covers[of e s1 "int i" "s_next (sy ! i)" q]) (use assms(1) D(2) okc links i s1 in auto)
  have "covered e sy (set (queue s2)) k" for k
  proof -
    consider "k \<noteq> q" "Suc k \<noteq> q" | "Suc k = q" | "k = q" by blast
    then show ?thesis
    proof cases
      case 1
      have cov0: "covered e sy (set (queue s0)) k"
        by (rule covered_after_merge[where B = "set (queue s)", OF ch q _ m 1]) (use I el ij in \<open>auto simp: inv_def s0 intro!: in_remove_nth\<close>)
      show ?thesis by (rule covered_mono[OF cov0]) (use s1(3) s2(3) in blast)
    next
      case 2
      then have "covered e sy (set (queue s1)) k" using s1(6) links(1) by auto
      then show ?thesis using s2(3) by (rule covered_mono)
    next
      case 3
      then show ?thesis using s2(6) links(2) by (cases "Suc q < length (live sy)") (auto simp: covered_def)
    qed
  qed
  moreover have "live sy ! 0 = 0" using I q by (cases "?L = []") (auto simp: inv_def D(3) nth_append)
  ultimately have "inv e s2" using s2 D(2) okc by (simp add: inv_def)
  moreover have "potential s2 < potential s"
    using s1(4) s2(2,4) q length_remove_nth[OF n] by (simp add: potential_def s0 D(3))
  moreover have "round e s = Inr s2"
    using i_len s1(1) s2(1) by (simp add: r m[folded ij])
  ultimately show ?thesis using that[of s2] s2(2) D(4) by simp
qed

lemma round_step:
  assumes "good e" and I: "inv e s" and "queue s \<noteq> []"
  obtains s' where "round e s = Inr s'" "inv e s'" "potential s' < potential s"
    "greedy_merge (prio e) (segs (syms s')) = greedy_merge (prio e) (segs (syms s))"
proof -
  have ch: "chain (syms s)" using I by (simp add: inv_def)
  have "\<exists>i < length (syms s). \<exists>j < length (syms s). eleft b = int i \<and> eright b = int j" if "b \<in> set (queue s)" for b
    using I that by (fastforce simp: inv_def entry_ok_def)
  from round_law[OF assms(1) ch assms(3) this] obtain n s0 i j where n: "n < length (queue s)"
    and s0: "syms s0 = syms s" "queue s0 = remove_nth n (queue s)"
    and e: "eleft (queue s ! n) = int i" "eright (queue s ! n) = int j"
    and best: "\<And>b. b \<in> set (queue s) \<Longrightarrow> eprio b < eprio (queue s ! n) \<or> (eprio b = eprio (queue s ! n) \<and> int i \<le> eleft b)"
    and r: "round e s = (if s_n (syms s ! i) = 0 \<or> s_n (syms s ! j) = 0 \<or> \<not> fits (queue s ! n) (seg (syms s) i) (seg (syms s) j) then Inr s0
        else bind_res (merge_symbols (syms s) (int i) (int j)) (\<lambda>sy. bind_res (vec_get sy (int i)) (\<lambda>ls.
             bind_res (add e (s_prev ls) (int i) (with_syms sy s0)) (add e (int i) (s_next ls)))))"
    by auto
  let ?b = "queue s ! n"
  show ?thesis
  proof (cases "s_n (syms s ! i) = 0 \<or> s_n (syms s ! j) = 0 \<or> \<not> fits ?b (seg (syms s) i) (seg (syms s) j)")
    case True
    have "inv e s0" by (rule skip_keeps[OF I n e True s0])
    moreover have "potential s0 < potential s" using length_remove_nth[OF n] by (simp add: potential_def s0)
    ultimately show ?thesis using that[of s0] r True s0(1) by simp
  next
    case False
    have mem: "?b \<in> set (queue s)" using n by simp
    have "entry_ok e (syms s) ?b" using I mem by (simp add: inv_def)
    then obtain q where "i < length (syms s)" "j < length (syms s)" "stale (syms s) ?b i j \<or> fresh e (syms s) ?b i j q"
      using e by (auto simp: entry_ok_def)
    then have f: "fresh e (syms s) ?b i j q"
      using False fits_size[of ?b "seg (syms s) i" "seg (syms s) j"] length_seg[OF ch] by (auto simp: stale_def)
    have bp: "best_pair (prio e) (segs (syms s)) = Some (q, eprio ?b)" by (rule best_is_best[OF I mem f best])
    obtain s' where "round e s = Inr s'" "inv e s'" "potential s' < potential s" "segs (syms s') = merge_at q (segs (syms s))"
      by (rule merge_round[OF assms(1) I n e(1) f s0]) (use r False in auto)
    then show ?thesis using that[of s'] bp by (simp add: greedy_merge.simps[of _ "segs (syms s)"])
  qed
qed

lemma rounds_greedy:
  assumes "good e" "inv e s" "potential s \<le> fuel"
  shows "\<exists>s'. while_res (\<lambda>s. queue s \<noteq> []) (round e) fuel s = Inr s' \<and> chain (syms s') \<and> (live (syms s') \<noteq> [] \<longrightarrow> live (syms s') ! 0 = 0) \<and>
      segs (syms s') = greedy_merge (prio e) (segs (syms s))"
  using assms(2,3)
proof (induction fuel arbitrary: s)
  case (0 s)
  then have "queue s = []" "segs (syms s) = []" by (auto simp: potential_def segs_def)
  then show ?case using 0 by (simp add: inv_def greedy_merge.simps)
next
  case (Suc fuel s)
  show ?case
  proof (cases "queue s = []")
    case True
    then have "covered e (syms s) {} k" for k using Suc.prems(1) by (simp add: inv_def)
    then have "best_pair (prio e) (segs (syms s)) = None"
      by (cases "best_pair (prio e) (segs (syms s))") (fastforce simp: covered_def segs_def dest: best_pair_Some)+
    then show ?thesis using True Suc.prems by (simp add: inv_def greedy_merge.simps)
  next
    case False
    obtain s' where "round e s = Inr s'" "inv e s'" "potential s' < potential s"
      "greedy_merge (prio e) (segs (syms s')) = greedy_merge (prio e) (segs (syms s))"
      using round_step[OF assms(1) Suc.prems(1) False] by metis
    then show ?thesis using Suc.IH[of s'] Suc.prems False by auto
  qed
qed

text \<open>The loop that seeds the queue.\<close>

lemma seed:
  assumes "good e" "chain (syms s)" "ok_text (concat (segs (syms s)))" "live (syms s) = [0..<length (syms s)]" "queue s = []"
  shows "m < length (syms s) \<Longrightarrow>
    \<exists>s'. fold_res (\<lambda>i. add e (int i - 1) (int i)) [1..<Suc m] s = Inr s' \<and> syms s' = syms s \<and> length (queue s') \<le> m \<and>
      (\<forall>b \<in> set (queue s'). entry_ok e (syms s) b) \<and> (\<forall>k < m. covered e (syms s) (set (queue s')) k)"
proof (induction m)
  case 0
  then show ?case using assms by simp
next
  case (Suc m)
  then obtain s' where s': "fold_res (\<lambda>i. add e (int i - 1) (int i)) [1..<Suc m] s = Inr s'" "syms s' = syms s"
    "length (queue s') \<le> m" "\<forall>b \<in> set (queue s'). entry_ok e (syms s) b" "\<forall>k < m. covered e (syms s) (set (queue s')) k"
    by auto
  obtain s2 where s2: "add e (int m) (int (Suc m)) s' = Inr s2" "syms s2 = syms s'" "set (queue s') \<subseteq> set (queue s2)"
    "length (queue s2) \<le> Suc (length (queue s'))" "\<forall>b \<in> set (queue s2). entry_ok e (syms s') b"
    "int m \<noteq> -1 \<Longrightarrow> int (Suc m) \<noteq> -1 \<Longrightarrow> covered e (syms s') (set (queue s2)) m"
    by (rule add_covers[of e s' "int m" "int (Suc m)" m]) (use assms s' Suc.prems in auto)
  have "covered e (syms s) (set (queue s2)) k" if "k < Suc m" for k
  proof (cases "k = m")
    case True
    then show ?thesis using s2(6) s'(2) by simp
  next
    case False
    then have "covered e (syms s) (set (queue s')) k" using that s'(5) by simp
    then show ?thesis using s2(3) by (rule covered_mono)
  qed
  moreover have "fold_res (\<lambda>i. add e (int i - 1) (int i)) [1..<Suc (Suc m)] s = Inr s2"
  proof -
    have "[1..<Suc (Suc m)] = [1..<Suc m] @ [Suc m]" by simp
    then show ?thesis using s2(1) by (simp only: fold_res_append s'(1)) simp
  qed
  ultimately show ?case using s'(2,3) s2(2,4,5) by (intro exI[of _ s2]) simp
qed

lemma session_greedy:
  assumes "good e" "chain (syms s)" "ok_text (concat (segs (syms s)))" "live (syms s) = [0..<length (syms s)]" "queue s = []"
  shows "\<exists>s1 s'. fold_res (\<lambda>i. add e (int i - 1) (int i)) [1..<length (syms s)] s = Inr s1 \<and>
     while_res (\<lambda>s. queue s \<noteq> []) (round e) (3 * length (syms s)) s1 = Inr s' \<and> chain (syms s') \<and> (live (syms s') \<noteq> [] \<longrightarrow> live (syms s') ! 0 = 0) \<and>
     segs (syms s') = greedy_merge (prio e) (segs (syms s))"
proof -
  let ?n = "length (syms s)"
  have "\<exists>s1. fold_res (\<lambda>i. add e (int i - 1) (int i)) [1..<?n] s = Inr s1 \<and> syms s1 = syms s \<and> length (queue s1) \<le> ?n \<and> inv e s1"
  proof (cases ?n)
    case 0
    then show ?thesis using assms by (auto simp: inv_def covered_def)
  next
    case (Suc m)
    then obtain s1 where "fold_res (\<lambda>i. add e (int i - 1) (int i)) [1..<Suc m] s = Inr s1" "syms s1 = syms s" "length (queue s1) \<le> m"
      "\<forall>b \<in> set (queue s1). entry_ok e (syms s) b" "\<forall>k < m. covered e (syms s) (set (queue s1)) k"
      using seed[OF assms, of m] by auto
    moreover have "covered e (syms s) B k" if "\<not> k < m" for B k using that assms(4) Suc by (simp add: covered_def)
    ultimately show ?thesis using assms(2-4) unfolding Suc inv_def by (intro exI[of _ s1]) (simp del: upt_Suc, blast)
  qed
  then obtain s1 where s1: "fold_res (\<lambda>i. add e (int i - 1) (int i)) [1..<?n] s = Inr s1" "syms s1 = syms s"
    "length (queue s1) \<le> ?n" "inv e s1" by blast
  then have "potential s1 \<le> 3 * ?n" using assms(4) by (simp add: potential_def)
  then show ?thesis using rounds_greedy[OF assms(1) s1(4)] s1 by auto
qed

end

section \<open>Walking the chain\<close>

lemma walk_links:
  assumes "\<And>k. k < length L \<Longrightarrow> L ! k < length sy \<and> s_next (sy ! (L ! k)) = (if Suc k < length L then int (L ! Suc k) else -1)"
    and "k < length L" "length L - k \<le> fuel"
  shows "walk_symbols sy f fuel (int (L ! k)) out = fold_res f (map (\<lambda>i. sy ! i) (drop k L)) out"
  using assms(2,3)
proof (induction fuel arbitrary: k out)
  case (Suc fuel)
  note next_k = assms(1)[OF Suc.prems(1)]
  have "walk_symbols sy f fuel (s_next (sy ! (L ! k))) = fold_res f (map (\<lambda>i. sy ! i) (drop (Suc k) L))"
  proof (cases "Suc k < length L")
    case True
    then show ?thesis using Suc.IH[of "Suc k"] Suc.prems by (auto simp: next_k)
  next
    case False
    then have "walk_symbols sy f fuel (s_next (sy ! (L ! k))) out = Inr out" for out by (cases fuel) (simp_all add: next_k)
    then show ?thesis using False by auto
  qed
  then show ?case using Suc.prems next_k by (simp flip: Cons_nth_drop_Suc)
qed simp

text \<open>The walk starts at symbol 0, which is never merged into another one.\<close>

lemma walk_chain:
  assumes "chain sy" "live sy \<noteq> []" "live sy ! 0 = 0" "length (live sy) \<le> fuel"
  shows "walk_symbols sy f fuel 0 out = fold_res f (map (\<lambda>i. sy ! i) (live sy)) out"
  using walk_links[of "live sy" sy 0 fuel f out] assms by (simp add: chain_def live_nth_less)

end
