(* ===== verification/Tok_Exact.thy ===== *)
theory Tok_Exact
  imports Tok_Session
begin

text \<open>
  SPM and BPE as instances of the merging session: what \<open>llm_tokenizer_spm_session::tokenize\<close> and
  \<open>llm_tokenizer_bpe_session::tokenize\<close> return is the reference's segmentation of the text, looked up in the vocabulary.
\<close>

lemma read_seg: "chain sy \<Longrightarrow> i < length sy \<Longrightarrow> read_str (s_text (sy ! i)) (s_n (sy ! i)) = Inr (seg sy i)"
  by (simp add: chain_def read_str_def seg_def)

lemma read_pair:
  assumes "chain sy" "Suc k < length (live sy)"
  shows "read_str (s_text (sy ! (live sy ! k))) (s_n (sy ! (live sy ! k)) + s_n (sy ! (live sy ! Suc k)))
       = Inr (seg sy (live sy ! k) @ seg sy (live sy ! Suc k))"
  using chain_text[OF assms] length_seg[OF assms(1), of "live sy ! k"] length_seg[OF assms(1), of "live sy ! Suc k"] assms(2)
  by (simp add: read_str_def live_nth_less)

section \<open>SPM\<close>

text \<open>Ids are \<open>int32_t\<close> and so is the size of the vocabulary.\<close>

definition vocab_int32 :: "'f llama_vocab \<Rightarrow> bool" where
  "vocab_int32 v \<longleftrightarrow> n_tokens v < 2 ^ 31 \<and> (\<forall>s t. token_to_id v s = Some t \<longrightarrow> - (2 ^ 31) \<le> t \<and> t < 2 ^ 31)"

definition spm_score :: "'f llama_vocab \<Rightarrow> bytes \<Rightarrow> 'f option" where
  "spm_score v s =
     (case token_to_id v s of
        None \<Rightarrow> None
      | Some t \<Rightarrow> if 0 \<le> t \<and> nat t < n_tokens v then Some (td_score (id_to_token v ! nat t)) else None)"

definition spm_env :: "'f::linorder llama_vocab \<times> 'f llm_bigram_spm pq \<Rightarrow> bool" where
  "spm_env = (\<lambda>(v, pick). v_type v = LLAMA_VOCAB_TYPE_SPM \<and> vocab_int32 v \<and> pq_ok spm_cmp pick)"

lemma try_add_bigram_pair:
  assumes "v_type v = LLAMA_VOCAB_TYPE_SPM" "vocab_int32 v" "chain (spm_symbols s)" "Suc k < length (live (spm_symbols s))"
  defines "i \<equiv> live (spm_symbols s) ! k" and "j \<equiv> live (spm_symbols s) ! Suc k"
  defines "text \<equiv> seg (spm_symbols s) i @ seg (spm_symbols s) j"
  shows "try_add_bigram v (int i) (int j) s =
    (case spm_score v text of
       None \<Rightarrow> Inr s
     | Some p \<Rightarrow> Inr (s\<lparr>spm_queue := spm_queue s @ [\<lparr>bs_left = int i, bs_right = int j, bs_score = p, bs_size = length text\<rparr>],
                        rev_merge := (rev_merge s)(text \<mapsto> (int i, int j))\<rparr>))"
proof -
  have ij: "i < length (spm_symbols s)" "j < length (spm_symbols s)" using assms(4) by (simp_all add: i_def j_def live_nth_less)
  have r: "read_str (s_text (spm_symbols s ! i)) (s_n (spm_symbols s ! i) + s_n (spm_symbols s ! j)) = Inr text"
    using read_pair[OF assms(3,4)] by (simp add: i_def j_def text_def)
  show ?thesis
  proof (cases "token_to_id v text")
    case None
    then show ?thesis using assms(1) ij r by (simp add: try_add_bigram_def spm_score_def)
  next
    case (Some t)
    then have t: "- (2 ^ 31) \<le> t" "t < 2 ^ 31" "n_tokens v < 2 ^ 31" using assms(2) by (auto simp: vocab_int32_def)
    have "t mod 2 ^ 32 = (if t < 0 then t + 2 ^ 32 else t)"
      using t mod_add_self2[of t "2 ^ 32"] mod_pos_pos_trivial[of "t + 2 ^ 32" "2 ^ 32"] by auto
    then have "t \<noteq> -1 \<and> \<not> t mod 2 ^ 32 \<ge> int (n_tokens v) \<longleftrightarrow> 0 \<le> t \<and> nat t < n_tokens v" using t by (auto split: if_splits)
    then show ?thesis using assms(1) ij r Some
      by (auto simp: try_add_bigram_def spm_score_def LLAMA_TOKEN_NULL_def get_token_data_def vec_at_def n_tokens_def)
  qed
qed

interpretation spm: merging_session spm_env "\<lambda>_. True" "\<lambda>(v, _) a b. spm_score v (a @ b)" spm_symbols spm_queue
  "\<lambda>sy s. s\<lparr>spm_symbols := sy\<rparr>" "\<lambda>(v, _). try_add_bigram v" "\<lambda>(v, pick). spm_round v pick"
  bs_left bs_right bs_score bs_size "\<lambda>b x y. length x + length y = bs_size b"
proof (unfold_locales, goal_cases)
  case (6 e s k i j)
  then show ?case
    by (cases e) (auto simp: spm_env_def try_add_bigram_pair split: option.split)
next
  case (7 e s)
  obtain v pick where e: "e = (v, pick)" by fastforce
  let ?q = "spm_queue s" and ?b = "spm_queue s ! pick (spm_queue s)"
  have pick: "pick ?q < length ?q" "\<And>b. b \<in> set ?q \<Longrightarrow> \<not> spm_cmp ?b b"
    using 7(1,3) by (auto simp: e spm_env_def pq_ok_def)
  then have "?b \<in> set ?q" by simp
  then obtain i j where ij: "i < length (spm_symbols s)" "j < length (spm_symbols s)" "bs_left ?b = int i" "bs_right ?b = int j"
    using 7(4) by blast
  have "bs_score b < bs_score ?b \<or> (bs_score b = bs_score ?b \<and> int i \<le> bs_left b)" if "b \<in> set ?q" for b
    using pick(2)[OF that] ij(3) by (auto simp: spm_cmp_def)
  then show ?case
    using pick(1) ij length_seg[OF 7(2)]
    by (intro exI[of _ "pick ?q"] exI[of _ "s\<lparr>spm_queue := remove_nth (pick ?q) ?q\<rparr>"] exI[of _ i] exI[of _ j])
       (simp add: e spm_round_def Let_def)
qed (auto simp: try_add_bigram_def)

section \<open>Loops that collect tokens\<close>

lemma fold_res_keeps:
  assumes "\<And>x s s'. P s \<Longrightarrow> f x s = Inr s' \<Longrightarrow> P s'"
  shows "P s \<Longrightarrow> fold_res f xs s = Inr s' \<Longrightarrow> P s'"
  by (induction xs arbitrary: s) (auto dest: assms)

lemma while_res_keeps:
  assumes "\<And>s s'. P s \<Longrightarrow> body s = Inr s' \<Longrightarrow> P s'"
  shows "P s \<Longrightarrow> while_res c body n s = Inr s' \<Longrightarrow> P s'"
  by (induction n arbitrary: s) (auto dest: assms split: if_splits)

lemma bind_res_assoc: "bind_res (bind_res m f) g = bind_res m (\<lambda>x. bind_res (f x) g)"
  by (cases m) auto

lemma fold_res_collect:
  "fold_res (\<lambda>x out. bind_res (g x) (\<lambda>ts. Inr (out @ ts))) xs out = bind_res (map_res g xs) (\<lambda>tss. Inr (out @ concat tss))"
  by (induction xs arbitrary: out) (simp_all add: bind_res_assoc)

lemma fold_res_collect1:
  "fold_res (\<lambda>x out. bind_res (g x) (\<lambda>t. Inr (out @ [t]))) xs out = bind_res (map_res g xs) (\<lambda>ts. Inr (out @ ts))"
  by (induction xs arbitrary: out) (simp_all add: bind_res_assoc)

lemma fold_res_collect_pure: "fold_res (\<lambda>x out. Inr (out @ g x)) xs out = Inr (out @ concat (map g xs))"
  by (induction xs arbitrary: out) simp_all

lemma fold_res_map: "fold_res f (map h xs) s = fold_res (\<lambda>x. f (h x)) xs s"
  by (induction xs arbitrary: s) (auto simp: bind_res_def split: sum.split)

lemma fold_res_cong_set: "(\<And>x s. x \<in> set xs \<Longrightarrow> f x s = g x s) \<Longrightarrow> fold_res f xs s = fold_res g xs s"
  by (induction xs arbitrary: s) (auto simp: bind_res_def split: sum.split)

lemma greedy_merge_rule:
  assumes stop: "\<And>xs. best_pair prio xs = None \<Longrightarrow> Q xs xs"
    and merge: "\<And>xs i p ys. Suc i < length xs \<Longrightarrow> prio (xs ! i) (xs ! Suc i) = Some p \<Longrightarrow> Q (merge_at i xs) ys \<Longrightarrow> Q xs ys"
  shows "Q xs (greedy_merge prio xs)"
proof (induction "length xs" arbitrary: xs rule: less_induct)
  case less
  show ?case
  proof (cases "best_pair prio xs")
    case None
    then show ?thesis using stop by (simp add: greedy_merge.simps)
  next
    case (Some ip)
    then obtain i p where ip: "best_pair prio xs = Some (i, p)" by (cases ip) auto
    note * = best_pair_Some[OF ip]
    have "Q (merge_at i xs) (greedy_merge prio (merge_at i xs))" using * length_merge_at[of i xs] by (intro less) simp
    then have "Q xs (greedy_merge prio (merge_at i xs))" using * merge by blast
    then show ?thesis using ip by (subst greedy_merge.simps) simp
  qed
qed

lemma concat_greedy_merge [simp]: "concat (greedy_merge prio xs) = concat xs"
  by (rule greedy_merge_rule[where Q = "\<lambda>xs ys. concat ys = concat xs"]) (simp_all add: concat_merge_at)

lemma length_greedy_merge: "length (greedy_merge prio xs) \<le> length xs"
  by (rule greedy_merge_rule[where Q = "\<lambda>xs ys. length ys \<le> length xs"]) (auto dest: length_merge_at)

section \<open>The result of SPM\<close>

text \<open>The tokens of a segment: the token of that text, or one token per byte.\<close>

definition spm_segment :: "'f llama_vocab \<Rightarrow> bytes \<Rightarrow> llama_token list res" where
  "spm_segment v s =
     (case token_to_id v s of
        Some t \<Rightarrow> if t = LLAMA_TOKEN_NULL then map_res (byte_to_token v) s else Inr [t]
      | None \<Rightarrow> map_res (byte_to_token v) s)"

text \<open>Everything that was ever queued is a token, so the recursion of \<open>resegment\<close> over remembered merges never happens.\<close>

definition keys_ok :: "'f llama_vocab \<Rightarrow> 'f spm_session \<Rightarrow> bool" where
  "keys_ok v s \<longleftrightarrow> (\<forall>x. rev_merge s x \<noteq> None \<longrightarrow> (\<exists>t. token_to_id v x = Some t \<and> t \<noteq> LLAMA_TOKEN_NULL))"

lemma try_add_keeps_keys:
  assumes "v_type v = LLAMA_VOCAB_TYPE_SPM" "keys_ok v s" "try_add_bigram v l r s = Inr s'"
  shows "keys_ok v s'"
  using assms by (auto simp: try_add_bigram_def keys_ok_def split: if_splits option.splits)

lemma spm_round_keeps_keys:
  assumes "v_type v = LLAMA_VOCAB_TYPE_SPM" "keys_ok v s" "spm_round v pick s = Inr s'"
  shows "keys_ok v s'"
proof -
  have eq: "keys_ok v (s\<lparr>spm_queue := q\<rparr>) = keys_ok v s" "keys_ok v (s\<lparr>spm_queue := q, spm_symbols := sy\<rparr>) = keys_ok v s" for q sy
    by (simp_all add: keys_ok_def)
  show ?thesis
    using assms(3) by (auto simp: spm_round_def Let_def eq assms(2) split: if_splits dest!: try_add_keeps_keys[OF assms(1), rotated])
qed

lemma resegment_direct:
  assumes "v_type v = LLAMA_VOCAB_TYPE_SPM" "keys_ok v s" "read_str (s_text symbol) (s_n symbol) = Inr x"
  shows "resegment v s (Suc n) symbol out = bind_res (spm_segment v x) (\<lambda>ts. Inr (out @ ts))"
proof (cases "\<exists>t. token_to_id v x = Some t \<and> t \<noteq> LLAMA_TOKEN_NULL")
  case True
  then show ?thesis using assms by (auto simp: spm_segment_def)
next
  case False
  then have "rev_merge s x = None" using assms(2) unfolding keys_ok_def by blast
  then show ?thesis using assms(1,3) False by (auto simp: spm_segment_def fold_res_collect1 split: option.splits)
qed

lemma spm_tokenize_exact:
  assumes "v_type v = LLAMA_VOCAB_TYPE_SPM" "vocab_int32 v" "pq_ok spm_cmp pick" "text \<noteq> []"
  shows "spm_tokenize v pick text output =
    bind_res (map_res (spm_segment v) (greedy_merge (\<lambda>a b. spm_score v (a @ b)) (utf8_chars text)))
      (\<lambda>tss. Inr (output @ concat tss))"
proof -
  let ?sy = "split_symbols text 0" and ?s = "\<lparr>spm_symbols = split_symbols text 0, spm_queue = [], rev_merge = Map.empty\<rparr>"
  obtain s1 s' where s1: "fold_res (\<lambda>i. try_add_bigram v (int i - 1) (int i)) [1..<length ?sy] ?s = Inr s1"
    and s': "while_res (\<lambda>s. spm_queue s \<noteq> []) (spm_round v pick) (3 * length ?sy) s1 = Inr s'" "chain (spm_symbols s')"
      "live (spm_symbols s') \<noteq> [] \<longrightarrow> live (spm_symbols s') ! 0 = 0"
      "segs (spm_symbols s') = greedy_merge (\<lambda>a b. spm_score v (a @ b)) (utf8_chars text)"
    using spm.session_greedy[of "(v, pick)" ?s] assms split_symbols_chain[of "text"] by (auto simp: spm_env_def)
  have "keys_ok v s1"
    by (rule fold_res_keeps[where P = "keys_ok v", OF _ _ s1]) (auto simp: keys_ok_def[of v ?s] intro: try_add_keeps_keys[OF assms(1)])
  then have keys: "keys_ok v s'"
    by (intro while_res_keeps[where P = "keys_ok v", OF _ _ s'(1)]) (rule spm_round_keeps_keys[OF assms(1)])
  let ?sy' = "spm_symbols s'"
  have ne: "live ?sy' \<noteq> []" using s'(4) assms(4) concat_greedy_merge[of _ "utf8_chars text"]
    by (metis concat.simps(1) concat_utf8_chars list.simps(8) segs_def)
  have len: "length (live ?sy') \<le> length ?sy"
    using length_greedy_merge[of _ "utf8_chars text"] s'(4) split_symbols_chain(4)[of "text"]
    by (metis length_map segs_def)
  have "walk_symbols ?sy' (resegment v s' (Suc (length text))) (length ?sy) 0 output =
      fold_res (\<lambda>i. resegment v s' (Suc (length text)) (?sy' ! i)) (live ?sy') output"
    using walk_chain[OF s'(2) ne _ len] s'(3) ne by (simp add: fold_res_map)
  also have "\<dots> = fold_res (\<lambda>i out. bind_res (spm_segment v (seg ?sy' i)) (\<lambda>ts. Inr (out @ ts))) (live ?sy') output"
    using resegment_direct[OF assms(1) keys read_seg[OF s'(2)]] live_less by (intro fold_res_cong_set) auto
  also have "\<dots> = bind_res (map_res (spm_segment v) (segs ?sy')) (\<lambda>tss. Inr (output @ concat tss))"
    unfolding segs_def using fold_res_collect[of "spm_segment v" "map (seg ?sy') (live ?sy')" "output"]
    by (simp add: fold_res_map)
  finally show ?thesis using s1 s'(1,4) by (simp add: spm_tokenize_def Let_def)
qed

text \<open>
  C15. \<open>llm_tokenizer_spm_session::tokenize\<close> on a non-empty text ends without leaving its arrays, whichever of
  equivalent entries the priority queue prefers, and appends exactly the tokens of the reference: cut the text into
  UTF-8 characters, merge the best-scored pair of neighbours (the leftmost among equals) until no pair is a token,
  look the segments up, and take byte tokens for a segment that is no token. It throws exactly when a byte token is missing.
\<close>

theorem spm_tokenize_greedy:
  assumes "v_type v = LLAMA_VOCAB_TYPE_SPM" "vocab_int32 v" "pq_ok spm_cmp pick" "text \<noteq> []"
  shows "spm_tokenize v pick text output =
    bind_res (map_res (spm_segment v) (greedy_merge (\<lambda>a b. spm_score v (a @ b)) (utf8_chars text)))
      (\<lambda>tss. Inr (output @ concat tss))"
  using assms by (rule spm_tokenize_exact)

section \<open>BPE\<close>

definition bpe_prio :: "'f llama_vocab \<Rightarrow> bytes \<Rightarrow> bytes \<Rightarrow> int option" where
  "bpe_prio v a b = (case bpe_ranks v (a, b) of None \<Rightarrow> None | Some r \<Rightarrow> if r < 0 then None else Some (- r))"

definition no_blanks :: "bytes \<Rightarrow> bool" where
  "no_blanks s \<longleftrightarrow> 32 \<notin> set s \<and> 10 \<notin> set s"

definition bpe_env :: "'f llama_vocab \<times> llm_bigram_bpe pq \<Rightarrow> bool" where
  "bpe_env = (\<lambda>(v, pick). v_type v = LLAMA_VOCAB_TYPE_BPE \<and> pq_ok bpe_cmp pick)"

lemma add_new_bigram_pair:
  assumes "chain (bpe_symbols s)" "i < length (bpe_symbols s)" "j < length (bpe_symbols s)"
    and "no_blanks (seg (bpe_symbols s) i)" "no_blanks (seg (bpe_symbols s) j)"
  shows "add_new_bigram v (int i) (int j) s =
    (case bpe_prio v (seg (bpe_symbols s) i) (seg (bpe_symbols s) j) of
       None \<Rightarrow> Inr s
     | Some p \<Rightarrow> Inr (s\<lparr>bpe_queue := bpe_queue s @ [\<lparr>bb_left = int i, bb_right = int j,
          bb_text = seg (bpe_symbols s) i @ seg (bpe_symbols s) j, bb_rank = - p,
          bb_size = length (seg (bpe_symbols s) i) + length (seg (bpe_symbols s) j)\<rparr>]\<rparr>))"
  using assms read_seg[OF assms(1)]
  by (auto simp: add_new_bigram_def sym_str_def find_bpe_rank_def no_blanks_def bpe_prio_def split: option.split)

interpretation bpe: merging_session bpe_env no_blanks "\<lambda>(v, _). bpe_prio v" bpe_symbols bpe_queue
  "\<lambda>sy s. s\<lparr>bpe_symbols := sy\<rparr>" "\<lambda>(v, _). add_new_bigram v" "\<lambda>(v, pick). bpe_round v pick"
  bb_left bb_right "\<lambda>b. - bb_rank b" "\<lambda>b. length (bb_text b)" "\<lambda>b x y. x @ y = bb_text b"
proof (unfold_locales, goal_cases)
  case (6 e s k i j)
  have "no_blanks (seg (bpe_symbols s) (live (bpe_symbols s) ! m))" if "m < length (live (bpe_symbols s))" for m
    using 6(3) that by (rule ok_seg[where ok_text = no_blanks, rotated]) (auto simp: no_blanks_def)
  then show ?case using 6 by (cases e) (auto simp: bpe_env_def add_new_bigram_pair live_nth_less split: option.split)
next
  case (7 e s)
  obtain v pick where e: "e = (v, pick)" by fastforce
  let ?q = "bpe_queue s" and ?b = "bpe_queue s ! pick (bpe_queue s)"
  have pick: "pick ?q < length ?q" "\<And>b. b \<in> set ?q \<Longrightarrow> \<not> bpe_cmp ?b b"
    using 7(1,3) by (auto simp: e bpe_env_def pq_ok_def)
  then have "?b \<in> set ?q" by simp
  then obtain i j where ij: "i < length (bpe_symbols s)" "j < length (bpe_symbols s)" "bb_left ?b = int i" "bb_right ?b = int j"
    using 7(4) by blast
  have "- bb_rank b < - bb_rank ?b \<or> (- bb_rank b = - bb_rank ?b \<and> int i \<le> bb_left b)" if "b \<in> set ?q" for b
    using pick(2)[OF that] ij(3) by (auto simp: bpe_cmp_def)
  then show ?case
    using pick(1) ij read_seg[OF 7(2)]
    by (intro exI[of _ "pick ?q"] exI[of _ "s\<lparr>bpe_queue := remove_nth (pick ?q) ?q\<rparr>"] exI[of _ i] exI[of _ j])
       (simp add: e bpe_round_def Let_def sym_str_def)
qed (auto simp: add_new_bigram_def no_blanks_def simp flip: length_append)

text \<open>The segments of a word and the tokens of a segment, where bytes without a token are dropped.\<close>

definition is_token :: "'f llama_vocab \<Rightarrow> bytes \<Rightarrow> bool" where
  "is_token v s = (case token_to_id v s of None \<Rightarrow> False | Some t \<Rightarrow> t \<noteq> LLAMA_TOKEN_NULL)"

lemma is_token_iff: "is_token v s \<longleftrightarrow> (\<exists>t. token_to_id v s = Some t \<and> t \<noteq> LLAMA_TOKEN_NULL)"
  by (simp add: is_token_def split: option.split)

definition bpe_split :: "'f llama_vocab \<Rightarrow> bytes \<Rightarrow> bytes list" where
  "bpe_split v word =
     (if word = [] then [] else if ignore_merges v \<and> is_token v word then [word]
      else greedy_merge (bpe_prio v) (utf8_chars word))"

definition bpe_segment :: "'f llama_vocab \<Rightarrow> bytes \<Rightarrow> llama_token list" where
  "bpe_segment v s =
     (if is_token v s then [the (token_to_id v s)]
      else concat (map (\<lambda>b. if is_token v [b] then [the (token_to_id v [b])] else []) s))"

lemma bpe_word_split:
  assumes "v_type v = LLAMA_VOCAB_TYPE_BPE" "pq_ok bpe_cmp pick" "no_blanks word"
  obtains sy where "bpe_word v pick word = Inr sy" "segs sy = bpe_split v word" "\<And>s. s \<in> set sy \<Longrightarrow> s_n s \<le> length (s_text s)"
proof -
  have tok: "text_to_token v word = Inr (if is_token v word then the (token_to_id v word) else LLAMA_TOKEN_NULL)"
    using assms(1) by (auto simp: is_token_iff split: option.split)
  have tok_NULL: "is_token v word \<Longrightarrow> the (token_to_id v word) \<noteq> LLAMA_TOKEN_NULL" by (auto simp: is_token_iff)
  show ?thesis
  proof (cases "ignore_merges v \<and> is_token v word")
    case True
    let ?sy = "[\<lparr>s_prev = -1, s_next = -1, s_text = word, s_n = length word\<rparr>]"
    have "bpe_word v pick word = Inr ?sy" using True tok tok_NULL by (simp add: bpe_word_def Let_def eval_nat_numeral)
    moreover have "segs ?sy = bpe_split v word" using True by (simp add: segs_def live_def seg_def bpe_split_def)
    ultimately show ?thesis by (rule that) simp
  next
    case False
    let ?sy = "split_symbols word 0" and ?s = "\<lparr>bpe_symbols = split_symbols word 0, bpe_queue = []\<rparr>"
    note ch = split_symbols_chain[of word]
    obtain s1 s' where s1: "fold_res (\<lambda>i. add_new_bigram v (int i - 1) (int i)) [1..<length ?sy] ?s = Inr s1"
      and s': "while_res (\<lambda>s. bpe_queue s \<noteq> []) (bpe_round v pick) (3 * length ?sy) s1 = Inr s'" "chain (bpe_symbols s')"
        "segs (bpe_symbols s') = greedy_merge (bpe_prio v) (utf8_chars word)"
      using bpe.session_greedy[of "(v, pick)" ?s] assms ch by (auto simp: bpe_env_def)
    have "bpe_word v pick word = Inr (bpe_symbols s')"
      using False tok tok_NULL s1 s'(1) by (auto simp: bpe_word_def Let_def)
    moreover have "segs (bpe_symbols s') = bpe_split v word"
      using False s'(3) by (auto simp: bpe_split_def greedy_merge.simps)
    ultimately show ?thesis by (rule that) (use s'(2) in \<open>auto simp: chain_def in_set_conv_nth\<close>)
  qed
qed

text \<open>The final list: its links follow its order.\<close>

definition final_ok :: "llm_symbol list \<times> int \<Rightarrow> bool" where
  "final_ok = (\<lambda>(F, p). p = int (length F) - 1 \<and>
     (\<forall>i < length F. 0 < s_n (F ! i) \<and> s_n (F ! i) \<le> length (s_text (F ! i)) \<and>
        s_next (F ! i) = (if Suc i < length F then int (Suc i) else -1)))"

definition sym_text :: "llm_symbol \<Rightarrow> bytes" where
  "sym_text s = take (s_n s) (s_text s)"

lemma append_symbol_step:
  assumes "final_ok (F, p)" "s_n s \<le> length (s_text s)"
  shows "final_ok (append_symbol s (F, p)) \<and>
    map sym_text (fst (append_symbol s (F, p))) = map sym_text F @ (if s_n s > 0 then [sym_text s] else [])"
proof (cases "s_n s > 0")
  case False
  then show ?thesis using assms by (simp add: append_symbol_def)
next
  case True
  define F' where "F' = (if p \<noteq> -1 then F[nat p := (F ! nat p)\<lparr>s_next := int (length F)\<rparr>] else F)"
  have p: "p = int (length F) - 1" using assms by (simp add: final_ok_def)
  have app: "append_symbol s (F, p) = (F' @ [s\<lparr>s_prev := p, s_next := -1\<rparr>], int (length F'))"
    using True by (simp add: append_symbol_def Let_def F'_def)
  have len: "length F' = length F" by (simp add: F'_def)
  have nth: "F' ! i = (if Suc i = length F then (F ! i)\<lparr>s_next := int (length F)\<rparr> else F ! i)" if "i < length F" for i
    using that p by (auto simp: F'_def nth_list_update)
  have "map sym_text F' = map sym_text F"
    by (rule nth_equalityI) (auto simp: nth sym_text_def len)
  moreover have "final_ok (F' @ [s\<lparr>s_prev := p, s_next := -1\<rparr>], int (length F'))"
    using assms True nth by (auto simp: final_ok_def nth_append less_Suc_eq len)
  ultimately show ?thesis using True by (simp add: app sym_text_def)
qed

lemma append_symbols:
  assumes "final_ok fin" "\<And>s. s \<in> set sy \<Longrightarrow> s_n s \<le> length (s_text s)"
  shows "final_ok (fold append_symbol sy fin) \<and> map sym_text (fst (fold append_symbol sy fin)) = map sym_text (fst fin) @ segs sy"
proof -
  have "segs sy = map sym_text (filter (\<lambda>s. s_n s > 0) sy)"
  proof -
    have "filter (\<lambda>s. s_n s > 0) sy = map (\<lambda>i. sy ! i) (live sy)"
      unfolding live_def by (subst map_nth[of sy, symmetric]) (simp only: filter_map comp_def)
    then show ?thesis by (simp add: segs_def seg_def[abs_def] sym_text_def[abs_def] comp_def)
  qed
  moreover have "final_ok (fold append_symbol sy fin) \<and>
      map sym_text (fst (fold append_symbol sy fin)) = map sym_text (fst fin) @ map sym_text (filter (\<lambda>s. s_n s > 0) sy)"
    using assms
  proof (induction sy arbitrary: fin)
    case (Cons s sy)
    obtain F p where fin: "fin = (F, p)" by fastforce
    have "final_ok (append_symbol s fin)" "map sym_text (fst (append_symbol s fin)) = map sym_text F @ (if s_n s > 0 then [sym_text s] else [])"
      using append_symbol_step[of F p s] Cons.prems by (auto simp: fin)
    then show ?case using Cons.IH[of "append_symbol s fin"] Cons.prems by (simp add: fin)
  qed simp
  ultimately show ?thesis by simp
qed

lemma bpe_emit_segment:
  assumes "v_type v = LLAMA_VOCAB_TYPE_BPE" "0 < s_n s" "s_n s \<le> length (s_text s)"
  shows "bpe_emit v s out = Inr (out @ bpe_segment v (sym_text s))"
proof -
  have "fold_res (\<lambda>b out. bind_res (text_to_token v [b]) (\<lambda>t. Inr (if t \<noteq> LLAMA_TOKEN_NULL then out @ [t] else out))) str out
      = Inr (out @ concat (map (\<lambda>b. if is_token v [b] then [the (token_to_id v [b])] else []) str))" for str
    using assms(1) by (induction str arbitrary: out) (auto simp: is_token_iff split: option.splits)
  then show ?thesis using assms
    by (auto simp: bpe_emit_def sym_str_def read_str_def sym_text_def bpe_segment_def is_token_iff split: option.splits)
qed

lemma bpe_tokenize_exact:
  assumes "v_type v = LLAMA_VOCAB_TYPE_BPE" "pq_ok bpe_cmp pick" "\<forall>word \<in> set words. no_blanks word"
  shows "bpe_tokenize v pick words output = Inr (output @ concat (map (bpe_segment v) (concat (map (bpe_split v) words))))"
proof -
  have words: "\<exists>F p. fold_res (\<lambda>word fin. bind_res (bpe_word v pick word) (\<lambda>syms. Inr (fold append_symbol syms fin))) words fin = Inr (F, p) \<and>
      final_ok (F, p) \<and> map sym_text F = map sym_text (fst fin) @ concat (map (bpe_split v) words)" if "final_ok fin" for fin
    using assms(3) that
  proof (induction words arbitrary: fin)
    case Nil
    then show ?case by (cases fin) auto
  next
    case (Cons w ws)
    obtain sy where sy: "bpe_word v pick w = Inr sy" "segs sy = bpe_split v w" "\<And>s. s \<in> set sy \<Longrightarrow> s_n s \<le> length (s_text s)"
      using bpe_word_split[OF assms(1,2), of w] Cons.prems(1) by auto
    then show ?case using Cons.IH[of "fold append_symbol sy fin"] Cons.prems append_symbols[OF Cons.prems(2) sy(3)] by simp
  qed
  obtain F p where F: "fold_res (\<lambda>word fin. bind_res (bpe_word v pick word) (\<lambda>syms. Inr (fold append_symbol syms fin))) words ([], -1) = Inr (F, p)"
    "final_ok (F, p)" "map sym_text F = concat (map (bpe_split v) words)"
    using words[of "([], -1)"] by (auto simp: final_ok_def)
  have "walk_symbols F (bpe_emit v) (length F) 0 output = Inr (output @ concat (map (bpe_segment v) (map sym_text F)))" if "F \<noteq> []"
  proof -
    have "walk_symbols F (bpe_emit v) (length F) 0 output = fold_res (bpe_emit v) F output"
      using walk_links[of "[0..<length F]" F 0 "length F" "bpe_emit v" "output"] F(2) that by (simp add: final_ok_def map_nth)
    also have "\<dots> = fold_res (\<lambda>s out. bind_res (Inr (bpe_segment v (sym_text s))) (\<lambda>ts. Inr (out @ ts))) F output"
      using F(2) by (intro fold_res_cong_set) (auto simp: final_ok_def in_set_conv_nth bpe_emit_segment[OF assms(1)])
    finally show ?thesis by (simp add: fold_res_collect_pure comp_def)
  qed
  then show ?thesis using F(1) F(3)[symmetric] by (simp add: bpe_tokenize_def)
qed

text \<open>
  C16. \<open>llm_tokenizer_bpe_session::tokenize\<close> on words without blanks (which the byte encoding of the words ensures) ends
  without a failing assertion or an access outside its arrays, whichever of equivalent entries the priority queue prefers,
  and appends the tokens of the reference: a word that is a token stays whole if the vocabulary says so; any other word is
  cut into characters and the pair of neighbours of lowest rank, the leftmost among equals, is merged until none has a rank.
\<close>

theorem bpe_tokenize_greedy:
  assumes "v_type v = LLAMA_VOCAB_TYPE_BPE" "pq_ok bpe_cmp pick" "\<forall>word \<in> set words. no_blanks word"
  shows "bpe_tokenize v pick words output = Inr (output @ concat (map (bpe_segment v) (concat (map (bpe_split v) words))))"
  using assms by (rule bpe_tokenize_exact)

section \<open>Concrete runs\<close>

text \<open>A queue that takes the first of the best entries.\<close>

definition first_top :: "('b \<Rightarrow> 'b \<Rightarrow> bool) \<Rightarrow> 'b pq" where
  "first_top cmp q = fold (\<lambda>i best. if cmp (q ! best) (q ! i) then i else best) [0..<length q] 0"

lemma pq_ok_first_top:
  assumes "transp cmp" "irreflp cmp"
  shows "pq_ok cmp (first_top cmp)"
proof -
  have "m \<le> length q \<Longrightarrow> q \<noteq> [] \<Longrightarrow>
     fold (\<lambda>i best. if cmp (q ! best) (q ! i) then i else best) [0..<m] 0 < length q \<and>
     (\<forall>i < m. \<not> cmp (q ! fold (\<lambda>i best. if cmp (q ! best) (q ! i) then i else best) [0..<m] 0) (q ! i))" for q m
    using assms by (induction m) (auto simp: less_Suc_eq irreflp_def dest: transpD)
  from this[OF order_refl] show ?thesis by (auto simp: pq_ok_def first_top_def in_set_conv_nth)
qed

lemma pq_ok_spm: "pq_ok spm_cmp (first_top spm_cmp)"
  by (rule pq_ok_first_top) (auto simp: spm_cmp_def transp_def irreflp_def)

lemma pq_ok_bpe: "pq_ok bpe_cmp (first_top bpe_cmp)"
  by (rule pq_ok_first_top) (auto simp: bpe_cmp_def transp_def irreflp_def)

text \<open>A vocabulary of the tokens \<^verbatim>\<open>a\<close>, \<^verbatim>\<open>b\<close>, \<^verbatim>\<open>ab\<close>, \<^verbatim>\<open>aba\<close> and the byte token of \<^verbatim>\<open>c\<close>.\<close>

definition ex_token :: "bytes \<Rightarrow> int \<Rightarrow> int token_data" where
  "ex_token s p = \<lparr>td_text = s, td_score = p, td_attr = 4\<rparr>"

definition ex_vocab :: "llama_vocab_type \<Rightarrow> int llama_vocab" where
  "ex_vocab ty = \<lparr>v_type = ty, v_max_token_len = 3, special_bos_id = 1, special_eos_id = 2, special_unk_id = 0,
     special_sep_id = -1, add_space_prefix = False, add_bos = False, add_eos = False, ignore_merges = False,
     clean_spaces = False, remove_extra_whitespaces = False, escape_whitespaces = True, treat_whitespace_as_suffix = False,
     token_to_id = map_of [([97], 0), ([98], 1), ([97, 98], 2), ([98, 97], 3), ([60, 48, 120, 54, 51, 62], 4)],
     id_to_token = [ex_token [97] (-1), ex_token [98] (-2), ex_token [97, 98] (-3), ex_token [98, 97] (-4),
        \<lparr>td_text = [60, 48, 120, 54, 51, 62], td_score = 0, td_attr = 32\<rparr>],
     cache_special_tokens = [], cache_token_to_piece = [],
     bpe_ranks = map_of [(([98], [97]), 0), (([97], [98]), 1)]\<rparr>"

lemma ex_vocab_int32: "vocab_int32 (ex_vocab ty)"
  by (auto simp: vocab_int32_def ex_vocab_def n_tokens_def split: if_splits)

theorem spm_tokenize_greedy_witness:
  "spm_tokenize (ex_vocab LLAMA_VOCAB_TYPE_SPM) (first_top spm_cmp) [97, 98, 97, 99] [] = Inr [2, 0, 4]"
proof -
  have "spm_tokenize (ex_vocab LLAMA_VOCAB_TYPE_SPM) (first_top spm_cmp) [97, 98, 97, 99] [] =
    bind_res (map_res (spm_segment (ex_vocab LLAMA_VOCAB_TYPE_SPM))
      (greedy_merge (\<lambda>a b. spm_score (ex_vocab LLAMA_VOCAB_TYPE_SPM) (a @ b)) (utf8_chars [97, 98, 97, 99])))
      (\<lambda>tss. Inr ([] @ concat tss))"
    by (rule spm_tokenize_greedy) (simp_all add: ex_vocab_int32 pq_ok_spm, simp add: ex_vocab_def)
  also have "\<dots> = Inr [2, 0, 4]" by code_simp
  finally show ?thesis .
qed

theorem bpe_tokenize_greedy_witness:
  "bpe_tokenize (ex_vocab LLAMA_VOCAB_TYPE_BPE) (first_top bpe_cmp) [[97, 98, 97], [97, 98]] [] = Inr [0, 3, 2]"
proof -
  have "bpe_tokenize (ex_vocab LLAMA_VOCAB_TYPE_BPE) (first_top bpe_cmp) [[97, 98, 97], [97, 98]] [] =
    Inr ([] @ concat (map (bpe_segment (ex_vocab LLAMA_VOCAB_TYPE_BPE))
      (concat (map (bpe_split (ex_vocab LLAMA_VOCAB_TYPE_BPE)) [[97, 98, 97], [97, 98]]))))"
    by (rule bpe_tokenize_greedy) (simp_all add: pq_ok_bpe no_blanks_def, simp add: ex_vocab_def)
  also have "\<dots> = Inr [0, 3, 2]" by code_simp
  finally show ?thesis .
qed

end
