(* ===== verification/Tok_Trie.thy ===== *)
theory Tok_Trie
  imports Tok_Exact "HOL-Library.AList"
begin

text \<open>
  The trie of \<open>src/llama-vocab.cpp\<close> and the RWKV tokenizer on it, which takes the longest token at each position.
  \<open>std::map\<close> from bytes to subtries is an association list; its values are what \<open>traverse\<close> finds.
\<close>

section \<open>The trie\<close>

datatype naive_trie = Trie (children: "(u8 \<times> naive_trie) list") (has_value: bool) (trie_value: int)

definition empty_trie :: naive_trie where
  "empty_trie = Trie [] False 0"

definition traverse :: "naive_trie \<Rightarrow> u8 \<Rightarrow> naive_trie option" where
  "traverse t c = map_of (children t) c"

fun trie_insert :: "bytes \<Rightarrow> int \<Rightarrow> naive_trie \<Rightarrow> naive_trie" where
  "trie_insert [] x t = Trie (children t) True x"
| "trie_insert (c # key) x t =
     (case map_of (children t) c of
        Some t' \<Rightarrow> Trie (AList.update c (trie_insert key x t') (children t)) (has_value t) (trie_value t)
      | None \<Rightarrow> Trie (AList.update c (trie_insert key x empty_trie) (children t)) (has_value t) (trie_value t))"

text \<open>\<open>get_longest_prefix\<close>: how far the trie follows the key, on the rest of the key from \<open>offset\<close> on.\<close>

fun get_longest_prefix :: "naive_trie \<Rightarrow> bytes \<Rightarrow> nat \<Rightarrow> nat" where
  "get_longest_prefix t [] offset = offset"
| "get_longest_prefix t (c # rest) offset =
     (case traverse t c of Some t' \<Rightarrow> get_longest_prefix t' rest (offset + 1) | None \<Rightarrow> offset)"

text \<open>The node at the end of a path, and the value stored for a key.\<close>

fun trie_node :: "naive_trie \<Rightarrow> bytes \<Rightarrow> naive_trie option" where
  "trie_node t [] = Some t"
| "trie_node t (c # key) = (case traverse t c of None \<Rightarrow> None | Some t' \<Rightarrow> trie_node t' key)"

definition trie_lookup :: "naive_trie \<Rightarrow> bytes \<Rightarrow> int option" where
  "trie_lookup t key =
     (case trie_node t key of None \<Rightarrow> None | Some n \<Rightarrow> if has_value n then Some (trie_value n) else None)"

lemma trie_lookup_simps [simp]:
  "trie_lookup t [] = (if has_value t then Some (trie_value t) else None)"
  "trie_lookup t (c # key) = (case traverse t c of None \<Rightarrow> None | Some t' \<Rightarrow> trie_lookup t' key)"
  by (simp_all add: trie_lookup_def split: option.split)

lemma traverse_insert:
  "traverse (trie_insert (c # key) x t) d =
     (if d = c then Some (trie_insert key x (case traverse t c of None \<Rightarrow> empty_trie | Some t' \<Rightarrow> t')) else traverse t d)"
  by (simp add: traverse_def update_conv' split: option.split)

lemma trie_lookup_empty [simp]: "trie_lookup empty_trie key = None"
  by (cases key) (simp_all add: empty_trie_def traverse_def)

lemma trie_node_empty [simp]: "trie_node empty_trie p = (if p = [] then Some empty_trie else None)"
  by (cases p) (simp_all add: empty_trie_def traverse_def)

lemma trie_lookup_insert: "trie_lookup (trie_insert key x t) k = (if k = key then Some x else trie_lookup t k)"
proof (induction key arbitrary: t k)
  case Nil
  then show ?case by (cases k) (simp_all add: traverse_def)
next
  case (Cons c key)
  show ?case
  proof (cases k)
    case Nil
    then show ?thesis by (simp split: option.split)
  next
    case (Cons d k')
    then show ?thesis by (auto simp: traverse_insert Cons.IH simp del: trie_insert.simps split: option.split)
  qed
qed

text \<open>A path of the trie is a prefix of a key: no subtrie is empty.\<close>

lemma trie_node_insert:
  "trie_node (trie_insert key x t) p \<noteq> None \<longleftrightarrow> trie_node t p \<noteq> None \<or> (\<exists>q. key = p @ q)"
proof (induction p arbitrary: key t)
  case (Cons c p)
  show ?case
  proof (cases key)
    case Nil
    then show ?thesis by (simp add: traverse_def)
  next
    case (Cons d key')
    then show ?thesis using Cons.IH[of key']
      by (auto simp: traverse_insert simp del: trie_insert.simps split: option.split if_splits)
  qed
qed simp

section \<open>RWKV\<close>

text \<open>\<open>llama_unescape_rwkv_token\<close>: the state is the output, \<open>escaping\<close>, \<open>hex_remaining\<close> and \<open>hex_acc\<close>. The comparison
  \<open>c >= 'a'\<close> is one of signed characters.\<close>

definition unescape_step :: "u8 \<Rightarrow> bytes \<times> bool \<times> u8 \<times> u8 \<Rightarrow> bytes \<times> bool \<times> u8 \<times> u8" where
  "unescape_step c = (\<lambda>(output, escaping, hex_remaining, hex_acc).
     if hex_remaining \<noteq> 0 then
       (let val = (if 97 \<le> c \<and> c < 128 then c - 97 + 10 else c - 48);
            hex_acc = push_bit 4 hex_acc + val;
            hex_remaining = hex_remaining - 1
        in if hex_remaining = 0 then (output @ [hex_acc], escaping, hex_remaining, 0)
           else (output, escaping, hex_remaining, hex_acc))
     else if escaping then
       (if c = 116 then (output @ [9], False, hex_remaining, hex_acc)
        else if c = 110 then (output @ [10], False, hex_remaining, hex_acc)
        else if c = 114 then (output @ [13], False, hex_remaining, hex_acc)
        else if c = 120 then (output, False, 2, hex_acc)
        else (output @ [c], False, hex_remaining, hex_acc))
     else if c = 92 then (output, True, hex_remaining, hex_acc)
     else (output @ [c], escaping, hex_remaining, hex_acc))"

definition llama_unescape_rwkv_token :: "bytes \<Rightarrow> bytes" where
  "llama_unescape_rwkv_token escaped = fst (fold unescape_step escaped ([], False, 0, 0))"

definition llm_tokenizer_rwkv :: "'f llama_vocab \<Rightarrow> naive_trie" where
  "llm_tokenizer_rwkv v =
     fold (\<lambda>i t. trie_insert (llama_unescape_rwkv_token (td_text (id_to_token v ! i))) (int i) t) [0..<n_tokens v] empty_trie"

text \<open>\<open>text[i]\<close> of a \<open>std::string\<close>: the character after the last one is 0, further ones do not exist.\<close>

definition char_at :: "bytes \<Rightarrow> nat \<Rightarrow> u8 res" where
  "char_at text i = (if i < length text then Inr (text ! i) else if i = length text then Inr 0 else Inl Undef)"

text \<open>The loop along the trie; it returns \<open>token_id\<close> and \<open>token_length\<close>, the position after the token.\<close>

function rwkv_scan :: "bytes \<Rightarrow> naive_trie \<Rightarrow> nat \<Rightarrow> int \<Rightarrow> nat \<Rightarrow> (int \<times> nat) res" where
  "rwkv_scan text node position token_id token_length =
     (let (token_id, token_length) = (if has_value node then (trie_value node, position + 1) else (token_id, token_length))
      in
       (case char_at text (position + 1) of
          Inl e \<Rightarrow> Inl e
        | Inr c \<Rightarrow>
           (case traverse node c of
              None \<Rightarrow> Inr (token_id, token_length)
            | Some node \<Rightarrow> rwkv_scan text node (position + 1) token_id token_length)))"
  by pat_completeness auto
termination
  by (relation "measure (\<lambda>(text, _, position, _). length text - position)") (auto simp: char_at_def split: if_splits)

declare rwkv_scan.simps [simp del]

text \<open>The tokenizer; the fuel bounds the number of rounds.\<close>

fun rwkv_loop :: "'f llama_vocab \<Rightarrow> naive_trie \<Rightarrow> bytes \<Rightarrow> nat \<Rightarrow> nat \<Rightarrow> llama_token list \<Rightarrow> llama_token list res" where
  "rwkv_loop v matcher text 0 position output = (if position < length text then Inl Diverge else Inr output)"
| "rwkv_loop v matcher text (Suc fuel) position output =
     (if position < length text then
        (case traverse matcher (text ! position) of
           None \<Rightarrow> rwkv_loop v matcher text fuel (position + 1) (output @ [special_unk_id v])
         | Some node \<Rightarrow>
             bind_res (rwkv_scan text node position 0 0) (\<lambda>(token_id, token_length).
               rwkv_loop v matcher text fuel token_length (output @ [token_id])))
      else Inr output)"

definition rwkv_tokenize :: "'f llama_vocab \<Rightarrow> naive_trie \<Rightarrow> bytes \<Rightarrow> llama_token list \<Rightarrow> llama_token list res" where
  "rwkv_tokenize v matcher text output = rwkv_loop v matcher text (length text) 0 output"

section \<open>The longest token at each position\<close>

definition longest_token :: "(bytes \<rightharpoonup> int) \<Rightarrow> bytes \<Rightarrow> nat option" where
  "longest_token D s = find (\<lambda>n. D (take n s) \<noteq> None) (rev [1..<Suc (length s)])"

lemma find_Some_mem: "find P xs = Some x \<Longrightarrow> x \<in> set xs \<and> P x"
  by (auto simp: find_Some_iff)

lemma longest_token_Some:
  "longest_token D s = Some n \<longleftrightarrow> 1 \<le> n \<and> n \<le> length s \<and> D (take n s) \<noteq> None \<and> (\<forall>m. n < m \<longrightarrow> m \<le> length s \<longrightarrow> D (take m s) = None)"
proof -
  have "find P (rev [1..<Suc L]) = Some n \<longleftrightarrow> 1 \<le> n \<and> n \<le> L \<and> P n \<and> (\<forall>m. n < m \<longrightarrow> m \<le> L \<longrightarrow> \<not> P m)" for P L
  proof (induction L)
    case (Suc L)
    have "rev [1..<Suc (Suc L)] = Suc L # rev [1..<Suc L]" by simp
    then have *: "find P (rev [1..<Suc (Suc L)]) = (if P (Suc L) then Some (Suc L) else find P (rev [1..<Suc L]))"
      by (simp only: find.simps)
    show ?case
    proof (cases "P (Suc L)")
      case True
      then have "Suc L = n \<longleftrightarrow> 1 \<le> n \<and> n \<le> Suc L \<and> P n \<and> (\<forall>m. n < m \<longrightarrow> m \<le> Suc L \<longrightarrow> \<not> P m)"
        by (metis le_eq_less_or_eq less_Suc_eq_le not_less One_nat_def Suc_le_mono zero_le)
      then show ?thesis unfolding * using True by simp
    next
      case False
      then show ?thesis unfolding * using Suc.IH by (auto simp: le_Suc_eq simp del: upt_Suc)
    qed
  qed simp
  then show ?thesis by (simp add: longest_token_def)
qed

lemma longest_token_None: "longest_token D s = None \<longleftrightarrow> (\<forall>m. 1 \<le> m \<longrightarrow> m \<le> length s \<longrightarrow> D (take m s) = None)"
  by (auto simp: longest_token_def find_None_iff)

function longest_match :: "(bytes \<rightharpoonup> int) \<Rightarrow> int \<Rightarrow> bytes \<Rightarrow> int list" where
  "longest_match D unk s =
     (if s = [] then []
      else (case longest_token D s of
              Some n \<Rightarrow> the (D (take n s)) # longest_match D unk (drop n s)
            | None \<Rightarrow> unk # longest_match D unk (tl s)))"
  by pat_completeness auto
termination
  by (relation "measure (\<lambda>(_, _, s). length s)") (auto simp: longest_token_Some)

declare longest_match.simps [simp del]

section \<open>RWKV takes the longest token\<close>

text \<open>What the tokenizer relies on: the first byte of every token is a token, and no token has a 0 after its
  first byte (the terminator of the string would continue the match).\<close>

definition first_bytes_ok :: "naive_trie \<Rightarrow> bool" where
  "first_bytes_ok t \<longleftrightarrow> (\<forall>b. traverse t b \<noteq> None \<longrightarrow> trie_lookup t [b] \<noteq> None)"

definition no_inner_nul :: "naive_trie \<Rightarrow> bool" where
  "no_inner_nul t \<longleftrightarrow> (\<forall>s. s \<noteq> [] \<longrightarrow> trie_node t (s @ [0]) = None)"

lemma trie_node_append: "trie_node t (a @ b) = (case trie_node t a of None \<Rightarrow> None | Some n \<Rightarrow> trie_node n b)"
  by (induction a arbitrary: t) (auto split: option.split)

lemma trie_lookup_node: "trie_node t a = Some n \<Longrightarrow> trie_lookup t a = (if has_value n then Some (trie_value n) else None)"
  by (simp add: trie_lookup_def)

lemma trie_lookup_no_path: "trie_node t a = None \<Longrightarrow> trie_lookup t (a @ b) = None"
  by (simp add: trie_lookup_def trie_node_append)

lemma find_append: "find P (xs @ ys) = (case find P xs of None \<Rightarrow> find P ys | Some x \<Rightarrow> Some x)"
  by (induction xs) auto

lemma rwkv_scan_longest:
  assumes "no_inner_nul t" and node: "trie_node t (take k rest) = Some node" and k: "1 \<le> k" "k \<le> length rest"
    and rest: "rest = drop p0 text" "p0 \<le> length text"
  shows "rwkv_scan text node (p0 + k - 1) tid tlen =
    Inr (case find (\<lambda>n. trie_lookup t (take n rest) \<noteq> None) (rev [k..<Suc (length rest)]) of
           Some n \<Rightarrow> (the (trie_lookup t (take n rest)), p0 + n) | None \<Rightarrow> (tid, tlen))"
  using node k
proof (induction "length rest - k" arbitrary: k node tid tlen)
  case 0
  then have kl: "k = length rest" by simp
  have "trie_node t (take k rest @ [0]) = None"
    using assms(1) "0.prems"(2) kl unfolding no_inner_nul_def by (cases "take k rest") auto
  then have tr: "traverse node 0 = None" using 0 by (simp add: trie_node_append split: option.splits)
  have "p0 + k - 1 + 1 = length text" using kl "0.prems"(2) rest by auto
  then have "char_at text (p0 + k - 1 + 1) = Inr 0" by (simp only: char_at_def) simp
  then show ?case using kl tr 0 trie_lookup_node[OF "0.prems"(1)]
    by (subst rwkv_scan.simps) auto
next
  case (Suc d)
  let ?P = "\<lambda>n. trie_lookup t (take n rest) \<noteq> None"
  have kl: "k < length rest" using Suc by simp
  then have up: "rev [k..<Suc (length rest)] = rev [Suc k..<Suc (length rest)] @ [k]" by (subst upt_conv_Cons) auto
  have tk: "take (Suc k) rest = take k rest @ [rest ! k]" using kl by (simp add: take_Suc_conv_app_nth)
  have c: "char_at text (p0 + k - 1 + 1) = Inr (rest ! k)" using kl Suc.prems rest by (auto simp: char_at_def)
  note val = trie_lookup_node[OF Suc.prems(1)]
  show ?case
  proof (cases "traverse node (rest ! k)")
    case None
    then have "trie_node t (take (Suc k) rest) = None" using Suc.prems(1) by (simp add: tk trie_node_append)
    then have "\<not> ?P n" if "k < n" for n
      using that trie_lookup_no_path[of t "take (Suc k) rest" "drop (Suc k) (take n rest)"]
      by (metis Suc_leI append_take_drop_id min_absorb1 take_take)
    then have "find ?P (rev [Suc k..<Suc (length rest)]) = None" by (auto simp: find_None_iff simp del: upt_Suc)
    then have "find ?P (rev [k..<Suc (length rest)]) = (if has_value node then Some k else None)"
      unfolding up find_append using val by simp
    then show ?thesis using None c val Suc.prems(2)
      by (subst rwkv_scan.simps) (simp del: upt_Suc)
  next
    case (Some node')
    let ?tl = "if has_value node then (trie_value node, p0 + k) else (tid, tlen)"
    have n': "trie_node t (take (Suc k) rest) = Some node'" using Suc.prems(1) Some by (simp add: tk trie_node_append)
    have "rwkv_scan text node (p0 + k - 1) tid tlen = rwkv_scan text node' (p0 + Suc k - 1) (fst ?tl) (snd ?tl)"
      using Some c Suc.prems(2) by (subst rwkv_scan.simps) (auto simp: Let_def)
    also have "\<dots> = Inr (case find ?P (rev [Suc k..<Suc (length rest)]) of
        Some n \<Rightarrow> (the (trie_lookup t (take n rest)), p0 + n) | None \<Rightarrow> (fst ?tl, snd ?tl))"
      using Suc.hyps n' kl by (intro Suc.hyps(1)) auto
    finally show ?thesis unfolding up find_append using val by (auto split: option.split simp del: upt_Suc)
  qed
qed

lemma rwkv_trie_longest_match:
  assumes "first_bytes_ok t" "no_inner_nul t"
  shows "rwkv_tokenize v t text output = Inr (output @ longest_match (trie_lookup t) (special_unk_id v) text)"
proof -
  let ?D = "trie_lookup t"
  have "p \<le> length text \<Longrightarrow> length text - p \<le> fuel \<Longrightarrow>
    rwkv_loop v t text fuel p out = Inr (out @ longest_match ?D (special_unk_id v) (drop p text))" for fuel p out
  proof (induction fuel arbitrary: p out)
    case 0
    then show ?case by (simp add: longest_match.simps)
  next
    case (Suc fuel)
    let ?rest = "drop p text"
    show ?case
    proof (cases "p < length text")
      case False
      then show ?thesis by (simp add: longest_match.simps)
    next
      case True
      then have ne: "?rest \<noteq> []" and hd: "take 1 ?rest = [text ! p]" by (simp_all add: take_Suc_conv_app_nth)
      show ?thesis
      proof (cases "traverse t (text ! p)")
        case None
        then have "trie_node t (take 1 ?rest) = None" by (simp add: hd del: One_nat_def)
        then have "?D (take m ?rest) = None" if "1 \<le> m" for m
          using that trie_lookup_no_path[of t "take 1 ?rest" "drop 1 (take m ?rest)"]
          by (metis append_take_drop_id min_absorb1 take_take)
        then have "longest_token ?D ?rest = None" by (simp add: longest_token_None)
        then show ?thesis using Suc True None ne by (subst longest_match.simps) (simp add: tl_drop drop_Suc)
      next
        case (Some node)
        then have n1: "trie_node t (take 1 ?rest) = Some node" by (simp add: hd del: One_nat_def)
        have "?D (take 1 ?rest) \<noteq> None" using assms(1) Some unfolding first_bytes_ok_def hd by blast
        then obtain n where n: "longest_token ?D ?rest = Some n"
          using True longest_token_None[of ?D ?rest] by (cases "longest_token ?D ?rest") auto
        then have "rwkv_scan text node p 0 0 = Inr (the (?D (take n ?rest)), p + n)"
          using rwkv_scan_longest[OF assms(2) n1 _ _ refl, of 0 0] True by (simp add: longest_token_def del: upt_Suc)
        moreover have "1 \<le> n" "n \<le> length ?rest" using n by (auto simp: longest_token_Some)
        ultimately show ?thesis using Suc.IH[of "p + n"] Suc.prems True Some ne n
          by (subst longest_match.simps) (simp add: add.commute)
      qed
    qed
  qed
  from this[of 0 "length text" "output"] show ?thesis by (simp add: rwkv_tokenize_def)
qed

text \<open>The tries that insertions build.\<close>

lemma trie_lookup_fold:
  "trie_lookup (fold (\<lambda>i. trie_insert (f i) (g i)) is t) k = (case map_of (rev (map (\<lambda>i. (f i, g i)) is)) k of Some x \<Rightarrow> Some x | None \<Rightarrow> trie_lookup t k)"
  by (induction "is" arbitrary: t) (auto simp: trie_lookup_insert map_add_def split: option.split)

lemma trie_node_fold:
  "trie_node (fold (\<lambda>i. trie_insert (f i) (g i)) is t) p \<noteq> None \<longleftrightarrow> trie_node t p \<noteq> None \<or> (\<exists>i \<in> set is. \<exists>q. f i = p @ q)"
proof (induction "is" arbitrary: t)
  case (Cons i "is")
  show ?case using Cons.IH[of "trie_insert (f i) (g i) t"] trie_node_insert[of "f i" "g i" t p] by (simp only: fold_Cons) auto
qed simp

definition rwkv_key :: "'f llama_vocab \<Rightarrow> nat \<Rightarrow> bytes" where
  "rwkv_key v i = llama_unescape_rwkv_token (td_text (id_to_token v ! i))"

definition rwkv_dict :: "'f llama_vocab \<Rightarrow> bytes \<rightharpoonup> int" where
  "rwkv_dict v = map_of (rev (map (\<lambda>i. (rwkv_key v i, int i)) [0..<n_tokens v]))"

definition rwkv_vocab_ok :: "'f llama_vocab \<Rightarrow> bool" where
  "rwkv_vocab_ok v \<longleftrightarrow> (\<forall>i < n_tokens v. rwkv_key v i \<noteq> [] \<longrightarrow>
     (\<exists>j < n_tokens v. rwkv_key v j = [hd (rwkv_key v i)]) \<and> 0 \<notin> set (tl (rwkv_key v i)))"

lemma rwkv_matcher_fold: "llm_tokenizer_rwkv v = fold (\<lambda>i. trie_insert (rwkv_key v i) (int i)) [0..<n_tokens v] empty_trie"
  by (simp add: llm_tokenizer_rwkv_def rwkv_key_def)

lemma rwkv_matcher_lookup: "trie_lookup (llm_tokenizer_rwkv v) = rwkv_dict v"
  by (rule ext) (simp add: rwkv_matcher_fold trie_lookup_fold rwkv_dict_def split: option.split)

lemma rwkv_matcher_node:
  "p \<noteq> [] \<Longrightarrow> trie_node (llm_tokenizer_rwkv v) p \<noteq> None \<longleftrightarrow> (\<exists>i < n_tokens v. \<exists>q. rwkv_key v i = p @ q)"
  unfolding rwkv_matcher_fold trie_node_fold by auto

lemma rwkv_dict_dom: "rwkv_dict v s \<noteq> None \<longleftrightarrow> (\<exists>i < n_tokens v. rwkv_key v i = s)"
  by (auto simp: rwkv_dict_def map_of_eq_None_iff image_iff)

lemma rwkv_matcher_ok:
  assumes "rwkv_vocab_ok v"
  shows "first_bytes_ok (llm_tokenizer_rwkv v)" "no_inner_nul (llm_tokenizer_rwkv v)"
proof -
  let ?t = "llm_tokenizer_rwkv v"
  have "trie_lookup ?t [b] \<noteq> None" if "traverse ?t b \<noteq> None" for b
  proof -
    have "trie_node ?t [b] \<noteq> None" using that by auto
    then obtain i q where "i < n_tokens v" "rwkv_key v i = [b] @ q" using rwkv_matcher_node[of "[b]" v] by auto
    then have "\<exists>j < n_tokens v. rwkv_key v j = [b]" using assms by (fastforce simp: rwkv_vocab_ok_def)
    then show ?thesis unfolding rwkv_matcher_lookup rwkv_dict_dom .
  qed
  then show "first_bytes_ok ?t" unfolding first_bytes_ok_def by blast
  have "trie_node ?t (s @ [0]) = None" if "s \<noteq> []" for s
  proof (rule ccontr)
    assume "trie_node ?t (s @ [0]) \<noteq> None"
    then obtain i q where "i < n_tokens v" "rwkv_key v i = (s @ [0]) @ q" using rwkv_matcher_node[of "s @ [0]" v] by auto
    then show False using assms that by (cases s) (auto simp: rwkv_vocab_ok_def)
  qed
  then show "no_inner_nul ?t" by (simp add: no_inner_nul_def)
qed

text \<open>
  C38. \<open>llm_tokenizer_rwkv_session::tokenize\<close> with the trie that its tokenizer builds ends and cuts the text into the longest
  tokens from left to right, with the unknown token for a byte that starts no token, provided that the first byte
  of every token is a token and no token has a 0 after its first byte.
\<close>

theorem rwkv_longest_match:
  assumes "rwkv_vocab_ok v"
  shows "rwkv_tokenize v (llm_tokenizer_rwkv v) text output = Inr (output @ longest_match (rwkv_dict v) (special_unk_id v) text)"
  using rwkv_trie_longest_match[OF rwkv_matcher_ok[OF assms], of v "text" "output"] by (simp add: rwkv_matcher_lookup)

text \<open>The tokens \<^verbatim>\<open>a\<close>, \<^verbatim>\<open>b\<close>, \<^verbatim>\<open>ab\<close>, \<^verbatim>\<open>abc\<close> and \<^verbatim>\<open>\x0a\<close>.\<close>

definition ex_rwkv :: "bytes list \<Rightarrow> int llama_vocab" where
  "ex_rwkv keys = (ex_vocab LLAMA_VOCAB_TYPE_RWKV)\<lparr>id_to_token := map (\<lambda>s. ex_token s 0) keys, special_unk_id := 99\<rparr>"

theorem rwkv_longest_match_witness:
  "rwkv_tokenize (ex_rwkv [[97], [98], [97, 98], [97, 98, 99], [92, 120, 48, 97]])
     (llm_tokenizer_rwkv (ex_rwkv [[97], [98], [97, 98], [97, 98, 99], [92, 120, 48, 97]])) [97, 98, 97, 98, 99, 100, 10] [] = Inr [2, 3, 99, 4]"
proof -
  let ?v = "ex_rwkv [[97], [98], [97, 98], [97, 98, 99], [92, 120, 48, 97]]"
  have ok: "rwkv_vocab_ok ?v" by code_simp
  have "[] @ longest_match (rwkv_dict ?v) (special_unk_id ?v) [97, 98, 97, 98, 99, 100, 10] = [2, 3, 99, 4]" by code_simp
  then show ?thesis using rwkv_longest_match[OF ok, of "[97, 98, 97, 98, 99, 100, 10]" "[]"] by simp
qed

text \<open>
  Without these conditions. When the trie knows a first byte but no token is found, \<open>token_length\<close> is still 0 and the
  position goes back to the start of the text: the loop never ends. When a token has an inner 0, the terminator
  of the text continues the match and the byte after it is read.
\<close>

lemma rwkv_stuck:
  "rwkv_loop v (trie_insert [97, 98] 0 empty_trie) [97] fuel 0 output = Inl Diverge"
proof (induction fuel arbitrary: "output")
  case (Suc fuel)
  have "rwkv_scan [97] (Trie [(98, Trie [] True 0)] False 0) 0 0 0 = Inr (0, 0)"
    by (subst rwkv_scan.simps) (simp add: char_at_def traverse_def)
  then show ?case using Suc by (simp add: traverse_def empty_trie_def)
qed simp

lemma rwkv_reads_past:
  "rwkv_tokenize v (trie_insert [97, 0, 98] 1 (trie_insert [97] 0 empty_trie)) [97] output = Inl Undef"
  by (simp add: rwkv_tokenize_def traverse_def empty_trie_def rwkv_scan.simps char_at_def)

end
