(* ===== verification/Tok_Wpm.thy ===== *)
theory Tok_Wpm
  imports Tok_Trie
begin

text \<open>
  The WPM tokenizer of \<open>src/llama-vocab.cpp\<close> with the functions of \<open>src/unicode.cpp\<close> it uses. The generated tables of
  \<open>unicode-data.cpp\<close> are a parameter: the flags of a code point, the lowercase mapping and the decompositions.
\<close>

section \<open>Unicode tables\<close>

record range_nfd =
  nfd_first :: u32
  nfd_last :: u32
  nfd_cpt :: u32

record unicode_data =
  ud_flags :: "u32 \<Rightarrow> 16 word"
  ud_lowercase :: "(u32 \<times> u32) list"
  ud_nfd :: "range_nfd list"

definition flag_separator :: "16 word \<Rightarrow> bool" where "flag_separator f \<longleftrightarrow> f AND 0x0008 \<noteq> 0"
definition flag_punctuation :: "16 word \<Rightarrow> bool" where "flag_punctuation f \<longleftrightarrow> f AND 0x0020 \<noteq> 0"
definition flag_symbol :: "16 word \<Rightarrow> bool" where "flag_symbol f \<longleftrightarrow> f AND 0x0040 \<noteq> 0"
definition flag_control :: "16 word \<Rightarrow> bool" where "flag_control f \<longleftrightarrow> f AND 0x0080 \<noteq> 0"
definition flag_whitespace :: "16 word \<Rightarrow> bool" where "flag_whitespace f \<longleftrightarrow> f AND 0x0100 \<noteq> 0"

text \<open>\<open>std::upper_bound\<close> and \<open>std::lower_bound\<close> on a sorted table: the number of entries before the bound.\<close>

definition normalize_nfd :: "unicode_data \<Rightarrow> u32 \<Rightarrow> u32 res" where
  "normalize_nfd ud cpt =
     (let k = length (takeWhile (\<lambda>r. \<not> cpt < nfd_first r) (ud_nfd ud))
      in if k = 0 then Inl Undef
         else (let it = ud_nfd ud ! (k - 1)
               in Inr (if nfd_first it \<le> cpt \<and> cpt \<le> nfd_last it then nfd_cpt it else cpt)))"

definition unicode_cpts_normalize_nfd :: "unicode_data \<Rightarrow> u32 list \<Rightarrow> u32 list res" where
  "unicode_cpts_normalize_nfd ud cpts = map_res (normalize_nfd ud) cpts"

definition unicode_tolower :: "unicode_data \<Rightarrow> u32 \<Rightarrow> u32" where
  "unicode_tolower ud cpt =
     (case dropWhile (\<lambda>p. fst p < cpt) (ud_lowercase ud) of
        [] \<Rightarrow> cpt
      | p # _ \<Rightarrow> if fst p = cpt then snd p else cpt)"

section \<open>The session\<close>

definition is_chinese_char :: "u32 \<Rightarrow> bool" where
  "is_chinese_char cpt \<longleftrightarrow>
     (0x04E00 \<le> cpt \<and> cpt \<le> 0x09FFF) \<or> (0x03400 \<le> cpt \<and> cpt \<le> 0x04DBF) \<or> (0x20000 \<le> cpt \<and> cpt \<le> 0x2A6DF) \<or>
     (0x2A700 \<le> cpt \<and> cpt \<le> 0x2B73F) \<or> (0x2B740 \<le> cpt \<and> cpt \<le> 0x2B81F) \<or> (0x2B920 \<le> cpt \<and> cpt \<le> 0x2CEAF) \<or>
     (0x0F900 \<le> cpt \<and> cpt \<le> 0x0FAFF) \<or> (0x2F800 \<le> cpt \<and> cpt \<le> 0x2FA1F)"

text \<open>\<open>words.back()\<close> of the word list, which is never empty during the loop.\<close>

definition finish_word :: "bytes list \<Rightarrow> bytes list" where
  "finish_word words = (if last words \<noteq> [] then words @ [[]] else words)"

text \<open>The assertion that separators count as white space, one of debug builds, is an abort here.\<close>

definition preprocess_cpt :: "unicode_data \<Rightarrow> u32 \<Rightarrow> bytes list \<Rightarrow> bytes list res" where
  "preprocess_cpt ud cpt words =
     (let flags = ud_flags ud cpt in
      if flag_whitespace flags then Inr (finish_word words)
      else
       bind_res (ggml_assert (\<not> flag_separator flags)) (\<lambda>_.
        if cpt = 0 \<or> cpt = 0xFFFD \<or> flag_control flags then Inr words
        else
         bind_res (unicode_cpt_to_utf8 (unicode_tolower ud cpt)) (\<lambda>s.
          if flag_punctuation flags \<or> (cpt < 0x7F \<and> flag_symbol flags) \<or> is_chinese_char cpt then
            Inr (butlast (finish_word words) @ [s] @ [[]])
          else Inr (butlast words @ [last words @ s]))))"

definition wpm_preprocess :: "unicode_data \<Rightarrow> bytes \<Rightarrow> bytes list res" where
  "wpm_preprocess ud text =
     bind_res (unicode_cpts_normalize_nfd ud (unicode_cpts_from_utf8 text)) (\<lambda>cpts_nfd.
     bind_res (fold_res (preprocess_cpt ud) cpts_nfd [[]]) (\<lambda>words.
       Inr (if last words = [] then butlast words else words)))"

text \<open>The loop over \<open>j\<close>, from the longest candidate down; the loop over \<open>i\<close>.\<close>

fun wpm_match :: "'f llama_vocab \<Rightarrow> bytes \<Rightarrow> nat \<Rightarrow> nat \<Rightarrow> (llama_token \<times> nat) option res" where
  "wpm_match v word1 i 0 = Inr None"
| "wpm_match v word1 i (Suc j) =
     (if Suc j > i then
        bind_res (text_to_token v (take (Suc j - i) (drop i word1))) (\<lambda>tid.
          if tid \<noteq> LLAMA_TOKEN_NULL then Inr (Some (tid, Suc j)) else wpm_match v word1 i j)
      else Inr None)"

lemma wpm_match_advances: "wpm_match v word1 i j = Inr (Some (tid, k)) \<Longrightarrow> i < k"
  by (induction j) (auto split: if_splits)

function wpm_word :: "'f llama_vocab \<Rightarrow> bytes \<Rightarrow> nat \<Rightarrow> llama_token list \<Rightarrow> llama_token list res" where
  "wpm_word v word1 i toks =
     (if i < length word1 then
        (case wpm_match v word1 i (nat (min (int (length word1)) (int i + v_max_token_len v + 1))) of
           Inl e \<Rightarrow> Inl e
         | Inr None \<Rightarrow> Inr []
         | Inr (Some (tid, j)) \<Rightarrow> wpm_word v word1 j (toks @ [tid]))
      else Inr toks)"
  by pat_completeness auto
termination
  by (relation "measure (\<lambda>(_, word1, i, _). length word1 - i)") (auto dest!: sym[of "Inr _"] dest: wpm_match_advances)

declare wpm_word.simps [simp del]

definition phantom_space :: bytes where
  "phantom_space = [0xe2, 0x96, 0x81]"

definition wpm_tokenize :: "unicode_data \<Rightarrow> 'f llama_vocab \<Rightarrow> bytes \<Rightarrow> llama_token list \<Rightarrow> llama_token list res" where
  "wpm_tokenize ud v text output =
     bind_res (wpm_preprocess ud text) (\<lambda>words.
       fold_res (\<lambda>word output.
         if word = [] then Inr output
         else
          bind_res (wpm_word v (phantom_space @ word) 0 []) (\<lambda>toks.
            Inr (output @ (if toks = [] then [special_unk_id v] else toks)))) words output)"

section \<open>What it computes\<close>

definition token_dict :: "'f llama_vocab \<Rightarrow> bytes \<rightharpoonup> int" where
  "token_dict v s = (if is_token v s then token_to_id v s else None)"

text \<open>Cutting a word into the longest tokens, which fails when no token starts at some point.\<close>

function longest_cut :: "(bytes \<rightharpoonup> int) \<Rightarrow> bytes \<Rightarrow> int list option" where
  "longest_cut D s =
     (if s = [] then Some []
      else (case longest_token D s of
              Some n \<Rightarrow> map_option ((#) (the (D (take n s)))) (longest_cut D (drop n s))
            | None \<Rightarrow> None))"
  by pat_completeness auto
termination
  by (relation "measure (\<lambda>(_, s). length s)") (auto simp: longest_token_Some)

declare longest_cut.simps [simp del]

lemma wpm_match_find:
  assumes "v_type v \<noteq> LLAMA_VOCAB_TYPE_NONE" "i < length word1" "j \<le> length word1"
  shows "wpm_match v word1 i j =
    Inr (map_option (\<lambda>n. (the (token_dict v (take n (drop i word1))), i + n))
           (find (\<lambda>n. token_dict v (take n (drop i word1)) \<noteq> None) (rev [1..<Suc (j - i)])))"
  using assms(3)
proof (induction j)
  case (Suc j)
  show ?case
  proof (cases "i < Suc j")
    case False
    then show ?thesis by simp
  next
    case True
    then have up: "rev [1..<Suc (Suc j - i)] = (Suc j - i) # rev [1..<Suc (j - i)]" by (simp add: Suc_diff_le)
    let ?s = "take (Suc j - i) (drop i word1)"
    have "text_to_token v ?s = Inr (if is_token v ?s then the (token_dict v ?s) else LLAMA_TOKEN_NULL)"
      using assms(1) by (auto simp: is_token_iff token_dict_def split: option.split)
    moreover have "is_token v ?s \<longleftrightarrow> token_dict v ?s \<noteq> None" "is_token v ?s \<Longrightarrow> the (token_dict v ?s) \<noteq> LLAMA_TOKEN_NULL"
      by (auto simp: token_dict_def is_token_iff)
    ultimately show ?thesis unfolding up using True Suc by (simp del: upt_Suc text_to_token_simp)
  qed
qed simp

lemma find_down:
  "M \<le> L \<Longrightarrow> (\<And>m. M < m \<Longrightarrow> m \<le> L \<Longrightarrow> \<not> P m) \<Longrightarrow> find P (rev [1..<Suc L]) = find P (rev [1..<Suc M])"
proof (induction L)
  case (Suc L)
  show ?case
  proof (cases "M = Suc L")
    case False
    then have "\<not> P (Suc L)" "M \<le> L" using Suc.prems by auto
    moreover have "rev [1..<Suc (Suc L)] = Suc L # rev [1..<Suc L]" by simp
    ultimately show ?thesis using Suc by (simp del: upt_Suc)
  qed simp
qed simp

text \<open>No token is longer than the bound that loading computes.\<close>

definition max_len_ok :: "'f llama_vocab \<Rightarrow> bool" where
  "max_len_ok v \<longleftrightarrow> (\<forall>s. is_token v s \<longrightarrow> int (length s) \<le> v_max_token_len v + 1)"

lemma wpm_word_cut:
  assumes v: "v_type v \<noteq> LLAMA_VOCAB_TYPE_NONE" "max_len_ok v" "0 \<le> v_max_token_len v"
  shows "i \<le> length w \<Longrightarrow> wpm_word v w i toks = Inr (case longest_cut (token_dict v) (drop i w) of None \<Rightarrow> [] | Some ts \<Rightarrow> toks @ ts)"
proof (induction "length w - i" arbitrary: i toks rule: less_induct)
  case less
  show ?case
  proof (cases "i < length w")
    case False
    then show ?thesis by (simp add: wpm_word.simps longest_cut.simps)
  next
    case True
    let ?s = "drop i w" and ?D = "token_dict v"
    let ?j = "nat (min (int (length w)) (int i + v_max_token_len v + 1))"
    have j: "?j \<le> length w" "?j - i \<le> length ?s" "i < ?j" using v(3) True by auto
    have "?D (take m ?s) = None" if "?j - i < m" "m \<le> length ?s" for m
    proof (rule ccontr)
      assume "?D (take m ?s) \<noteq> None"
      then have "int (length (take m ?s)) \<le> v_max_token_len v + 1" using v(2) by (auto simp: max_len_ok_def token_dict_def split: if_splits)
      then show False using that True by (auto simp: min_def split: if_splits)
    qed
    then have "find (\<lambda>n. ?D (take n ?s) \<noteq> None) (rev [1..<Suc (length ?s)]) = find (\<lambda>n. ?D (take n ?s) \<noteq> None) (rev [1..<Suc (?j - i)])"
      using j(2) by (intro find_down) auto
    then have m: "wpm_match v w i ?j = Inr (map_option (\<lambda>n. (the (?D (take n ?s)), i + n)) (longest_token ?D ?s))"
      using wpm_match_find[OF v(1) True j(1)] by (simp add: longest_token_def)
    show ?thesis
    proof (cases "longest_token ?D ?s")
      case None
      then show ?thesis using True m by (subst wpm_word.simps, subst longest_cut.simps) simp
    next
      case (Some n)
      then have n: "1 \<le> n" "n \<le> length ?s" by (auto simp: longest_token_Some)
      have "wpm_word v w (i + n) (toks @ [the (?D (take n ?s))]) =
          Inr (case longest_cut ?D (drop (i + n) w) of None \<Rightarrow> [] | Some ts \<Rightarrow> (toks @ [the (?D (take n ?s))]) @ ts)"
        using n True by (intro less) auto
      then show ?thesis using True m Some
        by (subst wpm_word.simps, subst longest_cut.simps) (simp add: add.commute split: option.split)
    qed
  qed
qed

text \<open>
  C39. \<open>llm_tokenizer_wpm_session::tokenize\<close>: each word of the normalised text, with a phantom space in front, is cut from left to
  right into the longest tokens, or becomes the unknown token when that fails at some point; nothing of a failed word is kept.
  The bound on the token length that loading computes loses no match.
\<close>

theorem wpm_longest_cut:
  assumes "v_type v = LLAMA_VOCAB_TYPE_WPM" "max_len_ok v" "0 \<le> v_max_token_len v"
  shows "wpm_tokenize ud v text output =
    bind_res (wpm_preprocess ud text) (\<lambda>words. Inr (output @ concat (map (\<lambda>word.
      case longest_cut (token_dict v) (phantom_space @ word) of Some ts \<Rightarrow> ts | None \<Rightarrow> [special_unk_id v]) (filter (\<lambda>w. w \<noteq> []) words))))"
proof -
  let ?t = "\<lambda>word. case longest_cut (token_dict v) (phantom_space @ word) of Some ts \<Rightarrow> ts | None \<Rightarrow> [special_unk_id v]"
  have ne: "longest_cut (token_dict v) (phantom_space @ word) \<noteq> Some []" for word
    by (subst longest_cut.simps) (auto simp: phantom_space_def split: option.split)
  have word: "bind_res (wpm_word v (phantom_space @ word) 0 []) (\<lambda>toks. Inr (out @ (if toks = [] then [special_unk_id v] else toks))) = Inr (out @ ?t word)" for word out
    using wpm_word_cut[of v 0 "phantom_space @ word" "[]"] assms ne[of word] by (auto split: option.split)
  have "fold_res (\<lambda>word out. if word = [] then Inr out else
      bind_res (wpm_word v (phantom_space @ word) 0 []) (\<lambda>toks. Inr (out @ (if toks = [] then [special_unk_id v] else toks)))) words out
    = Inr (out @ concat (map ?t (filter (\<lambda>w. w \<noteq> []) words)))" for words out
    by (induction words arbitrary: out) (simp_all add: word)
  then show ?thesis by (simp add: wpm_tokenize_def)
qed

definition ex_unicode :: unicode_data where
  "ex_unicode = \<lparr>ud_flags = (\<lambda>c. if c = 32 then 0x0100 else if c = 46 then 0x0020 else 0x0004), ud_lowercase = [(65, 97)],
     ud_nfd = [\<lparr>nfd_first = 0, nfd_last = 0, nfd_cpt = 0\<rparr>, \<lparr>nfd_first = 0xC0, nfd_last = 0xC5, nfd_cpt = 0x41\<rparr>]\<rparr>"

definition ex_wpm :: "int llama_vocab" where
  "ex_wpm = (ex_vocab LLAMA_VOCAB_TYPE_WPM)\<lparr>v_max_token_len := 4, special_unk_id := 99,
     token_to_id := map_of [(phantom_space @ [97], 0), ([98], 1), (phantom_space @ [46], 2)]\<rparr>"

text \<open>The text \<^verbatim>\<open>Ab.\<close>, then A with a grave accent, then two words that are no tokens.\<close>

theorem wpm_longest_cut_witness:
  "wpm_tokenize ex_unicode ex_wpm ([65, 98, 46, 32] @ [0xC3, 0x80] @ [32, 98, 32, 97, 99]) [] = Inr [0, 1, 2, 0, 99, 99]"
proof -
  have "max_len_ok ex_wpm"
    by (auto simp: max_len_ok_def is_token_iff ex_wpm_def phantom_space_def split: if_splits)
  moreover have "v_type ex_wpm = LLAMA_VOCAB_TYPE_WPM" "0 \<le> v_max_token_len ex_wpm" by (simp_all add: ex_wpm_def ex_vocab_def)
  moreover have "bind_res (wpm_preprocess ex_unicode ([65, 98, 46, 32] @ [0xC3, 0x80] @ [32, 98, 32, 97, 99])) (\<lambda>words. Inr ([] @ concat (map (\<lambda>word.
      case longest_cut (token_dict ex_wpm) (phantom_space @ word) of Some ts \<Rightarrow> ts | None \<Rightarrow> [special_unk_id ex_wpm]) (filter (\<lambda>w. w \<noteq> []) words))))
    = Inr [0, 1, 2, 0, 99, 99]" by code_simp
  ultimately show ?thesis using wpm_longest_cut[of ex_wpm ex_unicode "[65, 98, 46, 32] @ [0xC3, 0x80] @ [32, 98, 32, 97, 99]" "[]"] by simp
qed

text \<open>
  Input that is not UTF-8 is meant to be replaced and never to throw, but the decoder also accepts four-byte sequences
  above the last code point, which the encoder refuses: the exception leaves the tokenizer.
\<close>

lemma wpm_throws_on_invalid_text:
  "wpm_tokenize ex_unicode v [0xF7, 0xBF, 0xBF, 0xBF] output = Inl (Throw ''invalid codepoint'')"
proof -
  have "wpm_preprocess ex_unicode [0xF7, 0xBF, 0xBF, 0xBF] = Inl (Throw ''invalid codepoint'')" by code_simp
  then show ?thesis by (simp add: wpm_tokenize_def)
qed

end
