(* ===== verification/Tok_Ugm.thy ===== *)
theory Tok_Ugm
  imports Tok_Wpm
begin

text \<open>
  The UGM (unigram) tokenizer of \<open>src/llama-vocab.cpp\<close>: normalisation of the text with a compressed double array and a
  trie of user-defined tokens, then the search for the best-scored sequence of tokens.

  Floating-point numbers are a parameter: \<open>'d\<close> are the doubles, with the double addition, the conversion to float and the
  float constants the code uses.
\<close>

section \<open>Floating point\<close>

record 'd float_ops =
  fo_plus :: "'d \<Rightarrow> 'd \<Rightarrow> 'd"
  fo_round :: "'d \<Rightarrow> 'd"
  fo_minus10 :: "'d \<Rightarrow> 'd"
  fo_zero :: 'd
  fo_max :: 'd
  fo_lowest :: 'd

section \<open>The tokenizer's tables\<close>

record 'd llm_tokenizer_ugm =
  prefix_replacements :: bytes
  xcda_array :: "u32 list"
  user_defined_token_matcher :: naive_trie
  unknown_token_score :: 'd
  token_matcher :: naive_trie

definition le_u32 :: "bytes \<Rightarrow> nat \<Rightarrow> u32" where
  "le_u32 bs i = ucast (bs ! i) OR push_bit 8 (ucast (bs ! (i + 1))) OR push_bit 16 (ucast (bs ! (i + 2)))
     OR push_bit 24 (ucast (bs ! (i + 3)))"

text \<open>The blob: its size, the array, the replacement strings.\<close>

definition parse_charsmap :: "bytes \<Rightarrow> (u32 list \<times> bytes) res" where
  "parse_charsmap precompiled_charsmap =
     (if precompiled_charsmap = [] then Inr ([], [])
      else if length precompiled_charsmap < 4 then Inl Undef
      else
       (let xcda_blob_size = unat (le_u32 precompiled_charsmap 0) in
        if xcda_blob_size + 4 \<ge> length precompiled_charsmap
        then Inl (Throw ''Index out of array bounds in precompiled charsmap!'')
        else Inr (map (\<lambda>i. le_u32 precompiled_charsmap (4 + 4 * i)) [0..<xcda_blob_size div 4],
                  drop (4 + xcda_blob_size) precompiled_charsmap)))"

text \<open>One token of the vocabulary: the least score of normal tokens and the two tries.\<close>

definition ugm_add_token :: "'d::linorder llama_vocab \<Rightarrow> nat \<Rightarrow> 'd \<times> naive_trie \<times> naive_trie \<Rightarrow> ('d \<times> naive_trie \<times> naive_trie) res" where
  "ugm_add_token v i = (\<lambda>(min_score, tokens, user_defined).
     bind_res (get_token_data v (int i)) (\<lambda>token_data.
     bind_res (is_normal v (int i)) (\<lambda>normal.
     bind_res (is_user_defined v (int i)) (\<lambda>user.
     bind_res (is_unused v (int i)) (\<lambda>unused.
       Inr (if normal then min min_score (td_score token_data) else min_score,
            if normal \<or> user \<or> unused then trie_insert (td_text token_data) (int i) tokens else tokens,
            if user then trie_insert (td_text token_data) 0 user_defined else user_defined))))))"

definition make_tokenizer_ugm :: "'d::linorder float_ops \<Rightarrow> 'd llama_vocab \<Rightarrow> bytes \<Rightarrow> 'd llm_tokenizer_ugm res" where
  "make_tokenizer_ugm fo v precompiled_charsmap =
     bind_res (parse_charsmap precompiled_charsmap) (\<lambda>(xcda, repl).
     bind_res (fold_res (ugm_add_token v) [0..<n_tokens v] (fo_max fo, empty_trie, empty_trie)) (\<lambda>(min_score, tokens, user).
       Inr \<lparr>prefix_replacements = repl, xcda_array = xcda, user_defined_token_matcher = user,
            unknown_token_score = fo_minus10 fo min_score, token_matcher = tokens\<rparr>))"

section \<open>Normalisation\<close>

text \<open>\<open>xcda_array_view\<close>. The check of the index lets the first one past the array through.\<close>

definition xcda_node :: "u32 list \<Rightarrow> u32 \<Rightarrow> u32 res" where
  "xcda_node xcda index =
     (if unat index > length xcda then Inl (Throw ''Index out of array bounds in XCDA array!'')
      else if unat index = length xcda then Inl Undef
      else Inr (xcda ! unat index))"

definition xcda_base :: "u32 \<Rightarrow> u32" where
  "xcda_base packed_node = push_bit (unat (drop_bit 6 (packed_node AND push_bit 9 1))) (drop_bit 10 packed_node)"

definition xcda_lcheck :: "u32 \<Rightarrow> u32" where
  "xcda_lcheck packed_node = packed_node AND (push_bit 31 1 OR 0xff)"

definition xcda_leaf :: "u32 \<Rightarrow> bool" where
  "xcda_leaf packed_node \<longleftrightarrow> drop_bit 8 packed_node AND 1 \<noteq> 0"

definition xcda_value :: "u32 \<Rightarrow> u32" where
  "xcda_value packed_node = packed_node AND (push_bit 31 1 - 1)"

text \<open>The walk over the double array along the input: the longest match so far and its replacement.\<close>

fun xcda_walk :: "u32 list \<Rightarrow> bytes \<Rightarrow> nat \<Rightarrow> u32 \<Rightarrow> nat \<times> nat \<Rightarrow> (nat \<times> nat) res" where
  "xcda_walk xcda [] k node_index longest = Inr longest"
| "xcda_walk xcda (c # rest) k node_index longest =
     (if c = 0 then Inr longest
      else
       (let node_index = node_index XOR ucast c in
        bind_res (xcda_node xcda node_index) (\<lambda>node.
        if xcda_lcheck node \<noteq> ucast c then Inr longest
        else
         (let node_index = node_index XOR xcda_base node in
          if xcda_leaf node then
            bind_res (xcda_node xcda node_index) (\<lambda>val. xcda_walk xcda rest (k + 1) node_index (k + 1, unat (xcda_value val)))
          else xcda_walk xcda rest (k + 1) node_index longest))))"

definition replacement_char :: bytes where
  "replacement_char = [0xEF, 0xBF, 0xBD]"

text \<open>\<open>normalize_prefix\<close> returns the normalised bytes and how many bytes of the input they stand for. \<open>strlen\<close> of a
  replacement without an end is undefined.\<close>

definition normalize_prefix :: "'d llm_tokenizer_ugm \<Rightarrow> bytes \<Rightarrow> (bytes \<times> nat) res" where
  "normalize_prefix tk input =
     (if input = [] then Inr ([], 0)
      else
       (let user = get_longest_prefix (user_defined_token_matcher tk) input 0 in
        if user > 0 then Inr (take user input, user)
        else
         bind_res (if xcda_array tk = [] then Inr (0, 0)
                   else bind_res (xcda_node (xcda_array tk) 0) (\<lambda>root. xcda_walk (xcda_array tk) input 0 (xcda_base root) (0, 0)))
           (\<lambda>(longest_prefix_length, longest_prefix_offset).
             if longest_prefix_length > 0 then
               (if longest_prefix_offset \<ge> length (prefix_replacements tk)
                then Inl (Throw ''Index out of array bounds in precompiled charsmap!'')
                else
                 (let repl = drop longest_prefix_offset (prefix_replacements tk) in
                  if 0 \<in> set repl then Inr (c_str repl, longest_prefix_length) else Inl Undef))
             else
              (case unicode_cpt_from_utf8 input 0 of
                 Inr (_, prefix_offset) \<Rightarrow> Inr (take prefix_offset input, prefix_offset)
               | Inl _ \<Rightarrow> Inr (replacement_char, 1)))))"

record norm_state =
  ns_out :: bytes
  is_space_prepended :: bool
  processing_non_ws :: bool

definition escaped_space :: bytes where
  "escaped_space = [0xE2, 0x96, 0x81]"

definition norm_space :: "'d llama_vocab \<Rightarrow> bytes" where
  "norm_space v = (if escape_whitespaces v then escaped_space else [32])"

text \<open>One character of the normalised prefix.\<close>

definition norm_char :: "'d llama_vocab \<Rightarrow> u8 \<Rightarrow> norm_state \<Rightarrow> norm_state" where
  "norm_char v c s =
     (let shall_prepend_space = \<not> treat_whitespace_as_suffix v \<and> add_space_prefix v;
          shall_merge_spaces = remove_extra_whitespaces v
      in
       if c \<noteq> 32 then
         (let s = (if \<not> processing_non_ws s then
                     (let s = s\<lparr>processing_non_ws := True\<rparr>
                      in if (shall_prepend_space \<and> \<not> is_space_prepended s) \<or> shall_merge_spaces
                         then s\<lparr>ns_out := ns_out s @ norm_space v, is_space_prepended := True\<rparr> else s)
                   else s)
          in s\<lparr>ns_out := ns_out s @ [c]\<rparr>)
       else
         (let s = s\<lparr>processing_non_ws := False\<rparr>
          in if \<not> shall_merge_spaces then s\<lparr>ns_out := ns_out s @ norm_space v\<rparr> else s))"

lemma get_longest_prefix_ge: "offset \<le> get_longest_prefix t key offset"
  by (induction t key offset rule: get_longest_prefix.induct) (auto split: option.split)

lemma normalize_prefix_consumes: "normalize_prefix tk input = Inr (n, k) \<Longrightarrow> input \<noteq> [] \<Longrightarrow> 0 < k"
  by (auto simp: normalize_prefix_def Let_def split: if_splits sum.splits prod.splits dest: cpt_from_utf8_advances)

function norm_loop :: "'d llama_vocab \<Rightarrow> 'd llm_tokenizer_ugm \<Rightarrow> bytes \<Rightarrow> norm_state \<Rightarrow> norm_state res" where
  "norm_loop v tk input s =
     (if input = [] then Inr s
      else
       (case normalize_prefix tk input of
          Inl e \<Rightarrow> Inl e
        | Inr (normalized, consumed_input) \<Rightarrow> norm_loop v tk (drop consumed_input input) (fold (norm_char v) normalized s)))"
  by pat_completeness auto
termination
  by (relation "measure (\<lambda>(_, _, input, _). length input)")
     (auto dest!: sym[of "Inr _"] dest: normalize_prefix_consumes)

declare norm_loop.simps [simp del]

definition ugm_normalize :: "'d llama_vocab \<Rightarrow> 'd llm_tokenizer_ugm \<Rightarrow> bytes \<Rightarrow> bytes res" where
  "ugm_normalize v tk input =
     bind_res (norm_loop v tk input \<lparr>ns_out = [], is_space_prepended = False, processing_non_ws = False\<rparr>) (\<lambda>s.
       Inr (if treat_whitespace_as_suffix v \<and> add_space_prefix v then ns_out s @ norm_space v else ns_out s))"

section \<open>The search\<close>

text \<open>Scores are kept as floats. The score of a token is a double when it is added; the sum with the score of the unknown
  token is one of floats, rounded before it is compared.\<close>

record 'd best_tokenization =
  bt_token :: llama_token
  bt_offset :: nat
  bt_score :: 'd

text \<open>A challenger replaces the champion at a position if it is better.\<close>

definition challenge ::
    "'d::linorder float_ops \<Rightarrow> llama_token \<Rightarrow> nat \<Rightarrow> 'd \<Rightarrow> nat \<Rightarrow> 'd best_tokenization list \<Rightarrow> 'd best_tokenization list" where
  "challenge fo token_id input_offset challenger_score pos results =
     (if challenger_score > bt_score (results ! pos)
      then results[pos := \<lparr>bt_token = token_id, bt_offset = input_offset, bt_score = fo_round fo challenger_score\<rparr>]
      else results)"

text \<open>The loop along the trie: \<open>rest\<close> is the text from \<open>prefix_offset\<close> on.\<close>

fun ugm_walk ::
    "'d::linorder float_ops \<Rightarrow> 'd llama_vocab \<Rightarrow> nat \<Rightarrow> nat \<Rightarrow> 'd \<Rightarrow> naive_trie \<Rightarrow> bytes \<Rightarrow> nat \<Rightarrow>
     bool \<times> 'd best_tokenization list \<Rightarrow> (bool \<times> 'd best_tokenization list) res" where
  "ugm_walk fo v input_offset n_utf8_code_units current_score node rest prefix_offset (found, results) =
     bind_res
       (if has_value node then
          (let token_id = trie_value node;
               found = (found \<or> prefix_offset - input_offset = n_utf8_code_units)
           in
            bind_res (get_token_data v token_id) (\<lambda>token_data.
            bind_res (is_user_defined v token_id) (\<lambda>user.
              (let token_score = (if user then fo_zero fo else td_score token_data);
                   challenger_score = fo_plus fo current_score token_score
               in Inr (found, challenge fo token_id input_offset challenger_score prefix_offset results)))))
        else Inr (found, results))
       (\<lambda>st.
         case rest of
           [] \<Rightarrow> Inr st
         | c # rest' \<Rightarrow>
            (case traverse node c of
               None \<Rightarrow> Inr st
             | Some node' \<Rightarrow> ugm_walk fo v input_offset n_utf8_code_units current_score node' rest' (prefix_offset + 1) st))"

definition ugm_step ::
    "'d::linorder float_ops \<Rightarrow> 'd llama_vocab \<Rightarrow> 'd llm_tokenizer_ugm \<Rightarrow> bytes \<Rightarrow> nat \<Rightarrow> nat \<Rightarrow>
     'd best_tokenization list \<Rightarrow> 'd best_tokenization list res" where
  "ugm_step fo v tk normalized input_offset n_utf8_code_units results =
     (let current_score = bt_score (results ! input_offset) in
      bind_res
        (case traverse (token_matcher tk) (normalized ! input_offset) of
           None \<Rightarrow> Inr (False, results)
         | Some node \<Rightarrow>
             ugm_walk fo v input_offset n_utf8_code_units current_score node (drop (input_offset + 1) normalized)
               (input_offset + 1) (False, results))
        (\<lambda>(single_codepoint_token_found, results).
          Inr (if \<not> single_codepoint_token_found then
                 challenge fo (special_unk_id v) input_offset (fo_round fo (fo_plus fo current_score (unknown_token_score tk)))
                   (input_offset + n_utf8_code_units) results
               else results)))"

definition code_units :: "bytes \<Rightarrow> nat \<Rightarrow> nat" where
  "code_units normalized p = min (unicode_len_utf8 (normalized ! p)) (length normalized - p)"

lemma code_units_pos: "p < length s \<Longrightarrow> 0 < code_units s p"
  by (simp add: code_units_def unicode_len_utf8_pos)

lemma code_units_le: "p < length s \<Longrightarrow> p + code_units s p \<le> length s"
  by (simp add: code_units_def)

function ugm_search ::
    "'d::linorder float_ops \<Rightarrow> 'd llama_vocab \<Rightarrow> 'd llm_tokenizer_ugm \<Rightarrow> bytes \<Rightarrow> nat \<Rightarrow>
     'd best_tokenization list \<Rightarrow> 'd best_tokenization list res" where
  "ugm_search fo v tk normalized input_offset results =
     (if input_offset < length normalized then
        bind_res (ugm_step fo v tk normalized input_offset (code_units normalized input_offset) results)
          (ugm_search fo v tk normalized (input_offset + code_units normalized input_offset))
      else Inr results)"
  by pat_completeness auto
termination
  by (relation "measure (\<lambda>(_, _, _, normalized, p, _). length normalized - p)") (auto intro!: diff_less_mono2 simp: code_units_pos)

declare ugm_search.simps [simp del]

text \<open>The way back from the end; runs of unknown tokens become one. The fuel bounds the number of tokens.\<close>

fun ugm_backtrack ::
    "'d llama_vocab \<Rightarrow> 'd best_tokenization list \<Rightarrow> nat \<Rightarrow> 'd best_tokenization \<Rightarrow> bool \<Rightarrow> llama_token list \<Rightarrow> llama_token list res" where
  "ugm_backtrack v results 0 tokenization is_prev_unknown acc = Inl Diverge"
| "ugm_backtrack v results (Suc fuel) tokenization is_prev_unknown acc =
     (let is_unknown = (bt_token tokenization = special_unk_id v);
          acc = (if \<not> (is_prev_unknown \<and> is_unknown) then acc @ [bt_token tokenization] else acc)
      in if bt_offset tokenization = 0 then Inr acc
         else bind_res (vec_get results (int (bt_offset tokenization))) (\<lambda>tokenization.
                ugm_backtrack v results fuel tokenization is_unknown acc))"

definition ugm_best :: "'d::linorder float_ops \<Rightarrow> 'd llama_vocab \<Rightarrow> 'd llm_tokenizer_ugm \<Rightarrow> bytes \<Rightarrow> llama_token list res" where
  "ugm_best fo v tk normalized =
     (let init = \<lparr>bt_token = special_unk_id v, bt_offset = 0, bt_score = fo_lowest fo\<rparr>;
          results = (replicate (length normalized + 1) init)[0 := \<lparr>bt_token = special_unk_id v, bt_offset = 0, bt_score = fo_zero fo\<rparr>]
      in
       bind_res (ugm_search fo v tk normalized 0 results) (\<lambda>results.
       bind_res (ugm_backtrack v results (length normalized) (results ! length normalized) False []) (\<lambda>acc. Inr (rev acc))))"

definition ugm_tokenize ::
    "'d::linorder float_ops \<Rightarrow> 'd llama_vocab \<Rightarrow> 'd llm_tokenizer_ugm \<Rightarrow> bytes \<Rightarrow> llama_token list \<Rightarrow> llama_token list res" where
  "ugm_tokenize fo v tk text output =
     bind_res (ugm_normalize v tk text) (\<lambda>normalized.
       if normalized = [] then Inr output
       else bind_res (ugm_best fo v tk normalized) (\<lambda>toks. Inr (output @ toks)))"

text \<open>
  \<open>normalize_prefix\<close> means to keep user-defined tokens as they are, but \<open>get_longest_prefix\<close> returns how far the trie follows the
  input, whether or not a token ends there: with the user-defined token \<^verbatim>\<open>abc\<close> the first two bytes of \<^verbatim>\<open>abx\<close> are taken for
  one and escape the normalisation.
\<close>

lemma user_defined_prefix_taken:
  assumes "user_defined_token_matcher tk = trie_insert [97, 98, 99] 0 empty_trie"
  shows "normalize_prefix tk [97, 98, 120] = Inr ([97, 98], 2)" "trie_lookup (user_defined_token_matcher tk) [97, 98] = None"
  by (simp_all add: assms normalize_prefix_def traverse_def empty_trie_def)

end
