(* ===== verification/Tok_Viterbi.thy ===== *)
theory Tok_Viterbi
  imports Tok_Ugm
begin

text \<open>
  The UGM tokenizer finds a best tokenization: of all ways to cut the normalised text into tokens and unknown characters,
  the one it returns has the greatest score, computed with the rounding of the code.
\<close>

section \<open>The graph of tokenizations\<close>

text \<open>What is relied on of the arithmetic: addition and the conversion to float are monotone, and converting a
  float changes nothing.\<close>

definition float_ok :: "'d::linorder float_ops \<Rightarrow> bool" where
  "float_ok fo \<longleftrightarrow> (\<forall>a b w. a \<le> b \<longrightarrow> fo_plus fo a w \<le> fo_plus fo b w) \<and> (\<forall>a b. a \<le> b \<longrightarrow> fo_round fo a \<le> fo_round fo b) \<and>
     (\<forall>a. fo_round fo (fo_round fo a) = fo_round fo a) \<and> fo_round fo (fo_zero fo) = fo_zero fo \<and> fo_round fo (fo_lowest fo) = fo_lowest fo"

definition ugm_weight :: "'d float_ops \<Rightarrow> 'd llama_vocab \<Rightarrow> llama_token \<Rightarrow> 'd" where
  "ugm_weight fo v t =
     (let d = id_to_token v ! nat t in if has_attr (td_attr d) [ATTR_USER_DEFINED] then fo_zero fo else td_score d)"

definition ugm_dict :: "'d llm_tokenizer_ugm \<Rightarrow> bytes \<rightharpoonup> llama_token" where
  "ugm_dict tk = trie_lookup (token_matcher tk)"

text \<open>The tokens that start at \<open>p\<close>, in the order of their lengths, and the unknown token when the character is no token:
  end, token and the score that challenges, given the score at \<open>p\<close>. A token's score is added as a double; the score of
  the unknown token is a float, so that sum is a float before it is compared.\<close>

definition token_edges :: "'d float_ops \<Rightarrow> 'd llama_vocab \<Rightarrow> 'd llm_tokenizer_ugm \<Rightarrow> bytes \<Rightarrow> nat \<Rightarrow> nat \<Rightarrow> (nat \<times> llama_token \<times> ('d \<Rightarrow> 'd)) list" where
  "token_edges fo v tk s p k =
     concat (map (\<lambda>n. case ugm_dict tk (take n (drop p s)) of None \<Rightarrow> [] | Some t \<Rightarrow> [(p + n, t, \<lambda>sc. fo_plus fo sc (ugm_weight fo v t))])
       [k..<Suc (length s - p)])"

definition ugm_edges :: "'d float_ops \<Rightarrow> 'd llama_vocab \<Rightarrow> 'd llm_tokenizer_ugm \<Rightarrow> bytes \<Rightarrow> nat \<Rightarrow> (nat \<times> llama_token \<times> ('d \<Rightarrow> 'd)) list" where
  "ugm_edges fo v tk s p =
     token_edges fo v tk s p 1 @
     (if ugm_dict tk (take (code_units s p) (drop p s)) = None then [(p + code_units s p, special_unk_id v, \<lambda>sc. fo_round fo (fo_plus fo sc (unknown_token_score tk)))] else [])"

text \<open>Starts of characters, and the tokenizations of the text up to a position with their scores.\<close>

inductive boundary :: "bytes \<Rightarrow> nat \<Rightarrow> bool" for s where
  boundary_0: "boundary s 0"
| boundary_step: "boundary s p \<Longrightarrow> p < length s \<Longrightarrow> boundary s (p + code_units s p)"

inductive ugm_path :: "'d float_ops \<Rightarrow> 'd llama_vocab \<Rightarrow> 'd llm_tokenizer_ugm \<Rightarrow> bytes \<Rightarrow> nat \<Rightarrow> 'd \<Rightarrow> llama_token list \<Rightarrow> bool"
  for fo v tk s where
  path_start: "ugm_path fo v tk s 0 (fo_zero fo) []"
| path_step: "ugm_path fo v tk s p sc ts \<Longrightarrow> boundary s p \<Longrightarrow> p < length s \<Longrightarrow> (q, t, w) \<in> set (ugm_edges fo v tk s p) \<Longrightarrow>
    ugm_path fo v tk s q (fo_round fo (w sc)) (ts @ [t])"

text \<open>No sum of scores is as low as \<open>-FLT_MAX\<close>, which marks positions that were not reached.\<close>

definition scores_above :: "'d::linorder float_ops \<Rightarrow> 'd llama_vocab \<Rightarrow> 'd llm_tokenizer_ugm \<Rightarrow> bytes \<Rightarrow> bool" where
  "scores_above fo v tk s \<longleftrightarrow> (\<forall>p sc ts q t w. ugm_path fo v tk s p sc ts \<longrightarrow> boundary s p \<longrightarrow> p < length s \<longrightarrow>
     (q, t, w) \<in> set (ugm_edges fo v tk s p) \<longrightarrow> fo_lowest fo < w sc)"

definition dict_in_range :: "'d llama_vocab \<Rightarrow> 'd llm_tokenizer_ugm \<Rightarrow> bool" where
  "dict_in_range v tk \<longleftrightarrow> v_type v \<noteq> LLAMA_VOCAB_TYPE_NONE \<and> (\<forall>s t. ugm_dict tk s = Some t \<longrightarrow> 0 \<le> t \<and> nat t < n_tokens v)"

lemma in_ugm_edges:
  assumes "(q, t, w) \<in> set (ugm_edges fo v tk s p)" "p < length s"
  shows "p < q" "q \<le> length s"
  using assms code_units_pos[of p s] code_units_le[of p s]
  by (auto simp: ugm_edges_def token_edges_def split: option.splits if_splits)

lemma ugm_edges_mono:
  "float_ok fo \<Longrightarrow> (q, t, w) \<in> set (ugm_edges fo v tk s p) \<Longrightarrow> a \<le> b \<Longrightarrow> w a \<le> w b"
  by (auto simp: ugm_edges_def token_edges_def float_ok_def split: option.splits if_splits)

section \<open>One position\<close>

definition challenge_all :: "'d::linorder float_ops \<Rightarrow> nat \<Rightarrow> 'd \<Rightarrow> (nat \<times> llama_token \<times> ('d \<Rightarrow> 'd)) list \<Rightarrow>
    'd best_tokenization list \<Rightarrow> 'd best_tokenization list" where
  "challenge_all fo p sc es R = fold (\<lambda>(q, t, w). challenge fo t p (w sc) q) es R"

lemma challenge_all_append [simp]: "challenge_all fo p sc (es @ es') R = challenge_all fo p sc es' (challenge_all fo p sc es R)"
  by (simp add: challenge_all_def)

lemma challenge_all_Nil [simp]: "challenge_all fo p sc [] R = R"
  by (simp add: challenge_all_def)

lemma token_edges_Suc:
  "k \<le> length s - p \<Longrightarrow> token_edges fo v tk s p k =
     (case ugm_dict tk (take k (drop p s)) of None \<Rightarrow> [] | Some t \<Rightarrow> [(p + k, t, \<lambda>sc. fo_plus fo sc (ugm_weight fo v t))]) @ token_edges fo v tk s p (Suc k)"
  unfolding token_edges_def by (subst upt_conv_Cons) simp_all

text \<open>A round of the walk: the token that ends here, if there is one, challenges.\<close>

lemma walk_body:
  assumes "dict_in_range v tk" "trie_node (token_matcher tk) (take k (drop p s)) = Some node"
  shows "(if has_value node then
      (let token_id = trie_value node; found = (found \<or> p + k - p = u) in
       bind_res (get_token_data v token_id) (\<lambda>token_data. bind_res (is_user_defined v token_id) (\<lambda>user.
         (let token_score = (if user then fo_zero fo else td_score token_data); challenger_score = fo_plus fo sc token_score
          in Inr (found, challenge fo token_id p challenger_score (p + k) R)))))
      else Inr (found, R)) =
    Inr (found \<or> (k = u \<and> ugm_dict tk (take u (drop p s)) \<noteq> None),
         challenge_all fo p sc (case ugm_dict tk (take k (drop p s)) of None \<Rightarrow> [] | Some t \<Rightarrow> [(p + k, t, \<lambda>sc. fo_plus fo sc (ugm_weight fo v t))]) R)"
proof (cases "has_value node")
  case True
  then have d: "ugm_dict tk (take k (drop p s)) = Some (trie_value node)" using trie_lookup_node[OF assms(2)] by (simp add: ugm_dict_def)
  then have "0 \<le> trie_value node" "nat (trie_value node) < length (id_to_token v)" "v_type v \<noteq> LLAMA_VOCAB_TYPE_NONE"
    using assms(1) by (auto simp: dict_in_range_def n_tokens_def)
  then show ?thesis using d True
    by (auto simp: get_token_data_def vec_at_def is_user_defined_def id_has_attr_def vec_get_def ugm_weight_def challenge_all_def Let_def)
next
  case False
  then have "ugm_dict tk (take k (drop p s)) = None" using trie_lookup_node[OF assms(2)] by (simp add: ugm_dict_def)
  then show ?thesis using False by auto
qed

lemma ugm_walk_edges:
  assumes "dict_in_range v tk" and node: "trie_node (token_matcher tk) (take k (drop p s)) = Some node" and k: "1 \<le> k" "p + k \<le> length s"
  shows "ugm_walk fo v p u sc node (drop (p + k) s) (p + k) (found, R) =
    Inr (found \<or> (k \<le> u \<and> u \<le> length s - p \<and> ugm_dict tk (take u (drop p s)) \<noteq> None), challenge_all fo p sc (token_edges fo v tk s p k) R)"
  using node k
proof (induction "length s - (p + k)" arbitrary: k node found R)
  case 0
  then have k: "p + k = length s" by simp
  then have "token_edges fo v tk s p (Suc k) = []" by (auto simp: token_edges_def)
  moreover have "k = u \<longleftrightarrow> k \<le> u \<and> u \<le> length s - p" using k by auto
  moreover note ugm_walk.simps[of fo v p u sc node "drop (p + k) s" "p + k" found R, unfolded walk_body[OF assms(1) "0.prems"(1)], unfolded bind_res_simps]
  ultimately show ?case using k by (simp add: token_edges_Suc[of k s p] del: ugm_walk.simps)
next
  case (Suc d)
  let ?t = "token_matcher tk" and ?rest = "drop p s"
  have k: "p + k < length s" using Suc by simp
  have tk: "take (Suc k) ?rest = take k ?rest @ [s ! (p + k)]" using k by (simp add: take_Suc_conv_app_nth)
  have rest: "drop (p + k) s = s ! (p + k) # drop (p + Suc k) s" using k by (simp add: Cons_nth_drop_Suc)
  note step = ugm_walk.simps[of fo v p u sc node "drop (p + k) s" "p + k" found R, unfolded walk_body[OF assms(1) Suc.prems(1)], simplified bind_res_simps rest list.case]
  show ?case
  proof (cases "traverse node (s ! (p + k))")
    case None
    then have no: "trie_node ?t (take (Suc k) ?rest) = None" using Suc.prems(1) by (simp add: tk trie_node_append)
    have none: "ugm_dict tk (take n ?rest) = None" if "k < n" for n
      using that trie_lookup_no_path[OF no, of "drop (Suc k) (take n ?rest)"]
      by (metis Suc_leI append_take_drop_id min_absorb1 take_take ugm_dict_def)
    then have "token_edges fo v tk s p (Suc k) = []" by (simp add: token_edges_def del: upt_Suc)
    moreover have "k \<le> u \<and> u \<le> length s - p \<and> ugm_dict tk (take u ?rest) \<noteq> None \<longleftrightarrow> k = u \<and> ugm_dict tk (take u ?rest) \<noteq> None"
      using none[of u] k by (cases "k < u") auto
    ultimately show ?thesis using step None k by (simp add: rest token_edges_Suc[of k s p] del: ugm_walk.simps)
  next
    case (Some node')
    have "trie_node ?t (take (Suc k) ?rest) = Some node'" using Suc.prems(1) Some by (simp add: tk trie_node_append)
    then have IH: "ugm_walk fo v p u sc node' (drop (p + Suc k) s) (p + Suc k) (f, R') =
        Inr (f \<or> (Suc k \<le> u \<and> u \<le> length s - p \<and> ugm_dict tk (take u ?rest) \<noteq> None), challenge_all fo p sc (token_edges fo v tk s p (Suc k)) R')" for f R'
      using Suc.hyps(2) k by (intro Suc.hyps(1)) auto
    show ?thesis using step Some k IH by (auto simp: rest token_edges_Suc[of k s p] simp del: ugm_walk.simps)
  qed
qed

lemma ugm_step_edges:
  assumes "dict_in_range v tk" "p < length s"
  shows "ugm_step fo v tk s p (code_units s p) R = Inr (challenge_all fo p (bt_score (R ! p)) (ugm_edges fo v tk s p) R)"
proof -
  let ?sc = "bt_score (R ! p)" and ?rest = "drop p s"
  have hd: "take 1 ?rest = [s ! p]" using assms(2) by (simp add: take_Suc_conv_app_nth)
  have cu: "1 \<le> code_units s p" "code_units s p \<le> length s - p" using code_units_pos[OF assms(2)] code_units_le[OF assms(2)] by auto
  show ?thesis
  proof (cases "traverse (token_matcher tk) (s ! p)")
    case None
    then have no: "trie_node (token_matcher tk) (take 1 ?rest) = None" by (simp add: hd del: One_nat_def)
    have none: "ugm_dict tk (take n ?rest) = None" if "1 \<le> n" for n
      using that trie_lookup_no_path[OF no, of "drop 1 (take n ?rest)"] by (metis append_take_drop_id min_absorb1 take_take ugm_dict_def)
    then have "token_edges fo v tk s p 1 = []" by (simp add: token_edges_def del: upt_Suc)
    then show ?thesis using None none[OF cu(1)] by (simp add: ugm_step_def ugm_edges_def challenge_all_def)
  next
    case (Some node)
    then have node: "trie_node (token_matcher tk) (take 1 ?rest) = Some node" by (simp add: hd del: One_nat_def)
    have "ugm_walk fo v p (code_units s p) ?sc node (drop (p + 1) s) (p + 1) (False, R) =
        Inr (False \<or> (1 \<le> code_units s p \<and> code_units s p \<le> length s - p \<and> ugm_dict tk (take (code_units s p) ?rest) \<noteq> None),
             challenge_all fo p ?sc (token_edges fo v tk s p 1) R)"
      by (rule ugm_walk_edges[OF assms(1) node]) (use assms(2) in auto)
    then show ?thesis using Some cu
      by (simp add: ugm_step_def ugm_edges_def challenge_all_def Let_def del: ugm_walk.simps)
  qed
qed

text \<open>A champion is never worse than a challenger it met.\<close>

definition entry :: "'d float_ops \<Rightarrow> nat \<Rightarrow> 'd \<Rightarrow> llama_token \<Rightarrow> ('d \<Rightarrow> 'd) \<Rightarrow> 'd best_tokenization" where
  "entry fo p sc t w = \<lparr>bt_token = t, bt_offset = p, bt_score = fo_round fo (w sc)\<rparr>"

definition rounded :: "'d float_ops \<Rightarrow> 'd best_tokenization list \<Rightarrow> bool" where
  "rounded fo R \<longleftrightarrow> (\<forall>x \<in> set R. fo_round fo (bt_score x) = bt_score x)"

lemma challenge_entry:
  assumes "float_ok fo" "rounded fo R" "q < length R"
  shows "length (challenge fo t p (w sc) q R) = length R" "rounded fo (challenge fo t p (w sc) q R)"
    "q' \<noteq> q \<Longrightarrow> challenge fo t p (w sc) q R ! q' = R ! q'"
    "challenge fo t p (w sc) q R ! q = (if bt_score (R ! q) < w sc then entry fo p sc t w else R ! q)"
    "bt_score (R ! q) \<le> bt_score (challenge fo t p (w sc) q R ! q)"
    "fo_round fo (w sc) \<le> bt_score (challenge fo t p (w sc) q R ! q)"
proof -
  have r: "fo_round fo (bt_score (R ! q)) = bt_score (R ! q)" using assms(2,3) by (simp add: rounded_def)
  have mono: "\<And>a b. a \<le> b \<Longrightarrow> fo_round fo a \<le> fo_round fo b" using assms(1) by (simp add: float_ok_def)
  show "length (challenge fo t p (w sc) q R) = length R" by (simp add: challenge_def)
  show "rounded fo (challenge fo t p (w sc) q R)"
    using assms(1,2) by (auto simp: challenge_def rounded_def float_ok_def dest!: set_update_subset_insert[THEN subsetD])
  show "q' \<noteq> q \<Longrightarrow> challenge fo t p (w sc) q R ! q' = R ! q'" by (simp add: challenge_def)
  show e: "challenge fo t p (w sc) q R ! q = (if bt_score (R ! q) < w sc then entry fo p sc t w else R ! q)"
    using assms(3) by (simp add: challenge_def entry_def)
  show "bt_score (R ! q) \<le> bt_score (challenge fo t p (w sc) q R ! q)"
    "fo_round fo (w sc) \<le> bt_score (challenge fo t p (w sc) q R ! q)"
    unfolding e using mono[of "bt_score (R ! q)" "w sc"] mono[of "w sc" "bt_score (R ! q)"]
    by (auto simp: entry_def r not_less)
qed

lemma challenge_all_entry:
  fixes p sc
  assumes "float_ok fo" "rounded fo R" "\<And>q t w. (q, t, w) \<in> set es \<Longrightarrow> q < length R" "q < length R"
  defines "R' \<equiv> challenge_all fo p sc es R"
  shows "length R' = length R \<and> rounded fo R' \<and> (R' ! q = R ! q \<or> (\<exists>t w. (q, t, w) \<in> set es \<and> R' ! q = entry fo p sc t w)) \<and>
    bt_score (R ! q) \<le> bt_score (R' ! q) \<and> (\<forall>t w. (q, t, w) \<in> set es \<longrightarrow> fo_round fo (w sc) \<le> bt_score (R' ! q)) \<and>
    ((\<exists>t w. (q, t, w) \<in> set es \<and> bt_score (R ! q) < w sc) \<longrightarrow> (\<exists>t w. (q, t, w) \<in> set es \<and> R' ! q = entry fo p sc t w))"
  using assms(2-4) unfolding R'_def
proof (induction es arbitrary: R)
  case (Cons e es)
  obtain q1 t1 w1 where e: "e = (q1, t1, w1)" by (cases e)
  let ?R1 = "challenge fo t1 p (w1 sc) q1 R"
  have q1: "q1 < length R" using Cons.prems(2)[of q1 t1 w1] by (simp add: e)
  have in_es: "\<And>q t w. (q, t, w) \<in> set es \<Longrightarrow> q < length R" using Cons.prems(2) by (meson list.set_intros(2))
  note C = challenge_entry[OF assms(1) Cons.prems(1) q1]
  have step: "challenge_all fo p sc ((q1, t1, w1) # es) R = challenge_all fo p sc es ?R1" by (simp add: challenge_all_def)
  have IH: "length (challenge_all fo p sc es ?R1) = length ?R1 \<and> rounded fo (challenge_all fo p sc es ?R1) \<and>
      (challenge_all fo p sc es ?R1 ! q = ?R1 ! q \<or> (\<exists>t w. (q, t, w) \<in> set es \<and> challenge_all fo p sc es ?R1 ! q = entry fo p sc t w)) \<and>
      bt_score (?R1 ! q) \<le> bt_score (challenge_all fo p sc es ?R1 ! q) \<and>
      (\<forall>t w. (q, t, w) \<in> set es \<longrightarrow> fo_round fo (w sc) \<le> bt_score (challenge_all fo p sc es ?R1 ! q)) \<and>
      ((\<exists>t w. (q, t, w) \<in> set es \<and> bt_score (?R1 ! q) < w sc) \<longrightarrow>
        (\<exists>t w. (q, t, w) \<in> set es \<and> challenge_all fo p sc es ?R1 ! q = entry fo p sc t w))"
    by (rule Cons.IH) (use C(1,2) Cons.prems(3) in_es in auto)
  show ?case
  proof (cases "q1 = q")
    case False
    then show ?thesis using IH C(1,3)[where t = t1 and p = p and sc = sc and w = w1] unfolding e step by auto
  next
    case True
    note C = C[unfolded True]
    show ?thesis
    proof (cases "bt_score (R ! q) < w1 sc")
      case better: True
      then have "?R1 ! q = entry fo p sc t1 w1" using C(4) True by simp
      then show ?thesis using IH C(1,5,6)[where t = t1 and p = p and sc = sc and w = w1] True unfolding e step by (auto intro: order_trans)
    next
      case False
      then have "?R1 ! q = R ! q" using C(4) True by simp
      then show ?thesis using IH C(1,6)[where t = t1 and p = p and sc = sc and w = w1] True False unfolding e step by (auto intro: order_trans)
    qed
  qed
qed (simp add: challenge_all_def)

section \<open>Boundaries\<close>

lemma boundary_iterate: "boundary s p \<Longrightarrow> \<exists>n. p = ((\<lambda>p. p + code_units s p) ^^ n) 0"
proof (induction rule: boundary.induct)
  case boundary_0
  then show ?case by (intro exI[of _ 0]) simp
next
  case (boundary_step p)
  then obtain n where "p = ((\<lambda>p. p + code_units s p) ^^ n) 0" by blast
  then show ?case by (intro exI[of _ "Suc n"]) simp
qed

lemma boundary_gap:
  assumes "boundary s p" "boundary s p'" "p < p'"
  shows "p + code_units s p \<le> p'"
proof -
  let ?f = "\<lambda>p. p + code_units s p"
  obtain n m where n: "p = (?f ^^ n) 0" and m: "p' = (?f ^^ m) 0" using assms boundary_iterate by metis
  have mono: "i \<le> j \<Longrightarrow> (?f ^^ i) 0 \<le> (?f ^^ j) 0" for i j by (induction j) (auto simp: le_Suc_eq)
  have "\<not> m \<le> n" using mono[of m n] n m assms(3) by auto
  then show ?thesis using mono[of "Suc n" m] n m by simp
qed

text \<open>Every boundary but the first is the end of an edge: of its character, as a token or unknown.\<close>

lemma boundary_edge:
  assumes "boundary s q" "0 < q"
  obtains p t w where "boundary s p" "p < q" "p < length s" "(q, t, w) \<in> set (ugm_edges fo v tk s p)"
  using assms
proof (cases rule: boundary.cases)
  case (boundary_step p)
  then have cu: "1 \<le> code_units s p" "code_units s p \<le> length s - p"
    using code_units_pos[of p s] code_units_le[of p s] by auto
  have "\<exists>t w. (q, t, w) \<in> set (ugm_edges fo v tk s p)"
  proof (cases "ugm_dict tk (take (code_units s p) (drop p s))")
    case None
    then show ?thesis using boundary_step by (auto simp: ugm_edges_def)
  next
    case (Some t)
    then have "(q, t, \<lambda>sc. fo_plus fo sc (ugm_weight fo v t)) \<in> set (token_edges fo v tk s p 1)"
      using cu boundary_step by (auto simp: token_edges_def intro!: bexI[of _ "code_units s p"])
    then show ?thesis by (auto simp: ugm_edges_def)
  qed
  then show ?thesis using that[of p] boundary_step cu by auto
qed simp

section \<open>The table\<close>

definition init_entry :: "'d float_ops \<Rightarrow> 'd llama_vocab \<Rightarrow> 'd best_tokenization" where
  "init_entry fo v = \<lparr>bt_token = special_unk_id v, bt_offset = 0, bt_score = fo_lowest fo\<rparr>"

definition incoming :: "'d float_ops \<Rightarrow> 'd llama_vocab \<Rightarrow> 'd llm_tokenizer_ugm \<Rightarrow> bytes \<Rightarrow> nat \<Rightarrow> nat \<Rightarrow> nat \<Rightarrow> llama_token \<Rightarrow> ('d \<Rightarrow> 'd) \<Rightarrow> bool" where
  "incoming fo v tk s n q p t w \<longleftrightarrow> p < n \<and> boundary s p \<and> p < length s \<and> (q, t, w) \<in> set (ugm_edges fo v tk s p)"

lemma boundary_incoming:
  assumes "boundary s p" "p \<le> n"
  shows "p = 0 \<or> (\<exists>p' t w. incoming fo v tk s n p p' t w)"
proof (cases "p = 0")
  case False
  then obtain p' t w where "boundary s p'" "p' < p" "p' < length s" "(p, t, w) \<in> set (ugm_edges fo v tk s p')"
    using boundary_edge[OF assms(1)] by (metis gr0I)
  then have "incoming fo v tk s n p p' t w" using assms(2) by (simp add: incoming_def)
  then show ?thesis by blast
qed simp

text \<open>The table after all boundaries before \<open>n\<close> were processed.\<close>

definition settled :: "'d::linorder float_ops \<Rightarrow> 'd llama_vocab \<Rightarrow> 'd llm_tokenizer_ugm \<Rightarrow> bytes \<Rightarrow> nat \<Rightarrow> 'd best_tokenization list \<Rightarrow> bool" where
  "settled fo v tk s n R \<longleftrightarrow> length R = Suc (length s) \<and> rounded fo R \<and> bt_score (R ! 0) = fo_zero fo \<and>
     (\<forall>q. 0 < q \<longrightarrow> q \<le> length s \<longrightarrow>
        (\<exists>p t w. incoming fo v tk s n q p t w \<and> R ! q = entry fo p (bt_score (R ! p)) t w) \<or>
        (\<nexists>p t w. incoming fo v tk s n q p t w) \<and> R ! q = init_entry fo v) \<and>
     (\<forall>q p t w. incoming fo v tk s n q p t w \<longrightarrow> fo_round fo (w (bt_score (R ! p))) \<le> bt_score (R ! q))"

lemma settled_path:
  assumes "settled fo v tk s n R"
  shows "q = 0 \<or> (\<exists>p t w. incoming fo v tk s n q p t w) \<Longrightarrow> \<exists>ts. ugm_path fo v tk s q (bt_score (R ! q)) ts"
proof (induction q rule: less_induct)
  case (less q)
  show ?case
  proof (cases "q = 0")
    case True
    then show ?thesis using assms path_start[of fo v tk s] by (auto simp: settled_def)
  next
    case False
    have q: "q \<le> length s" using less.prems False by (auto simp: incoming_def dest: in_ugm_edges(2))
    then obtain p t w where p: "incoming fo v tk s n q p t w" "R ! q = entry fo p (bt_score (R ! p)) t w"
      using assms less.prems False unfolding settled_def by blast
    then have pq: "p < q" "p < n" "boundary s p" "p < length s" by (auto simp: incoming_def dest: in_ugm_edges(1))
    have "p = 0 \<or> (\<exists>p' t w. incoming fo v tk s n p p' t w)"
      by (rule boundary_incoming) (use pq in auto)
    then obtain ts where "ugm_path fo v tk s p (bt_score (R ! p)) ts" using less.IH[OF pq(1)] by blast
    then have "ugm_path fo v tk s q (fo_round fo (w (bt_score (R ! p)))) (ts @ [t])"
      using p(1) by (auto simp: incoming_def intro: path_step)
    then show ?thesis using p(2) by (auto simp: entry_def)
  qed
qed

lemma settled_round:
  assumes fo: "float_ok fo" and S: "settled fo v tk s p R" and p: "boundary s p" "p < length s" and above: "scores_above fo v tk s"
  shows "settled fo v tk s (p + code_units s p) (challenge_all fo p (bt_score (R ! p)) (ugm_edges fo v tk s p) R)" (is "settled _ _ _ _ ?n ?R")
proof -
  let ?E = "set (ugm_edges fo v tk s p)" and ?sc = "bt_score (R ! p)"
  have len: "length R = Suc (length s)" and rd: "rounded fo R" using S by (auto simp: settled_def)
  have E: "\<And>q t w. (q, t, w) \<in> ?E \<Longrightarrow> p < q \<and> q \<le> length s" by (meson in_ugm_edges p(2))
  have all: "length ?R = length R \<and> rounded fo ?R \<and> (?R ! q = R ! q \<or> (\<exists>t w. (q, t, w) \<in> ?E \<and> ?R ! q = entry fo p ?sc t w)) \<and>
    bt_score (R ! q) \<le> bt_score (?R ! q) \<and> (\<forall>t w. (q, t, w) \<in> ?E \<longrightarrow> fo_round fo (w ?sc) \<le> bt_score (?R ! q)) \<and>
    ((\<exists>t w. (q, t, w) \<in> ?E \<and> bt_score (R ! q) < w ?sc) \<longrightarrow> (\<exists>t w. (q, t, w) \<in> ?E \<and> ?R ! q = entry fo p ?sc t w))"
    if "q \<le> length s" for q
    by (rule challenge_all_entry[OF fo rd]) (use that E len in \<open>auto simp: less_Suc_eq_le\<close>)
  have C: "length ?R = length R" "rounded fo ?R" "?R ! q = R ! q \<or> (\<exists>t w. (q, t, w) \<in> ?E \<and> ?R ! q = entry fo p ?sc t w)"
    "bt_score (R ! q) \<le> bt_score (?R ! q)" "(q, t, w) \<in> ?E \<Longrightarrow> fo_round fo (w ?sc) \<le> bt_score (?R ! q)"
    "(q, t, w) \<in> ?E \<Longrightarrow> bt_score (R ! q) < w ?sc \<Longrightarrow> \<exists>t w. (q, t, w) \<in> ?E \<and> ?R ! q = entry fo p ?sc t w"
    if "q \<le> length s" for q t w
    using all[OF that] by blast+
  have old: "?R ! q = R ! q" if "q \<le> p" for q using C(3)[of q] E[of q] that p(2) by fastforce
  have lt: "p' < ?n \<longleftrightarrow> p' < p \<or> p' = p" if "boundary s p'" for p'
    using boundary_gap[OF p(1) that] code_units_pos[OF p(2)] by (cases "p < p'") auto
  have inc: "incoming fo v tk s ?n q p' t w \<longleftrightarrow> incoming fo v tk s p q p' t w \<or> p' = p \<and> (q, t, w) \<in> ?E" for q p' t w
    unfolding incoming_def using lt p by blast
  have le: "q \<le> length s" if "incoming fo v tk s n q p' t w" for n q p' t w using that in_ugm_edges(2) by (auto simp: incoming_def)
  have "(\<exists>p' t w. incoming fo v tk s ?n q p' t w \<and> ?R ! q = entry fo p' (bt_score (?R ! p')) t w) \<or>
        (\<nexists>p' t w. incoming fo v tk s ?n q p' t w) \<and> ?R ! q = init_entry fo v" if q: "0 < q" "q \<le> length s" for q
  proof (cases "\<exists>t w. (q, t, w) \<in> ?E \<and> ?R ! q = entry fo p ?sc t w")
    case True
    then obtain t w where "(q, t, w) \<in> ?E" "?R ! q = entry fo p ?sc t w" by blast
    then have "incoming fo v tk s ?n q p t w \<and> ?R ! q = entry fo p (bt_score (?R ! p)) t w" using inc old[of p] by simp
    then show ?thesis by blast
  next
    case False
    then have same: "?R ! q = R ! q" using C(3)[OF q(2)] by blast
    show ?thesis
    proof (cases "\<exists>p' t w. incoming fo v tk s p q p' t w")
      case True
      then obtain p' t w where "incoming fo v tk s p q p' t w" "R ! q = entry fo p' (bt_score (R ! p')) t w"
        using S q unfolding settled_def by blast
      moreover have "p' < p" using calculation(1) by (simp add: incoming_def)
      ultimately have "incoming fo v tk s ?n q p' t w \<and> ?R ! q = entry fo p' (bt_score (?R ! p')) t w"
        using same old[of p'] inc by simp
      then show ?thesis by blast
    next
      case none: False
      then have init: "R ! q = init_entry fo v" using S q unfolding settled_def by blast
      have "(q, t, w) \<notin> ?E" for t w
      proof
        assume e: "(q, t, w) \<in> ?E"
        have "p = 0 \<or> (\<exists>p' t w. incoming fo v tk s p p p' t w)"
          by (rule boundary_incoming) (use p in auto)
        then obtain ts where "ugm_path fo v tk s p ?sc ts" using settled_path[OF S] by blast
        then have "fo_lowest fo < w ?sc" using above p e unfolding scores_above_def by blast
        then show False using C(6)[OF q(2) e] False init by (simp add: init_entry_def)
      qed
      then show ?thesis using none same init inc by simp
    qed
  qed
  moreover have "fo_round fo (w (bt_score (?R ! p'))) \<le> bt_score (?R ! q)" if i: "incoming fo v tk s ?n q p' t w" for q p' t w
  proof (cases "incoming fo v tk s p q p' t w")
    case True
    then have "?R ! p' = R ! p'" by (intro old) (simp add: incoming_def)
    moreover have "fo_round fo (w (bt_score (R ! p'))) \<le> bt_score (R ! q)" using S True unfolding settled_def by blast
    ultimately show ?thesis using C(4)[OF le[OF i]] by (simp add: order_trans)
  next
    case False
    then have "p' = p" "(q, t, w) \<in> ?E" using i inc by simp_all
    then show ?thesis using C(5)[OF le[OF i]] old[of p] by simp
  qed
  moreover have "bt_score (?R ! 0) = fo_zero fo" using S old[of 0] by (simp add: settled_def)
  ultimately show ?thesis using C(1,2)[of 0] len unfolding settled_def by simp
qed

lemma ugm_search_settles:
  assumes "float_ok fo" "dict_in_range v tk" "scores_above fo v tk s"
  shows "boundary s p \<Longrightarrow> p \<le> length s \<Longrightarrow> settled fo v tk s p R \<Longrightarrow>
    \<exists>R'. ugm_search fo v tk s p R = Inr R' \<and> settled fo v tk s (length s) R' \<and> boundary s (length s)"
proof (induction "length s - p" arbitrary: p R rule: less_induct)
  case less
  show ?case
  proof (cases "p < length s")
    case False
    then show ?thesis using less.prems by (subst ugm_search.simps) auto
  next
    case True
    let ?R = "challenge_all fo p (bt_score (R ! p)) (ugm_edges fo v tk s p) R"
    have "boundary s (p + code_units s p)" using boundary_step less.prems(1) True .
    moreover have "settled fo v tk s (p + code_units s p) ?R" by (rule settled_round[OF assms(1) less.prems(3,1) True assms(3)])
    ultimately obtain R' where "ugm_search fo v tk s (p + code_units s p) ?R = Inr R'" "settled fo v tk s (length s) R'" "boundary s (length s)"
      using less.hyps[of "p + code_units s p" ?R, OF diff_less_mono2] code_units_pos[OF True] code_units_le[OF True] True by auto
    then show ?thesis using True ugm_step_edges[OF assms(2) True, of fo R] by (subst ugm_search.simps) simp
  qed
qed

section \<open>The way back\<close>

fun squeeze :: "llama_token \<Rightarrow> bool \<Rightarrow> llama_token list \<Rightarrow> llama_token list" where
  "squeeze u prev [] = []"
| "squeeze u prev (t # ts) = (if prev \<and> t = u then [] else [t]) @ squeeze u (t = u) ts"

lemma squeeze_snoc:
  "squeeze u prev (ts @ [t]) = squeeze u prev ts @ (if (if ts = [] then prev else last ts = u) \<and> t = u then [] else [t])"
  by (induction ts arbitrary: prev) auto

lemma squeeze_rev: "squeeze u False (rev ts) = rev (squeeze u False ts)"
proof (induction ts)
  case (Cons t ts)
  have "squeeze u False (rev (t # ts)) = rev (squeeze u False ts) @ (if ts \<noteq> [] \<and> hd ts = u \<and> t = u then [] else [t])"
    by (auto simp: squeeze_snoc last_rev Cons)
  also have "\<dots> = rev (squeeze u False (t # ts))" by (cases ts) auto
  finally show ?case .
qed simp

lemma ugm_backtrack_path:
  assumes "settled fo v tk s (length s) R"
  shows "0 < q \<Longrightarrow> q \<le> length s \<Longrightarrow> \<exists>p t w. incoming fo v tk s (length s) q p t w \<Longrightarrow>
    \<exists>ts. ugm_path fo v tk s q (bt_score (R ! q)) ts \<and>
      (\<forall>fuel prev acc. q \<le> fuel \<longrightarrow> ugm_backtrack v R fuel (R ! q) prev acc = Inr (acc @ squeeze (special_unk_id v) prev (rev ts)))"
proof (induction q rule: less_induct)
  case (less q)
  let ?u = "special_unk_id v"
  obtain p t w where i: "incoming fo v tk s (length s) q p t w" and R: "R ! q = entry fo p (bt_score (R ! p)) t w"
    using assms less.prems unfolding settled_def by blast
  then have p: "p < q" "boundary s p" "p < length s" "(q, t, w) \<in> set (ugm_edges fo v tk s p)"
    by (auto simp: incoming_def dest: in_ugm_edges(1))
  have len: "p < length R" using assms p(3) by (simp add: settled_def)
  have sc: "bt_score (R ! q) = fo_round fo (w (bt_score (R ! p)))" and t: "bt_token (R ! q) = t" and off: "bt_offset (R ! q) = p"
    using R by (simp_all add: entry_def)
  show ?case
  proof (cases "p = 0")
    case True
    then have "bt_score (R ! p) = fo_zero fo" using assms by (simp add: settled_def)
    then have "ugm_path fo v tk s q (bt_score (R ! q)) [t]"
      using path_step[OF path_start[of fo v tk s] boundary_0, of q t w] p True by (simp add: sc)
    moreover have "ugm_backtrack v R fuel (R ! q) prev acc = Inr (acc @ squeeze ?u prev (rev [t]))" if "q \<le> fuel" for fuel prev acc
      using that less.prems(1) True by (cases fuel) (auto simp: t off Let_def)
    ultimately show ?thesis by blast
  next
    case False
    have "\<exists>p' t w. incoming fo v tk s (length s) p p' t w" using boundary_incoming[of s p "length s" fo v tk] p False by simp
    then obtain ts where ts: "ugm_path fo v tk s p (bt_score (R ! p)) ts"
      "\<And>fuel prev acc. p \<le> fuel \<Longrightarrow> ugm_backtrack v R fuel (R ! p) prev acc = Inr (acc @ squeeze ?u prev (rev ts))"
      using less.IH[OF p(1)] p(3) False by (auto simp: less_imp_le)
    have "ugm_path fo v tk s q (bt_score (R ! q)) (ts @ [t])" unfolding sc using ts(1) p(2-4) by (rule path_step)
    moreover have "ugm_backtrack v R fuel (R ! q) prev acc = Inr (acc @ squeeze ?u prev (rev (ts @ [t])))" if "q \<le> fuel" for fuel prev acc
    proof (cases fuel)
      case 0
      then show ?thesis using that less.prems(1) by simp
    next
      case (Suc f)
      then have "p \<le> f" using that p(1) by simp
      then show ?thesis using ts(2)[of f] len False by (simp add: Suc t off Let_def)
    qed
    ultimately show ?thesis by blast
  qed
qed

lemma path_below_table:
  assumes "float_ok fo" "settled fo v tk s (length s) R" "ugm_path fo v tk s q sc ts"
  shows "sc \<le> bt_score (R ! q)"
  using assms(3)
proof (induction rule: ugm_path.induct)
  case path_start
  then show ?case using assms(2) by (simp add: settled_def)
next
  case (path_step p sc ts q t w)
  have "fo_round fo (w sc) \<le> fo_round fo (w (bt_score (R ! p)))"
    using assms(1) path_step.IH ugm_edges_mono[OF assms(1) path_step.hyps(4)] by (simp add: float_ok_def)
  also have "\<dots> \<le> bt_score (R ! q)"
    using assms(2) path_step.hyps unfolding settled_def incoming_def by blast
  finally show ?case .
qed

lemma ugm_best_in_range:
  assumes "float_ok fo" "dict_in_range v tk" "scores_above fo v tk s" "s \<noteq> []"
  shows "\<exists>sc ts. ugm_path fo v tk s (length s) sc ts \<and> ugm_best fo v tk s = Inr (squeeze (special_unk_id v) False ts) \<and>
    (\<forall>sc' ts'. ugm_path fo v tk s (length s) sc' ts' \<longrightarrow> sc' \<le> sc)"
proof -
  let ?R0 = "(replicate (length s + 1) (init_entry fo v))[0 := \<lparr>bt_token = special_unk_id v, bt_offset = 0, bt_score = fo_zero fo\<rparr>]"
  have "rounded fo ?R0" using assms(1)
    by (auto simp: rounded_def float_ok_def init_entry_def dest!: set_update_subset_insert[THEN subsetD])
  then have "settled fo v tk s 0 ?R0" by (simp add: settled_def incoming_def nth_list_update del: replicate_Suc)
  then obtain R where R: "ugm_search fo v tk s 0 ?R0 = Inr R" "settled fo v tk s (length s) R" and b: "boundary s (length s)"
    using ugm_search_settles[OF assms(1-3) boundary_0] by blast
  have "\<exists>p t w. incoming fo v tk s (length s) (length s) p t w"
    using boundary_incoming[OF b order_refl] assms(4) by simp
  then obtain ts where ts: "ugm_path fo v tk s (length s) (bt_score (R ! length s)) ts"
    "ugm_backtrack v R (length s) (R ! length s) False [] = Inr (squeeze (special_unk_id v) False (rev ts))"
    using ugm_backtrack_path[OF R(2), of "length s"] assms(4) by auto
  have "ugm_best fo v tk s = Inr (squeeze (special_unk_id v) False ts)"
    using R(1) ts(2) by (simp add: ugm_best_def init_entry_def squeeze_rev Let_def)
  then show ?thesis using ts(1) path_below_table[OF assms(1) R(2)] by blast
qed

text \<open>The trie that the constructor builds holds ids of the vocabulary.\<close>

lemma make_tokenizer_in_range:
  assumes "make_tokenizer_ugm fo v charsmap = Inr tk" "v_type v \<noteq> LLAMA_VOCAB_TYPE_NONE"
  shows "dict_in_range v tk"
proof -
  let ?P = "\<lambda>(m :: 'a, t, u :: naive_trie). \<forall>s x. trie_lookup t s = Some x \<longrightarrow> 0 \<le> x \<and> nat x < n_tokens v"
  have step: "?P st'" if "?P st" "ugm_add_token v i st = Inr st'" for i st st'
    using that by (auto simp: ugm_add_token_def get_token_data_def vec_at_def n_tokens_def trie_lookup_insert split: prod.splits if_splits)
  have "?P st" if "fold_res (ugm_add_token v) [0..<n_tokens v] (fo_max fo, empty_trie, empty_trie) = Inr st" for st
    by (rule fold_res_keeps[where P = ?P, OF step _ that]) auto
  then show ?thesis using assms by (auto simp: make_tokenizer_ugm_def dict_in_range_def ugm_dict_def split: prod.splits)
qed

text \<open>
  C17. \<open>llm_tokenizer_ugm_session::tokenize\<close> after normalisation: the search ends without leaving its table, and what it
  returns is a best tokenization of the text. With the tables the constructor builds, there is a way to cut the text, character by character, into tokens of the trie and
  unknown characters whose score is at least that of every other way; the result is its tokens with runs of the unknown
  token squeezed into one. The scores are those the code computes, with its rounding; of the arithmetic only
  monotonicity is used, and that no sum falls to \<open>-FLT_MAX\<close>.
\<close>

theorem ugm_finds_best:
  assumes "float_ok fo" "v_type v = LLAMA_VOCAB_TYPE_UGM" "make_tokenizer_ugm fo v charsmap = Inr tk" "scores_above fo v tk s" "s \<noteq> []"
  shows "\<exists>sc ts. ugm_path fo v tk s (length s) sc ts \<and> ugm_best fo v tk s = Inr (squeeze (special_unk_id v) False ts) \<and>
    (\<forall>sc' ts'. ugm_path fo v tk s (length s) sc' ts' \<longrightarrow> sc' \<le> sc)"
  using ugm_best_in_range[OF assms(1) make_tokenizer_in_range[OF assms(3)] assms(4,5)] assms(2) by simp

text \<open>Scores as exact integers, and the tokens \<^verbatim>\<open>a\<close>, \<^verbatim>\<open>b\<close>, \<^verbatim>\<open>ab\<close> and \<^verbatim>\<open>ba\<close>.\<close>

definition ex_float :: "int float_ops" where
  "ex_float = \<lparr>fo_plus = (+), fo_round = (\<lambda>x. x), fo_minus10 = (\<lambda>x. x - 10), fo_zero = 0, fo_max = 1000000, fo_lowest = -1000000\<rparr>"

definition ex_ugm :: "int llama_vocab" where
  "ex_ugm = (ex_vocab LLAMA_VOCAB_TYPE_UGM)\<lparr>special_unk_id := 99,
     id_to_token := [ex_token [97] (-1), ex_token [98] (-2), ex_token [97, 98] (-4), ex_token [98, 97] (-1)]\<rparr>"

definition ex_ugm_tokenizer :: "int llm_tokenizer_ugm" where
  "ex_ugm_tokenizer = (case make_tokenizer_ugm ex_float ex_ugm [] of Inr tk \<Rightarrow> tk)"

lemma ex_ugm_made: "make_tokenizer_ugm ex_float ex_ugm [] = Inr ex_ugm_tokenizer"
proof -
  have "\<not> isl (make_tokenizer_ugm ex_float ex_ugm [])" by code_simp
  then show ?thesis by (auto simp: ex_ugm_tokenizer_def isl_def split: sum.split)
qed

lemma ex_ugm_weights: "(q, t, w) \<in> set (ugm_edges ex_float ex_ugm ex_ugm_tokenizer s p) \<Longrightarrow> sc - 20 \<le> w sc"
proof -
  assume e: "(q, t, w) \<in> set (ugm_edges ex_float ex_ugm ex_ugm_tokenizer s p)"
  have "\<forall>i < n_tokens ex_ugm. -20 \<le> ugm_weight ex_float ex_ugm (int i)" by code_simp
  moreover have "dict_in_range ex_ugm ex_ugm_tokenizer"
    by (rule make_tokenizer_in_range[OF ex_ugm_made]) (simp add: ex_ugm_def ex_vocab_def)
  ultimately have "-20 \<le> ugm_weight ex_float ex_ugm t" if "ugm_dict ex_ugm_tokenizer x = Some t" for x t
    using that by (auto simp: dict_in_range_def) (metis int_nat_eq)
  moreover have "-20 \<le> unknown_token_score ex_ugm_tokenizer" by code_simp
  ultimately show "sc - 20 \<le> w sc" using e by (fastforce simp: ex_float_def ugm_edges_def token_edges_def split: option.splits if_splits)
qed

lemma ex_ugm_above:
  assumes "length s < 1000"
  shows "scores_above ex_float ex_ugm ex_ugm_tokenizer s"
proof -
  have bound: "-20 * int p \<le> sc" if "ugm_path ex_float ex_ugm ex_ugm_tokenizer s p sc ts" for p sc ts
    using that
  proof (induction rule: ugm_path.induct)
    case (path_step p sc ts q t w)
    then show ?case using ex_ugm_weights[OF path_step.hyps(4), of sc] in_ugm_edges(1)[OF path_step.hyps(4,3)] by (simp add: ex_float_def)
  qed (simp add: ex_float_def)
  show ?thesis unfolding scores_above_def
  proof (intro allI impI)
    fix p sc ts q t w
    assume path: "ugm_path ex_float ex_ugm ex_ugm_tokenizer s p sc ts" and p: "p < length s"
      and e: "(q, t, w) \<in> set (ugm_edges ex_float ex_ugm ex_ugm_tokenizer s p)"
    have "-20 * int p - 20 \<le> w sc" using bound[OF path] ex_ugm_weights[OF e, of sc] by simp
    then show "fo_lowest ex_float < w sc" using p assms by (simp add: ex_float_def)
  qed
qed

theorem ugm_finds_best_witness:
  "(\<exists>sc ts. ugm_path ex_float ex_ugm ex_ugm_tokenizer [97, 98, 97, 99, 99] (length [97, 98, 97, 99, 99 :: u8]) sc ts \<and> [0, 3, 99] = squeeze 99 False ts \<and>
    (\<forall>sc' ts'. ugm_path ex_float ex_ugm ex_ugm_tokenizer [97, 98, 97, 99, 99] (length [97, 98, 97, 99, 99 :: u8]) sc' ts' \<longrightarrow> sc' \<le> sc)) \<and>
   ugm_best ex_float ex_ugm ex_ugm_tokenizer [97, 98, 97, 99, 99] = Inr [0, 3, 99]"
proof -
  have run: "ugm_best ex_float ex_ugm ex_ugm_tokenizer [97, 98, 97, 99, 99] = Inr [0, 3, 99]" by code_simp
  have "float_ok ex_float" by (simp add: float_ok_def ex_float_def)
  moreover have "v_type ex_ugm = LLAMA_VOCAB_TYPE_UGM" "special_unk_id ex_ugm = 99" by (simp_all add: ex_ugm_def ex_vocab_def)
  ultimately show ?thesis
    using ugm_finds_best[of ex_float ex_ugm "[]" ex_ugm_tokenizer "[97, 98, 97, 99, 99]"] ex_ugm_made ex_ugm_above run by simp
qed

end
