(* ===== verification/Tok_Split.thy ===== *)
theory Tok_Split
  imports Tok_Viterbi
begin

text \<open>
  Cutting special tokens out of a text: \<open>tokenizer_st_partition\<close> of \<open>src/llama-vocab.cpp\<close>. The forward list of fragments is a
  list; a fragment of raw text is its offset and length in the text. The iterator only moves over fragments that replace
  the one it was at, so the list is rebuilt fragment by fragment.
\<close>

section \<open>Definitions\<close>

text \<open>\<open>std::string::find\<close>.\<close>

fun find_sub :: "bytes \<Rightarrow> bytes \<Rightarrow> nat option" where
  "find_sub pat [] = (if pat = [] then Some 0 else None)"
| "find_sub pat (c # cs) = (if take (length pat) (c # cs) = pat then Some 0 else map_option Suc (find_sub pat cs))"

definition find_from :: "bytes \<Rightarrow> bytes \<Rightarrow> nat \<Rightarrow> nat option" where
  "find_from s pat pos = (if pos \<le> length s then map_option (\<lambda>k. pos + k) (find_sub pat (drop pos s)) else None)"

datatype fragment_buffer_variant = FragToken llama_token | FragText nat nat

text \<open>The loops that strip white space before and after a token.\<close>

fun strip_left :: "bytes \<Rightarrow> nat \<Rightarrow> nat \<Rightarrow> nat" where
  "strip_left raw off 0 = 0"
| "strip_left raw off (Suc len) = (if is_space (raw ! (off + len)) then strip_left raw off len else Suc len)"

fun strip_right :: "bytes \<Rightarrow> nat \<Rightarrow> nat \<Rightarrow> nat \<times> nat" where
  "strip_right raw off 0 = (off, 0)"
| "strip_right raw off (Suc len) = (if is_space (raw ! off) then strip_right raw (off + 1) len else (off, Suc len))"

text \<open>The constructor of a raw fragment, with its assertions.\<close>

definition raw_fragment :: "bytes \<Rightarrow> nat \<Rightarrow> nat \<Rightarrow> fragment_buffer_variant list res" where
  "raw_fragment raw off len = bind_res (ggml_assert (1 \<le> len \<and> off + len \<le> length raw)) (\<lambda>_. Inr [FragText off len])"

text \<open>The loop over one fragment: the fragments that replace it. When nothing is left on the right the loop ends.\<close>

fun split_fragment :: "bytes \<Rightarrow> bytes \<Rightarrow> u32 \<Rightarrow> llama_token \<Rightarrow> nat \<Rightarrow> nat \<Rightarrow> nat \<Rightarrow> fragment_buffer_variant list res" where
  "split_fragment raw text attr special_id 0 off len = Inl Diverge"
| "split_fragment raw text attr special_id (Suc fuel) off len =
     (case find_from raw text off of
        None \<Rightarrow> Inr [FragText off len]
      | Some m \<Rightarrow>
          if m + length text > off + len then Inr [FragText off len]
          else
           bind_res
             (if m > off then
                (let left_len = (if has_attr attr [ATTR_LSTRIP] then strip_left raw off (m - off) else m - off)
                 in if left_len > 0 then raw_fragment raw off left_len else Inr [])
              else Inr []) (\<lambda>left.
           bind_res
             (if m + length text < off + len then
                (let right_off = m + length text;
                     right_len = len - (m - off + length text);
                     (right_off, right_len) = (if has_attr attr [ATTR_RSTRIP] then strip_right raw right_off right_len
                                               else (right_off, right_len))
                 in if right_len > 0 then
                      bind_res (raw_fragment raw right_off right_len) (\<lambda>_.
                        split_fragment raw text attr special_id fuel right_off right_len)
                    else Inr [])
              else Inr []) (\<lambda>right.
             Inr (left @ [FragToken special_id] @ right))))"

text \<open>One special token over all fragments, then all special tokens.\<close>

definition split_fragments :: "bytes \<Rightarrow> bytes \<Rightarrow> u32 \<Rightarrow> llama_token \<Rightarrow> fragment_buffer_variant list \<Rightarrow> fragment_buffer_variant list res" where
  "split_fragments raw text attr special_id buffer =
     bind_res (map_res (\<lambda>f. case f of FragToken t \<Rightarrow> Inr [FragToken t]
                                 | FragText off len \<Rightarrow> split_fragment raw text attr special_id (Suc len) off len) buffer)
       (\<lambda>fss. Inr (concat fss))"

definition partition_step :: "'f llama_vocab \<Rightarrow> bytes \<Rightarrow> bool \<Rightarrow> llama_token \<Rightarrow> fragment_buffer_variant list \<Rightarrow> fragment_buffer_variant list res" where
  "partition_step v raw parse_special special_id buffer =
     bind_res (get_token_data v special_id) (\<lambda>d.
       if \<not> parse_special \<and> has_attr (td_attr d) [ATTR_CONTROL, ATTR_UNKNOWN] then Inr buffer
       else split_fragments raw (td_text d) (td_attr d) special_id buffer)"

definition tokenizer_st_partition :: "'f llama_vocab \<Rightarrow> bytes \<Rightarrow> bool \<Rightarrow> fragment_buffer_variant list \<Rightarrow> fragment_buffer_variant list res" where
  "tokenizer_st_partition v raw parse_special buffer = fold_res (partition_step v raw parse_special) (cache_special_tokens v) buffer"

section \<open>Occurrences\<close>

definition occurs :: "bytes \<Rightarrow> bytes \<Rightarrow> bool" where
  "occurs pat s \<longleftrightarrow> (\<exists>k. k + length pat \<le> length s \<and> take (length pat) (drop k s) = pat)"

lemma find_sub_Some:
  "find_sub pat s = Some k \<Longrightarrow> k + length pat \<le> length s \<and> take (length pat) (drop k s) = pat \<and>
     (\<forall>j < k. take (length pat) (drop j s) \<noteq> pat)"
proof (induction pat s arbitrary: k rule: find_sub.induct)
  case (2 pat c cs)
  show ?case
  proof (cases "take (length pat) (c # cs) = pat")
    case True
    then have "k = 0" using "2.prems" by simp
    moreover have "length pat \<le> length (c # cs)" using True by (metis length_take min.cobounded1)
    ultimately show ?thesis using True by simp
  next
    case False
    then obtain k' where k': "find_sub pat cs = Some k'" "k = Suc k'" using "2.prems" by auto
    note IH = "2.IH"[OF False k'(1)]
    have "take (length pat) (drop j (c # cs)) \<noteq> pat" if "j < k" for j
      using that False IH k'(2) by (cases j) auto
    then show ?thesis using IH k'(2) by simp
  qed
qed (auto split: if_splits)

lemma find_sub_None: "find_sub pat s = None \<Longrightarrow> k \<le> length s \<Longrightarrow> take (length pat) (drop k s) \<noteq> pat"
proof (induction pat s arbitrary: k rule: find_sub.induct)
  case (2 pat c cs)
  then show ?case by (cases k) (auto split: if_splits)
qed (auto split: if_splits)

lemma occurs_take:
  assumes "off + len \<le> length raw"
  shows "occurs pat (take len (drop off raw)) \<longleftrightarrow> (\<exists>k. k + length pat \<le> len \<and> take (length pat) (drop (off + k) raw) = pat)"
proof -
  have "take (length pat) (drop k (take len (drop off raw))) = take (length pat) (drop (off + k) raw)"
    if "k + length pat \<le> len" for k
  proof -
    have "min (length pat) (len - k) = length pat" using that by simp
    then show ?thesis by (simp add: drop_take add.commute)
  qed
  moreover have "length (take len (drop off raw)) = len" using assms by simp
  ultimately show ?thesis unfolding occurs_def by metis
qed

text \<open>A text without the pattern has no part with it.\<close>

lemma occurs_part:
  assumes "occurs pat (take l (drop o1 raw))" "off \<le> o1" "o1 + l \<le> off + len" "off + len \<le> length raw"
  shows "occurs pat (take len (drop off raw))"
proof -
  obtain k where k: "k + length pat \<le> l" "take (length pat) (drop (o1 + k) raw) = pat"
    using assms occurs_take[of o1 l raw pat] by auto
  have "off + (o1 - off + k) = o1 + k" using assms(2) by simp
  then show ?thesis using k assms(2-4) by (subst occurs_take) (auto intro!: exI[of _ "o1 - off + k"])
qed

lemma find_from_Some:
  assumes "find_from raw pat off = Some m"
  shows "off \<le> m \<and> m + length pat \<le> length raw \<and> take (length pat) (drop m raw) = pat \<and>
    (\<forall>j. off \<le> j \<and> j < m \<longrightarrow> take (length pat) (drop j raw) \<noteq> pat)"
proof -
  obtain k where k: "find_sub pat (drop off raw) = Some k" "m = off + k" "off \<le> length raw"
    using assms by (auto simp: find_from_def split: if_splits)
  note s = find_sub_Some[OF k(1)]
  have "take (length pat) (drop j raw) \<noteq> pat" if "off \<le> j" "j < m" for j
    using s that k by (auto dest!: spec[of _ "j - off"])
  then show ?thesis using s k by (auto simp: add.commute)
qed

lemma no_match_before:
  assumes "find_from raw pat off = Some m" "off + len < m + length pat" "off + len \<le> length raw"
  shows "\<not> occurs pat (take len (drop off raw))"
proof
  assume "occurs pat (take len (drop off raw))"
  then obtain k where k: "k + length pat \<le> len" "take (length pat) (drop (off + k) raw) = pat"
    using assms(3) occurs_take[of off len raw pat] by auto
  then show False using find_from_Some[OF assms(1)] assms(2) by (auto dest!: spec[of _ "off + k"])
qed

lemma no_match_at_all:
  assumes "find_from raw pat off = None" "off + len \<le> length raw"
  shows "\<not> occurs pat (take len (drop off raw))"
proof
  assume "occurs pat (take len (drop off raw))"
  then obtain k where k: "k + length pat \<le> len" "take (length pat) (drop k (drop off raw)) = pat"
    using assms(2) occurs_take[of off len raw pat] by (auto simp: add.commute)
  moreover have "find_sub pat (drop off raw) = None" using assms by (auto simp: find_from_def split: if_splits)
  ultimately show False using find_sub_None[of pat "drop off raw" k] assms(2) by (simp del: drop_drop)
qed

section \<open>What a cut keeps\<close>

text \<open>The text a fragment stands for, and what a fragment may be once a token has been cut out.\<close>

definition frag_text :: "bytes \<Rightarrow> (llama_token \<Rightarrow> bytes) \<Rightarrow> fragment_buffer_variant \<Rightarrow> bytes" where
  "frag_text raw tx f = (case f of FragToken t \<Rightarrow> tx t | FragText off len \<Rightarrow> take len (drop off raw))"

definition frag_inside :: "bytes \<Rightarrow> nat \<Rightarrow> nat \<Rightarrow> fragment_buffer_variant \<Rightarrow> bool" where
  "frag_inside raw off len f \<longleftrightarrow>
     (case f of FragToken t \<Rightarrow> True | FragText o1 l1 \<Rightarrow> 1 \<le> l1 \<and> off \<le> o1 \<and> o1 + l1 \<le> off + len \<and> off + len \<le> length raw)"

definition frag_free :: "bytes \<Rightarrow> bytes \<Rightarrow> fragment_buffer_variant \<Rightarrow> bool" where
  "frag_free raw pat f \<longleftrightarrow> (case f of FragToken t \<Rightarrow> True | FragText o1 l1 \<Rightarrow> \<not> occurs pat (take l1 (drop o1 raw)))"

lemma frag_simps [simp]:
  "frag_text raw tx (FragToken t) = tx t" "frag_text raw tx (FragText off len) = take len (drop off raw)"
  "frag_inside raw off len (FragToken t)" "frag_free raw pat (FragToken t)"
  "frag_inside raw off len (FragText o1 l1) \<longleftrightarrow> 1 \<le> l1 \<and> off \<le> o1 \<and> o1 + l1 \<le> off + len \<and> off + len \<le> length raw"
  "frag_free raw pat (FragText o1 l1) \<longleftrightarrow> \<not> occurs pat (take l1 (drop o1 raw))"
  by (simp_all add: frag_text_def frag_inside_def frag_free_def)

text \<open>A fragment with the blanks that were stripped on its left and on its right: only tokens strip, each on the sides its
  attributes say.\<close>

definition stripped :: "(llama_token \<Rightarrow> u32) \<Rightarrow> fragment_buffer_variant \<Rightarrow> bytes \<Rightarrow> bytes \<Rightarrow> bool" where
  "stripped at f l r \<longleftrightarrow> list_all is_space l \<and> list_all is_space r \<and>
     (l \<noteq> [] \<longrightarrow> (\<exists>t. f = FragToken t \<and> has_attr (at t) [ATTR_LSTRIP])) \<and>
     (r \<noteq> [] \<longrightarrow> (\<exists>t. f = FragToken t \<and> has_attr (at t) [ATTR_RSTRIP]))"

text \<open>The fragments, each between the blanks it lost, are the text.\<close>

definition covers :: "bytes \<Rightarrow> (llama_token \<Rightarrow> bytes) \<Rightarrow> (llama_token \<Rightarrow> u32) \<Rightarrow> fragment_buffer_variant list \<Rightarrow> bytes \<Rightarrow> bool" where
  "covers raw tx at fs s \<longleftrightarrow>
     (\<exists>gs. map fst gs = fs \<and> s = concat (map (\<lambda>(f, l, r). l @ frag_text raw tx f @ r) gs) \<and> (\<forall>(f, l, r) \<in> set gs. stripped at f l r))"

text \<open>Neighbours: no blank is left beside a token that strips it, and no two texts follow each other.\<close>

fun beside :: "bytes \<Rightarrow> (llama_token \<Rightarrow> u32) \<Rightarrow> fragment_buffer_variant \<Rightarrow> fragment_buffer_variant \<Rightarrow> bool" where
  "beside raw at (FragText off len) (FragToken t) \<longleftrightarrow> (has_attr (at t) [ATTR_LSTRIP] \<longrightarrow> \<not> is_space (raw ! (off + len - 1)))"
| "beside raw at (FragToken t) (FragText off len) \<longleftrightarrow> (has_attr (at t) [ATTR_RSTRIP] \<longrightarrow> \<not> is_space (raw ! off))"
| "beside raw at (FragText _ _) (FragText _ _) \<longleftrightarrow> False"
| "beside raw at (FragToken _) (FragToken _) \<longleftrightarrow> True"

lemma stripped_text [simp]: "stripped at (FragText off len) l r \<longleftrightarrow> l = [] \<and> r = []"
  by (auto simp: stripped_def)

lemma covers_Nil [simp]: "covers raw tx at [] s \<longleftrightarrow> s = []"
  by (auto simp: covers_def)

lemma covers_single: "stripped at f l r \<Longrightarrow> covers raw tx at [f] (l @ frag_text raw tx f @ r)"
  unfolding covers_def by (rule exI[of _ "[(f, l, r)]"]) simp

lemma covers_text: "covers raw tx at [FragText off len] (take len (drop off raw))"
  using covers_single[of at "FragText off len" "[]" "[]" raw tx] by simp

lemma covers_append:
  assumes "covers raw tx at fs s" "covers raw tx at gs s'"
  shows "covers raw tx at (fs @ gs) (s @ s')"
proof -
  obtain a b where "map fst a = fs" "s = concat (map (\<lambda>(f, l, r). l @ frag_text raw tx f @ r) a)" "\<forall>(f, l, r) \<in> set a. stripped at f l r"
    "map fst b = gs" "s' = concat (map (\<lambda>(f, l, r). l @ frag_text raw tx f @ r) b)" "\<forall>(f, l, r) \<in> set b. stripped at f l r"
    using assms unfolding covers_def by blast
  then show ?thesis unfolding covers_def by (intro exI[of _ "a @ b"]) auto
qed

lemma covers_Cons:
  assumes "covers raw tx at (f # fs) s"
  obtains l r s' where "s = (l @ frag_text raw tx f @ r) @ s'" "stripped at f l r" "covers raw tx at fs s'"
proof -
  obtain gs0 where gs0: "map fst gs0 = f # fs" "s = concat (map (\<lambda>(f, l, r). l @ frag_text raw tx f @ r) gs0)"
    "\<forall>(f, l, r) \<in> set gs0. stripped at f l r"
    using assms[unfolded covers_def] by (elim exE conjE)
  obtain l r gs where g: "gs0 = (f, l, r) # gs" "map fst gs = fs" using gs0(1) by (cases gs0) auto
  have "covers raw tx at fs (concat (map (\<lambda>(f, l, r). l @ frag_text raw tx f @ r) gs))"
    unfolding covers_def using gs0(3) g by (intro exI[of _ gs]) simp
  moreover have "s = (l @ frag_text raw tx f @ r) @ concat (map (\<lambda>(f, l, r). l @ frag_text raw tx f @ r) gs)"
    "stripped at f l r" using gs0(2,3) g(1) by simp_all
  ultimately show ?thesis by (intro that)
qed

text \<open>Fragments may be replaced by fragments that cover them.\<close>

lemma covers_concat:
  assumes "list_all2 (\<lambda>f fs. \<forall>l r. stripped at f l r \<longrightarrow> covers raw tx at fs (l @ frag_text raw tx f @ r)) buf fss"
  shows "covers raw tx at buf s \<Longrightarrow> covers raw tx at (concat fss) s"
  using assms
proof (induction arbitrary: s rule: list_all2_induct)
  case (Cons f buf fs fss)
  obtain l r s' where s: "s = (l @ frag_text raw tx f @ r) @ s'" "stripped at f l r" "covers raw tx at buf s'"
    by (rule covers_Cons[OF Cons.prems])
  then show ?case using Cons.IH[of s'] Cons.hyps covers_append by fastforce
qed simp

lemma covers_plain:
  assumes "covers raw tx at fs s" "\<And>t. FragToken t \<in> set fs \<Longrightarrow> \<not> has_attr (at t) [ATTR_LSTRIP] \<and> \<not> has_attr (at t) [ATTR_RSTRIP]"
  shows "concat (map (frag_text raw tx) fs) = s"
  using assms
proof (induction fs arbitrary: s)
  case (Cons f fs)
  obtain l r s' where s: "s = (l @ frag_text raw tx f @ r) @ s'" "stripped at f l r" "covers raw tx at fs s'"
    by (rule covers_Cons[OF Cons.prems(1)])
  then have "l = [] \<and> r = []" using Cons.prems(2) by (auto simp: stripped_def)
  then show ?case using Cons.IH[OF s(3)] Cons.prems(2) s(1) by simp
qed simp

lemma strip_left_spec:
  "off + len \<le> length raw \<Longrightarrow> strip_left raw off len \<le> len \<and>
     (\<exists>b. list_all is_space b \<and> take len (drop off raw) = take (strip_left raw off len) (drop off raw) @ b) \<and>
     (0 < strip_left raw off len \<longrightarrow> \<not> is_space (raw ! (off + strip_left raw off len - 1)))"
proof (induction len)
  case (Suc len)
  have t: "take (Suc len) (drop off raw) = take len (drop off raw) @ [raw ! (off + len)]"
    using Suc.prems by (simp add: take_Suc_conv_app_nth)
  show ?case
  proof (cases "is_space (raw ! (off + len))")
    case True
    obtain b where "list_all is_space b" "take len (drop off raw) = take (strip_left raw off len) (drop off raw) @ b"
      using Suc by auto
    then have "list_all is_space (b @ [raw ! (off + len)]) \<and>
      take (Suc len) (drop off raw) = take (strip_left raw off len) (drop off raw) @ (b @ [raw ! (off + len)])"
      using t True by simp
    then show ?thesis using Suc True by (auto simp del: append_assoc list_all_append)
  qed simp
qed simp

lemma strip_right_spec:
  "off + len \<le> length raw \<Longrightarrow> strip_right raw off len = (o2, l2) \<Longrightarrow> off \<le> o2 \<and> o2 + l2 = off + len \<and>
     (\<exists>b. list_all is_space b \<and> take len (drop off raw) = b @ take l2 (drop o2 raw)) \<and> (0 < l2 \<longrightarrow> \<not> is_space (raw ! o2))"
proof (induction raw off len rule: strip_right.induct)
  case (2 raw off len)
  have t: "take (Suc len) (drop off raw) = raw ! off # take len (drop (Suc off) raw)"
    using "2.prems" by (simp add: Cons_nth_drop_Suc[symmetric])
  show ?case
  proof (cases "is_space (raw ! off)")
    case True
    then obtain b where b: "off + 1 \<le> o2 \<and> o2 + l2 = off + 1 + len" "list_all is_space b"
      "take len (drop (off + 1) raw) = b @ take l2 (drop o2 raw)" "0 < l2 \<longrightarrow> \<not> is_space (raw ! o2)"
      using 2 by auto
    then show ?thesis using t True by (auto intro!: exI[of _ "raw ! off # b"])
  qed (use "2.prems" in \<open>auto intro!: exI[of _ "[]"]\<close>)
qed simp

text \<open>What replaces a stretch of text when one token is cut out of it.\<close>

definition cut_ok :: "bytes \<Rightarrow> (llama_token \<Rightarrow> bytes) \<Rightarrow> (llama_token \<Rightarrow> u32) \<Rightarrow> llama_token \<Rightarrow> nat \<Rightarrow> nat \<Rightarrow> fragment_buffer_variant list \<Rightarrow> bool" where
  "cut_ok raw tx at t off len fs \<longleftrightarrow>
     (\<forall>f\<in>set fs. frag_inside raw off len f \<and> frag_free raw (tx t) f \<and> (\<forall>t'. f = FragToken t' \<longrightarrow> t' = t)) \<and>
     covers raw tx at fs (take len (drop off raw)) \<and> successively (beside raw at) fs \<and> fs \<noteq> [] \<and>
     (\<forall>o1 l1. hd fs = FragText o1 l1 \<longrightarrow> o1 = off) \<and> (\<forall>o1 l1. last fs = FragText o1 l1 \<longrightarrow> o1 + l1 = off + len)"

lemma cut_okI:
  assumes "off + len \<le> length raw" "1 \<le> len" "\<not> occurs (tx t) (take len (drop off raw))"
  shows "cut_ok raw tx at t off len [FragText off len]"
  using assms by (simp add: cut_ok_def covers_text)

text \<open>A match splits a stretch of text into what is left of it, the token and what is right of it.\<close>

lemma text_around_match:
  assumes "off \<le> m" "m + length pat \<le> off + len" "take (length pat) (drop m raw) = pat"
  shows "take len (drop off raw) =
    take (m - off) (drop off raw) @ pat @ take (len - (m - off + length pat)) (drop (m + length pat) raw)"
proof -
  have "take len (drop off raw) = take (m - off) (drop off raw) @ take (len - (m - off)) (drop m raw)"
    using assms take_add[of "m - off" "len - (m - off)" "drop off raw"] by simp
  also have "take (len - (m - off)) (drop m raw) =
    take (length pat) (drop m raw) @ take (len - (m - off + length pat)) (drop (m + length pat) raw)"
    using assms take_add[of "length pat" "len - (m - off) - length pat" "drop m raw"] by (simp add: add.commute)
  finally show ?thesis using assms(3) by simp
qed

text \<open>The part left of a match, with the blanks stripped from its end, and the part right of it.\<close>

lemma left_part:
  assumes "find_from raw pat off = Some m" "m + length pat \<le> off + len" "off + len \<le> length raw"
    and "l = (if b then strip_left raw off (m - off) else m - off)" "pat \<noteq> []"
  shows "l \<le> m - off" "\<not> occurs pat (take l (drop off raw))"
    "\<exists>bl. list_all is_space bl \<and> (bl \<noteq> [] \<longrightarrow> b) \<and> take (m - off) (drop off raw) = take l (drop off raw) @ bl"
    "b \<Longrightarrow> 0 < l \<Longrightarrow> \<not> is_space (raw ! (off + l - 1))"
proof -
  note f = find_from_Some[OF assms(1)]
  note s = strip_left_spec[of off "m - off" raw]
  have le: "off + (m - off) \<le> length raw" using assms(2,3) f by simp
  show l: "l \<le> m - off" using assms(4) s le by simp
  show "\<exists>bl. list_all is_space bl \<and> (bl \<noteq> [] \<longrightarrow> b) \<and> take (m - off) (drop off raw) = take l (drop off raw) @ bl"
    using s[OF le] assms(4) by (cases b) auto
  show "b \<Longrightarrow> 0 < l \<Longrightarrow> \<not> is_space (raw ! (off + l - 1))" using s[OF le] assms(4) by simp
  have "\<not> occurs pat (take (m - off) (drop off raw))"
    using assms(2,3,5) f by (intro no_match_before[OF assms(1)]) auto
  moreover have "off + l \<le> off + (m - off)" using l by linarith
  ultimately show "\<not> occurs pat (take l (drop off raw))"
    using occurs_part[of pat l off raw off "m - off"] le by blast
qed

lemma right_part:
  assumes "(if b then strip_right raw off len else (off, len)) = (o2, l2)" "off + len \<le> length raw"
  shows "off \<le> o2" "o2 + l2 = off + len"
    "\<exists>br. list_all is_space br \<and> (br \<noteq> [] \<longrightarrow> b) \<and> take len (drop off raw) = br @ take l2 (drop o2 raw)"
    "b \<Longrightarrow> 0 < l2 \<Longrightarrow> \<not> is_space (raw ! o2)"
proof -
  have "off \<le> o2 \<and> o2 + l2 = off + len \<and>
    (\<exists>br. list_all is_space br \<and> (br \<noteq> [] \<longrightarrow> b) \<and> take len (drop off raw) = br @ take l2 (drop o2 raw)) \<and>
    (b \<longrightarrow> 0 < l2 \<longrightarrow> \<not> is_space (raw ! o2))"
  proof (cases b)
    case True
    then show ?thesis using strip_right_spec[OF assms(2), of o2 l2] assms(1) by simp
  next
    case False
    then show ?thesis using assms(1) by (auto intro!: exI[of _ "[]"])
  qed
  then show "off \<le> o2" "o2 + l2 = off + len"
    "\<exists>br. list_all is_space br \<and> (br \<noteq> [] \<longrightarrow> b) \<and> take len (drop off raw) = br @ take l2 (drop o2 raw)"
    "b \<Longrightarrow> 0 < l2 \<Longrightarrow> \<not> is_space (raw ! o2)"
    by blast+
qed

lemma cut_ok_join:
  assumes m: "off \<le> m" "m + length (tx t) \<le> off + len" "off + len \<le> length raw" "take (length (tx t)) (drop m raw) = tx t"
    and l: "l \<le> m - off" "\<not> occurs (tx t) (take l (drop off raw))"
      "take (m - off) (drop off raw) = take l (drop off raw) @ bl" "has_attr (at t) [ATTR_LSTRIP] \<Longrightarrow> 0 < l \<Longrightarrow> \<not> is_space (raw ! (off + l - 1))"
    and r: "m + length (tx t) \<le> o2" "o2 + l2 = off + len" "if 0 < l2 then cut_ok raw tx at t o2 l2 fs else fs = []"
      "take (len - (m - off + length (tx t))) (drop (m + length (tx t)) raw) = br @ take l2 (drop o2 raw)"
      "has_attr (at t) [ATTR_RSTRIP] \<Longrightarrow> 0 < l2 \<Longrightarrow> \<not> is_space (raw ! o2)"
    and b: "stripped at (FragToken t) bl br"
  shows "cut_ok raw tx at t off len ((if l > 0 then [FragText off l] else []) @ FragToken t # fs)"
proof -
  have left: "covers raw tx at (if l > 0 then [FragText off l] else []) (take l (drop off raw))" by (simp add: covers_text)
  have right: "covers raw tx at fs (take l2 (drop o2 raw))" using r(3) by (cases "0 < l2") (simp_all add: cut_ok_def)
  have "covers raw tx at ((if l > 0 then [FragText off l] else []) @ [FragToken t] @ fs)
    (take l (drop off raw) @ (bl @ tx t @ br) @ take l2 (drop o2 raw))"
    using covers_append[OF left covers_append[OF covers_single[OF b] right]] by simp
  then have c: "covers raw tx at ((if l > 0 then [FragText off l] else []) @ FragToken t # fs) (take len (drop off raw))"
    unfolding text_around_match[OF m(1,2,4)] l(3) r(4) by simp
  have "frag_inside raw off len f" if "frag_inside raw o2 l2 f" for f
    using that r(1,2) m(1,3) by (cases f) auto
  then have mem: "\<forall>f\<in>set fs. frag_inside raw off len f \<and> frag_free raw (tx t) f \<and> (\<forall>t'. f = FragToken t' \<longrightarrow> t' = t)"
    using r(3) by (auto simp: cut_ok_def split: if_splits)
  have nb: "beside raw at (FragToken t) (hd fs)" "successively (beside raw at) fs" "\<And>o1 l1. last fs = FragText o1 l1 \<Longrightarrow> o1 + l1 = off + len"
    if "fs \<noteq> []"
  proof -
    have 2: "0 < l2" "cut_ok raw tx at t o2 l2 fs" using that r(3) by (auto split: if_splits)
    then show "beside raw at (FragToken t) (hd fs)" using r(5) by (cases "hd fs") (auto simp: cut_ok_def)
    show "successively (beside raw at) fs" "\<And>o1 l1. last fs = FragText o1 l1 \<Longrightarrow> o1 + l1 = off + len" using 2 r(2) by (auto simp: cut_ok_def)
  qed
  have "successively (beside raw at) ((if l > 0 then [FragText off l] else []) @ FragToken t # fs)"
    using nb(1,2) l(4) by (cases "fs = []") (auto simp: successively_append_iff successively_Cons)
  moreover have "o1 + l1 = off + len" if "last ((if l > 0 then [FragText off l] else []) @ FragToken t # fs) = FragText o1 l1" for o1 l1
    using that nb(3) by (cases "fs = []") auto
  moreover have "frag_inside raw off len (FragText off l) \<and> frag_free raw (tx t) (FragText off l)" if "0 < l"
    using that l(1,2) m(1-3) by simp
  ultimately show ?thesis using c mem unfolding cut_ok_def by auto
qed

lemma split_fragment_cuts:
  assumes "tx t \<noteq> []" "attr = at t"
  shows "len < fuel \<Longrightarrow> 1 \<le> len \<Longrightarrow> off + len \<le> length raw \<Longrightarrow>
    \<exists>fs. split_fragment raw (tx t) attr t fuel off len = Inr fs \<and> cut_ok raw tx at t off len fs"
proof (induction fuel arbitrary: off len)
  case (Suc fuel)
  show ?case
  proof (cases "find_from raw (tx t) off")
    case None
    then show ?thesis using Suc.prems no_match_at_all[OF None] cut_okI by simp
  next
    case (Some m)
    note f = find_from_Some[OF Some]
    show ?thesis
    proof (cases "m + length (tx t) > off + len")
      case True
      then show ?thesis using Some Suc.prems no_match_before[OF Some] cut_okI by simp
    next
      case False
      define l where "l = (if has_attr attr [ATTR_LSTRIP] then strip_left raw off (m - off) else m - off)"
      define r where "r = len - (m - off + length (tx t))"
      obtain o2 l2 where ol: "(if has_attr attr [ATTR_RSTRIP] then strip_right raw (m + length (tx t)) r
        else (m + length (tx t), r)) = (o2, l2)" by fastforce
      have le: "m + length (tx t) \<le> off + len" "m + length (tx t) + r = off + len" using False f by (simp_all add: r_def)
      note left = left_part[OF Some le(1) Suc.prems(3) l_def assms(1)]
      have right_le: "m + length (tx t) + r \<le> length raw" using le(2) Suc.prems(3) by simp
      note right = right_part[OF ol right_le]
      obtain bl where bl: "list_all is_space bl" "bl \<noteq> [] \<longrightarrow> has_attr attr [ATTR_LSTRIP]"
        "take (m - off) (drop off raw) = take l (drop off raw) @ bl" using left(3) by blast
      obtain br where br: "list_all is_space br" "br \<noteq> [] \<longrightarrow> has_attr attr [ATTR_RSTRIP]"
        "take r (drop (m + length (tx t)) raw) = br @ take l2 (drop o2 raw)" using right(3) by blast
      have strip: "stripped at (FragToken t) bl br" using bl br assms(2) by (simp add: stripped_def)
      have "l2 < len" using right(1,2) le f assms(1) by (cases "tx t") auto
      then have "\<exists>fs. (if l2 > 0 then split_fragment raw (tx t) attr t fuel o2 l2 else Inr []) = Inr fs \<and>
        (if 0 < l2 then cut_ok raw tx at t o2 l2 fs else fs = [])"
        using Suc.IH[of l2 o2] Suc.prems right(2) le(2) by simp
      then obtain fs where fs: "(if l2 > 0 then split_fragment raw (tx t) attr t fuel o2 l2 else Inr []) = Inr fs"
        "if 0 < l2 then cut_ok raw tx at t o2 l2 fs else fs = []" by blast
      have "cut_ok raw tx at t off len ((if l > 0 then [FragText off l] else []) @ FragToken t # fs)"
      proof (rule cut_ok_join[OF _ le(1) Suc.prems(3) _ left(1,2) bl(3) _ right(1) _ fs(2) _ _ strip])
        show "take (len - (m - off + length (tx t))) (drop (m + length (tx t)) raw) = br @ take l2 (drop o2 raw)"
          using br(3) by (simp add: r_def)
      qed (use f left(4) right(2,4) le(2) assms(2) in simp_all)
      moreover have "split_fragment raw (tx t) attr t (Suc fuel) off len =
        Inr ((if l > 0 then [FragText off l] else []) @ FragToken t # fs)"
        using Some False ol fs(1) right(1,2) left(1) Suc.prems f le
        by (auto simp: Let_def raw_fragment_def r_def l_def[symmetric] split: if_splits)
      ultimately show ?thesis by blast
    qed
  qed
qed simp

section \<open>The partition\<close>

definition token_text :: "'f llama_vocab \<Rightarrow> llama_token \<Rightarrow> bytes" where
  "token_text v t = (case get_token_data v t of Inr d \<Rightarrow> td_text d | Inl _ \<Rightarrow> [])"

definition token_attr :: "'f llama_vocab \<Rightarrow> llama_token \<Rightarrow> u32" where
  "token_attr v t = (case get_token_data v t of Inr d \<Rightarrow> td_attr d | Inl _ \<Rightarrow> 0)"

text \<open>The special tokens that are cut out.\<close>

definition parsed :: "'f llama_vocab \<Rightarrow> bool \<Rightarrow> llama_token \<Rightarrow> bool" where
  "parsed v ps t \<longleftrightarrow> ps \<or> \<not> has_attr (token_attr v t) [ATTR_CONTROL, ATTR_UNKNOWN]"

definition special_ok :: "'f llama_vocab \<Rightarrow> llama_token \<Rightarrow> bool" where
  "special_ok v t \<longleftrightarrow> (\<exists>d. get_token_data v t = Inr d) \<and> token_text v t \<noteq> []"

text \<open>The state of the partition after some of the special tokens.\<close>

definition partition_ok :: "'f llama_vocab \<Rightarrow> bytes \<Rightarrow> bool \<Rightarrow> llama_token list \<Rightarrow> fragment_buffer_variant list \<Rightarrow> bool" where
  "partition_ok v raw ps ts fs \<longleftrightarrow>
     (\<forall>f\<in>set fs. frag_inside raw 0 (length raw) f \<and>
        (\<forall>t\<in>set ts. parsed v ps t \<longrightarrow> frag_free raw (token_text v t) f) \<and>
        (\<forall>t. f = FragToken t \<longrightarrow> t \<in> set ts \<and> parsed v ps t)) \<and>
     covers raw (token_text v) (token_attr v) fs raw \<and> successively (beside raw (token_attr v)) fs"

lemma map_res_all:
  "(\<And>x. x \<in> set xs \<Longrightarrow> \<exists>y. f x = Inr y \<and> P x y) \<Longrightarrow> \<exists>ys. map_res f xs = Inr ys \<and> list_all2 P xs ys"
proof (induction xs)
  case (Cons x xs)
  obtain y where "f x = Inr y" "P x y" using Cons.prems[of x] by auto
  moreover obtain ys where "map_res f xs = Inr ys" "list_all2 P xs ys" using Cons.IH Cons.prems by auto
  ultimately show ?case by (intro exI[of _ "y # ys"]) simp
qed simp

text \<open>What replaces a fragment when one token is cut out.\<close>

definition replaces :: "bytes \<Rightarrow> (llama_token \<Rightarrow> bytes) \<Rightarrow> (llama_token \<Rightarrow> u32) \<Rightarrow> llama_token \<Rightarrow> fragment_buffer_variant \<Rightarrow> fragment_buffer_variant list \<Rightarrow> bool" where
  "replaces raw tx at t f fs \<longleftrightarrow>
     (case f of FragToken t' \<Rightarrow> fs = [FragToken t'] | FragText off len \<Rightarrow> cut_ok raw tx at t off len fs)"

lemma split_fragments_replaces:
  assumes "tx t \<noteq> []" "\<forall>f\<in>set buf. frag_inside raw 0 (length raw) f"
  shows "\<exists>fss. split_fragments raw (tx t) (at t) t buf = Inr (concat fss) \<and> list_all2 (replaces raw tx at t) buf fss"
proof -
  let ?f = "\<lambda>f. case f of FragToken t' \<Rightarrow> Inr [FragToken t'] | FragText off len \<Rightarrow> split_fragment raw (tx t) (at t) t (Suc len) off len"
  have "\<exists>fs. ?f f = Inr fs \<and> replaces raw tx at t f fs" if "f \<in> set buf" for f
    using split_fragment_cuts[where tx = tx and t = t and raw = raw and at = at and attr = "at t"] assms that
    by (cases f) (force simp: replaces_def simp del: split_fragment.simps)+
  then have "\<exists>fss. map_res ?f buf = Inr fss \<and> list_all2 (replaces raw tx at t) buf fss"
    by (rule map_res_all)
  then show ?thesis by (auto simp: split_fragments_def)
qed

text \<open>Replacing keeps the text covered and the neighbours in order: a replaced text begins and ends where it did, unless with a token.\<close>

lemma replaces_covers:
  assumes "replaces raw tx at t f fs" "stripped at f l r"
  shows "covers raw tx at fs (l @ frag_text raw tx f @ r)"
proof (cases f)
  case (FragToken u)
  then have "fs = [f]" using assms(1) by (simp add: replaces_def)
  then show ?thesis using covers_single[OF assms(2)] by simp
qed (use assms in \<open>simp add: replaces_def cut_ok_def\<close>)

lemma replaces_seq:
  assumes "replaces raw tx at t f fs"
  shows "fs \<noteq> []" "successively (beside raw at) fs"
  using assms by (auto simp: replaces_def cut_ok_def split: fragment_buffer_variant.splits)

lemma replaces_beside:
  assumes "replaces raw tx at t f fs" "replaces raw tx at t g gs" "beside raw at f g"
  shows "beside raw at (last fs) (hd gs)"
proof (cases f)
  case f: (FragToken u)
  then have "last fs = FragToken u" using assms(1) by (simp add: replaces_def)
  then show ?thesis using assms(2,3) f by (cases g; cases "hd gs") (auto simp: replaces_def cut_ok_def)
next
  case f: (FragText off len)
  then obtain u where "g = FragToken u" using assms(3) by (cases g) auto
  then have "hd gs = FragToken u" "g = FragToken u" using assms(2) by (simp_all add: replaces_def)
  then show ?thesis using assms(1,3) f by (cases "last fs") (auto simp: replaces_def cut_ok_def)
qed

lemma replaces_successively:
  assumes "list_all2 (replaces raw tx at t) buf fss"
  shows "successively (beside raw at) buf \<Longrightarrow> successively (beside raw at) (concat fss)"
  using assms
proof (induction rule: list_all2_induct)
  case (Cons f buf fs fss)
  have "successively (beside raw at) buf" using Cons.prems by (auto simp: successively_Cons)
  then have IH: "successively (beside raw at) (concat fss)" by (rule Cons.IH)
  show ?case
  proof (cases fss)
    case Nil
    then show ?thesis using replaces_seq(2)[OF Cons.hyps(1)] by (simp del: successively.simps)
  next
    case fss: (Cons gs fss')
    then obtain g buf' where g: "buf = g # buf'" "replaces raw tx at t g gs" using Cons.hyps(2) by (auto simp: list_all2_Cons2)
    then have "beside raw at (last fs) (hd gs)" using replaces_beside[OF Cons.hyps(1) g(2)] Cons.prems by simp
    moreover have "hd (concat fss) = hd gs" using fss replaces_seq(1)[OF g(2)] by simp
    ultimately show ?thesis using IH replaces_seq(2)[OF Cons.hyps(1)] by (simp add: successively_append_iff)
  qed
qed simp

lemma replaced_fragment:
  assumes "replaces raw tx at t f fs" "frag_inside raw 0 (length raw) f" "f' \<in> set fs"
  shows "frag_inside raw 0 (length raw) f'" "frag_free raw (tx t) f'"
    "frag_free raw pat f \<Longrightarrow> frag_free raw pat f'" "f' = FragToken t' \<Longrightarrow> t' = t \<or> f = FragToken t'"
  using assms occurs_part[of pat] by (auto simp: replaces_def cut_ok_def frag_inside_def frag_free_def split: fragment_buffer_variant.splits)

lemma partition_step_ok:
  assumes inv: "partition_ok v raw ps ts buf" and t: "special_ok v t"
  shows "\<exists>fs. partition_step v raw ps t buf = Inr fs \<and> partition_ok v raw ps (ts @ [t]) fs"
proof -
  obtain d where d: "get_token_data v t = Inr d" "td_text d = token_text v t" "td_attr d = token_attr v t" "token_text v t \<noteq> []"
    using t by (auto simp: special_ok_def token_text_def token_attr_def)
  show ?thesis
  proof (cases "parsed v ps t")
    case False
    then show ?thesis using d inv by (auto simp: partition_step_def parsed_def partition_ok_def)
  next
    case True
    obtain fss where fss: "split_fragments raw (token_text v t) (token_attr v t) t buf = Inr (concat fss)"
      "list_all2 (replaces raw (token_text v) (token_attr v) t) buf fss"
      using split_fragments_replaces[of "token_text v" t buf raw "token_attr v"] d(4) inv unfolding partition_ok_def by blast
    have "list_all2 (\<lambda>f fs. \<forall>l r. stripped (token_attr v) f l r \<longrightarrow>
      covers raw (token_text v) (token_attr v) fs (l @ frag_text raw (token_text v) f @ r)) buf fss"
      by (rule list_all2_mono[OF fss(2)]) (use replaces_covers in blast)
    from covers_concat[OF this] have "covers raw (token_text v) (token_attr v) (concat fss) raw" using inv by (simp add: partition_ok_def)
    moreover have "successively (beside raw (token_attr v)) (concat fss)"
      using replaces_successively[OF fss(2)] inv by (simp add: partition_ok_def)
    moreover have "frag_inside raw 0 (length raw) f \<and> (\<forall>s\<in>set (ts @ [t]). parsed v ps s \<longrightarrow> frag_free raw (token_text v s) f) \<and>
      (\<forall>s. f = FragToken s \<longrightarrow> s \<in> set (ts @ [t]) \<and> parsed v ps s)" if f: "f \<in> set (concat fss)" for f
    proof -
      obtain fs where fs: "fs \<in> set fss" "f \<in> set fs" using f by auto
      obtain i where i: "i < length fss" "f \<in> set (fss ! i)" using fs(1)[unfolded in_set_conv_nth] fs(2) by auto
      then have r: "replaces raw (token_text v) (token_attr v) t (buf ! i) (fss ! i)" "buf ! i \<in> set buf"
        using fss(2) by (auto simp: list_all2_conv_all_nth)
      have b: "frag_inside raw 0 (length raw) (buf ! i)" "\<And>s. s \<in> set ts \<Longrightarrow> parsed v ps s \<Longrightarrow> frag_free raw (token_text v s) (buf ! i)"
        "\<And>s. buf ! i = FragToken s \<Longrightarrow> s \<in> set ts \<and> parsed v ps s"
        using inv r(2) unfolding partition_ok_def by blast+
      note new = replaced_fragment[OF r(1) b(1) i(2)]
      show ?thesis
      proof (intro conjI allI impI ballI)
        show "frag_inside raw 0 (length raw) f" by (rule new(1))
        show "frag_free raw (token_text v s) f" if "s \<in> set (ts @ [t])" "parsed v ps s" for s
          using that new(2) new(3)[OF b(2)] by auto
        show "s \<in> set (ts @ [t])" "parsed v ps s" if "f = FragToken s" for s
          using new(4)[OF that] b(3)[of s] True by auto
      qed
    qed
    ultimately have "partition_ok v raw ps (ts @ [t]) (concat fss)" unfolding partition_ok_def by blast
    then show ?thesis using fss(1) d True by (auto simp: partition_step_def parsed_def)
  qed
qed

lemma partition_all_ok:
  "partition_ok v raw ps seen buf \<Longrightarrow> \<forall>t\<in>set ts. special_ok v t \<Longrightarrow>
     \<exists>fs. fold_res (partition_step v raw ps) ts buf = Inr fs \<and> partition_ok v raw ps (seen @ ts) fs"
proof (induction ts arbitrary: seen buf)
  case (Cons t ts)
  obtain b where b: "partition_step v raw ps t buf = Inr b" "partition_ok v raw ps (seen @ [t]) b"
    using partition_step_ok[OF Cons.prems(1)] Cons.prems(2) by auto
  then show ?case using Cons.IH[OF b(2)] Cons.prems(2) by auto
qed auto

text \<open>
  C19. Cutting the special tokens out of a text ends when no special token is empty, never leaves the text's bounds, and
  returns fragments that cover the text in order (\<open>covers\<close>): put together, each between the blanks it lost, they are the text byte for byte. What is lost is
  white space right before a token that strips on its left or right after one that strips on its right, nothing else, so that without such
  tokens the texts of the fragments are the text; and all of it is lost: no text beside such a token has a blank on that side (\<open>beside\<close>).
  A fragment that is still text holds no special token that is to be cut out, no two such fragments follow each other, and a fragment
  that is a token is one of those: control and unknown tokens are left in the text unless they are asked for.
\<close>

theorem special_tokens_cut:
  assumes "raw \<noteq> []" "\<forall>t\<in>set (cache_special_tokens v). special_ok v t"
  shows "\<exists>fs. tokenizer_st_partition v raw ps [FragText 0 (length raw)] = Inr fs \<and>
    covers raw (token_text v) (token_attr v) fs raw \<and>
    successively (beside raw (token_attr v)) fs \<and>
    ((\<forall>t. FragToken t \<in> set fs \<longrightarrow> \<not> has_attr (token_attr v t) [ATTR_LSTRIP] \<and> \<not> has_attr (token_attr v t) [ATTR_RSTRIP]) \<longrightarrow>
       concat (map (frag_text raw (token_text v)) fs) = raw) \<and>
    (\<forall>t. FragToken t \<in> set fs \<longrightarrow> t \<in> set (cache_special_tokens v) \<and> parsed v ps t) \<and>
    (\<forall>off len. FragText off len \<in> set fs \<longrightarrow> 1 \<le> len \<and> off + len \<le> length raw \<and>
       (\<forall>t\<in>set (cache_special_tokens v). parsed v ps t \<longrightarrow> \<not> occurs (token_text v t) (take len (drop off raw))))"
proof -
  have "partition_ok v raw ps [] [FragText 0 (length raw)]"
    using assms(1) covers_text[of raw "token_text v" "token_attr v" 0 "length raw"] by (cases raw) (auto simp: partition_ok_def)
  then obtain fs where fs: "tokenizer_st_partition v raw ps [FragText 0 (length raw)] = Inr fs"
    "partition_ok v raw ps (cache_special_tokens v) fs"
    using partition_all_ok[of v raw ps "[]" _ "cache_special_tokens v"] assms(2) by (auto simp: tokenizer_st_partition_def)
  have c: "covers raw (token_text v) (token_attr v) fs raw" using fs(2) by (simp add: partition_ok_def)
  show ?thesis
  proof (intro exI[of _ fs] conjI impI)
    show "concat (map (frag_text raw (token_text v)) fs) = raw"
      if "\<forall>t. FragToken t \<in> set fs \<longrightarrow> \<not> has_attr (token_attr v t) [ATTR_LSTRIP] \<and> \<not> has_attr (token_attr v t) [ATTR_RSTRIP]"
      by (rule covers_plain[OF c]) (use that in blast)
  qed (use fs in \<open>force simp: partition_ok_def\<close>)+
qed

text \<open>A vocabulary with the special tokens \<open><s>\<close> (control) and \<open>ab\<close> (user defined, strips to its right).\<close>

definition ex_special :: "int llama_vocab" where
  "ex_special = (ex_vocab LLAMA_VOCAB_TYPE_SPM)\<lparr>cache_special_tokens := [1, 2],
     id_to_token := [ex_token [97] (-1), (ex_token [60, 115, 62] 0)\<lparr>td_attr := 8\<rparr>, (ex_token [97, 98] 0)\<lparr>td_attr := 272\<rparr>]\<rparr>"

theorem special_tokens_cut_witness:
  "\<exists>fs. tokenizer_st_partition ex_special [60, 115, 62, 97, 98, 32, 99] False [FragText 0 7] = Inr fs \<and>
    covers [60, 115, 62, 97, 98, 32, 99] (token_text ex_special) (token_attr ex_special) fs [60, 115, 62, 97, 98, 32, 99] \<and>
    fs = [FragText 0 3, FragToken 2, FragText 6 1]"
proof -
  have "\<forall>t\<in>set (cache_special_tokens ex_special). special_ok ex_special t"
    by (simp add: ex_special_def special_ok_def token_text_def get_token_data_def vec_at_def n_tokens_def ex_token_def ex_vocab_def)
  then obtain fs where fs: "tokenizer_st_partition ex_special [60, 115, 62, 97, 98, 32, 99] False [FragText 0 (length [60, 115, 62, 97, 98, 32, 99 :: u8])] = Inr fs"
    "covers [60, 115, 62, 97, 98, 32, 99] (token_text ex_special) (token_attr ex_special) fs [60, 115, 62, 97, 98, 32, 99]"
    using special_tokens_cut[of "[60, 115, 62, 97, 98, 32, 99]" ex_special False] by blast
  have run: "tokenizer_st_partition ex_special [60, 115, 62, 97, 98, 32, 99] False [FragText 0 (length [60, 115, 62, 97, 98, 32, 99 :: u8])] =
    Inr [FragText 0 3, FragToken 2, FragText 6 1]" by code_simp
  then have "fs = [FragText 0 3, FragToken 2, FragText 6 1]" unfolding fs(1) sum.inject .
  moreover have "length [60, 115, 62, 97, 98, 32, 99 :: u8] = 7" by simp
  ultimately show ?thesis using run fs(2) by metis
qed

end
