(* ===== verification/Tok_Bytes.thy ===== *)
theory Tok_Bytes
  imports Tok_Split
begin

text \<open>
  The tables \<open>unicode_byte_to_utf8_map\<close> and \<open>unicode_utf8_to_byte_map\<close>: every byte has an encoding, the second table undoes the first,
  and no encoding has a blank or a line break.
\<close>

section \<open>Numbering the missing keys\<close>

text \<open>A loop that gives every key that is still missing the next number.\<close>

definition rank_in :: "'a list \<Rightarrow> ('a \<Rightarrow> bool) \<Rightarrow> 'a \<Rightarrow> nat" where
  "rank_in xs P c = length (filter P (takeWhile (\<lambda>d. d \<noteq> c) xs))"

lemma fold_number:
  assumes "distinct xs"
  shows "fst (fold (\<lambda>ch (m, n). if m ch = None then (m(ch \<mapsto> g n), n + 1) else (m, n)) xs (m0, n0)) c =
    (if m0 c = None \<and> c \<in> set xs then Some (g (n0 + rank_in xs (\<lambda>d. m0 d = None) c)) else m0 c)"
  using assms
proof (induction xs arbitrary: m0 n0)
  case (Cons x xs)
  have same: "rank_in xs (\<lambda>d. (m0(x \<mapsto> y)) d = None) c = rank_in xs (\<lambda>d. m0 d = None) c" for y
    unfolding rank_in_def using Cons.prems by (intro arg_cong[of _ _ length] filter_cong) (auto dest: set_takeWhileD)
  show ?case
  proof (cases "m0 x = None")
    case True
    then show ?thesis using Cons.prems same Cons.IH by (auto simp: rank_in_def)
  next
    case False
    then show ?thesis using Cons.prems Cons.IH by (auto simp: rank_in_def)
  qed
qed simp

text \<open>The same for a table from encodings to keys, when the new encodings are not encodings of keys.\<close>

definition number_inv :: "('a \<Rightarrow> 'k) \<Rightarrow> (nat \<Rightarrow> 'k) \<Rightarrow> 'a \<Rightarrow> ('k \<rightharpoonup> 'a) \<times> nat \<Rightarrow> ('k \<rightharpoonup> 'a) \<times> nat" where
  "number_inv e g ch = (\<lambda>(m, n). if m (e ch) = None then (m(g n \<mapsto> ch), n + 1) else (m, n))"

lemma number_inv_pair [simp]: "number_inv e g ch (m, n) = (if m (e ch) = None then (m(g n \<mapsto> ch), n + 1) else (m, n))"
  by (simp add: number_inv_def)

lemma fold_number_inv_other:
  "(\<And>n. n0 \<le> n \<Longrightarrow> n < n0 + length xs \<Longrightarrow> k \<noteq> g n) \<Longrightarrow> fst (fold (number_inv e g) xs (m0, n0)) k = m0 k"
proof (induction xs arbitrary: m0 n0)
  case (Cons x xs)
  show ?case
  proof (cases "m0 (e x) = None")
    case True
    have "fst (fold (number_inv e g) xs (m0(g n0 \<mapsto> x), n0 + 1)) k = (m0(g n0 \<mapsto> x)) k"
      by (rule Cons.IH) (use Cons.prems in auto)
    then show ?thesis using True Cons.prems[of n0] by simp
  next
    case False
    have "fst (fold (number_inv e g) xs (m0, n0)) k = m0 k" by (rule Cons.IH) (use Cons.prems in auto)
    then show ?thesis using False by auto
  qed
qed simp

lemma fold_number_inv:
  assumes "distinct xs" "\<And>a n. a \<in> set xs \<Longrightarrow> n < B \<Longrightarrow> e a \<noteq> g n" "inj_on g {..<B}" "c \<in> set xs" "m0 (e c) = None"
    "n0 + length xs \<le> B"
  shows "fst (fold (number_inv e g) xs (m0, n0)) (g (n0 + rank_in xs (\<lambda>d. m0 (e d) = None) c)) = Some c"
  using assms(1,2,4,5,6)
proof (induction xs arbitrary: m0 n0)
  case (Cons x xs)
  have n0: "n0 < B" using Cons.prems(5) by simp
  show ?case
  proof (cases "c = x")
    case True
    have "fst (fold (number_inv e g) xs (m0(g n0 \<mapsto> x), n0 + 1)) (g n0) = (m0(g n0 \<mapsto> x)) (g n0)"
      by (rule fold_number_inv_other) (use assms(3) Cons.prems(5) in \<open>auto dest: inj_onD\<close>)
    then show ?thesis using True Cons.prems by (simp add: rank_in_def)
  next
    case False
    let ?m = "if m0 (e x) = None then m0(g n0 \<mapsto> x) else m0"
    let ?n = "if m0 (e x) = None then n0 + 1 else n0"
    have dom: "(?m (e d) = None) = (m0 (e d) = None)" if "d \<in> set xs" for d using Cons.prems(2)[of d n0] that n0 by auto
    have "rank_in xs (\<lambda>d. ?m (e d) = None) c = rank_in xs (\<lambda>d. m0 (e d) = None) c"
      unfolding rank_in_def by (intro arg_cong[of _ _ length] filter_cong refl dom) (auto dest: set_takeWhileD)
    moreover have "fst (fold (number_inv e g) xs (?m, ?n)) (g (?n + rank_in xs (\<lambda>d. ?m (e d) = None) c)) = Some c"
      by (rule Cons.IH) (use Cons.prems False dom[of c] in auto)
    ultimately show ?thesis using False by (cases "m0 (e x) = None") (auto simp: rank_in_def)
  qed
qed simp

section \<open>The tables\<close>

text \<open>The code point that stands for a byte.\<close>

definition byte_cpt :: "nat \<Rightarrow> nat" where
  "byte_cpt c = (if c \<in> set byte_ranges then c else 256 + rank_in [0..<256] (\<lambda>d. d \<notin> set byte_ranges) c)"

lemma fold_upd:
  "inj_on f (set xs) \<Longrightarrow> distinct xs \<Longrightarrow>
     (\<forall>c\<in>set xs. fold (\<lambda>ch m. m(f ch \<mapsto> h ch)) xs m (f c) = Some (h c)) \<and>
     (\<forall>k. k \<notin> f ` set xs \<longrightarrow> fold (\<lambda>ch m. m(f ch \<mapsto> h ch)) xs m k = m k)"
proof (induction xs arbitrary: m)
  case (Cons x xs)
  have "f x \<notin> f ` set xs" using Cons.prems by (auto dest: inj_onD)
  then show ?case using Cons.IH[of "m(f x \<mapsto> h x)"] Cons.prems by auto
qed simp

lemma cpt_utf8_enc: "c < 0x800 \<Longrightarrow> unicode_cpt_to_utf8 (word_of_nat c) = Inr (cpt_utf8 c)"
proof -
  assume "c < 0x800"
  then have "unat (word_of_nat c :: u32) = c" by (simp add: unsigned_of_nat take_bit_nat_eq_self)
  then have "(word_of_nat c :: u32) \<le> 0x7ff" "(word_of_nat c :: u32) \<le> 0x7f \<or> 0x80 \<le> (word_of_nat c :: u32)"
    using \<open>c < 0x800\<close> by (auto simp: word_le_nat_alt)
  then have "\<exists>bs. unicode_cpt_to_utf8 (word_of_nat c) = Inr bs" by (auto simp: unicode_cpt_to_utf8_def)
  then show ?thesis by (auto simp: cpt_utf8_def)
qed

lemma cpt_utf8_inj: "c < 0x800 \<Longrightarrow> d < 0x800 \<Longrightarrow> cpt_utf8 c = cpt_utf8 d \<Longrightarrow> c = d"
proof -
  assume cd: "c < 0x800" "d < 0x800" "cpt_utf8 c = cpt_utf8 d"
  have "(word_of_nat c :: u32) = word_of_nat d"
    using cpt_from_to_utf8[OF cpt_utf8_enc[OF cd(1)], of "[]" "[]"] cpt_from_to_utf8[OF cpt_utf8_enc[OF cd(2)], of "[]" "[]"] cd(3)
    by simp
  then have "unat (word_of_nat c :: u32) = unat (word_of_nat d :: u32)" by simp
  then show "c = d" using cd by (simp add: unsigned_of_nat take_bit_nat_eq_self)
qed

lemma byte_ranges_less: "c \<in> set byte_ranges \<Longrightarrow> c < 256"
  by (auto simp: byte_ranges_def)

lemma distinct_byte_ranges: "distinct byte_ranges"
  by (auto simp: byte_ranges_def)

lemma rank_in_less: "rank_in [0..<256] P c \<le> 256"
  unfolding rank_in_def using length_filter_le[of P] length_takeWhile_le[of _ "[0..<256]"] by (metis le_trans length_upt diff_zero)

lemma byte_cpt_less: "c < 256 \<Longrightarrow> byte_cpt c < 0x800"
  using rank_in_less[of "\<lambda>d. d \<notin> set byte_ranges" c] by (auto simp: byte_cpt_def dest: byte_ranges_less)

text \<open>Both tables before the bytes that are not printable are numbered.\<close>

definition printable :: "nat \<rightharpoonup> bytes" where
  "printable = fold (\<lambda>ch m. m(ch \<mapsto> cpt_utf8 ch)) byte_ranges Map.empty"

definition printable_inv :: "bytes \<rightharpoonup> nat" where
  "printable_inv = fold (\<lambda>ch m. m(cpt_utf8 ch \<mapsto> ch)) byte_ranges Map.empty"

lemma printable_eq: "printable c = (if c \<in> set byte_ranges then Some (cpt_utf8 c) else None)"
  using fold_upd[of "\<lambda>c. c" byte_ranges cpt_utf8 Map.empty] distinct_byte_ranges by (auto simp: printable_def)

lemma inj_ranges: "inj_on cpt_utf8 (set byte_ranges)"
  by (intro inj_onI cpt_utf8_inj) (auto dest!: byte_ranges_less)

lemma printable_inv_eq: "c < 256 \<Longrightarrow> printable_inv (cpt_utf8 c) = (if c \<in> set byte_ranges then Some c else None)"
proof -
  assume c: "c < 256"
  have "c \<in> set byte_ranges" if m: "cpt_utf8 c \<in> cpt_utf8 ` set byte_ranges"
  proof -
    obtain d where d: "d \<in> set byte_ranges" "cpt_utf8 c = cpt_utf8 d" using m by auto
    have "c = d" by (rule cpt_utf8_inj) (use c d byte_ranges_less[OF d(1)] in auto)
    then show ?thesis using d by simp
  qed
  then show ?thesis using fold_upd[OF inj_ranges distinct_byte_ranges, of "\<lambda>c. c" Map.empty]
    unfolding printable_inv_def by (cases "c \<in> set byte_ranges") auto
qed

lemma byte_to_utf8_map: "c < 256 \<Longrightarrow> unicode_byte_to_utf8_map c = Some (cpt_utf8 (byte_cpt c))"
  using fold_number[of "[0..<256]" "\<lambda>n. cpt_utf8 (256 + n)" printable 0 c]
  by (simp add: unicode_byte_to_utf8_map_def Let_def printable_def[symmetric] printable_eq byte_cpt_def)

lemma utf8_to_byte_map: "c < 256 \<Longrightarrow> unicode_utf8_to_byte_map (cpt_utf8 (byte_cpt c)) = Some c"
proof -
  assume c: "c < 256"
  let ?g = "\<lambda>n. cpt_utf8 (256 + n)"
  have eq: "unicode_utf8_to_byte_map = fst (fold (number_inv cpt_utf8 ?g) [0..<256] (printable_inv, 0))"
    by (simp add: unicode_utf8_to_byte_map_def Let_def printable_inv_def number_inv_def[abs_def])
  have ne: "cpt_utf8 a \<noteq> ?g n" if "a \<in> set [0..<256]" "n < 256" for a n
    using that by (auto dest!: cpt_utf8_inj[rotated 2])
  have inj: "inj_on ?g {..<256}" by (intro inj_onI) (auto dest!: cpt_utf8_inj[rotated 2])
  show ?thesis
  proof (cases "c \<in> set byte_ranges")
    case True
    have "unicode_utf8_to_byte_map (cpt_utf8 c) = printable_inv (cpt_utf8 c)"
      unfolding eq by (rule fold_number_inv_other) (use c ne in auto)
    then show ?thesis using True c printable_inv_eq by (simp add: byte_cpt_def)
  next
    case False
    have "rank_in [0..<256] (\<lambda>d. printable_inv (cpt_utf8 d) = None) c = rank_in [0..<256] (\<lambda>d. d \<notin> set byte_ranges) c"
      unfolding rank_in_def by (intro arg_cong[of _ _ length] filter_cong refl) (auto dest!: set_takeWhileD simp: printable_inv_eq)
    then show ?thesis
      using fold_number_inv[of "[0..<256]" 256 cpt_utf8 ?g c printable_inv 0] ne inj c False printable_inv_eq[OF c]
      unfolding eq by (simp add: byte_cpt_def)
  qed
qed

text \<open>The functions over the tables.\<close>

lemma byte_less: "unat (b :: u8) < 256"
proof -
  have "unat b < 2 ^ LENGTH(8)" by (rule unsigned_less)
  then show ?thesis by simp
qed

definition byte_enc :: "u8 \<Rightarrow> bytes" where
  "byte_enc b = cpt_utf8 (byte_cpt (unat b))"

lemma byte_to_utf8 [simp]: "unicode_byte_to_utf8 b = Inr (byte_enc b)"
  using byte_less[of b] by (simp add: unicode_byte_to_utf8_def byte_to_utf8_map byte_enc_def)

lemma utf8_to_byte [simp]: "unicode_utf8_to_byte (byte_enc b) = Inr b"
  using byte_less[of b] by (simp add: unicode_utf8_to_byte_def utf8_to_byte_map byte_enc_def)

lemma byte_enc_cpt: "unicode_cpt_to_utf8 (word_of_nat (byte_cpt (unat b))) = Inr (byte_enc b)"
  using byte_less[of b] by (simp add: byte_enc_def cpt_utf8_enc byte_cpt_less)

lemma high_byte: "bit (b :: u8) 7 \<Longrightarrow> b \<noteq> 32 \<and> b \<noteq> 10"
  by (auto simp: bit_consts)

lemma byte_cpt_range: "c < 256 \<Longrightarrow> 0x21 \<le> byte_cpt c \<and> byte_cpt c < 0x7f \<or> 0x80 \<le> byte_cpt c"
  by (auto simp: byte_cpt_def byte_ranges_def)

lemma no_blanks_byte_enc: "no_blanks (byte_enc b)"
proof -
  define c where "c = byte_cpt (unat b)"
  have c: "0x21 \<le> c \<and> c < 0x7f \<or> 0x80 \<le> c" "c < 0x800" using byte_cpt_range byte_cpt_less byte_less by (auto simp: c_def)
  define w :: u32 where "w = word_of_nat c"
  have w: "unat w = c" using c(2) by (simp add: w_def unsigned_of_nat take_bit_nat_eq_self)
  have enc: "unicode_cpt_to_utf8 w = Inr (byte_enc b)" using byte_enc_cpt by (simp add: w_def c_def)
  show ?thesis
  proof (cases "c < 0x7f")
    case True
    then have "w \<le> 0x7f" using w by (simp add: word_le_nat_alt)
    then have "byte_enc b = [ucast w]" using enc by (simp add: unicode_cpt_to_utf8_def)
    moreover have "unat (ucast w :: u8) = c" using w True by (simp add: unsigned_ucast_eq take_bit_nat_eq_self)
    ultimately show ?thesis using c True by (auto simp: no_blanks_def)
  next
    case False
    then have "\<not> w \<le> 0x7f" "0x80 \<le> w" "w \<le> 0x7ff" using w c by (auto simp: word_le_nat_alt)
    then have "byte_enc b = [ucast (0xc0 OR (drop_bit 6 w AND 0x1f)), ucast (0x80 OR (w AND 0x3f))]"
      using enc by (simp add: unicode_cpt_to_utf8_def)
    moreover have "bit (ucast (0xc0 OR x :: u32) :: u8) 7" "bit (ucast (0x80 OR x :: u32) :: u8) 7" for x
      by (simp_all add: bit_ucast_iff bit_or_iff bit_consts)
    ultimately show ?thesis using high_byte by (fastforce simp: no_blanks_def)
  qed
qed

end
