(* ===== verification/Tok_Pre.thy ===== *)
theory Tok_Pre
  imports Tok_Bytes
begin

text \<open>
  Splitting a text into words before BPE merging: \<open>unicode_regex_split\<close> of \<open>src/unicode.cpp\<close> with its two hand-written
  splitters, the fallback on \<open>std::regex\<close> and the encoding of the bytes of a word as printable characters.

  Code points are given the flags of the generated tables (\<open>unicode_data\<close>). The regular expressions of the standard library are a
  parameter: compiling an expression, and the matches an iterator yields over a stretch of text. A failing
  \<^verbatim>\<open>assert\<close> is an abort.
\<close>

section \<open>Shared by the splitters\<close>

definition flag_number :: "16 word \<Rightarrow> bool" where "flag_number f \<longleftrightarrow> f AND 0x0002 \<noteq> 0"
definition flag_letter :: "16 word \<Rightarrow> bool" where "flag_letter f \<longleftrightarrow> f AND 0x0004 \<noteq> 0"

text \<open>\<open>!(flags.is_whitespace | flags.is_letter | flags.is_number)\<close>.\<close>

definition flag_other :: "16 word \<Rightarrow> bool" where
  "flag_other f \<longleftrightarrow> \<not> (flag_whitespace f \<or> flag_letter f \<or> flag_number f)"

definition OUT_OF_RANGE :: u32 where
  "OUT_OF_RANGE = 0xFFFFFFFF"

definition get_cpt :: "u32 list \<Rightarrow> nat \<Rightarrow> nat \<Rightarrow> nat \<Rightarrow> u32" where
  "get_cpt cpts ini en pos = (if ini \<le> pos \<and> pos < en then cpts ! pos else OUT_OF_RANGE)"

definition get_flags :: "unicode_data \<Rightarrow> u32 list \<Rightarrow> nat \<Rightarrow> nat \<Rightarrow> nat \<Rightarrow> 16 word" where
  "get_flags ud cpts ini en pos = (if ini \<le> pos \<and> pos < en then ud_flags ud (cpts ! pos) else 0)"

text \<open>The words found so far, by their lengths, and \<open>_prev_end\<close>.\<close>

type_synonym split_state = "nat list \<times> nat"

definition add_token :: "nat \<Rightarrow> nat \<Rightarrow> split_state \<Rightarrow> (nat \<times> split_state) res" where
  "add_token en end' st =
     (case st of (offs, prev_end) \<Rightarrow>
        bind_res (ggml_assert (prev_end \<le> end' \<and> end' \<le> en)) (\<lambda>_.
          let len = end' - prev_end in Inr (len, (if len > 0 then offs @ [len] else offs, end'))))"

text \<open>\<open>_add_token(pos); continue;\<close> and \<open>pos += _add_token(end); continue;\<close>.\<close>

definition token_to :: "nat \<Rightarrow> nat \<Rightarrow> split_state \<Rightarrow> (nat \<times> split_state) res" where
  "token_to en pos st = bind_res (add_token en pos st) (\<lambda>(_, st). Inr (pos, st))"

definition token_by :: "nat \<Rightarrow> nat \<Rightarrow> nat \<Rightarrow> split_state \<Rightarrow> (nat \<times> split_state) res" where
  "token_by en pos end' st = bind_res (add_token en end' st) (\<lambda>(len, st). Inr (pos + len, st))"

text \<open>A loop that advances while a test holds at the position. Every test used fails at and after the end of the stretch.\<close>

function skip_while :: "(nat \<Rightarrow> bool) \<Rightarrow> nat \<Rightarrow> nat \<Rightarrow> nat" where
  "skip_while P en pos = (if pos < en \<and> P pos then skip_while P en (pos + 1) else pos)"
  by pat_completeness auto
termination by (relation "measure (\<lambda>(_, en, pos). en - pos)") auto

declare skip_while.simps [simp del]

text \<open>The loop over one stretch of the text, and the loop over all stretches.\<close>

definition split_stretch :: "(nat \<Rightarrow> nat \<Rightarrow> nat \<times> split_state \<Rightarrow> (nat \<times> split_state) res) \<Rightarrow> u32 list \<Rightarrow> nat \<Rightarrow> nat \<Rightarrow> nat list \<Rightarrow> nat list res" where
  "split_stretch step cpts ini en offs =
     bind_res (ggml_assert (en \<le> length cpts)) (\<lambda>_.
     bind_res (while_res (\<lambda>(pos, _). pos < en) (step ini en) (en - ini) (ini, offs, ini)) (\<lambda>(_, offs, _). Inr offs))"

fun over_offsets :: "(nat \<Rightarrow> nat \<Rightarrow> nat list \<Rightarrow> nat list res) \<Rightarrow> nat \<Rightarrow> nat list \<Rightarrow> nat list \<Rightarrow> nat list res" where
  "over_offsets f start [] acc = Inr acc"
| "over_offsets f start (off # offs) acc = bind_res (f start (start + off) acc) (over_offsets f (start + off) offs)"

section \<open>GPT-2\<close>

definition gpt2_step :: "unicode_data \<Rightarrow> u32 list \<Rightarrow> nat \<Rightarrow> nat \<Rightarrow> nat \<times> split_state \<Rightarrow> (nat \<times> split_state) res" where
  "gpt2_step ud cpts ini en s =
     (case s of (pos, st) \<Rightarrow>
       let get = get_cpt cpts ini en; flags = get_flags ud cpts ini en; cpt = get pos;
           next1 = get (pos + 1); next2 = get (pos + 2) in
       if cpt = 39 \<and> pos + 1 < en \<and> next1 \<in> {115, 116, 109, 100} then token_by en pos (pos + 2) st
       else if cpt = 39 \<and> pos + 1 < en \<and> pos + 2 < en \<and>
           (next1 = 114 \<and> next2 = 101 \<or> next1 = 118 \<and> next2 = 101 \<or> next1 = 108 \<and> next2 = 108) then
         token_by en pos (pos + 3) st
       else
         let flags2 = (if cpt = 32 then flags (pos + 1) else flags pos); pos1 = (if cpt = 32 then pos + 1 else pos) in
         if flag_letter flags2 then token_to en (skip_while (\<lambda>p. flag_letter (flags p)) en pos1) st
         else if flag_number flags2 then token_to en (skip_while (\<lambda>p. flag_number (flags p)) en pos1) st
         else if flag_other flags2 \<and> flags2 \<noteq> 0 then
           token_to en (skip_while (\<lambda>p. flag_other (flags p) \<and> flags p \<noteq> 0) en pos1) st
         else
           let num_whitespaces = skip_while (\<lambda>p. flag_whitespace (flags p)) en pos - pos in
           if num_whitespaces > 1 \<and> get (pos + num_whitespaces) \<noteq> OUT_OF_RANGE then
             token_to en (pos + num_whitespaces - 1) st
           else if num_whitespaces > 0 then token_to en (pos + num_whitespaces) st
           else token_to en (pos + 1) st)"

definition unicode_regex_split_custom_gpt2 :: "unicode_data \<Rightarrow> bytes \<Rightarrow> nat list \<Rightarrow> nat list res" where
  "unicode_regex_split_custom_gpt2 ud text offsets =
     (let cpts = unicode_cpts_from_utf8 text in over_offsets (split_stretch (gpt2_step ud cpts) cpts) 0 offsets [])"

section \<open>LLaMA 3\<close>

text \<open>The loop over digits: a word for every three of them.\<close>

function digits_loop :: "(nat \<Rightarrow> bool) \<Rightarrow> nat \<Rightarrow> nat \<Rightarrow> nat \<Rightarrow> split_state \<Rightarrow> (nat \<times> split_state) res" where
  "digits_loop P en ini pos st =
     (if pos < en \<and> P pos then
        (if pos + 1 - ini \<ge> 3 then bind_res (add_token en (pos + 1) st) (\<lambda>(_, st). digits_loop P en (pos + 1) (pos + 1) st)
         else digits_loop P en ini (pos + 1) st)
      else token_to en pos st)"
  by pat_completeness auto
termination by (relation "measure (\<lambda>(_, en, _, pos, _). en - pos)") auto

declare digits_loop.simps [simp del]

text \<open>The loop over white space, with the end of the last line break.\<close>

function spaces_loop :: "(nat \<Rightarrow> bool) \<Rightarrow> (nat \<Rightarrow> u32) \<Rightarrow> nat \<Rightarrow> nat \<Rightarrow> nat \<Rightarrow> nat \<Rightarrow> nat \<times> nat" where
  "spaces_loop P get en pos num last_end =
     (if pos + num < en \<and> P (pos + num) then
        spaces_loop P get en pos (num + 1) (if get (pos + num) \<in> {13, 10} then pos + num + 1 else last_end)
      else (num, last_end))"
  by pat_completeness auto
termination by (relation "measure (\<lambda>(_, _, en, pos, num, _). en - (pos + num))") auto

declare spaces_loop.simps [simp del]

definition llama3_step :: "unicode_data \<Rightarrow> u32 list \<Rightarrow> nat \<Rightarrow> nat \<Rightarrow> nat \<times> split_state \<Rightarrow> (nat \<times> split_state) res" where
  "llama3_step ud cpts ini en s =
     (case s of (pos, st) \<Rightarrow>
       let get = get_cpt cpts ini en; flags = get_flags ud cpts ini en; cpt = get pos;
           next1 = unicode_tolower ud (get (pos + 1)); next2 = unicode_tolower ud (get (pos + 2)) in
       if cpt = 39 \<and> pos + 1 < en \<and> next1 \<in> {115, 116, 109, 100} then token_by en pos (pos + 2) st
       else if cpt = 39 \<and> pos + 1 < en \<and> pos + 2 < en \<and>
           (next1 = 114 \<and> next2 = 101 \<or> next1 = 118 \<and> next2 = 101 \<or> next1 = 108 \<and> next2 = 108) then
         token_by en pos (pos + 3) st
       else if \<not> (cpt = 13 \<or> cpt = 10 \<or> flag_number (flags pos)) \<and> (flag_letter (flags pos) \<or> flag_letter (flags (pos + 1))) then
         token_to en (skip_while (\<lambda>p. flag_letter (flags p)) en (pos + 1)) st
       else if flag_number (flags pos) then digits_loop (\<lambda>p. flag_number (flags p)) en pos pos st
       else
         let flags2 = (if cpt = 32 then flags (pos + 1) else flags pos); pos1 = (if cpt = 32 then pos + 1 else pos) in
         if flag_other flags2 \<and> flags pos \<noteq> 0 then
           token_to en (skip_while (\<lambda>p. get p = 13 \<or> get p = 10) en
             (skip_while (\<lambda>p. flag_other (flags p) \<and> flags p \<noteq> 0) en pos1)) st
         else
           let (num_whitespaces, last_end_r_or_n) = spaces_loop (\<lambda>p. flag_whitespace (flags p)) get en pos 0 0 in
           if last_end_r_or_n > 0 then token_to en last_end_r_or_n st
           else if num_whitespaces > 1 \<and> get (pos + num_whitespaces) \<noteq> OUT_OF_RANGE then
             token_to en (pos + num_whitespaces - 1) st
           else if num_whitespaces > 0 then token_to en (pos + num_whitespaces) st
           else token_to en (pos + 1) st)"

definition unicode_regex_split_custom_llama3 :: "unicode_data \<Rightarrow> bytes \<Rightarrow> nat list \<Rightarrow> nat list res" where
  "unicode_regex_split_custom_llama3 ud text offsets =
     (let cpts = unicode_cpts_from_utf8 text in over_offsets (split_stretch (llama3_step ud cpts) cpts) 0 offsets [])"

section \<open>Regular expressions of the standard library\<close>

text \<open>
  \<open>std::regex\<close> and \<open>std::wregex\<close>: a compiled expression, or none when the constructor throws \<open>std::regex_error\<close>; the
  matches an iterator yields over a text, by position and length, or none when matching throws. \<open>re_wide\<close> is given the
  expression before \<open>unicode_wstring_from_utf8\<close>.
\<close>

type_synonym matches = "(nat \<times> nat) list"

record regex_lib =
  re_byte :: "bytes \<Rightarrow> (bytes \<Rightarrow> matches option) option"
  re_wide :: "bytes \<Rightarrow> (u32 list \<Rightarrow> matches option) option"

definition regex_failed :: failure where
  "regex_failed = Throw ''Failed to process regex''"

fun stl_matches :: "matches \<Rightarrow> nat \<Rightarrow> nat list \<Rightarrow> nat \<times> nat list" where
  "stl_matches [] start_idx offs = (start_idx, offs)"
| "stl_matches ((p, l) # ms) start_idx offs =
     stl_matches ms (p + l) ((if p > start_idx then offs @ [p - start_idx] else offs) @ [l])"

definition stl_stretch :: "('c list \<Rightarrow> matches option) \<Rightarrow> 'c list \<Rightarrow> nat \<Rightarrow> nat \<Rightarrow> nat list \<Rightarrow> nat list res" where
  "stl_stretch re txt start en offs =
     (case re (take (en - start) (drop start txt)) of
        None \<Rightarrow> Inl regex_failed
      | Some ms \<Rightarrow>
          (case stl_matches ms 0 offs of (start_idx, offs) \<Rightarrow>
             Inr (if start_idx < en - start then offs @ [en - start - start_idx] else offs)))"

definition unicode_regex_split_stl :: "('c list \<Rightarrow> matches option) option \<Rightarrow> 'c list \<Rightarrow> nat list \<Rightarrow> nat list res" where
  "unicode_regex_split_stl expr txt offsets =
     (case expr of None \<Rightarrow> Inl regex_failed | Some re \<Rightarrow> over_offsets (stl_stretch re txt) 0 offsets [])"

section \<open>Choosing a splitter\<close>

text \<open>\<^verbatim>\<open>'s|'t|'re|'ve|'m|'ll|'d| ?\p{L}+| ?\p{N}+| ?[^\s\p{L}\p{N}]+|\s+(?!\S)\<close>\<close>

definition gpt2_regex :: bytes where
  "gpt2_regex =
     [39, 115, 124, 39, 116, 124, 39, 114, 101, 124, 39, 118, 101, 124, 39, 109, 124, 39, 108, 108, 124, 39, 100, 124, 32, 63, 92, 112, 123, 76,
      125, 43, 124, 32, 63, 92, 112, 123, 78, 125, 43, 124, 32, 63, 91, 94, 92, 115, 92, 112, 123, 76, 125, 92, 112, 123, 78, 125, 93, 43,
      124, 92, 115, 43, 40, 63, 33, 92, 83, 41]"

text \<open>\<^verbatim>\<open>(?i:'s|'t|'re|'ve|'m|'ll|'d)|[^\r\n\p{L}\p{N}]?\p{L}+|\p{N}{1,3}| ?[^\s\p{L}\p{N}]+[\r\n]*|\s*[\r\n]+|\s+(?!\S)|\s+\<close>\<close>

definition llama3_regex :: bytes where
  "llama3_regex =
     [40, 63, 105, 58, 39, 115, 124, 39, 116, 124, 39, 114, 101, 124, 39, 118, 101, 124, 39, 109, 124, 39, 108, 108, 124, 39, 100, 41, 124, 91,
      94, 92, 114, 92, 110, 92, 112, 123, 76, 125, 92, 112, 123, 78, 125, 93, 63, 92, 112, 123, 76, 125, 43, 124, 92, 112, 123, 78, 125, 123,
      49, 44, 51, 125, 124, 32, 63, 91, 94, 92, 115, 92, 112, 123, 76, 125, 92, 112, 123, 78, 125, 93, 43, 91, 92, 114, 92, 110, 93, 42,
      124, 92, 115, 42, 91, 92, 114, 92, 110, 93, 43, 124, 92, 115, 43, 40, 63, 33, 92, 83, 41, 124, 92, 115, 43]"

text \<open>The same with \<^verbatim>\<open>(?:'[sS]|'[tT]|'[rR][eE]|'[vV][eE]|'[mM]|'[lL][lL]|'[dD])\<close> in front.\<close>

definition llama3_regex_cased :: bytes where
  "llama3_regex_cased =
     [40, 63, 58, 39, 91, 115, 83, 93, 124, 39, 91, 116, 84, 93, 124, 39, 91, 114, 82, 93, 91, 101, 69, 93, 124, 39, 91, 118, 86, 93,
      91, 101, 69, 93, 124, 39, 91, 109, 77, 93, 124, 39, 91, 108, 76, 93, 91, 108, 76, 93, 124, 39, 91, 100, 68, 93, 41, 124, 91, 94,
      92, 114, 92, 110, 92, 112, 123, 76, 125, 92, 112, 123, 78, 125, 93, 63, 92, 112, 123, 76, 125, 43, 124, 92, 112, 123, 78, 125, 123, 49,
      44, 51, 125, 124, 32, 63, 91, 94, 92, 115, 92, 112, 123, 76, 125, 92, 112, 123, 78, 125, 93, 43, 91, 92, 114, 92, 110, 93, 42, 124,
      92, 115, 42, 91, 92, 114, 92, 110, 93, 43, 124, 92, 115, 43, 40, 63, 33, 92, 83, 41, 124, 92, 115, 43]"

definition unicode_regex_split_custom :: "unicode_data \<Rightarrow> bytes \<Rightarrow> bytes \<Rightarrow> nat list \<Rightarrow> nat list res" where
  "unicode_regex_split_custom ud text regex_expr offsets =
     (if regex_expr = gpt2_regex then unicode_regex_split_custom_gpt2 ud text offsets
      else if regex_expr = llama3_regex \<or> regex_expr = llama3_regex_cased then unicode_regex_split_custom_llama3 ud text offsets
      else Inr [])"

text \<open>The categories \<^verbatim>\<open>\p{N}\<close>, \<^verbatim>\<open>\p{L}\<close>, \<^verbatim>\<open>\p{P}\<close>, \<^verbatim>\<open>\p{M}\<close>, \<^verbatim>\<open>\p{S}\<close>: the flag, the
  byte that stands for its characters and the ASCII characters it has.\<close>

definition ucat :: "u8 \<Rightarrow> bytes" where
  "ucat c = [92, 112, 123, c, 125]"

definition k_ucat_enum :: "bytes \<rightharpoonup> 16 word" where
  "k_ucat_enum = [ucat 78 \<mapsto> 0x0002, ucat 76 \<mapsto> 0x0004, ucat 80 \<mapsto> 0x0020, ucat 77 \<mapsto> 0x0010, ucat 83 \<mapsto> 0x0040]"

definition k_ucat_cpt :: "16 word \<rightharpoonup> u8" where
  "k_ucat_cpt = [0x0002 \<mapsto> 0xD1, 0x0004 \<mapsto> 0xD2, 0x0020 \<mapsto> 0xD3, 0x0010 \<mapsto> 0xD4, 0x0040 \<mapsto> 0xD5]"

definition k_ucat_map :: "16 word \<rightharpoonup> bytes" where
  "k_ucat_map = [0x0002 \<mapsto> [48, 45, 57], 0x0004 \<mapsto> [65, 45, 90, 97, 45, 122],
     0x0020 \<mapsto> [33, 45, 35, 37, 45, 42, 44, 45, 47, 58, 45, 59, 63, 45, 64, 92, 91, 45, 92, 93, 95, 92, 123, 92, 125],
     0x0010 \<mapsto> [], 0x0040 \<mapsto> [92, 36, 92, 43, 60, 45, 62, 94, 96, 92, 124]]"

definition uses_category :: "bytes \<Rightarrow> bool" where
  "uses_category regex_expr \<longleftrightarrow> (\<exists>c\<in>{78, 76, 80, 77, 83}. find_sub (ucat c) regex_expr \<noteq> None)"

definition collapse_cpt :: "unicode_data \<Rightarrow> u32 \<Rightarrow> u8" where
  "collapse_cpt ud cpt =
     (if cpt < 128 then ucast cpt
      else if flag_whitespace (ud_flags ud cpt) then 0x0B
      else (case k_ucat_cpt (ud_flags ud cpt AND 0x00FF) of Some c \<Rightarrow> c | None \<Rightarrow> 0xD0))"

function collapse_regex :: "u8 option \<Rightarrow> bool \<Rightarrow> bytes \<Rightarrow> bytes res" where
  "collapse_regex prev inside [] = Inr []"
| "collapse_regex prev inside (c # cs) =
     (if c = 91 \<and> prev \<noteq> Some 92 then bind_res (collapse_regex (Some c) True cs) (\<lambda>r. Inr (91 # r))
      else if inside \<and> c = 93 \<and> prev \<noteq> Some 92 then bind_res (collapse_regex (Some c) False cs) (\<lambda>r. Inr (93 # r))
      else
       (case (if c = 92 \<and> length cs \<ge> 4 \<and> cs ! 0 = 112 \<and> cs ! 1 = 123 \<and> cs ! 3 = 125 then k_ucat_enum (c # take 4 cs) else None) of
          Some cat \<Rightarrow>
            bind_res (map_at k_ucat_cpt cat) (\<lambda>byte.
            bind_res (map_at k_ucat_map cat) (\<lambda>ranges.
            bind_res (collapse_regex (Some 125) inside (drop 4 cs)) (\<lambda>r.
              Inr ((if inside then [] else [91]) @ [byte] @ ranges @ (if inside then [] else [93]) @ r))))
        | None \<Rightarrow> bind_res (collapse_regex (Some c) inside cs) (\<lambda>r. Inr (c # r))))"
  by pat_completeness auto
termination by (relation "measure (\<lambda>(_, _, cs). length cs)") auto

declare collapse_regex.simps(2) [simp del]

definition regex_not_supported :: failure where
  "regex_not_supported = Throw ''Regex includes both unicode categories and non-ASCII characters - not supported''"

definition wide_text :: "unicode_data \<Rightarrow> u32 list \<Rightarrow> u32 list" where
  "wide_text ud cpts = map (\<lambda>c. if c > 0x7F \<and> flag_whitespace (ud_flags ud c) then 0x0B else c) cpts"

text \<open>The conversion of the expression to wide characters is part of compiling it (\<open>re_wide\<close>), failures included.\<close>

definition split_fallback :: "unicode_data \<Rightarrow> regex_lib \<Rightarrow> u32 list \<Rightarrow> bytes \<Rightarrow> nat list \<Rightarrow> nat list res" where
  "split_fallback ud lib cpts regex_expr offsets =
     (if uses_category regex_expr then
        (if \<exists>c\<in>set (unicode_cpts_from_utf8 regex_expr). c \<ge> 128 then Inl regex_not_supported
         else
          bind_res (collapse_regex None False regex_expr) (\<lambda>re.
            unicode_regex_split_stl (re_byte lib re) (map (collapse_cpt ud) cpts) offsets))
      else unicode_regex_split_stl (re_wide lib regex_expr) (wide_text ud cpts) offsets)"

definition split_expr :: "unicode_data \<Rightarrow> regex_lib \<Rightarrow> bytes \<Rightarrow> bytes \<Rightarrow> nat list \<Rightarrow> nat list res" where
  "split_expr ud lib text regex_expr offsets =
     bind_res (unicode_regex_split_custom ud text regex_expr offsets) (\<lambda>tmp.
       if tmp \<noteq> [] then Inr tmp else split_fallback ud lib (unicode_cpts_from_utf8 text) regex_expr offsets)"

text \<open>The words of the offsets, then their bytes as printable characters.\<close>

fun cut_words :: "u32 list \<Rightarrow> nat \<Rightarrow> nat list \<Rightarrow> bytes list res" where
  "cut_words cpts start [] = Inr []"
| "cut_words cpts start (off # offs) =
     (if start + off > length cpts then Inl Undef
      else
       bind_res (unicode_cpts_to_utf8 (take off (drop start cpts))) (\<lambda>w.
       bind_res (cut_words cpts (start + off) offs) (\<lambda>ws. Inr (w # ws))))"

definition encode_word :: "bytes \<Rightarrow> bytes res" where
  "encode_word word =
     bind_res (unicode_cpts_to_utf8 (unicode_cpts_from_utf8 word)) (\<lambda>text_utf.
     bind_res (map_res unicode_byte_to_utf8 text_utf) (\<lambda>bs. Inr (concat bs)))"

definition unicode_byte_encoding_process :: "bytes list \<Rightarrow> bytes list res" where
  "unicode_byte_encoding_process bpe_words = map_res encode_word bpe_words"

definition unicode_regex_split :: "unicode_data \<Rightarrow> regex_lib \<Rightarrow> bytes \<Rightarrow> bytes list \<Rightarrow> bytes list res" where
  "unicode_regex_split ud lib text regex_exprs =
     (let cpts = unicode_cpts_from_utf8 text in
      bind_res (fold_res (split_expr ud lib text) regex_exprs [length cpts]) (\<lambda>bpe_offsets.
      bind_res (cut_words cpts 0 bpe_offsets) unicode_byte_encoding_process))"

section \<open>The splitters cut without loss\<close>

text \<open>The words end where they should: a list of lengths that adds up to the stretch from one position to another.\<close>

definition spans :: "nat list \<Rightarrow> nat \<Rightarrow> nat \<Rightarrow> bool" where
  "spans ls a b \<longleftrightarrow> a \<le> b \<and> sum_list ls = b - a"

lemma spans_Nil [simp]: "spans [] a b \<longleftrightarrow> a = b"
  by (auto simp: spans_def)

lemma spans_single: "a \<le> b \<Longrightarrow> spans [b - a] a b"
  by (simp add: spans_def)

lemma spans_append: "spans ls a b \<Longrightarrow> spans ls' b c \<Longrightarrow> spans (ls @ ls') a c"
  by (auto simp: spans_def)

lemma add_token_eq:
  "pos \<le> p \<Longrightarrow> p \<le> en \<Longrightarrow> add_token en p (offs, pos) = Inr (p - pos, offs @ (if pos < p then [p - pos] else []), p)"
  by (simp add: add_token_def Let_def)

text \<open>What one round of a splitter does: it moves on, and adds words up to where it stops.\<close>

definition advances :: "nat \<Rightarrow> nat \<Rightarrow> nat list \<Rightarrow> (nat \<times> split_state) res \<Rightarrow> bool" where
  "advances en pos offs r \<longleftrightarrow> (\<exists>p ls. r = Inr (p, offs @ ls, p) \<and> pos < p \<and> p \<le> en \<and> spans ls pos p)"

lemma advances_token_to: "pos < p \<Longrightarrow> p \<le> en \<Longrightarrow> advances en pos offs (token_to en p (offs, pos))"
  by (auto simp: advances_def token_to_def add_token_eq spans_def)

lemma advances_token_by: "pos < p \<Longrightarrow> p \<le> en \<Longrightarrow> advances en pos offs (token_by en pos p (offs, pos))"
  by (auto simp: advances_def token_by_def add_token_eq spans_def)

lemma advances_if:
  "(c \<Longrightarrow> advances en pos offs r) \<Longrightarrow> (\<not> c \<Longrightarrow> advances en pos offs r') \<Longrightarrow> advances en pos offs (if c then r else r')"
  by simp

locale split_round =
  fixes step :: "nat \<Rightarrow> nat \<Rightarrow> nat \<times> split_state \<Rightarrow> (nat \<times> split_state) res"
  assumes step_advances: "ini \<le> pos \<Longrightarrow> pos < en \<Longrightarrow> advances en pos offs (step ini en (pos, offs, pos))"
begin

lemma loop_spans:
  "ini \<le> pos \<Longrightarrow> pos \<le> en \<Longrightarrow> en - pos \<le> fuel \<Longrightarrow>
     \<exists>ls. while_res (\<lambda>(pos, _). pos < en) (step ini en) fuel (pos, offs, pos) = Inr (en, offs @ ls, en) \<and> spans ls pos en"
proof (induction fuel arbitrary: pos offs)
  case (Suc fuel)
  show ?case
  proof (cases "pos < en")
    case True
    obtain p ls where p: "step ini en (pos, offs, pos) = Inr (p, offs @ ls, p)" "pos < p" "p \<le> en" "spans ls pos p"
      using step_advances[OF Suc.prems(1) True] unfolding advances_def by blast
    moreover have "ini \<le> p" "en - p \<le> fuel" using p(2,3) Suc.prems by auto
    then obtain ls' where "while_res (\<lambda>(pos, _). pos < en) (step ini en) fuel (p, offs @ ls, p) = Inr (en, (offs @ ls) @ ls', en)"
      "spans ls' p en"
      using Suc.IH[of p "offs @ ls"] p(3) by auto
    ultimately show ?thesis using True spans_append by (intro exI[of _ "ls @ ls'"]) auto
  qed (use Suc.prems in auto)
qed auto

lemma stretch_spans:
  assumes "ini \<le> en" "en \<le> length cpts"
  shows "\<exists>ls. split_stretch step cpts ini en offs = Inr (offs @ ls) \<and> spans ls ini en"
  using loop_spans[of ini ini en "en - ini" offs] assms by (auto simp: split_stretch_def)

end

lemma over_offsets_spans:
  assumes "\<And>ini en acc. ini \<le> en \<Longrightarrow> en \<le> n \<Longrightarrow> \<exists>ls. f ini en acc = Inr (acc @ ls) \<and> spans ls ini en"
  shows "spans offs start b \<Longrightarrow> b \<le> n \<Longrightarrow> \<exists>ls. over_offsets f start offs acc = Inr (acc @ ls) \<and> spans ls start b"
proof (induction offs arbitrary: start acc)
  case (Cons off offs)
  have "start + off \<le> n" using Cons.prems by (auto simp: spans_def)
  then obtain ls where ls: "f start (start + off) acc = Inr (acc @ ls)" "spans ls start (start + off)"
    using assms[of start "start + off" acc] by auto
  moreover have "spans offs (start + off) b" using Cons.prems by (auto simp: spans_def)
  then obtain ls' where "over_offsets f (start + off) offs (acc @ ls) = Inr ((acc @ ls) @ ls')" "spans ls' (start + off) b"
    using Cons.IH[of "start + off" "acc @ ls"] Cons.prems(2) by auto
  ultimately show ?case using spans_append by (intro exI[of _ "ls @ ls'"]) auto
qed auto

lemma skip_while_bounds: "pos \<le> en \<Longrightarrow> pos \<le> skip_while P en pos \<and> skip_while P en pos \<le> en"
  by (induction P en pos rule: skip_while.induct) (subst (1 2) skip_while.simps, auto)

lemma skip_while_moves: "pos < en \<Longrightarrow> P pos \<Longrightarrow> pos < skip_while P en pos"
  using skip_while_bounds[of "Suc pos" en P] by (subst skip_while.simps) simp

lemma get_flags_out [simp]: "en \<le> pos \<Longrightarrow> get_flags ud cpts ini en pos = 0"
  by (simp add: get_flags_def)

lemma flags_0 [simp]: "\<not> flag_letter 0" "\<not> flag_number 0" "\<not> flag_whitespace 0"
  by (simp_all add: flag_letter_def flag_number_def flag_whitespace_def)

interpretation gpt2: split_round "gpt2_step ud cpts" for ud cpts
proof unfold_locales
  fix ini pos en :: nat and offs
  assume pos: "ini \<le> pos" "pos < en"
  define fl where "fl = get_flags ud cpts ini en"
  define get where "get = get_cpt cpts ini en"
  define pos1 where "pos1 = (if get pos = 32 then pos + 1 else pos)"
  have f2: "(if get pos = 32 then fl (pos + 1) else fl pos) = fl pos1" by (simp add: pos1_def)
  have word: "advances en pos offs (token_to en (skip_while P en pos1) (offs, pos))" if "P pos1" "\<And>p. en \<le> p \<Longrightarrow> \<not> P p" for P
  proof -
    have "pos1 < en" using that by (meson not_le)
    then show ?thesis using skip_while_moves[of pos1 en P] skip_while_bounds[of pos1 en P] that(1) pos(2)
      by (intro advances_token_to) (auto simp: pos1_def)
  qed
  let ?w = "skip_while (\<lambda>p. flag_whitespace (fl p)) en pos"
  have w: "pos \<le> ?w" "?w \<le> en" using skip_while_bounds[of pos en "\<lambda>p. flag_whitespace (fl p)"] pos by auto
  have out: "fl p = 0" if "en \<le> p" for p using that by (simp add: fl_def)
  show "advances en pos offs (gpt2_step ud cpts ini en (pos, offs, pos))"
    unfolding gpt2_step_def Let_def prod.case fl_def[symmetric] get_def[symmetric] pos1_def[symmetric] f2
    by (intro advances_if word advances_token_to advances_token_by) (use w pos in \<open>auto simp: out\<close>)
qed

lemma digits_loop_spans:
  "ini \<le> pos \<Longrightarrow> pos \<le> en \<Longrightarrow>
     \<exists>p ls. digits_loop P en ini pos (offs, ini) = Inr (p, offs @ ls, p) \<and> pos \<le> p \<and> p \<le> en \<and> spans ls ini p \<and>
       (pos < en \<and> P pos \<longrightarrow> pos < p)"
proof (induction "en - pos" arbitrary: ini pos offs)
  case 0
  then show ?case by (subst digits_loop.simps) (auto simp: token_to_def add_token_eq spans_def)
next
  case (Suc k)
  show ?case
  proof (cases "P pos")
    case False
    then show ?thesis using Suc by (subst digits_loop.simps) (auto simp: token_to_def add_token_eq spans_def)
  next
    case True
    have k: "k = en - (pos + 1)" "pos + 1 \<le> en" using Suc.hyps(2) by auto
    show ?thesis
    proof (cases "pos + 1 - ini \<ge> 3")
      case three: True
      let ?offs = "offs @ [pos + 1 - ini]"
      obtain p ls where p: "digits_loop P en (pos + 1) (pos + 1) (?offs, pos + 1) = Inr (p, ?offs @ ls, p)"
        "pos + 1 \<le> p" "p \<le> en" "spans ls (pos + 1) p"
        using Suc.hyps(1)[OF k(1) le_refl k(2), of ?offs] by blast
      have "digits_loop P en ini pos (offs, ini) = digits_loop P en (pos + 1) (pos + 1) (?offs, pos + 1)"
        using True three Suc.prems k(2) by (subst digits_loop.simps) (simp add: add_token_eq)
      moreover have "spans ([pos + 1 - ini] @ ls) ini p"
        using spans_append[OF spans_single p(4)] Suc.prems by simp
      ultimately show ?thesis using p by (intro exI[of _ p] exI[of _ "[pos + 1 - ini] @ ls"]) auto
    next
      case False
      obtain p ls where p: "digits_loop P en ini (pos + 1) (offs, ini) = Inr (p, offs @ ls, p)"
        "pos + 1 \<le> p" "p \<le> en" "spans ls ini p"
        using Suc.hyps(1)[OF k(1) _ k(2), of ini offs] Suc.prems(1) by auto
      moreover have "digits_loop P en ini pos (offs, ini) = digits_loop P en ini (pos + 1) (offs, ini)"
        using True False k(2) by (subst digits_loop.simps) simp
      ultimately show ?thesis by (intro exI[of _ p] exI[of _ ls]) auto
    qed
  qed
qed

lemma spaces_loop_bounds:
  "spaces_loop P get en pos num e = (num', e') \<Longrightarrow> pos + num \<le> en \<Longrightarrow> pos + num' \<le> en \<and> (e' = e \<or> pos < e' \<and> e' \<le> en)"
  by (induction P get en pos num e rule: spaces_loop.induct) (subst (asm) (2) spaces_loop.simps, auto split: if_splits)

interpretation llama3: split_round "llama3_step ud cpts" for ud cpts
proof unfold_locales
  fix ini pos en :: nat and offs
  assume pos: "ini \<le> pos" "pos < en"
  define fl where "fl = get_flags ud cpts ini en"
  define get where "get = get_cpt cpts ini en"
  define pos1 where "pos1 = (if get pos = 32 then pos + 1 else pos)"
  have f2: "(if get pos = 32 then fl (pos + 1) else fl pos) = fl pos1" by (simp add: pos1_def)
  have letters: "pos < skip_while P en (pos + 1)" "skip_while P en (pos + 1) \<le> en" for P
    using skip_while_bounds[of "pos + 1" en P] pos by auto
  have number: "advances en pos offs (digits_loop (\<lambda>p. flag_number (fl p)) en pos pos (offs, pos))" if "flag_number (fl pos)"
    using digits_loop_spans[of pos pos en "\<lambda>p. flag_number (fl p)" offs] that pos unfolding advances_def by auto
  have other: "advances en pos offs (token_to en (skip_while Q en (skip_while P en pos1)) (offs, pos))"
    if "get pos \<noteq> 32 \<Longrightarrow> P pos" for P Q
  proof -
    have "pos1 \<le> en" using pos by (simp add: pos1_def)
    then have "pos < skip_while P en pos1" "skip_while P en pos1 \<le> en"
      using skip_while_bounds[of pos1 en P] skip_while_moves[of pos en P] that pos by (auto simp: pos1_def)
    then show ?thesis using skip_while_bounds[of "skip_while P en pos1" en Q] by (intro advances_token_to) auto
  qed
  obtain num e where ws: "spaces_loop (\<lambda>p. flag_whitespace (fl p)) get en pos 0 0 = (num, e)" by fastforce
  have w: "pos + num \<le> en" "e = 0 \<or> pos < e \<and> e \<le> en" using spaces_loop_bounds[OF ws] pos by auto
  have spaces: "advances en pos offs (if e > 0 then token_to en e (offs, pos)
      else if num > 1 \<and> get (pos + num) \<noteq> OUT_OF_RANGE then token_to en (pos + num - 1) (offs, pos)
      else if num > 0 then token_to en (pos + num) (offs, pos) else token_to en (pos + 1) (offs, pos))"
    by (intro advances_if advances_token_to) (use w pos in auto)
  have same: "get pos \<noteq> 32 \<Longrightarrow> pos1 = pos" by (simp add: pos1_def)
  show "advances en pos offs (llama3_step ud cpts ini en (pos, offs, pos))"
    unfolding llama3_step_def Let_def prod.case fl_def[symmetric] get_def[symmetric] pos1_def[symmetric] f2 ws
    by (intro advances_if other number spaces letters advances_token_to advances_token_by) (use pos in \<open>simp_all add: same\<close>)
qed

text \<open>Matches as the iterators of the standard library yield them: in order, apart from each other, inside the text.\<close>

fun matches_ok :: "nat \<Rightarrow> nat \<Rightarrow> matches \<Rightarrow> bool" where
  "matches_ok s n [] \<longleftrightarrow> s \<le> n"
| "matches_ok s n ((p, l) # ms) \<longleftrightarrow> s \<le> p \<and> matches_ok (p + l) n ms"

lemma stl_matches_spans:
  "matches_ok s n ms \<Longrightarrow> \<exists>ls e. stl_matches ms s offs = (e, offs @ ls) \<and> spans ls s e \<and> e \<le> n"
proof (induction ms arbitrary: s offs)
  case (Cons m ms)
  obtain p l where m: "m = (p, l)" by fastforce
  let ?gap = "(if p > s then [p - s] else []) @ [l]"
  obtain ls e where "stl_matches ms (p + l) (offs @ ?gap) = (e, (offs @ ?gap) @ ls)" "spans ls (p + l) e" "e \<le> n"
    using Cons.IH[of "p + l" "offs @ ?gap"] Cons.prems m by auto
  moreover have "spans ?gap s (p + l)" using Cons.prems m by (auto simp: spans_def)
  then have "spans (?gap @ ls) s e" by (rule spans_append) fact
  ultimately show ?case using m by (intro exI[of _ "?gap @ ls"] exI[of _ e]) (auto split: if_splits)
qed auto

lemma stl_stretch_spans:
  assumes "\<And>s. \<exists>ms. re s = Some ms \<and> matches_ok 0 (length s) ms" "ini \<le> en" "en \<le> length txt"
  shows "\<exists>ls. stl_stretch re txt ini en offs = Inr (offs @ ls) \<and> spans ls ini en"
proof -
  obtain ms where ms: "re (take (en - ini) (drop ini txt)) = Some ms" "matches_ok 0 (en - ini) ms"
    using assms(1)[of "take (en - ini) (drop ini txt)"] assms(2,3) by auto
  obtain ls e where "stl_matches ms 0 offs = (e, offs @ ls)" "spans ls 0 e" "e \<le> en - ini"
    using stl_matches_spans[OF ms(2)] by blast
  then show ?thesis using ms(1) assms(2) by (auto simp: stl_stretch_def spans_def)
qed

section \<open>All expressions\<close>

text \<open>Collapsing an expression never fails: every category has a byte and a range.\<close>

lemma ucat_total: "k_ucat_enum pat = Some cat \<Longrightarrow> \<exists>b r. k_ucat_cpt cat = Some b \<and> k_ucat_map cat = Some r"
  by (auto simp: k_ucat_enum_def k_ucat_cpt_def k_ucat_map_def split: if_splits)

lemma collapse_regex_total: "\<exists>re. collapse_regex prev inside cs = Inr re"
proof (induction prev inside cs rule: collapse_regex.induct)
  case (2 prev inside c cs)
  show ?case
  proof (cases "if c = 92 \<and> length cs \<ge> 4 \<and> cs ! 0 = 112 \<and> cs ! 1 = 123 \<and> cs ! 3 = 125 then k_ucat_enum (c # take 4 cs) else None")
    case None
    then show ?thesis using "2.IH" by (subst collapse_regex.simps(2)) auto
  next
    case (Some cat)
    then have "k_ucat_enum (c # take 4 cs) = Some cat" by (auto split: if_splits)
    then obtain b r where "map_at k_ucat_cpt cat = Inr b" "map_at k_ucat_map cat = Inr r" using ucat_total by fastforce
    then show ?thesis using Some "2.IH" by (subst collapse_regex.simps(2)) auto
  qed
qed simp

text \<open>What is asked of the standard library for an expression that is used: it compiles, and matching it returns matches in order.\<close>

definition matcher_ok :: "('c list \<Rightarrow> matches option) option \<Rightarrow> bool" where
  "matcher_ok expr \<longleftrightarrow> (\<exists>re. expr = Some re \<and> (\<forall>s. \<exists>ms. re s = Some ms \<and> matches_ok 0 (length s) ms))"

definition regex_ok :: "regex_lib \<Rightarrow> bytes \<Rightarrow> bool" where
  "regex_ok lib r \<longleftrightarrow>
     (if uses_category r then
        (\<forall>c\<in>set (unicode_cpts_from_utf8 r). c < 128) \<and> (\<forall>re. collapse_regex None False r = Inr re \<longrightarrow> matcher_ok (re_byte lib re))
      else matcher_ok (re_wide lib r))"

lemma stl_spans:
  assumes "matcher_ok expr" "spans offs 0 (length txt)"
  shows "\<exists>ls. unicode_regex_split_stl expr txt offs = Inr ls \<and> spans ls 0 (length txt)"
proof -
  obtain re where re: "expr = Some re" "\<And>s. \<exists>ms. re s = Some ms \<and> matches_ok 0 (length s) ms"
    using assms(1) by (auto simp: matcher_ok_def)
  show ?thesis using over_offsets_spans[of "length txt" "stl_stretch re txt" offs 0 "length txt" "[]"] stl_stretch_spans[OF re(2)] assms(2) re(1)
    by (simp add: unicode_regex_split_stl_def)
qed

lemma custom_spans:
  assumes "spans offs 0 (length (unicode_cpts_from_utf8 text))"
  shows "\<exists>ls. unicode_regex_split_custom ud text r offs = Inr ls \<and> (ls = [] \<or> spans ls 0 (length (unicode_cpts_from_utf8 text)))"
proof -
  let ?c = "unicode_cpts_from_utf8 text"
  have "\<exists>ls. over_offsets (split_stretch (gpt2_step ud ?c) ?c) 0 offs [] = Inr ([] @ ls) \<and> spans ls 0 (length ?c)"
    by (rule over_offsets_spans[OF gpt2.stretch_spans assms le_refl])
  moreover have "\<exists>ls. over_offsets (split_stretch (llama3_step ud ?c) ?c) 0 offs [] = Inr ([] @ ls) \<and> spans ls 0 (length ?c)"
    by (rule over_offsets_spans[OF llama3.stretch_spans assms le_refl])
  ultimately show ?thesis
    by (auto simp: unicode_regex_split_custom_def unicode_regex_split_custom_gpt2_def unicode_regex_split_custom_llama3_def Let_def)
qed

lemma split_expr_spans:
  assumes "regex_ok lib r" "spans offs 0 (length (unicode_cpts_from_utf8 text))"
  shows "\<exists>ls. split_expr ud lib text r offs = Inr ls \<and> spans ls 0 (length (unicode_cpts_from_utf8 text))"
proof -
  let ?c = "unicode_cpts_from_utf8 text"
  obtain ls where ls: "unicode_regex_split_custom ud text r offs = Inr ls" "ls = [] \<or> spans ls 0 (length ?c)"
    using custom_spans[OF assms(2)] by blast
  obtain re where re: "collapse_regex None False r = Inr re" using collapse_regex_total by blast
  have "\<exists>ls. split_fallback ud lib ?c r offs = Inr ls \<and> spans ls 0 (length ?c)"
    using stl_spans[of "re_byte lib re" offs "map (collapse_cpt ud) ?c"] stl_spans[of "re_wide lib r" offs "wide_text ud ?c"] assms re
    by (auto simp: split_fallback_def regex_ok_def wide_text_def split: if_splits)
  then show ?thesis using ls by (cases "ls = []") (auto simp: split_expr_def)
qed

lemma split_exprs_spans:
  assumes "\<forall>r\<in>set rs. regex_ok lib r" "spans offs 0 (length (unicode_cpts_from_utf8 text))"
  shows "\<exists>ls. fold_res (split_expr ud lib text) rs offs = Inr ls \<and> spans ls 0 (length (unicode_cpts_from_utf8 text))"
  using assms
proof (induction rs arbitrary: offs)
  case (Cons r rs)
  obtain ls where "split_expr ud lib text r offs = Inr ls" "spans ls 0 (length (unicode_cpts_from_utf8 text))"
    using split_expr_spans[of lib r offs "text" ud] Cons.prems by auto
  then show ?case using Cons by simp
qed simp

text \<open>Cutting along lengths that add up.\<close>

lemma cpts_to_utf8_append:
  "unicode_cpts_to_utf8 (a @ b) = Inr bs \<longleftrightarrow> (\<exists>x y. unicode_cpts_to_utf8 a = Inr x \<and> unicode_cpts_to_utf8 b = Inr y \<and> bs = x @ y)"
proof (induction a arbitrary: bs)
  case (Cons c a)
  show ?case unfolding append_Cons cpts_to_utf8_simps(2) Cons.IH by (auto intro: exI[where x = "_ @ _"])
qed simp

lemma cut_words_concat:
  "spans offs start (length cpts) \<Longrightarrow> unicode_cpts_to_utf8 (drop start cpts) = Inr bs \<Longrightarrow>
     \<exists>ws. cut_words cpts start offs = Inr ws \<and> concat ws = bs \<and> (\<forall>w\<in>set ws. \<exists>cs. unicode_cpts_to_utf8 cs = Inr w)"
proof (induction offs arbitrary: start bs)
  case (Cons off offs)
  have sp: "spans offs (start + off) (length cpts)" "start + off \<le> length cpts" using Cons.prems(1) by (auto simp: spans_def)
  have "drop start cpts = take off (drop start cpts) @ drop (start + off) cpts"
    using append_take_drop_id[of off "drop start cpts"] by (simp add: add.commute)
  then obtain x y where xy: "unicode_cpts_to_utf8 (take off (drop start cpts)) = Inr x" "unicode_cpts_to_utf8 (drop (start + off) cpts) = Inr y" "bs = x @ y"
    using Cons.prems(2) cpts_to_utf8_append by metis
  obtain ws where "cut_words cpts (start + off) offs = Inr ws" "concat ws = y" "\<forall>w\<in>set ws. \<exists>cs. unicode_cpts_to_utf8 cs = Inr w"
    using Cons.IH[OF sp(1) xy(2)] by blast
  then show ?case using sp(2) xy by auto
qed auto

lemma map_res_pure: "(\<And>x. x \<in> set xs \<Longrightarrow> f x = Inr (g x)) \<Longrightarrow> map_res f xs = Inr (map g xs)"
  by (induction xs) auto

lemma cpts_from_to: "unicode_cpts_to_utf8 cs = Inr bs \<Longrightarrow> unicode_cpts_from_utf8 bs = cs"
  using cpts_from_to_loop[of cs _ "[]" "[]"] by (auto simp: unicode_cpts_to_utf8_def unicode_cpts_from_utf8_def)

text \<open>The bytes of a text as printable characters.\<close>

definition encode_bytes :: "bytes \<Rightarrow> bytes" where
  "encode_bytes bs = concat (map byte_enc bs)"

lemma encode_bytes_concat: "encode_bytes (concat ws) = concat (map encode_bytes ws)"
  by (induction ws) (simp_all add: encode_bytes_def)

lemma encode_word_eq: "unicode_cpts_to_utf8 cs = Inr w \<Longrightarrow> encode_word w = Inr (encode_bytes w)"
  by (simp add: encode_word_def cpts_from_to map_res_pure[of _ _ byte_enc] encode_bytes_def)

lemma no_blanks_encode: "no_blanks (encode_bytes bs)"
  using no_blanks_byte_enc by (auto simp: no_blanks_def encode_bytes_def)

lemma regex_split_words:
  assumes "unicode_cpts_to_utf8 (unicode_cpts_from_utf8 text) = Inr bs" "\<forall>r\<in>set rs. regex_ok lib r"
  shows "\<exists>ws. unicode_regex_split ud lib text rs = Inr (map encode_bytes ws) \<and> concat ws = bs"
proof -
  let ?c = "unicode_cpts_from_utf8 text"
  obtain ls where ls: "fold_res (split_expr ud lib text) rs [length ?c] = Inr ls" "spans ls 0 (length ?c)"
    using split_exprs_spans[OF assms(2), of "[length ?c]"] by (auto simp: spans_def)
  obtain ws where ws: "cut_words ?c 0 ls = Inr ws" "concat ws = bs" "\<forall>w\<in>set ws. \<exists>cs. unicode_cpts_to_utf8 cs = Inr w"
    using cut_words_concat[OF ls(2), of bs] assms(1) by auto
  have "unicode_byte_encoding_process ws = Inr (map encode_bytes ws)"
    unfolding unicode_byte_encoding_process_def using ws(3) encode_word_eq by (intro map_res_pure) blast
  then show ?thesis using ls(1) ws by (auto simp: unicode_regex_split_def Let_def)
qed

text \<open>
  C18. Splitting a valid text into words ends and loses nothing: whatever expressions the model asks for, when the standard library
  compiles those that have no splitter of their own and yields its matches in order, the words, put together, are the text, each
  with its bytes written as printable characters, so that no word has a blank or a line break in it.
\<close>

theorem regex_split_lossless:
  assumes "unicode_cpts_to_utf8 cps = Inr text" "\<forall>r\<in>set regex_exprs. regex_ok lib r"
  shows "\<exists>words. unicode_regex_split ud lib text regex_exprs = Inr (map encode_bytes words) \<and> concat words = text \<and>
    (\<forall>w\<in>set (map encode_bytes words). no_blanks w)"
  using regex_split_words[of "text" "text" regex_exprs lib ud] assms cpts_from_to[OF assms(1)] no_blanks_encode by auto

text \<open>A library that knows the digits.\<close>

fun digit_matches :: "nat \<Rightarrow> bytes \<Rightarrow> matches" where
  "digit_matches i [] = []"
| "digit_matches i (c # cs) = (if 48 \<le> c \<and> c \<le> 57 then (i, 1) # digit_matches (i + 1) cs else digit_matches (i + 1) cs)"

lemma digit_matches_ok: "s \<le> i \<Longrightarrow> matches_ok s (i + length cs) (digit_matches i cs)"
proof (induction i cs arbitrary: s rule: digit_matches.induct)
  case (2 i c cs)
  then show ?case using "2.IH"(1)[of "i + 1"] "2.IH"(2)[of s] by auto
qed auto

definition ex_regex_lib :: regex_lib where
  "ex_regex_lib = \<lparr>re_byte = (\<lambda>_. Some (\<lambda>s. Some (digit_matches 0 s))), re_wide = (\<lambda>_. Some (\<lambda>_. Some []))\<rparr>"

lemma ex_regex_ok: "uses_category r \<longrightarrow> (\<forall>c\<in>set (unicode_cpts_from_utf8 r). c < 128) \<Longrightarrow> regex_ok ex_regex_lib r"
  using digit_matches_ok[of 0 0] by (auto simp: regex_ok_def ex_regex_lib_def matcher_ok_def)

definition ex_flags :: unicode_data where
  "ex_flags = \<lparr>ud_flags = (\<lambda>c. if c = 32 then 0x0108 else if 48 \<le> c \<and> c \<le> 57 then 2 else 4), ud_lowercase = [], ud_nfd = []\<rparr>"

theorem regex_split_lossless_witness:
  "\<exists>words. unicode_regex_split ex_flags ex_regex_lib [97, 98, 32, 49, 50] [ucat 78, gpt2_regex] = Inr (map encode_bytes words) \<and>
    concat words = [97, 98, 32, 49, 50] \<and> (\<forall>w\<in>set (map encode_bytes words). no_blanks w)"
proof (rule regex_split_lossless)
  show "unicode_cpts_to_utf8 [97, 98, 32, 49, 50] = Inr [97, 98, 32, 49, 50]" by code_simp
  have "list_all (\<lambda>c. c < 128) (unicode_cpts_from_utf8 (ucat 78))" "list_all (\<lambda>c. c < 128) (unicode_cpts_from_utf8 gpt2_regex)"
    by code_simp+
  then show "\<forall>r\<in>set [ucat 78, gpt2_regex]. regex_ok ex_regex_lib r" by (auto simp: list_all_iff intro!: ex_regex_ok)
qed

end
