(* ===== verification/Tokenize.thy ===== *)
theory Tokenize
  imports Tok_Pre
begin

text \<open>
  The whole tokenizer of \<open>src/llama-vocab.cpp\<close>: \<open>tokenize\<close> over the sessions of the other theories, \<open>token_to_piece\<close> and
  \<open>detokenize\<close>, and the functions of the public interface. A piece or a text written to a buffer is the list of its bytes, with the number the
  function returns. Lengths are below \<open>2\<^sup>3\<^sup>1\<close> throughout, so the casts to \<open>int32_t\<close> keep them.
\<close>

section \<open>White space\<close>

text \<open>\<open>replace_all\<close> of \<open>src/llama-impl.cpp\<close>.\<close>

lemma find_from_bounds: "find_from s pat pos = Some p \<Longrightarrow> pos \<le> p \<and> p + length pat \<le> length s"
  by (auto dest: find_from_Some)

function replace_loop :: "bytes \<Rightarrow> bytes \<Rightarrow> bytes \<Rightarrow> nat \<Rightarrow> bytes \<Rightarrow> bytes" where
  "replace_loop s srch repl last_pos builder =
     (if srch = [] then s
      else case find_from s srch last_pos of
             None \<Rightarrow> builder @ drop last_pos s
           | Some pos \<Rightarrow> replace_loop s srch repl (pos + length srch) (builder @ take (pos - last_pos) (drop last_pos s) @ repl))"
  by pat_completeness auto
termination
  by (relation "measure (\<lambda>(s, _, _, last_pos, _). Suc (length s) - last_pos)")
    (auto dest!: find_from_bounds simp flip: length_greater_0_conv)

declare replace_loop.simps [simp del]

definition replace_all :: "bytes \<Rightarrow> bytes \<Rightarrow> bytes \<Rightarrow> bytes" where
  "replace_all s srch repl = (if srch = [] then s else replace_loop s srch repl 0 [])"

definition llama_escape_whitespace :: "bytes \<Rightarrow> bytes" where
  "llama_escape_whitespace s = replace_all s [32] phantom_space"

definition llama_unescape_whitespace :: "bytes \<Rightarrow> bytes" where
  "llama_unescape_whitespace word = replace_all word phantom_space [32]"

section \<open>From text to tokens\<close>

text \<open>The tokenizer that \<open>init_tokenizer\<close> makes, with what the library gives it: the Unicode tables, the regular
  expressions, the floating-point operations and the queues' choices.\<close>

datatype 'f llm_tokenizer =
    TokSpm | TokBpe (regex_exprs: "bytes list") | TokWpm | TokUgm (ugm_tables: "'f llm_tokenizer_ugm") | TokRwkv (rwkv_matcher: naive_trie)

record 'f tokenizer_lib =
  tl_unicode :: unicode_data
  tl_regex :: regex_lib
  tl_float :: "'f float_ops"
  tl_spm_queue :: "'f llm_bigram_spm pq"
  tl_bpe_queue :: "llm_bigram_bpe pq"

text \<open>The expressions of a BPE model (chosen by its pre-tokenizer type) and the precompiled character map are data of the model file.\<close>

definition init_tokenizer :: "'f::linorder tokenizer_lib \<Rightarrow> 'f llama_vocab \<Rightarrow> bytes list \<Rightarrow> bytes \<Rightarrow> 'f llm_tokenizer res" where
  "init_tokenizer lib v exprs precompiled_charsmap =
     (case v_type v of
        LLAMA_VOCAB_TYPE_SPM \<Rightarrow> Inr TokSpm
      | LLAMA_VOCAB_TYPE_BPE \<Rightarrow> Inr (TokBpe exprs)
      | LLAMA_VOCAB_TYPE_WPM \<Rightarrow> Inr TokWpm
      | LLAMA_VOCAB_TYPE_UGM \<Rightarrow>
          bind_res (make_tokenizer_ugm (tl_float lib) v precompiled_charsmap) (\<lambda>tk. Inr (TokUgm tk))
      | LLAMA_VOCAB_TYPE_RWKV \<Rightarrow> Inr (TokRwkv (llm_tokenizer_rwkv v))
      | LLAMA_VOCAB_TYPE_NONE \<Rightarrow> Inl GgmlAbort)"

text \<open>A special token that is asked for must exist.\<close>

definition push_special :: "bool \<Rightarrow> llama_token \<Rightarrow> llama_token list \<Rightarrow> llama_token list res" where
  "push_special b t out = (if b then bind_res (ggml_assert (t \<noteq> LLAMA_TOKEN_NULL)) (\<lambda>_. Inr (out @ [t])) else Inr out)"

text \<open>The loop over the fragments.\<close>

definition tokenize_fragments ::
    "(bytes \<Rightarrow> llama_token list \<Rightarrow> llama_token list res) \<Rightarrow> bytes \<Rightarrow> fragment_buffer_variant list \<Rightarrow> llama_token list \<Rightarrow> llama_token list res" where
  "tokenize_fragments f raw frags out =
     fold_res (\<lambda>frag out. case frag of FragToken t \<Rightarrow> Inr (out @ [t]) | FragText off len \<Rightarrow> f (take len (drop off raw)) out) frags out"

text \<open>SPM: a blank in front of a text at the start or after a special token.\<close>

definition spm_fragment :: "'f::linorder tokenizer_lib \<Rightarrow> 'f llama_vocab \<Rightarrow> bytes \<Rightarrow> fragment_buffer_variant \<Rightarrow> bool \<times> llama_token list \<Rightarrow> (bool \<times> llama_token list) res" where
  "spm_fragment lib v raw frag = (\<lambda>(is_prev_special, out).
     case frag of
       FragToken t \<Rightarrow> Inr (True, out @ [t])
     | FragText off len \<Rightarrow>
         let text = (if add_space_prefix v \<and> is_prev_special then [32] else []) @ take len (drop off raw)
         in bind_res (spm_tokenize v (tl_spm_queue lib) (llama_escape_whitespace text) out) (\<lambda>out. Inr (False, out)))"

text \<open>\<open>llm_tokenizer_bpe_session::tokenize\<close> starts by splitting the text into words.\<close>

definition bpe_session_tokenize :: "'f tokenizer_lib \<Rightarrow> 'f llama_vocab \<Rightarrow> bytes list \<Rightarrow> bytes \<Rightarrow> llama_token list \<Rightarrow> llama_token list res" where
  "bpe_session_tokenize lib v exprs text out =
     bind_res (unicode_regex_split (tl_unicode lib) (tl_regex lib) text exprs) (\<lambda>words. bpe_tokenize v (tl_bpe_queue lib) words out)"

definition tokenize :: "'f::linorder tokenizer_lib \<Rightarrow> 'f llama_vocab \<Rightarrow> 'f llm_tokenizer option \<Rightarrow> bytes \<Rightarrow> bool \<Rightarrow> bool \<Rightarrow> llama_token list res" where
  "tokenize lib v tokenizer raw add_special parse_special =
     (case tokenizer of None \<Rightarrow> Inl GgmlAbort | Some tk \<Rightarrow>
      bind_res (if raw \<noteq> [] then tokenizer_st_partition v raw parse_special [FragText 0 (length raw)] else Inr []) (\<lambda>frags.
      case v_type v of
        LLAMA_VOCAB_TYPE_SPM \<Rightarrow>
          bind_res (push_special (add_special \<and> add_bos v) (special_bos_id v) []) (\<lambda>out.
          bind_res (fold_res (spm_fragment lib v raw) frags (True, out)) (\<lambda>(_, out).
            push_special (add_special \<and> add_eos v) (special_eos_id v) out))
      | LLAMA_VOCAB_TYPE_BPE \<Rightarrow>
          (case tk of
             TokBpe exprs \<Rightarrow>
               bind_res (push_special (add_special \<and> add_bos v) (special_bos_id v) []) (\<lambda>out.
               bind_res (tokenize_fragments (bpe_session_tokenize lib v exprs) raw frags out) (\<lambda>out.
                 push_special (add_special \<and> add_eos v) (special_eos_id v) out))
           | _ \<Rightarrow> Inl Undef)
      | LLAMA_VOCAB_TYPE_WPM \<Rightarrow>
          bind_res (push_special add_special (special_bos_id v) []) (\<lambda>out.
          bind_res (tokenize_fragments (wpm_tokenize (tl_unicode lib) v) raw frags out) (\<lambda>out.
            push_special add_special (special_sep_id v) out))
      | LLAMA_VOCAB_TYPE_UGM \<Rightarrow>
          (case tk of
             TokUgm tables \<Rightarrow>
               bind_res (push_special (add_special \<and> add_bos v) (special_bos_id v) []) (\<lambda>out.
               bind_res (tokenize_fragments (ugm_tokenize (tl_float lib) v tables) raw frags out) (\<lambda>out.
                 push_special (add_special \<and> add_eos v) (special_eos_id v) out))
           | _ \<Rightarrow> Inl Undef)
      | LLAMA_VOCAB_TYPE_RWKV \<Rightarrow>
          (case tk of
             TokRwkv matcher \<Rightarrow> tokenize_fragments (rwkv_tokenize v matcher) raw frags []
           | _ \<Rightarrow> Inl Undef)
      | LLAMA_VOCAB_TYPE_NONE \<Rightarrow> Inl GgmlAbort))"

text \<open>The function of the interface, with a buffer for \<open>n_tokens_max\<close> tokens: the number returned and what is written.\<close>

definition llama_tokenize :: "'f::linorder tokenizer_lib \<Rightarrow> 'f llama_vocab \<Rightarrow> 'f llm_tokenizer option \<Rightarrow> bytes \<Rightarrow> int \<Rightarrow> bool \<Rightarrow> bool \<Rightarrow> (int \<times> llama_token list) res" where
  "llama_tokenize lib v tokenizer text n_tokens_max add_special parse_special =
     bind_res (tokenize lib v tokenizer text add_special parse_special) (\<lambda>res.
       Inr (if n_tokens_max < int (length res) then (- int (length res), []) else (int (length res), res)))"

section \<open>From tokens to text\<close>

text \<open>\<open>llama_decode_text\<close>; bytes of a character that stands for no byte are written out.\<close>

definition hex_lower :: "nat \<Rightarrow> u8" where
  "hex_lower d = (if d < 10 then word_of_nat (48 + d) else word_of_nat (87 + d))"

definition unk_byte :: "bytes \<Rightarrow> bytes \<Rightarrow> bytes" where
  "unk_byte utf8 text =
     [91, 85, 78, 75, 95, 66, 89, 84, 69, 95, 48, 120] @
     concat (map (\<lambda>c. [hex_lower (unat (drop_bit 4 c)), hex_lower (unat (c AND 15))]) utf8) @ text @ [93]"

definition decode_cpt :: "bytes \<Rightarrow> u32 \<Rightarrow> bytes res" where
  "decode_cpt text cpt =
     bind_res (unicode_cpt_to_utf8 cpt) (\<lambda>utf8.
       case unicode_utf8_to_byte utf8 of Inr b \<Rightarrow> Inr [b] | Inl _ \<Rightarrow> Inr (unk_byte utf8 text))"

definition llama_decode_text :: "bytes \<Rightarrow> bytes res" where
  "llama_decode_text text = bind_res (map_res (decode_cpt text) (unicode_cpts_from_utf8 text)) (\<lambda>bss. Inr (concat bss))"

text \<open>\<open>_try_copy\<close>: leading blanks are skipped, then the piece is copied if it fits.\<close>

fun skip_blanks :: "nat \<Rightarrow> bytes \<Rightarrow> bytes" where
  "skip_blanks (Suc n) (c # cs) = (if c = 32 then skip_blanks n cs else c # cs)"
| "skip_blanks n cs = cs"

definition copy_out :: "int \<Rightarrow> bytes \<Rightarrow> int \<times> bytes" where
  "copy_out len piece = (if len < int (length piece) then (- int (length piece), []) else (int (length piece), piece))"

definition try_copy :: "int \<Rightarrow> int \<Rightarrow> bytes \<Rightarrow> (int \<times> bytes) res" where
  "try_copy len lstrip piece = Inr (copy_out len (skip_blanks (nat lstrip) piece))"

text \<open>The copy of the RWKV branch: its comparison is unsigned, so a negative length lets it write past the buffer.\<close>

definition copy_unchecked :: "int \<Rightarrow> bytes \<Rightarrow> (int \<times> bytes) res" where
  "copy_unchecked len piece = (if len < 0 \<and> piece \<noteq> [] then Inl Undef else Inr (copy_out len piece))"

definition token_to_piece :: "'f llama_vocab \<Rightarrow> llama_token \<Rightarrow> int \<Rightarrow> int \<Rightarrow> bool \<Rightarrow> (int \<times> bytes) res" where
  "token_to_piece v token len lstrip special =
     bind_res (token_get_attr v token) (\<lambda>attr.
       if \<not> special \<and> has_attr attr [ATTR_UNKNOWN, ATTR_CONTROL] then Inr (0, [])
       else if cache_token_to_piece v \<noteq> [] then
         bind_res (vec_at (cache_token_to_piece v) token) (try_copy len lstrip)
       else if 0 \<le> token \<and> token < int (length (id_to_token v)) then
         bind_res (vec_get (id_to_token v) token) (\<lambda>d.
         let token_text = td_text d in
         if v_type v \<in> {LLAMA_VOCAB_TYPE_WPM, LLAMA_VOCAB_TYPE_SPM, LLAMA_VOCAB_TYPE_UGM} then
           (if has_attr attr [ATTR_UNKNOWN, ATTR_CONTROL, ATTR_USER_DEFINED] then try_copy len lstrip token_text
            else if has_attr attr [ATTR_NORMAL] then try_copy len lstrip (llama_unescape_whitespace token_text)
            else if has_attr attr [ATTR_BYTE] then bind_res (token_to_byte v token) (\<lambda>byte. try_copy len lstrip [byte])
            else Inr (0, []))
         else if v_type v = LLAMA_VOCAB_TYPE_BPE then
           (if has_attr attr [ATTR_UNKNOWN, ATTR_CONTROL, ATTR_USER_DEFINED] then try_copy len lstrip token_text
            else if has_attr attr [ATTR_NORMAL] then bind_res (llama_decode_text token_text) (try_copy len lstrip)
            else Inr (0, []))
         else if v_type v = LLAMA_VOCAB_TYPE_RWKV then copy_unchecked len (llama_unescape_rwkv_token token_text)
         else Inl GgmlAbort)
       else Inr (0, []))"

text \<open>\<open>token_to_piece_for_cache\<close>: first the space a string has by itself (\<open>capacity\<close>), then what is needed.\<close>

definition token_to_piece_for_cache :: "'f llama_vocab \<Rightarrow> nat \<Rightarrow> llama_token \<Rightarrow> bool \<Rightarrow> bytes res" where
  "token_to_piece_for_cache v capacity token special =
     bind_res (token_to_piece v token (int capacity) 0 special) (\<lambda>(n_chars, piece).
       if n_chars < 0 then
         bind_res (token_to_piece v token (- n_chars) 0 special) (\<lambda>(check, piece).
         bind_res (ggml_assert (check = - n_chars)) (\<lambda>_. Inr piece))
       else Inr piece)"

text \<open>The caches that loading a vocabulary ends with. \<open>std::sort\<close> is a parameter.\<close>

definition build_special_tokens_cache :: "((llama_token \<Rightarrow> llama_token \<Rightarrow> bool) \<Rightarrow> llama_token list \<Rightarrow> llama_token list) \<Rightarrow> 'f llama_vocab \<Rightarrow> 'f llama_vocab" where
  "build_special_tokens_cache srt v =
     (let size = (\<lambda>t. length (td_text (id_to_token v ! nat t)));
          ids = filter (\<lambda>t. has_attr (td_attr (id_to_token v ! nat t)) [ATTR_CONTROL, ATTR_USER_DEFINED, ATTR_UNKNOWN])
                  (map int [0..<n_tokens v])
      in v\<lparr>cache_special_tokens := srt (\<lambda>a b. size a > size b) (cache_special_tokens v @ ids)\<rparr>)"

definition build_token_to_piece_cache :: "nat \<Rightarrow> 'f llama_vocab \<Rightarrow> 'f llama_vocab res" where
  "build_token_to_piece_cache capacity v =
     bind_res (map_res (\<lambda>i. token_to_piece_for_cache v capacity (int i) True) [0..<n_tokens v]) (\<lambda>cache.
       Inr (v\<lparr>cache_token_to_piece := cache\<rparr>))"

section \<open>Cleaning up white space\<close>

text \<open>The three passes of \<open>detokenize\<close> over the text, in place: the text, the next position and the length so far.\<close>

function clean_punctuation :: "nat \<Rightarrow> nat \<Rightarrow> bytes \<times> nat \<Rightarrow> bytes \<times> nat" where
  "clean_punctuation total1 i st =
     (if i < total1 then
        (case st of (text, tot) \<Rightarrow>
           let x = text ! i;
               tot = (if text ! (i - 1) = 32 \<and> x \<in> {63, 33, 46, 44} then tot - 1 else tot)
           in clean_punctuation total1 (i + 1) (text[tot := x], tot + 1))
      else st)"
  by pat_completeness auto
termination by (relation "measure (\<lambda>(total1, i, _). total1 - i)") auto

function clean_apostrophes :: "nat \<Rightarrow> nat \<Rightarrow> bytes \<times> nat \<Rightarrow> bytes \<times> nat" where
  "clean_apostrophes total2 i st =
     (if i < total2 then
        (case st of (text, tot) \<Rightarrow>
           let x = text ! i in
           if x = 39 \<and> i + 1 < total2 \<and> text ! (i - 1) = 32 \<and> text ! (i + 1) = 32 then
             clean_apostrophes total2 (i + 2) (text[i + 1 := 0, tot - 1 := x], tot)
           else clean_apostrophes total2 (i + 1) (text[tot := x], tot + 1))
      else st)"
  by pat_completeness auto
termination by (relation "measure (\<lambda>(total2, i, _). total2 - i)") auto

text \<open>Only \<^verbatim>\<open> 's\<close>, \<^verbatim>\<open> 'm\<close>, \<^verbatim>\<open> 're\<close> and \<^verbatim>\<open> 've\<close> lose the blank before them.\<close>

definition joins_word :: "nat \<Rightarrow> nat \<Rightarrow> bytes \<Rightarrow> bool" where
  "joins_word total3 i text \<longleftrightarrow>
     text ! (i - 1) = 32 \<and> text ! i = 39 \<and> i + 1 < total3 \<and>
     (text ! (i + 1) \<in> {115, 109} \<or>
      text ! (i + 1) \<notin> {116, 100} \<and> i + 2 < total3 \<and> text ! (i + 1) \<in> {114, 118} \<and> text ! (i + 2) = 101)"

function clean_contractions :: "nat \<Rightarrow> nat \<Rightarrow> bytes \<times> nat \<Rightarrow> bytes \<times> nat" where
  "clean_contractions total3 i st =
     (if i < total3 then
        (case st of (text, tot) \<Rightarrow>
           let tot' = (if joins_word total3 i text then tot - 1 else tot)
           in clean_contractions total3 (i + 1) (text[tot' := text ! i], tot' + 1))
      else st)"
  by pat_completeness auto
termination by (relation "measure (\<lambda>(total3, i, _). total3 - i)") auto

declare clean_punctuation.simps [simp del] clean_apostrophes.simps [simp del] clean_contractions.simps [simp del]

definition clean_up :: "bytes \<Rightarrow> nat \<Rightarrow> bytes \<times> nat" where
  "clean_up text tot =
     (let start = (\<lambda>n. if n > 0 then 1 else 0);
          (text, tot) = clean_punctuation tot 1 (text, start tot);
          (text, tot) = clean_apostrophes tot 1 (text, start tot)
      in clean_contractions tot 1 (text, start tot))"

section \<open>Detokenizing\<close>

text \<open>The loop over the tokens: what is available, the sum of the lengths, the bytes written and \<open>remove_space\<close>.\<close>

definition detokenize_token :: "'f llama_vocab \<Rightarrow> bool \<Rightarrow> llama_token \<Rightarrow> int \<times> int \<times> bytes \<times> bool \<Rightarrow> (int \<times> int \<times> bytes \<times> bool) res" where
  "detokenize_token v unparse_special token = (\<lambda>(avail, tot, text, remove_space).
     bind_res (ggml_assert (avail \<ge> 0)) (\<lambda>_.
     bind_res (token_to_piece v token avail (if remove_space then 1 else 0) unparse_special) (\<lambda>(n_chars, piece).
       Inr (if n_chars < 0 then (0, tot - n_chars, text, False)
            else (avail - n_chars, tot + n_chars, text @ piece, False)))))"

text \<open>The tokens at both ends that \<open>remove_special\<close> takes away.\<close>

definition strip_special :: "'f llama_vocab \<Rightarrow> bool \<Rightarrow> llama_token list \<Rightarrow> bool \<times> llama_token list" where
  "strip_special v remove_special tokens =
     (let (remove_space, tokens) =
            (if remove_special \<and> add_bos v \<and> tokens \<noteq> [] \<and> hd tokens = special_bos_id v then (False, tl tokens)
             else (add_space_prefix v, tokens))
      in (remove_space,
          if remove_special \<and> add_eos v \<and> tokens \<noteq> [] \<and> last tokens = special_eos_id v then butlast tokens else tokens))"

definition detokenize :: "'f llama_vocab \<Rightarrow> 'f llm_tokenizer option \<Rightarrow> llama_token list \<Rightarrow> int \<Rightarrow> bool \<Rightarrow> bool \<Rightarrow> (int \<times> bytes) res" where
  "detokenize v tokenizer tokens text_len_max remove_special unparse_special =
     (if v_type v = LLAMA_VOCAB_TYPE_NONE then Inr (0, [])
      else
       bind_res (ggml_assert (tokenizer \<noteq> None)) (\<lambda>_.
       case strip_special v remove_special tokens of (remove_space, tokens) \<Rightarrow>
       bind_res (fold_res (detokenize_token v unparse_special) tokens (text_len_max, 0, [], remove_space)) (\<lambda>(_, tot, text, _).
         if tot > text_len_max then Inr (- tot, text)
         else if clean_spaces v then
           (case clean_up text (nat tot) of (text, tot) \<Rightarrow>
              Inr (if int tot \<le> text_len_max then int tot else - int tot, take tot text))
         else Inr (tot, text))))"

text \<open>The function that returns a string, which asks again when its first buffer was too small.\<close>

definition llama_detokenize :: "'f llama_vocab \<Rightarrow> 'f llm_tokenizer option \<Rightarrow> nat \<Rightarrow> llama_token list \<Rightarrow> bool \<Rightarrow> bytes res" where
  "llama_detokenize v tokenizer capacity tokens special =
     bind_res (detokenize v tokenizer tokens (int (max capacity (length tokens))) False special) (\<lambda>(n_chars, text).
       if n_chars < 0 then
         bind_res (detokenize v tokenizer tokens (- n_chars) False special) (\<lambda>(n_chars', text).
         bind_res (ggml_assert (n_chars' \<le> - n_chars)) (\<lambda>_.
           if n_chars' < 0 then Inl (Throw ''length_error'') else Inr (take (nat n_chars') text)))
       else Inr (take (nat n_chars) text))"

end
