(* ===== verification/Tok_Detok.thy ===== *)
theory Tok_Detok
  imports Tokenize
begin

text \<open>
  What \<open>token_to_piece\<close> and \<open>detokenize\<close> promise: a piece does not depend on the buffer it is written to, the cache of pieces changes
  nothing, and the text of a list of tokens does not depend on the buffer either.
\<close>

section \<open>Pieces\<close>

text \<open>A function of a buffer's size that writes one and the same piece into every buffer.\<close>

definition writes :: "(int \<Rightarrow> (int \<times> bytes) res) \<Rightarrow> bytes res \<Rightarrow> bool" where
  "writes f r \<longleftrightarrow> (\<forall>len \<ge> 0. f len = bind_res r (\<lambda>p. Inr (copy_out len p)))"

lemma copy_out_Nil: "0 \<le> len \<Longrightarrow> copy_out len [] = (0, [])"
  by (simp add: copy_out_def)

lemma writes_copy: "writes (\<lambda>len. Inr (copy_out len p)) (Inr p)"
  by (simp add: writes_def)

lemma writes_try: "writes (\<lambda>len. try_copy len ls p) (Inr (skip_blanks (nat ls) p))"
  by (simp add: writes_def try_copy_def)

lemma writes_unchecked: "writes (\<lambda>len. copy_unchecked len p) (Inr p)"
  by (simp add: writes_def copy_unchecked_def)

lemma writes_none: "writes (\<lambda>len. Inr (0, [])) (Inr [])"
  by (simp add: writes_def copy_out_Nil)

lemma writes_fail: "writes (\<lambda>len. Inl e) (Inl e)"
  by (simp add: writes_def)

lemma writes_bind: "(\<And>x. writes (\<lambda>len. f len x) (r x)) \<Longrightarrow> writes (\<lambda>len. bind_res m (f len)) (bind_res m r)"
  by (cases m) (auto simp: writes_def)

lemma writes_if: "writes f r \<Longrightarrow> writes g s \<Longrightarrow> writes (\<lambda>len. if b then f len else g len) (if b then r else s)"
  by simp

text \<open>The piece without a buffer.\<close>

definition piece_of :: "'f llama_vocab \<Rightarrow> llama_token \<Rightarrow> int \<Rightarrow> bool \<Rightarrow> bytes res" where
  "piece_of v token lstrip special =
     bind_res (token_get_attr v token) (\<lambda>attr.
       if \<not> special \<and> has_attr attr [ATTR_UNKNOWN, ATTR_CONTROL] then Inr []
       else if cache_token_to_piece v \<noteq> [] then
         bind_res (vec_at (cache_token_to_piece v) token) (\<lambda>p. Inr (skip_blanks (nat lstrip) p))
       else if 0 \<le> token \<and> token < int (length (id_to_token v)) then
         bind_res (vec_get (id_to_token v) token) (\<lambda>d.
         let token_text = td_text d in
         if v_type v \<in> {LLAMA_VOCAB_TYPE_WPM, LLAMA_VOCAB_TYPE_SPM, LLAMA_VOCAB_TYPE_UGM} then
           (if has_attr attr [ATTR_UNKNOWN, ATTR_CONTROL, ATTR_USER_DEFINED] then Inr (skip_blanks (nat lstrip) token_text)
            else if has_attr attr [ATTR_NORMAL] then Inr (skip_blanks (nat lstrip) (llama_unescape_whitespace token_text))
            else if has_attr attr [ATTR_BYTE] then bind_res (token_to_byte v token) (\<lambda>byte. Inr (skip_blanks (nat lstrip) [byte]))
            else Inr [])
         else if v_type v = LLAMA_VOCAB_TYPE_BPE then
           (if has_attr attr [ATTR_UNKNOWN, ATTR_CONTROL, ATTR_USER_DEFINED] then Inr (skip_blanks (nat lstrip) token_text)
            else if has_attr attr [ATTR_NORMAL] then
              bind_res (llama_decode_text token_text) (\<lambda>p. Inr (skip_blanks (nat lstrip) p))
            else Inr [])
         else if v_type v = LLAMA_VOCAB_TYPE_RWKV then Inr (llama_unescape_rwkv_token token_text)
         else Inl GgmlAbort)
       else Inr [])"

lemma token_to_piece_writes: "writes (\<lambda>len. token_to_piece v token len lstrip special) (piece_of v token lstrip special)"
  unfolding token_to_piece_def piece_of_def Let_def
  by (intro writes_bind writes_if writes_copy writes_try writes_unchecked writes_none writes_fail)

lemma token_to_piece_eq:
  "0 \<le> len \<Longrightarrow> token_to_piece v token len ls sp = bind_res (piece_of v token ls sp) (\<lambda>p. Inr (copy_out len p))"
  using token_to_piece_writes[of v token ls sp] unfolding writes_def by blast

lemma copy_out_fits: "copy_out (int (length p)) p = (int (length p), p)"
  by (simp add: copy_out_def)

lemma for_cache_eq: "token_to_piece_for_cache v cap token sp = piece_of v token 0 sp"
  by (cases "piece_of v token 0 sp")
    (auto simp: token_to_piece_for_cache_def token_to_piece_eq copy_out_def)

section \<open>The cache of pieces\<close>

lemma skip_blanks_0 [simp]: "skip_blanks 0 p = p"
  by (cases p) simp_all

lemma skip_blanks_Nil [simp]: "skip_blanks n [] = []"
  by (cases n) simp_all

lemma map_res_nth: "map_res f xs = Inr ys \<Longrightarrow> length ys = length xs \<and> (\<forall>i < length xs. f (xs ! i) = Inr (ys ! i))"
proof (induction xs arbitrary: ys)
  case (Cons x xs)
  then show ?case by (auto simp: nth_Cons split: nat.split)
qed simp

text \<open>
  The cache built at load time: after \<open>build_token_to_piece_cache\<close>, every piece is the one without blanks stripped from before, with
  the blanks stripped now. Without a cache only the RWKV branch ignores \<open>lstrip\<close>.
\<close>

lemma piece_strip_bind:
  assumes "cache_token_to_piece v = []"
  shows "piece_of v token lstrip special =
    (if v_type v = LLAMA_VOCAB_TYPE_RWKV then piece_of v token 0 special
     else bind_res (piece_of v token 0 special) (\<lambda>p. Inr (skip_blanks (nat lstrip) p)))"
proof (cases "token_get_attr v token")
  case (Inl e)
  then show ?thesis by (simp add: piece_of_def)
next
  case (Inr attr)
  show ?thesis
  proof (cases "vec_get (id_to_token v) token")
    case (Inl e)
    then show ?thesis using Inr assms by (simp add: piece_of_def)
  next
    case d: (Inr d)
    show ?thesis using Inr d assms
      by (cases "token_to_byte v token"; cases "llama_decode_text (td_text d)") (simp_all add: piece_of_def Let_def)
  qed
qed

lemma cached_pieces:
  assumes "cache_token_to_piece v = []" "build_token_to_piece_cache cap v = Inr v'"
  shows "piece_of v' token lstrip special = bind_res (piece_of v token 0 special) (\<lambda>p. Inr (skip_blanks (nat lstrip) p))"
proof -
  obtain c where c: "map_res (\<lambda>i. piece_of v (int i) 0 True) [0..<n_tokens v] = Inr c" "v' = v\<lparr>cache_token_to_piece := c\<rparr>"
    using assms(2) by (auto simp: build_token_to_piece_cache_def for_cache_eq)
  have nth: "length c = n_tokens v" "\<And>i. i < n_tokens v \<Longrightarrow> piece_of v (int i) 0 True = Inr (c ! i)"
    using map_res_nth[OF c(1)] by auto
  show ?thesis
  proof (cases "token_get_attr v token")
    case (Inl e)
    moreover have "token_get_attr v' token = Inl e" using Inl c(2) by (simp add: token_get_attr_def)
    ultimately show ?thesis by (simp add: piece_of_def)
  next
    case (Inr attr)
    then have tok: "0 \<le> token" "nat token < n_tokens v" "v_type v \<noteq> LLAMA_VOCAB_TYPE_NONE"
      by (auto simp: token_get_attr_def vec_at_def n_tokens_def split: if_splits)
    then obtain i where i: "token = int i" "i < n_tokens v" by (metis nat_eq_iff2 int_nat_eq)
    have attr': "token_get_attr v' token = Inr attr" using Inr c(2) by (simp add: token_get_attr_def)
    have "c \<noteq> []" using i nth(1) by auto
    then have "piece_of v' token lstrip special =
      (if \<not> special \<and> has_attr attr [ATTR_UNKNOWN, ATTR_CONTROL] then Inr [] else Inr (skip_blanks (nat lstrip) (c ! i)))"
      using attr' c(2) i nth(1) by (simp add: piece_of_def)
    moreover have "piece_of v token 0 special =
      (if \<not> special \<and> has_attr attr [ATTR_UNKNOWN, ATTR_CONTROL] then Inr [] else piece_of v token 0 True)"
      using Inr by (simp add: piece_of_def)
    ultimately show ?thesis using nth(2)[OF i(2)] i(1) by simp
  qed
qed

section \<open>Cleaning up\<close>

text \<open>Each pass keeps the buffer's size and ends with no more bytes than it started with.\<close>

lemma clean_punctuation_bounds:
  "clean_punctuation n i (s, k) = (s', k') \<Longrightarrow> k \<le> i \<Longrightarrow> length s' = length s \<and> k' \<le> max i n"
proof (induction n i "(s, k)" arbitrary: s k rule: clean_punctuation.induct)
  case (1 n i)
  show ?case
  proof (cases "i < n")
    case True
    let ?k = "if s ! (i - 1) = 32 \<and> s ! i \<in> {63, 33, 46, 44} then k - 1 else k"
    have "clean_punctuation n (i + 1) (s[?k := s ! i], ?k + 1) = (s', k')"
      using "1.prems"(1) True by (subst (asm) clean_punctuation.simps) (simp add: Let_def)
    moreover have "?k + 1 \<le> i + 1" using "1.prems"(2) by auto
    ultimately show ?thesis using "1.hyps"[OF True refl refl refl] True by fastforce
  next
    case False
    then show ?thesis using "1.prems" by (subst (asm) clean_punctuation.simps) simp
  qed
qed

lemma clean_apostrophes_bounds:
  "clean_apostrophes n i (s, k) = (s', k') \<Longrightarrow> k \<le> i \<Longrightarrow> length s' = length s \<and> k' \<le> max i n"
proof (induction n i "(s, k)" arbitrary: s k rule: clean_apostrophes.induct)
  case (1 n i)
  show ?case
  proof (cases "i < n")
    case True
    show ?thesis
    proof (cases "s ! i = 39 \<and> i + 1 < n \<and> s ! (i - 1) = 32 \<and> s ! (i + 1) = 32")
      case quote: True
      have "clean_apostrophes n (i + 2) (s[i + 1 := 0, k - 1 := s ! i], k) = (s', k')"
        using "1.prems"(1) True quote by (subst (asm) clean_apostrophes.simps) (simp add: Let_def)
      then show ?thesis using "1.hyps"(1)[OF True refl refl quote] "1.prems"(2) quote by fastforce
    next
      case False
      have "clean_apostrophes n (i + 1) (s[k := s ! i], k + 1) = (s', k')"
        using "1.prems"(1) True False by (subst (asm) clean_apostrophes.simps) (auto simp: Let_def)
      then show ?thesis using "1.hyps"(2)[OF True refl refl False] "1.prems"(2) True by fastforce
    qed
  next
    case False
    then show ?thesis using "1.prems" by (subst (asm) clean_apostrophes.simps) simp
  qed
qed

lemma clean_contractions_bounds:
  "clean_contractions n i (s, k) = (s', k') \<Longrightarrow> k \<le> i \<Longrightarrow> length s' = length s \<and> k' \<le> max i n"
proof (induction n i "(s, k)" arbitrary: s k rule: clean_contractions.induct)
  case (1 n i)
  show ?case
  proof (cases "i < n")
    case True
    let ?k = "if joins_word n i s then k - 1 else k"
    have "clean_contractions n (i + 1) (s[?k := s ! i], ?k + 1) = (s', k')"
      using "1.prems"(1) True by (subst (asm) clean_contractions.simps) (simp add: Let_def)
    moreover have "?k + 1 \<le> i + 1" using "1.prems"(2) by auto
    ultimately show ?thesis using "1.hyps"[OF True refl refl] True by fastforce
  next
    case False
    then show ?thesis using "1.prems" by (subst (asm) clean_contractions.simps) simp
  qed
qed

text \<open>An empty text stays empty: no pass does anything.\<close>

lemma pass_bounds:
  fixes pass :: "nat \<Rightarrow> nat \<Rightarrow> bytes \<times> nat \<Rightarrow> bytes \<times> nat"
  assumes "\<And>s k s' k'. pass n 1 (s, k) = (s', k') \<Longrightarrow> k \<le> 1 \<Longrightarrow> length s' = length s \<and> k' \<le> max 1 n" "\<And>s. pass 0 1 (s, 0) = (s, 0)"
    and "pass n 1 (s, if n > 0 then 1 else 0) = (s', k')"
  shows "length s' = length s \<and> k' \<le> n"
  using assms(1)[OF assms(3)] assms(2)[of s] assms(3) by (cases "n = 0") (auto simp: max_def split: if_splits)

lemma clean_up_bounds: "clean_up s n = (s', k) \<Longrightarrow> length s' = length s \<and> k \<le> n"
proof -
  assume up: "clean_up s n = (s', k)"
  let ?st = "\<lambda>n :: nat. if n > 0 then 1 else 0"
  obtain s1 k1 where p1: "clean_punctuation n 1 (s, ?st n) = (s1, k1)" by fastforce
  obtain s2 k2 where p2: "clean_apostrophes k1 1 (s1, ?st k1) = (s2, k2)" by fastforce
  have p3: "clean_contractions k2 1 (s2, ?st k2) = (s', k)" using up p1 p2 by (simp add: clean_up_def Let_def)
  have "length s1 = length s \<and> k1 \<le> n"
    by (rule pass_bounds[where pass = clean_punctuation, OF _ _ p1], erule (1) clean_punctuation_bounds) (simp add: clean_punctuation.simps)
  moreover have "length s2 = length s1 \<and> k2 \<le> k1"
    by (rule pass_bounds[where pass = clean_apostrophes, OF _ _ p2], erule (1) clean_apostrophes_bounds) (simp add: clean_apostrophes.simps)
  moreover have "length s' = length s2 \<and> k \<le> k2"
    by (rule pass_bounds[where pass = clean_contractions, OF _ _ p3], erule (1) clean_contractions_bounds) (simp add: clean_contractions.simps)
  ultimately show ?thesis by auto
qed

text \<open>A text in which no blank stands before one of \<^verbatim>\<open>?\<close>, \<^verbatim>\<open>!\<close>, \<^verbatim>\<open>.\<close>, \<^verbatim>\<open>,\<close> and the apostrophe is clean already.\<close>

definition is_clean :: "bytes \<Rightarrow> bool" where
  "is_clean s \<longleftrightarrow> (\<forall>i. 0 < i \<and> i < length s \<and> s ! (i - 1) = 32 \<longrightarrow> s ! i \<notin> {63, 33, 46, 44, 39})"

lemma clean_punctuation_same:
  assumes "is_clean s" "n \<le> length s"
  shows "0 < i \<Longrightarrow> i \<le> n \<Longrightarrow> clean_punctuation n i (s, i) = (s, n)"
proof (induction "n - i" arbitrary: i)
  case 0
  then show ?case by (subst clean_punctuation.simps) simp
next
  case (Suc d)
  then have "\<not> (s ! (i - 1) = 32 \<and> s ! i \<in> {63, 33, 46, 44})" using assms unfolding is_clean_def by auto
  then show ?case using Suc by (subst clean_punctuation.simps) (auto simp: Let_def)
qed

lemma clean_apostrophes_same:
  assumes "is_clean s" "n \<le> length s"
  shows "0 < i \<Longrightarrow> i \<le> n \<Longrightarrow> clean_apostrophes n i (s, i) = (s, n)"
proof (induction "n - i" arbitrary: i)
  case 0
  then show ?case by (subst clean_apostrophes.simps) simp
next
  case (Suc d)
  then have "\<not> (s ! i = 39 \<and> i + 1 < n \<and> s ! (i - 1) = 32 \<and> s ! (i + 1) = 32)" using assms unfolding is_clean_def by auto
  then show ?case using Suc by (subst clean_apostrophes.simps) (auto simp: Let_def)
qed

lemma clean_contractions_same:
  assumes "is_clean s" "n \<le> length s"
  shows "0 < i \<Longrightarrow> i \<le> n \<Longrightarrow> clean_contractions n i (s, i) = (s, n)"
proof (induction "n - i" arbitrary: i)
  case 0
  then show ?case by (subst clean_contractions.simps) simp
next
  case (Suc d)
  then have "\<not> joins_word n i s" using assms unfolding is_clean_def joins_word_def by auto
  then show ?case using Suc by (subst clean_contractions.simps) (simp add: Let_def)
qed

lemma clean_up_same: "is_clean s \<Longrightarrow> clean_up s (length s) = (s, length s)"
  using clean_punctuation_same[of s "length s" 1] clean_apostrophes_same[of s "length s" 1] clean_contractions_same[of s "length s" 1]
  by (cases "length s = 0")
    (simp_all add: clean_up_def clean_punctuation.simps[of 0] clean_apostrophes.simps[of 0] clean_contractions.simps[of 0] Suc_le_eq)

section \<open>Detokenizing\<close>

text \<open>The pieces of a list of tokens: the first one may lose a blank.\<close>

definition pieces_of :: "'f llama_vocab \<Rightarrow> bool \<Rightarrow> bool \<Rightarrow> llama_token list \<Rightarrow> bytes list res" where
  "pieces_of v special remove_space tokens =
     map_res (\<lambda>(t, ls). piece_of v t ls special) (zip tokens ((if remove_space then 1 else 0) # replicate (length tokens) 0))"

lemma pieces_of_Cons:
  "pieces_of v sp rs (t # ts) = Inr ps \<longleftrightarrow>
     (\<exists>p ps'. piece_of v t (if rs then 1 else 0) sp = Inr p \<and> pieces_of v sp False ts = Inr ps' \<and> ps = p # ps')"
proof -
  have "zip ts (replicate (length (t # ts)) 0) = zip ts (0 # replicate (length ts) (0 :: int))" by simp
  then show ?thesis by (auto simp: pieces_of_def)
qed

lemma pieces_of_Nil [simp]: "pieces_of v sp rs [] = Inr []"
  by (simp add: pieces_of_def)

lemma detokenize_tokens:
  "pieces_of v sp rs tokens = Inr ps \<Longrightarrow> 0 \<le> avail \<Longrightarrow>
     \<exists>avail' text' rs'. fold_res (detokenize_token v sp) tokens (avail, tot, text, rs) =
       Inr (avail', tot + int (length (concat ps)), text', rs') \<and> (int (length (concat ps)) \<le> avail \<longrightarrow> text' = text @ concat ps)"
proof (induction tokens arbitrary: ps avail tot "text" rs)
  case (Cons t ts)
  obtain p ps' where p: "piece_of v t (if rs then 1 else 0) sp = Inr p" "pieces_of v sp False ts = Inr ps'" "ps = p # ps'"
    using Cons.prems(1) pieces_of_Cons by blast
  have step: "detokenize_token v sp t (avail, tot, text, rs) =
    Inr (if avail < int (length p) then (0, tot + int (length p), text, False)
         else (avail - int (length p), tot + int (length p), text @ p, False))"
    using p(1) Cons.prems(2) by (simp add: detokenize_token_def token_to_piece_eq copy_out_def)
  show ?case
  proof (cases "avail < int (length p)")
    case True
    then show ?thesis using step p(3) Cons.IH[OF p(2), of 0 "tot + int (length p)" "text"] by (auto simp: add.assoc)
  next
    case False
    then show ?thesis
      using step p(3) Cons.IH[OF p(2), of "avail - int (length p)" "tot + int (length p)" "text @ p"]
      by (auto simp: add.assoc)
  qed
qed simp

text \<open>The text of a list of tokens.\<close>

definition plain_text :: "'f llama_vocab \<Rightarrow> bytes list \<Rightarrow> bytes" where
  "plain_text v ps =
     (let s = concat ps in if clean_spaces v then (case clean_up s (length s) of (s', k) \<Rightarrow> take k s') else s)"

text \<open>The same for a text.\<close>

definition clean_text :: "'f llama_vocab \<Rightarrow> bytes \<Rightarrow> bytes" where
  "clean_text v s = (if clean_spaces v then (case clean_up s (length s) of (s', k) \<Rightarrow> take k s') else s)"

lemma plain_text_eq: "plain_text v ps = clean_text v (concat ps)"
  by (simp add: plain_text_def clean_text_def Let_def)

lemma clean_text_same: "\<not> clean_spaces v \<or> is_clean s \<Longrightarrow> clean_text v s = s"
  by (auto simp: clean_text_def clean_up_same)

lemma plain_text_length: "length (plain_text v ps) \<le> length (concat ps)"
  using clean_up_bounds[of "concat ps" "length (concat ps)"] by (auto simp: plain_text_def Let_def split: prod.split)

lemma detokenize_writes:
  assumes "v_type v \<noteq> LLAMA_VOCAB_TYPE_NONE" "tk \<noteq> None" "strip_special v rem tokens = (rs, tokens')" "pieces_of v sp rs tokens' = Inr ps" "0 \<le> len"
  shows "len < int (length (concat ps)) \<Longrightarrow> \<exists>junk. detokenize v tk tokens len rem sp = Inr (- int (length (concat ps)), junk)"
    and "int (length (concat ps)) \<le> len \<Longrightarrow> detokenize v tk tokens len rem sp = Inr (int (length (plain_text v ps)), plain_text v ps)"
proof -
  obtain a s r where loop: "fold_res (detokenize_token v sp) tokens' (len, 0, [], rs) = Inr (a, int (length (concat ps)), s, r)"
    "int (length (concat ps)) \<le> len \<longrightarrow> s = concat ps"
    using detokenize_tokens[OF assms(4,5), of 0 "[]"] by auto
  show "\<exists>junk. detokenize v tk tokens len rem sp = Inr (- int (length (concat ps)), junk)" if "len < int (length (concat ps))"
    using that assms(1-3) loop(1) by (simp add: detokenize_def)
  assume fits: "int (length (concat ps)) \<le> len"
  obtain s' k where up: "clean_up (concat ps) (length (concat ps)) = (s', k)" by fastforce
  have "length s' = length (concat ps)" "k \<le> length (concat ps)" using clean_up_bounds[OF up] by auto
  then show "detokenize v tk tokens len rem sp = Inr (int (length (plain_text v ps)), plain_text v ps)"
    using fits assms(1-3) loop up by (simp add: detokenize_def plain_text_def Let_def)
qed

section \<open>Properties\<close>

text \<open>
  C40. The cache of pieces that loading builds is transparent but for RWKV: with it \<open>token_to_piece\<close> returns, for every token, every buffer and
  every request to strip blanks, what it returned without it, failures included. An RWKV vocabulary without its cache ignores the request,
  so there the two agree when nothing is to be stripped; otherwise the cache strips what the branch without it does not: its
  piece is the one without a request, less up to \<open>lstrip\<close> blanks.
\<close>

theorem piece_cache_transparent:
  assumes "cache_token_to_piece v = []" "build_token_to_piece_cache capacity v = Inr v'" "0 \<le> len"
  shows "(v_type v \<noteq> LLAMA_VOCAB_TYPE_RWKV \<or> lstrip \<le> 0 \<longrightarrow>
      token_to_piece v' token len lstrip special = token_to_piece v token len lstrip special) \<and>
    (v_type v = LLAMA_VOCAB_TYPE_RWKV \<longrightarrow>
      token_to_piece v token len lstrip special = token_to_piece v token len 0 special \<and>
      token_to_piece v' token len lstrip special =
        bind_res (piece_of v token 0 special) (\<lambda>p. Inr (copy_out len (skip_blanks (nat lstrip) p))))"
proof -
  have "bind_res (bind_res m (\<lambda>p. Inr (skip_blanks k p))) (\<lambda>p. Inr (copy_out len p)) =
    bind_res m (\<lambda>p. Inr (copy_out len (skip_blanks k p)))" for m :: "bytes res" and k by (cases m) simp_all
  note eq = token_to_piece_eq[OF assms(3)] cached_pieces[OF assms(1,2)] this
  show ?thesis
  proof (cases "v_type v = LLAMA_VOCAB_TYPE_RWKV")
    case True
    then show ?thesis using piece_strip_bind[OF assms(1), of token lstrip special]
      by (cases "piece_of v token 0 special") (simp_all add: eq)
  next
    case False
    then show ?thesis using piece_strip_bind[OF assms(1), of token lstrip special] by (simp add: eq)
  qed
qed

text \<open>An SPM piece, and an RWKV piece that begins with a blank.\<close>

definition ex_rwkv_blank :: "int llama_vocab" where
  "ex_rwkv_blank = (ex_vocab LLAMA_VOCAB_TYPE_RWKV)\<lparr>id_to_token := [ex_token [32, 97] 0]\<rparr>"

theorem piece_cache_transparent_witness:
  "(\<exists>v'. build_token_to_piece_cache 15 (ex_vocab LLAMA_VOCAB_TYPE_SPM) = Inr v' \<and> token_to_piece v' 2 8 1 False = Inr (2, [97, 98]))
   \<and> (\<exists>v'. build_token_to_piece_cache 15 ex_rwkv_blank = Inr v' \<and> token_to_piece v' 0 8 1 False = Inr (1, [97])
        \<and> token_to_piece ex_rwkv_blank 0 8 1 False = Inr (2, [32, 97]))"
proof
  let ?v = "ex_vocab LLAMA_VOCAB_TYPE_SPM"
  have "\<not> isl (build_token_to_piece_cache 15 ?v)" by code_simp
  then obtain v' where v': "build_token_to_piece_cache 15 ?v = Inr v'" by (cases "build_token_to_piece_cache 15 ?v") auto
  have "token_to_piece v' 2 8 1 False = token_to_piece ?v 2 8 1 False"
    using piece_cache_transparent[OF _ v', of 8 1 2 False] by (simp add: ex_vocab_def)
  moreover have "token_to_piece ?v 2 8 1 False = Inr (2, [97, 98])" by code_simp
  ultimately show "\<exists>v'. build_token_to_piece_cache 15 ?v = Inr v' \<and> token_to_piece v' 2 8 1 False = Inr (2, [97, 98])" using v' by auto
next
  let ?v = ex_rwkv_blank
  have "\<not> isl (build_token_to_piece_cache 15 ?v)" by code_simp
  then obtain v' where v': "build_token_to_piece_cache 15 ?v = Inr v'" by (cases "build_token_to_piece_cache 15 ?v") auto
  have v: "cache_token_to_piece ?v = []" "v_type ?v = LLAMA_VOCAB_TYPE_RWKV" by (simp_all add: ex_rwkv_blank_def ex_vocab_def)
  have "piece_of ?v 0 0 False = Inr [32, 97]" "token_to_piece ?v 0 8 0 False = Inr (2, [32, 97])" by code_simp+
  then have "token_to_piece v' 0 8 1 False = Inr (1, [97])" "token_to_piece ?v 0 8 1 False = Inr (2, [32, 97])"
    using piece_cache_transparent[OF v(1) v', of 8 1 0 False] v(2) by (simp_all add: copy_out_def)
  then show "\<exists>v'. build_token_to_piece_cache 15 ?v = Inr v' \<and> token_to_piece v' 0 8 1 False = Inr (1, [97])
        \<and> token_to_piece ?v 0 8 1 False = Inr (2, [32, 97])" using v' by blast
qed

text \<open>
  C20. The text of a list of tokens does not depend on the buffer. With pieces for all tokens, \<open>detokenize\<close> returns minus the size it
  needs when the buffer is smaller than the pieces together, and otherwise writes their concatenation (cleaned up, if the vocabulary says so, which never
  makes it longer) and returns its length; the function that returns a string thus succeeds with its second
  call whenever the first buffer was too small, without tripping its assertion, whatever space a string has to begin with.
\<close>

theorem detokenize_any_buffer:
  assumes "v_type v \<noteq> LLAMA_VOCAB_TYPE_NONE" "pieces_of v special (add_space_prefix v) tokens = Inr ps"
  shows "(\<forall>len. 0 \<le> len \<and> len < int (length (concat ps)) \<longrightarrow>
      (\<exists>junk. detokenize v (Some tk) tokens len False special = Inr (- int (length (concat ps)), junk))) \<and>
    (\<forall>len. int (length (concat ps)) \<le> len \<longrightarrow>
      detokenize v (Some tk) tokens len False special = Inr (int (length (plain_text v ps)), plain_text v ps)) \<and>
    length (plain_text v ps) \<le> length (concat ps) \<and>
    llama_detokenize v (Some tk) capacity tokens special = Inr (plain_text v ps)"
proof -
  have strip: "strip_special v False tokens = (add_space_prefix v, tokens)" by (simp add: strip_special_def)
  note w = detokenize_writes[OF assms(1) option.distinct(2) strip assms(2)]
  have "llama_detokenize v (Some tk) capacity tokens special = Inr (plain_text v ps)"
  proof (cases "int (max capacity (length tokens)) < int (length (concat ps))")
    case True
    then obtain junk where "detokenize v (Some tk) tokens (int (max capacity (length tokens))) False special = Inr (- int (length (concat ps)), junk)"
      using w(1)[of "int (max capacity (length tokens))"] by auto
    then show ?thesis using w(2)[of "int (length (concat ps))"] plain_text_length[of v ps] True
      by (auto simp: llama_detokenize_def simp del: concat_eq_Nil_conv)
  next
    case False
    then have "detokenize v (Some tk) tokens (int (max capacity (length tokens))) False special = Inr (int (length (plain_text v ps)), plain_text v ps)"
      by (intro w(2)) linarith+
    then show ?thesis by (simp add: llama_detokenize_def)
  qed
  then show ?thesis using w plain_text_length by auto
qed

theorem detokenize_any_buffer_witness:
  "detokenize (ex_vocab LLAMA_VOCAB_TYPE_SPM) (Some TokSpm) [2, 0, 4] 4 False False = Inr (4, [97, 98, 97, 99]) \<and>
   llama_detokenize (ex_vocab LLAMA_VOCAB_TYPE_SPM) (Some TokSpm) 1 [2, 0, 4] False = Inr [97, 98, 97, 99]"
proof -
  let ?v = "ex_vocab LLAMA_VOCAB_TYPE_SPM"
  have ps: "pieces_of ?v False (add_space_prefix ?v) [2, 0, 4] = Inr [[97, 98], [97], [99]]" by code_simp
  have "plain_text ?v [[97, 98], [97], [99]] = [97, 98, 97, 99]" by (simp add: plain_text_def ex_vocab_def)
  moreover have "v_type ?v \<noteq> LLAMA_VOCAB_TYPE_NONE" by (simp add: ex_vocab_def)
  ultimately show ?thesis using detokenize_any_buffer[OF _ ps, of TokSpm 1] by simp
qed

end
