(* ===== verification/Tok_Round.thy ===== *)
theory Tok_Round
  imports Tok_Detok
begin

text \<open>
  Round trips: the text of the tokens of a text is the text. The proofs follow the text as code points: escaping blanks, cutting into
  characters, merging, and turning every segment back into a piece all act on whole characters.
\<close>

section \<open>Characters of a valid text\<close>

lemma lookup_agree: "i < 16 \<Longrightarrow> stream_lookup ! i \<ge> 1 \<Longrightarrow> int (utf8_lookup ! i) = stream_lookup ! i"
  by (auto simp: less_Suc_eq numeral_eq_Suc stream_lookup_def utf8_lookup_def)

lemma high_nibble: "unat (drop_bit 4 (b :: u8)) < 16"
proof -
  have "unat b div 16 < 16" using byte_less[of b] by simp
  then show ?thesis by (simp only: unat_drop_bit_eq) (simp add: drop_bit_eq_div)
qed

text \<open>A character is a lead byte that tells its length and continuation bytes.\<close>

lemma enc_char:
  assumes "unicode_cpt_to_utf8 c = Inr bs"
  obtains b ks where "bs = b # ks" "unicode_len_utf8 b = Suc (length ks)" "\<And>k. k \<in> set ks \<Longrightarrow> drop_bit 6 k = (2 :: u8)"
proof (cases "c = 0")
  case True
  then have "bs = [0]" using assms by (simp add: unicode_cpt_to_utf8_def)
  then show ?thesis using that[of 0 "[]"] by (simp add: unicode_len_utf8_def utf8_lookup_def)
next
  case False
  obtain b ks where b: "bs = b # ks" "char_bytes c b ks" using char_bytes_enc[OF assms False] .
  have "int (unicode_len_utf8 b) = int (length ks) + 1"
    using lookup_agree[OF high_nibble, of b] b(2) by (simp add: char_bytes_def unicode_len_utf8_def)
  then show ?thesis using that[of b ks] b by (auto simp: char_bytes_def list_all_iff cont_byte_def)
qed

lemma enc_inj: "unicode_cpt_to_utf8 c = Inr bs \<Longrightarrow> unicode_cpt_to_utf8 d = Inr bs \<Longrightarrow> c = d"
  using cpt_from_to_utf8[of c bs "[]" "[]"] cpt_from_to_utf8[of d bs "[]" "[]"] by simp

text \<open>The encodings of a valid list of code points.\<close>

definition enc :: "u32 \<Rightarrow> bytes" where
  "enc c = (case unicode_cpt_to_utf8 c of Inr bs \<Rightarrow> bs | Inl _ \<Rightarrow> [])"

definition valid_cpt :: "u32 \<Rightarrow> bool" where
  "valid_cpt c \<longleftrightarrow> unicode_cpt_to_utf8 c = Inr (enc c)"

definition encs :: "u32 list \<Rightarrow> bytes" where
  "encs cs = concat (map enc cs)"

lemma encs_simps [simp]: "encs [] = []" "encs (c # cs) = enc c @ encs cs" "encs (cs @ ds) = encs cs @ encs ds"
  by (simp_all add: encs_def)

lemma cpt_to_utf8_enc: "unicode_cpt_to_utf8 c = Inr bs \<longleftrightarrow> valid_cpt c \<and> bs = enc c"
  by (auto simp: valid_cpt_def enc_def)

lemma cpts_to_utf8_encs: "unicode_cpts_to_utf8 cs = Inr bs \<longleftrightarrow> list_all valid_cpt cs \<and> bs = encs cs"
  by (induction cs arbitrary: bs) (auto simp: cpt_to_utf8_enc)

lemma enc_Cons:
  assumes "valid_cpt c"
  obtains b ks where "enc c = b # ks" "unicode_len_utf8 b = Suc (length ks)" "\<And>k. k \<in> set ks \<Longrightarrow> drop_bit 6 k = (2 :: u8)"
  using enc_char assms unfolding valid_cpt_def by blast

lemma utf8_chars_encs: "list_all valid_cpt cs \<Longrightarrow> utf8_chars (encs cs) = map enc cs"
proof (induction cs)
  case (Cons c cs)
  have "valid_cpt c" using Cons.prems by simp
  then obtain b ks where b: "enc c = b # ks" "unicode_len_utf8 b = Suc (length ks)" using enc_Cons by blast
  then show ?case using Cons by (subst utf8_chars.simps) simp
qed simp

section \<open>Replacing\<close>

text \<open>\<open>replace_all\<close> as a recursion over the text.\<close>

function repl :: "bytes \<Rightarrow> bytes \<Rightarrow> bytes \<Rightarrow> bytes" where
  "repl pat r [] = []"
| "repl pat r (c # cs) =
     (if pat \<noteq> [] \<and> take (length pat) (c # cs) = pat then r @ repl pat r (drop (length pat) (c # cs)) else c # repl pat r cs)"
  by pat_completeness auto
termination by (relation "measure (\<lambda>(_, _, s). length s)") (auto simp flip: length_greater_0_conv)

lemma repl_find:
  assumes "pat \<noteq> []"
  shows "(find_sub pat s = None \<longrightarrow> repl pat r s = s) \<and>
    (find_sub pat s = Some k \<longrightarrow> repl pat r s = take k s @ r @ repl pat r (drop (k + length pat) s))"
  using assms by (induction pat s arbitrary: k rule: find_sub.induct) (auto split: if_splits)

lemma replace_loop_repl:
  "srch \<noteq> [] \<Longrightarrow> last_pos \<le> length s \<Longrightarrow> replace_loop s srch r last_pos b = b @ repl srch r (drop last_pos s)"
proof (induction s srch r last_pos b rule: replace_loop.induct)
  case (1 s srch r last_pos b)
  note rf = repl_find[OF "1.prems"(1), of "drop last_pos s" r]
  show ?case
  proof (cases "find_from s srch last_pos")
    case None
    then show ?thesis using rf "1.prems" by (subst replace_loop.simps) (auto simp: find_from_def)
  next
    case (Some p)
    then obtain k where k: "find_sub srch (drop last_pos s) = Some k" "p = last_pos + k"
      using "1.prems"(2) by (auto simp: find_from_def)
    have "p + length srch \<le> length s" using find_from_bounds[OF Some] by simp
    note IH = "1.IH"[OF "1.prems"(1) Some "1.prems"(1) this]
    have "drop (k + length srch) (drop last_pos s) = drop (p + length srch) s" using k(2) by (simp add: ac_simps)
    then show ?thesis using rf[of k] k IH Some "1.prems"(1) by (subst replace_loop.simps) (simp add: ac_simps)
  qed
qed

lemma replace_all_repl: "pat \<noteq> [] \<Longrightarrow> replace_all s pat r = repl pat r s"
  by (simp add: replace_all_def replace_loop_repl)

section \<open>Blanks\<close>

definition esc_cpt :: "u32 \<Rightarrow> u32" where
  "esc_cpt c = (if c = 32 then 0x2581 else c)"

definition unesc_cpt :: "u32 \<Rightarrow> u32" where
  "unesc_cpt c = (if c = 0x2581 then 32 else c)"

lemma enc_blank [simp]: "enc 32 = [32]" "enc 0x2581 = phantom_space" "valid_cpt 32" "valid_cpt 0x2581"
  by (simp_all add: valid_cpt_def enc_def unicode_cpt_to_utf8_def phantom_space_def)

lemma valid_map [simp]:
  "list_all valid_cpt cs \<Longrightarrow> list_all valid_cpt (map esc_cpt cs)" "list_all valid_cpt cs \<Longrightarrow> list_all valid_cpt (map unesc_cpt cs)"
  by (auto simp: list_all_iff esc_cpt_def unesc_cpt_def)

lemma enc_eqD: "valid_cpt c \<Longrightarrow> valid_cpt d \<Longrightarrow> enc c = enc d \<Longrightarrow> c = d"
  using enc_inj unfolding valid_cpt_def by metis

lemma repl_blank: "repl [32] r s = concat (map (\<lambda>b. if b = 32 then r else [b]) s)"
  by (induction s) simp_all

lemma byte_tests: "drop_bit 6 (32 :: u8) \<noteq> 2" "drop_bit 6 (0xe2 :: u8) \<noteq> 2" "unicode_len_utf8 32 = 1" "unicode_len_utf8 0xe2 = 3"
  by (simp_all add: unicode_len_utf8_def utf8_lookup_def drop_bit_eq_div)

lemma escape_char: "valid_cpt c \<Longrightarrow> concat (map (\<lambda>b. if b = 32 then phantom_space else [b]) (enc c)) = enc (esc_cpt c)"
proof -
  assume c: "valid_cpt c"
  show ?thesis
  proof (cases "c = 32")
    case True
    then show ?thesis by (simp add: esc_cpt_def)
  next
    case False
    obtain b ks where b: "enc c = b # ks" "unicode_len_utf8 b = Suc (length ks)" "\<And>k. k \<in> set ks \<Longrightarrow> drop_bit 6 k = (2 :: u8)"
      using enc_Cons[OF c] by blast
    have "b \<noteq> 32"
    proof
      assume "b = 32"
      then have "enc c = enc 32" using b byte_tests(3) by simp
      then show False using enc_eqD[OF c] False by simp
    qed
    then have "32 \<notin> set (enc c)" using b(1) b(3)[of 32] byte_tests(1) by auto
    then have "concat (map (\<lambda>b. if b = 32 then phantom_space else [b]) (enc c)) = concat (map (\<lambda>b. [b]) (enc c))"
      by (intro arg_cong[of _ _ concat] map_cong) auto
    then show ?thesis using False by (simp add: esc_cpt_def)
  qed
qed

lemma escape_encs: "list_all valid_cpt cs \<Longrightarrow> llama_escape_whitespace (encs cs) = encs (map esc_cpt cs)"
  unfolding llama_escape_whitespace_def by (induction cs) (simp_all add: replace_all_repl repl_blank escape_char)

lemma repl_continuation:
  "(\<And>k. k \<in> set ks \<Longrightarrow> drop_bit 6 k = (2 :: u8)) \<Longrightarrow> repl phantom_space r (ks @ rest) = ks @ repl phantom_space r rest"
proof (induction ks)
  case (Cons k ks)
  have "k \<noteq> 0xe2" using Cons.prems[of k] byte_tests(2) by auto
  then show ?case using Cons by (auto simp: phantom_space_def)
qed simp

lemma unescape_char: "valid_cpt c \<Longrightarrow> repl phantom_space [32] (enc c @ rest) = enc (unesc_cpt c) @ repl phantom_space [32] rest"
proof -
  assume c: "valid_cpt c"
  show ?thesis
  proof (cases "c = 0x2581")
    case True
    then show ?thesis by (simp add: unesc_cpt_def phantom_space_def)
  next
    case False
    obtain b ks where b: "enc c = b # ks" "unicode_len_utf8 b = Suc (length ks)" "\<And>k. k \<in> set ks \<Longrightarrow> drop_bit 6 k = (2 :: u8)"
      using enc_Cons[OF c] by blast
    have "take 3 (b # ks @ rest) \<noteq> phantom_space"
    proof
      assume t: "take 3 (b # ks @ rest) = phantom_space"
      then have "b = 0xe2" by (simp add: phantom_space_def numeral_eq_Suc)
      then have "length ks = 2" using b(2) byte_tests(4) by simp
      then have "enc c = enc 0x2581" using t b(1) by (simp add: numeral_eq_Suc)
      then show False using enc_eqD[OF c] False by simp
    qed
    moreover have "length phantom_space = 3" by (simp add: phantom_space_def)
    ultimately have "repl phantom_space [32] (b # (ks @ rest)) = b # repl phantom_space [32] (ks @ rest)"
      by (simp del: append_Cons)
    then show ?thesis using b(1) repl_continuation[OF b(3)] False by (simp add: unesc_cpt_def)
  qed
qed

lemma unescape_encs: "list_all valid_cpt cs \<Longrightarrow> llama_unescape_whitespace (encs cs) = encs (map unesc_cpt cs)"
proof -
  assume "list_all valid_cpt cs"
  then have "repl phantom_space [32] (encs cs) = encs (map unesc_cpt cs)"
    by (induction cs) (simp_all add: unescape_char)
  then show ?thesis by (simp add: llama_unescape_whitespace_def replace_all_repl phantom_space_def)
qed

lemma unesc_esc: "0x2581 \<notin> set cs \<Longrightarrow> map unesc_cpt (map esc_cpt cs) = cs"
  by (induction cs) (auto simp: esc_cpt_def unesc_cpt_def)

section \<open>Merging whole characters\<close>

text \<open>Groups of code points whose encodings are the segments: single characters and what has been merged.\<close>

definition groups :: "(bytes \<Rightarrow> bytes \<Rightarrow> 'p option) \<Rightarrow> u32 list \<Rightarrow> u32 list list \<Rightarrow> bool" where
  "groups prio cs css \<longleftrightarrow> concat css = cs \<and>
     (\<forall>d\<in>set css. d \<noteq> [] \<and> (length d = 1 \<or> (\<exists>a b. encs d = a @ b \<and> prio a b \<noteq> None)))"

lemma groups_merge:
  assumes "groups prio cs css" "Suc i < length css" "prio (encs (css ! i)) (encs (css ! Suc i)) \<noteq> None"
  shows "groups prio cs (take i css @ [css ! i @ css ! Suc i] @ drop (Suc (Suc i)) css)"
proof -
  have split: "css = take i css @ [css ! i, css ! Suc i] @ drop (Suc (Suc i)) css"
    using assms(2) by (simp add: Cons_nth_drop_Suc)
  have "concat css = concat (take i css @ [css ! i @ css ! Suc i] @ drop (Suc (Suc i)) css)"
    by (subst split) simp
  moreover have "css ! i \<in> set css" "css ! Suc i \<in> set css" using assms(2) by auto
  ultimately show ?thesis using assms(1,3) by (auto simp: groups_def dest: in_set_takeD in_set_dropD)
qed

definition grouped :: "(bytes \<Rightarrow> bytes \<Rightarrow> 'p option) \<Rightarrow> u32 list \<Rightarrow> bytes list \<Rightarrow> bool" where
  "grouped prio cs xs \<longleftrightarrow> (\<exists>css. xs = map encs css \<and> groups prio cs css)"

lemma grouped_merge:
  assumes "grouped prio cs xs" "Suc i < length xs" "prio (xs ! i) (xs ! Suc i) = Some p"
  shows "grouped prio cs (merge_at i xs)"
proof -
  obtain css where css: "xs = map encs css" "groups prio cs css" using assms(1) unfolding grouped_def by (elim exE conjE)
  have i: "Suc i < length css" using assms(2) unfolding css(1) by simp
  then have i0: "i < length css" by simp
  let ?css = "take i css @ [css ! i @ css ! Suc i] @ drop (Suc (Suc i)) css"
  have m: "merge_at i xs = map encs ?css" using i i0 unfolding css(1) merge_at_def by (simp add: take_map drop_map)
  have g: "groups prio cs ?css" using groups_merge[OF css(2) i] assms(3) i i0 unfolding css(1) by simp
  show ?thesis unfolding grouped_def by (rule exI[of _ ?css], rule conjI, rule m, rule g)
qed

lemma grouped_chars: "grouped prio cs (map enc cs)"
proof -
  have "groups prio cs (map (\<lambda>c. [c]) cs)" by (simp add: groups_def)
  moreover have "map enc cs = map encs (map (\<lambda>c. [c]) cs)" by simp
  ultimately show ?thesis unfolding grouped_def by blast
qed

lemma greedy_merge_groups:
  fixes prio :: "bytes \<Rightarrow> bytes \<Rightarrow> 'p::linorder option"
  shows "grouped prio cs (greedy_merge prio (map enc cs))"
proof -
  have "grouped prio cs (map enc cs) \<longrightarrow> grouped prio cs (greedy_merge prio (map enc cs))"
    by (rule greedy_merge_rule[where Q = "\<lambda>xs ys. grouped prio cs xs \<longrightarrow> grouped prio cs ys"]) (simp_all add: grouped_merge)
  then show ?thesis using grouped_chars by blast
qed

text \<open>Every group is part of the text.\<close>

lemma occurs_middle: "occurs b (a @ b @ c)"
  unfolding occurs_def by (intro exI[of _ "length a"]) simp

lemma groups_occur:
  assumes "groups prio cs css" "d \<in> set css"
  shows "occurs (encs d) (encs cs)"
proof -
  obtain as bs where "css = as @ d # bs" using split_list[OF assms(2)] by blast
  then have "encs cs = encs (concat as) @ encs d @ encs (concat bs)" using assms(1) by (simp add: groups_def flip: encs_simps(3))
  then show ?thesis by (simp only: occurs_middle)
qed

section \<open>Pieces of the tokens of a text\<close>

text \<open>A vocabulary in which a token's id leads back to its text, and one where the tokens that can occur in a text are plain ones.\<close>

definition ids_ok :: "'f llama_vocab \<Rightarrow> bool" where
  "ids_ok v \<longleftrightarrow> (\<forall>s t. token_to_id v s = Some t \<longrightarrow> 0 \<le> t \<and> nat t < n_tokens v \<and> td_text (id_to_token v ! nat t) = s)"

definition plain_attr :: "u32 \<Rightarrow> bool" where
  "plain_attr a \<longleftrightarrow> has_attr a [ATTR_NORMAL] \<and> \<not> has_attr a [ATTR_UNKNOWN, ATTR_CONTROL] \<and>
     \<not> has_attr a [ATTR_UNKNOWN, ATTR_CONTROL, ATTR_USER_DEFINED]"

definition plain_in :: "'f llama_vocab \<Rightarrow> bytes \<Rightarrow> bool" where
  "plain_in v x \<longleftrightarrow> (\<forall>s t. occurs s x \<and> token_to_id v s = Some t \<longrightarrow> plain_attr (td_attr (id_to_token v ! nat t)))"

text \<open>A vocabulary with its cache of pieces, or without one.\<close>

definition cache_ok :: "'f llama_vocab \<Rightarrow> bool" where
  "cache_ok v \<longleftrightarrow> cache_token_to_piece v = [] \<or>
     (\<exists>capacity. build_token_to_piece_cache capacity (v\<lparr>cache_token_to_piece := []\<rparr>) = Inr v)"

lemma piece_uncached:
  assumes "cache_ok v" "v_type v \<noteq> LLAMA_VOCAB_TYPE_RWKV"
  shows "piece_of v t ls sp = piece_of (v\<lparr>cache_token_to_piece := []\<rparr>) t ls sp"
proof (cases "cache_token_to_piece v = []")
  case True
  then have "v\<lparr>cache_token_to_piece := []\<rparr> = v" by simp
  then show ?thesis by simp
next
  case False
  then obtain capacity where "build_token_to_piece_cache capacity (v\<lparr>cache_token_to_piece := []\<rparr>) = Inr v"
    using assms(1) by (auto simp: cache_ok_def)
  then have "piece_of v t ls sp = bind_res (piece_of (v\<lparr>cache_token_to_piece := []\<rparr>) t 0 sp) (\<lambda>p. Inr (skip_blanks (nat ls) p))"
    by (intro cached_pieces) simp
  then show ?thesis using piece_strip_bind[of "v\<lparr>cache_token_to_piece := []\<rparr>" t ls sp] assms(2) by simp
qed

lemma id_lookup:
  assumes "ids_ok v" "v_type v \<noteq> LLAMA_VOCAB_TYPE_NONE" "token_to_id v s = Some t"
  shows "0 \<le> t" "t < int (length (id_to_token v))" "td_text (id_to_token v ! nat t) = s"
    "token_get_attr v t = Inr (td_attr (id_to_token v ! nat t))" "vec_get (id_to_token v) t = Inr (id_to_token v ! nat t)"
    "vec_at (id_to_token v) t = Inr (id_to_token v ! nat t)"
proof -
  have t: "0 \<le> t" "nat t < length (id_to_token v)" "td_text (id_to_token v ! nat t) = s"
    using assms(1,3) by (auto simp: ids_ok_def n_tokens_def)
  then show "0 \<le> t" "td_text (id_to_token v ! nat t) = s" "t < int (length (id_to_token v))" by auto
  show at: "vec_at (id_to_token v) t = Inr (id_to_token v ! nat t)" using vec_at_Inr[OF t(2)] t(1) by simp
  show "vec_get (id_to_token v) t = Inr (id_to_token v ! nat t)" using vec_get_Inr[OF t(2)] t(1) by simp
  show "token_get_attr v t = Inr (td_attr (id_to_token v ! nat t))" using at assms(2) by (simp add: token_get_attr_def)
qed

text \<open>The piece of a plain token, for the two kinds of vocabularies.\<close>

lemma plain_piece_spm:
  assumes "ids_ok v" "cache_ok v" "v_type v = LLAMA_VOCAB_TYPE_SPM" "token_to_id v s = Some t" "plain_attr (td_attr (id_to_token v ! nat t))"
  shows "piece_of v t 0 False = Inr (llama_unescape_whitespace s)"
proof -
  let ?v = "v\<lparr>cache_token_to_piece := []\<rparr>"
  have ok: "ids_ok ?v" "v_type ?v \<noteq> LLAMA_VOCAB_TYPE_NONE" "token_to_id ?v s = Some t"
    using assms by (simp_all add: ids_ok_def n_tokens_def)
  note l = id_lookup[OF ok]
  have "piece_of ?v t 0 False = Inr (llama_unescape_whitespace s)"
    using l assms(3,5) by (simp add: piece_of_def plain_attr_def)
  then show ?thesis using piece_uncached[OF assms(2)] assms(3) by simp
qed

lemma plain_piece_bpe:
  assumes "ids_ok v" "cache_ok v" "v_type v = LLAMA_VOCAB_TYPE_BPE" "token_to_id v s = Some t" "plain_attr (td_attr (id_to_token v ! nat t))"
  shows "piece_of v t 0 False = llama_decode_text s"
proof -
  let ?v = "v\<lparr>cache_token_to_piece := []\<rparr>"
  have ok: "ids_ok ?v" "v_type ?v \<noteq> LLAMA_VOCAB_TYPE_NONE" "token_to_id ?v s = Some t"
    using assms by (simp_all add: ids_ok_def n_tokens_def)
  note l = id_lookup[OF ok]
  have "piece_of ?v t 0 False = llama_decode_text s"
    using l assms(3,5) by (cases "llama_decode_text s") (simp_all add: piece_of_def plain_attr_def)
  then show ?thesis using piece_uncached[OF assms(2)] assms(3) by simp
qed

text \<open>Byte tokens.\<close>

definition byte_attr :: "u32 \<Rightarrow> bool" where
  "byte_attr a \<longleftrightarrow> has_attr a [ATTR_BYTE] \<and> \<not> has_attr a [ATTR_NORMAL] \<and> \<not> has_attr a [ATTR_UNKNOWN, ATTR_CONTROL] \<and>
     \<not> has_attr a [ATTR_UNKNOWN, ATTR_CONTROL, ATTR_USER_DEFINED]"

definition byte_tokens_ok :: "'f llama_vocab \<Rightarrow> bool" where
  "byte_tokens_ok v \<longleftrightarrow> (\<forall>b. \<exists>t. token_to_id v (byte_text b) = Some t \<and> byte_attr (td_attr (id_to_token v ! nat t)))"

lemma strtol16_all: "list_all (\<lambda>h. list_all (\<lambda>l. strtol16 (c_str [hex_digit h, hex_digit l]) = int (16 * h + l)) [0..<16]) [0..<16]"
  by code_simp

lemma byte_of_text: "word_of_int (strtol16 (c_str (take 2 (drop 3 (byte_text b))))) = b"
proof -
  let ?h = "unat (drop_bit 4 b)" and ?l = "unat (b AND 15)"
  have m: "b AND 15 = take_bit 4 b" by (simp add: take_bit_eq_mask mask_eq_exp_minus_1)
  have l: "?l = unat b mod 16" unfolding m by (simp only: unsigned_take_bit_eq) (simp add: take_bit_eq_mod)
  have h: "?h = unat b div 16" by (simp only: unat_drop_bit_eq) (simp add: drop_bit_eq_div)
  have "strtol16 (c_str [hex_digit ?h, hex_digit ?l]) = int (16 * ?h + ?l)"
    using strtol16_all high_nibble[of b] l by (simp add: list_all_iff)
  also have "16 * ?h + ?l = unat b" unfolding h l by simp
  finally show ?thesis by (simp add: byte_text_def)
qed

lemma byte_piece:
  assumes "ids_ok v" "cache_ok v" "v_type v = LLAMA_VOCAB_TYPE_SPM" "token_to_id v (byte_text b) = Some t" "byte_attr (td_attr (id_to_token v ! nat t))"
  shows "piece_of v t 0 False = Inr [b]"
proof -
  let ?v = "v\<lparr>cache_token_to_piece := []\<rparr>"
  have ok: "ids_ok ?v" "v_type ?v \<noteq> LLAMA_VOCAB_TYPE_NONE" "token_to_id ?v (byte_text b) = Some t"
    using assms by (simp_all add: ids_ok_def n_tokens_def)
  note l = id_lookup[OF ok]
  have "substr (byte_text b) 3 2 = Inr (take 2 (drop 3 (byte_text b)))" by (simp add: substr_def byte_text_def)
  then have "token_to_byte ?v t = Inr b"
    using l assms(3,5) byte_of_text[of b] by (simp add: token_to_byte_def is_byte_def id_has_attr_def byte_attr_def)
  then have "piece_of ?v t 0 False = Inr [b]"
    using l assms(3,5) by (simp add: piece_of_def byte_attr_def)
  then show ?thesis using piece_uncached[OF assms(2)] assms(3) by simp
qed

lemma byte_pieces:
  assumes "ids_ok v" "cache_ok v" "v_type v = LLAMA_VOCAB_TYPE_SPM" "byte_tokens_ok v"
  shows "\<exists>ts. map_res (byte_to_token v) bs = Inr ts \<and> map_res (\<lambda>t. piece_of v t 0 False) ts = Inr (map (\<lambda>b. [b]) bs)"
proof (induction bs)
  case (Cons b bs)
  obtain t where t: "token_to_id v (byte_text b) = Some t" "byte_attr (td_attr (id_to_token v ! nat t))"
    using assms(4) unfolding byte_tokens_ok_def by blast
  moreover have "byte_to_token v b = Inr t" using t(1) assms(3) by (simp add: byte_to_token_def)
  ultimately show ?case using Cons.IH byte_piece[OF assms(1-3) t] by auto
qed simp

section \<open>SPM\<close>

lemma enc_nonempty: "valid_cpt c \<Longrightarrow> enc c \<noteq> []"
  by (metis enc_Cons list.distinct(1))

lemma encs_eq_Nil: "list_all valid_cpt d \<Longrightarrow> encs d = [] \<longleftrightarrow> d = []"
  by (cases d) (auto simp: enc_nonempty)

definition spm_vocab_ok :: "'f llama_vocab \<Rightarrow> bool" where
  "spm_vocab_ok v \<longleftrightarrow> v_type v = LLAMA_VOCAB_TYPE_SPM \<and> vocab_int32 v \<and> ids_ok v \<and> cache_ok v \<and> byte_tokens_ok v \<and>
     token_to_id v phantom_space \<noteq> None"

lemma spm_segment_pieces:
  assumes v: "spm_vocab_ok v" and d: "list_all valid_cpt d" "d \<noteq> []" "length d = 1 \<or> spm_score v (encs d) \<noteq> None"
    and plain: "\<And>t. token_to_id v (encs d) = Some t \<Longrightarrow> plain_attr (td_attr (id_to_token v ! nat t))"
  shows "\<exists>ts ps. spm_segment v (encs d) = Inr ts \<and> map_res (\<lambda>t. piece_of v t 0 False) ts = Inr ps \<and>
    concat ps = encs (map unesc_cpt d) \<and> (\<forall>p\<in>set ps. p \<noteq> [])"
proof (cases "token_to_id v (encs d)")
  case (Some t)
  have t: "t \<noteq> LLAMA_TOKEN_NULL" using v Some by (fastforce simp: spm_vocab_ok_def ids_ok_def LLAMA_TOKEN_NULL_def)
  have "piece_of v t 0 False = Inr (encs (map unesc_cpt d))"
    using plain_piece_spm[OF _ _ _ Some plain[OF Some]] v unescape_encs[OF d(1)] by (simp add: spm_vocab_ok_def)
  then show ?thesis using Some t d by (simp add: spm_segment_def encs_eq_Nil)
next
  case None
  then obtain c where c: "d = [c]" using d(2,3) by (auto simp: spm_score_def length_Suc_conv)
  have "c \<noteq> 0x2581" using None c v by (auto simp: spm_vocab_ok_def)
  then have "encs (map unesc_cpt d) = enc c" using c by (simp add: unesc_cpt_def)
  moreover obtain ts where "map_res (byte_to_token v) (enc c) = Inr ts" "map_res (\<lambda>t. piece_of v t 0 False) ts = Inr (map (\<lambda>b. [b]) (enc c))"
    using byte_pieces[of v "enc c"] v by (auto simp: spm_vocab_ok_def)
  ultimately show ?thesis using None c by (simp add: spm_segment_def)
qed

lemma map_res_append: "map_res f xs = Inr a \<Longrightarrow> map_res f ys = Inr b \<Longrightarrow> map_res f (xs @ ys) = Inr (a @ b)"
  by (induction xs arbitrary: a) auto

lemma spm_segments_pieces:
  assumes v: "spm_vocab_ok v" and css: "list_all (list_all valid_cpt) css" "plain_in v x"
    and "\<And>d. d \<in> set css \<Longrightarrow> d \<noteq> [] \<and> occurs (encs d) x \<and> (length d = 1 \<or> spm_score v (encs d) \<noteq> None)"
  shows "\<exists>tss ps. map_res (spm_segment v) (map encs css) = Inr tss \<and> map_res (\<lambda>t. piece_of v t 0 False) (concat tss) = Inr ps \<and>
    concat ps = encs (map unesc_cpt (concat css)) \<and> (\<forall>p\<in>set ps. p \<noteq> [])"
  using assms(2,4)
proof (induction css)
  case (Cons d css)
  obtain tss ps where r: "map_res (spm_segment v) (map encs css) = Inr tss" "map_res (\<lambda>t. piece_of v t 0 False) (concat tss) = Inr ps"
    "concat ps = encs (map unesc_cpt (concat css))" "\<forall>p\<in>set ps. p \<noteq> []"
    using Cons.IH Cons.prems by (auto simp del: map_res.simps)
  have "\<exists>ts ps. spm_segment v (encs d) = Inr ts \<and> map_res (\<lambda>t. piece_of v t 0 False) ts = Inr ps \<and>
    concat ps = encs (map unesc_cpt d) \<and> (\<forall>p\<in>set ps. p \<noteq> [])"
    by (rule spm_segment_pieces[OF v]) (use Cons.prems css(2) in \<open>auto simp: plain_in_def\<close>)
  then obtain ts qs where "spm_segment v (encs d) = Inr ts" "map_res (\<lambda>t. piece_of v t 0 False) ts = Inr qs"
    "concat qs = encs (map unesc_cpt d)" "\<forall>p\<in>set qs. p \<noteq> []" by blast
  then show ?case using r map_res_append by (intro exI[of _ "ts # tss"] exI[of _ "qs @ ps"]) auto
qed simp

lemma spm_tokenize_pieces:
  assumes v: "spm_vocab_ok v" "pq_ok spm_cmp pick" and cs: "list_all valid_cpt cs" "cs \<noteq> []" "0x2581 \<notin> set cs"
    and plain: "plain_in v (llama_escape_whitespace (encs cs))"
  shows "\<exists>ts ps. spm_tokenize v pick (llama_escape_whitespace (encs cs)) out = Inr (out @ ts) \<and>
    map_res (\<lambda>t. piece_of v t 0 False) ts = Inr ps \<and> concat ps = encs cs \<and> (\<forall>p\<in>set ps. p \<noteq> [])"
proof -
  let ?es = "map esc_cpt cs"
  have es: "llama_escape_whitespace (encs cs) = encs ?es" "list_all valid_cpt ?es" using escape_encs cs(1) by auto
  let ?prio = "\<lambda>a b. spm_score v (a @ b)"
  obtain css where css: "greedy_merge ?prio (map enc ?es) = map encs css" "groups ?prio ?es css"
    using greedy_merge_groups[of ?prio ?es] unfolding grouped_def by blast
  have valid: "list_all (list_all valid_cpt) css"
    using css(2) es(2) unfolding groups_def list_all_iff by (metis UN_I set_concat)
  obtain tss ps where r: "map_res (spm_segment v) (map encs css) = Inr tss" "map_res (\<lambda>t. piece_of v t 0 False) (concat tss) = Inr ps"
    "concat ps = encs (map unesc_cpt (concat css))" "\<forall>p\<in>set ps. p \<noteq> []"
    using spm_segments_pieces[OF v(1) valid plain] groups_occur[OF css(2)] css(2) unfolding es(1) groups_def by (metis (no_types, lifting))
  have "encs (map unesc_cpt (concat css)) = encs cs" using css(2) unesc_esc[OF cs(3)] by (simp add: groups_def)
  moreover have "encs ?es \<noteq> []" using es(2) cs(2) by (simp add: encs_eq_Nil)
  then have "spm_tokenize v pick (encs ?es) out = Inr (out @ concat tss)"
    using spm_tokenize_exact[of v pick "encs ?es" out] v r(1) css(1) utf8_chars_encs[OF es(2)] by (simp add: spm_vocab_ok_def)
  ultimately show ?thesis using r es(1) by (intro exI[of _ "concat tss"] exI[of _ ps]) simp
qed

section \<open>Around the session\<close>

text \<open>A text without special tokens is one fragment.\<close>

definition no_specials :: "'f llama_vocab \<Rightarrow> bytes \<Rightarrow> bool" where
  "no_specials v raw \<longleftrightarrow> (\<forall>t\<in>set (cache_special_tokens v). special_ok v t \<and> (parsed v False t \<longrightarrow> \<not> occurs (token_text v t) raw))"

lemma no_occurrence: "pat \<noteq> [] \<Longrightarrow> \<not> occurs pat raw \<Longrightarrow> find_from raw pat 0 = None"
  using find_from_Some[of raw pat 0] by (cases "find_from raw pat 0") (auto simp: occurs_def)

lemma partition_no_specials:
  assumes "no_specials v raw" "raw \<noteq> []"
  shows "tokenizer_st_partition v raw False [FragText 0 (length raw)] = Inr [FragText 0 (length raw)]"
proof -
  have "partition_step v raw False t [FragText 0 (length raw)] = Inr [FragText 0 (length raw)]" if t: "t \<in> set (cache_special_tokens v)" for t
  proof -
    obtain d where d: "get_token_data v t = Inr d" "td_text d = token_text v t" "td_attr d = token_attr v t" "token_text v t \<noteq> []"
      using assms(1) t by (auto simp: no_specials_def special_ok_def token_text_def token_attr_def)
    have "parsed v False t \<Longrightarrow> find_from raw (token_text v t) 0 = None"
      using assms(1) t d(4) no_occurrence by (auto simp: no_specials_def)
    then show ?thesis using d by (auto simp: partition_step_def parsed_def split_fragments_def)
  qed
  then have "set ts \<subseteq> set (cache_special_tokens v) \<Longrightarrow> fold_res (partition_step v raw False) ts [FragText 0 (length raw)] = Inr [FragText 0 (length raw)]" for ts
    by (induction ts) auto
  then show ?thesis by (simp add: tokenizer_st_partition_def)
qed

text \<open>Stripping the first blank.\<close>

lemma pieces_of_plain: "map_res (\<lambda>t. piece_of v t 0 sp) ts = Inr ps \<Longrightarrow> pieces_of v sp False ts = Inr ps"
  by (induction ts arbitrary: ps) (auto simp: pieces_of_Cons)

definition strips_first :: "(int \<Rightarrow> bytes res) \<Rightarrow> bool" where
  "strips_first f \<longleftrightarrow> (\<forall>ls. f ls = bind_res (f 0) (\<lambda>p. Inr (skip_blanks (nat ls) p)))"

lemma strips_first_leaf: "strips_first (\<lambda>ls. Inr (skip_blanks (nat ls) p))" "strips_first (\<lambda>ls. Inr [])" "strips_first (\<lambda>ls. Inl e)"
  by (simp_all add: strips_first_def)

lemma strips_first_bind:
  assumes "\<And>x. strips_first (\<lambda>ls. g ls x)"
  shows "strips_first (\<lambda>ls. bind_res m (g ls))"
proof (cases m)
  case (Inr x)
  then show ?thesis using assms[of x] by simp
qed (simp add: strips_first_def)

lemma strips_first_if:
  "(b \<Longrightarrow> strips_first f) \<Longrightarrow> (\<not> b \<Longrightarrow> strips_first h) \<Longrightarrow> strips_first (\<lambda>ls. if b then f ls else h ls)"
  by (cases b) simp_all

lemmas strips_first_intros = strips_first_leaf strips_first_bind strips_first_if

lemma piece_strip:
  assumes "v_type v \<noteq> LLAMA_VOCAB_TYPE_RWKV" "piece_of v t 0 sp = Inr p"
  shows "piece_of v t ls sp = Inr (skip_blanks (nat ls) p)"
proof -
  have "strips_first (\<lambda>ls. piece_of v t ls sp)"
    unfolding piece_of_def Let_def by (intro strips_first_intros) (use assms(1) in simp)
  then have "piece_of v t ls sp = bind_res (piece_of v t 0 sp) (\<lambda>p. Inr (skip_blanks (nat ls) p))" unfolding strips_first_def by (rule spec)
  then show ?thesis unfolding assms(2) by simp
qed

lemma pieces_of_strip:
  assumes "v_type v \<noteq> LLAMA_VOCAB_TYPE_RWKV" "map_res (\<lambda>t. piece_of v t 0 sp) ts = Inr ps" "concat ps = 32 # s" "\<forall>p\<in>set ps. p \<noteq> []"
  shows "\<exists>qs. pieces_of v sp True ts = Inr qs \<and> concat qs = s"
proof -
  obtain t ts' where ts: "ts = t # ts'" using assms(2,3) by (cases ts) auto
  then obtain p ps' where p: "piece_of v t 0 sp = Inr p" "map_res (\<lambda>t. piece_of v t 0 sp) ts' = Inr ps'" "ps = p # ps'"
    using assms(2) by auto
  obtain p' where p': "p = 32 # p'" using assms(3,4) p(3) by (cases p) auto
  have "skip_blanks (nat 1) p = p'" using p' by simp
  then have "pieces_of v sp True ts = Inr (p' # ps')"
    using ts piece_strip[OF assms(1) p(1), of 1] pieces_of_plain[OF p(2)] by (simp add: pieces_of_Cons)
  then show ?thesis using assms(3) p(3) p' by simp
qed

text \<open>The special tokens around a text, which detokenizing takes away again.\<close>

definition ends_ok :: "'f llama_vocab \<Rightarrow> bool \<Rightarrow> bool" where
  "ends_ok v sp \<longleftrightarrow> (sp \<longrightarrow> (add_bos v \<longrightarrow> special_bos_id v \<noteq> LLAMA_TOKEN_NULL) \<and> (add_eos v \<longrightarrow> special_eos_id v \<noteq> LLAMA_TOKEN_NULL))"

definition framed :: "'f llama_vocab \<Rightarrow> bool \<Rightarrow> llama_token list \<Rightarrow> llama_token list" where
  "framed v sp ts = (if sp \<and> add_bos v then [special_bos_id v] else []) @ ts @ (if sp \<and> add_eos v then [special_eos_id v] else [])"

lemma push_special_bos: "ends_ok v sp \<Longrightarrow> push_special (sp \<and> add_bos v) (special_bos_id v) [] = Inr (if sp \<and> add_bos v then [special_bos_id v] else [])"
  by (auto simp: ends_ok_def push_special_def)

lemma push_special_eos: "ends_ok v sp \<Longrightarrow> push_special (sp \<and> add_eos v) (special_eos_id v) out = Inr (out @ (if sp \<and> add_eos v then [special_eos_id v] else []))"
  by (auto simp: ends_ok_def push_special_def)

lemma strip_framed: "strip_special v sp (framed v sp ts) = (add_space_prefix v \<and> \<not> (sp \<and> add_bos v), ts)"
  by (auto simp: strip_special_def framed_def)

text \<open>What is left of the blank that \<open>tokenize\<close> puts in front of a text.\<close>

definition kept_blank :: "'f llama_vocab \<Rightarrow> bool \<Rightarrow> bytes" where
  "kept_blank v sp = (if add_space_prefix v \<and> sp \<and> add_bos v then [32] else [])"

lemma detokenize_framed:
  assumes v: "v_type v \<notin> {LLAMA_VOCAB_TYPE_NONE, LLAMA_VOCAB_TYPE_RWKV}"
    and ps: "map_res (\<lambda>t. piece_of v t 0 False) ts = Inr ps" "concat ps = (if add_space_prefix v then [32] else []) @ raw" "\<forall>p\<in>set ps. p \<noteq> []"
    and len: "int (length raw) + 1 \<le> len"
  shows "detokenize v (Some tk) (framed v sp ts) len sp False =
    Inr (int (length (clean_text v (kept_blank v sp @ raw))), clean_text v (kept_blank v sp @ raw))"
proof -
  let ?rs = "add_space_prefix v \<and> \<not> (sp \<and> add_bos v)"
  have "\<exists>qs. pieces_of v False ?rs ts = Inr qs \<and> concat qs = kept_blank v sp @ raw"
  proof (cases ?rs)
    case True
    then show ?thesis using pieces_of_strip[OF _ ps(1), of raw] v ps(2,3) by (auto simp: kept_blank_def)
  next
    case False
    then show ?thesis using pieces_of_plain[OF ps(1)] ps(2) by (auto simp: kept_blank_def)
  qed
  then obtain qs where qs: "pieces_of v False ?rs ts = Inr qs" "concat qs = kept_blank v sp @ raw" by blast
  have "length (concat qs) \<le> length raw + 1" using qs(2) by (simp add: kept_blank_def)
  then have "detokenize v (Some tk) (framed v sp ts) len sp False = Inr (int (length (plain_text v qs)), plain_text v qs)"
    using v len by (intro detokenize_writes(2)[OF _ _ strip_framed qs(1)]) auto
  then show ?thesis using qs(2) by (simp add: plain_text_eq)
qed

text \<open>
  C8. Round trip of SPM: a valid text that has neither U+2581 nor special tokens to be parsed in it and in which only plain tokens can be found is tokenized
  without failure, with the special tokens at its ends when they are asked for, and detokenizing the result, with
  those tokens taken away, gives the text back byte for byte. Characters without a token pass through byte tokens. Only when a
  leading BOS token was taken away does the blank that tokenizing put in front stay.
\<close>

theorem spm_round_trip:
  assumes "spm_vocab_ok v" "\<not> clean_spaces v" "ends_ok v special" "pq_ok spm_cmp (tl_spm_queue lib)"
    and "unicode_cpts_to_utf8 cps = Inr raw" "raw \<noteq> []" "0x2581 \<notin> set cps" "no_specials v raw"
    and "plain_in v (llama_escape_whitespace ((if add_space_prefix v then [32] else []) @ raw))"
  shows "\<exists>ts. tokenize lib v (Some tk) raw special False = Inr (framed v special ts) \<and>
    (\<forall>len > int (length raw). detokenize v (Some tk) (framed v special ts) len special False =
       Inr (int (length (kept_blank v special @ raw)), kept_blank v special @ raw))"
proof -
  let ?cs = "(if add_space_prefix v then [32] else []) @ cps"
  have cps: "list_all valid_cpt cps" "raw = encs cps" using assms(5) cpts_to_utf8_encs by auto
  have ty: "v_type v = LLAMA_VOCAB_TYPE_SPM" using assms(1) by (simp add: spm_vocab_ok_def)
  have enc: "encs ?cs = (if add_space_prefix v then [32] else []) @ raw" using cps(2) by simp
  have cs: "list_all valid_cpt ?cs" "?cs \<noteq> []" "0x2581 \<notin> set ?cs" using cps assms(6,7) by auto
  obtain ts ps where t: "spm_tokenize v (tl_spm_queue lib) (llama_escape_whitespace (encs ?cs)) (if special \<and> add_bos v then [special_bos_id v] else []) =
      Inr ((if special \<and> add_bos v then [special_bos_id v] else []) @ ts)"
    "map_res (\<lambda>t. piece_of v t 0 False) ts = Inr ps" "concat ps = encs ?cs" "\<forall>p\<in>set ps. p \<noteq> []"
    using spm_tokenize_pieces[OF assms(1,4) cs] assms(9) enc by metis
  have "fold_res (spm_fragment lib v raw) [FragText 0 (length raw)] (True, if special \<and> add_bos v then [special_bos_id v] else []) =
    Inr (False, (if special \<and> add_bos v then [special_bos_id v] else []) @ ts)"
    using t(1) unfolding enc by (simp add: spm_fragment_def Let_def)
  then have "tokenize lib v (Some tk) raw special False = Inr (framed v special ts)"
    using partition_no_specials[OF assms(8,6)] assms(6) ty push_special_bos[OF assms(3)] push_special_eos[OF assms(3)]
    by (simp add: tokenize_def framed_def del: fold_res.simps)
  moreover have "detokenize v (Some tk) (framed v special ts) len special False =
      Inr (int (length (kept_blank v special @ raw)), kept_blank v special @ raw)" if "int (length raw) < len" for len
    using detokenize_framed[OF _ t(2) t(3)[unfolded enc] t(4), of len tk special] ty that assms(2) by (simp add: clean_text_same)
  ultimately show ?thesis by blast
qed

section \<open>BPE\<close>

text \<open>The printable character of a byte as a code point.\<close>

definition byte_char :: "u8 \<Rightarrow> u32" where
  "byte_char b = word_of_nat (byte_cpt (unat b))"

lemma byte_char_enc: "valid_cpt (byte_char b)" "enc (byte_char b) = byte_enc b"
  using byte_enc_cpt[of b] by (simp_all add: byte_char_def cpt_to_utf8_enc)

lemma encode_bytes_encs: "encode_bytes bs = encs (map byte_char bs)"
  by (simp add: encode_bytes_def encs_def byte_char_enc comp_def)

lemma valid_byte_chars: "list_all valid_cpt (map byte_char bs)"
  by (simp add: list_all_iff byte_char_enc)

lemma decode_encoded: "llama_decode_text (encode_bytes bs) = Inr bs"
proof -
  have "unicode_cpts_from_utf8 (encode_bytes bs) = map byte_char bs"
    using valid_byte_chars encode_bytes_encs by (intro cpts_from_to) (simp add: cpts_to_utf8_encs)
  moreover have "decode_cpt x (byte_char b) = Inr [b]" for x b
    using byte_enc_cpt[of b] by (simp add: decode_cpt_def byte_char_def)
  then have "map_res (decode_cpt x) (map byte_char bs) = Inr (map (\<lambda>b. [b]) bs)" for x
    by (induction bs) simp_all
  ultimately show ?thesis by (simp add: llama_decode_text_def)
qed

lemma concat_map_split: "concat css = map f w \<Longrightarrow> \<exists>wss. css = map (map f) wss \<and> concat wss = w"
proof (induction css arbitrary: w)
  case (Cons d css)
  then obtain w1 w2 where w: "w = w1 @ w2" "d = map f w1" "concat css = map f w2" by (auto simp: append_eq_map_conv)
  then show ?case using Cons.IH[of w2] by (metis concat.simps(2) list.simps(9))
qed auto

definition bpe_vocab_ok :: "'f llama_vocab \<Rightarrow> bool" where
  "bpe_vocab_ok v \<longleftrightarrow> v_type v = LLAMA_VOCAB_TYPE_BPE \<and> ids_ok v \<and> cache_ok v \<and> \<not> add_space_prefix v \<and>
     (\<forall>b. token_to_id v (byte_enc b) \<noteq> None) \<and>
     (\<forall>a b r. bpe_ranks v (a, b) = Some r \<and> 0 \<le> r \<longrightarrow> token_to_id v (a @ b) \<noteq> None)"

text \<open>The segments of an encoded word: encodings of parts of the word, each of them a token.\<close>

lemma bpe_split_parts:
  assumes "bpe_vocab_ok v"
  shows "\<exists>wss. bpe_split v (encode_bytes w) = map encode_bytes wss \<and> concat wss = w \<and>
    (\<forall>u\<in>set wss. u \<noteq> [] \<and> token_to_id v (encode_bytes u) \<noteq> None)"
proof -
  consider (empty) "w = []" | (whole) "w \<noteq> []" "ignore_merges v \<and> is_token v (encode_bytes w)"
    | (merge) "w \<noteq> []" "\<not> (ignore_merges v \<and> is_token v (encode_bytes w))" by blast
  then show ?thesis
  proof cases
    case empty
    then show ?thesis by (simp add: bpe_split_def encode_bytes_def)
  next
    case whole
    have "encode_bytes w \<noteq> []" using whole(1) valid_byte_chars by (simp add: encode_bytes_encs encs_eq_Nil)
    then show ?thesis using whole by (intro exI[of _ "[w]"]) (auto simp: bpe_split_def is_token_iff)
  next
    case merge
    obtain css where css: "greedy_merge (bpe_prio v) (map enc (map byte_char w)) = map encs css" "groups (bpe_prio v) (map byte_char w) css"
      using greedy_merge_groups[of "bpe_prio v" "map byte_char w"] unfolding grouped_def by blast
    obtain wss where wss: "css = map (map byte_char) wss" "concat wss = w"
      using concat_map_split[of css byte_char w] css(2) unfolding groups_def by blast
    have "u \<noteq> [] \<and> token_to_id v (encode_bytes u) \<noteq> None" if u: "u \<in> set wss" for u
    proof -
      have g: "u \<noteq> []" "length u = 1 \<or> (\<exists>a b. encs (map byte_char u) = a @ b \<and> bpe_prio v a b \<noteq> None)"
        using css(2) u wss(1) by (auto simp: groups_def)
      show ?thesis
      proof (cases "length u = 1")
        case True
        then obtain b where "u = [b]" by (auto simp: length_Suc_conv)
        then show ?thesis using assms by (simp add: bpe_vocab_ok_def encode_bytes_def)
      next
        case False
        then obtain a b where ab: "encode_bytes u = a @ b" "bpe_prio v a b \<noteq> None" using g(2) by (auto simp: encode_bytes_encs)
        then obtain r where "bpe_ranks v (a, b) = Some r" "0 \<le> r" by (auto simp: bpe_prio_def split: option.splits if_splits)
        then show ?thesis using assms ab(1) g(1) unfolding bpe_vocab_ok_def by metis
      qed
    qed
    moreover have "encode_bytes w \<noteq> []" using merge(1) valid_byte_chars by (simp add: encode_bytes_encs encs_eq_Nil)
    then have "bpe_split v (encode_bytes w) = map encode_bytes wss"
      using merge(2) css(1) wss(1) utf8_chars_encs[OF valid_byte_chars] by (auto simp: bpe_split_def encode_bytes_encs)
    ultimately show ?thesis using wss(2) by blast
  qed
qed

lemma bpe_words_parts:
  assumes "bpe_vocab_ok v"
  shows "\<exists>us. concat (map (bpe_split v) (map encode_bytes ws)) = map encode_bytes us \<and> concat us = concat ws \<and>
    (\<forall>u\<in>set us. u \<noteq> [] \<and> token_to_id v (encode_bytes u) \<noteq> None)"
proof (induction ws)
  case (Cons w ws)
  obtain us where us: "concat (map (bpe_split v) (map encode_bytes ws)) = map encode_bytes us" "concat us = concat ws"
    "\<forall>u\<in>set us. u \<noteq> [] \<and> token_to_id v (encode_bytes u) \<noteq> None" using Cons.IH by blast
  obtain wss where wss: "bpe_split v (encode_bytes w) = map encode_bytes wss" "concat wss = w"
    "\<forall>u\<in>set wss. u \<noteq> [] \<and> token_to_id v (encode_bytes u) \<noteq> None" using bpe_split_parts[OF assms] by blast
  show ?case using us wss by (intro exI[of _ "wss @ us"]) auto
qed simp

lemma bpe_parts_pieces:
  assumes "bpe_vocab_ok v" "plain_in v x"
    and "\<And>u. u \<in> set us \<Longrightarrow> token_to_id v (encode_bytes u) \<noteq> None \<and> occurs (encode_bytes u) x"
  shows "map_res (\<lambda>t. piece_of v t 0 False) (concat (map (bpe_segment v) (map encode_bytes us))) = Inr us"
  using assms(3)
proof (induction us)
  case (Cons u us)
  obtain t where t: "token_to_id v (encode_bytes u) = Some t" using Cons.prems[of u] by auto
  have tok: "is_token v (encode_bytes u)" using t assms(1) by (fastforce simp: is_token_iff bpe_vocab_ok_def ids_ok_def LLAMA_TOKEN_NULL_def)
  have "plain_attr (td_attr (id_to_token v ! nat t))" using assms(2) t Cons.prems[of u] unfolding plain_in_def by (metis list.set_intros(1))
  then have "piece_of v t 0 False = Inr u"
    using plain_piece_bpe[OF _ _ _ t] assms(1) decode_encoded by (simp add: bpe_vocab_ok_def)
  then show ?case using Cons tok t by (simp add: bpe_segment_def)
qed simp

text \<open>
  C9. Round trip of BPE: a valid text without special tokens to be parsed, and in whose encoding only plain tokens can be found, is
  split into words, merged and looked up without failure, and detokenizing the result gives the text back after the clean-up of
  white space that the vocabulary asks for (\<open>clean_text\<close>; BPE vocabularies do by default): byte for byte when it asks for none, and also when it does but no blank
  of the text stands right before one of the characters \<^verbatim>\<open>? ! . , '\<close>. What is asked of the
  vocabulary is that it puts no blank in front of a text and that every byte's character and the result of every merge are tokens; of the standard library, that the expressions without
  a splitter of their own compile and yield matches in order.
\<close>

theorem bpe_round_trip:
  assumes "bpe_vocab_ok v" "ends_ok v special" "pq_ok bpe_cmp (tl_bpe_queue lib)"
    and "unicode_cpts_to_utf8 cps = Inr raw" "raw \<noteq> []" "no_specials v raw" "plain_in v (encode_bytes raw)"
    and "\<forall>r\<in>set exprs. regex_ok (tl_regex lib) r"
  shows "\<exists>ts. tokenize lib v (Some (TokBpe exprs)) raw special False = Inr (framed v special ts) \<and>
    (\<forall>len > int (length raw). detokenize v (Some (TokBpe exprs)) (framed v special ts) len special False =
       Inr (int (length (clean_text v raw)), clean_text v raw)) \<and>
    (\<not> clean_spaces v \<or> is_clean raw \<longrightarrow> clean_text v raw = raw)"
proof -
  have ty: "v_type v = LLAMA_VOCAB_TYPE_BPE" "\<not> add_space_prefix v" using assms(1) by (simp_all add: bpe_vocab_ok_def)
  obtain ws where ws: "unicode_regex_split (tl_unicode lib) (tl_regex lib) raw exprs = Inr (map encode_bytes ws)" "concat ws = raw"
    using regex_split_words[of raw raw exprs "tl_regex lib" "tl_unicode lib"] assms(4,8) cpts_from_to[OF assms(4)] by auto
  obtain us where us: "concat (map (bpe_split v) (map encode_bytes ws)) = map encode_bytes us" "concat us = raw"
    "\<forall>u\<in>set us. u \<noteq> [] \<and> token_to_id v (encode_bytes u) \<noteq> None"
    using bpe_words_parts[OF assms(1), of ws] ws(2) by auto
  let ?ts = "concat (map (bpe_segment v) (map encode_bytes us))"
  have part: "occurs (encode_bytes u) (encode_bytes raw)" if u: "u \<in> set us" for u
  proof -
    obtain as bs where "us = as @ u # bs" using split_list[OF u] by blast
    then have "encode_bytes raw = encode_bytes (concat as) @ encode_bytes u @ encode_bytes (concat bs)"
      using us(2) by (auto simp: encode_bytes_encs)
    then show ?thesis by (simp only: occurs_middle)
  qed
  have pieces: "map_res (\<lambda>t. piece_of v t 0 False) ?ts = Inr us"
    by (rule bpe_parts_pieces[OF assms(1,7)]) (use us(3) part in auto)
  have "bpe_tokenize v (tl_bpe_queue lib) (map encode_bytes ws) out = Inr (out @ ?ts)" for out
    using bpe_tokenize_exact[OF ty(1) assms(3), of "map encode_bytes ws" out] no_blanks_encode us(1) by (simp del: map_map)
  then have "tokenize_fragments (bpe_session_tokenize lib v exprs) raw [FragText 0 (length raw)] out = Inr (out @ ?ts)" for out
    using ws(1) by (simp add: tokenize_fragments_def bpe_session_tokenize_def)
  then have "tokenize lib v (Some (TokBpe exprs)) raw special False = Inr (framed v special ?ts)"
    using partition_no_specials[OF assms(6,5)] assms(5) ty push_special_bos[OF assms(2)] push_special_eos[OF assms(2)]
    by (simp add: tokenize_def framed_def)
  moreover have "detokenize v (Some (TokBpe exprs)) (framed v special ?ts) len special False =
      Inr (int (length (clean_text v raw)), clean_text v raw)"
    if "int (length raw) < len" for len
    using detokenize_framed[OF _ pieces, of raw len "TokBpe exprs" special] us(2,3) ty that by (simp add: kept_blank_def)
  ultimately show ?thesis using clean_text_same[of v raw] by blast
qed

section \<open>Concrete runs\<close>

text \<open>A vocabulary given by its tokens.\<close>

definition vocab_of :: "llama_vocab_type \<Rightarrow> int token_data list \<Rightarrow> int llama_vocab" where
  "vocab_of ty toks = (ex_vocab ty)\<lparr>id_to_token := toks,
     token_to_id := map_of (zip (map td_text toks) (map int [0..<length toks])), bpe_ranks := Map.empty\<rparr>"

definition ex_lib :: "int tokenizer_lib" where
  "ex_lib = \<lparr>tl_unicode = ex_flags, tl_regex = ex_regex_lib, tl_float = ex_float, tl_spm_queue = first_top spm_cmp, tl_bpe_queue = first_top bpe_cmp\<rparr>"

lemma vocab_of_lookup:
  "token_to_id (vocab_of ty toks) s = Some t \<Longrightarrow> 0 \<le> t \<and> nat t < length toks \<and> td_text (toks ! nat t) = s"
  by (auto simp: vocab_of_def set_zip dest!: map_of_SomeD)

lemma vocab_of_token: "i < length toks \<Longrightarrow> token_to_id (vocab_of ty toks) (td_text (toks ! i)) \<noteq> None"
  by (simp add: vocab_of_def map_of_zip_is_None)

lemma vocab_of_ids: "ids_ok (vocab_of ty toks)"
  unfolding ids_ok_def using vocab_of_lookup[of ty toks] by (auto simp: vocab_of_def n_tokens_def)

lemma vocab_of_simps [simp]:
  "v_type (vocab_of ty toks) = ty" "id_to_token (vocab_of ty toks) = toks" "cache_token_to_piece (vocab_of ty toks) = []"
  "cache_special_tokens (vocab_of ty toks) = []" "\<not> add_space_prefix (vocab_of ty toks)" "\<not> clean_spaces (vocab_of ty toks)"
  "\<not> add_bos (vocab_of ty toks)" "\<not> add_eos (vocab_of ty toks)"
  by (simp_all add: vocab_of_def ex_vocab_def)

lemma plain_attr_normal: "plain_attr 4"
  by (simp add: plain_attr_def has_attr_def)

lemma byte_attr_byte: "byte_attr 32"
  by (simp add: byte_attr_def has_attr_def)

lemma occurs_set: "occurs s x \<Longrightarrow> set s \<subseteq> set x"
  unfolding occurs_def by (metis order_trans set_drop_subset set_take_subset)

text \<open>All bytes, the blank, \<^verbatim>\<open>a\<close> and \<^verbatim>\<open>a\<close> after a blank.\<close>

definition ex_pieces :: "int token_data list" where
  "ex_pieces = map (\<lambda>n. \<lparr>td_text = byte_text (word_of_nat n), td_score = 0, td_attr = 32\<rparr>) [0..<256] @
     [ex_token phantom_space (-1), ex_token [97] (-2), ex_token (phantom_space @ [97]) (-3)]"

lemma ex_pieces_nth: "i < 256 \<Longrightarrow> ex_pieces ! i = \<lparr>td_text = byte_text (word_of_nat i), td_score = 0, td_attr = 32\<rparr>"
  by (simp add: ex_pieces_def nth_append)

lemma ex_pieces_cases:
  "d \<in> set ex_pieces \<Longrightarrow> 60 \<in> set (td_text d) \<and> td_attr d = 32 \<or> 60 \<notin> set (td_text d) \<and> td_attr d = 4"
  by (auto simp: ex_pieces_def ex_token_def byte_text_def phantom_space_def)

lemma ex_spm_ok: "spm_vocab_ok (vocab_of LLAMA_VOCAB_TYPE_SPM ex_pieces)"
proof -
  let ?v = "vocab_of LLAMA_VOCAB_TYPE_SPM ex_pieces"
  have n: "length ex_pieces = 259" by (simp add: ex_pieces_def)
  have "\<exists>t. token_to_id ?v (byte_text b) = Some t \<and> byte_attr (td_attr (ex_pieces ! nat t))" for b
  proof -
    have "td_text (ex_pieces ! unat b) = byte_text b" using byte_less[of b] by (simp add: ex_pieces_nth)
    then obtain t where t: "token_to_id ?v (byte_text b) = Some t"
      using vocab_of_token[of "unat b" ex_pieces] byte_less[of b] n by fastforce
    then have "td_text (ex_pieces ! nat t) = byte_text b" "ex_pieces ! nat t \<in> set ex_pieces" using vocab_of_lookup by auto
    then have "td_attr (ex_pieces ! nat t) = 32" using ex_pieces_cases by (metis byte_text_def list.set_intros(1))
    then show ?thesis using t byte_attr_byte by simp
  qed
  moreover have "token_to_id ?v phantom_space \<noteq> None"
    using vocab_of_token[of 256 ex_pieces] n by (simp add: ex_pieces_def nth_append ex_token_def)
  moreover have "vocab_int32 ?v" using n vocab_of_lookup[of _ ex_pieces] by (fastforce simp: vocab_int32_def n_tokens_def)
  ultimately show ?thesis using vocab_of_ids by (simp add: spm_vocab_ok_def byte_tokens_ok_def cache_ok_def)
qed

definition ex_spm :: "int llama_vocab" where
  "ex_spm = (vocab_of LLAMA_VOCAB_TYPE_SPM ex_pieces)\<lparr>add_space_prefix := True, add_bos := True\<rparr>"

lemma ex_spm_vocab: "spm_vocab_ok ex_spm"
  using ex_spm_ok by (simp add: ex_spm_def spm_vocab_ok_def vocab_int32_def n_tokens_def ids_ok_def byte_tokens_ok_def cache_ok_def)

lemma ex_spm_plain: "60 \<notin> set x \<Longrightarrow> plain_in ex_spm x"
  unfolding plain_in_def
proof (intro allI impI)
  fix s t assume x: "60 \<notin> set x" and st: "occurs s x \<and> token_to_id ex_spm s = Some t"
  have "token_to_id (vocab_of LLAMA_VOCAB_TYPE_SPM ex_pieces) s = Some t" using st by (simp add: ex_spm_def)
  then have "td_text (ex_pieces ! nat t) = s" "ex_pieces ! nat t \<in> set ex_pieces" using vocab_of_lookup by auto
  moreover have "60 \<notin> set s" using st x occurs_set by blast
  ultimately have "td_attr (ex_pieces ! nat t) = 4" using ex_pieces_cases by metis
  then show "plain_attr (td_attr (id_to_token ex_spm ! nat t))" using plain_attr_normal by (simp add: ex_spm_def)
qed

text \<open>The text \<^verbatim>\<open>a b\<close>, whose last letter has no token.\<close>

theorem spm_round_trip_witness:
  "\<exists>ts. tokenize ex_lib ex_spm (Some TokSpm) [97, 32, 98] True False = Inr (framed ex_spm True ts) \<and>
    detokenize ex_spm (Some TokSpm) (framed ex_spm True ts) 9 True False = Inr (4, [32, 97, 32, 98])"
proof -
  have "\<exists>ts. tokenize ex_lib ex_spm (Some TokSpm) [97, 32, 98] True False = Inr (framed ex_spm True ts) \<and>
    (\<forall>len > int (length [97, 32, 98 :: u8]). detokenize ex_spm (Some TokSpm) (framed ex_spm True ts) len True False =
       Inr (int (length (kept_blank ex_spm True @ [97, 32, 98])), kept_blank ex_spm True @ [97, 32, 98]))"
  proof (rule spm_round_trip[OF ex_spm_vocab])
    show "unicode_cpts_to_utf8 [97, 32, 98] = Inr [97, 32, 98]" by code_simp
    have "llama_escape_whitespace ([32] @ [97, 32, 98]) = phantom_space @ [97] @ phantom_space @ [98]" by code_simp
    then show "plain_in ex_spm (llama_escape_whitespace ((if add_space_prefix ex_spm then [32] else []) @ [97, 32, 98]))"
      using ex_spm_plain[of "phantom_space @ [97] @ phantom_space @ [98]"] by (simp add: ex_spm_def phantom_space_def)
  qed (simp_all add: ex_spm_def ends_ok_def no_specials_def pq_ok_spm ex_lib_def LLAMA_TOKEN_NULL_def vocab_of_def ex_vocab_def)
  then show ?thesis by (force simp: kept_blank_def ex_spm_def)
qed

definition ex_bytes :: "int token_data list" where
  "ex_bytes = map (\<lambda>n. ex_token (byte_enc (word_of_nat n)) 0) [0..<256]"

lemma ex_bpe_ok: "bpe_vocab_ok (vocab_of LLAMA_VOCAB_TYPE_BPE ex_bytes)"
proof -
  have "token_to_id (vocab_of LLAMA_VOCAB_TYPE_BPE ex_bytes) (byte_enc b) \<noteq> None" for b
    using vocab_of_token[of "unat b" ex_bytes LLAMA_VOCAB_TYPE_BPE] byte_less[of b] by (simp add: ex_bytes_def ex_token_def)
  moreover have "bpe_ranks (vocab_of LLAMA_VOCAB_TYPE_BPE ex_bytes) = Map.empty" by (simp add: vocab_of_def)
  ultimately show ?thesis using vocab_of_ids by (simp add: bpe_vocab_ok_def cache_ok_def)
qed

lemma ex_bpe_plain: "plain_in (vocab_of LLAMA_VOCAB_TYPE_BPE ex_bytes) x"
proof -
  have "\<And>i. i < length ex_bytes \<Longrightarrow> td_attr (ex_bytes ! i) = 4" by (simp add: ex_bytes_def ex_token_def)
  then show ?thesis using vocab_of_lookup plain_attr_normal by (fastforce simp: plain_in_def)
qed

text \<open>A vocabulary that cleans up: \<^verbatim>\<open>ab 12\<close> comes back, \<^verbatim>\<open>a .\<close> loses its blank.\<close>

definition ex_bpe :: "int llama_vocab" where
  "ex_bpe = (vocab_of LLAMA_VOCAB_TYPE_BPE ex_bytes)\<lparr>clean_spaces := True\<rparr>"

lemma ex_bpe_vocab: "bpe_vocab_ok ex_bpe" "plain_in ex_bpe x"
  using ex_bpe_ok ex_bpe_plain[of x] by (simp_all add: ex_bpe_def bpe_vocab_ok_def ids_ok_def cache_ok_def n_tokens_def plain_in_def)

theorem bpe_round_trip_witness:
  "(\<exists>ts. tokenize ex_lib ex_bpe (Some (TokBpe [ucat 78, gpt2_regex])) [97, 98, 32, 49, 50] True False = Inr (framed ex_bpe True ts) \<and>
      detokenize ex_bpe (Some (TokBpe [ucat 78, gpt2_regex])) (framed ex_bpe True ts) 9 True False = Inr (5, [97, 98, 32, 49, 50])) \<and>
   (\<exists>ts. tokenize ex_lib ex_bpe (Some (TokBpe [ucat 78, gpt2_regex])) [97, 32, 46] True False = Inr (framed ex_bpe True ts) \<and>
      detokenize ex_bpe (Some (TokBpe [ucat 78, gpt2_regex])) (framed ex_bpe True ts) 9 True False = Inr (2, [97, 46]))"
proof -
  let ?e = "[ucat 78, gpt2_regex]" and ?s = "[97, 98, 32, 49, 50] :: u8 list" and ?p = "[97, 32, 46] :: u8 list"
  have "list_all (\<lambda>c. c < 128) (unicode_cpts_from_utf8 (ucat 78))" "list_all (\<lambda>c. c < 128) (unicode_cpts_from_utf8 gpt2_regex)"
    by code_simp+
  then have regex: "\<forall>r\<in>set ?e. regex_ok (tl_regex ex_lib) r" by (auto simp: list_all_iff ex_lib_def intro!: ex_regex_ok)
  have v: "ends_ok ex_bpe True" "pq_ok bpe_cmp (tl_bpe_queue ex_lib)" "no_specials ex_bpe x" for x
    by (simp_all add: ends_ok_def no_specials_def pq_ok_bpe ex_lib_def ex_bpe_def)
  have cpts: "unicode_cpts_to_utf8 [97, 98, 32, 49, 50] = Inr ?s" "unicode_cpts_to_utf8 [97, 32, 46] = Inr ?p" by code_simp+
  have "clean_up ?s (length ?s) = (?s, 5)" "clean_up ?p (length ?p) = ([97, 46, 46], 2)" by code_simp+
  then have s: "clean_text ex_bpe ?s = ?s" "clean_text ex_bpe ?p = [97, 46]" by (simp_all add: clean_text_def ex_bpe_def)
  have len: "int (length ?s) < 9" "int (length ?p) < 9" "?s \<noteq> []" "?p \<noteq> []" by simp_all
  have "\<exists>ts. tokenize ex_lib ex_bpe (Some (TokBpe ?e)) ?s True False = Inr (framed ex_bpe True ts) \<and>
      detokenize ex_bpe (Some (TokBpe ?e)) (framed ex_bpe True ts) 9 True False = Inr (int (length ?s), ?s)"
    using bpe_round_trip[OF ex_bpe_vocab(1) v(1,2) cpts(1) len(3) v(3) ex_bpe_vocab(2) regex] len(1) unfolding s by blast
  moreover have "\<exists>ts. tokenize ex_lib ex_bpe (Some (TokBpe ?e)) ?p True False = Inr (framed ex_bpe True ts) \<and>
      detokenize ex_bpe (Some (TokBpe ?e)) (framed ex_bpe True ts) 9 True False = Inr (int (length [97, 46 :: u8]), [97, 46])"
    using bpe_round_trip[OF ex_bpe_vocab(1) v(1,2) cpts(2) len(4) v(3) ex_bpe_vocab(2) regex] len(2) unfolding s by blast
  moreover have "int (length ?s) = 5" "int (length [97, 46 :: u8]) = 2" by simp_all
  ultimately show ?thesis by (simp only:)
qed

end
