(* ===== verification/Spec2Isabelle.thy ===== *)
theory Spec2Isabelle
  imports Decode_Outputs Inputs_Props Grammar_Repeat Tok_Round
begin

text \<open>
  \<^bold>\<open>A verification development for the inference library of the restaurant assistant.\<close>

  The assistant is a web service that asks a language model for answers; the model runs in the copy of llama.cpp under
  \<open>src/llm/llama.cpp\<close>. This development models the bookkeeping of that library: what it does around the numeric kernels to
  turn a text into tokens and back, to place tokens in the KV cache, to cut a batch into micro-batches, to fill the inputs of a
  graph, to return each token's output under the right index, and to force the answer into a grammar. Paths below are relative to \<open>src/llm/llama.cpp\<close>.

  \<^bold>\<open>The parts and how they interact.\<close>
  A caller turns its prompt into tokens (\<open>llama_vocab::tokenize\<close>) and submits a batch of them (\<open>llama_decode_impl\<close>). The batch is completed with default positions and sequence ids,
  formed into an sbatch and split into micro-batches; for each micro-batch pending shifts and a pending
  defragmentation of the KV cache are applied, a slot of cells is found and filled, the inputs of the graph (positions, attention
  masks, recurrent states, output ids) are set, the graph is computed on the cache and its output rows are copied to the
  output buffer. Afterwards the caller reads the row of a token, masks the candidates with the grammar, picks one, tells
  the grammar and turns the token into text (\<open>token_to_piece\<close>, \<open>detokenize\<close>).

  \<^bold>\<open>Theories.\<close>

  \<^item> \<open>Prelude\<close>: results that can abort, throw, diverge or be undefined (\<open>res\<close>), machine integers, loops over arrays, the locale
    of a component with an invariant.
  \<^item> \<open>Kv_Cache\<close>, \<open>Kv_Recurrent\<close>, \<open>Kv_Context\<close>: \<open>src/llama-kv-cache.h\<close> and \<open>.cpp\<close>. The record \<open>llama_kv_cache\<close> is
    the struct of the same name (the tensors of keys and values left out); every \<open>llama_kv_cache_*\<close> operation is the definition
    of its name. \<open>find_slot_loop\<close> is the circular search for consecutive free cells, \<open>Kv_Recurrent\<close> the search for recurrent
    models, where a cell is the state of a sequence. \<open>Kv_Context\<close> has the wrappers of the public interface, the slot
    restorer, the debugging view and \<open>kv_prepare\<close>, the cache part of \<open>llama_prepare_ubatch\<close>; its relation \<open>kv_step\<close> has one rule
    per operation.
  \<^item> \<open>Kv_Defrag\<close>: \<open>llama_kv_cache_defrag_impl\<close>, \<open>build_defrag\<close> and \<open>llama_kv_cache_update_impl\<close> of \<open>src/llama.cpp\<close>, on the cells
    and on the data of the cells.
  \<^item> \<open>Batch\<close>, \<open>Batch_Split\<close>, \<open>Batch_Form\<close>: \<open>src/llama-batch.h\<close> and \<open>.cpp\<close>, the definitions in \<open>Batch\<close>. The locale
    \<open>batch_splitter\<close> is what decoding relies on of a way to split; \<open>split_simple\<close>, \<open>split_equal\<close> and \<open>split_seq\<close> are its
    interpretations.
  \<^item> \<open>Inputs\<close>, \<open>Inputs_Fill\<close>, \<open>Inputs_Props\<close>: the builders of input tensors in \<open>src/llama.cpp\<close> and \<open>llama_set_inputs\<close> of
    \<open>src/llama-context.cpp\<close>: \<open>Inputs\<close> has the definitions, \<open>Inputs_Fill\<close> the attention masks, \<open>Inputs_Props\<close> the
    recurrent states, pooling and position buckets.
  \<^item> \<open>Decode\<close>, \<open>Decode_Outputs\<close>: \<open>llama_decode_impl\<close>, \<open>llama_encode_impl\<close> and their helpers in \<open>src/llama.cpp\<close>, the output
    buffer and its accessors in \<open>src/llama-context.cpp\<close>; the second theory has the proofs.
  \<^item> \<open>Utf8\<close>: the encoder and decoders of \<open>src/unicode.cpp\<close> and the streaming decoder of the grammar.
  \<^item> \<open>Grammar_Engine\<close>, \<open>Grammar_Lang\<close>, \<open>Grammar_Term\<close>, \<open>Grammar_Sampler\<close>: the pushdown automaton of \<open>src/llama-grammar.cpp\<close>
    (\<open>llama_grammar_advance_stack\<close>, \<open>llama_grammar_accept\<close>, the rejection of candidates, the check for left recursion, lazy
    grammars).
  \<^item> \<open>Grammar_Parser\<close>, \<open>Grammar_Text\<close>, \<open>Grammar_Repeat\<close>: the parser of GBNF texts in the same file.
  \<^item> \<open>Vocab\<close>: the vocabulary of \<open>src/llama-vocab.cpp\<close> and its lookups, the tables between bytes and printable characters.
  \<^item> \<open>Tok_Merge\<close>, \<open>Tok_Greedy\<close>, \<open>Tok_Session\<close>, \<open>Tok_Exact\<close>: the tokenizers that merge pairs, SPM and BPE. \<open>Tok_Merge\<close> is the
    code (symbols linked in an array, a priority queue with outdated entries), \<open>Tok_Greedy\<close> the plain algorithm; the locale
    \<open>merging_session\<close> of \<open>Tok_Session\<close> is what both sessions have in common, interpreted for each in \<open>Tok_Exact\<close>.
  \<^item> \<open>Tok_Trie\<close>, \<open>Tok_Wpm\<close>, \<open>Tok_Ugm\<close> with \<open>Tok_Viterbi\<close>: the trie and the RWKV, WPM and UGM tokenizers.
  \<^item> \<open>Tok_Split\<close>: cutting special tokens out of a text. \<open>Tok_Bytes\<close>, \<open>Tok_Pre\<close>: splitting a text into words
    (\<open>unicode_regex_split\<close> of \<open>src/unicode.cpp\<close>), where the locale \<open>split_round\<close> is what the two hand-written splitters promise.
  \<^item> \<open>Tokenize\<close>, \<open>Tok_Detok\<close>, \<open>Tok_Round\<close>: \<open>tokenize\<close>, \<open>token_to_piece\<close> and \<open>detokenize\<close> over all of these, what pieces and texts
    depend on, and the round trips of SPM and BPE.

  \<^bold>\<open>What is shown.\<close> For the cache of a Transformer: every reachable state satisfies the invariant (the counter of used cells is exact); the
  slot search returns, is complete and stores exactly the tokens; the sequence operations are the set operations they stand for, and are undefined exactly when a
  position overflows or is divided by zero; defragmentation permutes the occupied cells with their data and, with room for the copies, compacts them. Of a recurrent
  cache, where positions may go negative and the counter of used cells may drift (\<open>recurrent_used_drifts\<close>), the slot search and the removal of a sequence are specified. For batches: every way to split ends and yields every token exactly
  once, with the ids of the outputs in the order they are computed. For grammars: the automaton accepts
  exactly the language of the rules, the mask over candidates agrees with acceptance, the parser ends on every text
  and gives well-formed rules, repetitions denote repetitions. For decoding: the masks show every token exactly the cells of its sequences up to
  its position, and the outputs read by batch index are the rows computed for the tokens. For tokenizers: SPM and BPE compute
  the greedy merging, RWKV and WPM the longest tokens, UGM a segmentation of best score; special tokens are cut out and texts split
  into words without loss; texts do not depend on buffers, nor pieces on the cache (but for the blanks that RWKV vocabularies strip only with it); detokenizing
  the SPM or BPE tokens of a text gives the text back, after the clean-up of white space when a BPE vocabulary asks for it. Where the code does something else than its comments or callers
  expect, a theorem with a concrete run shows it.

  \<^bold>\<open>Bounds and fuel.\<close> \<open>split_all\<close> and \<open>decode_loop\<close> take as many rounds as there are tokens, enough since every round takes
  one; the parser's fuel is the length of the text plus one, enough since every nested group consumes a character;
  the merging sessions take at most three rounds per symbol, since a round consumes an entry and every merge adds two; the
  RWKV loop, the backtracking of UGM and the cutting of special tokens advance in every round, so the length of the text is
  enough; \<open>advance_stack\<close> has a fuel that is shown to exist for rules without left recursion. Counters of the
  cache are 32-bit words where they wrap, and the positions that shifts and divisions compute are checked 32-bit numbers (\<open>int32\<close>, \<open>int32_div\<close>). Other sizes and
  indices are natural numbers or integers, with the bound \<open>2 ^ 32\<close> as a hypothesis where it matters; the definitions follow the code for caches of fewer than \<open>2 ^ 31\<close> cells
  (\<open>find_slot_loop\<close>, \<open>find_slot_recurrent\<close>), texts of less than 2 GiB (\<open>rwkv_loop\<close>, \<open>detokenize\<close>), repetitions whose bounds differ by less than \<open>2 ^ 31\<close>
  (\<open>handle_repetitions\<close>) and models of at least one layer whose graph has two nodes per layer (\<open>defrag_max_moves\<close>).

  \<^bold>\<open>Parameters.\<close> The computation of a graph and what it writes, the logarithm in the position buckets, where buffers are placed,
  \<open>std::sort\<close>, the choice of a priority queue among equivalent entries, the arithmetic of floats, the generated Unicode tables and
  the regular expressions of the standard library. What is used of them is a named hypothesis of the theorems that need it.

  \<^bold>\<open>Not modelled.\<close> The graphs of the model architectures and the tensor library with its backends (numeric code; the
  computation of a graph is a parameter), loading and quantising models and vocabularies, the tables of regular expressions per model,
  samplers other than the grammar, the command-line tools, server and vendored headers, and the TypeScript service in front of it.
\<close>

end
